(* ===== verification/Prelude.thy ===== *)
theory Prelude
  imports Complex_Main
begin

text \<open>
  What every component shares: the insertion-ordered containers of JavaScript
  (\<open>Map\<close> and \<open>Set\<close> as the sources use them), runs of an operation over a
  state, and the contracts under which the components' lemmas are proved once.
  A JavaScript \<open>Map\<close> iterates over its keys in the order they were first
  inserted; overwriting a key keeps its place and deleting it gives the place up.
  Several components depend on that order, so a map is an association list.
\<close>

section \<open>Collections of facts\<close>

named_theorems js_simps \<open>rewriting of the ordered containers\<close>
named_theorems inv_intros \<open>one fact per operation that keeps an invariant\<close>

section \<open>Insertion-ordered sets\<close>

type_synonym 'a jset = "'a list"

definition set_has :: "'a jset \<Rightarrow> 'a \<Rightarrow> bool" where
  "set_has s x = (x \<in> set s)"

definition set_add :: "'a jset \<Rightarrow> 'a \<Rightarrow> 'a jset" where
  "set_add s x = (if x \<in> set s then s else s @ [x])"

definition set_delete :: "'a jset \<Rightarrow> 'a \<Rightarrow> 'a jset" where
  "set_delete s x = filter (\<lambda>y. y \<noteq> x) s"

definition set_add_all :: "'a jset \<Rightarrow> 'a list \<Rightarrow> 'a jset" where
  "set_add_all s xs = foldl set_add s xs"

definition set_delete_all :: "'a jset \<Rightarrow> 'a list \<Rightarrow> 'a jset" where
  "set_delete_all s xs = foldl set_delete s xs"

lemma set_set_add [simp, js_simps]: "set (set_add s x) = insert x (set s)"
  by (auto simp: set_add_def)

lemma set_set_delete [simp, js_simps]: "set (set_delete s x) = set s - {x}"
  by (auto simp: set_delete_def)

lemma distinct_set_add [simp, intro]: "distinct s \<Longrightarrow> distinct (set_add s x)"
  by (simp add: set_add_def)

lemma distinct_set_delete [simp, intro]: "distinct s \<Longrightarrow> distinct (set_delete s x)"
  by (simp add: set_delete_def)

lemma set_add_new: "x \<notin> set s \<Longrightarrow> set_add s x = s @ [x]"
  by (simp add: set_add_def)

lemma set_set_add_all [simp, js_simps]: "set (set_add_all s xs) = set s \<union> set xs"
  by (induction xs arbitrary: s) (auto simp: set_add_all_def)

lemma distinct_set_add_all [simp, intro]: "distinct s \<Longrightarrow> distinct (set_add_all s xs)"
  by (induction xs arbitrary: s) (auto simp: set_add_all_def)

lemma set_delete_all_filter: "set_delete_all s xs = filter (\<lambda>y. y \<notin> set xs) s"
proof (induction xs arbitrary: s)
  case Nil
  then show ?case by (simp add: set_delete_all_def)
next
  case (Cons x xs)
  have "set_delete_all s (x # xs) = set_delete_all (set_delete s x) xs"
    by (simp add: set_delete_all_def)
  then show ?case by (simp add: Cons.IH) (simp add: set_delete_def conj_commute)
qed

lemma set_set_delete_all [simp, js_simps]: "set (set_delete_all s xs) = set s - set xs"
  by (auto simp: set_delete_all_filter)

lemma distinct_set_delete_all [simp, intro]: "distinct s \<Longrightarrow> distinct (set_delete_all s xs)"
  by (simp add: set_delete_all_filter)

lemma length_set_delete: "distinct s \<Longrightarrow> x \<in> set s \<Longrightarrow> Suc (length (set_delete s x)) = length s"
proof -
  assume d: "distinct s" and x: "x \<in> set s"
  have "length (set_delete s x) = card (set s - {x})"
    using d distinct_card [of "set_delete s x"] by simp
  moreover have "length s = card (set s)" using d by (simp add: distinct_card)
  ultimately show ?thesis using x card_gt_0_iff [of "set s"] by (auto simp: card_Diff_singleton)
qed

section \<open>Insertion-ordered maps\<close>

type_synonym ('k, 'v) jmap = "('k \<times> 'v) list"

definition map_get :: "('k, 'v) jmap \<Rightarrow> 'k \<Rightarrow> 'v option" where
  "map_get m k = map_of m k"

fun map_set :: "('k, 'v) jmap \<Rightarrow> 'k \<Rightarrow> 'v \<Rightarrow> ('k, 'v) jmap" where
  "map_set [] k v = [(k, v)]"
| "map_set ((k', v') # m) k v = (if k' = k then (k, v) # m else (k', v') # map_set m k v)"

definition map_delete :: "('k, 'v) jmap \<Rightarrow> 'k \<Rightarrow> ('k, 'v) jmap" where
  "map_delete m k = filter (\<lambda>e. fst e \<noteq> k) m"

definition map_has :: "('k, 'v) jmap \<Rightarrow> 'k \<Rightarrow> bool" where
  "map_has m k = (k \<in> set (map fst m))"

definition map_keys :: "('k, 'v) jmap \<Rightarrow> 'k list" where
  "map_keys m = map fst m"

definition map_values :: "('k, 'v) jmap \<Rightarrow> 'v list" where
  "map_values m = map snd m"

text \<open>\<open>m.get(k) ?? d\<close>\<close>

definition map_get_or :: "('k, 'v) jmap \<Rightarrow> 'k \<Rightarrow> 'v \<Rightarrow> 'v" where
  "map_get_or m k d = (case map_get m k of None \<Rightarrow> d | Some v \<Rightarrow> v)"

definition wf_map :: "('k, 'v) jmap \<Rightarrow> bool" where
  "wf_map m = distinct (map fst m)"

lemma map_get_Nil [simp]: "map_get [] k = None"
  by (simp add: map_get_def)

lemma map_get_set [simp, js_simps]: "map_get (map_set m k v) k' = (if k' = k then Some v else map_get m k')"
  by (induction m k v rule: map_set.induct) (auto simp: map_get_def)

lemma map_get_delete [simp, js_simps]: "map_get (map_delete m k) k' = (if k' = k then None else map_get m k')"
  by (induction m) (auto simp: map_get_def map_delete_def)

lemma map_get_or_set [simp, js_simps]:
  "map_get_or (map_set m k v) k' d = (if k' = k then v else map_get_or m k' d)"
  by (simp add: map_get_or_def)

lemma map_has_get [js_simps]: "map_has m k = (map_get m k \<noteq> None)"
  by (simp add: map_has_def map_get_def map_of_eq_None_iff)

lemma keys_map_set: "map fst (map_set m k v) = (if k \<in> fst ` set m then map fst m else map fst m @ [k])"
  by (induction m k v rule: map_set.induct) auto

lemma set_keys_map_set [simp]: "fst ` set (map_set m k v) = insert k (fst ` set m)"
proof -
  have "set (map fst (map_set m k v)) = insert k (set (map fst m))"
    by (auto simp: keys_map_set image_iff)
  then show ?thesis by simp
qed

lemma set_keys_map_delete [simp]: "fst ` set (map_delete m k) = fst ` set m - {k}"
  by (auto simp: map_delete_def image_iff)

lemma wf_map_Nil [simp]: "wf_map []"
  by (simp add: wf_map_def)

lemma wf_map_set [simp, intro]: "wf_map m \<Longrightarrow> wf_map (map_set m k v)"
  by (simp add: wf_map_def keys_map_set)

lemma wf_map_delete [simp, intro]: "wf_map m \<Longrightarrow> wf_map (map_delete m k)"
  by (induction m) (auto simp: wf_map_def map_delete_def)

lemma map_get_eq_in_set: "wf_map m \<Longrightarrow> map_get m k = Some v \<longleftrightarrow> (k, v) \<in> set m"
  by (simp add: wf_map_def map_get_def)

lemma map_get_Some_in_set: "map_get m k = Some v \<Longrightarrow> (k, v) \<in> set m"
  by (simp add: map_get_def map_of_SomeD)

lemma map_get_None_iff: "map_get m k = None \<longleftrightarrow> k \<notin> fst ` set m"
  by (simp add: map_get_def map_of_eq_None_iff)

lemma map_set_fresh: "map_get m k = None \<Longrightarrow> map_set m k v = m @ [(k, v)]"
  by (induction m k v rule: map_set.induct) (auto simp: map_get_def split: if_splits)

lemma set_map_set_subset: "set (map_set m k v) \<subseteq> insert (k, v) (set m)"
  by (induction m k v rule: map_set.induct) auto

lemma in_set_map_set:
  "wf_map m \<Longrightarrow> (k', v') \<in> set (map_set m k v) \<longleftrightarrow> (if k' = k then v' = v else (k', v') \<in> set m)"
  by (simp add: map_get_eq_in_set [symmetric]) auto

lemma in_set_map_delete: "e \<in> set (map_delete m k) \<longleftrightarrow> e \<in> set m \<and> fst e \<noteq> k"
  by (simp add: map_delete_def)

section \<open>JSON values\<close>

text \<open>Objects keep their keys in order; a key whose value is \<open>undefined\<close> is absent.\<close>

datatype json =
    JNull
  | JBool bool
  | JNum rat
  | JStr string
  | JArr "json list"
  | JObj "(string, json) jmap"

section \<open>Numbers\<close>

text \<open>
  A JavaScript \<open>number\<close> where its special values matter. A finite one is kept as the rational it
  denotes; \<open>-0\<close> is \<open>0\<close>.
\<close>

datatype number = Num rat | NaN | PosInf | NegInf

section \<open>Decimal numerals\<close>

text \<open>How a template literal prints an integer.\<close>

definition digit :: "nat \<Rightarrow> char" where
  "digit n = char_of (48 + n)"

fun nat_dec :: "nat \<Rightarrow> string" where
  "nat_dec n = (if n < 10 then [digit n] else nat_dec (n div 10) @ [digit (n mod 10)])"

declare nat_dec.simps [simp del]

definition int_dec :: "int \<Rightarrow> string" where
  "int_dec i = (if i < 0 then CHR ''-'' # nat_dec (nat (- i)) else nat_dec (nat i))"

definition undigit :: "char \<Rightarrow> nat" where
  "undigit c = of_char c - 48"

definition read_dec :: "string \<Rightarrow> nat" where
  "read_dec s = foldl (\<lambda>n c. 10 * n + undigit c) 0 s"

lemma undigit_digit: "n < 10 \<Longrightarrow> undigit (digit n) = n"
  by (simp add: undigit_def digit_def)

lemma read_nat_dec: "read_dec (nat_dec n) = n"
proof (induction n rule: nat_dec.induct)
  case (1 n)
  show ?case
  proof (cases "n < 10")
    case True
    then show ?thesis by (simp add: nat_dec.simps [of n] read_dec_def undigit_digit)
  next
    case False
    then have "read_dec (nat_dec n) = 10 * read_dec (nat_dec (n div 10)) + undigit (digit (n mod 10))"
      by (simp add: nat_dec.simps [of n] read_dec_def)
    then show ?thesis using 1 False by (simp add: undigit_digit)
  qed
qed

lemma nat_dec_inject [simp]: "nat_dec m = nat_dec n \<longleftrightarrow> m = n"
  using read_nat_dec by metis

lemma of_char_digit [simp]: "n < 10 \<Longrightarrow> (of_char (digit n) :: nat) = 48 + n"
  by (simp add: digit_def)

lemma nat_dec_chars: "c \<in> set (nat_dec n) \<Longrightarrow> 48 \<le> (of_char c :: nat) \<and> (of_char c :: nat) < 58"
proof (induction n rule: nat_dec.induct)
  case (1 n)
  show ?case
  proof (cases "n < 10")
    case True
    then have "c = digit n" using "1.prems" by (simp add: nat_dec.simps [of n])
    then show ?thesis using True by simp
  next
    case False
    then have "c \<in> set (nat_dec (n div 10)) \<or> c = digit (n mod 10)"
      using "1.prems" by (auto simp: nat_dec.simps [of n])
    then show ?thesis using 1 False by auto
  qed
qed

lemma colon_not_in_nat_dec [simp]: "CHR '':'' \<notin> set (nat_dec n)"
  using nat_dec_chars [of "CHR '':''" n] by auto

lemma minus_not_in_nat_dec: "CHR ''-'' \<notin> set (nat_dec n)"
  using nat_dec_chars [of "CHR ''-''" n] by auto

lemma int_dec_inject [simp]: "int_dec i = int_dec j \<longleftrightarrow> i = j"
  using minus_not_in_nat_dec [of "nat i"] minus_not_in_nat_dec [of "nat j"]
  by (auto simp: int_dec_def split: if_splits) (metis list.set_intros(1))+

section \<open>The contract of a keyed store\<close>

text \<open>
  What a client of a \<open>Map\<close> relies on, whatever holds the entries: a read after a
  write, a read after a deletion, and that the keys stay unique. The lemmas inside are
  proved once for every store that keeps the contract.
\<close>

locale keyed_store =
  fixes empty :: "'s"
    and get :: "'s \<Rightarrow> 'k \<Rightarrow> 'v option"
    and put :: "'s \<Rightarrow> 'k \<Rightarrow> 'v \<Rightarrow> 's"
    and del :: "'s \<Rightarrow> 'k \<Rightarrow> 's"
    and invar :: "'s \<Rightarrow> bool"
  assumes get_empty: "get empty k = None"
    and get_put: "invar s \<Longrightarrow> get (put s k v) k' = (if k' = k then Some v else get s k')"
    and get_del: "invar s \<Longrightarrow> get (del s k) k' = (if k' = k then None else get s k')"
    and invar_empty: "invar empty"
    and invar_put: "invar s \<Longrightarrow> invar (put s k v)"
    and invar_del: "invar s \<Longrightarrow> invar (del s k)"
begin

definition put_all :: "'s \<Rightarrow> ('k \<times> 'v) list \<Rightarrow> 's" where
  "put_all s kvs = foldl (\<lambda>s kv. put s (fst kv) (snd kv)) s kvs"

lemma invar_put_all: "invar s \<Longrightarrow> invar (put_all s kvs)"
  by (induction kvs arbitrary: s) (auto simp: put_all_def invar_put)

lemma get_put_all:
  "invar s \<Longrightarrow> get (put_all s kvs) k = (case map_of (rev kvs) k of None \<Rightarrow> get s k | Some v \<Rightarrow> Some v)"
proof (induction kvs rule: rev_induct)
  case Nil
  then show ?case by (simp add: put_all_def)
next
  case (snoc kv kvs)
  have "put_all s (kvs @ [kv]) = put (put_all s kvs) (fst kv) (snd kv)"
    by (simp add: put_all_def)
  then show ?case
    using snoc by (cases kv) (auto simp: get_put invar_put_all)
qed

lemma put_put: "invar s \<Longrightarrow> get (put (put s k v) k w) = get (put s k w)"
  by (rule ext) (simp add: get_put invar_put)

lemma del_put: "invar s \<Longrightarrow> get (del (put s k v) k) = get (del s k)"
  by (rule ext) (simp add: get_put get_del invar_put)

end

interpretation jm: keyed_store "[]" map_get map_set map_delete wf_map
  by unfold_locales simp_all

section \<open>The contract of a step system\<close>

text \<open>
  A component is a state and operations on it. Its invariant holds after any
  sequence of operations if it holds at the start and each operation keeps it; what an
  operation leaves unchanged, or only ever increases, is unchanged or has increased after
  any sequence.
\<close>

locale step_system =
  fixes step :: "'s \<Rightarrow> 'op \<Rightarrow> 's"
    and start :: "'s"
    and inv :: "'s \<Rightarrow> bool"
  assumes inv_start: "inv start"
    and inv_step: "inv s \<Longrightarrow> inv (step s a)"
begin

lemma inv_run_from: "inv s \<Longrightarrow> inv (foldl step s ops)"
  by (induction ops arbitrary: s) (auto simp: inv_step)

lemma inv_run: "inv (foldl step start ops)"
  by (simp add: inv_run_from inv_start)

end

text \<open>A quantity that no operation lowers never falls over a run.\<close>

locale monotone_system = step_system step start inv
  for step :: "'s \<Rightarrow> 'op \<Rightarrow> 's" and start :: "'s" and inv :: "'s \<Rightarrow> bool" +
  fixes level :: "'s \<Rightarrow> 'm::preorder"
  assumes level_step: "inv s \<Longrightarrow> level s \<le> level (step s a)"
begin

lemma level_run_from: "inv s \<Longrightarrow> level s \<le> level (foldl step s ops)"
proof (induction ops arbitrary: s)
  case Nil
  then show ?case by simp
next
  case (Cons a ops)
  then have "level s \<le> level (step s a)" and "level (step s a) \<le> level (foldl step (step s a) ops)"
    by (auto intro: level_step simp: inv_step)
  then show ?case by (auto intro: order_trans)
qed

end

section \<open>Options, results, lists\<close>

text \<open>\<open>a ?? b\<close>\<close>

definition or_else :: "'a option \<Rightarrow> 'a \<Rightarrow> 'a" where
  "or_else a d = (case a of None \<Rightarrow> d | Some x \<Rightarrow> x)"

lemma or_else_simps [simp]: "or_else None d = d" "or_else (Some x) d = x"
  by (simp_all add: or_else_def)

text \<open>Sequencing of fallible steps: a thrown error (\<open>Inl\<close>) skips the rest.\<close>

definition try_bind :: "'e + 'a \<Rightarrow> ('a \<Rightarrow> 'e + 'b) \<Rightarrow> 'e + 'b" where
  "try_bind r f = (case r of Inl e \<Rightarrow> Inl e | Inr a \<Rightarrow> f a)"

definition throw_if :: "bool \<Rightarrow> 'e \<Rightarrow> 'e + unit" where
  "throw_if b e = (if b then Inl e else Inr ())"

lemma try_bind_simps [simp]: "try_bind (Inl e) f = Inl e" "try_bind (Inr a) f = f a"
  by (simp_all add: try_bind_def)

lemma try_bind_Inr: "try_bind r f = Inr b \<longleftrightarrow> (\<exists>a. r = Inr a \<and> f a = Inr b)"
  by (cases r) auto

lemma try_bind_Inl: "try_bind r f = Inl e \<longleftrightarrow> r = Inl e \<or> (\<exists>a. r = Inr a \<and> f a = Inl e)"
  by (cases r) auto

lemma throw_if_simps [simp]: "throw_if True e = Inl e" "throw_if False e = Inr ()"
  by (simp_all add: throw_if_def)

lemma throw_if_Inr [simp]: "throw_if b e = Inr u \<longleftrightarrow> \<not> b"
  by (simp add: throw_if_def)

lemma throw_if_Inl [simp]: "throw_if b e = Inl e' \<longleftrightarrow> b \<and> e' = e"
  by (auto simp: throw_if_def)

fun result_state :: "'s \<Rightarrow> 'e + ('a \<times> 's) \<Rightarrow> 's" where
  "result_state s (Inl e) = s"
| "result_state s (Inr (a, s')) = s'"

lemma sum_length_concat_le: "x \<in> set xs \<Longrightarrow> f x \<le> sum_list (map f xs)" for f :: "'a \<Rightarrow> nat"
  by (induction xs) auto

definition MAX_SAFE_INTEGER :: int where
  "MAX_SAFE_INTEGER = 9007199254740991"

section \<open>Splitting and joining at a separator\<close>

fun join_on :: "'a \<Rightarrow> 'a list list \<Rightarrow> 'a list" where
  "join_on c [] = []"
| "join_on c [l] = l"
| "join_on c (l # ls) = l @ c # join_on c ls"

fun split_on :: "'a \<Rightarrow> 'a list \<Rightarrow> 'a list list" where
  "split_on c [] = [[]]"
| "split_on c (x # s) = (if x = c then [] # split_on c s
     else case split_on c s of [] \<Rightarrow> [[x]] | l # ls \<Rightarrow> (x # l) # ls)"

lemma split_on_nonempty [simp]: "split_on c s \<noteq> []"
  by (induction s) (auto split: list.splits)

lemma split_on_no_sep: "l \<in> set (split_on c s) \<Longrightarrow> c \<notin> set l"
proof (induction s arbitrary: l)
  case Nil
  then show ?case by simp
next
  case (Cons x s)
  then show ?case by (cases "split_on c s") (auto split: if_splits)
qed

lemma split_on_append: "c \<notin> set l \<Longrightarrow> split_on c (l @ c # s) = l # split_on c s"
  by (induction l) auto

lemma split_on_single: "c \<notin> set l \<Longrightarrow> split_on c l = [l]"
  by (induction l) auto

lemma split_join_on: "ls \<noteq> [] \<Longrightarrow> (\<forall>l \<in> set ls. c \<notin> set l) \<Longrightarrow> split_on c (join_on c ls) = ls"
  by (induction c ls rule: join_on.induct) (auto simp: split_on_append split_on_single)

lemma split_on_snoc: "split_on c (s @ [c]) = split_on c s @ [[]]"
  by (induction s) (auto split: list.splits)

lemma join_on_Cons: "ls \<noteq> [] \<Longrightarrow> join_on c (l # ls) = l @ c # join_on c ls"
  by (cases ls) simp_all

lemma join_split_on: "join_on c (split_on c s) = s"
proof (induction s)
  case Nil
  then show ?case by simp
next
  case (Cons x s)
  then show ?case by (cases "split_on c s"; cases "tl (split_on c s)") (auto simp: join_on_Cons)
qed

end
