(* ===== verification/Graph_Inference.thy ===== *)
theory Graph_Inference
  imports Prelude
begin

text \<open>
  The inference of a run's stage graph from execution order
  (\<open>packages/workflows/src/engine/graph-inference.ts\<close>, class
  \<open>GraphFrontierTracker\<close>). A stage's parents are the frontier at its spawn; a
  settled stage replaces its parents in the frontier. Registration walks the recorded
  parents and throws on a cycle. The theory shows that the walk ends and finds a cycle
  exactly when there is one, that no sequence of operations can make the recorded graph
  cyclic, and that the frontier gives sequential and fork-join topologies.
\<close>

section \<open>State\<close>

type_synonym stage_id = string

record stage_node =
  sn_id :: stage_id
  sn_name :: string
  sn_parentIds :: "stage_id list"

record tracker =
  frontier :: "stage_id jset"
  stageParents :: "(stage_id, stage_id list) jmap"
  nodes :: "(stage_id, stage_node) jmap"
  detached :: "stage_id jset"

definition new_tracker :: tracker where
  "new_tracker = \<lparr>frontier = [], stageParents = [], nodes = [], detached = []\<rparr>"

datatype graph_error = GraphCycle stage_id

section \<open>The walk over recorded parents\<close>

text \<open>Visiting an id either uses up a recorded key or pushes nothing.\<close>

lemma acyclic_walk_decreases:
  assumes "pending \<noteq> []" and "last pending \<notin> set visited"
  shows "card (fst ` set m - insert (last pending) (set visited)) < card (fst ` set m - set visited) \<or>
    card (fst ` set m - insert (last pending) (set visited)) = card (fst ` set m - set visited) \<and>
    length (butlast pending @ map_get_or m (last pending) []) < length pending"
proof (cases "last pending \<in> fst ` set m")
  case True
  then have "fst ` set m - insert (last pending) (set visited) \<subset> fst ` set m - set visited"
    using assms(2) by auto
  then show ?thesis by (simp add: psubset_card_mono)
next
  case False
  then have "map_get m (last pending) = None" by (simp add: map_get_None_iff)
  moreover have "fst ` set m - insert (last pending) (set visited) = fst ` set m - set visited"
    using False by auto
  ultimately show ?thesis using assms(1) by (cases pending) (auto simp: map_get_or_def)
qed

text \<open>
  \<open>assertAcyclicParents\<close>: \<open>pending\<close> is the stack (pushed and popped at its end), the
  result is whether the walk returns without throwing.
\<close>

function acyclic_walk ::
  "(stage_id, stage_id list) jmap \<Rightarrow> stage_id \<Rightarrow> stage_id list \<Rightarrow> stage_id jset \<Rightarrow> bool" where
  "acyclic_walk m n pending visited =
     (if pending = [] then True
      else let p = last pending; rest = butlast pending in
        if p = n then False
        else if set_has visited p then acyclic_walk m n rest visited
        else acyclic_walk m n (rest @ map_get_or m p []) (set_add visited p))"
  by pat_completeness auto

termination
proof (relation "measures [\<lambda>(m, n, p, v). card (fst ` set m - set v), \<lambda>(m, n, p, v). length p]", goal_cases)
  case 1
  show ?case by simp
next
  case (2 m n pending visited p rest)
  then show ?case by (cases pending) auto
next
  case (3 m n pending visited p rest)
  then show ?case using acyclic_walk_decreases [of pending visited m] by (auto simp: set_has_def)
qed

declare acyclic_walk.simps [simp del]

definition assertAcyclicParents :: "tracker \<Rightarrow> stage_id \<Rightarrow> stage_id list \<Rightarrow> graph_error + unit" where
  "assertAcyclicParents t nodeId parentIds =
     (if acyclic_walk (stageParents t) nodeId parentIds [] then Inr () else Inl (GraphCycle nodeId))"

section \<open>Operations\<close>

definition onSpawn :: "tracker \<Rightarrow> stage_id \<Rightarrow> string \<Rightarrow> graph_error + (stage_id list \<times> tracker)" where
  "onSpawn t stageId stageName =
     (let parents = frontier t in
      case assertAcyclicParents t stageId parents of
        Inl e \<Rightarrow> Inl e
      | Inr _ \<Rightarrow> Inr (parents, t\<lparr>stageParents := map_set (stageParents t) stageId parents,
           nodes := map_set (nodes t) stageId
             \<lparr>sn_id = stageId, sn_name = stageName, sn_parentIds = parents\<rparr>\<rparr>))"

definition currentParents :: "tracker \<Rightarrow> stage_id list" where
  "currentParents t = frontier t"

definition replaceParents :: "tracker \<Rightarrow> stage_id \<Rightarrow> stage_id list \<Rightarrow> graph_error + (unit \<times> tracker)" where
  "replaceParents t stageId parents =
     (case assertAcyclicParents t stageId parents of
        Inl e \<Rightarrow> Inl e
      | Inr _ \<Rightarrow>
         (let t' = t\<lparr>stageParents := map_set (stageParents t) stageId parents\<rparr> in
          case map_get (nodes t) stageId of
            None \<Rightarrow> Inr ((), t')
          | Some node \<Rightarrow>
              Inr ((), t'\<lparr>nodes := map_set (nodes t) stageId (node\<lparr>sn_parentIds := parents\<rparr>)\<rparr>)))"

definition detach :: "tracker \<Rightarrow> stage_id \<Rightarrow> tracker" where
  "detach t stageId = t\<lparr>detached := set_add (detached t) stageId\<rparr>"

definition getParents :: "tracker \<Rightarrow> stage_id \<Rightarrow> stage_id list" where
  "getParents t stageId = map_get_or (stageParents t) stageId []"

definition onSettle :: "tracker \<Rightarrow> stage_id \<Rightarrow> tracker" where
  "onSettle t stageId =
     (if set_has (detached t) stageId then t
      else t\<lparr>frontier := set_add (set_delete_all (frontier t)
              (map_get_or (stageParents t) stageId [])) stageId\<rparr>)"

definition getNodes :: "tracker \<Rightarrow> stage_node list" where
  "getNodes t = map_values (nodes t)"

definition reset :: "tracker \<Rightarrow> tracker" where
  "reset t = t\<lparr>frontier := [], stageParents := [], nodes := [], detached := []\<rparr>"

text \<open>
  A run's use of the tracker as a sequence of operations. An operation that throws
  leaves the tracker as it was: the throw precedes every write.
\<close>

datatype graph_op =
    Spawn stage_id string
  | ReplaceParents stage_id "stage_id list"
  | Detach stage_id
  | Settle stage_id
  | Reset

fun graph_step :: "tracker \<Rightarrow> graph_op \<Rightarrow> tracker" where
  "graph_step t (Spawn i n) = result_state t (onSpawn t i n)"
| "graph_step t (ReplaceParents i ps) = result_state t (replaceParents t i ps)"
| "graph_step t (Detach i) = detach t i"
| "graph_step t (Settle i) = onSettle t i"
| "graph_step t Reset = reset t"

definition graph_run :: "graph_op list \<Rightarrow> tracker" where
  "graph_run ops = foldl graph_step new_tracker ops"

section \<open>The recorded graph\<close>

text \<open>An edge goes from a stage to each of its recorded parents.\<close>

definition parent_edges :: "(stage_id, stage_id list) jmap \<Rightarrow> (stage_id \<times> stage_id) set" where
  "parent_edges m = {(c, p). p \<in> set (map_get_or m c [])}"

lemma parent_edges_set:
  "parent_edges (map_set m n ps) = {(c, p) \<in> parent_edges m. c \<noteq> n} \<union> {n} \<times> set ps"
  by (auto simp: parent_edges_def split: if_splits)

lemma acyclic_parent_edges_Nil [simp]: "acyclic (parent_edges [])"
  by (simp add: parent_edges_def map_get_or_def acyclic_def)

lemma parent_edges_recorded: "(c, p) \<in> parent_edges m \<Longrightarrow> \<exists>ps. (c, ps) \<in> set m \<and> p \<in> set ps"
  by (cases "map_get m c") (auto simp: parent_edges_def map_get_or_def dest: map_get_Some_in_set)

text \<open>The walk fails exactly when the node is reached from the stack around the visited ids.\<close>

definition walk_closed :: "(stage_id, stage_id list) jmap \<Rightarrow> stage_id \<Rightarrow> stage_id list \<Rightarrow> stage_id jset \<Rightarrow> bool" where
  "walk_closed m n pending visited =
     (n \<notin> set visited \<and> (\<forall>v \<in> set visited. set (map_get_or m v []) \<subseteq> set visited \<union> set pending))"

lemma walk_closed_reach:
  assumes c: "walk_closed m n pending visited" and v: "v \<in> set visited"
    and r: "(v, n) \<in> (parent_edges m)\<^sup>*"
  shows "\<exists>p \<in> set pending. (p, n) \<in> (parent_edges m)\<^sup>*"
  using r v
proof (induction rule: converse_rtrancl_induct)
  case base
  then show ?case using c by (simp add: walk_closed_def)
next
  case (step a b)
  then have "b \<in> set visited \<union> set pending"
    using c by (auto simp: walk_closed_def parent_edges_def)
  then show ?case using step by auto
qed

lemma acyclic_walk_iff:
  "walk_closed m n pending visited \<Longrightarrow>
   acyclic_walk m n pending visited \<longleftrightarrow> (\<forall>p \<in> set pending. (p, n) \<notin> (parent_edges m)\<^sup>*)"
proof (induction m n pending visited rule: acyclic_walk.induct)
  case (1 m n pending visited)
  show ?case
  proof (cases "pending = []")
    case True
    then show ?thesis by (simp add: acyclic_walk.simps)
  next
    case False
    define p rest where "p = last pending" and "rest = butlast pending"
    have split: "set pending = insert p (set rest)"
      using False by (metis append_butlast_last_id list.set(1) list.simps(15) p_def rest_def
          rotate1.simps(2) set_rotate1)
    consider (hit) "p = n" | (seen) "p \<noteq> n" "p \<in> set visited" | (fresh) "p \<noteq> n" "p \<notin> set visited"
      by blast
    then show ?thesis
    proof cases
      case hit
      then show ?thesis using False split
        by (simp add: acyclic_walk.simps [of m n pending] p_def [symmetric])
    next
      case seen
      have closed: "walk_closed m n rest visited"
        using "1.prems" seen split by (auto simp: walk_closed_def)
      have "acyclic_walk m n pending visited = acyclic_walk m n rest visited"
        using False seen
        by (simp add: acyclic_walk.simps [of m n pending] p_def [symmetric] rest_def [symmetric] set_has_def)
      also have "\<dots> \<longleftrightarrow> (\<forall>q \<in> set rest. (q, n) \<notin> (parent_edges m)\<^sup>*)"
        using "1.IH"(1) [of p rest] False seen closed by (simp add: p_def rest_def set_has_def)
      also have "\<dots> \<longleftrightarrow> (\<forall>q \<in> set pending. (q, n) \<notin> (parent_edges m)\<^sup>*)"
        using walk_closed_reach [OF closed seen(2)] split by auto
      finally show ?thesis .
    next
      case fresh
      let ?pending = "rest @ map_get_or m p []"
      have closed: "walk_closed m n ?pending (set_add visited p)"
        using "1.prems" fresh split by (auto simp: walk_closed_def)
      have "acyclic_walk m n pending visited = acyclic_walk m n ?pending (set_add visited p)"
        using False fresh
        by (simp add: acyclic_walk.simps [of m n pending] p_def [symmetric] rest_def [symmetric] set_has_def)
      also have "\<dots> \<longleftrightarrow> (\<forall>q \<in> set ?pending. (q, n) \<notin> (parent_edges m)\<^sup>*)"
        using "1.IH"(2) [of p rest] False fresh closed by (simp add: p_def rest_def set_has_def)
      also have "\<dots> \<longleftrightarrow> (\<forall>q \<in> set pending. (q, n) \<notin> (parent_edges m)\<^sup>*)"
        using fresh(1) split
        by (auto simp: parent_edges_def elim: converse_rtranclE intro: converse_rtrancl_into_rtrancl)
      finally show ?thesis .
    qed
  qed
qed

lemma acyclic_walk_start:
  "acyclic_walk m n ps [] \<longleftrightarrow> (\<forall>p \<in> set ps. (p, n) \<notin> (parent_edges m)\<^sup>*)"
  by (rule acyclic_walk_iff) (simp add: walk_closed_def)

text \<open>A path to \<open>n\<close> first arrives there without the edges out of \<open>n\<close>.\<close>

lemma rtrancl_to_source: "(p, n) \<in> (r \<union> {n} \<times> S)\<^sup>* \<Longrightarrow> (p, n) \<in> r\<^sup>*"
proof (induction rule: converse_rtrancl_induct)
  case base
  then show ?case by simp
next
  case (step a b)
  then show ?case by (cases "a = n") (auto intro: converse_rtrancl_into_rtrancl)
qed

lemma acyclic_add_source:
  "acyclic r \<Longrightarrow> \<forall>p \<in> set ps. (p, n) \<notin> r\<^sup>* \<Longrightarrow> acyclic (r \<union> {n} \<times> set ps)"
proof (induction ps)
  case Nil
  then show ?case by simp
next
  case (Cons p ps)
  then have "acyclic (r \<union> {n} \<times> set ps)" by simp
  moreover have "(p, n) \<notin> (r \<union> {n} \<times> set ps)\<^sup>*"
    using Cons.prems(2) rtrancl_to_source [of p n r "set ps"] by auto
  moreover have "r \<union> {n} \<times> set (p # ps) = insert (n, p) (r \<union> {n} \<times> set ps)" by auto
  ultimately show ?case by (simp only: acyclic_insert) simp
qed

lemma acyclic_parent_edges_set:
  assumes "acyclic (parent_edges m)" and "acyclic_walk m n ps []"
  shows "acyclic (parent_edges (map_set m n ps))"
proof -
  have "acyclic (parent_edges m \<union> {n} \<times> set ps)"
    using assms by (intro acyclic_add_source) (simp_all add: acyclic_walk_start)
  then show ?thesis by (rule acyclic_subset) (auto simp: parent_edges_set)
qed

section \<open>The invariant\<close>

definition nodes_agree :: "tracker \<Rightarrow> bool" where
  "nodes_agree t = (\<forall>i n. map_get (nodes t) i = Some n \<longrightarrow>
     sn_id n = i \<and> map_get (stageParents t) i = Some (sn_parentIds n))"

definition graph_inv :: "tracker \<Rightarrow> bool" where
  "graph_inv t = (acyclic (parent_edges (stageParents t)) \<and> nodes_agree t \<and> distinct (frontier t) \<and>
     distinct (detached t) \<and> wf_map (stageParents t) \<and> wf_map (nodes t))"

lemma onSpawn_Inr:
  "onSpawn t i n = Inr (ps, t') \<Longrightarrow> ps = frontier t \<and> acyclic_walk (stageParents t) i ps [] \<and>
   t' = t\<lparr>stageParents := map_set (stageParents t) i ps,
     nodes := map_set (nodes t) i \<lparr>sn_id = i, sn_name = n, sn_parentIds = ps\<rparr>\<rparr>"
  by (auto simp: onSpawn_def assertAcyclicParents_def Let_def split: if_splits)

lemma graph_inv_spawn [inv_intros]: "graph_inv t \<Longrightarrow> onSpawn t i n = Inr (ps, t') \<Longrightarrow> graph_inv t'"
  by (auto dest!: onSpawn_Inr simp: graph_inv_def nodes_agree_def acyclic_parent_edges_set split: if_splits)

lemma graph_inv_replace [inv_intros]:
  assumes inv: "graph_inv t" and ok: "replaceParents t i ps = Inr (u, t')"
  shows "graph_inv t'"
proof -
  have walk: "acyclic_walk (stageParents t) i ps []"
    and t': "t' = (case map_get (nodes t) i of
        None \<Rightarrow> t\<lparr>stageParents := map_set (stageParents t) i ps\<rparr>
      | Some node \<Rightarrow> t\<lparr>stageParents := map_set (stageParents t) i ps,
          nodes := map_set (nodes t) i (node\<lparr>sn_parentIds := ps\<rparr>)\<rparr>)"
    using ok by (auto simp: replaceParents_def assertAcyclicParents_def Let_def
        split: if_splits option.splits)
  have "acyclic (parent_edges (map_set (stageParents t) i ps))"
    using inv walk by (simp add: graph_inv_def acyclic_parent_edges_set)
  then show ?thesis
    using inv t' by (auto simp: graph_inv_def nodes_agree_def split: option.splits)
qed

lemma graph_inv_detach [inv_intros]: "graph_inv t \<Longrightarrow> graph_inv (detach t i)"
  by (simp add: graph_inv_def nodes_agree_def detach_def)

lemma graph_inv_settle [inv_intros]: "graph_inv t \<Longrightarrow> graph_inv (onSettle t i)"
  by (simp add: graph_inv_def nodes_agree_def onSettle_def)

lemma graph_inv_reset [inv_intros]: "graph_inv (reset t)"
  by (simp add: graph_inv_def nodes_agree_def reset_def)

lemma graph_inv_new: "graph_inv new_tracker"
  by (simp add: graph_inv_def nodes_agree_def new_tracker_def)

lemma graph_inv_step: "graph_inv t \<Longrightarrow> graph_inv (graph_step t a)"
proof (cases a)
  case (Spawn i n)
  moreover assume "graph_inv t"
  ultimately show ?thesis by (cases "onSpawn t i n") (auto intro: inv_intros)
next
  case (ReplaceParents i ps)
  moreover assume "graph_inv t"
  ultimately show ?thesis by (cases "replaceParents t i ps") (auto intro: inv_intros)
qed (auto intro: inv_intros)

interpretation gt: step_system graph_step new_tracker graph_inv
  by unfold_locales (simp_all add: graph_inv_new graph_inv_step)

section \<open>Topology of spawned stages\<close>

text \<open>An id the tracker has not seen: not settled, not detached, without parents or children.\<close>

definition fresh_id :: "tracker \<Rightarrow> stage_id \<Rightarrow> bool" where
  "fresh_id t i = (i \<notin> set (frontier t) \<and> i \<notin> set (detached t) \<and> map_get (stageParents t) i = None \<and>
     (\<forall>e \<in> set (stageParents t). i \<notin> set (snd e)))"

lemma fresh_id_unreached:
  assumes "fresh_id t i" and "p \<noteq> i"
  shows "(p, i) \<notin> (parent_edges (stageParents t))\<^sup>*"
proof
  assume "(p, i) \<in> (parent_edges (stageParents t))\<^sup>*"
  then obtain c where "(c, i) \<in> parent_edges (stageParents t)"
    using assms(2) by (cases rule: rtranclE) auto
  then show False
    using assms(1) by (fastforce simp: fresh_id_def dest: parent_edges_recorded)
qed

lemma onSpawn_fresh:
  assumes "fresh_id t i"
  shows "onSpawn t i n = Inr (frontier t, t\<lparr>stageParents := map_set (stageParents t) i (frontier t),
     nodes := map_set (nodes t) i \<lparr>sn_id = i, sn_name = n, sn_parentIds = frontier t\<rparr>\<rparr>)"
proof -
  have "\<forall>p \<in> set (frontier t). (p, i) \<notin> (parent_edges (stageParents t))\<^sup>*"
  proof
    fix p
    assume "p \<in> set (frontier t)"
    then have "p \<noteq> i" using assms by (auto simp: fresh_id_def)
    then show "(p, i) \<notin> (parent_edges (stageParents t))\<^sup>*" by (rule fresh_id_unreached [OF assms])
  qed
  then show ?thesis by (simp add: onSpawn_def assertAcyclicParents_def acyclic_walk_start Let_def)
qed

lemma spawn_all_fresh:
  fixes nm :: "stage_id \<Rightarrow> string"
  assumes "distinct ids" and "\<forall>i \<in> set ids. fresh_id t i"
  defines "t' \<equiv> foldl graph_step t (map (\<lambda>i. Spawn i (nm i)) ids)"
  shows "frontier t' = frontier t \<and> detached t' = detached t \<and> (\<forall>i. map_get (stageParents t') i =
    (if i \<in> set ids then Some (frontier t) else map_get (stageParents t) i))"
  using assms(1,2) unfolding t'_def
proof (induction ids arbitrary: t)
  case Nil
  then show ?case by simp
next
  case (Cons x ids)
  let ?t = "graph_step t (Spawn x (nm x))"
  have x: "fresh_id t x" using Cons.prems by simp
  have t: "?t = t\<lparr>stageParents := map_set (stageParents t) x (frontier t),
     nodes := map_set (nodes t) x \<lparr>sn_id = x, sn_name = nm x, sn_parentIds = frontier t\<rparr>\<rparr>"
    by (simp add: onSpawn_fresh [OF x])
  have "\<forall>i \<in> set ids. fresh_id ?t i"
  proof
    fix i
    assume i: "i \<in> set ids"
    then have "fresh_id t i" and "i \<noteq> x" using Cons.prems by auto
    then show "fresh_id ?t i"
      unfolding t fresh_id_def using set_map_set_subset [of "stageParents t" x "frontier t"] by auto
  qed
  then show ?case using Cons.IH [of ?t] Cons.prems(1) by (simp add: onSpawn_fresh [OF x])
qed

lemma settle_all:
  assumes "distinct order" and "\<forall>i \<in> set order. i \<notin> set (detached t) \<and> i \<notin> set (frontier t) \<and>
    i \<notin> set F \<and> map_get (stageParents t) i = Some F"
  shows "frontier (foldl graph_step t (map Settle order)) =
    (if order = [] then frontier t else filter (\<lambda>p. p \<notin> set F) (frontier t) @ order)"
  using assms
proof (induction order arbitrary: t)
  case Nil
  then show ?case by simp
next
  case (Cons x order)
  let ?t = "onSettle t x"
  have f: "frontier ?t = filter (\<lambda>p. p \<notin> set F) (frontier t) @ [x]"
    using Cons.prems(2) by (simp add: onSettle_def set_has_def map_get_or_def set_delete_all_filter set_add_new)
  have same: "detached ?t = detached t" "stageParents ?t = stageParents t"
    by (simp_all add: onSettle_def)
  have "frontier (foldl graph_step ?t (map Settle order)) =
      (if order = [] then frontier ?t else filter (\<lambda>p. p \<notin> set F) (frontier ?t) @ order)"
    using Cons.prems by (intro Cons.IH) (auto simp: f same)
  then show ?case using Cons.prems by (simp add: f)
qed

section \<open>Properties\<close>

text \<open>
  C2. Registering a stage with given parents throws exactly when the stage can be reached
  from one of those parents along recorded parents (or is one of them), that is exactly when
  the registration would close a cycle; the walk always ends.
\<close>

theorem assertAcyclicParents_exact:
  "assertAcyclicParents t n ps =
     (if \<exists>p \<in> set ps. (p, n) \<in> (parent_edges (stageParents t))\<^sup>* then Inl (GraphCycle n) else Inr ())"
  by (simp add: assertAcyclicParents_def acyclic_walk_start)

text \<open>
  C1. Whatever sequence of spawns, parent replacements, detachments, settlements and
  resets a run performs, the recorded stage graph is acyclic, every node lists the parents
  recorded for it, and the frontier holds each stage once.
\<close>

theorem graph_run_acyclic:
  "acyclic (parent_edges (stageParents (graph_run ops))) \<and> nodes_agree (graph_run ops) \<and>
   distinct (frontier (graph_run ops))"
  using gt.inv_run [of ops] by (simp add: graph_run_def graph_inv_def)

text \<open>
  C3. Fork and join: stages spawned together from one frontier all get that frontier as
  parents, and once all of them have settled, in whatever order, the next stage's inferred
  parents are exactly these stages, in the order they settled.
\<close>

theorem fork_join_parents:
  fixes nm :: "stage_id \<Rightarrow> string"
  assumes "distinct ids" and "\<forall>i \<in> set ids. fresh_id t i" and "ids \<noteq> []" and "set order = set ids"
    and "distinct order"
  defines "spawned \<equiv> foldl graph_step t (map (\<lambda>i. Spawn i (nm i)) ids)"
  shows "(\<forall>i \<in> set ids. getParents spawned i = frontier t) \<and>
    currentParents (foldl graph_step spawned (map Settle order)) = order"
proof -
  note sp = spawn_all_fresh [OF assms(1,2), of nm, folded spawned_def]
  have "frontier (foldl graph_step spawned (map Settle order)) =
      (if order = [] then frontier spawned else filter (\<lambda>p. p \<notin> set (frontier t)) (frontier spawned) @ order)"
    using sp assms by (intro settle_all) (auto simp: fresh_id_def)
  moreover have "order \<noteq> []" using assms(3,4) by auto
  ultimately show ?thesis
    using sp by (simp add: currentParents_def getParents_def map_get_or_def)
qed

theorem fork_join_parents_witness:
  "currentParents (graph_run [Spawn ''a'' ''A'', Spawn ''b'' ''B'', Settle ''b'', Settle ''a'']) = [''b'', ''a'']"
proof -
  have "\<forall>i \<in> set [''a'', ''b'']. fresh_id new_tracker i"
    by (simp add: fresh_id_def new_tracker_def)
  then show ?thesis
    using fork_join_parents [of "[''a'', ''b'']" new_tracker "[''b'', ''a'']"
        "\<lambda>i. if i = ''a'' then ''A'' else ''B''"]
    by (simp add: graph_run_def insert_commute)
qed

end
