(* ===== verification/Js_Text.thy ===== *)
theory Js_Text
  imports Prelude "HOL-Library.Word"
begin

text \<open>
  JavaScript text as the code sees it: a sequence of UTF-16 code units, its code points, and the UTF-8 bytes that
  \<open>Buffer.from\<close> makes of it and \<open>toString\<close> reads back, with U+FFFD for what cannot be encoded or decoded.
\<close>

unbundle bit_operations_syntax

section \<open>Units, code points and bytes\<close>

type_synonym js_text = "16 word list"

definition high_surrogate :: "16 word \<Rightarrow> bool" where
  "high_surrogate u = (0xD800 \<le> u \<and> u \<le> 0xDBFF)"

definition low_surrogate :: "16 word \<Rightarrow> bool" where
  "low_surrogate u = (0xDC00 \<le> u \<and> u \<le> 0xDFFF)"

text \<open>The code points of a text; a surrogate without its partner stands for itself.\<close>

fun code_points :: "js_text \<Rightarrow> nat list" where
  "code_points [] = []"
| "code_points (u # us) =
     (case us of
        v # vs \<Rightarrow>
          if high_surrogate u \<and> low_surrogate v
          then (0x10000 + (unat u - 0xD800) * 0x400 + (unat v - 0xDC00)) # code_points vs
          else unat u # code_points us
      | [] \<Rightarrow> [unat u])"

definition is_surrogate_point :: "nat \<Rightarrow> bool" where
  "is_surrogate_point c = (0xD800 \<le> c \<and> c \<le> 0xDFFF)"

text \<open>The bytes of \<open>Buffer.from(text)\<close>: UTF-8, a lone surrogate replaced by U+FFFD.\<close>

definition utf8_point :: "nat \<Rightarrow> nat list" where
  "utf8_point c0 =
     (let c = (if is_surrogate_point c0 then 0xFFFD else c0) in
      if c < 0x80 then [c]
      else if c < 0x800 then [0xC0 + c div 0x40, 0x80 + c mod 0x40]
      else if c < 0x10000 then [0xE0 + c div 0x1000, 0x80 + c div 0x40 mod 0x40, 0x80 + c mod 0x40]
      else [0xF0 + c div 0x40000, 0x80 + c div 0x1000 mod 0x40, 0x80 + c div 0x40 mod 0x40, 0x80 + c mod 0x40])"

definition utf8_bytes :: "js_text \<Rightarrow> nat list" where
  "utf8_bytes t = concat (map utf8_point (code_points t))"

definition byteLength :: "js_text \<Rightarrow> nat" where
  "byteLength t = length (utf8_bytes t)"

section \<open>Reading bytes\<close>

definition point_units :: "nat \<Rightarrow> js_text" where
  "point_units c =
    (if c < 0x10000 then [of_nat c]
     else [of_nat (0xD800 + (c - 0x10000) div 0x400), of_nat (0xDC00 + (c - 0x10000) mod 0x400)])"

text \<open>
  What a lead byte announces: the number of continuation bytes, the bits it carries and the bounds of the first
  continuation byte, which exclude overlong forms, surrogates and points beyond U+10FFFF.
\<close>

definition lead_byte :: "nat \<Rightarrow> (nat \<times> nat \<times> nat \<times> nat) option" where
  "lead_byte b =
    (if b < 0x80 then Some (0, b, 0x80, 0xBF)
     else if 0xC2 \<le> b \<and> b \<le> 0xDF then Some (1, b - 0xC0, 0x80, 0xBF)
     else if b = 0xE0 then Some (2, 0, 0xA0, 0xBF)
     else if b = 0xED then Some (2, 0xD, 0x80, 0x9F)
     else if 0xE1 \<le> b \<and> b \<le> 0xEF then Some (2, b - 0xE0, 0x80, 0xBF)
     else if b = 0xF0 then Some (3, 0, 0x90, 0xBF)
     else if 0xF1 \<le> b \<and> b \<le> 0xF3 then Some (3, b - 0xF0, 0x80, 0xBF)
     else if b = 0xF4 then Some (3, 4, 0x80, 0x8F)
     else None)"

fun continuation :: "nat \<Rightarrow> nat \<Rightarrow> nat \<Rightarrow> nat \<Rightarrow> nat list \<Rightarrow> nat option \<times> nat list" where
  "continuation 0 lo hi acc bs = (Some acc, bs)"
| "continuation (Suc n) lo hi acc [] = (None, [])"
| "continuation (Suc n) lo hi acc (b # bs) =
    (if lo \<le> b \<and> b \<le> hi then continuation n 0x80 0xBF (acc * 0x40 + (b - 0x80)) bs else (None, b # bs))"

lemma continuation_rest: "(c, rest) = continuation n lo hi acc bs \<Longrightarrow> length rest < Suc (length bs)"
  by (induction n lo hi acc bs rule: continuation.induct) (auto split: if_splits)

text \<open>\<open>toString("utf-8")\<close>: each ill-formed sequence gives one U+FFFD, and the offending byte is read again.\<close>

function decode_utf8 :: "nat list \<Rightarrow> js_text" where
  "decode_utf8 [] = []"
| "decode_utf8 (b # bs) = (case lead_byte b of
      None \<Rightarrow> 0xFFFD # decode_utf8 bs
    | Some (n, acc, lo, hi) \<Rightarrow>
        (case continuation n lo hi acc bs of
           (Some c, rest) \<Rightarrow> point_units c @ decode_utf8 rest
         | (None, rest) \<Rightarrow> 0xFFFD # decode_utf8 rest))"
  by pat_completeness auto
termination
  by (relation "measure length") (auto dest: continuation_rest)

definition scalar_point :: "nat \<Rightarrow> bool" where
  "scalar_point c \<longleftrightarrow> c < 0x110000 \<and> \<not> is_surrogate_point c"

text \<open>A lone surrogate is encoded as the replacement character.\<close>

definition to_scalar :: "nat \<Rightarrow> nat" where
  "to_scalar c = (if is_surrogate_point c then 0xFFFD else c)"

definition points_text :: "nat list \<Rightarrow> js_text" where
  "points_text cs = concat (map point_units cs)"

definition encode_points :: "nat list \<Rightarrow> nat list" where
  "encode_points cs = concat (map utf8_point cs)"

definition well_formed :: "js_text \<Rightarrow> bool" where
  "well_formed t = (\<not> list_ex is_surrogate_point (code_points t))"

section \<open>Laws\<close>

lemma points_text_simps [simp]:
  "points_text [] = []" "points_text (c # cs) = point_units c @ points_text cs" "points_text (cs @ ds) = points_text cs @ points_text ds"
  by (simp_all add: points_text_def)

lemma encode_points_simps [simp]:
  "encode_points [] = []" "encode_points (c # cs) = utf8_point c @ encode_points cs"
  "encode_points (cs @ ds) = encode_points cs @ encode_points ds"
  by (simp_all add: encode_points_def)

lemma utf8_bytes_points: "utf8_bytes t = encode_points (code_points t)"
  by (simp add: utf8_bytes_def encode_points_def)

lemma utf8_point_scalar: "utf8_point (to_scalar c) = utf8_point c"
  by (simp add: utf8_point_def to_scalar_def is_surrogate_point_def Let_def)

lemma encode_scalars: "encode_points (map to_scalar cs) = encode_points cs"
  by (induction cs) (simp_all add: utf8_point_scalar)

lemma unat_bound: "unat (u :: 16 word) < 0x10000"
  using unsigned_less [of u] by simp

lemma surrogate_units:
  "high_surrogate u \<longleftrightarrow> 0xD800 \<le> unat u \<and> unat u \<le> 0xDBFF" "low_surrogate u \<longleftrightarrow> 0xDC00 \<le> unat u \<and> unat u \<le> 0xDFFF"
  by (simp_all add: high_surrogate_def low_surrogate_def word_le_nat_alt)

lemma code_points_bound: "c \<in> set (code_points t) \<Longrightarrow> c < 0x110000"
proof (induction t rule: code_points.induct)
  case 1
  then show ?case by simp
next
  case (2 u us)
  then show ?case using unat_bound [of u] by (cases us) (auto simp: surrogate_units split: if_splits)
qed

lemma to_scalar_scalar: "c < 0x110000 \<Longrightarrow> scalar_point (to_scalar c)"
  by (simp add: scalar_point_def to_scalar_def is_surrogate_point_def)

lemma points_text_code_points: "points_text (code_points t) = t"
proof (induction t rule: code_points.induct)
  case 1
  then show ?case by simp
next
  case (2 u us)
  have bmp: "point_units (unat u) = [u]" using unat_bound [of u] by (simp add: point_units_def)
  show ?case
  proof (cases us)
    case Nil
    then show ?thesis using bmp by simp
  next
    case (Cons v vs)
    show ?thesis
    proof (cases "high_surrogate u \<and> low_surrogate v")
      case True
      define a b where "a = unat u - 0xD800" and "b = unat v - 0xDC00"
      have ab: "unat u = 0xD800 + a" "unat v = 0xDC00 + b" "a < 0x400" "b < 0x400"
        using True by (auto simp: surrogate_units a_def b_def)
      have "(a * 0x400 + b) div 0x400 = a" "(a * 0x400 + b) mod 0x400 = b" using ab by auto
      moreover have "u = of_nat (0xD800 + a)" "v = of_nat (0xDC00 + b)" by (simp_all add: ab(1,2) [symmetric])
      ultimately have "point_units (0x10000 + a * 0x400 + b) = [u, v]" by (simp add: point_units_def)
      then show ?thesis using True Cons 2 by (simp add: a_def b_def)
    next
      case False
      then show ?thesis using Cons 2 bmp by auto
    qed
  qed
qed

lemma continuation_bytes:
  "l < 0x40 \<Longrightarrow> continuation 1 0x80 0xBF h ((0x80 + l) # bs) = (Some (h * 0x40 + l), bs)"
  "lo \<le> 0x80 + m \<Longrightarrow> 0x80 + m \<le> hi \<Longrightarrow> l < 0x40 \<Longrightarrow>
    continuation 2 lo hi h ((0x80 + m) # (0x80 + l) # bs) = (Some ((h * 0x40 + m) * 0x40 + l), bs)"
  "lo \<le> 0x80 + m \<Longrightarrow> 0x80 + m \<le> hi \<Longrightarrow> m' < 0x40 \<Longrightarrow> l < 0x40 \<Longrightarrow>
    continuation 3 lo hi h ((0x80 + m) # (0x80 + m') # (0x80 + l) # bs) = (Some (((h * 0x40 + m) * 0x40 + m') * 0x40 + l), bs)"
  by (simp_all add: numeral_2_eq_2 numeral_3_eq_3)

lemma decode_point:
  assumes "scalar_point c"
  shows "decode_utf8 (utf8_point c @ bs) = point_units c @ decode_utf8 bs"
proof -
  have ns: "\<not> is_surrogate_point c" "c < 0x110000" using assms by (auto simp: scalar_point_def)
  consider "c < 0x80" | "0x80 \<le> c" "c < 0x800" | "0x800 \<le> c" "c < 0x10000" | "0x10000 \<le> c" by linarith
  then show ?thesis
  proof cases
    case 1
    then show ?thesis using ns by (simp add: utf8_point_def lead_byte_def)
  next
    case 2
    define h l where "h = c div 0x40" and "l = c mod 0x40"
    have hl: "c = h * 0x40 + l" "l < 0x40" "2 \<le> h" "h < 0x20" using 2 by (auto simp: h_def l_def)
    have "utf8_point c = [0xC0 + h, 0x80 + l]" using 2 ns by (simp add: utf8_point_def h_def l_def)
    moreover have "lead_byte (0xC0 + h) = Some (1, h, 0x80, 0xBF)" using hl by (simp add: lead_byte_def)
    moreover have "continuation 1 0x80 0xBF h ((0x80 + l) # bs) = (Some c, bs)" unfolding hl(1) using hl(2) by (intro continuation_bytes(1))
    ultimately show ?thesis by simp
  next
    case 3
    define h m l where "h = c div 0x1000" and "m = c div 0x40 mod 0x40" and "l = c mod 0x40"
    have d: "c div 0x40 = h * 0x40 + m" using div_mult_mod_eq [of "c div 0x40" "0x40"] by (simp add: h_def m_def div_mult2_eq [symmetric])
    then have hl: "c = (h * 0x40 + m) * 0x40 + l" "m < 0x40" "l < 0x40"
      using div_mult_mod_eq [of c "0x40"] by (simp_all add: l_def m_def)
    have h: "h < 0x10" using 3 by (simp add: h_def less_mult_imp_div_less)
    have over: "0x20 \<le> m" if "h = 0" using 3(1) hl(1,3) that by simp
    have sur: "h = 0xD \<Longrightarrow> m < 0x20" using ns(1) hl by (simp add: is_surrogate_point_def)
    have "utf8_point c = [0xE0 + h, 0x80 + m, 0x80 + l]" using 3 ns by (simp add: utf8_point_def h_def m_def l_def)
    moreover have "\<exists>lo hi. lead_byte (0xE0 + h) = Some (2, h, lo, hi) \<and> lo \<le> 0x80 + m \<and> 0x80 + m \<le> hi"
      using h over sur hl(2) by (cases "h = 0"; cases "h = 0xD") (auto simp: lead_byte_def)
    then obtain lo hi where "lead_byte (0xE0 + h) = Some (2, h, lo, hi)" and bounds: "lo \<le> 0x80 + m" "0x80 + m \<le> hi" by blast
    moreover have "continuation 2 lo hi h ((0x80 + m) # (0x80 + l) # bs) = (Some c, bs)" unfolding hl(1) using bounds hl(2-) by (intro continuation_bytes(2))
    ultimately show ?thesis by simp
  next
    case 4
    define h m m' l where "h = c div 0x40000" and "m = c div 0x1000 mod 0x40" and "m' = c div 0x40 mod 0x40" and "l = c mod 0x40"
    have "c div 0x1000 = h * 0x40 + m" using div_mult_mod_eq [of "c div 0x1000" "0x40"] by (simp add: h_def m_def div_mult2_eq [symmetric])
    moreover have "c div 0x40 = c div 0x1000 * 0x40 + m'"
      using div_mult_mod_eq [of "c div 0x40" "0x40"] by (simp add: m'_def div_mult2_eq [symmetric])
    ultimately have hl: "c = ((h * 0x40 + m) * 0x40 + m') * 0x40 + l" "m < 0x40" "m' < 0x40" "l < 0x40"
      using div_mult_mod_eq [of c "0x40"] by (simp_all add: l_def m_def m'_def)
    have h: "h \<le> 4" using ns(2) by (simp add: h_def)
    have over: "0x10 \<le> m" if "h = 0" using 4 hl(1,3,4) that by simp
    have top: "m < 0x10" if "h = 4" using ns(2) hl(1) that by simp
    have "utf8_point c = [0xF0 + h, 0x80 + m, 0x80 + m', 0x80 + l]"
      using 4 ns by (simp add: utf8_point_def h_def m_def m'_def l_def)
    moreover have "\<exists>lo hi. lead_byte (0xF0 + h) = Some (3, h, lo, hi) \<and> lo \<le> 0x80 + m \<and> 0x80 + m \<le> hi"
      using h over top hl(2) by (cases "h = 0"; cases "h = 4") (auto simp: lead_byte_def)
    then obtain lo hi where "lead_byte (0xF0 + h) = Some (3, h, lo, hi)" and bounds: "lo \<le> 0x80 + m" "0x80 + m \<le> hi" by blast
    moreover have "continuation 3 lo hi h ((0x80 + m) # (0x80 + m') # (0x80 + l) # bs) = (Some c, bs)" unfolding hl(1) using bounds hl(2-) by (intro continuation_bytes(3))
    ultimately show ?thesis by simp
  qed
qed

lemma decode_encode: "list_all scalar_point cs \<Longrightarrow> decode_utf8 (encode_points cs) = points_text cs"
  by (induction cs) (simp_all add: decode_point)

lemma code_points_point:
  assumes "scalar_point c"
  shows "code_points (point_units c @ us) = c # code_points us"
proof (cases "c < 0x10000")
  case True
  then have "unat (of_nat c :: 16 word) = c" by (simp add: unat_of_nat take_bit_nat_eq_self_iff)
  then show ?thesis using True assms
    by (cases us) (auto simp: point_units_def surrogate_units scalar_point_def is_surrogate_point_def)
next
  case False
  define a b where "a = (c - 0x10000) div 0x400" and "b = (c - 0x10000) mod 0x400"
  have "c - 0x10000 < 0x100000" using assms False by (auto simp: scalar_point_def)
  then have ab: "a < 0x400" "b < 0x400" "c = 0x10000 + a * 0x400 + b" using False by (auto simp: a_def b_def less_mult_imp_div_less)
  have u: "unat (of_nat (0xD800 + a) :: 16 word) = 0xD800 + a" "unat (of_nat (0xDC00 + b) :: 16 word) = 0xDC00 + b"
    using ab unfolding unat_of_nat by (simp_all add: take_bit_nat_eq_self_iff)
  have "point_units c = [of_nat (0xD800 + a), of_nat (0xDC00 + b)]" using False by (simp add: point_units_def a_def b_def)
  then show ?thesis using ab u by (simp add: surrogate_units del: of_nat_add)
qed

lemma code_points_points_text: "list_all scalar_point cs \<Longrightarrow> code_points (points_text cs) = cs"
  by (induction cs) (simp_all add: code_points_point)

text \<open>A cut that does not part a surrogate pair parts the code points.\<close>

lemma code_points_two:
  "code_points (u # v # vs) =
    (if high_surrogate u \<and> low_surrogate v
     then (0x10000 + (unat u - 0xD800) * 0x400 + (unat v - 0xDC00)) # code_points vs else unat u # code_points (v # vs))"
  by simp

lemma code_points_cut:
  "b = [] \<or> \<not> (a \<noteq> [] \<and> high_surrogate (last a) \<and> low_surrogate (hd b)) \<Longrightarrow> code_points (a @ b) = code_points a @ code_points b"
proof (induction a rule: code_points.induct)
  case 1
  then show ?case by simp
next
  case (2 v vs)
  show ?case
  proof (cases vs)
    case Nil
    then show ?thesis using "2.prems" by (cases b) auto
  next
    case (Cons w ws)
    have "code_points (w # ws @ b) = code_points (w # ws) @ code_points b" if "\<not> (high_surrogate v \<and> low_surrogate w)"
      using "2.IH"(2) [OF Cons that] "2.prems" Cons by auto
    moreover have "code_points (ws @ b) = code_points ws @ code_points b" if "high_surrogate v \<and> low_surrogate w"
      using "2.IH"(1) [OF Cons that] "2.prems" Cons that by (auto split: if_splits simp: surrogate_units)
    ultimately show ?thesis using Cons by (simp add: code_points_two del: code_points.simps(2))
  qed
qed

lemma code_points_append: "\<not> low_surrogate u \<Longrightarrow> code_points (t @ u # us) = code_points t @ code_points (u # us)"
  by (rule code_points_cut) simp

lemma code_points_plain: "\<not> high_surrogate u \<Longrightarrow> code_points (u # us) = unat u # code_points us"
  by (cases us) simp_all

section \<open>Boundaries\<close>

definition continuation_byte :: "nat \<Rightarrow> bool" where
  "continuation_byte b = (b AND 0xC0 = 0x80)"

lemma continuation_byte_range: "b < 256 \<Longrightarrow> continuation_byte b \<longleftrightarrow> 0x80 \<le> b \<and> b \<le> 0xBF"
proof -
  assume b: "b < 256"
  have m: "(0xC0 :: nat) = push_bit 6 (mask 2)" by (simp add: push_bit_eq_mult mask_eq_exp_minus_1)
  have "b AND 0xC0 = push_bit 6 (take_bit 2 (drop_bit 6 b))"
    unfolding m by (rule bit_eqI) (auto simp: bit_and_iff bit_push_bit_iff bit_mask_iff bit_take_bit_iff bit_drop_bit_eq)
  then have "b AND 0xC0 = 64 * (b div 64 mod 4)" by (simp add: push_bit_eq_mult take_bit_eq_mod drop_bit_eq_div)
  moreover have "b div 64 < 4" using b by (simp add: less_mult_imp_div_less)
  ultimately have "continuation_byte b \<longleftrightarrow> b div 64 = 2" by (simp add: continuation_byte_def)
  then show ?thesis by auto
qed

lemma utf8_point_shape:
  assumes "c < 0x110000"
  shows "\<exists>b bs. utf8_point c = b # bs \<and> \<not> continuation_byte b \<and> list_all continuation_byte bs"
proof -
  have cont: "continuation_byte (0x80 + n mod 0x40)" for n
  proof -
    have "n mod 0x40 < 0x40" by simp
    then show ?thesis by (subst continuation_byte_range) linarith+
  qed
  have lead: "\<not> continuation_byte b" if "b < 256" "b < 0x80 \<or> 0xC0 \<le> b" for b using that by (auto simp: continuation_byte_range)
  define s where "s = to_scalar c"
  have "s < 0x110000" using assms by (simp add: s_def to_scalar_def)
  then have q: "s div 0x40000 \<le> 4" "s < 0x10000 \<Longrightarrow> s div 0x1000 < 0x10" "s < 0x800 \<Longrightarrow> s div 0x40 < 0x20"
    by (simp_all add: less_mult_imp_div_less)
  have "utf8_point c = (if s < 0x80 then [s]
      else if s < 0x800 then [0xC0 + s div 0x40, 0x80 + s mod 0x40]
      else if s < 0x10000 then [0xE0 + s div 0x1000, 0x80 + s div 0x40 mod 0x40, 0x80 + s mod 0x40]
      else [0xF0 + s div 0x40000, 0x80 + s div 0x1000 mod 0x40, 0x80 + s div 0x40 mod 0x40, 0x80 + s mod 0x40])"
    by (simp add: utf8_point_def s_def to_scalar_def Let_def)
  then show ?thesis using q by (auto simp: cont lead)
qed

lemma encode_prefix_boundary:
  assumes "\<And>c. c \<in> set cs \<Longrightarrow> c < 0x110000" and "k \<le> length (encode_points cs)"
    and "k < length (encode_points cs) \<Longrightarrow> \<not> continuation_byte (encode_points cs ! k)"
  shows "\<exists>as bs. cs = as @ bs \<and> k = length (encode_points as)"
  using assms
proof (induction cs arbitrary: k)
  case Nil
  then show ?case by simp
next
  case (Cons c cs)
  obtain b bs where p: "utf8_point c = b # bs" "list_all continuation_byte bs" using utf8_point_shape [of c] Cons.prems(1) by auto
  show ?case
  proof (cases "k < length (utf8_point c)")
    case True
    have "k = 0"
    proof (rule ccontr)
      assume "k \<noteq> 0"
      then have "encode_points (c # cs) ! k = bs ! (k - 1)" "k - 1 < length bs" using True p by (auto simp: nth_append nth_Cons')
      moreover have "k < length (encode_points (c # cs))" using True by simp
      ultimately show False using Cons.prems(3) p(2) by (auto simp: list_all_length)
    qed
    then show ?thesis by (metis append_Nil encode_points_simps(1) list.size(3))
  next
    case False
    have "\<exists>as bs. cs = as @ bs \<and> k - length (utf8_point c) = length (encode_points as)"
      using Cons.prems False by (intro Cons.IH) (auto simp: nth_append)
    then obtain as bs where "cs = as @ bs" "k - length (utf8_point c) = length (encode_points as)" by blast
    then show ?thesis using False by (intro exI [of _ "c # as"] exI [of _ bs]) auto
  qed
qed

section \<open>Byte lengths\<close>

definition newline_unit :: "16 word" where
  "newline_unit = 10"

lemma byteLength_points: "list_all scalar_point cs \<Longrightarrow> byteLength (points_text cs) = length (encode_points cs)"
  by (simp add: byteLength_def utf8_bytes_points code_points_points_text)

lemma byteLength_Nil [simp]: "byteLength [] = 0"
  by (simp add: byteLength_def utf8_bytes_def)

lemma byteLength_line: "byteLength (l @ newline_unit # rest) = byteLength l + 1 + byteLength rest"
proof -
  have n: "\<not> low_surrogate newline_unit" "\<not> high_surrogate newline_unit" "unat newline_unit = 10"
    by (simp_all add: newline_unit_def surrogate_units)
  have "utf8_point 10 = [10]" by (simp add: utf8_point_def is_surrogate_point_def)
  then show ?thesis
    by (simp add: byteLength_def utf8_bytes_points code_points_append [OF n(1)] code_points_plain [OF n(2)] n(3) del: code_points.simps)
qed

text \<open>The bytes of lines joined by newlines.\<close>

fun joined_bytes :: "js_text list \<Rightarrow> nat" where
  "joined_bytes [] = 0"
| "joined_bytes [l] = byteLength l"
| "joined_bytes (l # ls) = byteLength l + 1 + joined_bytes ls"

lemma byteLength_join: "byteLength (join_on newline_unit ls) = joined_bytes ls"
  by (induction ls rule: joined_bytes.induct) (simp_all add: byteLength_line)

lemma joined_bytes_Cons: "joined_bytes (l # ls) = byteLength l + (if ls = [] then 0 else 1 + joined_bytes ls)"
  by (cases ls) simp_all

lemma joined_bytes_snoc: "joined_bytes (ls @ [l]) = joined_bytes ls + byteLength l + (if ls = [] then 0 else 1)"
  by (induction ls) (simp_all add: joined_bytes_Cons)

end
