(* ===== verification/Run_Journal.thy ===== *)
theory Run_Journal
  imports Js_Text "HOL-Library.List_Lexorder"
begin

text \<open>
  The durable run journal (\<open>packages/workflows/src/durable/journal/\<close>:
  \<open>memory-run-journal.ts\<close>, \<open>values.ts\<close>, \<open>lease-expiry.ts\<close>, the errors of
  \<open>types.ts\<close>; its types from \<open>packages/coding-agent/src/core/storage/run-journal.ts\<close>).
  A run's events are appended under a lease with a fencing epoch. The theory shows that
  epochs fence stale writers for good, that sequence numbers are the positions of the
  entries and stay in the safe-integer range, that keyed appends are idempotent, and that
  the paged read returns exactly the recorded entries.

  Text is a sequence of UTF-16 code units, as in JavaScript. Every reading of the clock is
  an argument. The JSON copies the code makes of what it stores and returns
  (\<open>JSON.parse(serializeJson(x))\<close>) are copies of JSON values, which are values here.
\<close>

section \<open>Errors\<close>

datatype text_field = FRunId | FHolderId | FExpectedHolder | FKey | FStatus | FName | FCwd

datatype text_reason = NulCharacter | IllFormedUnicode

datatype counter_field = FSeq | FEpoch

datatype counter_reason = Overflow | Negative | UnsafeInteger

datatype storage_cause = JournalClosed | DuplicateEventKey js_text

datatype journal_error =
    StorageUnavailableError storage_cause
  | JournalInvalidTextError text_field text_reason
  | JournalCounterRangeError js_text counter_field int counter_reason
  | StaleLeaseError js_text int int
  | JournalCasConflictError js_text int int
  | RunNotFoundError js_text

definition validateText :: "text_field \<Rightarrow> js_text \<Rightarrow> journal_error + unit" where
  "validateText field value =
     (if 0 \<in> set value then Inl (JournalInvalidTextError field NulCharacter)
      else if list_ex is_surrogate_point (code_points value)
      then Inl (JournalInvalidTextError field IllFormedUnicode)
      else Inr ())"

definition journalCounter ::
  "js_text \<Rightarrow> counter_field \<Rightarrow> int \<Rightarrow> counter_reason \<Rightarrow> journal_error + int" where
  "journalCounter runId field counter reason =
     (if counter < 0 then Inl (JournalCounterRangeError runId field counter Negative)
      else if MAX_SAFE_INTEGER < counter then Inl (JournalCounterRangeError runId field counter reason)
      else Inr counter)"

text \<open>Equality is still live: takeover needs a renewal strictly older than the window.\<close>

definition isWorkflowLeaseExpired :: "int \<Rightarrow> int \<Rightarrow> int \<Rightarrow> bool" where
  "isWorkflowLeaseExpired renewedAt staleAfterMs now = (staleAfterMs < now - renewedAt)"

section \<open>Data\<close>

datatype run_event_type =
    RunStarted | RunFinished | CheckpointRecorded | PromptAsked | PromptReleased
  | ControlRequested | MessageQueued | MessageDelivered | MessageSettled | TimerScheduled
  | SummaryRecorded

text \<open>A status change always carries its status; its other fields and the other payloads are JSON.\<close>

datatype run_event = StatusChanged js_text json | RunEvent run_event_type json

record run_header =
  rh_runId :: js_text
  rh_name :: js_text
  rh_cwd :: js_text
  rh_createdAt :: int
  rh_status :: js_text
  rh_inputs :: "json option"
  rh_storage :: "json option"

record lease =
  l_runId :: js_text
  l_holderId :: js_text
  l_epoch :: int

record lease_state = lease +
  ls_renewedAt :: int
  ls_ageMs :: int

datatype lease_outcome = Acquired lease | Held "js_text option" int

record journal_entry =
  je_runId :: js_text
  je_seq :: int
  je_epoch :: int
  je_key :: "js_text option"
  je_event :: run_event
  je_at :: int

datatype append_status = Appended | Exists

datatype create_status = Created | AlreadyExists

record seed_event =
  se_event :: run_event
  se_key :: "js_text option"

record memory_run =
  mr_header :: run_header
  mr_entries :: "journal_entry list"

record lease_row =
  lr_holderId :: "js_text option"
  lr_epoch :: int
  lr_renewedAt :: int

record memory_journal =
  runs :: "(js_text, memory_run) jmap"
  leases :: "(js_text, lease_row) jmap"
  closed :: bool
  storage :: "json option"

definition new_journal :: "json option \<Rightarrow> memory_journal" where
  "new_journal d = \<lparr>runs = [], leases = [], closed = False, storage = d\<rparr>"

text \<open>\<open>JOURNAL_LEASE\<close> and the size of a read page.\<close>

definition initialEpoch :: int where "initialEpoch = 1"
definition epochIncrement :: int where "epochIncrement = 1"
definition absentEpoch :: int where "absentEpoch = 0"
definition JOURNAL_READ_PAGE_SIZE :: nat where "JOURNAL_READ_PAGE_SIZE = 256"

section \<open>Runs\<close>

definition ensureOpen :: "memory_journal \<Rightarrow> journal_error + unit" where
  "ensureOpen j = throw_if (closed j) (StorageUnavailableError JournalClosed)"

definition validateHeader :: "run_header \<Rightarrow> journal_error + unit" where
  "validateHeader h =
     try_bind (validateText FRunId (rh_runId h)) (\<lambda>_.
     try_bind (validateText FName (rh_name h)) (\<lambda>_.
     try_bind (validateText FCwd (rh_cwd h)) (\<lambda>_.
     validateText FStatus (rh_status h))))"

definition storedHeader :: "memory_journal \<Rightarrow> run_header \<Rightarrow> run_header" where
  "storedHeader j h = (case storage j of None \<Rightarrow> h | Some d \<Rightarrow> h\<lparr>rh_storage := Some d\<rparr>)"

definition createRun :: "memory_journal \<Rightarrow> run_header \<Rightarrow> journal_error + (create_status \<times> memory_journal)" where
  "createRun j header =
     try_bind (ensureOpen j) (\<lambda>_.
     try_bind (validateHeader header) (\<lambda>_.
     if map_has (runs j) (rh_runId header) then Inr (AlreadyExists, j)
     else Inr (Created, j\<lparr>runs := map_set (runs j) (rh_runId header)
            \<lparr>mr_header = storedHeader j header, mr_entries = []\<rparr>\<rparr>)))"

text \<open>
  The entries of a run created with events: keys are checked in order against the keys
  before them, the clock is read once per entry.
\<close>

fun seedEntries ::
  "js_text \<Rightarrow> (nat \<Rightarrow> int) \<Rightarrow> nat \<Rightarrow> js_text list \<Rightarrow> seed_event list \<Rightarrow> journal_error + journal_entry list" where
  "seedEntries runId clock index keys [] = Inr []"
| "seedEntries runId clock index keys (seed # seeds) =
     try_bind (case se_key seed of
        None \<Rightarrow> Inr keys
      | Some k \<Rightarrow>
          try_bind (validateText FKey k) (\<lambda>_.
          try_bind (throw_if (k \<in> set keys) (StorageUnavailableError (DuplicateEventKey runId))) (\<lambda>_.
          Inr (keys @ [k])))) (\<lambda>keys'.
     try_bind (case se_event seed of
        StatusChanged status _ \<Rightarrow> validateText FStatus status
      | RunEvent _ _ \<Rightarrow> Inr ()) (\<lambda>_.
     try_bind (seedEntries runId clock (Suc index) keys' seeds) (\<lambda>rest.
     Inr (\<lparr>je_runId = runId, je_seq = int index + 1, je_epoch = absentEpoch, je_key = se_key seed,
           je_event = se_event seed, je_at = clock index\<rparr> # rest))))"

fun event_status :: "run_event \<Rightarrow> js_text \<Rightarrow> js_text" where
  "event_status (StatusChanged status _) old = status"
| "event_status (RunEvent _ _) old = old"

definition latest_status :: "js_text \<Rightarrow> journal_entry list \<Rightarrow> js_text" where
  "latest_status status es = foldl (\<lambda>st e. event_status (je_event e) st) status es"

definition createRunWithEvents ::
  "memory_journal \<Rightarrow> run_header \<Rightarrow> seed_event list \<Rightarrow> (nat \<Rightarrow> int) \<Rightarrow>
     journal_error + (create_status \<times> memory_journal)" where
  "createRunWithEvents j header events clock =
     try_bind (ensureOpen j) (\<lambda>_.
     try_bind (validateHeader header) (\<lambda>_.
     try_bind (seedEntries (rh_runId header) clock 0 [] events) (\<lambda>entries.
     if map_has (runs j) (rh_runId header) then Inr (AlreadyExists, j)
     else
       let stored = storedHeader j header;
           status = latest_status (rh_status stored) entries in
       Inr (Created, j\<lparr>runs := map_set (runs j) (rh_runId header)
            \<lparr>mr_header = stored\<lparr>rh_status := status\<rparr>, mr_entries = entries\<rparr>\<rparr>))))"

definition getRun :: "memory_journal \<Rightarrow> js_text \<Rightarrow> journal_error + run_header option" where
  "getRun j runId =
     try_bind (ensureOpen j) (\<lambda>_.
     try_bind (validateText FRunId runId) (\<lambda>_.
     Inr (map_option mr_header (map_get (runs j) runId))))"

definition listRuns :: "memory_journal \<Rightarrow> js_text option \<Rightarrow> journal_error + run_header list" where
  "listRuns j cwd =
     try_bind (ensureOpen j) (\<lambda>_.
     try_bind (case cwd of None \<Rightarrow> Inr () | Some c \<Rightarrow> validateText FCwd c) (\<lambda>_.
     Inr (map mr_header (sort_key (\<lambda>r. utf8_bytes (rh_runId (mr_header r)))
       (filter (\<lambda>r. cwd = None \<or> rh_cwd (mr_header r) = the cwd) (map_values (runs j)))))))"

definition requireRun :: "memory_journal \<Rightarrow> js_text \<Rightarrow> journal_error + memory_run" where
  "requireRun j runId =
     try_bind (ensureOpen j) (\<lambda>_.
     case map_get (runs j) runId of None \<Rightarrow> Inl (RunNotFoundError runId) | Some r \<Rightarrow> Inr r)"

section \<open>Leases\<close>

definition put_lease :: "memory_journal \<Rightarrow> js_text \<Rightarrow> js_text option \<Rightarrow> int \<Rightarrow> int \<Rightarrow> memory_journal" where
  "put_lease j runId holder epoch now =
     j\<lparr>leases := map_set (leases j) runId \<lparr>lr_holderId = holder, lr_epoch = epoch, lr_renewedAt = now\<rparr>\<rparr>"

definition grant ::
  "memory_journal \<Rightarrow> js_text \<Rightarrow> js_text \<Rightarrow> int \<Rightarrow> journal_error + (lease_outcome \<times> memory_journal)" where
  "grant j runId holderId now =
     try_bind (case map_get (leases j) runId of
        Some current \<Rightarrow> journalCounter runId FEpoch (lr_epoch current + epochIncrement) Overflow
      | None \<Rightarrow> Inr initialEpoch) (\<lambda>epoch.
     Inr (Acquired \<lparr>l_runId = runId, l_holderId = holderId, l_epoch = epoch\<rparr>,
          put_lease j runId (Some holderId) epoch now))"

definition acquire ::
  "memory_journal \<Rightarrow> js_text \<Rightarrow> js_text \<Rightarrow> int \<Rightarrow> journal_error + (lease_outcome \<times> memory_journal)" where
  "acquire j runId holderId now =
     try_bind (ensureOpen j) (\<lambda>_.
     try_bind (validateText FRunId runId) (\<lambda>_.
     try_bind (validateText FHolderId holderId) (\<lambda>_.
     try_bind (requireRun j runId) (\<lambda>_.
     case map_get (leases j) runId of
       None \<Rightarrow> grant j runId holderId now
     | Some current \<Rightarrow>
         if lr_holderId current = Some holderId
         then Inr (Acquired \<lparr>l_runId = runId, l_holderId = holderId, l_epoch = lr_epoch current\<rparr>, j)
         else if lr_holderId current \<noteq> None then Inr (Held (lr_holderId current) (lr_epoch current), j)
         else grant j runId holderId now))))"

definition takeover ::
  "memory_journal \<Rightarrow> js_text \<Rightarrow> js_text \<Rightarrow> js_text \<Rightarrow> int \<Rightarrow>
     journal_error + (lease_outcome \<times> memory_journal)" where
  "takeover j runId holderId expectedHolder now =
     try_bind (ensureOpen j) (\<lambda>_.
     try_bind (validateText FRunId runId) (\<lambda>_.
     try_bind (validateText FHolderId holderId) (\<lambda>_.
     try_bind (validateText FExpectedHolder expectedHolder) (\<lambda>_.
     try_bind (requireRun j runId) (\<lambda>_.
     case map_get (leases j) runId of
       None \<Rightarrow> Inr (Held None absentEpoch, j)
     | Some current \<Rightarrow>
         if lr_holderId current \<noteq> Some expectedHolder
         then Inr (Held (lr_holderId current) (lr_epoch current), j)
         else grant j runId holderId now)))))"

text \<open>\<open>now\<close> is the clock when the age is taken, \<open>now'\<close> when the grant is stamped.\<close>

definition lease_age :: "int \<Rightarrow> lease_row \<Rightarrow> int" where
  "lease_age now current = min MAX_SAFE_INTEGER (max 0 (now - lr_renewedAt current))"

definition takeoverExpired ::
  "memory_journal \<Rightarrow> js_text \<Rightarrow> js_text \<Rightarrow> int \<Rightarrow> int \<Rightarrow> int \<Rightarrow>
     journal_error + (lease_outcome \<times> memory_journal)" where
  "takeoverExpired j runId holderId staleAfterMs now now' =
     try_bind (ensureOpen j) (\<lambda>_.
     try_bind (validateText FRunId runId) (\<lambda>_.
     try_bind (validateText FHolderId holderId) (\<lambda>_.
     try_bind (requireRun j runId) (\<lambda>_.
     case map_get (leases j) runId of
       None \<Rightarrow> grant j runId holderId now'
     | Some current \<Rightarrow>
         if lr_holderId current = Some holderId
         then Inr (Acquired \<lparr>l_runId = runId, l_holderId = holderId, l_epoch = lr_epoch current\<rparr>, j)
         else if lr_holderId current \<noteq> None \<and>
           \<not> isWorkflowLeaseExpired 0 staleAfterMs (lease_age now current)
         then Inr (Held (lr_holderId current) (lr_epoch current), j)
         else grant j runId holderId now'))))"

definition leaseState :: "memory_journal \<Rightarrow> js_text \<Rightarrow> int \<Rightarrow> journal_error + lease_state option" where
  "leaseState j runId now =
     try_bind (ensureOpen j) (\<lambda>_.
     try_bind (validateText FRunId runId) (\<lambda>_.
     Inr (case map_get (leases j) runId of
        None \<Rightarrow> None
      | Some current \<Rightarrow>
          (case lr_holderId current of
             None \<Rightarrow> None
           | Some h \<Rightarrow> Some \<lparr>l_runId = runId, l_holderId = h, l_epoch = lr_epoch current,
               ls_renewedAt = lr_renewedAt current, ls_ageMs = lease_age now current\<rparr>))))"

definition checkLease :: "memory_journal \<Rightarrow> lease \<Rightarrow> journal_error + unit" where
  "checkLease j l =
     try_bind (ensureOpen j) (\<lambda>_.
     case map_get (leases j) (l_runId l) of
       None \<Rightarrow> Inl (StaleLeaseError (l_runId l) (l_epoch l) absentEpoch)
     | Some current \<Rightarrow>
         throw_if (lr_holderId current \<noteq> Some (l_holderId l) \<or> lr_epoch current \<noteq> l_epoch l)
           (StaleLeaseError (l_runId l) (l_epoch l) (lr_epoch current)))"

definition validateLease :: "memory_journal \<Rightarrow> lease \<Rightarrow> journal_error + unit" where
  "validateLease j l =
     try_bind (ensureOpen j) (\<lambda>_.
     try_bind (validateText FRunId (l_runId l)) (\<lambda>_.
     validateText FHolderId (l_holderId l)))"

definition renew :: "memory_journal \<Rightarrow> lease \<Rightarrow> int \<Rightarrow> journal_error + (unit \<times> memory_journal)" where
  "renew j l now =
     try_bind (validateLease j l) (\<lambda>_.
     try_bind (checkLease j l) (\<lambda>_.
     Inr ((), put_lease j (l_runId l) (Some (l_holderId l)) (l_epoch l) now)))"

definition release_lease :: "memory_journal \<Rightarrow> lease \<Rightarrow> int \<Rightarrow> journal_error + (unit \<times> memory_journal)" where
  "release_lease j l now =
     try_bind (validateLease j l) (\<lambda>_.
     try_bind (checkLease j l) (\<lambda>_.
     Inr ((), put_lease j (l_runId l) None (l_epoch l) now)))"

section \<open>Events\<close>

text \<open>\<open>run.entries.at(-1)?.seq ?? 0\<close>\<close>

definition last_seq :: "journal_entry list \<Rightarrow> int" where
  "last_seq es = (if es = [] then 0 else je_seq (last es))"

definition find_key :: "js_text \<Rightarrow> journal_entry list \<Rightarrow> journal_entry option" where
  "find_key key es = find (\<lambda>e. je_key e = Some key) es"

definition append_entry ::
  "memory_journal \<Rightarrow> lease \<Rightarrow> run_event \<Rightarrow> js_text option \<Rightarrow> int option \<Rightarrow> int \<Rightarrow>
     journal_error + ((append_status \<times> journal_entry) \<times> memory_journal)" where
  "append_entry j l event key expectSeq now =
     try_bind (validateLease j l) (\<lambda>_.
     try_bind (case key of None \<Rightarrow> Inr () | Some k \<Rightarrow> validateText FKey k) (\<lambda>_.
     try_bind (checkLease j l) (\<lambda>_.
     try_bind (requireRun j (l_runId l)) (\<lambda>run.
     case Option.bind key (\<lambda>k. find_key k (mr_entries run)) of
       Some existing \<Rightarrow> Inr ((Exists, existing), j)
     | None \<Rightarrow>
         let actualSeq = last_seq (mr_entries run) in
         try_bind (case expectSeq of
            None \<Rightarrow> Inr ()
          | Some expected \<Rightarrow>
              throw_if (expected \<noteq> actualSeq) (JournalCasConflictError (l_runId l) expected actualSeq)) (\<lambda>_.
         try_bind (journalCounter (l_runId l) FSeq (actualSeq + 1) Overflow) (\<lambda>seq.
         try_bind (case event of
            StatusChanged status _ \<Rightarrow> validateText FStatus status
          | RunEvent _ _ \<Rightarrow> Inr ()) (\<lambda>_.
         let entry = \<lparr>je_runId = l_runId l, je_seq = seq, je_epoch = l_epoch l, je_key = key,
               je_event = event, je_at = now\<rparr>;
             run' = run\<lparr>mr_entries := mr_entries run @ [entry],
               mr_header := (mr_header run)\<lparr>rh_status := event_status event (rh_status (mr_header run))\<rparr>\<rparr> in
         Inr ((Appended, entry), j\<lparr>runs := map_set (runs j) (l_runId l) run'\<rparr>))))))))"

text \<open>
  \<open>fromSeq\<close> is any number; a page holds at most 256 entries from its position on.
\<close>

definition readPage :: "memory_journal \<Rightarrow> js_text \<Rightarrow> rat \<Rightarrow> journal_entry list" where
  "readPage j runId fromSeq =
     (let entries = (case map_get (runs j) runId of None \<Rightarrow> [] | Some r \<Rightarrow> mr_entries r);
          start = nat (max 0 (ceiling fromSeq - 1)) in
      if fromSeq \<le> of_nat (length entries) then take JOURNAL_READ_PAGE_SIZE (drop start entries) else [])"

text \<open>The page loop of \<open>read\<close> on a journal that does not change between pages, with fuel.\<close>

fun readPages :: "nat \<Rightarrow> memory_journal \<Rightarrow> js_text \<Rightarrow> rat \<Rightarrow> journal_entry list option" where
  "readPages 0 j runId nextSeq = None"
| "readPages (Suc fuel) j runId nextSeq =
     (let page = readPage j runId nextSeq in
      if page = [] \<or> length page < JOURNAL_READ_PAGE_SIZE then Some page
      else map_option (\<lambda>rest. page @ rest) (readPages fuel j runId (of_int (je_seq (last page) + 1))))"

definition read_entries ::
  "nat \<Rightarrow> memory_journal \<Rightarrow> js_text \<Rightarrow> rat \<Rightarrow> journal_error + journal_entry list option" where
  "read_entries fuel j runId fromSeq =
     try_bind (ensureOpen j) (\<lambda>_.
     try_bind (validateText FRunId runId) (\<lambda>_.
     Inr (readPages fuel j runId fromSeq)))"

definition readKey :: "memory_journal \<Rightarrow> js_text \<Rightarrow> js_text \<Rightarrow> journal_error + journal_entry option" where
  "readKey j runId key =
     try_bind (ensureOpen j) (\<lambda>_.
     try_bind (validateText FRunId runId) (\<lambda>_.
     try_bind (validateText FKey key) (\<lambda>_.
     Inr (Option.bind (map_get (runs j) runId) (\<lambda>r. find_key key (mr_entries r))))))"

definition deleteRun :: "memory_journal \<Rightarrow> js_text \<Rightarrow> int \<Rightarrow> journal_error + (unit \<times> memory_journal)" where
  "deleteRun j runId now =
     try_bind (ensureOpen j) (\<lambda>_.
     try_bind (validateText FRunId runId) (\<lambda>_.
     let j' = (case map_get (leases j) runId of
                 None \<Rightarrow> j
               | Some current \<Rightarrow> put_lease j runId None (lr_epoch current) now) in
     Inr ((), j'\<lparr>runs := map_delete (runs j') runId\<rparr>)))"

definition deleteOwnedRun ::
  "memory_journal \<Rightarrow> lease \<Rightarrow> int option \<Rightarrow> int \<Rightarrow> journal_error + (unit \<times> memory_journal)" where
  "deleteOwnedRun j l expectSeq now =
     try_bind (validateLease j l) (\<lambda>_.
     try_bind (checkLease j l) (\<lambda>_.
     let actual = (case map_get (runs j) (l_runId l) of None \<Rightarrow> 0 | Some r \<Rightarrow> last_seq (mr_entries r)) in
     try_bind (case expectSeq of
        None \<Rightarrow> Inr ()
      | Some expected \<Rightarrow>
          throw_if (expected \<noteq> actual) (JournalCasConflictError (l_runId l) expected actual)) (\<lambda>_.
     deleteRun j (l_runId l) now)))"

definition close_journal :: "memory_journal \<Rightarrow> memory_journal" where
  "close_journal j = j\<lparr>closed := True\<rparr>"

section \<open>Histories\<close>

datatype journal_op =
    CreateRun run_header
  | CreateRunWithEvents run_header "seed_event list" "nat \<Rightarrow> int"
  | Acquire js_text js_text int
  | Takeover js_text js_text js_text int
  | TakeoverExpired js_text js_text int int int
  | Renew lease int
  | Release lease int
  | Append lease run_event "js_text option" "int option" int
  | DeleteRun js_text int
  | DeleteOwnedRun lease "int option" int
  | Close

text \<open>A refused operation throws before it writes, so it leaves the journal as it was.\<close>

fun journal_step :: "memory_journal \<Rightarrow> journal_op \<Rightarrow> memory_journal" where
  "journal_step j (CreateRun h) = result_state j (createRun j h)"
| "journal_step j (CreateRunWithEvents h es clock) = result_state j (createRunWithEvents j h es clock)"
| "journal_step j (Acquire r h now) = result_state j (acquire j r h now)"
| "journal_step j (Takeover r h x now) = result_state j (takeover j r h x now)"
| "journal_step j (TakeoverExpired r h ms now now') = result_state j (takeoverExpired j r h ms now now')"
| "journal_step j (Renew l now) = result_state j (renew j l now)"
| "journal_step j (Release l now) = result_state j (release_lease j l now)"
| "journal_step j (Append l e k x now) = result_state j (append_entry j l e k x now)"
| "journal_step j (DeleteRun r now) = result_state j (deleteRun j r now)"
| "journal_step j (DeleteOwnedRun l x now) = result_state j (deleteOwnedRun j l x now)"
| "journal_step j Close = close_journal j"

section \<open>Fencing\<close>

text \<open>
  What writers rely on: a store that records, per resource, a holder and an epoch, and
  whose steps only ever raise the epoch or, at the same epoch, keep the holder or drop it.
\<close>

fun owner_later :: "('h option \<times> int) option \<Rightarrow> ('h option \<times> int) option \<Rightarrow> bool" where
  "owner_later None b = True"
| "owner_later (Some a) None = False"
| "owner_later (Some (h, e)) (Some (h', e')) = (e < e' \<or> e = e' \<and> (h' = h \<or> h' = None))"

lemma owner_later_refl [simp]: "owner_later a a"
  by (cases a) (auto split: prod.splits)

lemma owner_later_trans: "owner_later a b \<Longrightarrow> owner_later b c \<Longrightarrow> owner_later a c"
  by (cases a; cases b; cases c) auto

locale fenced_store =
  fixes step :: "'s \<Rightarrow> 'op \<Rightarrow> 's"
    and owner :: "'s \<Rightarrow> 'r \<Rightarrow> ('h option \<times> int) option"
  assumes owner_step: "owner_later (owner s r) (owner (step s a) r)"
begin

lemma owner_run: "owner_later (owner s r) (owner (foldl step s ops) r)"
proof (induction ops rule: rev_induct)
  case Nil
  then show ?case by simp
next
  case (snoc a ops)
  then show ?case using owner_step [of "foldl step s ops" r a] by (auto intro: owner_later_trans)
qed

lemma epochs_grow:
  assumes "owner s r = Some (Some h, e)" and "owner (foldl step s ops) r = Some (Some h', e')"
  shows "e \<le> e' \<and> (e = e' \<longrightarrow> h = h')"
  using owner_run [of s r ops] assms by auto

lemma lost_forever:
  assumes "owner s r = Some (x, e')" and "e < e' \<or> e = e' \<and> x \<noteq> Some h"
  shows "owner (foldl step s ops) r \<noteq> Some (Some h, e)"
  using owner_run [of s r ops] assms by auto

end

definition lease_owner :: "memory_journal \<Rightarrow> js_text \<Rightarrow> (js_text option \<times> int) option" where
  "lease_owner j r = map_option (\<lambda>row. (lr_holderId row, lr_epoch row)) (map_get (leases j) r)"

lemma lease_owner_simps [simp]:
  "lease_owner (put_lease j r h e now) r' = (if r' = r then Some (h, e) else lease_owner j r')"
  "lease_owner (j\<lparr>runs := x\<rparr>) r = lease_owner j r"
  "lease_owner (close_journal j) r = lease_owner j r"
  by (auto simp: lease_owner_def put_lease_def close_journal_def)

lemma checkLease_owner:
  "checkLease j l = Inr () \<longleftrightarrow>
   \<not> closed j \<and> lease_owner j (l_runId l) = Some (Some (l_holderId l), l_epoch l)"
  by (auto simp: checkLease_def ensureOpen_def lease_owner_def try_bind_Inr split: option.splits)

lemmas journal_ops_defs = createRun_def createRunWithEvents_def acquire_def takeover_def
  takeoverExpired_def renew_def release_lease_def append_entry_def deleteRun_def deleteOwnedRun_def

lemma journalCounter_Inr:
  "journalCounter r f c reason = Inr c' \<longleftrightarrow> c' = c \<and> 0 \<le> c \<and> c \<le> MAX_SAFE_INTEGER"
  by (auto simp: journalCounter_def)

lemma grant_Inr:
  assumes "grant j r h now = Inr (out, j')"
  obtains e where "out = Acquired \<lparr>l_runId = r, l_holderId = h, l_epoch = e\<rparr>"
    and "j' = put_lease j r (Some h) e now"
    and "case map_get (leases j) r of None \<Rightarrow> e = initialEpoch | Some row \<Rightarrow> e = lr_epoch row + 1"
  using assms by (auto simp: grant_def try_bind_Inr journalCounter_Inr epochIncrement_def split: option.splits)

lemma grant_later: "grant j r h now = Inr (out, j') \<Longrightarrow> owner_later (lease_owner j r') (lease_owner j' r')"
  by (erule grant_Inr) (auto simp: lease_owner_def put_lease_def split: option.splits)

lemma runs_only_later: "owner_later (lease_owner j r) (lease_owner (j\<lparr>runs := x\<rparr>) r)"
  by simp

lemma put_own_lease_later:
  assumes "checkLease j l = Inr ()" and "h = Some (l_holderId l) \<or> h = None"
  shows "owner_later (lease_owner j r) (lease_owner (put_lease j (l_runId l) h (l_epoch l) now) r)"
  using assms by (auto simp: checkLease_owner)

lemma deleteRun_later: "deleteRun j r now = Inr (u, j') \<Longrightarrow> owner_later (lease_owner j r') (lease_owner j' r')"
  by (auto simp: deleteRun_def try_bind_Inr lease_owner_def put_lease_def Let_def split: option.splits)

text \<open>The second half of an append, once the lease is checked and the run is found.\<close>

definition appended_entry :: "lease \<Rightarrow> run_event \<Rightarrow> js_text option \<Rightarrow> int \<Rightarrow> memory_run \<Rightarrow> journal_entry" where
  "appended_entry l event key now run =
     \<lparr>je_runId = l_runId l, je_seq = last_seq (mr_entries run) + 1, je_epoch = l_epoch l, je_key = key,
      je_event = event, je_at = now\<rparr>"

definition appended_run :: "lease \<Rightarrow> run_event \<Rightarrow> js_text option \<Rightarrow> int \<Rightarrow> memory_run \<Rightarrow> memory_run" where
  "appended_run l event key now run =
     run\<lparr>mr_entries := mr_entries run @ [appended_entry l event key now run],
       mr_header := (mr_header run)\<lparr>rh_status := event_status event (rh_status (mr_header run))\<rparr>\<rparr>"

lemma requireRun_Inr: "requireRun j r = Inr run \<longleftrightarrow> \<not> closed j \<and> map_get (runs j) r = Some run"
  by (auto simp: requireRun_def ensureOpen_def try_bind_Inr split: option.splits)

lemma append_entry_Inr:
  assumes "append_entry j l event key x now = Inr ((st, en), j')"
  obtains run where "checkLease j l = Inr ()" and "map_get (runs j) (l_runId l) = Some run"
    and "st = Exists \<and> j' = j \<and> Option.bind key (\<lambda>k. find_key k (mr_entries run)) = Some en \<or>
      st = Appended \<and> Option.bind key (\<lambda>k. find_key k (mr_entries run)) = None \<and>
      (x = None \<or> x = Some (last_seq (mr_entries run))) \<and>
      0 \<le> last_seq (mr_entries run) + 1 \<and> last_seq (mr_entries run) + 1 \<le> MAX_SAFE_INTEGER \<and>
      en = appended_entry l event key now run \<and>
      j' = j\<lparr>runs := map_set (runs j) (l_runId l) (appended_run l event key now run)\<rparr>"
proof -
  obtain run where c: "checkLease j l = Inr ()" and r: "map_get (runs j) (l_runId l) = Some run"
    and rest: "(case Option.bind key (\<lambda>k. find_key k (mr_entries run)) of
       Some existing \<Rightarrow> Inr ((Exists, existing), j)
     | None \<Rightarrow>
         let actualSeq = last_seq (mr_entries run) in
         try_bind (case x of
            None \<Rightarrow> Inr ()
          | Some expected \<Rightarrow>
              throw_if (expected \<noteq> actualSeq) (JournalCasConflictError (l_runId l) expected actualSeq)) (\<lambda>_.
         try_bind (journalCounter (l_runId l) FSeq (actualSeq + 1) Overflow) (\<lambda>seq.
         try_bind (case event of
            StatusChanged status _ \<Rightarrow> validateText FStatus status
          | RunEvent _ _ \<Rightarrow> Inr ()) (\<lambda>_.
         let entry = \<lparr>je_runId = l_runId l, je_seq = seq, je_epoch = l_epoch l, je_key = key,
               je_event = event, je_at = now\<rparr>;
             run' = run\<lparr>mr_entries := mr_entries run @ [entry],
               mr_header := (mr_header run)\<lparr>rh_status := event_status event (rh_status (mr_header run))\<rparr>\<rparr> in
         Inr ((Appended, entry), j\<lparr>runs := map_set (runs j) (l_runId l) run'\<rparr>))))) = Inr ((st, en), j')"
    using assms unfolding append_entry_def by (simp only: try_bind_Inr requireRun_Inr) auto
  show thesis
  proof (cases "Option.bind key (\<lambda>k. find_key k (mr_entries run))")
    case None
    then have "(x = None \<or> x = Some (last_seq (mr_entries run))) \<and> st = Appended \<and>
      0 \<le> last_seq (mr_entries run) + 1 \<and> last_seq (mr_entries run) + 1 \<le> MAX_SAFE_INTEGER \<and>
      en = appended_entry l event key now run \<and>
      j' = j\<lparr>runs := map_set (runs j) (l_runId l) (appended_run l event key now run)\<rparr>"
      using rest
      by (simp only: Let_def option.case try_bind_Inr journalCounter_Inr)
        (auto simp: appended_entry_def appended_run_def split: option.splits)
    with None show thesis using that c r by blast
  next
    case (Some existing)
    with rest show thesis using that c r by auto
  qed
qed

lemma journal_step_later: "owner_later (lease_owner j r) (lease_owner (journal_step j a) r)"
proof (cases a)
  case (Acquire r' h now)
  then show ?thesis
    by (cases "acquire j r' h now")
      (auto simp: acquire_def try_bind_Inr split: option.splits if_splits dest: grant_later)
next
  case (Takeover r' h x now)
  then show ?thesis
    by (cases "takeover j r' h x now")
      (auto simp: takeover_def try_bind_Inr split: option.splits if_splits dest: grant_later)
next
  case (TakeoverExpired r' h ms now now')
  then show ?thesis
    by (cases "takeoverExpired j r' h ms now now'")
      (auto simp: takeoverExpired_def try_bind_Inr split: option.splits if_splits dest: grant_later)
next
  case (Renew l now)
  then show ?thesis
    using put_own_lease_later [of j l "Some (l_holderId l)"]
    by (cases "renew j l now") (auto simp: renew_def try_bind_Inr simp del: lease_owner_simps)
next
  case (Release l now)
  then show ?thesis
    using put_own_lease_later [of j l None]
    by (cases "release_lease j l now") (auto simp: release_lease_def try_bind_Inr simp del: lease_owner_simps)
next
  case (DeleteRun r' now)
  then show ?thesis by (cases "deleteRun j r' now") (auto dest: deleteRun_later)
next
  case (DeleteOwnedRun l x now)
  then show ?thesis
    by (cases "deleteOwnedRun j l x now") (auto simp: deleteOwnedRun_def try_bind_Inr Let_def dest: deleteRun_later)
next
  case (CreateRun h)
  then show ?thesis
    by (cases "createRun j h") (auto simp: createRun_def try_bind_Inr split: if_splits)
next
  case (CreateRunWithEvents h es clock)
  then show ?thesis
    by (cases "createRunWithEvents j h es clock")
      (auto simp: createRunWithEvents_def try_bind_Inr Let_def split: if_splits)
next
  case (Append l e k x now)
  then show ?thesis
    by (cases "append_entry j l e k x now") (auto elim: append_entry_Inr)
next
  case Close
  then show ?thesis by simp
qed

interpretation jf: fenced_store journal_step lease_owner
  by unfold_locales (rule journal_step_later)

text \<open>Every write under a lease starts by checking it.\<close>

lemma writes_check_lease:
  assumes "checkLease j l \<noteq> Inr ()"
  shows "isl (append_entry j l e k x now) \<and> isl (renew j l now) \<and> isl (release_lease j l now) \<and>
    isl (deleteOwnedRun j l x now)"
proof (intro conjI)
  show "isl (append_entry j l e k x now)"
  proof (cases "append_entry j l e k x now")
    case (Inr b)
    then obtain st en j' where "append_entry j l e k x now = Inr ((st, en), j')" by (metis surj_pair)
    then show ?thesis using assms by (auto elim: append_entry_Inr)
  qed simp
  show "isl (renew j l now)" "isl (release_lease j l now)" "isl (deleteOwnedRun j l x now)"
    using assms
    by (auto simp: renew_def release_lease_def deleteOwnedRun_def try_bind_def split: sum.splits)
qed

section \<open>The invariant of a history\<close>

definition current_epoch :: "memory_journal \<Rightarrow> js_text \<Rightarrow> int" where
  "current_epoch j r = (case map_get (leases j) r of None \<Rightarrow> absentEpoch | Some row \<Rightarrow> lr_epoch row)"

definition entries_inv :: "int \<Rightarrow> js_text \<Rightarrow> journal_entry list \<Rightarrow> bool" where
  "entries_inv epoch r es =
     (map je_seq es = map (\<lambda>i. int i + 1) [0..<length es] \<and> (\<forall>e \<in> set es. je_runId e = r) \<and>
      distinct (List.map_filter je_key es) \<and> sorted (map je_epoch es) \<and> (\<forall>e \<in> set es. je_epoch e \<le> epoch))"

definition run_inv :: "int \<Rightarrow> js_text \<Rightarrow> memory_run \<Rightarrow> bool" where
  "run_inv epoch r run =
     (entries_inv epoch r (mr_entries run) \<and> rh_runId (mr_header run) = r \<and>
      (\<exists>st. rh_status (mr_header run) = latest_status st (mr_entries run)))"

definition journal_inv :: "memory_journal \<Rightarrow> bool" where
  "journal_inv j =
     ((\<forall>r row. map_get (leases j) r = Some row \<longrightarrow> 1 \<le> lr_epoch row) \<and>
      (\<forall>r run. map_get (runs j) r = Some run \<longrightarrow> run_inv (current_epoch j r) r run))"

lemma journal_inv_epoch: "journal_inv j \<Longrightarrow> map_get (leases j) r = Some row \<Longrightarrow> 1 \<le> lr_epoch row"
  by (simp add: journal_inv_def)

lemma journal_inv_run: "journal_inv j \<Longrightarrow> map_get (runs j) r = Some run \<Longrightarrow> run_inv (current_epoch j r) r run"
  by (simp add: journal_inv_def)

lemma current_epoch_nonneg: "journal_inv j \<Longrightarrow> 0 \<le> current_epoch j r"
  by (cases "map_get (leases j) r") (force simp: journal_inv_def current_epoch_def absentEpoch_def)+

lemma current_epoch_simps [simp]:
  "current_epoch (put_lease j r h e now) r' = (if r' = r then e else current_epoch j r')"
  "current_epoch (j\<lparr>runs := x\<rparr>) r = current_epoch j r"
  by (auto simp: current_epoch_def put_lease_def)

lemma run_inv_mono: "run_inv e r run \<Longrightarrow> e \<le> e' \<Longrightarrow> run_inv e' r run"
  by (fastforce simp: run_inv_def entries_inv_def)

lemma inv_put_lease [inv_intros]:
  assumes "journal_inv j" and "1 \<le> e" and "current_epoch j r \<le> e"
  shows "journal_inv (put_lease j r h e now)"
proof -
  have "runs (put_lease j r h e now) = runs j" by (simp add: put_lease_def)
  moreover have "map_get (leases (put_lease j r h e now)) r' = Some row \<Longrightarrow> 1 \<le> lr_epoch row" for r' row
    using assms by (auto simp: put_lease_def journal_inv_def split: if_splits)
  ultimately show ?thesis
    using assms unfolding journal_inv_def by (auto intro: run_inv_mono [of "current_epoch j r"])
qed

lemma inv_put_run [inv_intros]:
  "journal_inv j \<Longrightarrow> run_inv (current_epoch j r) r run \<Longrightarrow> journal_inv (j\<lparr>runs := map_set (runs j) r run\<rparr>)"
  by (auto simp: journal_inv_def)

lemma inv_grant [inv_intros]:
  assumes "journal_inv j" and "grant j r h now = Inr (out, j')"
  shows "journal_inv j'"
proof -
  obtain e where j': "j' = put_lease j r (Some h) e now"
    and e: "case map_get (leases j) r of None \<Rightarrow> e = initialEpoch | Some row \<Rightarrow> e = lr_epoch row + 1"
    using assms(2) by (auto elim: grant_Inr)
  have "1 \<le> e \<and> current_epoch j r \<le> e"
    using e current_epoch_nonneg [OF assms(1), of r]
    by (auto simp: current_epoch_def initialEpoch_def absentEpoch_def split: option.splits)
  then show ?thesis using assms(1) by (auto simp: j' intro: inv_intros)
qed

lemma inv_own_lease [inv_intros]:
  assumes "journal_inv j" and "checkLease j l = Inr ()"
  shows "journal_inv (put_lease j (l_runId l) h (l_epoch l) now)"
proof (rule inv_put_lease [OF assms(1)])
  have row: "\<exists>row. map_get (leases j) (l_runId l) = Some row \<and> lr_epoch row = l_epoch l"
    using assms(2) by (auto simp: checkLease_owner lease_owner_def)
  then show "1 \<le> l_epoch l" using journal_inv_epoch [OF assms(1)] by force
  show "current_epoch j (l_runId l) \<le> l_epoch l" using row by (auto simp: current_epoch_def)
qed

lemma inv_deleteRun [inv_intros]:
  assumes "journal_inv j" and "deleteRun j r now = Inr (u, j')"
  shows "journal_inv j'"
proof -
  define k where "k = (case map_get (leases j) r of
       None \<Rightarrow> j | Some current \<Rightarrow> put_lease j r None (lr_epoch current) now)"
  have "journal_inv k"
  proof (cases "map_get (leases j) r")
    case (Some row)
    then show ?thesis
      using journal_inv_epoch [OF assms(1) Some] assms(1)
      by (simp add: k_def inv_put_lease current_epoch_def)
  qed (simp add: k_def assms(1))
  moreover have "j' = k\<lparr>runs := map_delete (runs k) r\<rparr>"
    using assms(2) by (auto simp: deleteRun_def k_def try_bind_Inr Let_def)
  ultimately show ?thesis by (auto simp: journal_inv_def split: if_splits)
qed

lemma map_filter_key_append:
  "List.map_filter f (xs @ [x]) = List.map_filter f xs @ (case f x of None \<Rightarrow> [] | Some y \<Rightarrow> [y])"
  by (simp add: List.map_filter_def split: option.splits)

lemma find_key_None: "find_key k es = None \<longleftrightarrow> k \<notin> set (List.map_filter je_key es)"
  by (force simp: find_key_def find_None_iff List.map_filter_def)

lemma find_key_append:
  "find_key k (es @ [e]) = (case find_key k es of
     None \<Rightarrow> if je_key e = Some k then Some e else None | Some x \<Rightarrow> Some x)"
  by (induction es) (auto simp: find_key_def)

lemma last_seq_length: "map je_seq es = map (\<lambda>i. int i + 1) [0..<length es] \<Longrightarrow> last_seq es = int (length es)"
  by (cases es rule: rev_cases) (auto simp: last_seq_def)

lemma latest_status_snoc: "latest_status s (es @ [e]) = event_status (je_event e) (latest_status s es)"
  by (simp add: latest_status_def)

lemma run_inv_append:
  assumes inv: "run_inv (l_epoch l) (l_runId l) run"
    and fresh: "Option.bind key (\<lambda>k. find_key k (mr_entries run)) = None"
  shows "run_inv (l_epoch l) (l_runId l) (appended_run l event key now run)"
proof -
  have "last_seq (mr_entries run) = int (length (mr_entries run))"
    using inv by (simp add: run_inv_def entries_inv_def last_seq_length)
  then have "entries_inv (l_epoch l) (l_runId l) (mr_entries (appended_run l event key now run))"
    using inv fresh
    by (auto simp: run_inv_def entries_inv_def appended_run_def appended_entry_def map_filter_key_append
        find_key_None sorted_append split: option.splits)
  moreover have "\<exists>st. rh_status (mr_header (appended_run l event key now run)) =
      latest_status st (mr_entries (appended_run l event key now run))"
    using inv by (auto simp: run_inv_def appended_run_def appended_entry_def latest_status_snoc)
  ultimately show ?thesis using inv by (simp add: run_inv_def appended_run_def)
qed

lemma inv_append [inv_intros]:
  assumes "journal_inv j" and "append_entry j l event key x now = Inr ((st, en), j')"
  shows "journal_inv j'"
  using assms(2)
proof (rule append_entry_Inr)
  fix run
  assume c: "checkLease j l = Inr ()" and r: "map_get (runs j) (l_runId l) = Some run"
    and out: "st = Exists \<and> j' = j \<and> Option.bind key (\<lambda>k. find_key k (mr_entries run)) = Some en \<or>
      st = Appended \<and> Option.bind key (\<lambda>k. find_key k (mr_entries run)) = None \<and>
      (x = None \<or> x = Some (last_seq (mr_entries run))) \<and>
      0 \<le> last_seq (mr_entries run) + 1 \<and> last_seq (mr_entries run) + 1 \<le> MAX_SAFE_INTEGER \<and>
      en = appended_entry l event key now run \<and>
      j' = j\<lparr>runs := map_set (runs j) (l_runId l) (appended_run l event key now run)\<rparr>"
  have e: "current_epoch j (l_runId l) = l_epoch l"
    using c by (auto simp: checkLease_owner lease_owner_def current_epoch_def)
  have "run_inv (l_epoch l) (l_runId l) run" using journal_inv_run [OF assms(1) r] by (simp add: e)
  then show ?thesis
    using assms(1) out by (auto intro!: inv_put_run run_inv_append simp: e)
qed

lemma seedEntries_inv:
  assumes "seedEntries r clock i keys seeds = Inr es"
  shows "map je_seq es = map (\<lambda>k. int k + 1) [i..<i + length es] \<and>
    (\<forall>e \<in> set es. je_runId e = r \<and> je_epoch e = absentEpoch) \<and>
    distinct (List.map_filter je_key es) \<and> set keys \<inter> set (List.map_filter je_key es) = {}"
  using assms
proof (induction seeds arbitrary: i keys es)
  case Nil
  then show ?case by (simp add: List.map_filter_def)
next
  case (Cons seed seeds)
  obtain keys' rest where k: "(case se_key seed of None \<Rightarrow> keys' = keys
        | Some k \<Rightarrow> k \<notin> set keys \<and> keys' = keys @ [k])"
    and rest: "seedEntries r clock (Suc i) keys' seeds = Inr rest"
    and es: "es = \<lparr>je_runId = r, je_seq = int i + 1, je_epoch = absentEpoch, je_key = se_key seed,
      je_event = se_event seed, je_at = clock i\<rparr> # rest"
    using Cons.prems by (auto simp: try_bind_Inr split: option.splits)
  have "[i..<i + length es] = i # [Suc i..<Suc i + length rest]"
    by (subst upt_conv_Cons) (simp_all add: es)
  then show ?case
    using Cons.IH [OF rest] k by (auto simp: es List.map_filter_def split: option.splits)
qed

lemma run_inv_seeded:
  assumes "seedEntries (rh_runId h) clock 0 [] seeds = Inr es" and "0 \<le> epoch"
  shows "run_inv epoch (rh_runId h)
    \<lparr>mr_header = (storedHeader j h)\<lparr>rh_status := latest_status (rh_status (storedHeader j h)) es\<rparr>, mr_entries = es\<rparr>"
proof -
  have "sorted (map je_epoch es)"
    using seedEntries_inv [OF assms(1)] by (auto simp: sorted_iff_nth_mono_less)
  then show ?thesis
    using seedEntries_inv [OF assms(1)] assms(2)
    by (auto simp: run_inv_def entries_inv_def absentEpoch_def storedHeader_def split: option.splits)
qed

lemma run_inv_new: "0 \<le> epoch \<Longrightarrow> run_inv epoch (rh_runId h) \<lparr>mr_header = storedHeader j h, mr_entries = []\<rparr>"
  by (auto simp: run_inv_def entries_inv_def List.map_filter_def latest_status_def storedHeader_def split: option.splits)

lemma journal_inv_step: "journal_inv j \<Longrightarrow> journal_inv (journal_step j a)"
proof (cases a)
  assume inv: "journal_inv j"
  note nonneg = current_epoch_nonneg [OF inv]
  {
    case (Acquire r' h now)
    then show ?thesis using inv
      by (cases "acquire j r' h now")
        (auto simp: acquire_def try_bind_Inr split: option.splits if_splits intro: inv_intros)
  next
    case (Takeover r' h x now)
    then show ?thesis using inv
      by (cases "takeover j r' h x now")
        (auto simp: takeover_def try_bind_Inr split: option.splits if_splits intro: inv_intros)
  next
    case (TakeoverExpired r' h ms now now')
    then show ?thesis using inv
      by (cases "takeoverExpired j r' h ms now now'")
        (auto simp: takeoverExpired_def try_bind_Inr split: option.splits if_splits intro: inv_intros)
  next
    case (Renew l now)
    then show ?thesis using inv
      by (cases "renew j l now") (auto simp: renew_def try_bind_Inr intro: inv_intros)
  next
    case (Release l now)
    then show ?thesis using inv
      by (cases "release_lease j l now") (auto simp: release_lease_def try_bind_Inr intro: inv_intros)
  next
    case (DeleteRun r' now)
    then show ?thesis using inv by (cases "deleteRun j r' now") (auto intro: inv_intros)
  next
    case (DeleteOwnedRun l x now)
    then show ?thesis using inv
      by (cases "deleteOwnedRun j l x now")
        (auto simp: deleteOwnedRun_def try_bind_Inr Let_def intro: inv_intros)
  next
    case (CreateRun h)
    then show ?thesis using inv nonneg
      by (cases "createRun j h")
        (auto simp: createRun_def try_bind_Inr split: if_splits intro!: inv_put_run run_inv_new)
  next
    case (CreateRunWithEvents h es clock)
    then show ?thesis using inv nonneg
      by (cases "createRunWithEvents j h es clock")
        (auto simp: createRunWithEvents_def try_bind_Inr Let_def split: if_splits
          intro!: inv_put_run run_inv_seeded)
  next
    case (Append l e k x now)
    then show ?thesis using inv by (cases "append_entry j l e k x now") (auto intro: inv_intros)
  next
    case Close
    then show ?thesis using inv by (simp add: close_journal_def journal_inv_def current_epoch_def)
  }
qed

lemma journal_inv_new: "journal_inv (new_journal d)"
  by (simp add: journal_inv_def new_journal_def)

interpretation jh: step_system journal_step "new_journal d" journal_inv for d
  by unfold_locales (simp_all add: journal_inv_new journal_inv_step)

definition journal_run :: "json option \<Rightarrow> journal_op list \<Rightarrow> memory_journal" where
  "journal_run d ops = foldl journal_step (new_journal d) ops"

lemma journal_run_inv: "journal_inv (journal_run d ops)"
  unfolding journal_run_def by (rule jh.inv_run)

section \<open>Reading\<close>

definition run_entries :: "memory_journal \<Rightarrow> js_text \<Rightarrow> journal_entry list" where
  "run_entries j r = (case map_get (runs j) r of None \<Rightarrow> [] | Some run \<Rightarrow> mr_entries run)"

lemma run_entries_seq:
  assumes "journal_inv j"
  shows "map je_seq (run_entries j r) = map (\<lambda>i. int i + 1) [0..<length (run_entries j r)]"
  using journal_inv_run [OF assms, of r]
  by (auto simp: run_entries_def run_inv_def entries_inv_def split: option.splits)

lemma seq_nth:
  assumes "map je_seq es = map (\<lambda>i. int i + 1) [0..<length es]" and "i < length es"
  shows "je_seq (es ! i) = int i + 1"
  using arg_cong [OF assms(1), of "\<lambda>xs. xs ! i"] assms(2) by simp

lemma readPage_eq: "readPage j r q = take 256 (drop (nat (max 0 (\<lceil>q\<rceil> - 1))) (run_entries j r))"
proof (cases "q \<le> of_nat (length (run_entries j r))")
  case True
  then show ?thesis by (simp add: readPage_def run_entries_def JOURNAL_READ_PAGE_SIZE_def Let_def)
next
  case False
  then have "length (run_entries j r) \<le> nat (max 0 (\<lceil>q\<rceil> - 1))" by linarith
  with False show ?thesis by (simp add: readPage_def run_entries_def Let_def)
qed

lemma readPages_drop:
  assumes "journal_inv j"
  shows "(length (run_entries j r) - nat (max 0 (\<lceil>q\<rceil> - 1))) div 256 < fuel \<Longrightarrow>
    readPages fuel j r q = Some (drop (nat (max 0 (\<lceil>q\<rceil> - 1))) (run_entries j r))"
proof (induction fuel arbitrary: q)
  case 0
  then show ?case by simp
next
  case (Suc fuel)
  let ?es = "run_entries j r" and ?s = "nat (max 0 (\<lceil>q\<rceil> - 1))"
  show ?case
  proof (cases "length (drop ?s ?es) < 256")
    case True
    then show ?thesis by (simp add: readPage_eq JOURNAL_READ_PAGE_SIZE_def)
  next
    case False
    then have len: "?s + 256 \<le> length ?es" by simp
    have "last (take 256 (drop ?s ?es)) = ?es ! (?s + 255)"
      using len by (subst last_conv_nth) auto
    then have seq: "je_seq (last (take 256 (drop ?s ?es))) = int (?s + 255) + 1"
      using seq_nth [OF run_entries_seq [OF assms, of r], of "?s + 255"] len by simp
    let ?q' = "of_int (je_seq (last (take 256 (drop ?s ?es))) + 1) :: rat"
    have s': "nat (max 0 (\<lceil>?q'\<rceil> - 1)) = ?s + 256" unfolding seq by (simp add: nat_add_distrib)
    have "length ?es - ?s = length ?es - (?s + 256) + 256" using len by simp
    then have "(length ?es - ?s) div 256 = Suc ((length ?es - (?s + 256)) div 256)"
      by (simp only: div_add_self2)
    then have "(length ?es - (?s + 256)) div 256 < fuel" using Suc.prems by simp
    then have "readPages fuel j r ?q' = Some (drop (?s + 256) ?es)"
      using Suc.IH [of ?q'] unfolding s' by blast
    moreover have "take 256 (drop ?s ?es) @ drop (?s + 256) ?es = drop ?s ?es"
      using append_take_drop_id [of 256 "drop ?s ?es"] by (simp only: drop_drop add.commute)
    moreover have "length (readPage j r q) = 256" "readPage j r q \<noteq> []"
      using len by (auto simp: readPage_eq)
    ultimately show ?thesis
      by (simp only: readPages.simps Let_def JOURNAL_READ_PAGE_SIZE_def readPage_eq) simp
  qed
qed

lemma drop_seq_filter:
  assumes "map je_seq es = map (\<lambda>i. int i + 1) [0..<length es]"
  shows "drop (nat (max 0 (\<lceil>q\<rceil> - 1))) es = filter (\<lambda>e. q \<le> rat_of_int (je_seq e)) es"
proof -
  let ?s = "nat (max 0 (\<lceil>q\<rceil> - 1))"
  have seq: "je_seq (es ! i) = int i + 1" if "i < length es" for i
    using seq_nth [OF assms that] .
  have iff: "q \<le> rat_of_int (je_seq (es ! i)) \<longleftrightarrow> ?s \<le> i" if "i < length es" for i
    using seq [OF that] by (simp add: nat_le_iff) linarith
  have "filter (\<lambda>e. q \<le> rat_of_int (je_seq e)) (take ?s es) = []"
    by (auto simp: filter_empty_conv in_set_conv_nth) (use iff in force)
  moreover have "filter (\<lambda>e. q \<le> rat_of_int (je_seq e)) (drop ?s es) = drop ?s es"
    by (auto simp: filter_id_conv in_set_conv_nth) (use iff in force)
  ultimately show ?thesis
    by (metis append_take_drop_id filter_append self_append_conv2)
qed

section \<open>Properties\<close>

text \<open>A history for the witnesses: a run, its lease, two appends.\<close>

definition sample_header :: run_header where
  "sample_header = \<lparr>rh_runId = [114], rh_name = [110], rh_cwd = [47], rh_createdAt = 0, rh_status = [105],
     rh_inputs = None, rh_storage = None\<rparr>"

definition sample_lease :: lease where
  "sample_lease = \<lparr>l_runId = [114], l_holderId = [97], l_epoch = 1\<rparr>"

definition sample_ops :: "journal_op list" where
  "sample_ops = [CreateRun sample_header, Acquire [114] [97] 5,
     Append sample_lease (StatusChanged [119] JNull) (Some [107]) None 6,
     Append sample_lease (RunEvent RunStarted JNull) None (Some 1) 7]"

lemmas sample_defs = sample_header_def sample_lease_def sample_ops_def

lemmas journal_eval = new_journal_def createRun_def acquire_def append_entry_def grant_def
  put_lease_def requireRun_def ensureOpen_def validateHeader_def validateLease_def validateText_def checkLease_def
  journalCounter_def storedHeader_def last_seq_def find_key_def map_has_def map_get_def is_surrogate_point_def
  high_surrogate_def low_surrogate_def initialEpoch_def epochIncrement_def MAX_SAFE_INTEGER_def Let_def

lemma sample_journal:
  "journal_run None sample_ops =
   \<lparr>runs = [([114], \<lparr>mr_header = sample_header\<lparr>rh_status := [119]\<rparr>, mr_entries =
       [\<lparr>je_runId = [114], je_seq = 1, je_epoch = 1, je_key = Some [107], je_event = StatusChanged [119] JNull, je_at = 6\<rparr>,
        \<lparr>je_runId = [114], je_seq = 2, je_epoch = 1, je_key = None, je_event = RunEvent RunStarted JNull, je_at = 7\<rparr>]\<rparr>)],
    leases = [([114], \<lparr>lr_holderId = Some [97], lr_epoch = 1, lr_renewedAt = 5\<rparr>)], closed = False, storage = None\<rparr>"
  by (simp add: sample_defs journal_run_def journal_eval)

text \<open>
  C8. After any history of operations, the entries of every run carry the sequence numbers
  1, 2, ..., n in order and non-decreasing epochs none of which exceeds the run's current
  lease epoch, no two entries share an idempotency key, and the header's status is the one
  the recorded status changes give.
\<close>

theorem journal_history_ordered:
  assumes "map_get (runs (journal_run d ops)) r = Some run"
  shows "map je_seq (mr_entries run) = map (\<lambda>i. int i + 1) [0..<length (mr_entries run)] \<and>
    sorted (map je_epoch (mr_entries run)) \<and>
    (\<forall>e \<in> set (mr_entries run). je_epoch e \<le> current_epoch (journal_run d ops) r) \<and>
    distinct (List.map_filter je_key (mr_entries run)) \<and>
    (\<exists>st. rh_status (mr_header run) = latest_status st (mr_entries run))"
  using journal_inv_run [OF journal_run_inv assms] by (auto simp: run_inv_def entries_inv_def)

theorem journal_history_ordered_witness:
  "\<exists>run. map_get (runs (journal_run None sample_ops)) [114] = Some run \<and>
    map je_seq (mr_entries run) = [1, 2] \<and> sorted (map je_epoch (mr_entries run))"
proof -
  obtain run where run: "map_get (runs (journal_run None sample_ops)) [114] = Some run"
    and len: "length (mr_entries run) = 2"
    by (simp add: sample_journal map_get_def)
  have "[0..<2] = [0, 1::nat]" by (simp add: upt_rec)
  with journal_history_ordered [OF run] len run show ?thesis by auto
qed

text \<open>
  C6. A takeover fences the previous holder for good: once a run's lease has been taken
  over from its holder (by \<open>takeover\<close>, or by \<open>takeoverExpired\<close> by another holder), no
  append, renewal, release or deletion under the old lease ever succeeds again, whatever
  operations follow, and the new lease has a higher epoch.
\<close>

theorem takeover_fences_old_lease:
  assumes valid: "checkLease j l = Inr ()"
    and taken: "takeover j (l_runId l) h (l_holderId l) now = Inr (Acquired l', j') \<or>
      h \<noteq> l_holderId l \<and> takeoverExpired j (l_runId l) h ms t now = Inr (Acquired l', j')"
  shows "l_epoch l < l_epoch l' \<and>
    isl (append_entry (foldl journal_step j' ops) l e k x n) \<and> isl (renew (foldl journal_step j' ops) l n) \<and>
    isl (release_lease (foldl journal_step j' ops) l n) \<and> isl (deleteOwnedRun (foldl journal_step j' ops) l x n)"
proof -
  obtain row where row: "map_get (leases j) (l_runId l) = Some row" "lr_epoch row = l_epoch l"
    "lr_holderId row = Some (l_holderId l)"
    using valid by (auto simp: checkLease_owner lease_owner_def)
  then have "grant j (l_runId l) h now = Inr (Acquired l', j')"
    using taken by (auto simp: takeover_def takeoverExpired_def try_bind_Inr split: if_splits)
  then have owner: "lease_owner j' (l_runId l) = Some (Some h, l_epoch l + 1)" "l_epoch l' = l_epoch l + 1"
    using row by (auto elim!: grant_Inr)
  have "lease_owner (foldl journal_step j' ops) (l_runId l) \<noteq> Some (Some (l_holderId l), l_epoch l)"
    by (rule jf.lost_forever [OF owner(1)]) simp
  then have "checkLease (foldl journal_step j' ops) l \<noteq> Inr ()" by (simp add: checkLease_owner)
  from writes_check_lease [OF this] owner(2) show ?thesis by simp
qed

theorem takeover_fences_old_lease_witness:
  "\<exists>l' j'. takeover (journal_run None sample_ops) [114] [98] [97] 9 = Inr (Acquired l', j') \<and> 1 < l_epoch l' \<and>
    isl (renew j' sample_lease 10)"
proof -
  let ?j = "journal_run None sample_ops"
  have v: "checkLease ?j sample_lease = Inr ()" by (simp add: sample_journal sample_lease_def journal_eval)
  obtain l' j' where t: "takeover ?j (l_runId sample_lease) [98] (l_holderId sample_lease) 9 = Inr (Acquired l', j')"
    by (simp add: sample_journal sample_lease_def journal_eval takeover_def)
  from takeover_fences_old_lease [OF v disjI1 [OF t], where ops = "[]" and n = 10] t
  show ?thesis by (auto simp: sample_lease_def)
qed

text \<open>
  C7. Fencing tokens are unique and grow: if two leases of one run are valid at two points
  of a history, the later one's epoch is not lower, and leases with the same epoch belong to
  the same holder. In particular two holders are never valid at once.
\<close>

theorem lease_epochs_are_fencing_tokens:
  assumes "checkLease j l = Inr ()" and "checkLease (foldl journal_step j ops) l' = Inr ()"
    and "l_runId l' = l_runId l"
  shows "l_epoch l \<le> l_epoch l' \<and> (l_epoch l = l_epoch l' \<longrightarrow> l_holderId l = l_holderId l')"
  using assms jf.epochs_grow [of j "l_runId l" "l_holderId l" "l_epoch l" ops "l_holderId l'" "l_epoch l'"]
  by (simp add: checkLease_owner)

theorem lease_epochs_are_fencing_tokens_witness:
  "checkLease (journal_run None sample_ops) sample_lease = Inr () \<and> l_epoch sample_lease \<le> l_epoch sample_lease"
proof -
  have v: "checkLease (journal_run None sample_ops) sample_lease = Inr ()" by (simp add: sample_journal sample_lease_def journal_eval)
  with lease_epochs_are_fencing_tokens [OF v, of "[]" sample_lease] show ?thesis by simp
qed

text \<open>
  C9. Keyed appends are idempotent: after an append under a key, reading that key gives the
  appended entry, and repeating the append under the same key (with whatever event or
  expected sequence) returns that entry and leaves the journal unchanged.
\<close>

theorem keyed_append_idempotent:
  assumes ok: "append_entry j l event (Some key) x now = Inr ((st, en), j')"
  shows "readKey j' (l_runId l) key = Inr (Some en) \<and>
    append_entry j' l event' (Some key) x' now' = Inr ((Exists, en), j')"
proof -
  have v: "validateLease j l = Inr ()" "validateText FKey key = Inr ()"
    using ok unfolding append_entry_def by (simp_all only: try_bind_Inr option.case) auto
  obtain run where c: "checkLease j l = Inr ()" and "map_get (runs j) (l_runId l) = Some run"
    and out: "st = Exists \<and> j' = j \<and> find_key key (mr_entries run) = Some en \<or>
      find_key key (mr_entries run) = None \<and> en = appended_entry l event (Some key) now run \<and>
      j' = j\<lparr>runs := map_set (runs j) (l_runId l) (appended_run l event (Some key) now run)\<rparr>"
    using ok by (auto elim!: append_entry_Inr)
  then obtain run' where run': "map_get (runs j') (l_runId l) = Some run'"
    and found: "find_key key (mr_entries run') = Some en"
    by (auto simp: find_key_append appended_run_def appended_entry_def)
  have same: "closed j' = closed j" "leases j' = leases j" using out by auto
  have open_j: "closed j' = False" using c same by (simp add: checkLease_owner)
  have v': "validateLease j' l = Inr ()" "checkLease j' l = Inr ()"
    using v c same by (auto simp: validateLease_def ensureOpen_def checkLease_owner lease_owner_def)
  have "validateText FRunId (l_runId l) = Inr ()"
    using v(1) by (simp add: validateLease_def try_bind_Inr)
  then show ?thesis
    using v v' run' found open_j
    by (simp add: readKey_def append_entry_def ensureOpen_def requireRun_def)
qed

theorem keyed_append_idempotent_witness:
  "\<exists>en j'. append_entry (journal_run None sample_ops) sample_lease (RunEvent RunFinished JNull) (Some [108]) None 8
      = Inr ((Appended, en), j') \<and> readKey j' [114] [108] = Inr (Some en)"
proof -
  obtain en j' where a: "append_entry (journal_run None sample_ops) sample_lease (RunEvent RunFinished JNull)
      (Some [108]) None 8 = Inr ((Appended, en), j')"
    by (simp add: sample_journal sample_lease_def journal_eval)
  from keyed_append_idempotent [OF a] a show ?thesis by (auto simp: sample_lease_def)
qed

text \<open>
  C12. Reading a run returns: with a page more than the run's length divided by the page size,
  the page loop ends and yields exactly the entries whose sequence number is at least
  \<open>fromSeq\<close>, in order, whatever the number \<open>fromSeq\<close>.
\<close>

theorem read_returns_entries_from:
  assumes "length (run_entries (journal_run d ops) r) div 256 < fuel"
    and "closed (journal_run d ops) = False" and "validateText FRunId r = Inr ()"
  shows "read_entries fuel (journal_run d ops) r fromSeq =
    Inr (Some (filter (\<lambda>e. fromSeq \<le> rat_of_int (je_seq e)) (run_entries (journal_run d ops) r)))"
proof -
  let ?j = "journal_run d ops"
  have "(length (run_entries ?j r) - nat (max 0 (\<lceil>fromSeq\<rceil> - 1))) div 256 < fuel"
    using assms(1) div_le_mono [of "length (run_entries ?j r) - nat (max 0 (\<lceil>fromSeq\<rceil> - 1))" _ 256]
    by (meson diff_le_self le_less_trans)
  then have "readPages fuel ?j r fromSeq = Some (drop (nat (max 0 (\<lceil>fromSeq\<rceil> - 1))) (run_entries ?j r))"
    by (rule readPages_drop [OF journal_run_inv])
  then show ?thesis
    using assms(2,3) drop_seq_filter [OF run_entries_seq [OF journal_run_inv [of d ops], of r]]
    by (simp add: read_entries_def ensureOpen_def)
qed

theorem read_returns_entries_from_witness:
  "read_entries 1 (journal_run None sample_ops) [114] 2 =
    Inr (Some (filter (\<lambda>e. 2 \<le> rat_of_int (je_seq e)) (run_entries (journal_run None sample_ops) [114])))"
proof (rule read_returns_entries_from)
  show "length (run_entries (journal_run None sample_ops) [114]) div 256 < 1"
    "closed (journal_run None sample_ops) = False" "validateText FRunId [114] = Inr ()"
    by (simp_all add: run_entries_def sample_journal journal_eval)
qed

text \<open>
  Conditional appends are a compare-and-set on the length of the history: an append that
  expects sequence \<open>n\<close> and writes an entry finds exactly \<open>n\<close> entries, its entry gets
  the next sequence number, that number is a safe integer, and the entry is the run's last.
\<close>

theorem conditional_append_is_cas:
  assumes "append_entry (journal_run d ops) l event key (Some n) now = Inr ((Appended, en), j')"
  shows "n = int (length (run_entries (journal_run d ops) (l_runId l))) \<and> je_seq en = n + 1 \<and>
    n + 1 \<le> MAX_SAFE_INTEGER \<and> run_entries j' (l_runId l) = run_entries (journal_run d ops) (l_runId l) @ [en]"
  using assms
proof (rule append_entry_Inr)
  fix run
  let ?j = "journal_run d ops"
  assume r: "map_get (runs ?j) (l_runId l) = Some run"
    and "Appended = Exists \<and> j' = ?j \<and> Option.bind key (\<lambda>k. find_key k (mr_entries run)) = Some en \<or>
      Appended = Appended \<and> Option.bind key (\<lambda>k. find_key k (mr_entries run)) = None \<and>
      (Some n = None \<or> Some n = Some (last_seq (mr_entries run))) \<and>
      0 \<le> last_seq (mr_entries run) + 1 \<and> last_seq (mr_entries run) + 1 \<le> MAX_SAFE_INTEGER \<and>
      en = appended_entry l event key now run \<and>
      j' = ?j\<lparr>runs := map_set (runs ?j) (l_runId l) (appended_run l event key now run)\<rparr>"
  moreover have "last_seq (mr_entries run) = int (length (mr_entries run))"
    using journal_inv_run [OF journal_run_inv r] by (simp add: run_inv_def entries_inv_def last_seq_length)
  ultimately show ?thesis
    by (auto simp: run_entries_def appended_entry_def appended_run_def)
qed

theorem conditional_append_is_cas_witness:
  "\<exists>en j'. append_entry (journal_run None sample_ops) sample_lease (RunEvent RunFinished JNull) None (Some 2) 8
      = Inr ((Appended, en), j') \<and> je_seq en = 3"
proof -
  obtain en j' where a: "append_entry (journal_run None sample_ops) sample_lease (RunEvent RunFinished JNull)
      None (Some 2) 8 = Inr ((Appended, en), j')"
    by (simp add: sample_journal sample_lease_def journal_eval)
  from conditional_append_is_cas [OF a] a show ?thesis by auto
qed

end
