(* ===== verification/Stage_Topology.thy ===== *)
theory Stage_Topology
  imports Prelude
begin

text \<open>
  The stage lineage a run records with its checkpoints and its validation before a saved
  child is replayed (\<open>packages/workflows/src/durable/\<close>: the record types of
  \<open>types.ts\<close>, \<open>stage-topology-validation.ts\<close>, \<open>boundary-lifecycle.ts\<close>,
  \<open>workflow-child-result.ts\<close>). Validation accepts a child's stages only when they form a
  well-formed graph: the theory shows that what it accepts is a directed acyclic graph with
  unique ids and known parents, that the depth-first search behind it is exact, that only
  unanswered prompts are superseded, and which boundary lifecycles are accepted.

  The composite keys the code builds with \<open>JSON.stringify\<close> of an array of strings are the
  lists themselves, which the encoding keeps apart. Checkpoint records are values: the one
  comparison by reference (\<open>starts[0] !== start\<close>) is a comparison of records, which differ
  in their checkpoint ids. Display metadata of a checkpoint that no validation reads is left out.
\<close>

section \<open>Records\<close>

definition DURABLE_STAGE_TOPOLOGY_VERSION :: int where "DURABLE_STAGE_TOPOLOGY_VERSION = 1"
definition DURABLE_BOUNDARY_TOPOLOGY_VERSION :: int where "DURABLE_BOUNDARY_TOPOLOGY_VERSION = 1"

datatype stage_status =
    Pending | Running | AwaitingInput | Paused | Blocked | Waiting | Completed | Failed | Skipped

record child_topology =
  ct_runId :: string
  ct_runName :: string
  ct_parentRunId :: string
  ct_parentStageId :: string
  ct_rootRunId :: string

datatype boundary_event = BoundaryStart | BoundaryTerminal

record boundary_topology =
  b_version :: int
  b_replayScope :: string
  b_alias :: string
  b_workflow :: string
  b_invocationFingerprint :: string
  b_child :: child_topology
  b_workspace :: "json option"
  b_event :: boundary_event
  b_status :: stage_status

record run_topology =
  rt_runId :: string
  rt_runName :: string
  rt_parentRunId :: "string option"
  rt_parentStageId :: "string option"
  rt_rootRunId :: "string option"

record stage_topology =
  t_version :: int
  t_stageId :: string
  t_parentIds :: "string list"
  t_intercomGroup :: "string option"
  t_sourceOrder :: "int option"
  t_occurrenceKey :: "string option"
  t_status :: "stage_status option"
  t_order :: "int option"
  t_run :: "run_topology option"
  t_boundary :: "boundary_topology option"

record stage_checkpoint =
  sc_workflowId :: string
  sc_checkpointId :: string
  sc_name :: string
  sc_replayKey :: string
  sc_topology :: "stage_topology option"
  sc_output :: "json option"
  sc_sessionId :: "string option"
  sc_sessionFile :: "string option"
  sc_completedAt :: int

section \<open>Comparison of records\<close>

definition sameRun :: "run_topology option \<Rightarrow> run_topology \<Rightarrow> bool" where
  "sameRun actual expected =
     (case actual of
        None \<Rightarrow> False
      | Some a \<Rightarrow> rt_runId a = rt_runId expected \<and> rt_runName a = rt_runName expected \<and>
          rt_parentRunId a = rt_parentRunId expected \<and> rt_parentStageId a = rt_parentStageId expected \<and>
          rt_rootRunId a = rt_rootRunId expected)"

definition sameStrings :: "string list \<Rightarrow> string list \<Rightarrow> bool" where
  "sameStrings left right =
     (length left = length right \<and> list_all (\<lambda>i. left ! i = right ! i) [0..<length left])"

definition sameOptionalRun :: "run_topology option \<Rightarrow> run_topology option \<Rightarrow> bool" where
  "sameOptionalRun actual expected =
     (case expected of
        None \<Rightarrow> actual = None
      | Some e \<Rightarrow> (case actual of None \<Rightarrow> False | Some a \<Rightarrow> sameRun (Some a) e))"

lemma sameStrings_eq: "sameStrings left right \<longleftrightarrow> left = right"
  unfolding sameStrings_def list_all_iff list_eq_iff_nth_eq [of left right] by (auto simp: Ball_def)

lemma sameRun_eq: "sameRun actual expected \<longleftrightarrow> actual = Some expected"
  by (cases actual) (auto simp: sameRun_def intro: run_topology.equality)

lemma sameOptionalRun_eq: "sameOptionalRun a e \<longleftrightarrow> a = e"
  by (auto simp: sameOptionalRun_def sameRun_eq split: option.splits)

section \<open>Groups of records\<close>

definition compositeKey :: "string \<Rightarrow> string list \<Rightarrow> string list" where
  "compositeKey domain parts = domain # parts"

definition occurrenceKey :: "stage_checkpoint \<Rightarrow> string option" where
  "occurrenceKey stage = Option.bind (sc_topology stage) t_occurrenceKey"

definition durableStageGroupKey :: "stage_checkpoint \<Rightarrow> string list" where
  "durableStageGroupKey stage =
     (case occurrenceKey stage of
        None \<Rightarrow> compositeKey ''stage-replay'' [sc_replayKey stage]
      | Some occurrence \<Rightarrow> compositeKey ''prompt-occurrence'' [sc_replayKey stage, occurrence])"

definition groupByDurableStageKey ::
  "stage_checkpoint list \<Rightarrow> (string list, stage_checkpoint list) jmap" where
  "groupByDurableStageKey stages =
     foldl (\<lambda>groups stage. let key = durableStageGroupKey stage in
       map_set groups key (map_get_or groups key [] @ [stage])) [] stages"

text \<open>The first error of a loop that returns at its first error.\<close>

fun first_error :: "('a \<Rightarrow> 'e option) \<Rightarrow> 'a list \<Rightarrow> 'e option" where
  "first_error f [] = None"
| "first_error f (x # xs) = (case f x of Some e \<Rightarrow> Some e | None \<Rightarrow> first_error f xs)"

text \<open>The three maps of the walk: replay key by occurrence, occurrence by stage, stage by occurrence.\<close>

fun promptOccurrences ::
  "(string, string) jmap \<Rightarrow> (string list, string) jmap \<Rightarrow> (string list, string) jmap \<Rightarrow>
     stage_checkpoint list \<Rightarrow> string option" where
  "promptOccurrences byOccurrence byReplayStage byReplayOccurrence [] = None"
| "promptOccurrences byOccurrence byReplayStage byReplayOccurrence (stage # stages) =
     (case sc_topology stage of
        None \<Rightarrow> promptOccurrences byOccurrence byReplayStage byReplayOccurrence stages
      | Some topology \<Rightarrow>
        (case t_occurrenceKey topology of
           None \<Rightarrow> promptOccurrences byOccurrence byReplayStage byReplayOccurrence stages
         | Some occurrence \<Rightarrow>
           let replayStage = compositeKey ''prompt-stage'' [sc_replayKey stage, t_stageId topology];
               replayOccurrence = compositeKey ''prompt-occurrence'' [sc_replayKey stage, occurrence] in
           if map_get byOccurrence occurrence \<notin> {None, Some (sc_replayKey stage)}
           then Some ''prompt occurrence is bound to multiple replay keys''
           else if map_get byReplayStage replayStage \<notin> {None, Some occurrence}
           then Some ''prompt stage identity is bound to multiple occurrences''
           else if map_get byReplayOccurrence replayOccurrence \<notin> {None, Some (t_stageId topology)}
           then Some ''prompt occurrence is bound to multiple stage identities''
           else promptOccurrences (map_set byOccurrence occurrence (sc_replayKey stage))
             (map_set byReplayStage replayStage occurrence)
             (map_set byReplayOccurrence replayOccurrence (t_stageId topology)) stages))"

definition promptOccurrenceIdentityError :: "stage_checkpoint list \<Rightarrow> string option" where
  "promptOccurrenceIdentityError stages = promptOccurrences [] [] [] stages"

definition group_topologies :: "stage_checkpoint list \<Rightarrow> stage_topology list" where
  "group_topologies grp = List.map_filter sc_topology grp"

definition immutableGroupError :: "stage_checkpoint list \<Rightarrow> string option" where
  "immutableGroupError grp =
     (if list_ex (\<lambda>stage. Some (sc_name stage) \<noteq> map_option sc_name (case grp of [] \<Rightarrow> None | g # _ \<Rightarrow> Some g)) grp
      then Some ''stage name drift within one replay-key group''
      else case group_topologies grp of
        [] \<Rightarrow> None
      | first # rest \<Rightarrow>
          if list_ex (\<lambda>topology. t_version topology \<noteq> DURABLE_STAGE_TOPOLOGY_VERSION \<or>
               t_stageId topology \<noteq> t_stageId first \<or>
               \<not> sameStrings (t_parentIds topology) (t_parentIds first) \<or>
               t_sourceOrder topology \<noteq> t_sourceOrder first \<or>
               \<not> sameOptionalRun (t_run topology) (t_run first)) (first # rest)
          then Some ''immutable stage identity drift within one replay-key group''
          else None)"

definition immutableStageGroupError :: "stage_checkpoint list \<Rightarrow> string option" where
  "immutableStageGroupError stages =
     (case promptOccurrenceIdentityError stages of
        Some e \<Rightarrow> Some e
      | None \<Rightarrow> first_error immutableGroupError (map_values (groupByDurableStageKey stages)))"

section \<open>Superseded prompts\<close>

definition UNANSWERED_PROMPT_STATUSES :: "stage_status list" where
  "UNANSWERED_PROMPT_STATUSES = [Pending, Running, AwaitingInput, Paused, Blocked]"

definition is_prompt_record :: "stage_checkpoint \<Rightarrow> bool" where
  "is_prompt_record stage =
     (case sc_topology stage of
        None \<Rightarrow> False
      | Some t \<Rightarrow> t_occurrenceKey t \<noteq> None \<and> t_boundary t = None)"

definition isPromptGroup :: "stage_checkpoint list \<Rightarrow> bool" where
  "isPromptGroup grp = list_all is_prompt_record grp"

definition isUnansweredPromptGroup :: "stage_checkpoint list \<Rightarrow> bool" where
  "isUnansweredPromptGroup grp =
     list_all (\<lambda>stage. case sc_topology stage of
         None \<Rightarrow> False
       | Some t \<Rightarrow> t_occurrenceKey t \<noteq> None \<and> t_boundary t = None \<and>
           (case t_status t of None \<Rightarrow> False | Some st \<Rightarrow> st \<in> set UNANSWERED_PROMPT_STATUSES)) grp"

record prompt_candidate =
  pc_key :: "string list"
  pc_prompt :: bool
  pc_unanswered :: bool

type_synonym source_position = "string option \<times> int"

definition group_position :: "stage_checkpoint list \<Rightarrow> source_position option" where
  "group_position grp =
     (case group_topologies grp of
        [] \<Rightarrow> None
      | topology # _ \<Rightarrow>
          (case t_sourceOrder topology of
             None \<Rightarrow> None
           | Some order \<Rightarrow> Some (map_option rt_runId (t_run topology), order)))"

definition add_candidate ::
  "(source_position, prompt_candidate list) jmap \<Rightarrow> (string list \<times> stage_checkpoint list) \<Rightarrow>
     (source_position, prompt_candidate list) jmap" where
  "add_candidate byPosition entry =
     (case group_position (snd entry) of
        None \<Rightarrow> byPosition
      | Some position \<Rightarrow> map_set byPosition position (map_get_or byPosition position [] @
          [\<lparr>pc_key = fst entry, pc_prompt = isPromptGroup (snd entry),
            pc_unanswered = isUnansweredPromptGroup (snd entry)\<rparr>]))"

definition superseded_at :: "prompt_candidate list \<Rightarrow> string list list" where
  "superseded_at atPosition =
     (if length atPosition < 2 \<or> \<not> list_ex pc_unanswered atPosition then []
      else if \<not> list_all pc_prompt atPosition then []
      else
        let answered = filter (\<lambda>c. \<not> pc_unanswered c) atPosition;
            kept = (if answered \<noteq> [] then answered else [last atPosition]) in
        map pc_key (filter (\<lambda>c. pc_unanswered c \<and> c \<notin> set kept) atPosition))"

definition supersededPromptGroupKeys :: "stage_checkpoint list \<Rightarrow> string list jset" where
  "supersededPromptGroupKeys stages =
     (let byPosition = foldl add_candidate [] (groupByDurableStageKey stages) in
      foldl (\<lambda>acc atPosition. set_add_all acc (superseded_at atPosition)) [] (map_values byPosition))"

section \<open>Cycles\<close>

text \<open>
  \<open>hasCycle\<close>: the depth-first search over recorded parents. \<open>ids\<close> are the ids a
  \<open>some\<close> still has to visit. An id leaves \<open>visiting\<close> again when its search finds no
  cycle, and the search ends at the first cycle, so \<open>visiting\<close> is handed down;
  \<open>visited\<close> is threaded through.
\<close>

function cyclic_some ::
  "(string, string list) jmap \<Rightarrow> string jset \<Rightarrow> string jset \<Rightarrow> string list \<Rightarrow> bool \<times> string jset" where
  "cyclic_some parents visiting visited [] = (False, visited)"
| "cyclic_some parents visiting visited (stageId # ids) =
     (if set_has visiting stageId then (True, visited)
      else if set_has visited stageId then cyclic_some parents visiting visited ids
      else case cyclic_some parents (set_add visiting stageId) visited (map_get_or parents stageId []) of
        (True, visited') \<Rightarrow> (True, visited')
      | (False, visited') \<Rightarrow> cyclic_some parents visiting (set_add visited' stageId) ids)"
  by pat_completeness auto
termination
proof (relation "measures [\<lambda>(p, visiting, visited, ids). card (fst ` set p - set visiting),
    \<lambda>(p, visiting, visited, ids). length ids]", goal_cases)
  case 1
  show ?case by simp
next
  case 2
  then show ?case by simp
next
  case (3 parents visiting visited stageId ids)
  show ?case
  proof (cases "stageId \<in> fst ` set parents")
    case True
    then have "fst ` set parents - insert stageId (set visiting) \<subset> fst ` set parents - set visiting"
      using 3 by (auto simp: set_has_def)
    then show ?thesis by (simp add: psubset_card_mono)
  next
    case False
    then have "map_get parents stageId = None"
      and "fst ` set parents - insert stageId (set visiting) = fst ` set parents - set visiting"
      by (auto simp: map_get_None_iff)
    then show ?thesis by (simp add: map_get_or_def)
  qed
next
  case 4
  then show ?case by simp
qed

definition topology_parents :: "stage_topology list \<Rightarrow> (string, string list) jmap" where
  "topology_parents topologies =
     foldl (\<lambda>m t. map_set m (t_stageId t) (t_parentIds t)) [] topologies"

definition hasCycle :: "stage_topology list \<Rightarrow> bool" where
  "hasCycle topologies = fst (cyclic_some (topology_parents topologies) [] [] (map t_stageId topologies))"

section \<open>Direct children\<close>

record child_records =
  cr_claiming :: "stage_checkpoint list"
  cr_direct :: "stage_checkpoint list \<Rightarrow> stage_checkpoint list"

definition claims_run :: "run_topology \<Rightarrow> stage_checkpoint \<Rightarrow> bool" where
  "claims_run expectedRun stage =
     (Option.bind (sc_topology stage) (\<lambda>t. map_option rt_runId (t_run t)) = Some (rt_runId expectedRun))"

definition starts_with :: "string \<Rightarrow> string \<Rightarrow> bool" where
  "starts_with s prefix = (take (length prefix) s = prefix)"

text \<open>The group topologies that own the run, groups of superseded prompts left out.\<close>

fun mergeGroups ::
  "run_topology \<Rightarrow> string list jset \<Rightarrow> (string list, stage_checkpoint list) jmap \<Rightarrow>
     string + stage_topology list" where
  "mergeGroups expectedRun superseded [] = Inr []"
| "mergeGroups expectedRun superseded ((key, grp) # groups) =
     (if set_has superseded key then mergeGroups expectedRun superseded groups
      else case Option.bind (find (claims_run expectedRun) grp) sc_topology of
        None \<Rightarrow> Inl ''direct child stage group lacks owning-run topology''
      | Some topology \<Rightarrow>
          if t_version topology \<noteq> DURABLE_STAGE_TOPOLOGY_VERSION \<or> t_sourceOrder topology = None
          then Inl ''direct child stage topology lacks current source identity''
          else if t_stageId topology = [] then Inl ''direct child stage id is empty''
          else try_bind (mergeGroups expectedRun superseded groups) (\<lambda>rest. Inr (topology # rest)))"

fun uniqueIdentities ::
  "string jset \<Rightarrow> string jset \<Rightarrow> int jset \<Rightarrow> stage_topology list \<Rightarrow> string + string jset" where
  "uniqueIdentities ids stageIds orders [] = Inr ids"
| "uniqueIdentities ids stageIds orders (topology # rest) =
     (if set_has stageIds (t_stageId topology) \<or> set_has ids (t_stageId topology)
      then Inl ''direct child stage ids are not unique''
      else
        let stageIds' = set_add stageIds (t_stageId topology);
            ids' = set_add ids (t_stageId topology) in
        case t_sourceOrder topology of
          None \<Rightarrow> uniqueIdentities ids' stageIds' orders rest
        | Some order \<Rightarrow>
            if set_has orders order then Inl ''direct child source orders are not unique''
            else uniqueIdentities ids' stageIds' (set_add orders order) rest)"

definition mergedTopologyError :: "string jset \<Rightarrow> stage_topology list \<Rightarrow> string option" where
  "mergedTopologyError allowedNodeIds merged =
     (case uniqueIdentities allowedNodeIds [] [] merged of
        Inl e \<Rightarrow> Some e
      | Inr ids \<Rightarrow>
          if list_ex (\<lambda>t. list_ex (\<lambda>parentId. \<not> set_has ids parentId) (t_parentIds t)) merged
          then Some ''direct child stage references an unknown parent''
          else if hasCycle merged then Some ''direct child stage topology contains a cycle''
          else None)"

definition directChildTopologyErrorFromRecords ::
  "child_records \<Rightarrow> string \<Rightarrow> run_topology \<Rightarrow> string jset \<Rightarrow> string option" where
  "directChildTopologyErrorFromRecords records replayScope expectedRun allowedNodeIds =
     (let prefix = replayScope @ '':''; claiming = cr_claiming records in
      if list_ex (\<lambda>stage. \<not> starts_with (sc_replayKey stage) prefix) claiming
      then Some ''child run topology exists outside its durable invocation scope''
      else if list_ex (\<lambda>stage. \<not> sameRun (Option.bind (sc_topology stage) t_run) expectedRun) claiming
      then Some ''child checkpoint ownership is not reciprocal''
      else
        let direct = cr_direct records claiming in
        case immutableStageGroupError direct of
          Some e \<Rightarrow> Some e
        | None \<Rightarrow>
          (case mergeGroups expectedRun (supersededPromptGroupKeys direct) (groupByDurableStageKey direct) of
             Inl e \<Rightarrow> Some e
           | Inr merged \<Rightarrow> mergedTopologyError allowedNodeIds merged))"

definition directChildTopologyError ::
  "stage_checkpoint list \<Rightarrow> string \<Rightarrow> run_topology \<Rightarrow> string jset \<Rightarrow> string option" where
  "directChildTopologyError stages replayScope expectedRun allowedNodeIds =
     directChildTopologyErrorFromRecords
       \<lparr>cr_claiming = filter (claims_run expectedRun) stages,
        cr_direct = (\<lambda>claiming. let directKeys = map durableStageGroupKey claiming in
          filter (\<lambda>stage. durableStageGroupKey stage \<in> set directKeys) stages)\<rparr>
       replayScope expectedRun allowedNodeIds"

section \<open>Boundary ids\<close>

definition is_owning_start :: "string \<Rightarrow> stage_checkpoint \<Rightarrow> bool" where
  "is_owning_start owningRunId stage =
     (case sc_topology stage of
        None \<Rightarrow> False
      | Some t \<Rightarrow> map_option rt_runId (t_run t) = Some owningRunId \<and>
          map_option b_event (t_boundary t) = Some BoundaryStart)"

fun boundaryIds :: "(string, string) jmap \<Rightarrow> (string \<times> string) list \<Rightarrow> string option" where
  "boundaryIds seen [] = None"
| "boundaryIds seen ((stageId, replayKey) # starts) =
     (if stageId = [] then Some ''owning-run boundary stage id is empty''
      else if map_get seen stageId \<notin> {None, Some replayKey}
      then Some ''owning-run boundary stage id is aliased''
      else boundaryIds (map_set seen stageId replayKey) starts)"

definition owningBoundaryIdError :: "stage_checkpoint list \<Rightarrow> string \<Rightarrow> string option" where
  "owningBoundaryIdError stages owningRunId =
     boundaryIds [] (List.map_filter (\<lambda>stage. map_option (\<lambda>t. (t_stageId t, sc_replayKey stage)) (sc_topology stage))
       (filter (is_owning_start owningRunId) stages))"

section \<open>Child results\<close>

definition json_field :: "json \<Rightarrow> string \<Rightarrow> json option" where
  "json_field v k = (case v of JObj m \<Rightarrow> map_get m k | _ \<Rightarrow> None)"

fun isOrdinaryObject :: "json option \<Rightarrow> bool" where
  "isOrdinaryObject (Some (JObj m)) = True"
| "isOrdinaryObject _ = False"

definition isWorkflowExitStatus :: "json option \<Rightarrow> bool" where
  "isWorkflowExitStatus v = (v \<in> Some ` JStr ` {''completed'', ''skipped'', ''cancelled'', ''blocked'', ''failed''})"

fun is_json_string :: "json option \<Rightarrow> bool" where
  "is_json_string (Some (JStr s)) = True"
| "is_json_string _ = False"

text \<open>The parser checks a persisted value and returns it as it is.\<close>

definition parseWorkflowChildResult :: "json option \<Rightarrow> json option" where
  "parseWorkflowChildResult value =
     (case value of
        None \<Rightarrow> None
      | Some v \<Rightarrow>
          if \<not> isOrdinaryObject value then None
          else if \<not> is_json_string (json_field v ''workflow'') \<or> \<not> is_json_string (json_field v ''runId'') \<or>
            \<not> isOrdinaryObject (json_field v ''outputs'') then None
          else if json_field v ''exited'' = Some (JBool False) then
            (if json_field v ''status'' \<noteq> Some (JStr ''completed'') \<or> json_field v ''exitReason'' \<noteq> None
             then None else Some v)
          else if json_field v ''exited'' \<noteq> Some (JBool True) \<or>
            \<not> isWorkflowExitStatus (json_field v ''status'') \<or>
            (json_field v ''exitReason'' \<noteq> None \<and> \<not> is_json_string (json_field v ''exitReason''))
          then None
          else Some v)"

definition isWorkflowChildResult :: "json option \<Rightarrow> bool" where
  "isWorkflowChildResult value = (parseWorkflowChildResult value \<noteq> None)"

section \<open>Boundary lifecycle\<close>

record valid_lifecycle =
  vl_latestTerminal :: "stage_checkpoint option"
  vl_completedOutput :: "json option"

definition validBoundaryOwnership :: "stage_topology \<Rightarrow> run_topology \<Rightarrow> boundary_topology \<Rightarrow> bool" where
  "validBoundaryOwnership topology run boundary =
     (let expectedRoot = or_else (rt_rootRunId run) (rt_runId run) in
      b_alias boundary \<noteq> [] \<and> b_workflow boundary \<noteq> [] \<and> ct_runId (b_child boundary) \<noteq> [] \<and>
      ct_runName (b_child boundary) \<noteq> [] \<and> ct_parentRunId (b_child boundary) = rt_runId run \<and>
      ct_parentStageId (b_child boundary) = t_stageId topology \<and>
      ct_rootRunId (b_child boundary) = expectedRoot)"

definition sameBoundaryChild :: "child_topology \<Rightarrow> child_topology \<Rightarrow> bool" where
  "sameBoundaryChild actual expected =
     (ct_runId actual = ct_runId expected \<and> ct_runName actual = ct_runName expected \<and>
      ct_parentRunId actual = ct_parentRunId expected \<and> ct_parentStageId actual = ct_parentStageId expected \<and>
      ct_rootRunId actual = ct_rootRunId expected)"

definition has_boundary_event :: "boundary_event \<Rightarrow> stage_checkpoint \<Rightarrow> bool" where
  "has_boundary_event ev stage =
     (Option.bind (sc_topology stage) (\<lambda>t. map_option b_event (t_boundary t)) = Some ev)"

definition validBoundaryStart :: "stage_checkpoint \<Rightarrow> bool" where
  "validBoundaryStart start =
     (case sc_topology start of
        None \<Rightarrow> False
      | Some t \<Rightarrow>
        (case t_boundary t of
           None \<Rightarrow> False
         | Some b \<Rightarrow>
           (case t_run t of
              None \<Rightarrow> False
            | Some run \<Rightarrow>
                t_version t = DURABLE_STAGE_TOPOLOGY_VERSION \<and> b_version b = DURABLE_BOUNDARY_TOPOLOGY_VERSION \<and>
                t_stageId t \<noteq> [] \<and> t_sourceOrder t \<noteq> None \<and> t_status t = Some Running \<and> b_status b = Running \<and>
                b_event b = BoundaryStart \<and> sc_output start = None \<and> b_replayScope b = sc_replayKey start \<and>
                validBoundaryOwnership t run b)))"

definition sameBoundaryIdentity ::
  "stage_checkpoint \<Rightarrow> stage_topology \<Rightarrow> boundary_topology \<Rightarrow>
     stage_checkpoint \<Rightarrow> stage_topology \<Rightarrow> run_topology \<Rightarrow> boundary_topology \<Rightarrow> bool" where
  "sameBoundaryIdentity terminal tt tb start st run sb =
     (t_version tt = t_version st \<and> t_stageId tt = t_stageId st \<and>
      sameStrings (t_parentIds tt) (t_parentIds st) \<and> t_sourceOrder tt = t_sourceOrder st \<and>
      sameRun (t_run tt) run \<and> sc_name terminal = sc_name start \<and> sc_replayKey terminal = sc_replayKey start \<and>
      b_version tb = b_version sb \<and> b_replayScope tb = b_replayScope sb \<and> b_alias tb = b_alias sb \<and>
      b_workflow tb = b_workflow sb \<and> b_invocationFingerprint tb = b_invocationFingerprint sb \<and>
      sameBoundaryChild (b_child tb) (b_child sb))"

text \<open>
  The loop over the terminal records. A related record has a topology with a boundary, so
  the two reads the code asserts are present.
\<close>

fun boundaryTerminals ::
  "stage_checkpoint \<Rightarrow> stage_topology \<Rightarrow> run_topology \<Rightarrow> boundary_topology \<Rightarrow>
     stage_status jset \<Rightarrow> json option \<Rightarrow> stage_checkpoint list \<Rightarrow> string + (stage_status jset \<times> json option)" where
  "boundaryTerminals start st run sb statuses completedOutput [] = Inr (statuses, completedOutput)"
| "boundaryTerminals start st run sb statuses completedOutput (terminal # terminals) =
     (case sc_topology terminal of
        None \<Rightarrow> boundaryTerminals start st run sb statuses completedOutput terminals
      | Some tt \<Rightarrow>
        (case t_boundary tt of
           None \<Rightarrow> boundaryTerminals start st run sb statuses completedOutput terminals
         | Some tb \<Rightarrow>
           if set_has statuses (b_status tb) \<or> t_status tt \<noteq> Some (b_status tb)
           then Inl ''boundary has conflicting terminal records''
           else if \<not> sameBoundaryIdentity terminal tt tb start st run sb
           then Inl ''boundary terminal immutable identity drifted from its start''
           else if b_status tb = Completed then
             (case parseWorkflowChildResult (sc_output terminal) of
                None \<Rightarrow> Inl ''completed boundary output is malformed or stale''
              | Some parsed \<Rightarrow>
                  if json_field parsed ''runId'' \<noteq> Some (JStr (ct_runId (b_child sb))) \<or>
                    json_field parsed ''workflow'' \<noteq> Some (JStr (b_workflow sb))
                  then Inl ''completed boundary output is malformed or stale''
                  else boundaryTerminals start st run sb (set_add statuses (b_status tb)) (Some parsed) terminals)
           else if sc_output terminal \<noteq> None
           then Inl ''failed or skipped boundary cannot persist a successful output''
           else boundaryTerminals start st run sb (set_add statuses (b_status tb)) completedOutput terminals))"

text \<open>\<open>terminals.reduce((latest, t) => t.completedAt > latest.completedAt ? t : latest)\<close>\<close>

fun latestTerminal :: "stage_checkpoint \<Rightarrow> stage_checkpoint list \<Rightarrow> stage_checkpoint" where
  "latestTerminal latest [] = latest"
| "latestTerminal latest (t # ts) =
     latestTerminal (if sc_completedAt latest < sc_completedAt t then t else latest) ts"

definition boundary_status_is :: "stage_status \<Rightarrow> stage_checkpoint \<Rightarrow> bool" where
  "boundary_status_is status stage =
     (Option.bind (sc_topology stage) (\<lambda>t. map_option b_status (t_boundary t)) = Some status)"

definition illegalTerminals :: "stage_status jset \<Rightarrow> stage_checkpoint list \<Rightarrow> bool" where
  "illegalTerminals statuses terminals =
     (2 < length terminals \<or>
      length terminals = 2 \<and>
        (\<not> set_has statuses Completed \<or> (\<not> set_has statuses Failed \<and> \<not> set_has statuses Skipped) \<or>
         sc_completedAt (terminals ! 0) = sc_completedAt (terminals ! 1)))"

definition conflictingOutputs :: "stage_checkpoint option \<Rightarrow> stage_checkpoint list \<Rightarrow> bool" where
  "conflictingOutputs completed outputRecords =
     (length outputRecords \<noteq> (if completed = None then 0 else 1) \<or>
      (case completed of
         None \<Rightarrow> False
       | Some c \<Rightarrow> (case outputRecords of
            [] \<Rightarrow> True
          | out # _ \<Rightarrow> sc_checkpointId out \<noteq> sc_checkpointId c)))"

definition resolveBoundaryLifecycleFromRecords ::
  "stage_checkpoint \<Rightarrow> stage_checkpoint list \<Rightarrow> stage_checkpoint list \<Rightarrow> bool \<Rightarrow> string + valid_lifecycle" where
  "resolveBoundaryLifecycleFromRecords start related outputRecords requireTerminal =
     (if filter (has_boundary_event BoundaryStart) related \<noteq> [start]
      then Inl ''boundary has no unique start record''
      else if \<not> validBoundaryStart start then Inl ''malformed boundary-start transition''
      else
        let st = the (sc_topology start); sb = the (t_boundary st); run = the (t_run st);
            terminals = filter (has_boundary_event BoundaryTerminal) related in
        case terminals of
          [] \<Rightarrow> if requireTerminal then Inl ''completed boundary has no terminal record''
                else Inr \<lparr>vl_latestTerminal = None, vl_completedOutput = None\<rparr>
        | first # rest \<Rightarrow>
            try_bind (boundaryTerminals start st run sb [] None terminals) (\<lambda>(statuses, completedOutput).
            if illegalTerminals statuses terminals then Inl ''boundary has an illegal terminal transition''
            else if conflictingOutputs (find (boundary_status_is Completed) terminals) outputRecords
            then Inl ''boundary replay key has conflicting output records''
            else Inr \<lparr>vl_latestTerminal = Some (latestTerminal first rest), vl_completedOutput = completedOutput\<rparr>))"

definition boundary_related :: "stage_checkpoint \<Rightarrow> stage_checkpoint \<Rightarrow> bool" where
  "boundary_related start stage =
     (case Option.bind (sc_topology stage) t_boundary of
        None \<Rightarrow> False
      | Some boundary \<Rightarrow>
          sc_replayKey stage = sc_replayKey start \<or>
          map_option t_stageId (sc_topology stage) = map_option t_stageId (sc_topology start) \<or>
          Some (ct_runId (b_child boundary)) =
            map_option (\<lambda>b. ct_runId (b_child b)) (Option.bind (sc_topology start) t_boundary))"

definition resolveBoundaryLifecycle ::
  "stage_checkpoint \<Rightarrow> stage_checkpoint list \<Rightarrow> bool \<Rightarrow> string + valid_lifecycle" where
  "resolveBoundaryLifecycle start stages requireTerminal =
     resolveBoundaryLifecycleFromRecords start (filter (boundary_related start) stages)
       (filter (\<lambda>stage. sc_replayKey stage = sc_replayKey start \<and> sc_output stage \<noteq> None) stages) requireTerminal"

definition boundaryTransitionError :: "stage_checkpoint \<Rightarrow> stage_checkpoint list \<Rightarrow> bool \<Rightarrow> string option" where
  "boundaryTransitionError start stages requireTerminal =
     (case resolveBoundaryLifecycle start stages requireTerminal of Inl e \<Rightarrow> Some e | Inr _ \<Rightarrow> None)"

section \<open>The depth-first search is exact\<close>

definition id_edges :: "(string, string list) jmap \<Rightarrow> (string \<times> string) set" where
  "id_edges m = {(c, p). p \<in> set (map_get_or m c [])}"

text \<open>No cycle is reachable from a safe id.\<close>

definition safe_id :: "(string, string list) jmap \<Rightarrow> string \<Rightarrow> bool" where
  "safe_id m x = (\<forall>y. (x, y) \<in> (id_edges m)\<^sup>* \<longrightarrow> (y, y) \<notin> (id_edges m)\<^sup>+)"

lemma safe_id_step: "(\<forall>p \<in> set (map_get_or m x []). safe_id m p) \<Longrightarrow> safe_id m x"
  unfolding safe_id_def
proof (intro allI impI notI)
  fix y
  assume safe: "\<forall>p \<in> set (map_get_or m x []). \<forall>y. (p, y) \<in> (id_edges m)\<^sup>* \<longrightarrow> (y, y) \<notin> (id_edges m)\<^sup>+"
    and xy: "(x, y) \<in> (id_edges m)\<^sup>*" and yy: "(y, y) \<in> (id_edges m)\<^sup>+"
  from xy yy have "(x, y) \<in> (id_edges m)\<^sup>+" by (auto dest: rtrancl_trancl_trancl)
  then obtain p where "(x, p) \<in> id_edges m" and "(p, y) \<in> (id_edges m)\<^sup>*" by (blast dest: tranclD)
  then show False using safe yy by (auto simp: id_edges_def)
qed

lemma cyclic_some_False:
  "cyclic_some m visiting visited ids = (False, visited') \<Longrightarrow> \<forall>v \<in> set visited. safe_id m v \<Longrightarrow>
   set visited \<union> set ids \<subseteq> set visited' \<and> (\<forall>v \<in> set visited'. safe_id m v)"
proof (induction m visiting visited ids arbitrary: visited' rule: cyclic_some.induct)
  case (1 parents visiting visited)
  then show ?case by simp
next
  case (2 parents visiting visited stageId ids)
  show ?case
  proof (cases "set_has visited stageId")
    case True
    then show ?thesis
      using "2.IH"(1) "2.prems" by (auto simp: set_has_def split: if_splits)
  next
    case False
    have nv: "\<not> set_has visiting stageId" using "2.prems"(1) by (auto split: if_splits)
    obtain w where w: "cyclic_some parents (set_add visiting stageId) visited (map_get_or parents stageId []) = (False, w)"
      and rest: "cyclic_some parents visiting (set_add w stageId) ids = (False, visited')"
      using "2.prems"(1) False nv by (auto split: prod.splits bool.splits)
    have inner: "set visited \<union> set (map_get_or parents stageId []) \<subseteq> set w \<and> (\<forall>v \<in> set w. safe_id parents v)"
      using "2.IH"(2) [OF nv False w "2.prems"(2)] .
    then have "safe_id parents stageId" by (intro safe_id_step) auto
    then have "\<forall>v \<in> set (set_add w stageId). safe_id parents v" using inner by auto
    from "2.IH"(3) [OF nv False w [symmetric] refl rest this] inner show ?thesis by auto
  qed
qed

lemma cyclic_some_True:
  "cyclic_some m visiting visited ids = (True, visited') \<Longrightarrow>
   \<forall>v \<in> set visiting. \<forall>i \<in> set ids. (v, i) \<in> (id_edges m)\<^sup>+ \<Longrightarrow> \<exists>x. (x, x) \<in> (id_edges m)\<^sup>+"
proof (induction m visiting visited ids arbitrary: visited' rule: cyclic_some.induct)
  case (1 parents visiting visited)
  then show ?case by simp
next
  case (2 parents visiting visited stageId ids)
  show ?case
  proof (cases "set_has visiting stageId")
    case True
    then show ?thesis using "2.prems"(2) by (auto simp: set_has_def)
  next
    case nv: False
    show ?thesis
    proof (cases "set_has visited stageId")
      case True
      then show ?thesis using "2.IH"(1) [OF nv True] "2.prems" nv by auto
    next
      case False
      obtain c w where w: "cyclic_some parents (set_add visiting stageId) visited (map_get_or parents stageId []) = (c, w)"
        by fastforce
      have edges: "\<forall>v \<in> set (set_add visiting stageId). \<forall>i \<in> set (map_get_or parents stageId []). (v, i) \<in> (id_edges parents)\<^sup>+"
      proof (intro ballI)
        fix v i
        assume v: "v \<in> set (set_add visiting stageId)" and i: "i \<in> set (map_get_or parents stageId [])"
        have "(stageId, i) \<in> id_edges parents" using i by (simp add: id_edges_def)
        then show "(v, i) \<in> (id_edges parents)\<^sup>+"
          using v "2.prems"(2) by (auto intro: trancl.trancl_into_trancl)
      qed
      show ?thesis
      proof (cases c)
        case True
        then show ?thesis using "2.IH"(2) [OF nv False _ edges, of w] w by simp
      next
        case c: False
        then have "cyclic_some parents visiting (set_add w stageId) ids = (True, visited')"
          using "2.prems"(1) nv False w by simp
        then show ?thesis
          using "2.IH"(3) [OF nv False w [symmetric]] "2.prems"(2) c by auto
      qed
    qed
  qed
qed

lemma id_edges_key: "(c, p) \<in> id_edges m \<Longrightarrow> c \<in> fst ` set m"
  by (cases "map_get m c") (auto simp: id_edges_def map_get_or_def map_get_None_iff intro: rev_image_eqI dest: map_get_Some_in_set)

lemma topology_parents_keys: "fst ` set (topology_parents ts) = t_stageId ` set ts"
  by (induction ts rule: rev_induct) (auto simp: topology_parents_def)

lemma hasCycle_iff: "hasCycle ts \<longleftrightarrow> \<not> acyclic (id_edges (topology_parents ts))"
proof -
  let ?m = "topology_parents ts"
  obtain c w where r: "cyclic_some ?m [] [] (map t_stageId ts) = (c, w)" by fastforce
  show ?thesis
  proof (cases c)
    case True
    then have "\<exists>x. (x, x) \<in> (id_edges ?m)\<^sup>+" using cyclic_some_True [of ?m "[]" "[]" _ w] r by simp
    then show ?thesis using r True by (auto simp: hasCycle_def acyclic_def)
  next
    case False
    then have safe: "\<forall>v \<in> t_stageId ` set ts. safe_id ?m v"
      using cyclic_some_False [of ?m "[]" "[]" "map t_stageId ts" w] r by auto
    have "acyclic (id_edges ?m)"
    proof (rule acyclicI, intro allI notI)
      fix x
      assume x: "(x, x) \<in> (id_edges ?m)\<^sup>+"
      then have "x \<in> t_stageId ` set ts"
        by (metis tranclD id_edges_key topology_parents_keys)
      then show False using safe x by (auto simp: safe_id_def)
    qed
    then show ?thesis using r False by (simp add: hasCycle_def)
  qed
qed

section \<open>What validation accepts\<close>

lemma uniqueIdentities_Inr:
  "uniqueIdentities ids stageIds orders ts = Inr ids' \<Longrightarrow> set stageIds \<subseteq> set ids \<Longrightarrow>
   set ids' = set ids \<union> t_stageId ` set ts \<and> distinct (map t_stageId ts) \<and> t_stageId ` set ts \<inter> set ids = {} \<and>
   distinct (List.map_filter t_sourceOrder ts) \<and> set (List.map_filter t_sourceOrder ts) \<inter> set orders = {}"
proof (induction ids stageIds orders ts arbitrary: ids' rule: uniqueIdentities.induct)
  case (1 ids stageIds orders)
  then show ?case by (simp add: List.map_filter_def)
next
  case (2 ids stageIds orders t ts)
  have fresh: "t_stageId t \<notin> set ids" "t_stageId t \<notin> set stageIds"
    using "2.prems"(1) by (auto simp: set_has_def split: if_splits)
  have sub: "set (set_add stageIds (t_stageId t)) \<subseteq> set (set_add ids (t_stageId t))"
    using "2.prems"(2) by auto
  show ?case
  proof (cases "t_sourceOrder t")
    case None
    then show ?thesis
      using "2.IH"(1) [OF _ refl refl None _ sub] "2.prems" fresh
      by (auto simp: set_has_def List.map_filter_def)
  next
    case (Some order)
    then have o: "order \<notin> set orders" using "2.prems" fresh by (auto simp: set_has_def split: if_splits)
    then show ?thesis
      using "2.IH"(2) [OF _ refl refl Some _ _ sub] "2.prems" fresh Some
      by (auto simp: set_has_def List.map_filter_def)
  qed
qed

text \<open>A graph of stages in which every parent is a stage of the graph or an allowed node.\<close>

definition valid_child_graph :: "string jset \<Rightarrow> stage_topology list \<Rightarrow> bool" where
  "valid_child_graph allowed ts =
     (distinct (map t_stageId ts) \<and> t_stageId ` set ts \<inter> set allowed = {} \<and>
      distinct (List.map_filter t_sourceOrder ts) \<and>
      (\<forall>t \<in> set ts. set (t_parentIds t) \<subseteq> t_stageId ` set ts \<union> set allowed) \<and>
      acyclic {(t_stageId t, p) |t p. t \<in> set ts \<and> p \<in> set (t_parentIds t)})"

lemma topology_parents_get:
  "distinct (map t_stageId ts) \<Longrightarrow> t \<in> set ts \<Longrightarrow> map_get (topology_parents ts) (t_stageId t) = Some (t_parentIds t)"
  by (induction ts rule: rev_induct) (auto simp: topology_parents_def image_iff)

lemma topology_edges:
  assumes "distinct (map t_stageId ts)"
  shows "id_edges (topology_parents ts) = {(t_stageId t, p) |t p. t \<in> set ts \<and> p \<in> set (t_parentIds t)}"
proof -
  have "(c, p) \<in> id_edges (topology_parents ts) \<longleftrightarrow> (\<exists>t \<in> set ts. c = t_stageId t \<and> p \<in> set (t_parentIds t))" for c p
  proof (cases "c \<in> t_stageId ` set ts")
    case True
    then obtain t where t: "t \<in> set ts" "c = t_stageId t" by auto
    have "(c, p) \<in> id_edges (topology_parents ts) \<longleftrightarrow> p \<in> set (t_parentIds t)"
      using t by (simp add: id_edges_def map_get_or_def topology_parents_get [OF assms])
    moreover have "\<forall>t' \<in> set ts. t_stageId t' = t_stageId t \<longrightarrow> t' = t"
      using assms t(1) unfolding distinct_map inj_on_def by blast
    ultimately show ?thesis using t by blast
  next
    case False
    then have "map_get (topology_parents ts) c = None"
      by (simp add: map_get_None_iff topology_parents_keys)
    with False show ?thesis by (auto simp: id_edges_def map_get_or_def)
  qed
  then show ?thesis by auto
qed

lemma mergedTopologyError_None:
  "mergedTopologyError allowed ts = None \<longleftrightarrow> (\<exists>ids. uniqueIdentities allowed [] [] ts = Inr ids) \<and> valid_child_graph allowed ts"
proof (cases "uniqueIdentities allowed [] [] ts")
  case (Inl e)
  then show ?thesis by (simp add: mergedTopologyError_def)
next
  case (Inr ids)
  note u = uniqueIdentities_Inr [OF Inr]
  then have d: "distinct (map t_stageId ts)" by simp
  have "mergedTopologyError allowed ts = None \<longleftrightarrow>
      (\<forall>t \<in> set ts. set (t_parentIds t) \<subseteq> set ids) \<and> \<not> hasCycle ts"
    using Inr by (auto simp: mergedTopologyError_def list_ex_iff set_has_def)
  then show ?thesis
    using Inr u unfolding valid_child_graph_def hasCycle_iff topology_edges [OF d] by (simp add: Un_commute)
qed

lemma mergeGroups_Inr:
  "mergeGroups run superseded groups = Inr ts \<Longrightarrow>
   \<forall>t \<in> set ts. t_stageId t \<noteq> [] \<and> t_sourceOrder t \<noteq> None \<and> t_version t = DURABLE_STAGE_TOPOLOGY_VERSION"
proof (induction run superseded groups arbitrary: ts rule: mergeGroups.induct)
  case (1 run superseded)
  then show ?case by simp
next
  case (2 run superseded key grp groups)
  show ?case
  proof (cases "set_has superseded key")
    case True
    then show ?thesis using "2.IH"(1) "2.prems" by simp
  next
    case False
    then obtain t where t: "Option.bind (find (claims_run run) grp) sc_topology = Some t"
      using "2.prems" by (cases "Option.bind (find (claims_run run) grp) sc_topology") auto
    have ok: "\<not> (t_version t \<noteq> DURABLE_STAGE_TOPOLOGY_VERSION \<or> t_sourceOrder t = None)" "t_stageId t \<noteq> []"
      using "2.prems" False t by (auto simp only: mergeGroups.simps option.case if_False split: if_splits)
    then obtain rest where "mergeGroups run superseded groups = Inr rest" "ts = t # rest"
      using "2.prems" False t by (auto simp: try_bind_Inr)
    then show ?thesis using "2.IH"(2) [OF False t ok] ok by simp
  qed
qed

section \<open>Superseded prompts are unanswered and replaced\<close>

lemma superseded_at_sub:
  "k \<in> set (superseded_at cs) \<Longrightarrow> \<exists>c \<in> set cs. pc_key c = k \<and> pc_unanswered c \<and> pc_prompt c"
  by (auto simp: superseded_at_def Let_def list_all_iff split: if_splits)

lemma superseded_at_prompts: "set (superseded_at cs) \<noteq> {} \<Longrightarrow> \<forall>c \<in> set cs. pc_prompt c"
  by (auto simp: superseded_at_def list_all_iff split: if_splits)

lemma superseded_at_keeps:
  assumes "cs \<noteq> []" and "distinct (map pc_key cs)"
  shows "\<exists>c \<in> set cs. pc_key c \<notin> set (superseded_at cs)"
proof (cases "filter (\<lambda>c. \<not> pc_unanswered c) cs = []")
  case True
  have inj: "pc_key c = pc_key c' \<Longrightarrow> c \<in> set cs \<Longrightarrow> c' \<in> set cs \<Longrightarrow> c = c'" for c c'
    using assms(2) by (auto simp: distinct_map inj_on_def)
  have "pc_key (last cs) \<notin> pc_key ` (set cs - {last cs})"
    using inj [of "last cs"] assms(1) by auto
  moreover have "set (superseded_at cs) \<subseteq> pc_key ` (set cs - {last cs})"
    using True by (auto simp: superseded_at_def Let_def)
  ultimately have "pc_key (last cs) \<notin> set (superseded_at cs)" by blast
  then show ?thesis using assms(1) by (intro bexI [of _ "last cs"]) auto
next
  case False
  then obtain c where c: "c \<in> set cs" "\<not> pc_unanswered c" by (auto simp: filter_empty_conv)
  have "pc_key c \<notin> set (superseded_at cs)"
  proof
    assume "pc_key c \<in> set (superseded_at cs)"
    then obtain c' where "c' \<in> set cs" "pc_key c' = pc_key c" "pc_unanswered c'"
      by (auto dest: superseded_at_sub)
    then show False using c assms(2) by (auto simp: distinct_map inj_on_def)
  qed
  with c show ?thesis by auto
qed

definition group_candidate :: "string list \<times> stage_checkpoint list \<Rightarrow> prompt_candidate" where
  "group_candidate e = \<lparr>pc_key = fst e, pc_prompt = isPromptGroup (snd e), pc_unanswered = isUnansweredPromptGroup (snd e)\<rparr>"

lemma positions_candidates:
  "map_get_or (foldl add_candidate [] gs) p [] = map group_candidate (filter (\<lambda>e. group_position (snd e) = Some p) gs)"
  by (induction gs rule: rev_induct)
    (auto simp: add_candidate_def group_candidate_def map_get_or_def split: option.splits)

lemma wf_positions: "wf_map (foldl add_candidate [] gs)"
  by (induction gs rule: rev_induct) (auto simp: add_candidate_def split: option.splits)

lemma wf_groups: "wf_map (groupByDurableStageKey stages)"
  by (induction stages rule: rev_induct) (auto simp: groupByDurableStageKey_def Let_def)

lemma set_foldl_set_add_all: "set (foldl (\<lambda>acc x. set_add_all acc (f x)) acc xs) = set acc \<union> (\<Union>x \<in> set xs. set (f x))"
  by (induction xs arbitrary: acc) auto

lemma values_via_get:
  assumes "wf_map m" and "f [] = []"
  shows "(\<Union>v \<in> snd ` set m. set (f v)) = (\<Union>p. set (f (map_get_or m p [])))"
proof (intro equalityI subsetI)
  fix x
  assume "x \<in> (\<Union>v \<in> snd ` set m. set (f v))"
  then obtain p v where "(p, v) \<in> set m" "x \<in> set (f v)" by auto
  then have "x \<in> set (f (map_get_or m p []))"
    using map_get_eq_in_set [OF assms(1), of p v] by (simp add: map_get_or_def)
  then show "x \<in> (\<Union>p. set (f (map_get_or m p [])))" by blast
next
  fix x
  assume "x \<in> (\<Union>p. set (f (map_get_or m p [])))"
  then obtain p where x: "x \<in> set (f (map_get_or m p []))" by blast
  then obtain v where v: "map_get m p = Some v" using assms(2) by (cases "map_get m p") (auto simp: map_get_or_def)
  then have "(p, v) \<in> set m" by (rule map_get_Some_in_set)
  then show "x \<in> (\<Union>v \<in> snd ` set m. set (f v))" using x v by (force simp: map_get_or_def)
qed

lemma superseded_position:
  "k \<in> set (supersededPromptGroupKeys stages) \<longleftrightarrow>
   (\<exists>p. k \<in> set (superseded_at (map_get_or (foldl add_candidate [] (groupByDurableStageKey stages)) p [])))"
proof -
  let ?m = "foldl add_candidate [] (groupByDurableStageKey stages)"
  have "set (supersededPromptGroupKeys stages) = (\<Union>cs \<in> snd ` set ?m. set (superseded_at cs))"
    by (simp add: supersededPromptGroupKeys_def set_foldl_set_add_all map_values_def)
  moreover have "(\<Union>cs \<in> snd ` set ?m. set (superseded_at cs)) = (\<Union>p. set (superseded_at (map_get_or ?m p [])))"
    by (rule values_via_get [OF wf_positions]) (simp add: superseded_at_def)
  ultimately have "set (supersededPromptGroupKeys stages) = (\<Union>p. set (superseded_at (map_get_or ?m p [])))"
    by (simp only:)
  then show ?thesis by simp
qed

lemma superseded_replaced:
  assumes "k \<in> set (supersededPromptGroupKeys stages)"
  obtains grp k' grp' where "map_get (groupByDurableStageKey stages) k = Some grp" "isUnansweredPromptGroup grp"
    and "map_get (groupByDurableStageKey stages) k' = Some grp'" "isPromptGroup grp'"
    and "group_position grp' = group_position grp" "k' \<notin> set (supersededPromptGroupKeys stages)"
proof -
  let ?gs = "groupByDurableStageKey stages" and ?m = "foldl add_candidate [] (groupByDurableStageKey stages)"
  obtain p where k: "k \<in> set (superseded_at (map_get_or ?m p []))" using assms superseded_position by blast
  let ?at = "\<lambda>p. filter (\<lambda>e. group_position (snd e) = Some p) ?gs"
  have cs: "map_get_or ?m p [] = map group_candidate (?at p)" for p by (rule positions_candidates)
  have keys: "distinct (map pc_key (map group_candidate (?at p)))" for p
    using wf_groups [of stages] by (simp add: wf_map_def group_candidate_def comp_def distinct_map_filter)
  obtain e where e: "e \<in> set (?at p)" "fst e = k" "isUnansweredPromptGroup (snd e)"
    using superseded_at_sub [OF k] by (auto simp: cs group_candidate_def)
  then have "map_get_or ?m p [] \<noteq> []" by (auto simp: cs filter_empty_conv)
  then obtain e' where e': "e' \<in> set (?at p)" and kept: "fst e' \<notin> set (superseded_at (map_get_or ?m p []))"
    using superseded_at_keeps [of "map_get_or ?m p []"] keys [of p] by (auto simp: cs group_candidate_def)
  have prompt: "isPromptGroup (snd e')"
  proof -
    have "group_candidate e' \<in> set (map_get_or ?m p [])" using e' unfolding cs by simp
    moreover have "set (superseded_at (map_get_or ?m p [])) \<noteq> {}" using k by (metis empty_iff)
    ultimately have "pc_prompt (group_candidate e')" using superseded_at_prompts by metis
    then show ?thesis by (simp add: group_candidate_def)
  qed
  have "fst e' \<notin> set (supersededPromptGroupKeys stages)"
  proof
    assume "fst e' \<in> set (supersededPromptGroupKeys stages)"
    then obtain q where q: "fst e' \<in> set (superseded_at (map_get_or ?m q []))" using superseded_position by blast
    then obtain f where f: "f \<in> set (?at q)" "fst f = fst e'"
      using superseded_at_sub [OF q] by (auto simp: cs group_candidate_def)
    then have "f = e'"
      using e' wf_groups [of stages] unfolding wf_map_def distinct_map inj_on_def by simp
    then show False using f e' q kept by auto
  qed
  then show thesis
    using e e' prompt that [of "snd e" "fst e'" "snd e'"] map_get_eq_in_set [OF wf_groups [of stages]] by auto
qed

section \<open>Boundary lifecycles\<close>

lemma latestTerminal_max:
  "latestTerminal t ts \<in> set (t # ts) \<and> (\<forall>u \<in> set (t # ts). sc_completedAt u \<le> sc_completedAt (latestTerminal t ts))"
proof (induction ts arbitrary: t)
  case Nil
  then show ?case by simp
next
  case (Cons u us)
  show ?case using Cons [of t] Cons [of u] by (cases "sc_completedAt t < sc_completedAt u") auto
qed

lemma boundaryTerminals_Inr:
  "boundaryTerminals start st run sb statuses out ts = Inr (statuses', out') \<Longrightarrow>
   \<forall>t \<in> set ts. has_boundary_event BoundaryTerminal t \<Longrightarrow>
   \<forall>t \<in> set ts. sc_replayKey t = sc_replayKey start \<and> sc_name t = sc_name start \<and>
     map_option t_stageId (sc_topology t) = Some (t_stageId st) \<and>
     (sc_output t \<noteq> None \<longrightarrow> boundary_status_is Completed t)"
proof (induction ts arbitrary: statuses out)
  case Nil
  then show ?case by simp
next
  case (Cons t ts)
  obtain tt tb where t: "sc_topology t = Some tt" "t_boundary tt = Some tb"
    using Cons.prems(2) by (auto simp: has_boundary_event_def bind_eq_Some_conv)
  have same: "sameBoundaryIdentity t tt tb start st run sb"
    using Cons.prems(1) t by (auto split: if_splits)
  have rest: "\<exists>statuses out. boundaryTerminals start st run sb statuses out ts = Inr (statuses', out')"
    using Cons.prems(1) t same by (auto split: if_splits option.splits)
  have "sc_output t \<noteq> None \<longrightarrow> b_status tb = Completed"
    using Cons.prems(1) t same by (auto split: if_splits)
  then show ?case
    using rest Cons.IH Cons.prems(2) t same by (auto simp: sameBoundaryIdentity_def boundary_status_is_def)
qed

lemma resolve_records_start:
  "resolveBoundaryLifecycleFromRecords start related outs req = Inr vl \<Longrightarrow> validBoundaryStart start"
  by (auto simp: resolveBoundaryLifecycleFromRecords_def split: if_splits)

lemma resolve_records_Inr:
  assumes ok: "resolveBoundaryLifecycleFromRecords start related outs req = Inr vl"
  defines "terminals \<equiv> filter (has_boundary_event BoundaryTerminal) related"
  shows "length terminals \<le> 2 \<and> (req \<longrightarrow> terminals \<noteq> []) \<and>
    (\<forall>t \<in> set terminals. sc_replayKey t = sc_replayKey start \<and> sc_name t = sc_name start \<and>
       map_option t_stageId (sc_topology t) = map_option t_stageId (sc_topology start) \<and>
       (sc_output t \<noteq> None \<longrightarrow> boundary_status_is Completed t)) \<and>
    (case vl_latestTerminal vl of
       None \<Rightarrow> terminals = []
     | Some t \<Rightarrow> t \<in> set terminals \<and> (\<forall>u \<in> set terminals. sc_completedAt u \<le> sc_completedAt t))"
proof -
  note start = resolve_records_start [OF ok]
  then obtain st where st: "sc_topology start = Some st" by (auto simp: validBoundaryStart_def split: option.splits)
  show ?thesis
  proof (cases terminals)
    case Nil
    then show ?thesis
      using ok start by (auto simp: resolveBoundaryLifecycleFromRecords_def terminals_def Let_def split: if_splits)
  next
    case (Cons t ts)
    obtain statuses out where b: "boundaryTerminals start st (the (t_run st)) (the (t_boundary st)) [] None terminals =
        Inr (statuses, out)" and legal: "\<not> illegalTerminals statuses terminals"
      and latest: "vl_latestTerminal vl = Some (latestTerminal t ts)"
      using ok start Cons st
      by (auto simp: resolveBoundaryLifecycleFromRecords_def Let_def terminals_def try_bind_Inr split: if_splits)
    have "\<forall>t \<in> set terminals. has_boundary_event BoundaryTerminal t" by (simp add: terminals_def)
    with boundaryTerminals_Inr [OF b] legal latest st show ?thesis
      using latestTerminal_max [of t ts] Cons by (auto simp: illegalTerminals_def)
  qed
qed

section \<open>Properties\<close>

definition sample_topology :: "string \<Rightarrow> string list \<Rightarrow> int \<Rightarrow> stage_topology" where
  "sample_topology i ps n = \<lparr>t_version = 1, t_stageId = i, t_parentIds = ps, t_intercomGroup = None,
     t_sourceOrder = Some n, t_occurrenceKey = None, t_status = Some Completed, t_order = None,
     t_run = Some \<lparr>rt_runId = ''r'', rt_runName = ''R'', rt_parentRunId = None, rt_parentStageId = None,
       rt_rootRunId = None\<rparr>, t_boundary = None\<rparr>"

definition sample_stage :: "string \<Rightarrow> string \<Rightarrow> stage_topology \<Rightarrow> stage_checkpoint" where
  "sample_stage ckpt key t = \<lparr>sc_workflowId = ''w'', sc_checkpointId = ckpt, sc_name = ''n'', sc_replayKey = key,
     sc_topology = Some t, sc_output = None, sc_sessionId = None, sc_sessionFile = None, sc_completedAt = 0\<rparr>"

text \<open>
  The cycle check of saved stages is exact: for every list of recorded topologies it
  reports a cycle exactly when the parent relation they record (the last record of an id
  winning, as in the map the code builds) has one. The depth-first search always ends.
\<close>

theorem hasCycle_exact: "hasCycle ts \<longleftrightarrow> \<not> acyclic (id_edges (topology_parents ts))"
  by (rule hasCycle_iff)

text \<open>
  C32. A child accepted for replay is a DAG: when direct-child validation reports no error,
  the merged topologies of the child's groups have non-empty, unique stage ids apart from the
  allowed nodes, unique source orders, only known parents, and an acyclic parent relation.
\<close>

theorem accepted_child_is_dag:
  assumes "directChildTopologyError stages scope run allowed = None"
  obtains direct ts where "direct = filter (\<lambda>stage. durableStageGroupKey stage \<in>
      durableStageGroupKey ` set (filter (claims_run run) stages)) stages"
    and "mergeGroups run (supersededPromptGroupKeys direct) (groupByDurableStageKey direct) = Inr ts"
    and "valid_child_graph allowed ts" and "\<forall>t \<in> set ts. t_stageId t \<noteq> [] \<and> t_sourceOrder t \<noteq> None"
proof -
  let ?direct = "filter (\<lambda>stage. durableStageGroupKey stage \<in>
      durableStageGroupKey ` set (filter (claims_run run) stages)) stages"
  obtain ts where m: "mergeGroups run (supersededPromptGroupKeys ?direct) (groupByDurableStageKey ?direct) = Inr ts"
    and "mergedTopologyError allowed ts = None"
    using assms by (auto simp: directChildTopologyError_def directChildTopologyErrorFromRecords_def Let_def
        split: if_splits option.splits sum.splits)
  then show thesis using that [OF refl m] mergedTopologyError_None mergeGroups_Inr [OF m] by blast
qed

theorem accepted_child_is_dag_witness:
  "\<exists>ts. valid_child_graph [] ts \<and>
     directChildTopologyError [sample_stage ''c1'' ''s:1'' (sample_topology ''a'' [] 0),
       sample_stage ''c2'' ''s:2'' (sample_topology ''b'' [''a''] 1)] ''s''
       \<lparr>rt_runId = ''r'', rt_runName = ''R'', rt_parentRunId = None, rt_parentStageId = None, rt_rootRunId = None\<rparr> [] = None"
proof -
  let ?stages = "[sample_stage ''c1'' ''s:1'' (sample_topology ''a'' [] 0),
       sample_stage ''c2'' ''s:2'' (sample_topology ''b'' [''a''] 1)]"
  let ?run = "\<lparr>rt_runId = ''r'', rt_runName = ''R'', rt_parentRunId = None, rt_parentStageId = None, rt_rootRunId = None\<rparr>"
  have ok: "directChildTopologyError ?stages ''s'' ?run [] = None" by code_simp
  from accepted_child_is_dag [OF ok] ok show ?thesis by metis
qed

text \<open>
  Superseding only drops replaced questions: every superseded group consists of prompt
  records that were never answered, and another prompt group at the same source position of
  the same run survives.
\<close>

theorem superseded_prompt_is_replaced:
  assumes "k \<in> set (supersededPromptGroupKeys stages)"
  shows "\<exists>grp k' grp'. map_get (groupByDurableStageKey stages) k = Some grp \<and> isUnansweredPromptGroup grp \<and>
    map_get (groupByDurableStageKey stages) k' = Some grp' \<and> isPromptGroup grp' \<and>
    group_position grp' = group_position grp \<and> k' \<notin> set (supersededPromptGroupKeys stages)"
  using superseded_replaced [OF assms] by metis

definition sample_prompts :: "stage_checkpoint list" where
  "sample_prompts =
     [sample_stage ''c1'' ''k1'' ((sample_topology ''a'' [] 0)\<lparr>t_occurrenceKey := Some ''o1'', t_status := Some Running\<rparr>),
      sample_stage ''c2'' ''k2'' ((sample_topology ''b'' [] 0)\<lparr>t_occurrenceKey := Some ''o2''\<rparr>)]"

theorem superseded_prompt_is_replaced_witness:
  "[''prompt-occurrence'', ''k1'', ''o1''] \<in> set (supersededPromptGroupKeys sample_prompts) \<and>
   (\<exists>k'. k' \<notin> set (supersededPromptGroupKeys sample_prompts))"
proof -
  have k: "[''prompt-occurrence'', ''k1'', ''o1''] \<in> set (supersededPromptGroupKeys sample_prompts)" by code_simp
  from superseded_prompt_is_replaced [OF k] k show ?thesis by blast
qed

text \<open>
  An accepted boundary lifecycle is legal: it has at most two terminal records, all of
  them with the start's replay key, name and stage id; only a completed terminal carries an
  output; a required terminal exists; and the reported latest terminal is one of them with the
  greatest completion time.
\<close>

theorem accepted_boundary_lifecycle:
  assumes ok: "resolveBoundaryLifecycle start stages requireTerminal = Inr vl"
  defines "terminals \<equiv> filter (has_boundary_event BoundaryTerminal) (filter (boundary_related start) stages)"
  shows "length terminals \<le> 2 \<and> (requireTerminal \<longrightarrow> terminals \<noteq> []) \<and>
    (\<forall>t \<in> set terminals. sc_replayKey t = sc_replayKey start \<and> sc_name t = sc_name start \<and>
       map_option t_stageId (sc_topology t) = map_option t_stageId (sc_topology start) \<and>
       (sc_output t \<noteq> None \<longrightarrow> boundary_status_is Completed t)) \<and>
    (case vl_latestTerminal vl of
       None \<Rightarrow> terminals = []
     | Some t \<Rightarrow> t \<in> set terminals \<and> (\<forall>u \<in> set terminals. sc_completedAt u \<le> sc_completedAt t))"
  using resolve_records_Inr [OF ok [unfolded resolveBoundaryLifecycle_def]] unfolding terminals_def .

definition sample_boundary :: "boundary_event \<Rightarrow> stage_status \<Rightarrow> stage_topology" where
  "sample_boundary ev status = (sample_topology ''a'' [] 0)\<lparr>t_status := Some status, t_boundary := Some
     \<lparr>b_version = 1, b_replayScope = ''k'', b_alias = ''al'', b_workflow = ''wf'', b_invocationFingerprint = ''f'',
      b_child = \<lparr>ct_runId = ''c'', ct_runName = ''C'', ct_parentRunId = ''r'', ct_parentStageId = ''a'',
        ct_rootRunId = ''r''\<rparr>, b_workspace = None, b_event = ev, b_status = status\<rparr>\<rparr>"

theorem accepted_boundary_lifecycle_witness:
  "\<exists>vl. resolveBoundaryLifecycle (sample_stage ''c1'' ''k'' (sample_boundary BoundaryStart Running))
     [sample_stage ''c1'' ''k'' (sample_boundary BoundaryStart Running),
      sample_stage ''c2'' ''k'' (sample_boundary BoundaryTerminal Failed)] True = Inr vl \<and> vl_latestTerminal vl \<noteq> None"
proof -
  let ?s = "sample_stage ''c1'' ''k'' (sample_boundary BoundaryStart Running)"
  let ?stages = "[?s, sample_stage ''c2'' ''k'' (sample_boundary BoundaryTerminal Failed)]"
  have "\<not> isl (resolveBoundaryLifecycle ?s ?stages True)" by code_simp
  then obtain vl where r: "resolveBoundaryLifecycle ?s ?stages True = Inr vl" by (metis sum.exhaust_disc sum.collapse(2))
  from accepted_boundary_lifecycle [OF r] r show ?thesis by (auto split: option.splits)
qed

end
