(* ===== verification/Concurrency_Limiter.thy ===== *)
theory Concurrency_Limiter
  imports Prelude
begin

text \<open>
  The semaphore that bounds how many stages of a run execute at once
  (\<^verbatim>\<open>packages/workflows/src/runs/shared/concurrency.ts\<close>). A call of \<open>acquire\<close> is named
  by its number; its promise is its outcome, its \<open>grant\<close> closure is its entry in the queue, and
  its abort handler is a listener registered on a signal. One signal may be shared by several
  calls. The step relation is the event loop: tasks call \<open>run\<close>, their functions settle, signals
  abort, in any order.
\<close>

section \<open>The limiter\<close>

datatype promise_outcome = Pending | Resolved | Rejected

record limiter =
  lim_limit :: int
  lim_running :: int
  lim_queue :: "nat list"
  lim_next :: nat
  lim_promises :: "(nat, promise_outcome) jmap"
  lim_listeners :: "(nat \<times> nat) list"
  lim_aborted :: "nat jset"

datatype limiter_error = RangeError

definition new_limiter :: "number \<Rightarrow> limiter_error + limiter" where
  "new_limiter l = (case l of
      Num r \<Rightarrow>
        if r \<noteq> of_int \<lfloor>r\<rfloor> \<or> r < 1 then Inl RangeError
        else Inr \<lparr>lim_limit = \<lfloor>r\<rfloor>, lim_running = 0, lim_queue = [], lim_next = 0,
                  lim_promises = [], lim_listeners = [], lim_aborted = []\<rparr>
    | _ \<Rightarrow> Inl RangeError)"

definition createRunLimiter :: "number option \<Rightarrow> limiter_error + limiter" where
  "createRunLimiter defaultConcurrency = new_limiter (or_else defaultConcurrency (Num 1000))"

definition running :: "limiter \<Rightarrow> int" where
  "running l = lim_running l"

definition queued :: "limiter \<Rightarrow> nat" where
  "queued l = length (lim_queue l)"

definition settle_promise :: "nat \<Rightarrow> promise_outcome \<Rightarrow> limiter \<Rightarrow> limiter" where
  "settle_promise c r l = l\<lparr>lim_promises := map_set (lim_promises l) c r\<rparr>"

text \<open>\<open>acquire\<close> returns the number of its promise.\<close>

definition acquire :: "nat option \<Rightarrow> limiter \<Rightarrow> nat \<times> limiter" where
  "acquire signal l =
    (let c = lim_next l; l = l\<lparr>lim_next := Suc c\<rparr> in
     if (case signal of None \<Rightarrow> False | Some s \<Rightarrow> set_has (lim_aborted l) s)
     then (c, settle_promise c Rejected l)
     else if lim_running l < lim_limit l
     then (c, settle_promise c Resolved (l\<lparr>lim_running := lim_running l + 1\<rparr>))
     else (c, settle_promise c Pending
           (l\<lparr>lim_queue := lim_queue l @ [c],
              lim_listeners := lim_listeners l @ (case signal of None \<Rightarrow> [] | Some s \<Rightarrow> [(s, c)])\<rparr>)))"

text \<open>\<open>grant\<close>: it removes its listener and resolves its promise.\<close>

definition grant_slot :: "nat \<Rightarrow> limiter \<Rightarrow> limiter" where
  "grant_slot c l = settle_promise c Resolved
     (l\<lparr>lim_listeners := filter (\<lambda>e. snd e \<noteq> c) (lim_listeners l)\<rparr>)"

text \<open>
  \<open>splice(indexOf(x), 1)\<close> as JavaScript has it: an index of \<open>-1\<close> removes the last element.
\<close>

definition splice_at :: "'a \<Rightarrow> 'a list \<Rightarrow> 'a list" where
  "splice_at x xs = (if x \<in> set xs then remove1 x xs else butlast xs)"

text \<open>\<open>onAbort\<close> of the call \<open>c\<close>; the listener was registered with \<open>once\<close>.\<close>

definition onAbort :: "limiter \<Rightarrow> nat \<Rightarrow> limiter" where
  "onAbort l c = settle_promise c Rejected
     (l\<lparr>lim_queue := splice_at c (lim_queue l),
        lim_listeners := filter (\<lambda>e. snd e \<noteq> c) (lim_listeners l)\<rparr>)"

text \<open>A signal aborts: its flag is set and its listeners run in the order of registration.\<close>

definition abort_signal :: "nat \<Rightarrow> limiter \<Rightarrow> limiter" where
  "abort_signal s l =
    (if set_has (lim_aborted l) s then l
     else foldl onAbort (l\<lparr>lim_aborted := set_add (lim_aborted l) s\<rparr>)
            (map snd (filter (\<lambda>e. fst e = s) (lim_listeners l))))"

definition release :: "limiter \<Rightarrow> limiter" where
  "release l = (case lim_queue l of
      next # rest \<Rightarrow> grant_slot next (l\<lparr>lim_queue := rest\<rparr>)
    | [] \<Rightarrow> l\<lparr>lim_running := lim_running l - 1\<rparr>)"

section \<open>Tasks under \<open>run\<close>\<close>

text \<open>
  \<open>run(fn, signal)\<close>: \<open>acquire\<close>, then \<open>fn\<close> once the promise resolves, then \<open>release\<close> however
  \<open>fn\<close> settles. The functions in flight are the calls that were resolved and whose \<open>fn\<close> has not
  settled; a rejected \<open>acquire\<close> never reaches \<open>release\<close>.
\<close>

record tasks =
  t_limiter :: limiter
  t_done :: "nat list"

definition resolved_calls :: "limiter \<Rightarrow> nat list" where
  "resolved_calls l = map fst (filter (\<lambda>e. snd e = Resolved) (lim_promises l))"

definition in_flight :: "tasks \<Rightarrow> nat list" where
  "in_flight t = filter (\<lambda>c. c \<notin> set (t_done t)) (resolved_calls (t_limiter t))"

datatype task_event =
    CallRun "nat option"
  | FnSettles nat
  | SignalAborts nat

definition task_step :: "tasks \<Rightarrow> task_event \<Rightarrow> tasks" where
  "task_step t e = (case e of
      CallRun signal \<Rightarrow> t\<lparr>t_limiter := snd (acquire signal (t_limiter t))\<rparr>
    | FnSettles c \<Rightarrow>
        if c \<in> set (in_flight t)
        then t\<lparr>t_limiter := release (t_limiter t), t_done := c # t_done t\<rparr> else t
    | SignalAborts s \<Rightarrow> t\<lparr>t_limiter := abort_signal s (t_limiter t)\<rparr>)"

definition tasks_of :: "limiter \<Rightarrow> tasks" where
  "tasks_of l = \<lparr>t_limiter = l, t_done = []\<rparr>"

definition promise_of :: "limiter \<Rightarrow> nat \<Rightarrow> promise_outcome option" where
  "promise_of l c = map_get (lim_promises l) c"

section \<open>Every operation keeps the accounting\<close>

definition queue_inv :: "limiter \<Rightarrow> bool" where
  "queue_inv l \<longleftrightarrow>
    wf_map (lim_promises l) \<and>
    sorted_wrt (<) (lim_queue l) \<and>
    (\<forall>c. promise_of l c = Some Pending \<longleftrightarrow> c \<in> set (lim_queue l)) \<and>
    (\<forall>c. promise_of l c \<noteq> None \<longrightarrow> c < lim_next l) \<and>
    (\<forall>g w. promise_of l g = Some Resolved \<longrightarrow> w \<in> set (lim_queue l) \<longrightarrow> g < w) \<and>
    snd ` set (lim_listeners l) \<subseteq> set (lim_queue l) \<and>
    distinct (map snd (lim_listeners l))"

definition slot_inv :: "tasks \<Rightarrow> bool" where
  "slot_inv t \<longleftrightarrow>
    (let l = t_limiter t in
     queue_inv l \<and>
     (\<forall>c \<in> set (t_done t). promise_of l c = Some Resolved) \<and>
     lim_running l = int (length (in_flight t)) \<and>
     lim_running l \<le> lim_limit l \<and>
     (lim_queue l \<noteq> [] \<longrightarrow> lim_running l = lim_limit l))"

lemma promise_of_settle [simp]:
  "promise_of (settle_promise c r l) c' = (if c' = c then Some r else promise_of l c')"
  by (simp add: promise_of_def settle_promise_def)

lemma settle_promise_fields [simp]:
  "lim_limit (settle_promise c r l) = lim_limit l"
  "lim_running (settle_promise c r l) = lim_running l"
  "lim_queue (settle_promise c r l) = lim_queue l"
  "lim_next (settle_promise c r l) = lim_next l"
  "lim_listeners (settle_promise c r l) = lim_listeners l"
  "lim_aborted (settle_promise c r l) = lim_aborted l"
  "lim_promises (settle_promise c r l) = map_set (lim_promises l) c r"
  by (simp_all add: settle_promise_def)

lemma promise_of_update [simp]:
  "promise_of (l\<lparr>lim_running := r\<rparr>) c = promise_of l c"
  "promise_of (l\<lparr>lim_queue := q\<rparr>) c = promise_of l c"
  "promise_of (l\<lparr>lim_next := n\<rparr>) c = promise_of l c"
  "promise_of (l\<lparr>lim_listeners := ls\<rparr>) c = promise_of l c"
  "promise_of (l\<lparr>lim_aborted := a\<rparr>) c = promise_of l c"
  by (simp_all add: promise_of_def)

lemma set_resolved_calls:
  assumes "wf_map (lim_promises l)"
  shows "set (resolved_calls l) = {c. promise_of l c = Some Resolved}"
proof (rule set_eqI)
  fix c
  have "c \<in> set (resolved_calls l) \<longleftrightarrow> (c, Resolved) \<in> set (lim_promises l)"
    by (force simp: resolved_calls_def)
  then show "c \<in> set (resolved_calls l) \<longleftrightarrow> c \<in> {c. promise_of l c = Some Resolved}"
    using assms by (simp add: promise_of_def map_get_eq_in_set)
qed

lemma distinct_resolved_calls:
  assumes "wf_map (lim_promises l)"
  shows "distinct (resolved_calls l)"
  using assms by (simp add: wf_map_def resolved_calls_def distinct_map_filter)

lemma length_in_flight:
  assumes "wf_map (lim_promises (t_limiter t))"
  shows "length (in_flight t) = card ({c. promise_of (t_limiter t) c = Some Resolved} - set (t_done t))"
proof -
  have "distinct (in_flight t)" using assms by (simp add: in_flight_def distinct_resolved_calls)
  moreover have "set (in_flight t) = {c. promise_of (t_limiter t) c = Some Resolved} - set (t_done t)"
    using assms by (auto simp: in_flight_def set_resolved_calls)
  ultimately show ?thesis by (metis distinct_card)
qed

lemma finite_resolved:
  assumes "wf_map (lim_promises l)"
  shows "finite {c. promise_of l c = Some Resolved}"
  using set_resolved_calls [OF assms] by (metis List.finite_set)

lemma fresh_call: "queue_inv l \<Longrightarrow> promise_of l (lim_next l) = None"
  by (auto simp: queue_inv_def)

lemma queue_inv_limit: "queue_inv l \<Longrightarrow> c \<in> set (lim_queue l) \<Longrightarrow> c < lim_next l"
  by (auto simp: queue_inv_def)

text \<open>One fact per operation: how it moves the queue and the resolved calls.\<close>

lemma queue_inv_acquire [inv_intros]:
  assumes q: "queue_inv l" and full: "lim_queue l \<noteq> [] \<longrightarrow> lim_running l = lim_limit l"
  shows "queue_inv (snd (acquire signal l))"
proof -
  have new: "promise_of l (lim_next l) = None" using q by (rule fresh_call)
  have empty: "lim_running l < lim_limit l \<Longrightarrow> lim_queue l = []" using full by auto
  have lt: "\<And>c. c \<in> set (lim_queue l) \<Longrightarrow> c < lim_next l" using q by (rule queue_inv_limit)
  have res: "\<And>g. promise_of l g = Some Resolved \<Longrightarrow> g < lim_next l" using q by (auto simp: queue_inv_def)
  have lis: "(s, lim_next l) \<notin> set (lim_listeners l)" for s using q lt by (force simp: queue_inv_def)
  show ?thesis
    using q new empty lt res lis
    by (auto simp: acquire_def queue_inv_def Let_def sorted_wrt_append less_Suc_eq split: option.splits)
qed

lemma acquire_fields:
  "lim_limit (snd (acquire signal l)) = lim_limit l"
  "fst (acquire signal l) = lim_next l"
  by (simp_all add: acquire_def Let_def)

lemma in_flight_acquire:
  assumes "queue_inv l"
  shows "{c. promise_of (snd (acquire signal l)) c = Some Resolved} =
    (if promise_of (snd (acquire signal l)) (lim_next l) = Some Resolved
     then insert (lim_next l) {c. promise_of l c = Some Resolved} else {c. promise_of l c = Some Resolved})"
  using fresh_call [OF assms] by (auto simp: acquire_def Let_def)

lemma queue_inv_release [inv_intros]:
  assumes "queue_inv l"
  shows "queue_inv (release l)"
proof (cases "lim_queue l")
  case Nil
  then show ?thesis using assms by (simp add: release_def queue_inv_def)
next
  case (Cons n rest)
  have "n \<notin> set rest" using assms Cons by (auto simp: queue_inv_def)
  moreover have "distinct (map snd (filter (\<lambda>e. snd e \<noteq> n) (lim_listeners l)))"
    using assms by (simp add: queue_inv_def distinct_map_filter)
  ultimately show ?thesis using assms Cons
    by (auto simp: release_def grant_slot_def queue_inv_def)
qed

lemma onAbort_effect:
  assumes "queue_inv l" and "c \<in> set (lim_queue l)"
  shows "queue_inv (onAbort l c)"
    and "lim_queue (onAbort l c) = remove1 c (lim_queue l)"
    and "\<And>x. promise_of (onAbort l c) x = Some Resolved \<longleftrightarrow> promise_of l x = Some Resolved"
    and "lim_running (onAbort l c) = lim_running l"
    and "lim_limit (onAbort l c) = lim_limit l"
proof -
  have d: "distinct (lim_queue l)" using assms by (auto simp: queue_inv_def strict_sorted_iff)
  have pend: "promise_of l c = Some Pending" using assms by (simp add: queue_inv_def)
  have s: "sorted_wrt (<) (remove1 c (lim_queue l))" using assms d
    by (simp add: queue_inv_def distinct_remove1_removeAll removeAll_filter_not_eq sorted_wrt_filter)
  show "lim_queue (onAbort l c) = remove1 c (lim_queue l)"
    using assms by (simp add: onAbort_def splice_at_def)
  show "promise_of (onAbort l c) x = Some Resolved \<longleftrightarrow> promise_of l x = Some Resolved" for x
    using pend by (simp add: onAbort_def)
  show "lim_running (onAbort l c) = lim_running l" "lim_limit (onAbort l c) = lim_limit l"
    by (simp_all add: onAbort_def)
  have "distinct (map snd (filter (\<lambda>e. snd e \<noteq> c) (lim_listeners l)))"
    using assms by (simp add: queue_inv_def distinct_map_filter)
  then show "queue_inv (onAbort l c)"
    using assms d s pend by (auto simp: onAbort_def splice_at_def queue_inv_def)
qed

lemma foldl_onAbort:
  assumes "queue_inv l" and "distinct cs" and "set cs \<subseteq> set (lim_queue l)"
  shows "queue_inv (foldl onAbort l cs)"
    and "\<And>x. promise_of (foldl onAbort l cs) x = Some Resolved \<longleftrightarrow> promise_of l x = Some Resolved"
    and "lim_running (foldl onAbort l cs) = lim_running l"
    and "lim_limit (foldl onAbort l cs) = lim_limit l"
    and "set (lim_queue (foldl onAbort l cs)) = set (lim_queue l) - set cs"
proof -
  have "queue_inv (foldl onAbort l cs) \<and>
    (\<forall>x. promise_of (foldl onAbort l cs) x = Some Resolved \<longleftrightarrow> promise_of l x = Some Resolved) \<and>
    lim_running (foldl onAbort l cs) = lim_running l \<and>
    lim_limit (foldl onAbort l cs) = lim_limit l \<and>
    set (lim_queue (foldl onAbort l cs)) = set (lim_queue l) - set cs"
    using assms
  proof (induction cs arbitrary: l)
    case Nil
    then show ?case by simp
  next
    case (Cons c cs)
    then have c: "c \<in> set (lim_queue l)" by simp
    note eff = onAbort_effect [OF Cons.prems(1) c]
    have d: "distinct (lim_queue l)" using Cons.prems(1) by (auto simp: queue_inv_def strict_sorted_iff)
    have q: "set (lim_queue (onAbort l c)) = set (lim_queue l) - {c}" using d by (simp add: eff(2))
    have "set cs \<subseteq> set (lim_queue (onAbort l c))" using Cons.prems by (auto simp: q)
    then have "queue_inv (foldl onAbort (onAbort l c) cs) \<and>
      (\<forall>x. promise_of (foldl onAbort (onAbort l c) cs) x = Some Resolved \<longleftrightarrow> promise_of (onAbort l c) x = Some Resolved) \<and>
      lim_running (foldl onAbort (onAbort l c) cs) = lim_running (onAbort l c) \<and>
      lim_limit (foldl onAbort (onAbort l c) cs) = lim_limit (onAbort l c) \<and>
      set (lim_queue (foldl onAbort (onAbort l c) cs)) = set (lim_queue (onAbort l c)) - set cs"
      using Cons.prems(2) by (intro Cons.IH [OF eff(1)]) auto
    then show ?case using eff(3-5) q by auto
  qed
  then show "queue_inv (foldl onAbort l cs)"
    and "\<And>x. promise_of (foldl onAbort l cs) x = Some Resolved \<longleftrightarrow> promise_of l x = Some Resolved"
    and "lim_running (foldl onAbort l cs) = lim_running l"
    and "lim_limit (foldl onAbort l cs) = lim_limit l"
    and "set (lim_queue (foldl onAbort l cs)) = set (lim_queue l) - set cs"
    by simp_all
qed

lemma abort_signal_effect:
  assumes "queue_inv l"
  shows "queue_inv (abort_signal s l)"
    and "\<And>x. promise_of (abort_signal s l) x = Some Resolved \<longleftrightarrow> promise_of l x = Some Resolved"
    and "lim_running (abort_signal s l) = lim_running l"
    and "lim_limit (abort_signal s l) = lim_limit l"
    and "set (lim_queue (abort_signal s l)) \<subseteq> set (lim_queue l)"
proof -
  let ?cs = "map snd (filter (\<lambda>e. fst e = s) (lim_listeners l))"
  let ?l = "l\<lparr>lim_aborted := set_add (lim_aborted l) s\<rparr>"
  have l: "queue_inv ?l" using assms by (simp add: queue_inv_def)
  have d: "distinct ?cs" using assms by (simp add: queue_inv_def distinct_map_filter)
  have sub: "set ?cs \<subseteq> set (lim_queue ?l)" using assms by (force simp: queue_inv_def)
  note f = foldl_onAbort [OF l d sub]
  show "queue_inv (abort_signal s l)" using assms f(1) by (simp add: abort_signal_def)
  show "promise_of (abort_signal s l) x = Some Resolved \<longleftrightarrow> promise_of l x = Some Resolved" for x
    using f(2) by (simp add: abort_signal_def)
  show "lim_running (abort_signal s l) = lim_running l" "lim_limit (abort_signal s l) = lim_limit l"
    using f(3,4) by (simp_all add: abort_signal_def)
  show "set (lim_queue (abort_signal s l)) \<subseteq> set (lim_queue l)"
    using f(5) by (auto simp: abort_signal_def)
qed

lemma release_effect:
  assumes "queue_inv l"
  shows "lim_limit (release l) = lim_limit l"
    and "lim_queue (release l) = tl (lim_queue l)"
    and "lim_running (release l) = (if lim_queue l = [] then lim_running l - 1 else lim_running l)"
    and "{c. promise_of (release l) c = Some Resolved} =
      (if lim_queue l = [] then {} else {hd (lim_queue l)}) \<union> {c. promise_of l c = Some Resolved}"
  by (auto simp: release_def grant_slot_def split: list.splits)

lemma slot_inv_fields:
  assumes "slot_inv t"
  shows "queue_inv (t_limiter t)" "wf_map (lim_promises (t_limiter t))"
    "set (t_done t) \<subseteq> {c. promise_of (t_limiter t) c = Some Resolved}"
    "lim_running (t_limiter t) = int (card ({c. promise_of (t_limiter t) c = Some Resolved} - set (t_done t)))"
    "lim_running (t_limiter t) \<le> lim_limit (t_limiter t)"
    "lim_queue (t_limiter t) \<noteq> [] \<longrightarrow> lim_running (t_limiter t) = lim_limit (t_limiter t)"
proof -
  show q: "queue_inv (t_limiter t)" using assms by (simp add: slot_inv_def Let_def)
  then show w: "wf_map (lim_promises (t_limiter t))" by (simp add: queue_inv_def)
  show "set (t_done t) \<subseteq> {c. promise_of (t_limiter t) c = Some Resolved}"
    "lim_running (t_limiter t) = int (card ({c. promise_of (t_limiter t) c = Some Resolved} - set (t_done t)))"
    "lim_running (t_limiter t) \<le> lim_limit (t_limiter t)"
    "lim_queue (t_limiter t) \<noteq> [] \<longrightarrow> lim_running (t_limiter t) = lim_limit (t_limiter t)"
    using assms length_in_flight [OF w] by (auto simp: slot_inv_def Let_def)
qed

lemma slot_invI:
  assumes "queue_inv (t_limiter t)"
    and "set (t_done t) \<subseteq> {c. promise_of (t_limiter t) c = Some Resolved}"
    and "lim_running (t_limiter t) = int (card ({c. promise_of (t_limiter t) c = Some Resolved} - set (t_done t)))"
    and "lim_running (t_limiter t) \<le> lim_limit (t_limiter t)"
    and "lim_queue (t_limiter t) \<noteq> [] \<longrightarrow> lim_running (t_limiter t) = lim_limit (t_limiter t)"
  shows "slot_inv t"
proof -
  have "wf_map (lim_promises (t_limiter t))" using assms(1) by (simp add: queue_inv_def)
  then show ?thesis using assms by (auto simp: slot_inv_def Let_def length_in_flight)
qed

lemma slot_inv_call [inv_intros]:
  assumes "slot_inv t"
  shows "slot_inv (t\<lparr>t_limiter := snd (acquire signal (t_limiter t))\<rparr>)"
proof -
  note f = slot_inv_fields [OF assms]
  let ?l = "t_limiter t"
  let ?R = "{c. promise_of ?l c = Some Resolved}"
  have q: "queue_inv (snd (acquire signal ?l))" using f(1,6) by (rule queue_inv_acquire)
  have fresh: "lim_next ?l \<notin> ?R" using fresh_call [OF f(1)] by simp
  then have nd: "lim_next ?l \<notin> set (t_done t)" using f(3) by auto
  have fin: "finite (?R - set (t_done t))" using finite_resolved [OF f(2)] by simp
  have card: "card (insert (lim_next ?l) ?R - set (t_done t)) = Suc (card (?R - set (t_done t)))"
    using fin fresh nd by (simp add: insert_Diff_if)
  show ?thesis
    using q f(3-6) in_flight_acquire [OF f(1), of signal] card
    by (intro slot_invI) (auto simp: acquire_def Let_def split: option.splits if_splits)
qed

lemma slot_inv_settles [inv_intros]:
  assumes "slot_inv t" and c: "c \<in> set (in_flight t)"
  shows "slot_inv (t\<lparr>t_limiter := release (t_limiter t), t_done := c # t_done t\<rparr>)"
proof -
  note f = slot_inv_fields [OF assms(1)]
  let ?l = "t_limiter t"
  let ?R = "{c. promise_of ?l c = Some Resolved}"
  note r = release_effect [OF f(1)]
  have cR: "c \<in> ?R - set (t_done t)"
    using c f(2) by (auto simp: in_flight_def set_resolved_calls)
  have fin: "finite (?R - set (t_done t))" using finite_resolved [OF f(2)] by simp
  have minus: "int (card (?R - set (c # t_done t))) = int (card (?R - set (t_done t))) - 1"
  proof -
    have "?R - set (c # t_done t) = (?R - set (t_done t)) - {c}" by auto
    moreover have "0 < card (?R - set (t_done t))" using cR fin by (auto simp: card_gt_0_iff)
    ultimately show ?thesis using cR fin by (simp add: card_Diff_singleton of_nat_diff)
  qed
  show ?thesis
  proof (cases "lim_queue ?l")
    case Nil
    then show ?thesis using f cR minus r queue_inv_release [OF f(1)]
      by (intro slot_invI) auto
  next
    case (Cons h rest)
    have h: "promise_of ?l h = Some Pending" using f(1) Cons by (simp add: queue_inv_def)
    then have new: "h \<notin> ?R" "h \<notin> set (t_done t)" "h \<noteq> c" using f(3) cR by auto
    have "(insert h ?R) - set (c # t_done t) = insert h (?R - set (c # t_done t))" using new by auto
    moreover have "finite (?R - set (c # t_done t))" using finite_resolved [OF f(2)] by simp
    ultimately have "int (card (insert h ?R - set (c # t_done t))) = int (card (?R - set (t_done t)))"
      using new minus by simp
    then show ?thesis using f cR r Cons queue_inv_release [OF f(1)]
      by (intro slot_invI) auto
  qed
qed

lemma slot_inv_abort [inv_intros]:
  assumes "slot_inv t"
  shows "slot_inv (t\<lparr>t_limiter := abort_signal s (t_limiter t)\<rparr>)"
proof -
  note f = slot_inv_fields [OF assms]
  note a = abort_signal_effect [OF f(1), of s]
  have "lim_queue (abort_signal s (t_limiter t)) \<noteq> [] \<Longrightarrow> lim_queue (t_limiter t) \<noteq> []"
    using a(5) by auto
  then show ?thesis using f a by (intro slot_invI) auto
qed

lemma slot_inv_step: "slot_inv t \<Longrightarrow> slot_inv (task_step t e)"
  by (cases e) (auto simp: task_step_def intro: inv_intros)

lemma new_limiter_Inr:
  assumes "new_limiter n = Inr l"
  shows "1 \<le> lim_limit l" "n = Num (of_int (lim_limit l))" "slot_inv (tasks_of l)"
proof -
  obtain r where r: "n = Num r" "r = of_int \<lfloor>r\<rfloor>" "\<not> r < 1"
    and l: "l = \<lparr>lim_limit = \<lfloor>r\<rfloor>, lim_running = 0, lim_queue = [], lim_next = 0,
                  lim_promises = [], lim_listeners = [], lim_aborted = []\<rparr>"
    using assms by (auto simp: new_limiter_def split: number.splits if_splits)
  show one: "1 \<le> lim_limit l" using r l by (simp add: le_floor_iff)
  show "n = Num (of_int (lim_limit l))" using r l by simp
  show "slot_inv (tasks_of l)"
    using l one by (simp add: slot_inv_def tasks_of_def queue_inv_def promise_of_def in_flight_def resolved_calls_def Let_def)
qed

lemma resolved_stays: "slot_inv t \<Longrightarrow>
  {c. promise_of (t_limiter t) c = Some Resolved} \<subseteq> {c. promise_of (t_limiter (task_step t e)) c = Some Resolved}"
proof -
  assume t: "slot_inv t"
  note f = slot_inv_fields [OF t]
  show ?thesis
  proof (cases e)
    case (CallRun signal)
    then show ?thesis using in_flight_acquire [OF f(1), of signal] by (auto simp: task_step_def split: if_splits)
  next
    case (FnSettles c)
    then show ?thesis using release_effect(4) [OF f(1)] by (auto simp: task_step_def)
  next
    case (SignalAborts s)
    then show ?thesis using abort_signal_effect(2) [OF f(1)] by (auto simp: task_step_def)
  qed
qed

interpretation tl: step_system task_step "tasks_of (projr (createRunLimiter None))" slot_inv
proof unfold_locales
  have "\<exists>l. createRunLimiter None = Inr l" by (simp add: createRunLimiter_def new_limiter_def)
  then show "slot_inv (tasks_of (projr (createRunLimiter None)))"
    by (auto simp: createRunLimiter_def dest: new_limiter_Inr(3))
qed (rule slot_inv_step)

interpretation tl: monotone_system task_step "tasks_of (projr (createRunLimiter None))" slot_inv
  "\<lambda>t. {c. promise_of (t_limiter t) c = Some Resolved}"
  by unfold_locales (rule resolved_stays)

lemma lim_limit_step [simp]: "slot_inv t \<Longrightarrow> lim_limit (t_limiter (task_step t e)) = lim_limit (t_limiter t)"
  using slot_inv_fields(1) [of t] abort_signal_effect(4) release_effect(1)
  by (cases e) (auto simp: task_step_def acquire_fields)

lemma lim_limit_run: "slot_inv t \<Longrightarrow> lim_limit (t_limiter (foldl task_step t es)) = lim_limit (t_limiter t)"
  by (induction es arbitrary: t) (auto simp: slot_inv_step)

lemma slot_inv_run: "new_limiter n = Inr l \<Longrightarrow> slot_inv (foldl task_step (tasks_of l) es)"
  by (rule tl.inv_run_from) (rule new_limiter_Inr(3))

text \<open>A schedule in which each call settles while its function is in flight.\<close>

fun settles :: "tasks \<Rightarrow> nat list \<Rightarrow> bool" where
  "settles t [] = True"
| "settles t (c # cs) = (c \<in> set (in_flight t) \<and> settles (task_step t (FnSettles c)) cs)"

lemma settle_serves:
  assumes "slot_inv t" and "settles t cs" and "i < length (lim_queue (t_limiter t))" and "i < length cs"
  shows "promise_of (t_limiter (foldl task_step t (map FnSettles cs))) (lim_queue (t_limiter t) ! i) = Some Resolved"
  using assms
proof (induction cs arbitrary: t i)
  case Nil
  then show ?case by simp
next
  case (Cons c cs)
  let ?t = "task_step t (FnSettles c)"
  have t: "slot_inv ?t" using Cons.prems(1) by (rule slot_inv_step)
  have lim: "t_limiter ?t = release (t_limiter t)" using Cons.prems(2) by (simp add: task_step_def)
  note r = release_effect [OF slot_inv_fields(1) [OF Cons.prems(1)]]
  show ?case
  proof (cases i)
    case 0
    have ne: "lim_queue (t_limiter t) \<noteq> []" using Cons.prems(3) by auto
    have "{hd (lim_queue (t_limiter t))} \<subseteq> {c. promise_of (t_limiter ?t) c = Some Resolved}"
      using r(4) ne lim by auto
    then have "{hd (lim_queue (t_limiter t))}
      \<subseteq> {c. promise_of (t_limiter (foldl task_step ?t (map FnSettles cs))) c = Some Resolved}"
      using tl.level_run_from [OF t] by (rule order_trans)
    then show ?thesis using 0 ne by (simp add: hd_conv_nth)
  next
    case (Suc j)
    have "lim_queue (t_limiter ?t) ! j = lim_queue (t_limiter t) ! i"
      using Suc Cons.prems(3) r(2) lim by (simp add: nth_tl)
    moreover have "promise_of (t_limiter (foldl task_step ?t (map FnSettles cs))) (lim_queue (t_limiter ?t) ! j) = Some Resolved"
      using Suc Cons.prems(2-4) r(2) lim by (intro Cons.IH [OF t]) auto
    ultimately show ?thesis by simp
  qed
qed

lemma new_limiter_exact: "(\<exists>l. new_limiter n = Inr l) \<longleftrightarrow> (\<exists>k \<ge> 1. n = Num (of_int k))"
proof
  assume "\<exists>l. new_limiter n = Inr l"
  then obtain l where "new_limiter n = Inr l" by blast
  then show "\<exists>k \<ge> 1. n = Num (of_int k)" using new_limiter_Inr(1,2) by blast
qed (auto simp: new_limiter_def)

lemma run_slots:
  assumes l: "new_limiter n = Inr l"
  shows "distinct (in_flight (foldl task_step (tasks_of l) es)) \<and>
    running (t_limiter (foldl task_step (tasks_of l) es)) = int (length (in_flight (foldl task_step (tasks_of l) es))) \<and>
    running (t_limiter (foldl task_step (tasks_of l) es)) \<le> lim_limit l \<and>
    (0 < queued (t_limiter (foldl task_step (tasks_of l) es)) \<longrightarrow>
       int (length (in_flight (foldl task_step (tasks_of l) es))) = lim_limit l)"
proof -
  have inv: "slot_inv (foldl task_step (tasks_of l) es)" using l by (rule slot_inv_run)
  have lim: "lim_limit (t_limiter (foldl task_step (tasks_of l) es)) = lim_limit l"
    using lim_limit_run [OF new_limiter_Inr(3) [OF l]] by (simp add: tasks_of_def)
  have "distinct (in_flight (foldl task_step (tasks_of l) es))"
    using slot_inv_fields(2) [OF inv] by (simp add: in_flight_def distinct_resolved_calls)
  then show ?thesis using inv lim by (auto simp: slot_inv_def Let_def running_def queued_def)
qed

definition two_slots :: limiter where
  "two_slots = projr (new_limiter (Num 2))"

section \<open>What the limiter guarantees\<close>

text \<open>
  C36. The slots: a limiter exists exactly for a positive integer limit, and however tasks are
  started, settle and are aborted under it, \<open>running\<close> is the number of functions in flight, it
  never passes the limit, and a task waits only while every slot is taken.
\<close>

theorem limiter_slots:
  "((\<exists>l. new_limiter n = Inr l) \<longleftrightarrow> (\<exists>k \<ge> 1. n = Num (of_int k))) \<and>
   (\<forall>l es. new_limiter n = Inr l \<longrightarrow>
     (let t = foldl task_step (tasks_of l) es in
      distinct (in_flight t) \<and> running (t_limiter t) = int (length (in_flight t)) \<and>
      running (t_limiter t) \<le> lim_limit l \<and>
      (0 < queued (t_limiter t) \<longrightarrow> int (length (in_flight t)) = lim_limit l)))"
  using new_limiter_exact [of n] run_slots [of n] unfolding Let_def by blast

theorem limiter_slots_witness:
  "(\<exists>l. new_limiter (Num 2) = Inr l) \<and>
   in_flight (foldl task_step (tasks_of two_slots)
     [CallRun None, CallRun (Some 7), CallRun (Some 7), CallRun None, FnSettles 0, SignalAborts 7]) = [1, 2] \<and>
   running (t_limiter (foldl task_step (tasks_of two_slots)
     [CallRun None, CallRun (Some 7), CallRun (Some 7), CallRun None, FnSettles 0, SignalAborts 7])) \<le> 2"
proof -
  have l: "new_limiter (Num 2) = Inr two_slots" by code_simp
  have lim: "lim_limit two_slots = 2" by code_simp
  note slots = limiter_slots [of "Num 2", THEN conjunct2, rule_format, OF l,
    of "[CallRun None, CallRun (Some 7), CallRun (Some 7), CallRun None, FnSettles 0, SignalAborts 7]"]
  have "in_flight (foldl task_step (tasks_of two_slots)
     [CallRun None, CallRun (Some 7), CallRun (Some 7), CallRun None, FnSettles 0, SignalAborts 7]) = [1, 2]"
    by code_simp
  then show ?thesis using l slots lim by (auto simp: Let_def)
qed

text \<open>
  First come, first served, and nobody is stranded: a call waits exactly while it is in the
  queue, every call that ever got a slot called before every call that waits, and while someone
  waits some function is in flight whose settling serves the queue: once more than \<open>i\<close> functions
  have settled, the call at position \<open>i\<close> has its slot.
\<close>

theorem limiter_fifo:
  assumes "new_limiter n = Inr l" and "t = foldl task_step (tasks_of l) es"
  shows "(promise_of (t_limiter t) w = Some Pending \<longleftrightarrow> w \<in> set (lim_queue (t_limiter t))) \<and>
    (promise_of (t_limiter t) g = Some Resolved \<longrightarrow> w \<in> set (lim_queue (t_limiter t)) \<longrightarrow> g < w) \<and>
    (lim_queue (t_limiter t) \<noteq> [] \<longrightarrow> in_flight t \<noteq> []) \<and>
    (i < length (lim_queue (t_limiter t)) \<longrightarrow> settles t cs \<longrightarrow> i < length cs \<longrightarrow>
      promise_of (t_limiter (foldl task_step t (map FnSettles cs))) (lim_queue (t_limiter t) ! i) = Some Resolved)"
proof -
  have inv: "slot_inv t" unfolding assms(2) using assms(1) by (rule slot_inv_run)
  have q: "queue_inv (t_limiter t)" using inv by (rule slot_inv_fields)
  have lim: "lim_limit (t_limiter t) = lim_limit l"
    unfolding assms(2) using lim_limit_run [OF new_limiter_Inr(3) [OF assms(1)]] by (simp add: tasks_of_def)
  have "lim_queue (t_limiter t) \<noteq> [] \<longrightarrow> in_flight t \<noteq> []"
    using inv new_limiter_Inr(1) [OF assms(1)] lim by (auto simp: slot_inv_def Let_def)
  then show ?thesis using q settle_serves [OF inv] by (simp add: queue_inv_def)
qed

theorem limiter_fifo_witness:
  "lim_queue (t_limiter (foldl task_step (tasks_of two_slots) [CallRun None, CallRun None, CallRun None, CallRun None])) = [2, 3] \<and>
   promise_of (t_limiter (foldl task_step (foldl task_step (tasks_of two_slots)
     [CallRun None, CallRun None, CallRun None, CallRun None]) (map FnSettles [1, 2]))) 3 = Some Resolved"
proof -
  have l: "new_limiter (Num 2) = Inr two_slots" by code_simp
  have q: "lim_queue (t_limiter (foldl task_step (tasks_of two_slots)
    [CallRun None, CallRun None, CallRun None, CallRun None])) = [2, 3]" by code_simp
  have s: "settles (foldl task_step (tasks_of two_slots)
    [CallRun None, CallRun None, CallRun None, CallRun None]) [1, 2]" by code_simp
  show ?thesis
    using limiter_fifo [OF l refl, of "[CallRun None, CallRun None, CallRun None, CallRun None]" 3 0 1 "[1, 2]"] q s
    by simp
qed

end
