(* ===== verification/Prompt_Reservations.thy ===== *)
theory Prompt_Reservations
  imports Prelude
begin

text \<open>
  The tokens that own a workflow's pending prompts
  (\<^verbatim>\<open>packages/workflows/src/durable/prompt-reservation-state.ts\<close>): reservations by identity with a
  generation, tombstones of released generations, anonymous tokens that only count, and the
  tokens consumed. Strings are their UTF-8 bytes, so \<open>encodeURIComponent\<close> is percent-encoding of
  every byte outside its unreserved set. The random UUIDs of \<open>adjust\<close> are an argument, one per
  iteration of its loop.
\<close>

section \<open>Percent-encoding\<close>

definition hex_digit :: "nat \<Rightarrow> char" where
  "hex_digit n = (if n < 10 then char_of (48 + n) else char_of (55 + n))"

definition unreserved :: "char \<Rightarrow> bool" where
  "unreserved c = (c \<in> set ''ABCDEFGHIJKLMNOPQRSTUVWXYZabcdefghijklmnopqrstuvwxyz0123456789-_.!~*()''
     \<or> c = char_of (39 :: nat))"

definition percent_char :: "char \<Rightarrow> string" where
  "percent_char c = (if unreserved c then [c]
     else [CHR ''%'', hex_digit (of_char c div 16), hex_digit (of_char c mod 16)])"

definition encodeURIComponent :: "string \<Rightarrow> string" where
  "encodeURIComponent s = concat (map percent_char s)"


lemma of_char_hex_digit: "n < 16 \<Longrightarrow> (of_char (hex_digit n) :: nat) = (if n < 10 then 48 + n else 55 + n)"
  by (simp add: hex_digit_def)

lemma hex_digit_inject: "m < 16 \<Longrightarrow> n < 16 \<Longrightarrow> hex_digit m = hex_digit n \<longleftrightarrow> m = n"
proof -
  assume "m < 16" "n < 16"
  then have "hex_digit m = hex_digit n \<Longrightarrow> (if m < 10 then 48 + m else 55 + m) = (if n < 10 then 48 + n else 55 + n)"
    by (metis of_char_hex_digit)
  then show ?thesis by (auto split: if_splits)
qed

lemma of_char_bound: "(of_char c :: nat) < 256"
  by simp

lemma percent_not_unreserved: "\<not> unreserved (CHR ''%'')"
  by (simp add: unreserved_def char_of_def)

lemma colon_not_unreserved: "\<not> unreserved (CHR '':'')"
  by (simp add: unreserved_def char_of_def)

lemma hex_digit_not_colon: "n < 16 \<Longrightarrow> hex_digit n \<noteq> CHR '':''"
proof
  assume "n < 16" and "hex_digit n = CHR '':''"
  then have "(if n < 10 then 48 + n else 55 + n) = (of_char (CHR '':'') :: nat)" by (metis of_char_hex_digit)
  then show False by (simp split: if_splits)
qed

lemma colon_not_in_percent_char: "CHR '':'' \<notin> set (percent_char c)"
proof -
  have "(of_char c :: nat) div 16 < 16" by (simp add: less_mult_imp_div_less)
  then have "hex_digit (of_char c div 16) \<noteq> CHR '':''" "hex_digit (of_char c mod 16) \<noteq> CHR '':''"
    by (simp_all add: hex_digit_not_colon)
  then show ?thesis using colon_not_unreserved by (auto simp: percent_char_def)
qed

lemma colon_not_in_encode [simp]: "CHR '':'' \<notin> set (encodeURIComponent s)"
  using colon_not_in_percent_char by (simp add: encodeURIComponent_def)

lemma percent_char_prefix:
  "percent_char c @ x = percent_char d @ y \<longleftrightarrow> c = d \<and> x = y"
proof (cases "unreserved c \<or> unreserved d")
  case True
  then show ?thesis using percent_not_unreserved by (auto simp: percent_char_def)
next
  case False
  have lt: "(of_char c :: nat) div 16 < 16" "(of_char d :: nat) div 16 < 16"
    using of_char_bound [of c] of_char_bound [of d] by (simp_all add: less_mult_imp_div_less)
  have "(of_char c :: nat) div 16 = of_char d div 16 \<Longrightarrow> (of_char c :: nat) mod 16 = of_char d mod 16 \<Longrightarrow> c = d"
    by (metis div_mult_mod_eq of_char_eq_iff)
  then show ?thesis using False lt by (auto simp: percent_char_def hex_digit_inject)
qed

lemma encodeURIComponent_inject [simp]: "encodeURIComponent s = encodeURIComponent t \<longleftrightarrow> s = t"
proof (induction s arbitrary: t)
  case Nil
  then show ?case by (cases t) (auto simp: encodeURIComponent_def percent_char_def)
next
  case (Cons c s)
  show ?case
  proof (cases t)
    case Nil
    then show ?thesis by (simp add: encodeURIComponent_def percent_char_def)
  next
    case (Cons d u)
    have "encodeURIComponent (c # s) = encodeURIComponent (d # u) \<longleftrightarrow> c = d \<and> encodeURIComponent s = encodeURIComponent u"
      using percent_char_prefix [of c "encodeURIComponent s" d "encodeURIComponent u"]
      by (simp add: encodeURIComponent_def)
    then show ?thesis using Cons Cons.IH by simp
  qed
qed

section \<open>The state\<close>

record reservation =
  res_id :: string
  res_generation :: int
  res_token :: string

record reservation_snapshot =
  snap_active :: "reservation list"
  snap_released :: "(string \<times> int) list"
  snap_anonymous :: "string list"
  snap_consumed :: "string list"

record reservations =
  rs_active :: "(string, reservation) jmap"
  rs_released :: "(string, int) jmap"
  rs_available :: "string jset"
  rs_anonymous :: "string jset"
  rs_consumed :: "string jset"

definition pending_token :: "nat \<Rightarrow> string" where
  "pending_token i = ''pending:'' @ nat_dec i"

definition reservation_token :: "string \<Rightarrow> int \<Rightarrow> string" where
  "reservation_token r g = ''reservation:'' @ encodeURIComponent r @ '':'' @ int_dec g"

lemma pending_token_inject [simp]: "pending_token i = pending_token j \<longleftrightarrow> i = j"
  by (simp add: pending_token_def)

lemma colon_split: "CHR '':'' \<notin> set a \<Longrightarrow> CHR '':'' \<notin> set b \<Longrightarrow> a @ '':'' @ x = b @ '':'' @ y \<longleftrightarrow> a = b \<and> x = y"
  by (auto simp: append_eq_append_conv2 Cons_eq_append_conv append_eq_Cons_conv)

lemma reservation_token_inject [simp]:
  "reservation_token r g = reservation_token r' g' \<longleftrightarrow> r = r' \<and> g = g'"
  using colon_split [of "encodeURIComponent r" "encodeURIComponent r'" "int_dec g" "int_dec g'"]
  by (simp add: reservation_token_def)

lemma finite_pending_in: "finite {j. i \<le> j \<and> pending_token j \<in> set existing}"
proof -
  have "inj pending_token" by (rule injI) simp
  then have "finite (pending_token -` set existing)" by (rule finite_vimageI [rotated]) simp
  then show ?thesis by (rule rev_finite_subset) auto
qed

lemma pending_search_decreases:
  assumes "pending_token i \<in> set existing"
  shows "card {j. Suc i \<le> j \<and> pending_token j \<in> set existing} < card {j. i \<le> j \<and> pending_token j \<in> set existing}"
proof (rule psubset_card_mono [OF finite_pending_in])
  have "i \<in> {j. i \<le> j \<and> pending_token j \<in> set existing}" "i \<notin> {j. Suc i \<le> j \<and> pending_token j \<in> set existing}"
    using assms by simp_all
  then show "{j. Suc i \<le> j \<and> pending_token j \<in> set existing} \<subset> {j. i \<le> j \<and> pending_token j \<in> set existing}"
    by (metis (no_types, lifting) Collect_mono Suc_leD psubsetI)
qed

function nextPendingToken :: "string jset \<Rightarrow> nat \<Rightarrow> string" where
  "nextPendingToken existing i =
    (if set_has existing (pending_token i) then nextPendingToken existing (Suc i) else pending_token i)"
  by pat_completeness auto
termination
  by (relation "measure (\<lambda>(existing, i). card {j. i \<le> j \<and> pending_token j \<in> set existing})")
    (simp_all add: set_has_def pending_search_decreases)

declare nextPendingToken.simps [simp del]

lemma nextPendingToken_fresh: "nextPendingToken existing i \<notin> set existing"
  by (induction existing i rule: nextPendingToken.induct)
    (subst nextPendingToken.simps, auto simp: set_has_def)

lemma nextPendingToken_form: "\<exists>j \<ge> i. nextPendingToken existing i = pending_token j"
proof (induction existing i rule: nextPendingToken.induct)
  case (1 existing i)
  then show ?case by (subst nextPendingToken.simps) (auto dest: Suc_leD)
qed

section \<open>The constructor\<close>

text \<open>\<open>Math.trunc\<close>\<close>

definition math_trunc :: "rat \<Rightarrow> int" where
  "math_trunc r = (if 0 \<le> r then \<lfloor>r\<rfloor> else \<lceil>r\<rceil>)"

definition restore_active :: "reservations \<Rightarrow> reservation \<Rightarrow> reservations" where
  "restore_active s e =
    (if set_has (rs_consumed s) (res_token e) then s
     else
       let s = (case map_get (rs_active s) (res_id e) of
           None \<Rightarrow> s\<lparr>rs_active := map_set (rs_active s) (res_id e) e\<rparr>
         | Some current \<Rightarrow>
             if res_generation e > res_generation current
             then s\<lparr>rs_active := map_set (rs_active s) (res_id e) e\<rparr> else s)
       in s\<lparr>rs_available := set_add (rs_available s) (res_token e)\<rparr>)"

definition restore_released :: "reservations \<Rightarrow> string \<times> int \<Rightarrow> reservations" where
  "restore_released s e =
    (let generation = max (or_else (map_get (rs_released s) (fst e)) 0) (snd e);
         s = s\<lparr>rs_released := map_set (rs_released s) (fst e) generation\<rparr>
     in case map_get (rs_active s) (fst e) of
          None \<Rightarrow> s
        | Some active \<Rightarrow>
            if res_generation active \<le> generation
            then s\<lparr>rs_active := map_delete (rs_active s) (fst e),
                   rs_available := set_delete (rs_available s) (res_token active),
                   rs_consumed := set_add (rs_consumed s) (res_token active)\<rparr>
            else s)"

definition restore_anonymous :: "reservations \<Rightarrow> string \<Rightarrow> reservations" where
  "restore_anonymous s t =
    (if set_has (rs_consumed s) t then s
     else s\<lparr>rs_anonymous := set_add (rs_anonymous s) t, rs_available := set_add (rs_available s) t\<rparr>)"

definition add_anonymous :: "string \<Rightarrow> reservations \<Rightarrow> reservations" where
  "add_anonymous t s = s\<lparr>rs_anonymous := set_add (rs_anonymous s) t, rs_available := set_add (rs_available s) t\<rparr>"

lemma length_available_add_anonymous:
  "length (rs_available (add_anonymous (nextPendingToken (rs_available s) i) s)) = Suc (length (rs_available s))"
  using nextPendingToken_fresh [of "rs_available s" i] by (simp add: add_anonymous_def set_add_new)

function fill_pending :: "int \<Rightarrow> nat \<Rightarrow> reservations \<Rightarrow> reservations" where
  "fill_pending target index s =
    (if int (length (rs_available s)) < target
     then fill_pending target (Suc index) (add_anonymous (nextPendingToken (rs_available s) index) s)
     else s)"
  by pat_completeness auto
termination
  by (relation "measure (\<lambda>(target, index, s). nat (target - int (length (rs_available s))))")
    (simp_all add: length_available_add_anonymous)

declare fill_pending.simps [simp del]

definition empty_reservations :: reservations where
  "empty_reservations = \<lparr>rs_active = [], rs_released = [], rs_available = [], rs_anonymous = [], rs_consumed = []\<rparr>"

definition newPromptReservationState :: "rat \<Rightarrow> reservation_snapshot option \<Rightarrow> reservations" where
  "newPromptReservationState pendingPrompts snapshot =
    (let s = empty_reservations;
         s = (case snapshot of None \<Rightarrow> s | Some sn \<Rightarrow>
           let s = s\<lparr>rs_consumed := set_add_all (rs_consumed s) (snap_consumed sn)\<rparr>;
               s = foldl restore_active s (snap_active sn);
               s = foldl restore_released s (snap_released sn)
           in foldl restore_anonymous s (snap_anonymous sn))
     in fill_pending (max 0 (math_trunc pendingPrompts)) 0 s)"

section \<open>The operations\<close>

definition pendingPrompts :: "reservations \<Rightarrow> nat" where
  "pendingPrompts s = length (rs_available s)"

definition activeToken :: "string \<Rightarrow> reservations \<Rightarrow> reservation option" where
  "activeToken r s = map_get (rs_active s) r"

definition reserve :: "string \<Rightarrow> reservations \<Rightarrow> reservation \<times> reservations" where
  "reserve r s = (case map_get (rs_active s) r of
      Some current \<Rightarrow> (current, s)
    | None \<Rightarrow>
        let generation = max (or_else (map_get (rs_released s) r) 0) 0 + 1;
            anonymous = (if map_has (rs_released s) r then None
              else case rs_anonymous s of [] \<Rightarrow> None | t # _ \<Rightarrow> Some t);
            tokenId = or_else anonymous (reservation_token r generation);
            s = (case anonymous of None \<Rightarrow> s | Some t \<Rightarrow> s\<lparr>rs_anonymous := set_delete (rs_anonymous s) t\<rparr>);
            entry = \<lparr>res_id = r, res_generation = generation, res_token = tokenId\<rparr>
        in (entry, s\<lparr>rs_active := map_set (rs_active s) r entry,
                     rs_available := set_add (rs_available s) tokenId\<rparr>))"

definition claim :: "string \<Rightarrow> reservations \<Rightarrow> reservation option \<times> reservations" where
  "claim r s = (case activeToken r s of
      Some t \<Rightarrow> (Some t, s)
    | None \<Rightarrow>
        if 0 < length (rs_anonymous s) then let (t, s') = reserve r s in (Some t, s') else (None, s))"

definition consume :: "string \<Rightarrow> reservations \<Rightarrow> reservations" where
  "consume t s = s\<lparr>rs_available := set_delete (rs_available s) t,
                   rs_anonymous := set_delete (rs_anonymous s) t,
                   rs_consumed := set_add (rs_consumed s) t\<rparr>"

definition release_reservation :: "string \<Rightarrow> reservation \<Rightarrow> reservations \<Rightarrow> reservations" where
  "release_reservation r token s = (case map_get (rs_active s) r of
      None \<Rightarrow> s
    | Some active \<Rightarrow>
        if res_id token \<noteq> r \<or> res_generation active \<noteq> res_generation token \<or> res_token active \<noteq> res_token token
        then s
        else
          let s = s\<lparr>rs_active := map_delete (rs_active s) r\<rparr>;
              s = consume (res_token active) s
          in s\<lparr>rs_released := map_set (rs_released s) r (res_generation active)\<rparr>)"

text \<open>The loop of \<open>adjust\<close>, upwards with one random UUID per iteration and downwards with \<open>break\<close>.\<close>

fun adjust_up :: "string list \<Rightarrow> reservations \<Rightarrow> reservations" where
  "adjust_up [] s = s"
| "adjust_up (uuid # uuids) s = adjust_up uuids (add_anonymous (''scalar:'' @ uuid) s)"

fun adjust_down :: "nat \<Rightarrow> reservations \<Rightarrow> reservations" where
  "adjust_down 0 s = s"
| "adjust_down (Suc n) s = (case rs_anonymous s of
      t # _ \<Rightarrow> adjust_down n (consume t s)
    | [] \<Rightarrow> (case map_values (rs_active s) of
        [] \<Rightarrow> s
      | active # _ \<Rightarrow>
          let s = s\<lparr>rs_active := map_delete (rs_active s) (res_id active)\<rparr>;
              s = s\<lparr>rs_released := map_set (rs_released s) (res_id active) (res_generation active)\<rparr>
          in adjust_down n (consume (res_token active) s)))"

definition adjust :: "rat \<Rightarrow> (nat \<Rightarrow> string) \<Rightarrow> reservations \<Rightarrow> reservations" where
  "adjust delta uuid s =
    (let count = nat (max 0 (math_trunc \<bar>delta\<bar>)) in
     if delta > 0 then adjust_up (map uuid [0..<count]) s
     else if delta < 0 then adjust_down count s else s)"

definition snapshot :: "reservations \<Rightarrow> reservation_snapshot" where
  "snapshot s = \<lparr>snap_active = map_values (rs_active s), snap_released = rs_released s,
                 snap_anonymous = rs_anonymous s, snap_consumed = rs_consumed s\<rparr>"

section \<open>Merging two snapshots\<close>

definition merge_released :: "(string \<times> int) list \<Rightarrow> (string, int) jmap" where
  "merge_released es = foldl (\<lambda>m e. map_set m (fst e) (max (or_else (map_get m (fst e)) 0) (snd e))) [] es"

definition merge_active_step ::
  "string jset \<Rightarrow> (string, int) jmap \<Rightarrow> (string, reservation) jmap \<Rightarrow> reservation \<Rightarrow> (string, reservation) jmap" where
  "merge_active_step consumed released m e =
    (if set_has consumed (res_token e) \<or> or_else (map_get released (res_id e)) 0 \<ge> res_generation e then m
     else case map_get m (res_id e) of
       None \<Rightarrow> map_set m (res_id e) e
     | Some current \<Rightarrow> if res_generation e > res_generation current then map_set m (res_id e) e else m)"

definition merged_snapshot :: "reservation_snapshot \<Rightarrow> reservation_snapshot \<Rightarrow> reservation_snapshot" where
  "merged_snapshot first second =
    (let consumed = set_add_all [] (snap_consumed first @ snap_consumed second);
         released = merge_released (snap_released first @ snap_released second);
         active = foldl (merge_active_step consumed released) [] (snap_active first @ snap_active second);
         anonymous = set_delete_all (set_add_all [] (snap_anonymous first @ snap_anonymous second)) consumed
     in \<lparr>snap_active = map_values active, snap_released = released,
         snap_anonymous = anonymous, snap_consumed = consumed\<rparr>)"

definition no_snapshot :: reservation_snapshot where
  "no_snapshot = \<lparr>snap_active = [], snap_released = [], snap_anonymous = [], snap_consumed = []\<rparr>"

definition mergePromptReservationSnapshots ::
  "reservation_snapshot option \<Rightarrow> reservation_snapshot option \<Rightarrow> rat \<Rightarrow> reservation_snapshot option" where
  "mergePromptReservationSnapshots first second pending =
    (if first = None \<and> second = None then None
     else Some (snapshot (newPromptReservationState pending
            (Some (merged_snapshot (or_else first no_snapshot) (or_else second no_snapshot))))))"

section \<open>The accounting invariant\<close>

definition active_tokens :: "reservations \<Rightarrow> string list" where
  "active_tokens s = map res_token (map_values (rs_active s))"

definition generation_used :: "reservations \<Rightarrow> string \<Rightarrow> int \<Rightarrow> bool" where
  "generation_used s r g \<longleftrightarrow> g \<le> or_else (map_get (rs_released s) r) 0 \<or>
     (\<exists>e. map_get (rs_active s) r = Some e \<and> g \<le> res_generation e)"

definition rs_inv :: "reservations \<Rightarrow> bool" where
  "rs_inv s \<longleftrightarrow>
    wf_map (rs_active s) \<and> wf_map (rs_released s) \<and>
    distinct (rs_available s) \<and> distinct (rs_anonymous s) \<and> distinct (rs_consumed s) \<and>
    (\<forall>r e. map_get (rs_active s) r = Some e \<longrightarrow>
       res_id e = r \<and> or_else (map_get (rs_released s) r) 0 < res_generation e) \<and>
    (\<forall>r g. map_get (rs_released s) r = Some g \<longrightarrow> 1 \<le> g) \<and>
    set (rs_available s) = set (rs_anonymous s) \<union> set (active_tokens s) \<and>
    set (rs_anonymous s) \<inter> set (active_tokens s) = {} \<and>
    distinct (active_tokens s) \<and>
    set (rs_consumed s) \<inter> set (rs_available s) = {} \<and>
    (\<forall>r g. reservation_token r g \<in> set (rs_available s) \<union> set (rs_consumed s) \<longrightarrow> generation_used s r g)"

lemma rs_invD:
  assumes "rs_inv s"
  shows "wf_map (rs_active s)" "wf_map (rs_released s)" "distinct (rs_available s)"
    "distinct (rs_anonymous s)" "distinct (rs_consumed s)"
    "map_get (rs_active s) r = Some e \<Longrightarrow> res_id e = r"
    "map_get (rs_active s) r = Some e \<Longrightarrow> or_else (map_get (rs_released s) r) 0 < res_generation e"
    "map_get (rs_released s) r = Some g \<Longrightarrow> 1 \<le> g"
    "set (rs_available s) = set (rs_anonymous s) \<union> set (active_tokens s)"
    "set (rs_anonymous s) \<inter> set (active_tokens s) = {}"
    "distinct (active_tokens s)"
    "set (rs_consumed s) \<inter> set (rs_available s) = {}"
    "reservation_token r' g' \<in> set (rs_available s) \<union> set (rs_consumed s) \<Longrightarrow> generation_used s r' g'"
  using assms unfolding rs_inv_def by blast+

lemma set_active_tokens: "set (active_tokens s) = {res_token e | r e. (r, e) \<in> set (rs_active s)}"
  by (force simp: active_tokens_def map_values_def)

lemma in_active_tokens:
  assumes "map_get (rs_active s) r = Some e"
  shows "res_token e \<in> set (active_tokens s)"
  using map_get_Some_in_set [OF assms] by (auto simp: set_active_tokens)

lemma active_tokens_update [simp]:
  "active_tokens (s\<lparr>rs_released := a\<rparr>) = active_tokens s"
  "active_tokens (s\<lparr>rs_available := b\<rparr>) = active_tokens s"
  "active_tokens (s\<lparr>rs_anonymous := b\<rparr>) = active_tokens s"
  "active_tokens (s\<lparr>rs_consumed := b\<rparr>) = active_tokens s"
  by (simp_all add: active_tokens_def)

lemma generation_used_update [simp]:
  "generation_used (s\<lparr>rs_available := b\<rparr>) = generation_used s"
  "generation_used (s\<lparr>rs_anonymous := b\<rparr>) = generation_used s"
  "generation_used (s\<lparr>rs_consumed := b\<rparr>) = generation_used s"
  by (auto simp: generation_used_def fun_eq_iff)

lemma active_tokens_insert:
  assumes "map_get (rs_active s) r = None"
  shows "active_tokens (s\<lparr>rs_active := map_set (rs_active s) r e\<rparr>) = active_tokens s @ [res_token e]"
  using assms by (simp add: active_tokens_def map_values_def map_set_fresh)

lemma active_tokens_delete:
  assumes "wf_map (rs_active s)" and "distinct (active_tokens s)" and "map_get (rs_active s) r = Some e"
  shows "active_tokens (s\<lparr>rs_active := map_delete (rs_active s) r\<rparr>) = set_delete (active_tokens s) (res_token e)"
proof -
  have "map (res_token \<circ> snd) (filter (\<lambda>x. fst x \<noteq> r) m) = filter (\<lambda>t. t \<noteq> res_token e) (map (res_token \<circ> snd) m)"
    if "wf_map m" "distinct (map (res_token \<circ> snd) m)" "map_get m r = Some e" for m
  proof -
    have "\<And>x. x \<in> set m \<Longrightarrow> (fst x \<noteq> r) = (res_token (snd x) \<noteq> res_token e)"
    proof -
      fix x assume x: "x \<in> set m"
      have re: "(r, e) \<in> set m" using that(3) by (rule map_get_Some_in_set)
      have i: "inj_on (res_token \<circ> snd) (set m)" "inj_on fst (set m)"
        using that by (simp_all add: distinct_map wf_map_def)
      show "(fst x \<noteq> r) = (res_token (snd x) \<noteq> res_token e)"
        using inj_onD [OF i(1) _ x re] inj_onD [OF i(2) _ x re] by (cases x) auto
    qed
    then show ?thesis by (simp add: filter_map comp_def cong: filter_cong)
  qed
  then show ?thesis using assms
    by (simp add: active_tokens_def map_values_def map_delete_def set_delete_def)
qed

text \<open>The three ways a token moves: a new anonymous one, a reservation, a consumption.\<close>

lemma rs_inv_add_anonymous:
  assumes "rs_inv s" and "t \<notin> set (rs_available s)" and "t \<notin> set (rs_consumed s)"
    and "\<And>r g. t \<noteq> reservation_token r g"
  shows "rs_inv (add_anonymous t s)"
  using assms unfolding rs_inv_def add_anonymous_def by auto

lemma rs_inv_consume_anonymous:
  assumes "rs_inv s" and "t \<in> set (rs_anonymous s)"
  shows "rs_inv (consume t s)"
  using assms unfolding rs_inv_def consume_def by auto

definition retire :: "string \<Rightarrow> reservation \<Rightarrow> reservations \<Rightarrow> reservations" where
  "retire r e s = consume (res_token e)
     (s\<lparr>rs_active := map_delete (rs_active s) r, rs_released := map_set (rs_released s) r (res_generation e)\<rparr>)"

lemma generation_used_retire:
  assumes "rs_inv s" and "map_get (rs_active s) r = Some e" and "generation_used s r' g"
  shows "generation_used (retire r e s) r' g"
  using assms rs_invD(7) [OF assms(1,2)]
  by (auto simp: generation_used_def retire_def consume_def)

lemma rs_inv_retire:
  assumes "rs_inv s" and "map_get (rs_active s) r = Some e"
  shows "rs_inv (retire r e s)"
proof -
  note d = rs_invD [OF assms(1)]
  have tok: "active_tokens (retire r e s) = set_delete (active_tokens s) (res_token e)"
    using active_tokens_delete [OF d(1) d(11) assms(2)] by (simp add: retire_def consume_def active_tokens_def)
  have mem: "res_token e \<in> set (active_tokens s)" using assms(2) by (rule in_active_tokens)
  then have notanon: "res_token e \<notin> set (rs_anonymous s)" using d(10) by auto
  have pos: "1 \<le> res_generation e"
    using d(7) [OF assms(2)] d(8) by (cases "map_get (rs_released s) r") force+
  have used: "\<And>r' g. reservation_token r' g \<in> set (rs_available s) \<union> set (rs_consumed s) \<Longrightarrow> generation_used (retire r e s) r' g"
    using generation_used_retire [OF assms] d(13) by blast
  have f: "rs_active (retire r e s) = map_delete (rs_active s) r"
    "rs_released (retire r e s) = map_set (rs_released s) r (res_generation e)"
    "rs_available (retire r e s) = set_delete (rs_available s) (res_token e)"
    "rs_anonymous (retire r e s) = set_delete (rs_anonymous s) (res_token e)"
    "rs_consumed (retire r e s) = set_add (rs_consumed s) (res_token e)"
    by (simp_all add: retire_def consume_def)
  show ?thesis
    unfolding rs_inv_def f tok
  proof (intro conjI allI impI)
    fix r' g
    assume "reservation_token r' g \<in> set (set_delete (rs_available s) (res_token e)) \<union> set (set_add (rs_consumed s) (res_token e))"
    then have "reservation_token r' g \<in> set (rs_available s) \<union> set (rs_consumed s)"
      using mem by (simp only: d(9) set_set_delete set_set_add Un_iff Diff_iff insert_iff) metis
    then show "generation_used (retire r e s) r' g" by (rule used)
  next
    fix r' e'
    assume a: "map_get (map_delete (rs_active s) r) r' = Some e'"
    then show "res_id e' = r'" using d(6) by (simp split: if_splits)
    show "or_else (map_get (map_set (rs_released s) r (res_generation e)) r') 0 < res_generation e'" using a d(7) by (simp split: if_splits)
  next
    show "set (set_delete (rs_available s) (res_token e)) = set (set_delete (rs_anonymous s) (res_token e)) \<union> set (set_delete (active_tokens s) (res_token e))"
      using d(9) by auto
    show "set (set_delete (rs_anonymous s) (res_token e)) \<inter> set (set_delete (active_tokens s) (res_token e)) = {}" using d(10) by auto
    show "set (set_add (rs_consumed s) (res_token e)) \<inter> set (set_delete (rs_available s) (res_token e)) = {}" using d(12) by auto
  next
    fix r' g
    assume "map_get (map_set (rs_released s) r (res_generation e)) r' = Some g"
    then show "1 \<le> g" using d(8) pos by (simp split: if_splits)
  qed (use d(1-5,11) in simp_all)
qed

definition next_generation :: "reservations \<Rightarrow> string \<Rightarrow> int" where
  "next_generation s r = max (or_else (map_get (rs_released s) r) 0) 0 + 1"

text \<open>\<open>reserve\<close> on a reservation that is not active: with an anonymous token, or with one of its own.\<close>

definition bind_token :: "string \<Rightarrow> string \<Rightarrow> reservations \<Rightarrow> reservations" where
  "bind_token r t s = s\<lparr>rs_active := map_set (rs_active s) r \<lparr>res_id = r, res_generation = next_generation s r, res_token = t\<rparr>,
     rs_available := set_add (rs_available s) t, rs_anonymous := set_delete (rs_anonymous s) t\<rparr>"

lemma released_nonneg: "rs_inv s \<Longrightarrow> 0 \<le> or_else (map_get (rs_released s) r) 0"
  using rs_invD(8) [of s r] by (cases "map_get (rs_released s) r") force+

lemma rs_inv_bind_token:
  assumes "rs_inv s" and none: "map_get (rs_active s) r = None"
    and t: "t \<in> set (rs_anonymous s) \<or> t = reservation_token r (next_generation s r)"
    and res: "\<And>r' g. t = reservation_token r' g \<Longrightarrow> t \<notin> set (rs_anonymous s) \<Longrightarrow> r' = r \<and> g = next_generation s r"
  shows "rs_inv (bind_token r t s)"
proof -
  note d = rs_invD [OF assms(1)]
  let ?e = "\<lparr>res_id = r, res_generation = next_generation s r, res_token = t\<rparr>"
  have gen: "or_else (map_get (rs_released s) r) 0 < next_generation s r"
    using released_nonneg [OF assms(1), of r] by (simp add: next_generation_def)
  have unused: "\<not> generation_used s r (next_generation s r)"
    using gen none by (simp add: generation_used_def)
  have fresh: "t \<notin> set (active_tokens s)" "t \<notin> set (rs_consumed s)"
    using t d(9,10,12,13) unused by blast+
  have tok: "active_tokens (bind_token r t s) = active_tokens s @ [t]"
    using active_tokens_insert [OF none, of ?e] by (simp add: bind_token_def active_tokens_def)
  have used: "generation_used s r' g \<Longrightarrow> generation_used (bind_token r t s) r' g" for r' g
    using none by (auto simp: generation_used_def bind_token_def)
  have used_new: "generation_used (bind_token r t s) r (next_generation s r)"
    by (simp add: generation_used_def bind_token_def)
  have f: "rs_active (bind_token r t s) = map_set (rs_active s) r ?e"
    "rs_released (bind_token r t s) = rs_released s"
    "rs_available (bind_token r t s) = set_add (rs_available s) t"
    "rs_anonymous (bind_token r t s) = set_delete (rs_anonymous s) t"
    "rs_consumed (bind_token r t s) = rs_consumed s"
    by (simp_all add: bind_token_def)
  show ?thesis
    unfolding rs_inv_def f tok
  proof (intro conjI allI impI)
    fix r' g
    assume "reservation_token r' g \<in> set (set_add (rs_available s) t) \<union> set (rs_consumed s)"
    then have "reservation_token r' g \<in> set (rs_available s) \<union> set (rs_consumed s) \<or>
        reservation_token r' g = t \<and> t \<notin> set (rs_available s)" by auto
    then show "generation_used (bind_token r t s) r' g"
    proof
      assume "reservation_token r' g \<in> set (rs_available s) \<union> set (rs_consumed s)"
      then show ?thesis by (intro used d(13))
    next
      assume "reservation_token r' g = t \<and> t \<notin> set (rs_available s)"
      then have "r' = r \<and> g = next_generation s r" using res [of r' g] d(9) by auto
      then show ?thesis using used_new by simp
    qed
  qed (use d gen fresh in \<open>auto split: if_splits\<close>)
qed

definition chosen_token :: "reservations \<Rightarrow> string \<Rightarrow> string" where
  "chosen_token s r = (if map_has (rs_released s) r \<or> rs_anonymous s = []
     then reservation_token r (next_generation s r) else hd (rs_anonymous s))"

lemma own_token_unused:
  assumes "rs_inv s" and "map_get (rs_active s) r = None"
  shows "reservation_token r (next_generation s r) \<notin> set (rs_available s) \<union> set (rs_consumed s)"
proof
  assume "reservation_token r (next_generation s r) \<in> set (rs_available s) \<union> set (rs_consumed s)"
  then have "generation_used s r (next_generation s r)" by (rule rs_invD(13) [OF assms(1)])
  then show False using assms(2) released_nonneg [OF assms(1), of r]
    by (simp add: generation_used_def next_generation_def)
qed

lemma reserve_inactive:
  assumes "rs_inv s" and none: "map_get (rs_active s) r = None"
  shows "reserve r s = (\<lparr>res_id = r, res_generation = next_generation s r, res_token = chosen_token s r\<rparr>,
    bind_token r (chosen_token s r) s)"
proof (cases "map_has (rs_released s) r \<or> rs_anonymous s = []")
  case True
  have "reservation_token r (next_generation s r) \<notin> set (rs_anonymous s)"
    using own_token_unused [OF assms] rs_invD(9) [OF assms(1)] by blast
  then have "set_delete (rs_anonymous s) (reservation_token r (next_generation s r)) = rs_anonymous s"
    by (auto simp: set_delete_def filter_id_conv)
  moreover have "(if map_has (rs_released s) r then None
      else case rs_anonymous s of [] \<Rightarrow> None | t # _ \<Rightarrow> Some t) = None"
    using True by (auto split: list.splits)
  ultimately show ?thesis
    using True none by (simp add: reserve_def chosen_token_def bind_token_def next_generation_def Let_def)
next
  case False
  then obtain t ts where "rs_anonymous s = t # ts" by (cases "rs_anonymous s") auto
  then show ?thesis
    using False none by (simp add: reserve_def chosen_token_def bind_token_def next_generation_def Let_def)
qed

lemma chosen_token_cases:
  "chosen_token s r \<in> set (rs_anonymous s) \<or> chosen_token s r = reservation_token r (next_generation s r)"
  by (simp add: chosen_token_def)

lemma rs_inv_reserve [inv_intros]:
  assumes "rs_inv s"
  shows "rs_inv (snd (reserve r s))"
proof (cases "map_get (rs_active s) r")
  case None
  have "chosen_token s r = reservation_token r' g \<Longrightarrow> chosen_token s r \<notin> set (rs_anonymous s) \<Longrightarrow>
      r' = r \<and> g = next_generation s r" for r' g
    using chosen_token_cases [of s r] by simp
  then show ?thesis
    using rs_inv_bind_token [OF assms None chosen_token_cases] reserve_inactive [OF assms None] by simp
next
  case (Some e)
  then show ?thesis using assms by (simp add: reserve_def)
qed

lemma rs_inv_claim [inv_intros]: "rs_inv s \<Longrightarrow> rs_inv (snd (claim r s))"
  using rs_inv_reserve [of s r] by (auto simp: claim_def Let_def split: option.splits prod.splits)

lemma release_reservation_cases:
  "release_reservation r token s =
    (if map_get (rs_active s) r = Some token \<and> res_id token = r then retire r token s else s)"
  if "rs_inv s"
proof (cases "map_get (rs_active s) r")
  case None
  then show ?thesis by (simp add: release_reservation_def)
next
  case (Some e)
  have "e = token \<longleftrightarrow> res_id token = r \<and> res_generation e = res_generation token \<and> res_token e = res_token token"
    using rs_invD(6) [OF that Some] by (auto intro: reservation.equality)
  then show ?thesis using Some
    by (auto simp: release_reservation_def retire_def consume_def Let_def)
qed

lemma rs_inv_release [inv_intros]: "rs_inv s \<Longrightarrow> rs_inv (release_reservation r token s)"
  by (auto simp: release_reservation_cases intro: rs_inv_retire)

lemma length_available:
  assumes "rs_inv s"
  shows "pendingPrompts s = length (rs_active s) + length (rs_anonymous s)"
proof -
  note d = rs_invD [OF assms]
  have "pendingPrompts s = card (set (rs_anonymous s) \<union> set (active_tokens s))"
    using d(3,9) by (simp add: pendingPrompts_def distinct_card [symmetric])
  also have "\<dots> = length (rs_anonymous s) + length (active_tokens s)"
    using d(4,10,11) by (simp add: card_Un_disjoint distinct_card)
  finally show ?thesis by (simp add: active_tokens_def map_values_def)
qed

lemma map_values_head:
  assumes "rs_inv s" and "map_values (rs_active s) = e # es"
  shows "map_get (rs_active s) (res_id e) = Some e"
proof -
  obtain r m where "rs_active s = (r, e) # m" using assms(2) by (auto simp: map_values_def)
  then have "map_get (rs_active s) r = Some e" by (simp add: map_get_def)
  then show ?thesis using rs_invD(6) [OF assms(1)] by metis
qed

lemma adjust_down_Suc:
  assumes "rs_inv s"
  shows "adjust_down (Suc n) s = s \<and> pendingPrompts s = 0 \<or>
    (\<exists>s'. adjust_down (Suc n) s = adjust_down n s' \<and> rs_inv s' \<and> Suc (pendingPrompts s') = pendingPrompts s \<and>
       set (rs_consumed s') \<union> set (rs_available s') = set (rs_consumed s) \<union> set (rs_available s))"
proof (cases "rs_anonymous s")
  case (Cons t ts)
  have inv: "rs_inv (consume t s)" using assms Cons by (intro rs_inv_consume_anonymous) simp_all
  have t: "t \<in> set (rs_available s)" using rs_invD(9) [OF assms] Cons by auto
  then have "Suc (pendingPrompts (consume t s)) = pendingPrompts s"
    using rs_invD(3) [OF assms] by (simp add: pendingPrompts_def consume_def length_set_delete)
  then show ?thesis using Cons inv t by (intro disjI2 exI [of _ "consume t s"]) (auto simp: consume_def)
next
  case Nil
  show ?thesis
  proof (cases "map_values (rs_active s)")
    case Nil2: Nil
    then have "pendingPrompts s = 0" using Nil length_available [OF assms] by (simp add: map_values_def)
    then show ?thesis using Nil Nil2 by simp
  next
    case (Cons e es)
    have e: "map_get (rs_active s) (res_id e) = Some e" using assms Cons by (rule map_values_head)
    have inv: "rs_inv (retire (res_id e) e s)" using assms e by (rule rs_inv_retire)
    have t: "res_token e \<in> set (rs_available s)" using rs_invD(9) [OF assms] in_active_tokens [OF e] by auto
    then have "Suc (pendingPrompts (retire (res_id e) e s)) = pendingPrompts s"
      using rs_invD(3) [OF assms] by (simp add: pendingPrompts_def retire_def consume_def length_set_delete)
    moreover have "adjust_down (Suc n) s = adjust_down n (retire (res_id e) e s)"
      using Nil Cons by (simp add: retire_def Let_def)
    ultimately show ?thesis using inv t
      by (intro disjI2 exI [of _ "retire (res_id e) e s"]) (auto simp: retire_def consume_def)
  qed
qed

lemma adjust_down_effect:
  "rs_inv s \<Longrightarrow> rs_inv (adjust_down n s) \<and> pendingPrompts (adjust_down n s) = pendingPrompts s - n \<and>
     set (rs_consumed (adjust_down n s)) \<union> set (rs_available (adjust_down n s)) = set (rs_consumed s) \<union> set (rs_available s)"
proof (induction n arbitrary: s)
  case 0
  then show ?case by simp
next
  case (Suc n)
  show ?case
    using adjust_down_Suc [OF Suc.prems, of n]
  proof (elim disjE exE conjE)
    assume "adjust_down (Suc n) s = s" "pendingPrompts s = 0"
    then show ?thesis using Suc.prems by (simp only:) simp
  next
    fix s'
    assume a: "adjust_down (Suc n) s = adjust_down n s'" and i: "rs_inv s'"
      and p: "Suc (pendingPrompts s') = pendingPrompts s"
      and u: "set (rs_consumed s') \<union> set (rs_available s') = set (rs_consumed s) \<union> set (rs_available s)"
    show ?thesis unfolding a using Suc.IH [OF i] p u by auto
  qed
qed

definition scalar_token :: "string \<Rightarrow> string" where
  "scalar_token u = ''scalar:'' @ u"

lemma token_forms [simp]:
  "scalar_token u \<noteq> reservation_token r g" "scalar_token u \<noteq> pending_token i"
  "pending_token i \<noteq> reservation_token r g" "reservation_token r g \<noteq> pending_token i"
  by (simp_all add: scalar_token_def reservation_token_def pending_token_def)

lemma scalar_token_inject [simp]: "scalar_token u = scalar_token v \<longleftrightarrow> u = v"
  by (simp add: scalar_token_def)

lemma adjust_up_effect:
  assumes "rs_inv s" and "distinct us"
    and "\<And>u. u \<in> set us \<Longrightarrow> scalar_token u \<notin> set (rs_available s) \<union> set (rs_consumed s)"
  shows "rs_inv (adjust_up us s) \<and> pendingPrompts (adjust_up us s) = pendingPrompts s + length us \<and>
     set (rs_available (adjust_up us s)) = set (rs_available s) \<union> scalar_token ` set us \<and>
     rs_consumed (adjust_up us s) = rs_consumed s"
  using assms
proof (induction us arbitrary: s)
  case Nil
  then show ?case by simp
next
  case (Cons u us)
  let ?s = "add_anonymous (scalar_token u) s"
  have u: "scalar_token u \<notin> set (rs_available s)" "scalar_token u \<notin> set (rs_consumed s)" using Cons.prems(3) by auto
  have inv: "rs_inv ?s" using Cons.prems(1) u by (rule rs_inv_add_anonymous) simp
  have f: "set (rs_available ?s) = insert (scalar_token u) (set (rs_available s))" "rs_consumed ?s = rs_consumed s"
    "pendingPrompts ?s = Suc (pendingPrompts s)"
    using u by (simp_all add: add_anonymous_def pendingPrompts_def set_add_new)
  have "v \<in> set us \<Longrightarrow> scalar_token v \<notin> set (rs_available ?s) \<union> set (rs_consumed ?s)" for v
    using Cons.prems(2,3) f by auto
  then have "rs_inv (adjust_up us ?s) \<and> pendingPrompts (adjust_up us ?s) = pendingPrompts ?s + length us \<and>
     set (rs_available (adjust_up us ?s)) = set (rs_available ?s) \<union> scalar_token ` set us \<and>
     rs_consumed (adjust_up us ?s) = rs_consumed ?s"
    using Cons.prems(2) by (intro Cons.IH [OF inv]) auto
  moreover have "adjust_up (u # us) s = adjust_up us ?s" by (simp add: scalar_token_def)
  ultimately show ?case using f by auto
qed

section \<open>Restoring a snapshot\<close>

lemma foldl_restore_active:
  assumes "wf_map m" and "\<And>r e. (r, e) \<in> set m \<Longrightarrow> res_id e = r \<and> res_token e \<notin> set (rs_consumed s)"
    and "\<And>r. r \<in> fst ` set m \<Longrightarrow> map_get (rs_active s) r = None"
    and "distinct (map (res_token \<circ> snd) m)" and "\<And>r e. (r, e) \<in> set m \<Longrightarrow> res_token e \<notin> set (rs_available s)"
  shows "foldl restore_active s (map snd m) =
    s\<lparr>rs_active := rs_active s @ m, rs_available := rs_available s @ map (res_token \<circ> snd) m\<rparr>"
  using assms
proof (induction m arbitrary: s)
  case Nil
  then show ?case by simp
next
  case (Cons x m)
  obtain r e where x: "x = (r, e)" by (cases x)
  have re: "res_id e = r" "res_token e \<notin> set (rs_consumed s)" "map_get (rs_active s) r = None"
    "res_token e \<notin> set (rs_available s)"
    using Cons.prems(2) [of r e] Cons.prems(3) [of r] Cons.prems(5) [of r e] x by simp_all
  let ?s = "s\<lparr>rs_active := rs_active s @ [(r, e)], rs_available := rs_available s @ [res_token e]\<rparr>"
  have step: "restore_active s e = ?s"
    using re by (simp add: restore_active_def set_has_def map_set_fresh set_add_new)
  have fresh: "r' \<in> fst ` set m \<Longrightarrow> map_get (rs_active ?s) r' = None" for r'
    using Cons.prems(1,3) x by (auto simp: wf_map_def map_get_def map_add_def map_of_eq_None_iff split: option.splits)
  have "foldl restore_active ?s (map snd m) =
    ?s\<lparr>rs_active := rs_active ?s @ m, rs_available := rs_available ?s @ map (res_token \<circ> snd) m\<rparr>"
  proof (rule Cons.IH)
    show "wf_map m" using Cons.prems(1) x by (simp add: wf_map_def)
    show "\<And>r e. (r, e) \<in> set m \<Longrightarrow> res_id e = r \<and> res_token e \<notin> set (rs_consumed ?s)"
    proof -
      fix r e assume "(r, e) \<in> set m"
      then show "res_id e = r \<and> res_token e \<notin> set (rs_consumed ?s)" using Cons.prems(2) [of r e] by simp
    qed
    show "\<And>r. r \<in> fst ` set m \<Longrightarrow> map_get (rs_active ?s) r = None" by (rule fresh)
    show "distinct (map (res_token \<circ> snd) m)" using Cons.prems(4) by (simp add: comp_def)
    show "\<And>r e. (r, e) \<in> set m \<Longrightarrow> res_token e \<notin> set (rs_available ?s)"
      using Cons.prems(4,5) x by force
  qed
  then show ?case using step x by simp
qed

lemma foldl_restore_released:
  assumes "wf_map m" and "\<And>r g. (r, g) \<in> set m \<Longrightarrow> 0 \<le> g \<and> map_get (rs_released s) r = None \<and>
      (\<forall>e. map_get (rs_active s) r = Some e \<longrightarrow> g < res_generation e)"
  shows "foldl restore_released s m = s\<lparr>rs_released := rs_released s @ m\<rparr>"
  using assms
proof (induction m arbitrary: s)
  case Nil
  then show ?case by simp
next
  case (Cons x m)
  obtain r g where x: "x = (r, g)" by (cases x)
  have rg: "0 \<le> g" "map_get (rs_released s) r = None" "\<forall>e. map_get (rs_active s) r = Some e \<longrightarrow> g < res_generation e"
    using Cons.prems(2) [of r g] x by auto
  have step: "restore_released s x = s\<lparr>rs_released := rs_released s @ [(r, g)]\<rparr>"
    using rg x by (auto simp: restore_released_def Let_def map_set_fresh split: option.splits)
  have "foldl restore_released (s\<lparr>rs_released := rs_released s @ [(r, g)]\<rparr>) m =
    (s\<lparr>rs_released := rs_released s @ [(r, g)]\<rparr>)\<lparr>rs_released := rs_released (s\<lparr>rs_released := rs_released s @ [(r, g)]\<rparr>) @ m\<rparr>"
  proof (rule Cons.IH)
    show "wf_map m" using Cons.prems(1) x by (simp add: wf_map_def)
    fix r' g' assume m: "(r', g') \<in> set m"
    then have "r' \<noteq> r" using Cons.prems(1) x by (force simp: wf_map_def)
    then show "0 \<le> g' \<and> map_get (rs_released (s\<lparr>rs_released := rs_released s @ [(r, g)]\<rparr>)) r' = None \<and>
      (\<forall>e. map_get (rs_active (s\<lparr>rs_released := rs_released s @ [(r, g)]\<rparr>)) r' = Some e \<longrightarrow> g' < res_generation e)"
      using Cons.prems(2) [of r' g'] m by (auto simp: map_get_def map_add_def split: option.splits)
  qed
  then show ?case using step x by simp
qed

lemma foldl_restore_anonymous:
  assumes "distinct ts" and "set ts \<inter> set (rs_consumed s) = {}"
    and "set ts \<inter> set (rs_anonymous s) = {}" and "set ts \<inter> set (rs_available s) = {}"
  shows "foldl restore_anonymous s ts = s\<lparr>rs_anonymous := rs_anonymous s @ ts, rs_available := rs_available s @ ts\<rparr>"
  using assms
  by (induction ts arbitrary: s) (auto simp: restore_anonymous_def set_has_def set_add_new)

lemma math_trunc_of_nat [simp]: "math_trunc (of_nat n) = int n"
  by (simp add: math_trunc_def)

lemma set_add_all_distinct: "distinct (s @ xs) \<Longrightarrow> set_add_all s xs = s @ xs"
  by (induction xs arbitrary: s) (auto simp: set_add_all_def set_add_new)

lemma restore_snapshot:
  assumes "rs_inv s"
  shows "newPromptReservationState (of_nat (pendingPrompts s)) (Some (snapshot s)) =
    s\<lparr>rs_available := active_tokens s @ rs_anonymous s\<rparr>"
proof -
  note d = rs_invD [OF assms]
  let ?s0 = "empty_reservations\<lparr>rs_consumed := rs_consumed s\<rparr>"
  have at: "active_tokens s = map (res_token \<circ> snd) (rs_active s)"
    by (simp add: active_tokens_def map_values_def)
  have entry: "(r, e) \<in> set (rs_active s) \<Longrightarrow> map_get (rs_active s) r = Some e" for r e
    using d(1) by (simp add: map_get_eq_in_set)
  have "foldl restore_active ?s0 (map snd (rs_active s)) =
     ?s0\<lparr>rs_active := rs_active ?s0 @ rs_active s, rs_available := rs_available ?s0 @ map (res_token \<circ> snd) (rs_active s)\<rparr>"
  proof (rule foldl_restore_active)
    fix r e assume re: "(r, e) \<in> set (rs_active s)"
    show "res_id e = r \<and> res_token e \<notin> set (rs_consumed ?s0)"
      using d(6) [OF entry [OF re]] in_active_tokens [OF entry [OF re]] d(9,12) by auto
  qed (use d(1,11) at in \<open>auto simp: empty_reservations_def\<close>)
  then have act: "foldl restore_active ?s0 (map snd (rs_active s)) =
     ?s0\<lparr>rs_active := rs_active s, rs_available := active_tokens s\<rparr>"
    by (simp add: empty_reservations_def at)
  let ?s1 = "?s0\<lparr>rs_active := rs_active s, rs_available := active_tokens s\<rparr>"
  have "foldl restore_released ?s1 (rs_released s) = ?s1\<lparr>rs_released := rs_released ?s1 @ rs_released s\<rparr>"
  proof (rule foldl_restore_released [OF d(2)])
    fix r g assume "(r, g) \<in> set (rs_released s)"
    then have g: "map_get (rs_released s) r = Some g" using d(2) by (simp add: map_get_eq_in_set)
    show "0 \<le> g \<and> map_get (rs_released ?s1) r = None \<and> (\<forall>e. map_get (rs_active ?s1) r = Some e \<longrightarrow> g < res_generation e)"
      using d(8) [OF g] d(7) [of r] g by (auto simp: empty_reservations_def)
  qed
  then have rel: "foldl restore_released ?s1 (rs_released s) = ?s1\<lparr>rs_released := rs_released s\<rparr>"
    by (simp add: empty_reservations_def)
  let ?s2 = "?s1\<lparr>rs_released := rs_released s\<rparr>"
  have "foldl restore_anonymous ?s2 (rs_anonymous s) =
     ?s2\<lparr>rs_anonymous := rs_anonymous ?s2 @ rs_anonymous s, rs_available := rs_available ?s2 @ rs_anonymous s\<rparr>"
    using d(4,9,10,12) by (intro foldl_restore_anonymous) (auto simp: empty_reservations_def)
  then have anon: "foldl restore_anonymous ?s2 (rs_anonymous s) = s\<lparr>rs_available := active_tokens s @ rs_anonymous s\<rparr>"
    by (simp add: empty_reservations_def)
  have cons: "set_add_all (rs_consumed empty_reservations) (rs_consumed s) = rs_consumed s"
    using d(5) by (simp add: empty_reservations_def set_add_all_distinct)
  have len: "length (active_tokens s @ rs_anonymous s) = pendingPrompts s"
    using length_available [OF assms] by (simp add: active_tokens_def map_values_def)
  have "newPromptReservationState (of_nat (pendingPrompts s)) (Some (snapshot s)) =
      fill_pending (int (pendingPrompts s)) 0 (s\<lparr>rs_available := active_tokens s @ rs_anonymous s\<rparr>)"
    by (simp add: newPromptReservationState_def snapshot_def Let_def cons map_values_def act rel anon)
  then show ?thesis using len by (subst (asm) fill_pending.simps) (simp add: pendingPrompts_def)
qed

section \<open>Histories of a state\<close>

lemma rs_inv_empty: "rs_inv empty_reservations"
  by (simp add: rs_inv_def empty_reservations_def active_tokens_def map_values_def)

lemma fill_pending_effect:
  assumes "rs_inv s" and "rs_consumed s = []" and "set (rs_available s) \<subseteq> range pending_token"
  shows "rs_inv (fill_pending target i s) \<and> rs_consumed (fill_pending target i s) = [] \<and>
    set (rs_available (fill_pending target i s)) \<subseteq> range pending_token \<and>
    int (pendingPrompts (fill_pending target i s)) = max target (int (pendingPrompts s))"
  using assms
proof (induction target i s rule: fill_pending.induct)
  case (1 target i s)
  show ?case
  proof (cases "int (length (rs_available s)) < target")
    case True
    let ?t = "nextPendingToken (rs_available s) i"
    obtain j where j: "?t = pending_token j" using nextPendingToken_form by blast
    have inv: "rs_inv (add_anonymous ?t s)"
      using "1.prems" nextPendingToken_fresh [of "rs_available s" i] j by (intro rs_inv_add_anonymous) auto
    have "rs_consumed (add_anonymous ?t s) = []" "set (rs_available (add_anonymous ?t s)) \<subseteq> range pending_token"
      using "1.prems" j by (auto simp: add_anonymous_def)
    note ih = "1.IH" [OF True inv this]
    have "fill_pending target i s = fill_pending target (Suc i) (add_anonymous ?t s)"
      using True by (subst fill_pending.simps) simp
    then show ?thesis using ih True length_available_add_anonymous [of s i] by (simp add: pendingPrompts_def)
  next
    case False
    then have "fill_pending target i s = s" by (subst fill_pending.simps) simp
    then show ?thesis using "1.prems" False by (simp add: pendingPrompts_def)
  qed
qed

lemma new_state_effect:
  "rs_inv (newPromptReservationState p None)"
  "rs_consumed (newPromptReservationState p None) = []"
  "set (rs_available (newPromptReservationState p None)) \<subseteq> range pending_token"
  "int (pendingPrompts (newPromptReservationState p None)) = max 0 (math_trunc p)"
  using fill_pending_effect [OF rs_inv_empty, of "max 0 (math_trunc p)" 0]
  by (auto simp: newPromptReservationState_def empty_reservations_def pendingPrompts_def)

datatype reservation_op =
    Reserve string
  | Claim string
  | Release string reservation
  | Adjust rat
  | Reload

text \<open>
  One operation of the backend: \<open>Reload\<close> is the rebuilding of the state from its own snapshot and
  the persisted count, which \<open>promptChange\<close> does before every change. The second component
  counts the random UUIDs drawn so far.
\<close>

definition reservation_step :: "(nat \<Rightarrow> string) \<Rightarrow> reservations \<times> nat \<Rightarrow> reservation_op \<Rightarrow> reservations \<times> nat" where
  "reservation_step uuid st op = (case st of (s, k) \<Rightarrow> (case op of
      Reserve r \<Rightarrow> (snd (reserve r s), k)
    | Claim r \<Rightarrow> (snd (claim r s), k)
    | Release r token \<Rightarrow> (release_reservation r token s, k)
    | Adjust delta \<Rightarrow> (adjust delta (\<lambda>i. uuid (k + i)) s, k + nat (max 0 (math_trunc \<bar>delta\<bar>)))
    | Reload \<Rightarrow> (newPromptReservationState (of_nat (pendingPrompts s)) (Some (snapshot s)), k)))"

definition history_inv :: "(nat \<Rightarrow> string) \<Rightarrow> reservations \<times> nat \<Rightarrow> bool" where
  "history_inv uuid st \<longleftrightarrow> rs_inv (fst st) \<and>
    (\<forall>u. scalar_token u \<in> set (rs_available (fst st)) \<union> set (rs_consumed (fst st)) \<longrightarrow> u \<in> uuid ` {..<snd st})"

lemma tokens_reserve:
  assumes "rs_inv s"
  shows "set (rs_available (snd (reserve r s))) \<union> set (rs_consumed (snd (reserve r s)))
    \<subseteq> set (rs_available s) \<union> set (rs_consumed s) \<union> {reservation_token r (next_generation s r)}"
proof (cases "map_get (rs_active s) r")
  case None
  then show ?thesis using reserve_inactive [OF assms None] chosen_token_cases [of s r] rs_invD(9) [OF assms]
    by (auto simp: bind_token_def)
next
  case (Some e)
  then show ?thesis by (auto simp: reserve_def)
qed

lemma tokens_release:
  assumes "rs_inv s"
  shows "set (rs_available (release_reservation r token s)) \<union> set (rs_consumed (release_reservation r token s))
    \<subseteq> set (rs_available s) \<union> set (rs_consumed s)"
proof (cases "map_get (rs_active s) r = Some token \<and> res_id token = r")
  case True
  then have "res_token token \<in> set (rs_available s)"
    using in_active_tokens [of s r token] rs_invD(9) [OF assms] by auto
  then show ?thesis using True assms by (auto simp: release_reservation_cases retire_def consume_def)
next
  case False
  then show ?thesis using assms by (auto simp: release_reservation_cases)
qed

lemma rs_inv_reload:
  assumes "rs_inv s"
  shows "rs_inv (s\<lparr>rs_available := active_tokens s @ rs_anonymous s\<rparr>)"
  using assms unfolding rs_inv_def by (auto simp: active_tokens_def generation_used_def)

lemma adjust_effect:
  fixes delta :: rat
  assumes "history_inv uuid (s, k)" and "inj uuid"
  defines "n \<equiv> nat (max 0 (math_trunc \<bar>delta\<bar>))"
  defines "s' \<equiv> adjust delta (\<lambda>i. uuid (k + i)) s"
  shows "rs_inv s' \<and> pendingPrompts s' = (if delta > 0 then pendingPrompts s + n else pendingPrompts s - n) \<and>
    set (rs_available s') \<union> set (rs_consumed s') \<subseteq> set (rs_available s) \<union> set (rs_consumed s) \<union> scalar_token ` uuid ` {k..<k + n}"
proof -
  have inv: "rs_inv s" using assms(1) by (simp add: history_inv_def)
  consider "delta > 0" | "delta < 0" | "delta = 0" by linarith
  then show ?thesis
  proof cases
    case 1
    let ?us = "map (\<lambda>i. uuid (k + i)) [0..<n]"
    have "inj_on (\<lambda>i. uuid (k + i)) {0..<n}"
      by (rule inj_onI) (metis \<open>inj uuid\<close> add_left_imp_eq injD)
    then have d: "distinct ?us" by (simp add: distinct_map)
    have us: "set ?us = uuid ` {k..<k + n}" 
    proof -
      have "(+) k ` {0..<n} = {k..<k + n}" by (simp add: add.commute)
      then have "uuid ` {k..<k + n} = (\<lambda>i. uuid (k + i)) ` {0..<n}" by (metis image_image)
      then show ?thesis by simp
    qed
    have "u \<in> set ?us \<Longrightarrow> scalar_token u \<notin> set (rs_available s) \<union> set (rs_consumed s)" for u
      using assms(1) us \<open>inj uuid\<close> by (fastforce simp: history_inv_def inj_def)
    then have "rs_inv (adjust_up ?us s) \<and> pendingPrompts (adjust_up ?us s) = pendingPrompts s + length ?us \<and>
     set (rs_available (adjust_up ?us s)) = set (rs_available s) \<union> scalar_token ` set ?us \<and>
     rs_consumed (adjust_up ?us s) = rs_consumed s" by (rule adjust_up_effect [OF inv d])
    moreover have "s' = adjust_up ?us s" using 1 by (simp add: s'_def adjust_def n_def Let_def)
    ultimately show ?thesis using 1 us by auto
  next
    case 2
    then have "s' = adjust_down n s" by (simp add: s'_def adjust_def n_def Let_def)
    then show ?thesis using 2 adjust_down_effect [OF inv, of n] by auto
  next
    case 3
    then have "s' = s" "n = 0" by (simp_all add: s'_def n_def adjust_def math_trunc_def)
    then show ?thesis using inv 3 by simp
  qed
qed

lemma history_invI:
  assumes "rs_inv s'" and "history_inv uuid (s, k)"
    and "set (rs_available s') \<union> set (rs_consumed s') \<subseteq> set (rs_available s) \<union> set (rs_consumed s) \<union> T"
    and "\<And>u. scalar_token u \<in> T \<Longrightarrow> u \<in> uuid ` {k..<k'}" and "k \<le> k'"
  shows "history_inv uuid (s', k')"
  unfolding history_inv_def fst_conv snd_conv
proof (intro conjI allI impI)
  fix u
  assume "scalar_token u \<in> set (rs_available s') \<union> set (rs_consumed s')"
  then have "scalar_token u \<in> set (rs_available s) \<union> set (rs_consumed s) \<or> scalar_token u \<in> T"
    using assms(3) by blast
  then have "u \<in> uuid ` {..<k} \<or> u \<in> uuid ` {k..<k'}"
    using assms(2,4) by (auto simp: history_inv_def)
  then show "u \<in> uuid ` {..<k'}" using assms(5) by auto
qed (rule assms(1))

lemma history_inv_step:
  assumes h: "history_inv uuid st" and "inj uuid"
  shows "history_inv uuid (reservation_step uuid st op)"
proof -
  obtain s k where st: "st = (s, k)" by (cases st)
  have h: "history_inv uuid (s, k)" and inv: "rs_inv s" using h st by (simp_all add: history_inv_def)
  have res: "history_inv uuid (snd (reserve r s), k)" for r
    using rs_inv_reserve [OF inv] h tokens_reserve [OF inv] by (rule history_invI) auto
  show ?thesis
  proof (cases op)
    case (Reserve r)
    then show ?thesis using res st by (simp add: reservation_step_def)
  next
    case (Claim r)
    have "snd (claim r s) = s \<or> snd (claim r s) = snd (reserve r s)"
      by (auto simp: claim_def Let_def split: option.splits prod.splits)
    then show ?thesis using res [of r] h st Claim by (auto simp: reservation_step_def)
  next
    case (Release r token)
    have "history_inv uuid (release_reservation r token s, k)"
      using rs_inv_release [OF inv] h by (rule history_invI [where T = "{}"]) (use tokens_release [OF inv] in auto)
    then show ?thesis using st Release by (simp add: reservation_step_def)
  next
    case (Adjust delta)
    note a = adjust_effect [OF h \<open>inj uuid\<close>, of delta]
    have "history_inv uuid (adjust delta (\<lambda>i. uuid (k + i)) s, k + nat (max 0 (math_trunc \<bar>delta\<bar>)))"
      by (rule history_invI [OF _ h, where T = "scalar_token ` uuid ` {k..<k + nat (max 0 (math_trunc \<bar>delta\<bar>))}"])
        (use a in auto)
    then show ?thesis using st Adjust by (simp add: reservation_step_def)
  next
    case Reload
    have "history_inv uuid (s\<lparr>rs_available := active_tokens s @ rs_anonymous s\<rparr>, k)"
      using rs_inv_reload [OF inv] h
      by (rule history_invI [where T = "{}"]) (use rs_invD(9) [OF inv] in auto)
    then show ?thesis using st Reload restore_snapshot [OF inv] by (simp add: reservation_step_def)
  qed
qed

lemma history_system:
  assumes "inj uuid"
  shows "step_system (reservation_step uuid) (newPromptReservationState p None, 0) (history_inv uuid)"
proof unfold_locales
  show "history_inv uuid (newPromptReservationState p None, 0)"
    using new_state_effect [of p] token_forms(2) by (fastforce simp: history_inv_def)
qed (rule history_inv_step [OF _ assms])

definition history :: "(nat \<Rightarrow> string) \<Rightarrow> rat \<Rightarrow> reservation_op list \<Rightarrow> reservations" where
  "history uuid p ops = fst (foldl (reservation_step uuid) (newPromptReservationState p None, 0) ops)"

lemma rs_inv_history: "inj uuid \<Longrightarrow> rs_inv (history uuid p ops)"
  using step_system.inv_run [OF history_system, of uuid p ops] by (simp add: history_def history_inv_def)

text \<open>What a released reservation leaves behind, and what reserving it again gives.\<close>

lemma retire_then_reserve:
  assumes "rs_inv s" and "map_get (rs_active s) r = Some e"
  shows "fst (reserve r (retire r e s)) =
    \<lparr>res_id = r, res_generation = res_generation e + 1, res_token = reservation_token r (res_generation e + 1)\<rparr>"
proof -
  have none: "map_get (rs_active (retire r e s)) r = None" by (simp add: retire_def consume_def)
  have rel: "map_get (rs_released (retire r e s)) r = Some (res_generation e)" by (simp add: retire_def consume_def)
  have pos: "0 < res_generation e" using rs_invD(7) [OF assms] released_nonneg [OF assms(1), of r] by linarith
  then have "next_generation (retire r e s) r = res_generation e + 1"
    using rel by (simp add: next_generation_def)
  moreover have "map_has (rs_released (retire r e s)) r" using rel by (simp add: map_has_get)
  ultimately show ?thesis
    using reserve_inactive [OF rs_inv_retire [OF assms] none] by (simp add: chosen_token_def)
qed

lemma pendingPrompts_retire:
  assumes "rs_inv s" and "map_get (rs_active s) r = Some e"
  shows "Suc (pendingPrompts (retire r e s)) = pendingPrompts s"
  using in_active_tokens [OF assms(2)] rs_invD(3,9) [OF assms(1)]
  by (simp add: pendingPrompts_def retire_def consume_def length_set_delete)

section \<open>What the tokens guarantee\<close>

text \<open>
  C39. The count of pending prompts is the number of reservations held plus the number of anonymous
  tokens, after any history of reserving, claiming, releasing, adjusting and reloading: every
  available token is exactly one of these, no reservation shares its token with another, and a
  consumed token is never available again.
\<close>

theorem pending_prompts_accounted:
  assumes "inj uuid" and "s = history uuid p ops"
  shows "pendingPrompts s = length (rs_active s) + length (rs_anonymous s) \<and>
    distinct (active_tokens s @ rs_anonymous s) \<and>
    set (rs_available s) = set (active_tokens s @ rs_anonymous s) \<and>
    set (rs_consumed s) \<inter> set (rs_available s) = {}"
proof -
  have inv: "rs_inv s" unfolding assms(2) using assms(1) by (rule rs_inv_history)
  note d = rs_invD [OF inv]
  show ?thesis using length_available [OF inv] d(4,9-12) by auto
qed

definition sample_ops :: "reservation_op list" where
  "sample_ops = [Reserve ''a'', Reserve ''b:'', Adjust 2, Reload, Claim ''c'',
     Release ''b:'' \<lparr>res_id = ''b:'', res_generation = 1, res_token = ''reservation:b%3A:1''\<rparr>, Adjust (- 1)]"

theorem pending_prompts_accounted_witness:
  "inj nat_dec \<and> pendingPrompts (history nat_dec 1 sample_ops) = 2 \<and>
   rs_consumed (history nat_dec 1 sample_ops) = [''reservation:b%3A:1'', ''scalar:1''] \<and>
   set (rs_consumed (history nat_dec 1 sample_ops)) \<inter> set (rs_available (history nat_dec 1 sample_ops)) = {}"
proof -
  have i: "inj nat_dec" by (rule injI) simp
  have "pendingPrompts (history nat_dec 1 sample_ops) = 2"
    "rs_consumed (history nat_dec 1 sample_ops) = [''reservation:b%3A:1'', ''scalar:1'']" by code_simp+
  then show ?thesis using i pending_prompts_accounted [OF i refl, of 1 sample_ops] by blast
qed

text \<open>
  Rebuilding the state from its snapshot and its count gives the state back: the same
  reservations, tombstones, anonymous and consumed tokens and the same set of available ones; so
  the journal may hold the snapshot instead of the state.
\<close>

theorem snapshot_roundtrip:
  assumes "inj uuid" and "s = history uuid p ops"
    and "s' = newPromptReservationState (of_nat (pendingPrompts s)) (Some (snapshot s))"
  shows "snapshot s' = snapshot s \<and> set (rs_available s') = set (rs_available s) \<and> pendingPrompts s' = pendingPrompts s"
proof -
  have inv: "rs_inv s" unfolding assms(2) using assms(1) by (rule rs_inv_history)
  have s': "s' = s\<lparr>rs_available := active_tokens s @ rs_anonymous s\<rparr>" unfolding assms(3) by (rule restore_snapshot [OF inv])
  have "length (active_tokens s @ rs_anonymous s) = pendingPrompts s"
    using length_available [OF inv] by (simp add: active_tokens_def map_values_def)
  then show ?thesis using rs_invD(9) [OF inv] by (auto simp: s' snapshot_def pendingPrompts_def)
qed

theorem snapshot_roundtrip_witness:
  "inj nat_dec \<and> snapshot (newPromptReservationState (of_nat (pendingPrompts (history nat_dec 1 sample_ops)))
     (Some (snapshot (history nat_dec 1 sample_ops)))) = snapshot (history nat_dec 1 sample_ops)"
proof -
  have i: "inj nat_dec" by (rule injI) simp
  show ?thesis using i snapshot_roundtrip [OF i refl refl, of 1 sample_ops] by blast
qed

text \<open>
  Ownership: \<open>release\<close> changes the state exactly for the token its reservation holds. It then
  frees one pending prompt, and reserving the same identity again gives the next generation with a
  token of its own, which the old token cannot release.
\<close>

theorem release_needs_current_token:
  assumes "inj uuid" and "s = history uuid p ops" and "s' = release_reservation r token s"
  shows "(activeToken r s \<noteq> Some token \<longrightarrow> s' = s) \<and>
    (activeToken r s = Some token \<longrightarrow>
       activeToken r s' = None \<and> Suc (pendingPrompts s') = pendingPrompts s \<and>
       res_token token \<in> set (rs_consumed s') \<and>
       (case reserve r s' of (token', s'') \<Rightarrow>
          res_generation token' = res_generation token + 1 \<and> res_token token' \<noteq> res_token token \<and>
          activeToken r s'' = Some token' \<and> release_reservation r token s'' = s''))"
proof -
  have inv: "rs_inv s" unfolding assms(2) using assms(1) by (rule rs_inv_history)
  have "activeToken r s \<noteq> Some token \<Longrightarrow> s' = s"
    using inv by (auto simp: assms(3) release_reservation_cases activeToken_def)
  moreover have "activeToken r s' = None \<and> Suc (pendingPrompts s') = pendingPrompts s \<and>
       res_token token \<in> set (rs_consumed s') \<and>
       (case reserve r s' of (token', s'') \<Rightarrow>
          res_generation token' = res_generation token + 1 \<and> res_token token' \<noteq> res_token token \<and>
          activeToken r s'' = Some token' \<and> release_reservation r token s'' = s'')"
    if "activeToken r s = Some token"
  proof -
    have act: "map_get (rs_active s) r = Some token" using that by (simp add: activeToken_def)
    have s': "s' = retire r token s"
      using act rs_invD(6) [OF inv act] inv by (simp add: assms(3) release_reservation_cases)
    obtain token' s'' where re: "reserve r s' = (token', s'')" by (cases "reserve r s'")
    have tok: "token' = \<lparr>res_id = r, res_generation = res_generation token + 1, res_token = reservation_token r (res_generation token + 1)\<rparr>"
      using retire_then_reserve [OF inv act] re s' by simp
    have inv': "rs_inv s'" unfolding s' using inv act by (rule rs_inv_retire)
    have none: "map_get (rs_active s') r = None" by (simp add: s' retire_def consume_def)
    have act'': "map_get (rs_active s'') r = Some token'"
      using reserve_inactive [OF inv' none] re by (auto simp: bind_token_def)
    have inv'': "rs_inv s''" using rs_inv_reserve [OF inv', of r] re by simp
    have "res_token token \<in> set (rs_consumed s')" by (simp add: s' retire_def consume_def)
    moreover have "reservation_token r (res_generation token + 1) \<notin> set (rs_consumed s')"
      using own_token_unused [OF inv' none] reserve_inactive [OF inv' none] re tok by auto
    ultimately have "res_token token' \<noteq> res_token token" using tok by auto
    moreover have "release_reservation r token s'' = s''"
    proof -
      have "res_generation token' \<noteq> res_generation token" using tok by simp
      then have "token' \<noteq> token" by auto
      then show ?thesis using act'' inv'' by (simp add: release_reservation_cases)
    qed
    ultimately show ?thesis
      using none act'' tok re pendingPrompts_retire [OF inv act]
      by (simp add: activeToken_def s') (simp add: retire_def consume_def)
  qed
  ultimately show ?thesis by blast
qed

theorem release_needs_current_token_witness:
  "activeToken ''a'' (history nat_dec 1 [Reserve ''a'']) =
     Some \<lparr>res_id = ''a'', res_generation = 1, res_token = ''pending:0''\<rparr> \<and>
   pendingPrompts (release_reservation ''a'' \<lparr>res_id = ''a'', res_generation = 1, res_token = ''pending:0''\<rparr>
     (history nat_dec 1 [Reserve ''a''])) = 0"
proof -
  have i: "inj nat_dec" by (rule injI) simp
  have a: "activeToken ''a'' (history nat_dec 1 [Reserve ''a'']) =
     Some \<lparr>res_id = ''a'', res_generation = 1, res_token = ''pending:0''\<rparr>" by code_simp
  have "pendingPrompts (history nat_dec 1 [Reserve ''a'']) = 1" by code_simp
  then show ?thesis
    using a release_needs_current_token [OF i refl refl, of "''a''" 1 "[Reserve ''a'']"
        "\<lparr>res_id = ''a'', res_generation = 1, res_token = ''pending:0''\<rparr>"] by simp
qed

text \<open>
  \<open>adjust\<close> moves the count by the truncated amount: upwards by exactly that many fresh tokens,
  downwards by consuming that many or all of them, never below zero.
\<close>

theorem adjust_moves_count:
  assumes "inj uuid" and "st = foldl (reservation_step uuid) (newPromptReservationState p None, 0) ops"
  shows "int (pendingPrompts (fst (reservation_step uuid st (Adjust delta)))) =
    max 0 (int (pendingPrompts (fst st)) + math_trunc delta)"
proof -
  obtain s k where st: "st = (s, k)" by (cases st)
  have h: "history_inv uuid (s, k)"
    using step_system.inv_run [OF history_system [OF assms(1)], of p ops] assms(2) st by simp
  have "math_trunc \<bar>delta\<bar> = \<bar>math_trunc delta\<bar>"
  proof -
    consider "0 \<le> delta" | "delta < 0" by linarith
    then show ?thesis
    proof cases
      case 1
      then show ?thesis by (simp add: math_trunc_def)
    next
      case 2
      then have "\<lceil>delta\<rceil> \<le> 0" by (simp add: ceiling_le_iff)
      then show ?thesis using 2 by (simp add: math_trunc_def ceiling_def)
    qed
  qed
  moreover have "delta > 0 \<Longrightarrow> 0 \<le> math_trunc delta" "\<not> delta > 0 \<Longrightarrow> math_trunc delta \<le> 0"
    by (auto simp: math_trunc_def ceiling_le_iff)
  ultimately show ?thesis
    using adjust_effect [OF h assms(1), of delta] by (simp add: st reservation_step_def split: if_splits)
qed

theorem adjust_moves_count_witness:
  "inj nat_dec \<and> int (pendingPrompts (fst (reservation_step nat_dec
     (foldl (reservation_step nat_dec) (newPromptReservationState 2 None, 0) [Reserve ''a'']) (Adjust (- 7 / 2))))) = 0"
proof -
  have i: "inj nat_dec" by (rule injI) simp
  have "pendingPrompts (fst (foldl (reservation_step nat_dec) (newPromptReservationState 2 None, 0) [Reserve ''a''])) = 2"
    "math_trunc (- 7 / 2) = - 3" by code_simp+
  then show ?thesis using i adjust_moves_count [OF i refl, of 2 "[Reserve ''a'']" "- 7 / 2"] by simp
qed

section \<open>Tombstones win\<close>

lemma restore_active_entries:
  assumes "map_get (rs_active (foldl restore_active s es)) r = Some e"
    and "\<And>r e. map_get (rs_active s) r = Some e \<Longrightarrow> res_id e = r \<and> res_token e \<notin> set (rs_consumed s) \<and> (e \<in> A)"
    and "set es \<subseteq> A"
  shows "res_id e = r \<and> res_token e \<notin> set (rs_consumed s) \<and> e \<in> A"
  using assms
proof (induction es arbitrary: s)
  case Nil
  then show ?case by simp
next
  case (Cons x es)
  have c: "rs_consumed (restore_active s x) = rs_consumed s"
    by (auto simp: restore_active_def Let_def split: option.splits)
  have "map_get (rs_active (restore_active s x)) r = Some e \<Longrightarrow>
      res_id e = r \<and> res_token e \<notin> set (rs_consumed (restore_active s x)) \<and> e \<in> A" for r e
    using Cons.prems(2) [of r e] Cons.prems(3) unfolding c
    by (auto simp: restore_active_def set_has_def Let_def split: if_splits option.splits)
  then have "res_id e = r \<and> res_token e \<notin> set (rs_consumed (restore_active s x)) \<and> e \<in> A"
    using Cons.prems(1,3) by (intro Cons.IH) auto
  then show ?case by (simp add: c)
qed

lemma restore_active_frame:
  "rs_consumed (foldl restore_active s es) = rs_consumed s" "rs_released (foldl restore_active s es) = rs_released s"
  by (induction es arbitrary: s) (auto simp: restore_active_def Let_def split: option.splits)

lemma restore_released_step:
  "map_get (rs_active (restore_released s (r', g'))) r = Some e \<longleftrightarrow>
     map_get (rs_active s) r = Some e \<and> (r = r' \<longrightarrow> max (or_else (map_get (rs_released s) r') 0) g' < res_generation e)"
  "map_get (rs_released (restore_released s (r', g'))) r =
     (if r = r' then Some (max (or_else (map_get (rs_released s) r') 0) g') else map_get (rs_released s) r)"
  by (auto simp: restore_released_def Let_def split: option.splits)

lemma restore_released_entries:
  "map_get (rs_active (foldl restore_released s rs)) r = Some e \<Longrightarrow>
     map_get (rs_active s) r = Some e \<and> (\<forall>g. (r, g) \<in> set rs \<longrightarrow> g < res_generation e)"
proof (induction rs arbitrary: s)
  case Nil
  then show ?case by simp
next
  case (Cons x rs)
  obtain r' g' where x: "x = (r', g')" by (cases x)
  have "map_get (rs_active (restore_released s x)) r = Some e \<and> (\<forall>g. (r, g) \<in> set rs \<longrightarrow> g < res_generation e)"
    using Cons by simp
  then show ?case using x by (auto simp: restore_released_step)
qed

lemma restore_anonymous_frame:
  "rs_active (foldl restore_anonymous s ts) = rs_active s" "rs_consumed (foldl restore_anonymous s ts) = rs_consumed s"
  by (induction ts arbitrary: s) (auto simp: restore_anonymous_def)

lemma fill_pending_frame:
  "rs_active (fill_pending n i s) = rs_active s" "rs_consumed (fill_pending n i s) = rs_consumed s"
proof (induction n i s rule: fill_pending.induct)
  case (1 n i s)
  {
    case 1
    show ?case using "1.IH"(1) by (subst fill_pending.simps) (simp add: add_anonymous_def)
  next
    case 2
    show ?case using "1.IH"(2) by (subst fill_pending.simps) (simp add: add_anonymous_def)
  }
qed

lemma wf_restored:
  "wf_map (rs_active s) \<Longrightarrow> wf_map (rs_active (foldl restore_released (foldl restore_active s es) rs))"
proof -
  have "wf_map (rs_active s) \<Longrightarrow> wf_map (rs_active (foldl restore_active s es))" for s
    by (induction es arbitrary: s) (auto simp: restore_active_def Let_def split: option.splits)
  moreover have "wf_map (rs_active s) \<Longrightarrow> wf_map (rs_active (foldl restore_released s rs))" for s
    by (induction rs arbitrary: s) (auto simp: restore_released_def Let_def split: option.splits)
  ultimately show "wf_map (rs_active s) \<Longrightarrow> ?thesis" by blast
qed

lemma restored_entry:
  assumes "map_get (rs_active (newPromptReservationState p (Some sn))) r = Some e"
  shows "res_id e = r \<and> e \<in> set (snap_active sn) \<and> res_token e \<notin> set (snap_consumed sn) \<and>
    (\<forall>g. (r, g) \<in> set (snap_released sn) \<longrightarrow> g < res_generation e)"
proof -
  let ?s0 = "empty_reservations\<lparr>rs_consumed := set_add_all (rs_consumed empty_reservations) (snap_consumed sn)\<rparr>"
  have "map_get (rs_active (foldl restore_released (foldl restore_active ?s0 (snap_active sn)) (snap_released sn))) r = Some e"
    using assms by (simp add: newPromptReservationState_def Let_def fill_pending_frame restore_anonymous_frame)
  from restore_released_entries [OF this]
  have a: "map_get (rs_active (foldl restore_active ?s0 (snap_active sn))) r = Some e"
    and g: "\<forall>g. (r, g) \<in> set (snap_released sn) \<longrightarrow> g < res_generation e" by auto
  have "res_id e = r \<and> res_token e \<notin> set (rs_consumed ?s0) \<and> e \<in> set (snap_active sn)"
    using a by (rule restore_active_entries) (simp_all add: empty_reservations_def)
  then show ?thesis using g by (simp add: empty_reservations_def)
qed

lemma merge_released_max:
  assumes "(r, g) \<in> set es"
  shows "\<exists>g'. (r, g') \<in> set (merge_released es) \<and> g \<le> g'"
proof -
  have "\<exists>g'. map_get (foldl (\<lambda>m e. map_set m (fst e) (max (or_else (map_get m (fst e)) 0) (snd e))) m es) r = Some g' \<and> g \<le> g'"
    if "(r, g) \<in> set es \<or> (\<exists>g'. map_get m r = Some g' \<and> g \<le> g')" for m
    using that
  proof (induction es arbitrary: m)
    case Nil
    then show ?case by simp
  next
    case (Cons x es)
    show ?case unfolding foldl_Cons by (rule Cons.IH) (use Cons.prems in \<open>cases x, auto simp: le_max_iff_disj\<close>)
  qed
  from this [of "[]"] assms show ?thesis by (auto simp: merge_released_def dest: map_get_Some_in_set)
qed

lemma merge_active_subset:
  "set (map_values (foldl (merge_active_step c rel) m es)) \<subseteq> set (map_values m) \<union> set es"
proof (induction es arbitrary: m)
  case Nil
  then show ?case by simp
next
  case (Cons e es)
  have "set (map_values (merge_active_step c rel m e)) \<subseteq> set (map_values m) \<union> {e}"
    using set_map_set_subset [of m "res_id e" e]
    by (auto simp: merge_active_step_def map_values_def split: option.splits)
  then show ?case using Cons.IH [of "merge_active_step c rel m e"] by auto
qed

text \<open>
  Merging two snapshots never revives a reservation: every active reservation of the result is
  active in one of them, its token is consumed in neither, and its generation is above every
  released generation of its identity in either.
\<close>

theorem merge_tombstones_win:
  assumes "mergePromptReservationSnapshots (Some first) (Some second) p = Some sn" and "e \<in> set (snap_active sn)"
  shows "e \<in> set (snap_active first) \<union> set (snap_active second) \<and>
    res_token e \<notin> set (snap_consumed first) \<union> set (snap_consumed second) \<and>
    (\<forall>g. (res_id e, g) \<in> set (snap_released first) \<union> set (snap_released second) \<longrightarrow> g < res_generation e)"
proof -
  let ?m = "merged_snapshot first second"
  let ?s = "newPromptReservationState p (Some ?m)"
  have wf: "wf_map (rs_active ?s)"
    unfolding newPromptReservationState_def Let_def option.case fill_pending_frame restore_anonymous_frame
    by (rule wf_restored) (simp add: empty_reservations_def)
  have "e \<in> set (map_values (rs_active ?s))"
    using assms by (auto simp: mergePromptReservationSnapshots_def snapshot_def)
  then obtain r where "(r, e) \<in> set (rs_active ?s)" by (auto simp: map_values_def)
  then have "map_get (rs_active ?s) r = Some e" using wf by (simp add: map_get_eq_in_set)
  note e = restored_entry [OF this]
  have "e \<in> set (snap_active first) \<union> set (snap_active second)"
  proof -
    obtain c rel where "snap_active ?m = map_values (foldl (merge_active_step c rel) [] (snap_active first @ snap_active second))"
      by (simp add: merged_snapshot_def Let_def)
    then have "set (snap_active ?m) \<subseteq> set (snap_active first @ snap_active second)"
      using merge_active_subset [of c rel "[]" "snap_active first @ snap_active second"]
      by (simp del: foldl_append add: map_values_def)
    then show ?thesis using e by auto
  qed
  moreover have "g < res_generation e"
    if rel: "(res_id e, g) \<in> set (snap_released first) \<union> set (snap_released second)" for g
  proof -
    obtain g' where "(res_id e, g') \<in> set (snap_released ?m)" "g \<le> g'"
      using merge_released_max [of "res_id e" g "snap_released first @ snap_released second"] rel
      by (auto simp: merged_snapshot_def Let_def)
    then show ?thesis using e by force
  qed
  ultimately show ?thesis using e by (auto simp: merged_snapshot_def Let_def)
qed

definition merge_left :: reservation_snapshot where
  "merge_left = \<lparr>snap_active = [\<lparr>res_id = ''a'', res_generation = 1, res_token = ''pending:0''\<rparr>,
       \<lparr>res_id = ''b'', res_generation = 2, res_token = ''reservation:b:2''\<rparr>],
     snap_released = [(''b'', 1)], snap_anonymous = [], snap_consumed = [''reservation:b:1'']\<rparr>"

definition merge_right :: reservation_snapshot where
  "merge_right = \<lparr>snap_active = [], snap_released = [(''a'', 1)], snap_anonymous = [], snap_consumed = [''pending:0'']\<rparr>"

theorem merge_tombstones_win_witness:
  "map res_id (snap_active (the (mergePromptReservationSnapshots (Some merge_left) (Some merge_right) 1))) = [''b''] \<and>
   ''reservation:b:2'' \<notin> set (snap_consumed merge_left) \<union> set (snap_consumed merge_right)"
proof -
  have m: "mergePromptReservationSnapshots (Some merge_left) (Some merge_right) 1 =
    Some \<lparr>snap_active = [\<lparr>res_id = ''b'', res_generation = 2, res_token = ''reservation:b:2''\<rparr>],
      snap_released = [(''b'', 1), (''a'', 1)], snap_anonymous = [], snap_consumed = [''reservation:b:1'', ''pending:0'']\<rparr>"
    by code_simp
  show ?thesis using merge_tombstones_win [OF m, of "\<lparr>res_id = ''b'', res_generation = 2, res_token = ''reservation:b:2''\<rparr>"] m
    by simp
qed

text \<open>
  A merge can leave one token with two owners: when the first snapshot still holds a token as
  anonymous that the second gave to a reservation, the merged state keeps it anonymous as well,
  the next reservation takes it again, and releasing one of the two drops the count to zero while
  the other is still active.
\<close>

lemma merge_shares_token:
  "let anon = \<lparr>snap_active = [], snap_released = [], snap_anonymous = [''pending:0''], snap_consumed = []\<rparr>;
       held = snapshot (snd (reserve ''a'' (newPromptReservationState 1 (Some anon))));
       merged = newPromptReservationState 1 (mergePromptReservationSnapshots (Some anon) (Some held) 1);
       (b, s) = reserve ''b'' merged;
       s' = release_reservation ''b'' b s
   in res_token b = ''pending:0'' \<and> map_option res_token (activeToken ''a'' s) = Some ''pending:0'' \<and>
      pendingPrompts s' = 0 \<and> activeToken ''a'' s' \<noteq> None"
  by code_simp

end
