(* ===== verification/Delivered_Messages.thy ===== *)
theory Delivered_Messages
  imports Prelude
begin

text \<open>
  The broker's authority on which messages were delivered
  (\<^verbatim>\<open>packages/intercom/broker/delivered-message-cache.ts\<close>): a reservation is written before a message is
  forwarded, promoted to accepted after the write, and kept for a retention time. The class has an
  in-memory backing and a SQLite backing. The SQLite statements are modelled on the rows of
  the one table they address; the keyed HMAC of the durable backing is an argument. Strings are
  their UTF-8 bytes, so \<open>Buffer.byteLength\<close> is the length. Failures of the disk
  are modelled for the opening of the storage only.
\<close>

section \<open>Data\<close>

datatype delivered_match = Miss | Match | Conflict | Uncertain | Invalid
datatype record_result = Recorded | RMatch | RConflict | RUncertain | Capacity | RInvalid
datatype accept_result = AAccepted | AConflict | AInvalid
datatype delivery_state = Reserved | Accepted

record question_route =
  targetSessionId :: string
  senderGroupIdentity :: string

record delivered =
  d_state :: delivery_state
  deliveredAt :: rat
  d_signature :: string
  targetIdentity :: "string option"
  questionRoute :: "question_route option"
  questionAnswered :: bool

text \<open>A row of the table \<open>delivered_messages\<close>; the column types are those of the strict schema.\<close>

record message_row =
  row_state :: string
  row_signature :: string
  row_delivered_at :: int
  row_target_identity :: "string option"
  row_question_target :: "string option"
  row_question_group :: "string option"
  row_question_answered :: int

record cache =
  ttlMs :: rat
  maxEntries :: int
  maxBytes :: int
  c_delivered :: "(string, delivered) jmap"
  retainedBytes :: int
  database :: "(string, message_row) jmap option"
  authority :: "(string \<Rightarrow> string) option"
  storageInvalid :: bool

definition DELIVERED_MESSAGE_MAX_ENTRIES :: int where
  "DELIVERED_MESSAGE_MAX_ENTRIES = 10000"

definition DELIVERED_MESSAGE_MAX_BYTES :: int where
  "DELIVERED_MESSAGE_MAX_BYTES = 64 * 1024 * 1024"

definition AUTHORITY_KEY_BYTES :: nat where
  "AUTHORITY_KEY_BYTES = 32"

definition validStoredString :: "string \<Rightarrow> bool" where
  "validStoredString s = (0 < length s)"

definition isSafeInteger :: "rat \<Rightarrow> bool" where
  "isSafeInteger r = (r = of_int \<lfloor>r\<rfloor> \<and> \<bar>r\<bar> \<le> 9007199254740991)"

definition authorityDigest :: "string \<Rightarrow> bool" where
  "authorityDigest s = (length s = 64 \<and> list_all (\<lambda>c. c \<in> set ''abcdef0123456789'') s)"

definition opt_length :: "string option \<Rightarrow> int" where
  "opt_length v = (case v of None \<Rightarrow> 0 | Some s \<Rightarrow> int (length s))"

definition entryByteSize :: "string \<Rightarrow> delivered \<Rightarrow> int" where
  "entryByteSize messageId d =
    int (length messageId) + int (length (d_signature d)) + opt_length (targetIdentity d) +
    opt_length (map_option targetSessionId (questionRoute d)) +
    opt_length (map_option senderGroupIdentity (questionRoute d))"

text \<open>\<open>None\<close> is the answer \<open>"invalid"\<close>.\<close>

definition parseStoredMessage :: "message_row \<Rightarrow> delivered option" where
  "parseStoredMessage row =
    (if (row_state row \<noteq> ''reserved'' \<and> row_state row \<noteq> ''accepted'') \<or>
        \<not> validStoredString (row_signature row) \<or> \<not> authorityDigest (row_signature row) \<or>
        \<not> isSafeInteger (of_int (row_delivered_at row)) \<or> row_delivered_at row < 0 \<or>
        (case row_target_identity row of None \<Rightarrow> False | Some t \<Rightarrow> \<not> validStoredString t) \<or>
        (row_question_answered row \<noteq> 0 \<and> row_question_answered row \<noteq> 1)
     then None
     else
       let questionValues = [row_question_target row, row_question_group row];
           hasQuestionRoute = list_ex (\<lambda>v. v \<noteq> None) questionValues
       in if hasQuestionRoute \<and> \<not> list_all (\<lambda>v. case v of None \<Rightarrow> False | Some s \<Rightarrow> validStoredString s) questionValues
          then None
          else Some \<lparr>d_state = (if row_state row = ''reserved'' then Reserved else Accepted),
                     deliveredAt = of_int (row_delivered_at row),
                     d_signature = row_signature row,
                     targetIdentity = row_target_identity row,
                     questionRoute = (case (row_question_target row, row_question_group row) of
                        (Some t, Some g) \<Rightarrow> Some \<lparr>targetSessionId = t, senderGroupIdentity = g\<rparr> | _ \<Rightarrow> None),
                     questionAnswered = (row_question_answered row = 1)\<rparr>)"

section \<open>Opening the storage\<close>

text \<open>
  What the constructor finds on disk: the database file, if it exists, with no table, a table of
  the layout without \<open>question_answered\<close>, or the rows; and the key file, if it exists.
\<close>

datatype stored_table = NoTable | OldLayout | Rows "(string, message_row) jmap"

definition prepareDurableAuthority :: "stored_table option \<Rightarrow> string option \<Rightarrow> string \<Rightarrow> string option" where
  "prepareDurableAuthority db key randomKey =
    (if (db \<noteq> None) \<noteq> (key \<noteq> None) then None
     else if db = None then Some randomKey
     else case key of None \<Rightarrow> None | Some k \<Rightarrow> if length k \<noteq> AUTHORITY_KEY_BYTES then None else Some k)"

definition empty_cache :: "rat \<Rightarrow> int \<Rightarrow> int \<Rightarrow> cache" where
  "empty_cache ttl entries bytes = \<lparr>ttlMs = ttl, maxEntries = entries, maxBytes = bytes, c_delivered = [],
     retainedBytes = 0, database = None, authority = None, storageInvalid = False\<rparr>"

text \<open>\<open>hmac\<close> is HMAC-SHA-256 in hexadecimal; \<open>sqlite_opens\<close> says whether SQLite raised no error.\<close>

definition open_durable :: "(string \<Rightarrow> string \<Rightarrow> string) \<Rightarrow> rat \<Rightarrow> int \<Rightarrow> int \<Rightarrow> stored_table option \<Rightarrow> string option \<Rightarrow> string \<Rightarrow> bool \<Rightarrow> cache" where
  "open_durable hmac ttl entries bytes db key randomKey sqlite_opens =
    (let c = empty_cache ttl entries bytes in
     case prepareDurableAuthority db key randomKey of
       None \<Rightarrow> c\<lparr>storageInvalid := True\<rparr>
     | Some k \<Rightarrow>
         if \<not> sqlite_opens then c\<lparr>authority := Some (hmac k), storageInvalid := True\<rparr>
         else c\<lparr>authority := Some (hmac k),
                database := Some (case db of Some (Rows rows) \<Rightarrow> rows | _ \<Rightarrow> [])\<rparr>)"

section \<open>Reading and pruning\<close>

datatype read_result = Absent | Corrupt | Found delivered

definition readDurable :: "(string, message_row) jmap \<Rightarrow> string \<Rightarrow> read_result" where
  "readDurable rows messageId = (case map_get rows messageId of
      None \<Rightarrow> Absent
    | Some row \<Rightarrow> (case parseStoredMessage row of None \<Rightarrow> Corrupt | Some d \<Rightarrow> Found d))"

definition read :: "cache \<Rightarrow> string \<Rightarrow> read_result" where
  "read c messageId = (case database c of
      None \<Rightarrow> (case map_get (c_delivered c) messageId of None \<Rightarrow> Absent | Some d \<Rightarrow> Found d)
    | Some rows \<Rightarrow> readDurable rows messageId)"

fun pruneMemory_loop :: "rat \<Rightarrow> (string, delivered) jmap \<Rightarrow> cache \<Rightarrow> cache" where
  "pruneMemory_loop now [] c = c"
| "pruneMemory_loop now ((messageId, d) # rest) c =
    (if now - deliveredAt d \<le> ttlMs c then pruneMemory_loop now rest c
     else pruneMemory_loop now rest
       (c\<lparr>c_delivered := map_delete (c_delivered c) messageId,
          retainedBytes := retainedBytes c - entryByteSize messageId d\<rparr>))"

definition pruneMemory :: "rat \<Rightarrow> cache \<Rightarrow> cache" where
  "pruneMemory now c = pruneMemory_loop now (c_delivered c) c"

definition prunedRows :: "rat \<Rightarrow> rat \<Rightarrow> (string, message_row) jmap \<Rightarrow> (string, message_row) jmap" where
  "prunedRows now ttl rows = filter (\<lambda>e. \<not> now - of_int (row_delivered_at (snd e)) > ttl) rows"

definition pruneDurable :: "rat \<Rightarrow> cache \<Rightarrow> cache" where
  "pruneDurable now c = c\<lparr>database := map_option (prunedRows now (ttlMs c)) (database c)\<rparr>"

definition prune :: "rat \<Rightarrow> cache \<Rightarrow> cache" where
  "prune now c = (case database c of None \<Rightarrow> pruneMemory now c | Some _ \<Rightarrow> pruneDurable now c)"

definition signatureAuthority :: "cache \<Rightarrow> string \<Rightarrow> string option" where
  "signatureAuthority c signature =
    (if storageInvalid c \<or> \<not> validStoredString signature then None
     else case authority c of None \<Rightarrow> Some signature | Some h \<Rightarrow> Some (h signature))"

section \<open>The operations\<close>

definition lookupEntry :: "string \<Rightarrow> string \<Rightarrow> string option \<Rightarrow> bool \<Rightarrow> rat \<Rightarrow> cache \<Rightarrow> delivered_match \<times> cache" where
  "lookupEntry messageId signature target requireTarget now c =
    (if storageInvalid c then (Invalid, c)
     else
       let c = prune now c in
       (case read c messageId of
          Corrupt \<Rightarrow> Invalid
        | Absent \<Rightarrow> Miss
        | Found d \<Rightarrow>
            if now - deliveredAt d > ttlMs c then Miss
            else if d_signature d \<noteq> signature then Conflict
            else if requireTarget \<and> targetIdentity d \<noteq> target then Conflict
            else if d_state d = Reserved then Uncertain
            else Match, c))"

definition lookup :: "string \<Rightarrow> string \<Rightarrow> rat \<Rightarrow> cache \<Rightarrow> delivered_match \<times> cache" where
  "lookup messageId signature now c = (case signatureAuthority c signature of
      None \<Rightarrow> (Invalid, c) | Some a \<Rightarrow> lookupEntry messageId a None False now c)"

definition lookupForTarget :: "string \<Rightarrow> string \<Rightarrow> string \<Rightarrow> rat \<Rightarrow> cache \<Rightarrow> delivered_match \<times> cache" where
  "lookupForTarget messageId signature target now c = (case signatureAuthority c signature of
      None \<Rightarrow> (Invalid, c) | Some a \<Rightarrow> lookupEntry messageId a (Some target) True now c)"

definition lookupQuestionTarget :: "string \<Rightarrow> string \<Rightarrow> string \<Rightarrow> rat \<Rightarrow> cache \<Rightarrow> string option \<times> cache" where
  "lookupQuestionTarget messageId signature senderGroup now c = (case signatureAuthority c signature of
      None \<Rightarrow> (None, c)
    | Some a \<Rightarrow>
        let c = prune now c in
        (case read c messageId of
           Found d \<Rightarrow>
             if d_state d \<noteq> Accepted \<or> now - deliveredAt d > ttlMs c \<or> d_signature d \<noteq> a then None
             else (case questionRoute d of
                 None \<Rightarrow> None
               | Some route \<Rightarrow> if senderGroupIdentity route \<noteq> senderGroup then None else Some (targetSessionId route))
         | _ \<Rightarrow> None, c))"

definition isQuestionAnswered :: "string \<Rightarrow> cache \<Rightarrow> bool" where
  "isQuestionAnswered messageId c =
    (if storageInvalid c then True
     else case read c messageId of Corrupt \<Rightarrow> True | Absent \<Rightarrow> False | Found d \<Rightarrow> questionAnswered d)"

definition settleQuestion :: "string \<Rightarrow> cache \<Rightarrow> cache" where
  "settleQuestion messageId c = (case read c messageId of
      Found d \<Rightarrow>
        if d_state d \<noteq> Accepted \<or> questionRoute d = None then c
        else (case database c of
            None \<Rightarrow> c\<lparr>c_delivered := map_set (c_delivered c) messageId (d\<lparr>questionAnswered := True\<rparr>)\<rparr>
          | Some rows \<Rightarrow> c\<lparr>database := Some (map (\<lambda>e. if fst e = messageId
              then (fst e, (snd e)\<lparr>row_question_answered := 1\<rparr>) else e) rows)\<rparr>)
    | _ \<Rightarrow> c)"

definition compare_delivered :: "delivered \<Rightarrow> delivered \<Rightarrow> record_result" where
  "compare_delivered existing incoming =
    (if d_signature existing \<noteq> d_signature incoming \<or> targetIdentity existing \<noteq> targetIdentity incoming then RConflict
     else if d_state existing = Accepted then RMatch else RUncertain)"

definition recordMemory :: "string \<Rightarrow> delivered \<Rightarrow> cache \<Rightarrow> record_result \<times> cache" where
  "recordMemory messageId d c =
    (let c = pruneMemory (deliveredAt d) c in
     case map_get (c_delivered c) messageId of
       Some existing \<Rightarrow> (compare_delivered existing d, c)
     | None \<Rightarrow>
         let size = entryByteSize messageId d in
         if int (length (c_delivered c)) \<ge> maxEntries c \<or> retainedBytes c + size > maxBytes c then (Capacity, c)
         else (Recorded, c\<lparr>c_delivered := map_set (c_delivered c) messageId d, retainedBytes := retainedBytes c + size\<rparr>))"

definition row_byte_size :: "string \<times> message_row \<Rightarrow> int" where
  "row_byte_size e = int (length (fst e)) + int (length (row_signature (snd e))) +
     opt_length (row_target_identity (snd e)) + opt_length (row_question_target (snd e)) +
     opt_length (row_question_group (snd e))"

definition delivered_row :: "delivered \<Rightarrow> message_row" where
  "delivered_row d = \<lparr>row_state = (case d_state d of Reserved \<Rightarrow> ''reserved'' | Accepted \<Rightarrow> ''accepted''),
     row_signature = d_signature d, row_delivered_at = \<lfloor>deliveredAt d\<rfloor>, row_target_identity = targetIdentity d,
     row_question_target = map_option targetSessionId (questionRoute d),
     row_question_group = map_option senderGroupIdentity (questionRoute d), row_question_answered = 0\<rparr>"

definition recordDurable :: "string \<Rightarrow> delivered \<Rightarrow> cache \<Rightarrow> record_result \<times> cache" where
  "recordDurable messageId d c = (case database (pruneDurable (deliveredAt d) c) of
      None \<Rightarrow> (RInvalid, c)
    | Some rows \<Rightarrow>
        let c = pruneDurable (deliveredAt d) c in
        (case readDurable rows messageId of
           Corrupt \<Rightarrow> (RInvalid, c)
         | Found existing \<Rightarrow> (compare_delivered existing d, c)
         | Absent \<Rightarrow>
             let count = int (length rows); bytes = sum_list (map row_byte_size rows) in
             if \<not> isSafeInteger (of_int count) \<or> count < 0 \<or> \<not> isSafeInteger (of_int bytes) \<or> bytes < 0 then (RInvalid, c)
             else if count \<ge> maxEntries c \<or> bytes + entryByteSize messageId d > maxBytes c then (Capacity, c)
             else (Recorded, c\<lparr>database := Some (rows @ [(messageId, delivered_row d)])\<rparr>)))"

definition recordEntry :: "string \<Rightarrow> delivered \<Rightarrow> cache \<Rightarrow> record_result \<times> cache" where
  "recordEntry messageId d c =
    (if storageInvalid c then (RInvalid, c)
     else if \<not> validStoredString messageId \<or> \<not> validStoredString (d_signature d) then (RInvalid, c)
     else if \<not> isSafeInteger (deliveredAt d) \<or> deliveredAt d < 0 \<or>
        (case targetIdentity d of None \<Rightarrow> False | Some t \<Rightarrow> \<not> validStoredString t) \<or>
        (case questionRoute d of None \<Rightarrow> False | Some route \<Rightarrow>
           \<not> validStoredString (targetSessionId route) \<or> \<not> validStoredString (senderGroupIdentity route))
     then (RInvalid, c)
     else if entryByteSize messageId d > maxBytes c then (Capacity, c)
     else case database c of None \<Rightarrow> recordMemory messageId d c | Some _ \<Rightarrow> recordDurable messageId d c)"

definition recordWithSignature :: "string \<Rightarrow> delivered \<Rightarrow> cache \<Rightarrow> record_result \<times> cache" where
  "recordWithSignature messageId d c = (case signatureAuthority c (d_signature d) of
      None \<Rightarrow> (RInvalid, c) | Some a \<Rightarrow> recordEntry messageId (d\<lparr>d_signature := a\<rparr>) c)"

text \<open>
  \<open>record\<close> and \<open>recordQuestion\<close> write an accepted entry, \<open>reserve\<close> and \<open>reserveQuestion\<close> a
  reserved one; the plain forms carry no question route.
\<close>

definition record_message :: "string \<Rightarrow> string \<Rightarrow> question_route option \<Rightarrow> rat \<Rightarrow> string option \<Rightarrow> cache \<Rightarrow> record_result \<times> cache" where
  "record_message messageId signature route now target c = recordWithSignature messageId
     \<lparr>d_state = Accepted, deliveredAt = now, d_signature = signature, targetIdentity = target,
      questionRoute = route, questionAnswered = False\<rparr> c"

definition reserve_message :: "string \<Rightarrow> string \<Rightarrow> question_route option \<Rightarrow> rat \<Rightarrow> string option \<Rightarrow> cache \<Rightarrow> record_result \<times> cache" where
  "reserve_message messageId signature route now target c = recordWithSignature messageId
     \<lparr>d_state = Reserved, deliveredAt = now, d_signature = signature, targetIdentity = target,
      questionRoute = route, questionAnswered = False\<rparr> c"

definition accept :: "string \<Rightarrow> string \<Rightarrow> string option \<Rightarrow> cache \<Rightarrow> accept_result \<times> cache" where
  "accept messageId signature target c = (case signatureAuthority c signature of
      None \<Rightarrow> (AInvalid, c)
    | Some a \<Rightarrow> (case read c messageId of
        Found existing \<Rightarrow>
          if d_signature existing \<noteq> a \<or> targetIdentity existing \<noteq> target then (AConflict, c)
          else if d_state existing = Accepted then (AAccepted, c)
          else (case database c of
              None \<Rightarrow> (AAccepted, c\<lparr>c_delivered := map_set (c_delivered c) messageId (existing\<lparr>d_state := Accepted\<rparr>)\<rparr>)
            | Some rows \<Rightarrow>
                let hit = (\<lambda>e. fst e = messageId \<and> row_signature (snd e) = a);
                    changes = length (filter hit rows)
                in (if changes = 1 then AAccepted else AInvalid,
                    c\<lparr>database := Some (map (\<lambda>e. if hit e then (fst e, (snd e)\<lparr>row_state := ''accepted''\<rparr>) else e) rows)\<rparr>))
      | _ \<Rightarrow> (AInvalid, c)))"

definition forget :: "string \<Rightarrow> string \<Rightarrow> cache \<Rightarrow> cache" where
  "forget messageId signature c = (case signatureAuthority c signature of
      None \<Rightarrow> c
    | Some a \<Rightarrow> (case database c of
        None \<Rightarrow> (case map_get (c_delivered c) messageId of
            Some d \<Rightarrow>
              if d_signature d = a
              then c\<lparr>c_delivered := map_delete (c_delivered c) messageId,
                     retainedBytes := retainedBytes c - entryByteSize messageId d\<rparr>
              else c
          | None \<Rightarrow> c)
      | Some rows \<Rightarrow> c\<lparr>database := Some (filter (\<lambda>e. \<not> (fst e = messageId \<and> row_signature (snd e) = a)) rows)\<rparr>))"

section \<open>Histories\<close>

datatype cache_op =
    Lookup string string rat
  | LookupForTarget string string string rat
  | LookupQuestionTarget string string string rat
  | IsQuestionAnswered string
  | SettleQuestion string
  | Record string string "question_route option" rat "string option"
  | ReserveMessage string string "question_route option" rat "string option"
  | Accept string string "string option"
  | Forget string string

datatype cache_out =
    OMatch delivered_match
  | OTarget "string option"
  | OAnswered bool
  | ORecord record_result
  | OAccept accept_result
  | ONone

fun cache_step :: "cache_op \<Rightarrow> cache \<Rightarrow> cache_out \<times> cache" where
  "cache_step (Lookup m s now) c = map_prod OMatch id (lookup m s now c)"
| "cache_step (LookupForTarget m s t now) c = map_prod OMatch id (lookupForTarget m s t now c)"
| "cache_step (LookupQuestionTarget m s g now) c = map_prod OTarget id (lookupQuestionTarget m s g now c)"
| "cache_step (IsQuestionAnswered m) c = (OAnswered (isQuestionAnswered m c), c)"
| "cache_step (SettleQuestion m) c = (ONone, settleQuestion m c)"
| "cache_step (Record m s r now t) c = map_prod ORecord id (record_message m s r now t c)"
| "cache_step (ReserveMessage m s r now t) c = map_prod ORecord id (reserve_message m s r now t c)"
| "cache_step (Accept m s t) c = map_prod OAccept id (accept m s t c)"
| "cache_step (Forget m s) c = (ONone, forget m s c)"

fun cache_run :: "cache_op list \<Rightarrow> cache \<Rightarrow> cache_out list \<times> cache" where
  "cache_run [] c = ([], c)"
| "cache_run (x # xs) c = (let (out, c') = cache_step x c; (outs, c'') = cache_run xs c' in (out # outs, c''))"

section \<open>The in-memory accounting\<close>

definition total_bytes :: "(string, delivered) jmap \<Rightarrow> int" where
  "total_bytes m = sum_list (map (\<lambda>e. entryByteSize (fst e) (snd e)) m)"

definition memory_inv :: "cache \<Rightarrow> bool" where
  "memory_inv c \<longleftrightarrow> database c = None \<and> wf_map (c_delivered c) \<and> retainedBytes c = total_bytes (c_delivered c) \<and>
     int (length (c_delivered c)) \<le> max 0 (maxEntries c) \<and> retainedBytes c \<le> max 0 (maxBytes c)"

lemma opt_length_nonneg [simp]: "0 \<le> opt_length v"
  by (simp add: opt_length_def split: option.split)

lemma entryByteSize_nonneg [simp]: "0 \<le> entryByteSize m d"
  by (simp add: entryByteSize_def)

lemma total_bytes_filter_le: "total_bytes (filter P m) \<le> total_bytes m"
  by (induction m) (auto simp: total_bytes_def intro: add_increasing)

lemma total_bytes_append [simp]: "total_bytes (m @ n) = total_bytes m + total_bytes n"
  by (simp add: total_bytes_def)

lemma total_bytes_map_delete:
  "wf_map m \<Longrightarrow> map_get m k = Some d \<Longrightarrow> total_bytes (map_delete m k) = total_bytes m - entryByteSize k d"
proof (induction m)
  case Nil
  then show ?case by simp
next
  case (Cons x m)
  have "k \<notin> fst ` set m \<Longrightarrow> filter (\<lambda>e. fst e \<noteq> k) m = m" by (auto simp: filter_id_conv)
  then show ?case using Cons
    by (cases "fst x = k") (auto simp: total_bytes_def map_delete_def wf_map_def map_get_def)
qed

lemma total_bytes_map_set:
  "map_get m k = Some d \<Longrightarrow> total_bytes (map_set m k d') = total_bytes m - entryByteSize k d + entryByteSize k d'"
  by (induction m k d' rule: map_set.induct) (auto simp: total_bytes_def map_get_def)

lemma length_map_set: "map_get m k = Some d \<Longrightarrow> length (map_set m k d') = length m"
  by (induction m k d' rule: map_set.induct) (auto simp: map_get_def split: if_splits)

definition live :: "rat \<Rightarrow> cache \<Rightarrow> string \<times> delivered \<Rightarrow> bool" where
  "live now c e = (now - deliveredAt (snd e) \<le> ttlMs c)"

lemma pruneMemory_loop_effect:
  assumes "wf_map (kept @ rest)" and "c_delivered c = kept @ rest"
  shows "pruneMemory_loop now rest c = c\<lparr>c_delivered := kept @ filter (live now c) rest,
     retainedBytes := retainedBytes c - (total_bytes rest - total_bytes (filter (live now c) rest))\<rparr>"
  using assms
proof (induction now rest c arbitrary: kept rule: pruneMemory_loop.induct)
  case (1 now c)
  then show ?case by simp
next
  case (2 now m d rest c)
  show ?case
  proof (cases "now - deliveredAt d \<le> ttlMs c")
    case True
    have "wf_map ((kept @ [(m, d)]) @ rest)" "c_delivered c = (kept @ [(m, d)]) @ rest" using "2.prems" by simp_all
    note ih = "2.IH"(1) [OF True this]
    show ?thesis using True ih by (simp add: live_def total_bytes_def)
  next
    case False
    let ?c = "c\<lparr>c_delivered := map_delete (c_delivered c) m, retainedBytes := retainedBytes c - entryByteSize m d\<rparr>"
    have del: "map_delete (c_delivered c) m = kept @ rest"
    proof -
      have "m \<notin> fst ` set kept" "m \<notin> fst ` set rest" using "2.prems"(1) by (auto simp: wf_map_def)
      then have "filter (\<lambda>e. fst e \<noteq> m) kept = kept" "filter (\<lambda>e. fst e \<noteq> m) rest = rest"
        by (auto simp: filter_id_conv)
      then show ?thesis using "2.prems"(2) by (simp add: map_delete_def)
    qed
    have "wf_map (kept @ rest)" "c_delivered ?c = kept @ rest" using "2.prems"(1) del by (simp_all add: wf_map_def)
    note ih = "2.IH"(2) [OF False this]
    have "live now ?c = live now c" by (simp add: live_def fun_eq_iff)
    then show ?thesis using False ih by (simp add: live_def [of now c "(m, d)"] total_bytes_def del)
  qed
qed

lemma pruneMemory_effect:
  assumes "memory_inv c"
  shows "pruneMemory now c = c\<lparr>c_delivered := filter (live now c) (c_delivered c),
     retainedBytes := total_bytes (filter (live now c) (c_delivered c))\<rparr>"
proof -
  have "wf_map ([] @ c_delivered c)" "c_delivered c = [] @ c_delivered c" using assms by (simp_all add: memory_inv_def)
  from pruneMemory_loop_effect [OF this, of now] show ?thesis using assms by (simp add: pruneMemory_def memory_inv_def)
qed

lemma wf_map_filter: "wf_map m \<Longrightarrow> wf_map (filter P m)"
  by (simp add: wf_map_def distinct_map_filter)

lemma memory_inv_pruneMemory [inv_intros]: "memory_inv c \<Longrightarrow> memory_inv (pruneMemory now c)"
proof -
  assume c: "memory_inv c"
  have "int (length (filter (live now c) (c_delivered c))) \<le> int (length (c_delivered c))" by simp
  then have "int (length (filter (live now c) (c_delivered c))) \<le> max 0 (maxEntries c)"
    using c unfolding memory_inv_def by linarith
  moreover have "total_bytes (filter (live now c) (c_delivered c)) \<le> total_bytes (c_delivered c)" by (rule total_bytes_filter_le)
  ultimately show ?thesis using c
    by (simp add: pruneMemory_effect) (simp add: memory_inv_def wf_map_filter)
qed

lemma pruneMemory_fields [simp]:
  assumes "memory_inv c"
  shows "maxEntries (pruneMemory now c) = maxEntries c" "maxBytes (pruneMemory now c) = maxBytes c"
    "ttlMs (pruneMemory now c) = ttlMs c" "storageInvalid (pruneMemory now c) = storageInvalid c"
    "authority (pruneMemory now c) = authority c" "database (pruneMemory now c) = None"
  using assms by (simp_all add: pruneMemory_effect) (simp add: memory_inv_def)

lemma memory_inv_prune [inv_intros]: "memory_inv c \<Longrightarrow> memory_inv (prune now c)"
  using memory_inv_pruneMemory [of c now] by (simp add: prune_def memory_inv_def split: option.splits)

lemma memory_inv_lookupEntry [inv_intros]: "memory_inv c \<Longrightarrow> memory_inv (snd (lookupEntry m s t b now c))"
  using memory_inv_prune [of c now] by (simp add: lookupEntry_def Let_def)

lemma memory_inv_replace:
  assumes "memory_inv c" and "map_get (c_delivered c) m = Some d" and "entryByteSize m d' = entryByteSize m d"
  shows "memory_inv (c\<lparr>c_delivered := map_set (c_delivered c) m d'\<rparr>)"
  using assms by (simp add: memory_inv_def total_bytes_map_set length_map_set)

lemma memory_inv_recordMemory [inv_intros]:
  assumes "memory_inv c"
  shows "memory_inv (snd (recordMemory m d c))"
proof -
  let ?c = "pruneMemory (deliveredAt d) c"
  have c: "memory_inv ?c" using assms by (rule memory_inv_pruneMemory)
  show ?thesis
  proof (cases "map_get (c_delivered ?c) m")
    case None
    have "wf_map (map_set (c_delivered ?c) m d)" using c by (simp add: memory_inv_def)
    then have "wf_map (c_delivered ?c @ [(m, d)])" by (simp add: map_set_fresh [OF None])
    then show ?thesis using c None
      by (auto simp: recordMemory_def Let_def memory_inv_def map_set_fresh total_bytes_def)
  next
    case (Some e)
    then show ?thesis using c by (simp add: recordMemory_def Let_def)
  qed
qed

lemma memory_inv_db: "memory_inv c \<Longrightarrow> database c = None"
  by (simp add: memory_inv_def)

lemma memory_inv_record [inv_intros]: "memory_inv c \<Longrightarrow> memory_inv (snd (recordWithSignature m d c))"
  using memory_inv_recordMemory
  by (auto simp: recordWithSignature_def recordEntry_def memory_inv_db split: option.splits)

lemma memory_read: "memory_inv c \<Longrightarrow> read c m = Found d \<longleftrightarrow> map_get (c_delivered c) m = Some d"
  by (auto simp: read_def memory_inv_def split: option.splits)

lemma memory_inv_accept [inv_intros]: "memory_inv c \<Longrightarrow> memory_inv (snd (accept m s t c))"
proof -
  assume c: "memory_inv c"
  then have db: "database c = None" by (simp add: memory_inv_def)
  have "map_get (c_delivered c) m = Some d \<Longrightarrow> memory_inv (c\<lparr>c_delivered := map_set (c_delivered c) m (d\<lparr>d_state := Accepted\<rparr>)\<rparr>)" for d
    using c by (rule memory_inv_replace) (simp_all add: entryByteSize_def)
  then show ?thesis using c db memory_read [OF c]
    by (auto simp: accept_def split: option.splits read_result.splits)
qed

lemma memory_inv_settle [inv_intros]: "memory_inv c \<Longrightarrow> memory_inv (settleQuestion m c)"
proof -
  assume c: "memory_inv c"
  then have db: "database c = None" by (simp add: memory_inv_def)
  have "map_get (c_delivered c) m = Some d \<Longrightarrow> memory_inv (c\<lparr>c_delivered := map_set (c_delivered c) m (d\<lparr>questionAnswered := True\<rparr>)\<rparr>)" for d
    using c by (rule memory_inv_replace) (simp_all add: entryByteSize_def)
  then show ?thesis using c db memory_read [OF c]
    by (auto simp: settleQuestion_def split: option.splits read_result.splits)
qed

lemma memory_inv_delete:
  assumes c: "memory_inv c" and d: "map_get (c_delivered c) m = Some d"
  shows "memory_inv (c\<lparr>c_delivered := map_delete (c_delivered c) m, retainedBytes := retainedBytes c - entryByteSize m d\<rparr>)"
proof -
  have "int (length (map_delete (c_delivered c) m)) \<le> int (length (c_delivered c))" by (simp add: map_delete_def)
  then have "int (length (map_delete (c_delivered c) m)) \<le> max 0 (maxEntries c)"
    using c unfolding memory_inv_def by linarith
  moreover have "retainedBytes c - entryByteSize m d \<le> max 0 (maxBytes c)"
    using c entryByteSize_nonneg [of m d] unfolding memory_inv_def by linarith
  ultimately show ?thesis using c d unfolding memory_inv_def by (simp add: total_bytes_map_delete)
qed

lemma memory_inv_forget [inv_intros]: "memory_inv c \<Longrightarrow> memory_inv (forget m s c)"
  using memory_inv_delete [of c m]
  by (auto simp: forget_def memory_inv_db split: option.splits)

lemma memory_inv_step: "memory_inv c \<Longrightarrow> memory_inv (snd (cache_step x c))"
  by (cases x)
    (auto simp: lookup_def lookupForTarget_def lookupQuestionTarget_def record_message_def reserve_message_def Let_def
      intro: inv_intros split: option.splits)

interpretation dm: step_system "\<lambda>c x. snd (cache_step x c)"
  "empty_cache 720000 DELIVERED_MESSAGE_MAX_ENTRIES DELIVERED_MESSAGE_MAX_BYTES" memory_inv
proof unfold_locales
  show "memory_inv (empty_cache 720000 DELIVERED_MESSAGE_MAX_ENTRIES DELIVERED_MESSAGE_MAX_BYTES)"
    by (simp add: memory_inv_def empty_cache_def total_bytes_def)
qed (rule memory_inv_step)

lemma memory_inv_empty: "memory_inv (empty_cache ttl entries bytes)"
  by (simp add: memory_inv_def empty_cache_def total_bytes_def)

lemma cache_run_state: "snd (cache_run xs c) = foldl (\<lambda>c x. snd (cache_step x c)) c xs"
  by (induction xs arbitrary: c) (simp_all add: Let_def split_beta)

section \<open>The durable backing implements the in-memory one\<close>

definition view :: "(string, message_row) jmap \<Rightarrow> (string, delivered) jmap" where
  "view rows = map (\<lambda>e. (fst e, the (parseStoredMessage (snd e)))) rows"

definition rows_ok :: "(string, message_row) jmap \<Rightarrow> bool" where
  "rows_ok rows \<longleftrightarrow> wf_map rows \<and> (\<forall>e \<in> set rows. parseStoredMessage (snd e) \<noteq> None)"

definition max_safe :: int where
  "max_safe = 9007199254740991"

definition durable_inv :: "(string \<Rightarrow> string) \<Rightarrow> cache \<Rightarrow> bool" where
  "durable_inv h c \<longleftrightarrow> authority c = Some h \<and> \<not> storageInvalid c \<and>
     0 \<le> maxEntries c \<and> maxEntries c \<le> max_safe \<and> 0 \<le> maxBytes c \<and> maxBytes c \<le> max_safe \<and>
     (\<exists>rows. database c = Some rows \<and> rows_ok rows \<and> int (length rows) \<le> maxEntries c \<and>
       total_bytes (view rows) \<le> maxBytes c)"

definition memory_of :: "cache \<Rightarrow> cache" where
  "memory_of c = (case database c of None \<Rightarrow> c | Some rows \<Rightarrow>
     c\<lparr>c_delivered := view rows, retainedBytes := total_bytes (view rows), database := None, authority := None\<rparr>)"

lemma parse_fields:
  assumes "parseStoredMessage row = Some d"
  shows "d_signature d = row_signature row" "deliveredAt d = of_int (row_delivered_at row)"
    "targetIdentity d = row_target_identity row"
    "map_option targetSessionId (questionRoute d) = row_question_target row"
    "map_option senderGroupIdentity (questionRoute d) = row_question_group row"
  using assms by (auto simp: parseStoredMessage_def Let_def split: if_splits option.splits)

lemma row_byte_size_parse: "parseStoredMessage row = Some d \<Longrightarrow> row_byte_size (m, row) = entryByteSize m d"
  using parse_fields [of row d] by (simp add: row_byte_size_def entryByteSize_def)

lemma sum_row_bytes: "rows_ok rows \<Longrightarrow> sum_list (map row_byte_size rows) = total_bytes (view rows)"
  unfolding total_bytes_def view_def
  by (rule arg_cong [where f = sum_list]) (auto simp: rows_ok_def row_byte_size_parse)

lemma keys_view [simp]: "map fst (view rows) = map fst rows" "length (view rows) = length rows" "fst ` set (view rows) = fst ` set rows"
  by (simp_all add: view_def comp_def image_image)

lemma wf_view: "rows_ok rows \<Longrightarrow> wf_map (view rows)"
  by (simp add: rows_ok_def wf_map_def)

lemma map_get_view: "map_get (view rows) m = map_option (the \<circ> parseStoredMessage) (map_get rows m)"
  by (induction rows) (auto simp: view_def map_get_def)

lemma rows_ok_get: "rows_ok rows \<Longrightarrow> map_get rows m = Some row \<Longrightarrow> \<exists>d. parseStoredMessage row = Some d"
  using map_get_Some_in_set [of rows m row] by (force simp: rows_ok_def)

lemma readDurable_view:
  assumes "rows_ok rows"
  shows "readDurable rows m = (case map_get (view rows) m of None \<Rightarrow> Absent | Some d \<Rightarrow> Found d)"
  using rows_ok_get [OF assms, of m] by (auto simp: readDurable_def map_get_view split: option.splits)

lemma durable_invE:
  assumes "durable_inv h c"
  obtains rows where "database c = Some rows" "rows_ok rows" "int (length rows) \<le> maxEntries c"
    "total_bytes (view rows) \<le> maxBytes c" "authority c = Some h" "\<not> storageInvalid c"
    "memory_of c = c\<lparr>c_delivered := view rows, retainedBytes := total_bytes (view rows), database := None, authority := None\<rparr>"
  using assms by (auto simp: durable_inv_def memory_of_def)

lemma memory_of_inv: "durable_inv h c \<Longrightarrow> memory_inv (memory_of c)"
  by (elim durable_invE) (simp add: memory_inv_def wf_view)

lemma memory_of_read: "durable_inv h c \<Longrightarrow> read (memory_of c) m = read c m"
  by (elim durable_invE) (simp add: read_def readDurable_view)

lemma view_filter: "view (filter (\<lambda>e. P (fst e) (snd e)) rows) =
    filter (\<lambda>e. Q (fst e) (snd e)) (view rows)"
  if "\<And>m row. (m, row) \<in> set rows \<Longrightarrow> P m row = Q m (the (parseStoredMessage row))"
  using that by (induction rows) (auto simp: view_def)

lemma rows_ok_filter: "rows_ok rows \<Longrightarrow> rows_ok (filter P rows)"
  by (simp add: rows_ok_def wf_map_filter)

lemma view_prunedRows:
  assumes "rows_ok rows"
  shows "view (prunedRows now (ttlMs c) rows) = filter (live now c) (view rows)"
proof -
  have "view (filter (\<lambda>e. \<not> now - of_int (row_delivered_at (snd e)) > ttlMs c) rows) =
    filter (\<lambda>e. now - deliveredAt (snd e) \<le> ttlMs c) (view rows)"
    by (rule view_filter [where P = "\<lambda>_ row. \<not> now - of_int (row_delivered_at row) > ttlMs c"
          and Q = "\<lambda>_ d. now - deliveredAt d \<le> ttlMs c"])
      (use assms parse_fields(2) in \<open>force simp: rows_ok_def not_less\<close>)
  moreover have "live now c = (\<lambda>e. now - deliveredAt (snd e) \<le> ttlMs c)" by (simp add: fun_eq_iff live_def)
  ultimately show ?thesis unfolding prunedRows_def by simp
qed

lemma durable_prune:
  assumes "durable_inv h c"
  shows "durable_inv h (pruneDurable now c)" "pruneMemory now (memory_of c) = memory_of (pruneDurable now c)"
proof -
  obtain rows where db: "database c = Some rows" and ok: "rows_ok rows" and len: "int (length rows) \<le> maxEntries c"
    and tot: "total_bytes (view rows) \<le> maxBytes c"
    and mem: "memory_of c = c\<lparr>c_delivered := view rows, retainedBytes := total_bytes (view rows), database := None, authority := None\<rparr>"
    using assms by (rule durable_invE)
  let ?rows = "prunedRows now (ttlMs c) rows"
  have v: "view ?rows = filter (live now c) (view rows)" using ok by (rule view_prunedRows)
  have "rows_ok ?rows" using ok by (simp add: prunedRows_def rows_ok_filter)
  moreover have "int (length ?rows) \<le> int (length rows)" by (simp add: prunedRows_def)
  then have "int (length ?rows) \<le> maxEntries c" using len by linarith
  moreover have "total_bytes (view ?rows) \<le> maxBytes c"
    using tot total_bytes_filter_le [of "live now c" "view rows"] by (simp add: v)
  ultimately show "durable_inv h (pruneDurable now c)"
    using assms db by (simp add: durable_inv_def pruneDurable_def)
  have "live now (memory_of c) = live now c" by (simp add: mem live_def fun_eq_iff)
  then show "pruneMemory now (memory_of c) = memory_of (pruneDurable now c)"
    using pruneMemory_effect [OF memory_of_inv [OF assms], of now] db v
    by (simp add: mem) (simp add: memory_of_def pruneDurable_def)
qed

lemma prune_sim:
  assumes "durable_inv h c"
  shows "durable_inv h (prune now c)" "prune now (memory_of c) = memory_of (prune now c)"
  using durable_prune [OF assms, of now] assms memory_inv_db [OF memory_of_inv [OF assms]]
  by (auto simp: prune_def elim: durable_invE)

lemma memory_of_fields:
  assumes "durable_inv h c"
  shows "ttlMs (memory_of c) = ttlMs c" "maxEntries (memory_of c) = maxEntries c" "maxBytes (memory_of c) = maxBytes c"
    "storageInvalid (memory_of c) = False" "storageInvalid c = False"
    "database (memory_of c) = None" "authority (memory_of c) = None" "authority c = Some h"
  using assms by (auto elim: durable_invE)

text \<open>The signature a client of the in-memory cache would give.\<close>

definition keyed :: "(string \<Rightarrow> string) \<Rightarrow> string \<Rightarrow> string" where
  "keyed h s = (if s = [] then [] else h s)"

lemma signature_sim:
  assumes "durable_inv h c" and "\<And>s. authorityDigest (h s)"
  shows "signatureAuthority (memory_of c) (keyed h s) = signatureAuthority c s"
proof -
  have "h s \<noteq> []" using assms(2) [of s] by (auto simp: authorityDigest_def)
  then show ?thesis using memory_of_fields [OF assms(1)]
    by (simp add: signatureAuthority_def keyed_def validStoredString_def)
qed

lemma lookupEntry_sim:
  assumes "durable_inv h c"
  shows "durable_inv h (snd (lookupEntry m a t b now c))"
    "lookupEntry m a t b now (memory_of c) = map_prod id memory_of (lookupEntry m a t b now c)"
  using prune_sim [OF assms, of now] memory_of_read [OF prune_sim(1) [OF assms, of now]]
    memory_of_fields [OF assms] memory_of_fields(1) [OF prune_sim(1) [OF assms, of now]]
  by (simp_all add: lookupEntry_def Let_def split: read_result.split)

lemma lookupQuestionTarget_sim:
  assumes "durable_inv h c" and "\<And>s. authorityDigest (h s)"
  shows "durable_inv h (snd (lookupQuestionTarget m s g now c))"
    "lookupQuestionTarget m (keyed h s) g now (memory_of c) = map_prod id memory_of (lookupQuestionTarget m s g now c)"
  using prune_sim [OF assms(1), of now] memory_of_read [OF prune_sim(1) [OF assms(1), of now]] assms(1)
    memory_of_fields [OF assms(1)] memory_of_fields(1) [OF prune_sim(1) [OF assms(1), of now]] signature_sim [OF assms]
  by (simp_all add: lookupQuestionTarget_def Let_def split: option.split read_result.split)

lemma parse_delivered_row:
  assumes "authorityDigest (d_signature d)" and "isSafeInteger (deliveredAt d)" and "0 \<le> deliveredAt d"
    and "case targetIdentity d of None \<Rightarrow> True | Some t \<Rightarrow> validStoredString t"
    and "case questionRoute d of None \<Rightarrow> True | Some r \<Rightarrow> validStoredString (targetSessionId r) \<and> validStoredString (senderGroupIdentity r)"
    and "\<not> questionAnswered d"
  shows "parseStoredMessage (delivered_row d) = Some d"
proof -
  have at: "of_int \<lfloor>deliveredAt d\<rfloor> = deliveredAt d" using assms(2) unfolding isSafeInteger_def by simp
  have st: "(case d_state d of Reserved \<Rightarrow> ''reserved'' | Accepted \<Rightarrow> ''accepted'') \<in> {''reserved'', ''accepted''}"
    "((case d_state d of Reserved \<Rightarrow> ''reserved'' | Accepted \<Rightarrow> ''accepted'') = ''reserved'') = (d_state d = Reserved)"
    by (cases "d_state d"; simp)+
  have sig: "validStoredString (d_signature d)" using assms(1) by (simp add: authorityDigest_def validStoredString_def)
  have st2: "(if d_state d = Reserved then Reserved else Accepted) = d_state d" by (cases "d_state d") simp_all
  have "0 \<le> \<lfloor>deliveredAt d\<rfloor>" using assms(3) by simp
  then show ?thesis
    using assms at st sig st2
    by (auto simp: parseStoredMessage_def delivered_row_def Let_def split: option.splits intro!: delivered.equality)
qed

lemma recordDurable_sim:
  assumes inv: "durable_inv h c" and p: "parseStoredMessage (delivered_row d) = Some d"
  shows "durable_inv h (snd (recordDurable m d c))"
    "recordMemory m d (memory_of c) = map_prod id memory_of (recordDurable m d c)"
proof -
  let ?c = "pruneDurable (deliveredAt d) c"
  note pr = durable_prune [OF inv, of "deliveredAt d"]
  obtain rows where db: "database ?c = Some rows" and ok: "rows_ok rows" and len: "int (length rows) \<le> maxEntries ?c"
    and tot: "total_bytes (view rows) \<le> maxBytes ?c"
    and mem: "memory_of ?c = ?c\<lparr>c_delivered := view rows, retainedBytes := total_bytes (view rows), database := None, authority := None\<rparr>"
    using pr(1) by (rule durable_invE)
  have nonneg: "0 \<le> total_bytes (view rows)"
    unfolding total_bytes_def by (rule sum_list_nonneg) auto
  have safe: "isSafeInteger (of_int (int (length rows)))" "isSafeInteger (of_int (total_bytes (view rows)))"
    using pr(1) len tot nonneg by (simp_all add: isSafeInteger_def durable_inv_def max_safe_def flip: of_int_abs)
  have rd: "readDurable rows m = (case map_get (view rows) m of None \<Rightarrow> Absent | Some d \<Rightarrow> Found d)"
    using ok by (rule readDurable_view)
  let ?full = "int (length rows) \<ge> maxEntries ?c \<or> total_bytes (view rows) + entryByteSize m d > maxBytes ?c"
  let ?new = "?c\<lparr>database := Some (rows @ [(m, delivered_row d)])\<rparr>"
  have D: "recordDurable m d c = (case map_get (view rows) m of
      Some e \<Rightarrow> (compare_delivered e d, ?c) | None \<Rightarrow> if ?full then (Capacity, ?c) else (Recorded, ?new))"
    using db rd sum_row_bytes [OF ok] safe nonneg
    by (simp add: recordDurable_def Let_def split: option.split)
  have M: "recordMemory m d (memory_of c) = (case map_get (view rows) m of
      Some e \<Rightarrow> (compare_delivered e d, memory_of ?c) | None \<Rightarrow> if ?full then (Capacity, memory_of ?c)
        else (Recorded, (memory_of ?c)\<lparr>c_delivered := map_set (view rows) m d,
               retainedBytes := total_bytes (view rows) + entryByteSize m d\<rparr>))"
    unfolding recordMemory_def Let_def pr(2) by (simp add: mem split: option.split)
  have new: "durable_inv h ?new \<and> memory_of ?new = (memory_of ?c)\<lparr>c_delivered := map_set (view rows) m d,
               retainedBytes := total_bytes (view rows) + entryByteSize m d\<rparr>"
    if n: "map_get (view rows) m = None" and f: "\<not> ?full"
  proof -
    have v: "view (rows @ [(m, delivered_row d)]) = view rows @ [(m, d)]" by (simp add: view_def p)
    have "m \<notin> fst ` set rows" using n by (simp add: map_get_None_iff)
    then have "rows_ok (rows @ [(m, delivered_row d)])" using ok p by (auto simp: rows_ok_def wf_map_def)
    moreover have "total_bytes (view rows @ [(m, d)]) = total_bytes (view rows) + entryByteSize m d"
      by (simp add: total_bytes_def)
    ultimately show ?thesis using pr(1) f v n
      by (simp add: durable_inv_def mem map_set_fresh) (simp add: memory_of_def)
  qed
  show "durable_inv h (snd (recordDurable m d c))"
    unfolding D using pr(1) new by (auto split: option.split)
  show "recordMemory m d (memory_of c) = map_prod id memory_of (recordDurable m d c)"
    unfolding D M using new by (auto split: option.split)
qed

lemma record_sim:
  assumes inv: "durable_inv h c" and dig: "\<And>s. authorityDigest (h s)" and na: "\<not> questionAnswered d"
  shows "durable_inv h (snd (recordWithSignature m d c))"
    "recordWithSignature m (d\<lparr>d_signature := keyed h (d_signature d)\<rparr>) (memory_of c) =
       map_prod id memory_of (recordWithSignature m d c)"
proof -
  note f = memory_of_fields [OF inv]
  obtain rows where db: "database c = Some rows" using inv by (rule durable_invE)
  have sig: "signatureAuthority (memory_of c) (keyed h (d_signature d)) = signatureAuthority c (d_signature d)"
    using inv dig by (rule signature_sim)
  have "durable_inv h (snd (recordWithSignature m d c)) \<and>
    recordWithSignature m (d\<lparr>d_signature := keyed h (d_signature d)\<rparr>) (memory_of c) =
       map_prod id memory_of (recordWithSignature m d c)"
  proof (cases "signatureAuthority c (d_signature d)")
    case None
    then show ?thesis using inv sig by (simp add: recordWithSignature_def)
  next
    case (Some a)
    then have a: "authorityDigest a" using f(8) dig by (auto simp: signatureAuthority_def split: if_splits)
    let ?d = "d\<lparr>d_signature := a\<rparr>"
    have rec: "durable_inv h (snd (recordDurable m ?d c)) \<and>
        recordMemory m ?d (memory_of c) = map_prod id memory_of (recordDurable m ?d c)"
      if "isSafeInteger (deliveredAt d)" "0 \<le> deliveredAt d"
        "case targetIdentity d of None \<Rightarrow> True | Some t \<Rightarrow> validStoredString t"
        "case questionRoute d of None \<Rightarrow> True | Some r \<Rightarrow> validStoredString (targetSessionId r) \<and> validStoredString (senderGroupIdentity r)"
    proof -
      have "parseStoredMessage (delivered_row ?d) = Some ?d"
        using that a na by (intro parse_delivered_row) simp_all
      then show ?thesis using recordDurable_sim [OF inv] by blast
    qed
    show ?thesis
      using inv sig Some f rec db
      by (auto simp: recordWithSignature_def recordEntry_def split: option.split)
  qed
  then show "durable_inv h (snd (recordWithSignature m d c))"
    "recordWithSignature m (d\<lparr>d_signature := keyed h (d_signature d)\<rparr>) (memory_of c) =
       map_prod id memory_of (recordWithSignature m d c)" by simp_all
qed

lemma view_update:
  assumes "wf_map rows" and "map_get rows m = Some row" and "parseStoredMessage (f row) = Some d"
  shows "view (map (\<lambda>e. if fst e = m then (fst e, f (snd e)) else e) rows) = map_set (view rows) m d"
  using assms
proof (induction rows)
  case Nil
  then show ?case by simp
next
  case (Cons x rows)
  show ?case
  proof (cases "fst x = m")
    case True
    then have "m \<notin> fst ` set rows" using Cons.prems(1) by (auto simp: wf_map_def)
    then have "map (\<lambda>e. if fst e = m then (fst e, f (snd e)) else e) rows = rows"
      by (intro map_idI) (auto simp: image_iff)
    then show ?thesis using True Cons.prems by (cases x) (simp add: view_def map_get_def)
  next
    case False
    then show ?thesis using Cons by (cases x) (simp add: view_def wf_map_def map_get_def)
  qed
qed

lemma rows_ok_update:
  assumes "rows_ok rows" and "map_get rows m = Some row" and "parseStoredMessage (f row) \<noteq> None"
  shows "rows_ok (map (\<lambda>e. if fst e = m then (fst e, f (snd e)) else e) rows)"
proof -
  have "map fst (map (\<lambda>e. if fst e = m then (fst e, f (snd e)) else e) rows) = map fst rows" by (simp add: comp_def)
  then have "wf_map (map (\<lambda>e. if fst e = m then (fst e, f (snd e)) else e) rows)"
    using assms(1) by (simp only: wf_map_def rows_ok_def)
  moreover have "parseStoredMessage (snd (if fst e = m then (fst e, f (snd e)) else e)) \<noteq> None" if "e \<in> set rows" for e
  proof (cases "fst e = m")
    case True
    then have "map_get rows m = Some (snd e)" using that assms(1) by (auto simp: rows_ok_def map_get_eq_in_set)
    then show ?thesis using assms(2,3) True by simp
  next
    case False
    then show ?thesis using that assms(1) by (simp add: rows_ok_def)
  qed
  then have "\<forall>e \<in> set (map (\<lambda>e. if fst e = m then (fst e, f (snd e)) else e) rows). parseStoredMessage (snd e) \<noteq> None"
    unfolding set_map by blast
  ultimately show ?thesis unfolding rows_ok_def by blast
qed

lemma update_sim:
  assumes inv: "durable_inv h c" and db: "database c = Some rows" and row: "map_get rows m = Some row"
    and parse: "parseStoredMessage row = Some d" "parseStoredMessage (f row) = Some d'"
    and size: "entryByteSize m d' = entryByteSize m d"
  defines "c' \<equiv> c\<lparr>database := Some (map (\<lambda>e. if fst e = m then (fst e, f (snd e)) else e) rows)\<rparr>"
  shows "durable_inv h c'"
    "memory_of c' = (memory_of c)\<lparr>c_delivered := map_set (c_delivered (memory_of c)) m d'\<rparr>"
proof -
  have ok: "rows_ok rows" using inv db by (auto simp: durable_inv_def)
  have v: "view (map (\<lambda>e. if fst e = m then (fst e, f (snd e)) else e) rows) = map_set (view rows) m d'"
    using ok row parse(2) by (intro view_update) (simp_all add: rows_ok_def)
  have "map_get (view rows) m = Some d" using row parse(1) by (simp add: map_get_view)
  then have tot: "total_bytes (map_set (view rows) m d') = total_bytes (view rows)"
    using size by (simp add: total_bytes_map_set)
  have "rows_ok (map (\<lambda>e. if fst e = m then (fst e, f (snd e)) else e) rows)"
    using ok row by (rule rows_ok_update) (simp add: parse(2))
  then show "durable_inv h c'" using inv db v tot by (auto simp: c'_def durable_inv_def)
  show "memory_of c' = (memory_of c)\<lparr>c_delivered := map_set (c_delivered (memory_of c)) m d'\<rparr>"
    using db v tot by (simp add: c'_def memory_of_def)
qed

lemma parse_answered:
  assumes "parseStoredMessage row = Some d"
  shows "parseStoredMessage (row\<lparr>row_question_answered := 1\<rparr>) = Some (d\<lparr>questionAnswered := True\<rparr>)"
  using assms by (auto simp: parseStoredMessage_def Let_def split: if_splits)

lemma parse_accepted:
  assumes "parseStoredMessage row = Some d"
  shows "parseStoredMessage (row\<lparr>row_state := ''accepted''\<rparr>) = Some (d\<lparr>d_state := Accepted\<rparr>)"
  using assms by (auto simp: parseStoredMessage_def Let_def split: if_splits)

lemma read_Found_row:
  assumes "durable_inv h c" and "read c m = Found d"
  obtains rows row where "database c = Some rows" "map_get rows m = Some row" "parseStoredMessage row = Some d"
  using assms by (elim durable_invE) (auto simp: read_def readDurable_def split: option.splits)

lemma settle_sim:
  assumes inv: "durable_inv h c"
  shows "durable_inv h (settleQuestion m c)" "settleQuestion m (memory_of c) = memory_of (settleQuestion m c)"
proof -
  have "durable_inv h (settleQuestion m c) \<and> settleQuestion m (memory_of c) = memory_of (settleQuestion m c)"
  proof (cases "\<exists>d. read c m = Found d \<and> \<not> (d_state d \<noteq> Accepted \<or> questionRoute d = None)")
    case True
    then obtain d where d: "read c m = Found d" "\<not> (d_state d \<noteq> Accepted \<or> questionRoute d = None)"
      by (elim exE conjE)
    obtain rows row where r: "database c = Some rows" "map_get rows m = Some row" "parseStoredMessage row = Some d"
      using inv d(1) by (rule read_Found_row)
    have size: "entryByteSize m (d\<lparr>questionAnswered := True\<rparr>) = entryByteSize m d" by (simp add: entryByteSize_def)
    note u = update_sim [OF inv r, of "\<lambda>r. r\<lparr>row_question_answered := 1\<rparr>", OF parse_answered [OF r(3)] size]
    show ?thesis using u d r(1) memory_of_read [OF inv] memory_of_fields(6) [OF inv]
      by (auto simp: settleQuestion_def)
  next
    case False
    then have "settleQuestion m c = c" "settleQuestion m (memory_of c) = memory_of c"
      using memory_of_read [OF inv] by (auto simp: settleQuestion_def split: read_result.split)
    then show ?thesis using inv by simp
  qed
  then show "durable_inv h (settleQuestion m c)" "settleQuestion m (memory_of c) = memory_of (settleQuestion m c)" by simp_all
qed

lemma accept_update_eq:
  assumes "rows_ok rows" and "map_get rows m = Some row" and "row_signature row = a"
  shows "map (\<lambda>e. if fst e = m \<and> row_signature (snd e) = a then (fst e, (snd e)\<lparr>row_state := ''accepted''\<rparr>) else e) rows =
      map (\<lambda>e. if fst e = m then (fst e, (snd e)\<lparr>row_state := ''accepted''\<rparr>) else e) rows"
    "length (filter (\<lambda>e. fst e = m \<and> row_signature (snd e) = a) rows) = 1"
proof -
  have sig: "e \<in> set rows \<Longrightarrow> fst e = m \<Longrightarrow> snd e = row" for e
    using assms(1,2) by (cases e) (auto simp: rows_ok_def map_get_eq_in_set [symmetric])
  then show "map (\<lambda>e. if fst e = m \<and> row_signature (snd e) = a then (fst e, (snd e)\<lparr>row_state := ''accepted''\<rparr>) else e) rows =
      map (\<lambda>e. if fst e = m then (fst e, (snd e)\<lparr>row_state := ''accepted''\<rparr>) else e) rows"
    using assms(3) by (intro map_cong) auto
  have mem: "(m, row) \<in> set rows" using assms(2) by (rule map_get_Some_in_set)
  have "set (filter (\<lambda>e. fst e = m \<and> row_signature (snd e) = a) rows) = {(m, row)}"
  proof (intro set_eqI iffI)
    fix e
    assume "e \<in> set (filter (\<lambda>e. fst e = m \<and> row_signature (snd e) = a) rows)"
    then have "e \<in> set rows" "fst e = m" by simp_all
    then have "e = (m, row)" using sig [of e] by (simp add: prod_eq_iff)
    then show "e \<in> {(m, row)}" by simp
  qed (use mem assms(3) in simp)
  moreover have "distinct (filter (\<lambda>e. fst e = m \<and> row_signature (snd e) = a) rows)"
    using assms(1) by (simp add: rows_ok_def wf_map_def distinct_map)
  ultimately show "length (filter (\<lambda>e. fst e = m \<and> row_signature (snd e) = a) rows) = 1"
    using distinct_card [of "filter (\<lambda>e. fst e = m \<and> row_signature (snd e) = a) rows"] by simp
qed

lemma accept_sim:
  assumes inv: "durable_inv h c" and dig: "\<And>s. authorityDigest (h s)"
  shows "durable_inv h (snd (accept m s t c))" "accept m (keyed h s) t (memory_of c) = map_prod id memory_of (accept m s t c)"
proof -
  have sig: "signatureAuthority (memory_of c) (keyed h s) = signatureAuthority c s" using inv dig by (rule signature_sim)
  have "durable_inv h (snd (accept m s t c)) \<and> accept m (keyed h s) t (memory_of c) = map_prod id memory_of (accept m s t c)"
  proof (cases "\<exists>a d. signatureAuthority c s = Some a \<and> read c m = Found d \<and> d_signature d = a \<and> targetIdentity d = t \<and> d_state d \<noteq> Accepted")
    case True
    then obtain d where d: "signatureAuthority c s = Some (d_signature d)" "read c m = Found d"
      "targetIdentity d = t" "d_state d \<noteq> Accepted" by blast
    obtain rows row where r: "database c = Some rows" "map_get rows m = Some row" "parseStoredMessage row = Some d"
      using inv d(2) by (rule read_Found_row)
    have ok: "rows_ok rows" using inv r(1) by (auto simp: durable_inv_def)
    have size: "entryByteSize m (d\<lparr>d_state := Accepted\<rparr>) = entryByteSize m d" by (simp add: entryByteSize_def)
    note u = update_sim [OF inv r, of "\<lambda>r. r\<lparr>row_state := ''accepted''\<rparr>", OF parse_accepted [OF r(3)] size]
    note e = accept_update_eq [OF ok r(2), of "d_signature d", OF parse_fields(1) [OF r(3), symmetric]]
    show ?thesis using u d r(1) sig memory_of_read [OF inv] memory_of_fields(6) [OF inv]
      by (simp add: accept_def Let_def e)
  next
    case False
    then show ?thesis using inv sig memory_of_read [OF inv]
      by (auto simp: accept_def split: option.split read_result.split)
  qed
  then show "durable_inv h (snd (accept m s t c))" "accept m (keyed h s) t (memory_of c) = map_prod id memory_of (accept m s t c)"
    by simp_all
qed

lemma filter_forget:
  "wf_map v \<Longrightarrow> filter (\<lambda>e. \<not> (fst e = m \<and> d_signature (snd e) = a)) v =
      (case map_get v m of Some d \<Rightarrow> if d_signature d = a then map_delete v m else v | None \<Rightarrow> v)"
proof -
  assume wf: "wf_map v"
  have key: "e \<in> set v \<Longrightarrow> fst e = m \<Longrightarrow> map_get v m = Some (snd e)" for e
    using wf by (cases e) (auto simp: map_get_eq_in_set)
  show ?thesis
  proof (cases "\<exists>d. map_get v m = Some d \<and> d_signature d = a")
    case True
    then have "\<And>e. e \<in> set v \<Longrightarrow> (\<not> (fst e = m \<and> d_signature (snd e) = a)) = (fst e \<noteq> m)" using key by auto
    then have "filter (\<lambda>e. \<not> (fst e = m \<and> d_signature (snd e) = a)) v = filter (\<lambda>e. fst e \<noteq> m) v" by (rule filter_cong [OF refl])
    then show ?thesis using True by (auto simp: map_delete_def)
  next
    case False
    then have "\<And>e. e \<in> set v \<Longrightarrow> \<not> (fst e = m \<and> d_signature (snd e) = a)" using key by blast
    then have "filter (\<lambda>e. \<not> (fst e = m \<and> d_signature (snd e) = a)) v = v" by (auto simp: filter_id_conv)
    then show ?thesis using False by (auto split: option.split)
  qed
qed

lemma forget_sim:
  assumes inv: "durable_inv h c" and dig: "\<And>s. authorityDigest (h s)"
  shows "durable_inv h (forget m s c)" "forget m (keyed h s) (memory_of c) = memory_of (forget m s c)"
proof -
  have sig: "signatureAuthority (memory_of c) (keyed h s) = signatureAuthority c s" using inv dig by (rule signature_sim)
  obtain rows where db: "database c = Some rows" and ok: "rows_ok rows" and len: "int (length rows) \<le> maxEntries c"
    and tot: "total_bytes (view rows) \<le> maxBytes c"
    and mem: "memory_of c = c\<lparr>c_delivered := view rows, retainedBytes := total_bytes (view rows), database := None, authority := None\<rparr>"
    using inv by (rule durable_invE)
  have "durable_inv h (forget m s c) \<and> forget m (keyed h s) (memory_of c) = memory_of (forget m s c)"
  proof (cases "signatureAuthority c s")
    case None
    then show ?thesis using inv sig by (simp add: forget_def)
  next
    case (Some a)
    let ?rows = "filter (\<lambda>e. \<not> (fst e = m \<and> row_signature (snd e) = a)) rows"
    have v: "view ?rows = filter (\<lambda>e. \<not> (fst e = m \<and> d_signature (snd e) = a)) (view rows)"
      by (rule view_filter [where P = "\<lambda>k row. \<not> (k = m \<and> row_signature row = a)" and Q = "\<lambda>k d. \<not> (k = m \<and> d_signature d = a)"])
        (use ok parse_fields(1) in \<open>force simp: rows_ok_def\<close>)
    have "int (length ?rows) \<le> int (length rows)" by simp
    then have len': "int (length ?rows) \<le> maxEntries c" using len by linarith
    have d: "durable_inv h (forget m s c)"
      using inv db Some ok len' tot v total_bytes_filter_le [of "\<lambda>e. \<not> (fst e = m \<and> d_signature (snd e) = a)" "view rows"]
      by (simp add: forget_def durable_inv_def rows_ok_filter)
    have fd: "filter (\<lambda>e. \<not> (fst e = m \<and> d_signature (snd e) = a)) (view rows) =
      (case map_get (view rows) m of Some d \<Rightarrow> if d_signature d = a then map_delete (view rows) m else view rows | None \<Rightarrow> view rows)"
      using wf_view [OF ok] by (rule filter_forget)
    show ?thesis using d db Some sig v fd total_bytes_map_delete [OF wf_view [OF ok], of m]
      by (auto simp: forget_def mem memory_of_def split: option.splits)
  qed
  then show "durable_inv h (forget m s c)" "forget m (keyed h s) (memory_of c) = memory_of (forget m s c)" by simp_all
qed

text \<open>The operation of the in-memory cache that corresponds to one of the durable cache.\<close>

fun keyed_op :: "(string \<Rightarrow> string) \<Rightarrow> cache_op \<Rightarrow> cache_op" where
  "keyed_op h (Lookup m s now) = Lookup m (keyed h s) now"
| "keyed_op h (LookupForTarget m s t now) = LookupForTarget m (keyed h s) t now"
| "keyed_op h (LookupQuestionTarget m s g now) = LookupQuestionTarget m (keyed h s) g now"
| "keyed_op h (IsQuestionAnswered m) = IsQuestionAnswered m"
| "keyed_op h (SettleQuestion m) = SettleQuestion m"
| "keyed_op h (Record m s r now t) = Record m (keyed h s) r now t"
| "keyed_op h (ReserveMessage m s r now t) = ReserveMessage m (keyed h s) r now t"
| "keyed_op h (Accept m s t) = Accept m (keyed h s) t"
| "keyed_op h (Forget m s) = Forget m (keyed h s)"

lemma step_sim:
  assumes inv: "durable_inv h c" and dig: "\<And>s. authorityDigest (h s)"
  shows "durable_inv h (snd (cache_step x c)) \<and>
    cache_step (keyed_op h x) (memory_of c) = map_prod id memory_of (cache_step x c)"
proof (cases x)
  case (Lookup m s now)
  then show ?thesis using inv lookupEntry_sim [OF inv] signature_sim [OF inv dig, of s]
    by (simp add: lookup_def prod.map_comp comp_def split: option.split)
next
  case (LookupForTarget m s t now)
  then show ?thesis using inv lookupEntry_sim [OF inv] signature_sim [OF inv dig, of s]
    by (simp add: lookupForTarget_def prod.map_comp comp_def split: option.split)
next
  case (LookupQuestionTarget m s g now)
  then show ?thesis using lookupQuestionTarget_sim [OF inv dig] by (simp add: prod.map_comp comp_def)
next
  case (IsQuestionAnswered m)
  then show ?thesis using inv memory_of_read [OF inv] memory_of_fields [OF inv] by (simp add: isQuestionAnswered_def)
next
  case (SettleQuestion m)
  then show ?thesis using settle_sim [OF inv] by simp
next
  case (Record m s r now t)
  let ?d = "\<lparr>d_state = Accepted, deliveredAt = now, d_signature = s, targetIdentity = t, questionRoute = r, questionAnswered = False\<rparr>"
  show ?thesis using record_sim [OF inv dig, of ?d m] Record
    by (simp add: record_message_def prod.map_comp comp_def)
next
  case (ReserveMessage m s r now t)
  let ?d = "\<lparr>d_state = Reserved, deliveredAt = now, d_signature = s, targetIdentity = t, questionRoute = r, questionAnswered = False\<rparr>"
  show ?thesis using record_sim [OF inv dig, of ?d m] ReserveMessage
    by (simp add: reserve_message_def prod.map_comp comp_def)
next
  case (Accept m s t)
  then show ?thesis using accept_sim [OF inv dig] by (simp add: prod.map_comp comp_def)
next
  case (Forget m s)
  then show ?thesis using forget_sim [OF inv dig] by simp
qed

lemma run_sim:
  assumes "durable_inv h c" and "\<And>s. authorityDigest (h s)"
  shows "durable_inv h (snd (cache_run xs c)) \<and>
    cache_run (map (keyed_op h) xs) (memory_of c) = map_prod id memory_of (cache_run xs c)"
  using assms(1)
proof (induction xs arbitrary: c)
  case Nil
  then show ?case by simp
next
  case (Cons x xs)
  note s = step_sim [OF Cons.prems assms(2), of x]
  obtain out c' where step: "cache_step x c = (out, c')" by (cases "cache_step x c")
  have "durable_inv h c'" and "cache_step (keyed_op h x) (memory_of c) = (out, memory_of c')"
    using s step by simp_all
  moreover obtain outs c'' where "cache_run xs c' = (outs, c'')" by (cases "cache_run xs c'")
  ultimately show ?case using Cons.IH [of c'] step by simp
qed

text \<open>Closing the cache and opening it again finds the rows and the key where they were.\<close>

definition reopen :: "(string \<Rightarrow> string \<Rightarrow> string) \<Rightarrow> string \<Rightarrow> cache \<Rightarrow> cache" where
  "reopen hmac key c = open_durable hmac (ttlMs c) (maxEntries c) (maxBytes c) (map_option Rows (database c)) (Some key) [] True"

lemma durable_inv_open:
  assumes "length key = AUTHORITY_KEY_BYTES" and "0 \<le> entries" "entries \<le> max_safe" "0 \<le> bytes" "bytes \<le> max_safe"
  shows "durable_inv (hmac key) (open_durable hmac ttl entries bytes None None key True)"
    "memory_of (open_durable hmac ttl entries bytes None None key True) = empty_cache ttl entries bytes"
  using assms
  by (simp_all add: durable_inv_def open_durable_def prepareDurableAuthority_def empty_cache_def rows_ok_def view_def
      total_bytes_def memory_of_def)

lemma durable_inv_reopen:
  assumes "durable_inv (hmac key) c" and "length key = AUTHORITY_KEY_BYTES"
  shows "durable_inv (hmac key) (reopen hmac key c)" "memory_of (reopen hmac key c) = memory_of c"
proof -
  obtain rows where db: "database c = Some rows" using assms(1) by (rule durable_invE)
  then have r: "reopen hmac key c = (empty_cache (ttlMs c) (maxEntries c) (maxBytes c))\<lparr>authority := Some (hmac key), database := Some rows\<rparr>"
    using assms(2) by (simp add: reopen_def open_durable_def prepareDurableAuthority_def)
  show "durable_inv (hmac key) (reopen hmac key c)" using assms(1) db by (simp add: r durable_inv_def empty_cache_def)
  show "memory_of (reopen hmac key c) = memory_of c"
    using assms(1) db by (simp add: r memory_of_def empty_cache_def durable_inv_def)
qed

lemma cache_run_append:
  "cache_run (xs @ ys) c = (let (o1, c1) = cache_run xs c; (o2, c2) = cache_run ys c1 in (o1 @ o2, c2))"
  by (induction xs arbitrary: c) (simp_all add: Let_def split_beta)

section \<open>An entry holds its message until it expires\<close>

text \<open>
  What every operation leaves of an entry: it stays under its identifier with its signature and
  target, it may only move from reserved to accepted, unless the operation forgets exactly it or
  reads at a time past its retention.
\<close>

definition keeps :: "delivered \<Rightarrow> delivered \<Rightarrow> bool" where
  "keeps d d' \<longleftrightarrow> d_signature d' = d_signature d \<and> targetIdentity d' = targetIdentity d \<and> deliveredAt d' = deliveredAt d \<and>
     questionRoute d' = questionRoute d \<and>
     (d_state d = Accepted \<longrightarrow> d_state d' = Accepted) \<and> (questionAnswered d \<longrightarrow> questionAnswered d')"

lemma keeps_refl [simp]: "keeps d d"
  by (simp add: keeps_def)

lemma keeps_trans: "keeps d e \<Longrightarrow> keeps e f \<Longrightarrow> keeps d f"
  by (auto simp: keeps_def)

fun op_time :: "cache_op \<Rightarrow> rat option" where
  "op_time (Lookup m s now) = Some now"
| "op_time (LookupForTarget m s t now) = Some now"
| "op_time (LookupQuestionTarget m s g now) = Some now"
| "op_time (Record m s r now t) = Some now"
| "op_time (ReserveMessage m s r now t) = Some now"
| "op_time _ = None"

text \<open>The operation neither forgets the entry nor happens after its retention.\<close>

definition spares :: "rat \<Rightarrow> string \<Rightarrow> delivered \<Rightarrow> cache_op \<Rightarrow> bool" where
  "spares ttl m d x \<longleftrightarrow> x \<noteq> Forget m (d_signature d) \<and>
     (case op_time x of None \<Rightarrow> True | Some now \<Rightarrow> now - deliveredAt d \<le> ttl)"

definition holds :: "string \<Rightarrow> delivered \<Rightarrow> cache \<Rightarrow> bool" where
  "holds m d c \<longleftrightarrow> memory_inv c \<and> authority c = None \<and> \<not> storageInvalid c \<and> map_get (c_delivered c) m = Some d"

lemma map_get_filter:
  assumes "wf_map v" and "map_get v m = Some d" and "P (m, d)"
  shows "map_get (filter P v) m = Some d"
  using assms map_get_eq_in_set [OF wf_map_filter [OF assms(1)], of P m d] map_get_Some_in_set [OF assms(2)] by simp

lemma holds_pruneMemory:
  assumes "holds m d c" and "now - deliveredAt d \<le> ttlMs c"
  shows "holds m d (pruneMemory now c)"
proof -
  have inv: "memory_inv c" and g: "map_get (c_delivered c) m = Some d" using assms(1) by (simp_all add: holds_def)
  have "map_get (filter (live now c) (c_delivered c)) m = Some d"
    using inv g assms(2) by (intro map_get_filter) (simp_all add: memory_inv_def live_def)
  then show ?thesis using assms(1) memory_inv_pruneMemory [OF inv, of now] pruneMemory_effect [OF inv, of now]
    by (simp add: holds_def)
qed

lemma holds_prune: "holds m d c \<Longrightarrow> now - deliveredAt d \<le> ttlMs c \<Longrightarrow> holds m d (prune now c)"
  using holds_pruneMemory [of m d c now] by (simp add: prune_def holds_def memory_inv_db)

lemma holds_recordMemory:
  assumes "holds m d c" and "deliveredAt e - deliveredAt d \<le> ttlMs c"
  shows "holds m d (snd (recordMemory k e c))"
proof -
  have p: "holds m d (pruneMemory (deliveredAt e) c)" using assms by (rule holds_pruneMemory)
  have inv: "memory_inv (snd (recordMemory k e c))" using assms(1) by (intro memory_inv_recordMemory) (simp add: holds_def)
  show ?thesis using p inv by (auto simp: recordMemory_def Let_def holds_def split: option.splits if_splits)
qed

lemma holds_recordWithSignature:
  assumes "holds m d c" and "deliveredAt e - deliveredAt d \<le> ttlMs c"
  shows "holds m d (snd (recordWithSignature k e c))"
proof -
  have "holds m d (snd (recordMemory k (e\<lparr>d_signature := a\<rparr>) c))" for a
    using assms by (intro holds_recordMemory) simp_all
  moreover have "database c = None" using assms(1) by (simp add: holds_def memory_inv_db)
  ultimately show ?thesis using assms(1) by (auto simp: recordWithSignature_def recordEntry_def split: option.split)
qed

lemma holds_replace:
  assumes "holds m d c" and "map_get (c_delivered c) k = Some e" and "memory_inv (c\<lparr>c_delivered := map_set (c_delivered c) k e'\<rparr>)"
    and "keeps e e'"
  shows "\<exists>d'. keeps d d' \<and> holds m d' (c\<lparr>c_delivered := map_set (c_delivered c) k e'\<rparr>)"
  using assms by (cases "k = m") (auto simp: holds_def)

lemma holds_accept:
  assumes "holds m d c"
  shows "\<exists>d'. keeps d d' \<and> holds m d' (snd (accept k s t c))"
proof -
  have inv: "memory_inv c" using assms by (simp add: holds_def)
  have "\<exists>d'. keeps d d' \<and> holds m d' (c\<lparr>c_delivered := map_set (c_delivered c) k (e\<lparr>d_state := Accepted\<rparr>)\<rparr>)"
    if "map_get (c_delivered c) k = Some e" for e
    using assms that memory_inv_replace [OF inv that] by (rule holds_replace) (simp_all add: keeps_def entryByteSize_def)
  moreover have "\<exists>d'. keeps d d' \<and> holds m d' c" using assms keeps_refl by blast
  ultimately show ?thesis using memory_read [OF inv] memory_inv_db [OF inv]
    by (auto simp: accept_def split: option.split read_result.split)
qed

lemma holds_settle:
  assumes "holds m d c"
  shows "\<exists>d'. keeps d d' \<and> holds m d' (settleQuestion k c)"
proof -
  have inv: "memory_inv c" using assms by (simp add: holds_def)
  have "\<exists>d'. keeps d d' \<and> holds m d' (c\<lparr>c_delivered := map_set (c_delivered c) k (e\<lparr>questionAnswered := True\<rparr>)\<rparr>)"
    if "map_get (c_delivered c) k = Some e" for e
    using assms that memory_inv_replace [OF inv that] by (rule holds_replace) (simp_all add: keeps_def entryByteSize_def)
  moreover have "\<exists>d'. keeps d d' \<and> holds m d' c" using assms keeps_refl by blast
  ultimately show ?thesis using memory_read [OF inv] memory_inv_db [OF inv]
    by (auto simp: settleQuestion_def split: option.split read_result.split)
qed

lemma holds_forget:
  assumes "holds m d c" and "k \<noteq> m \<or> s \<noteq> d_signature d"
  shows "holds m d (forget k s c)"
proof -
  have inv: "memory_inv c" using assms(1) by (simp add: holds_def)
  show ?thesis using assms memory_inv_forget [OF inv, of k s] memory_inv_db [OF inv]
    by (auto simp: forget_def holds_def signatureAuthority_def split: option.splits if_splits)
qed

lemma holds_lookupEntry:
  assumes "holds m d c" and "now - deliveredAt d \<le> ttlMs c"
  shows "holds m d (snd (lookupEntry k a t b now c))"
  using assms holds_prune [OF assms] by (simp add: lookupEntry_def Let_def)

lemma holds_step:
  assumes h: "holds m d c" and x: "spares (ttlMs c) m d x"
  shows "\<exists>d'. keeps d d' \<and> holds m d' (snd (cache_step x c))"
proof (cases x)
  case (Lookup k s now)
  then show ?thesis using h x holds_lookupEntry [OF h, of now]
    by (auto simp: spares_def lookup_def split: option.split intro!: exI [of _ d])
next
  case (LookupForTarget k s t now)
  then show ?thesis using h x holds_lookupEntry [OF h, of now]
    by (auto simp: spares_def lookupForTarget_def split: option.split intro!: exI [of _ d])
next
  case (LookupQuestionTarget k s g now)
  then show ?thesis using h x holds_prune [OF h, of now]
    by (auto simp: spares_def lookupQuestionTarget_def Let_def split: option.split intro!: exI [of _ d])
next
  case (Record k s r now t)
  then show ?thesis using x holds_recordWithSignature [OF h]
    by (auto simp: spares_def record_message_def intro!: exI [of _ d])
next
  case (ReserveMessage k s r now t)
  then show ?thesis using x holds_recordWithSignature [OF h]
    by (auto simp: spares_def reserve_message_def intro!: exI [of _ d])
next
  case (Forget k s)
  then show ?thesis using x holds_forget [OF h] by (auto simp: spares_def intro!: exI [of _ d])
qed (use h holds_accept [OF h] holds_settle [OF h] in \<open>auto intro!: exI [of _ d]\<close>)

lemma prune_ttl: "memory_inv c \<Longrightarrow> ttlMs (prune now c) = ttlMs c"
  by (simp add: prune_def memory_inv_db)

lemma record_ttl: "memory_inv c \<Longrightarrow> ttlMs (snd (recordWithSignature m d c)) = ttlMs c"
  by (simp add: recordWithSignature_def recordEntry_def recordMemory_def Let_def memory_inv_db split: option.split)

lemma step_ttl: "memory_inv c \<Longrightarrow> ttlMs (snd (cache_step x c)) = ttlMs c"
  by (cases x)
    (auto simp: lookup_def lookupForTarget_def lookupQuestionTarget_def lookupEntry_def settleQuestion_def accept_def forget_def
      record_message_def reserve_message_def prune_ttl record_ttl memory_inv_db Let_def
      split: option.split read_result.split)

lemma run_ttl: "memory_inv c \<Longrightarrow> ttlMs c = ttl \<Longrightarrow> ttlMs (foldl (\<lambda>c x. snd (cache_step x c)) c xs) = ttl"
  by (induction xs arbitrary: c) (simp_all add: step_ttl memory_inv_step)

lemma spares_keeps: "keeps d d' \<Longrightarrow> spares ttl m d' x = spares ttl m d x"
  by (auto simp: spares_def keeps_def split: option.splits)

lemma holds_run:
  assumes "holds m d c" and "list_all (spares (ttlMs c) m d) xs"
  shows "\<exists>d'. keeps d d' \<and> holds m d' (snd (cache_run xs c))"
  using assms
proof (induction xs arbitrary: c d)
  case Nil
  then show ?case by (auto intro: exI [of _ d])
next
  case (Cons x xs)
  obtain d1 where d1: "keeps d d1" "holds m d1 (snd (cache_step x c))"
    using holds_step [OF Cons.prems(1)] Cons.prems(2) by auto
  have "ttlMs (snd (cache_step x c)) = ttlMs c" using Cons.prems(1) by (intro step_ttl) (simp add: holds_def)
  then have "list_all (spares (ttlMs (snd (cache_step x c))) m d1) xs"
    using Cons.prems(2) spares_keeps [OF d1(1)] by (simp add: list_all_iff)
  then obtain d2 where "keeps d1 d2" "holds m d2 (snd (cache_run xs (snd (cache_step x c))))"
    using Cons.IH [OF d1(2)] by blast
  then show ?case using keeps_trans [OF d1(1)] by (auto simp: Let_def split_beta)
qed

lemma holds_accepted:
  assumes "holds m d c" and that: "d_signature d \<noteq> []"
  shows "\<exists>d'. keeps d d' \<and> d_state d' = Accepted \<and> holds m d' (snd (accept m (d_signature d) (targetIdentity d) c))"
proof -
  have inv: "memory_inv c" and g: "map_get (c_delivered c) m = Some d" using assms by (simp_all add: holds_def)
  have a: "signatureAuthority c (d_signature d) = Some (d_signature d)"
    using assms that by (simp add: holds_def signatureAuthority_def validStoredString_def)
  have r: "read c m = Found d" using memory_read [OF inv] g by simp
  obtain d' where d': "keeps d d'" "holds m d' (snd (accept m (d_signature d) (targetIdentity d) c))"
    using holds_accept [OF assms(1)] by blast
  have "d_state d' = Accepted"
    using d'(2) a r g memory_inv_db [OF inv] by (auto simp: accept_def holds_def split: if_splits)
  then show ?thesis using d' by blast
qed

lemma holds_lookup:
  assumes "holds m d c" and "now - deliveredAt d \<le> ttlMs c" and "s \<noteq> []"
  shows "fst (lookup m s now c) = (if s \<noteq> d_signature d then Conflict else if d_state d = Reserved then Uncertain else Match)"
proof -
  have p: "holds m d (prune now c)" using assms(1,2) by (rule holds_prune)
  then have r: "read (prune now c) m = Found d" using memory_read [of "prune now c" m d] by (simp add: holds_def)
  have "ttlMs (prune now c) = ttlMs c" using assms(1) by (intro prune_ttl) (simp add: holds_def)
  then show ?thesis using assms r
    by (simp add: lookup_def lookupEntry_def Let_def signatureAuthority_def validStoredString_def holds_def)
qed

lemma holds_not_recorded:
  assumes "holds m d c" and "deliveredAt e - deliveredAt d \<le> ttlMs c"
  shows "fst (recordWithSignature m e c) \<noteq> Recorded"
proof -
  have "fst (recordMemory m (e\<lparr>d_signature := a\<rparr>) c) \<noteq> Recorded" for a
  proof -
    have "holds m d (pruneMemory (deliveredAt e) c)" using assms by (rule holds_pruneMemory)
    then show ?thesis by (simp add: recordMemory_def Let_def holds_def compare_delivered_def)
  qed
  moreover have "database c = None" using assms(1) by (simp add: holds_def memory_inv_db)
  ultimately show ?thesis by (auto simp: recordWithSignature_def recordEntry_def split: option.split)
qed

lemma recorded_holds:
  assumes "memory_inv c" and "authority c = None" and "recordWithSignature m d c = (Recorded, c')"
  shows "holds m d c' \<and> ttlMs c' = ttlMs c \<and> d_signature d \<noteq> []"
proof -
  have inv: "memory_inv c'" using memory_inv_record [OF assms(1), of m d] assms(3) by simp
  obtain a where a: "signatureAuthority c (d_signature d) = Some a"
    using assms(3) by (auto simp: recordWithSignature_def split: option.splits)
  then have sig: "a = d_signature d" "d_signature d \<noteq> []" "\<not> storageInvalid c"
    using assms(2) by (auto simp: signatureAuthority_def validStoredString_def split: if_splits)
  then have "d\<lparr>d_signature := a\<rparr> = d" by simp
  then have "recordMemory m d c = (Recorded, c')"
    using assms(1,3) a by (auto simp: recordWithSignature_def recordEntry_def memory_inv_db split: option.splits if_splits)
  then show ?thesis using inv sig assms(1,2)
    by (auto simp: recordMemory_def Let_def holds_def compare_delivered_def split: option.splits if_splits)
qed

lemma run_fields: "memory_inv c \<Longrightarrow> memory_inv (snd (cache_run xs c))"
  unfolding cache_run_state by (rule dm.inv_run_from)

lemma step_authority: "memory_inv c \<Longrightarrow> authority (snd (cache_step x c)) = authority c"
  by (cases x)
    (auto simp: lookup_def lookupForTarget_def lookupQuestionTarget_def lookupEntry_def settleQuestion_def accept_def forget_def
      record_message_def reserve_message_def recordWithSignature_def recordEntry_def recordMemory_def prune_def memory_inv_db Let_def
      split: option.split read_result.split)

lemma run_authority: "memory_inv c \<Longrightarrow> authority (snd (cache_run xs c)) = authority c"
proof (induction xs arbitrary: c)
  case Nil
  then show ?case by simp
next
  case (Cons x xs)
  then show ?case using memory_inv_step [OF Cons.prems] step_authority [OF Cons.prems]
    by (simp add: Let_def split_beta)
qed

lemma step_bounds: "memory_inv c \<Longrightarrow> maxEntries (snd (cache_step x c)) = maxEntries c \<and> maxBytes (snd (cache_step x c)) = maxBytes c"
  by (cases x)
    (auto simp: lookup_def lookupForTarget_def lookupQuestionTarget_def lookupEntry_def settleQuestion_def accept_def forget_def
      record_message_def reserve_message_def recordWithSignature_def recordEntry_def recordMemory_def prune_def memory_inv_db Let_def
      split: option.split read_result.split)

lemma run_bounds: "memory_inv c \<Longrightarrow> maxEntries (snd (cache_run xs c)) = maxEntries c \<and> maxBytes (snd (cache_run xs c)) = maxBytes c"
proof (induction xs arbitrary: c)
  case Nil
  then show ?case by simp
next
  case (Cons x xs)
  then show ?case using memory_inv_step [OF Cons.prems] step_bounds [OF Cons.prems]
    by (simp add: Let_def split_beta)
qed

section \<open>What the authority guarantees\<close>

text \<open>
  C10. A message is reserved once. After a successful reservation, whatever the broker does next
  short of forgetting exactly it, and as long as its retention lasts: no reservation or record under
  its identifier succeeds again, a lookup with another payload is a conflict, a lookup with its own
  is never a miss, and once the forward was accepted it is a match for good.
\<close>

theorem reserved_once:
  assumes c: "c = snd (cache_run xs (empty_cache ttl entries bytes))"
    and reserved: "reserve_message m s route t0 target c = (Recorded, c1)"
    and spared: "list_all (\<lambda>x. x \<noteq> Forget m s \<and> (\<forall>now. op_time x = Some now \<longrightarrow> now - t0 \<le> ttl)) ys"
    and c2: "c2 = snd (cache_run ys c1)" and "now - t0 \<le> ttl"
  shows "fst (reserve_message m s' route' now target' c2) \<noteq> Recorded \<and>
    fst (record_message m s' route' now target' c2) \<noteq> Recorded \<and>
    (s' \<noteq> [] \<longrightarrow> s' \<noteq> s \<longrightarrow> fst (lookup m s' now c2) = Conflict) \<and>
    fst (lookup m s now c2) \<in> {Uncertain, Match} \<and>
    (Accept m s target \<in> set ys \<longrightarrow> fst (lookup m s now c2) = Match)"
proof -
  let ?d = "\<lparr>d_state = Reserved, deliveredAt = t0, d_signature = s, targetIdentity = target, questionRoute = route, questionAnswered = False\<rparr>"
  have e: "memory_inv (empty_cache ttl entries bytes)" by (rule memory_inv_empty)
  have inv: "memory_inv c" "authority c = None"
    unfolding c using run_fields [OF e] run_authority [OF e] by (simp_all add: empty_cache_def)
  have t: "ttlMs c = ttl" unfolding c cache_run_state
    by (rule run_ttl [OF e]) (simp add: empty_cache_def)
  have h1: "holds m ?d c1" "ttlMs c1 = ttl" "s \<noteq> []"
    using recorded_holds [OF inv, of m ?d c1] reserved t by (auto simp: reserve_message_def)
  have sp: "list_all (spares (ttlMs c1) m ?d) ys"
    using spared by (auto simp: list_all_iff spares_def h1(2) split: option.split)
  obtain d2 where d2: "keeps ?d d2" "holds m d2 c2" using holds_run [OF h1(1) sp] c2 by blast
  have t2: "ttlMs c2 = ttl" unfolding c2 cache_run_state
    using h1 by (intro run_ttl) (simp_all add: holds_def)
  have fields: "d_signature d2 = s" "deliveredAt d2 = t0" using d2(1) by (simp_all add: keeps_def)
  have acc: "d_state d2 = Accepted" if "Accept m s target \<in> set ys"
  proof -
    obtain us vs where ys: "ys = us @ Accept m s target # vs" using split_list [OF \<open>Accept m s target \<in> set ys\<close>] by blast
    obtain d3 where d3: "keeps ?d d3" "holds m d3 (snd (cache_run us c1))"
      using holds_run [OF h1(1), of us] sp ys by auto
    let ?c3 = "snd (cache_run us c1)"
    obtain d4 where d4: "keeps d3 d4" "d_state d4 = Accepted" "holds m d4 (snd (accept m s target ?c3))"
      using holds_accepted [OF d3(2)] d3(1) h1(3) by (auto simp: keeps_def)
    have k4: "keeps ?d d4" using d3(1) d4(1) by (rule keeps_trans)
    have t4: "ttlMs (snd (accept m s target ?c3)) = ttl"
      using d3(2) step_ttl [of ?c3 "Accept m s target"] run_ttl [of c1 ttl us] h1 by (simp add: holds_def cache_run_state)
    have "list_all (spares ttl m d4) vs" using sp ys spares_keeps [OF k4] h1(2) by (simp add: list_all_iff)
    then obtain d5 where d5: "keeps d4 d5" "holds m d5 (snd (cache_run vs (snd (accept m s target ?c3))))"
      using holds_run [OF d4(3)] t4 by auto
    have "c2 = snd (cache_run vs (snd (accept m s target ?c3)))"
      by (simp add: c2 ys cache_run_append Let_def split_beta)
    then have "d5 = d2" using d5(2) d2(2) by (simp add: holds_def)
    then show ?thesis using d4(2) d5(1) by (simp add: keeps_def)
  qed
  have look: "s' \<noteq> [] \<Longrightarrow> fst (lookup m s' now c2) = (if s' \<noteq> s then Conflict else if d_state d2 = Reserved then Uncertain else Match)" for s'
    using holds_lookup [OF d2(2), of now s'] fields t2 assms(5) by simp
  have "fst (recordWithSignature m \<lparr>d_state = st, deliveredAt = now, d_signature = s', targetIdentity = target',
      questionRoute = route', questionAnswered = False\<rparr> c2) \<noteq> Recorded" for st
    using d2(2) by (rule holds_not_recorded) (simp add: fields t2 assms(5))
  then show ?thesis using look acc h1(3) by (auto simp: reserve_message_def record_message_def)
qed

theorem reserved_once_witness:
  "fst (lookup ''m1'' ''sig'' 90 (snd (cache_run [Lookup ''m2'' ''x'' 50, Accept ''m1'' ''sig'' None]
      (snd (reserve_message ''m1'' ''sig'' None 10 None (empty_cache 100 2 1000)))))) = Match \<and>
   fst (reserve_message ''m1'' ''other'' None 90 None (snd (cache_run [Lookup ''m2'' ''x'' 50, Accept ''m1'' ''sig'' None]
      (snd (reserve_message ''m1'' ''sig'' None 10 None (empty_cache 100 2 1000)))))) \<noteq> Recorded"
proof -
  let ?c = "snd (cache_run [] (empty_cache 100 2 1000))"
  have "fst (reserve_message ''m1'' ''sig'' None 10 None ?c) = Recorded" by code_simp
  then have r: "reserve_message ''m1'' ''sig'' None 10 None ?c = (Recorded, snd (reserve_message ''m1'' ''sig'' None 10 None ?c))"
    by (metis prod.collapse)
  have sp: "list_all (\<lambda>x. x \<noteq> Forget ''m1'' ''sig'' \<and> (\<forall>now. op_time x = Some now \<longrightarrow> now - 10 \<le> (100 :: rat)))
    [Lookup ''m2'' ''x'' 50, Accept ''m1'' ''sig'' None]" by simp
  have le: "(90 :: rat) - 10 \<le> 100" by simp
  show ?thesis using reserved_once [OF refl r sp refl le, of "''other''" None None] by simp
qed

text \<open>
  The bounds hold after any history: at most \<open>maxEntries\<close> messages, and \<open>retainedBytes\<close> is
  exactly the bytes of the entries held and never above \<open>maxBytes\<close>.
\<close>

theorem authority_bounded:
  assumes "c = snd (cache_run xs (empty_cache ttl entries bytes))" and "0 \<le> entries" and "0 \<le> bytes"
  shows "wf_map (c_delivered c) \<and> int (length (c_delivered c)) \<le> entries \<and>
    retainedBytes c = sum_list (map (\<lambda>e. entryByteSize (fst e) (snd e)) (c_delivered c)) \<and> retainedBytes c \<le> bytes"
proof -
  have e: "memory_inv (empty_cache ttl entries bytes)" by (rule memory_inv_empty)
  show ?thesis using run_fields [OF e, of xs] run_bounds [OF e, of xs] assms
    by (simp add: memory_inv_def total_bytes_def empty_cache_def)
qed

theorem authority_bounded_witness:
  "map fst (c_delivered (snd (cache_run [Record ''a'' ''s'' None 0 None, Record ''b'' ''s'' None 1 None, Record ''c'' ''s'' None 2 None]
     (empty_cache 100 2 1000)))) = [''a'', ''b''] \<and>
   retainedBytes (snd (cache_run [Record ''a'' ''s'' None 0 None, Record ''b'' ''s'' None 1 None, Record ''c'' ''s'' None 2 None]
     (empty_cache 100 2 1000))) \<le> 1000"
proof -
  have "map fst (c_delivered (snd (cache_run [Record ''a'' ''s'' None 0 None, Record ''b'' ''s'' None 1 None, Record ''c'' ''s'' None 2 None]
     (empty_cache 100 2 1000)))) = [''a'', ''b'']" by code_simp
  then show ?thesis using authority_bounded [OF refl, of 2 1000
      "[Record ''a'' ''s'' None 0 None, Record ''b'' ''s'' None 1 None, Record ''c'' ''s'' None 2 None]" 100] by simp
qed

text \<open>
  C11. The SQLite backing implements the in-memory one: given the digests HMAC-SHA-256 produces, every
  answer of a durable cache, also after it was closed and opened again with its key, is the answer of
  an in-memory cache that is given the digests as signatures.
\<close>

theorem durable_refines_memory:
  assumes digest: "\<And>s. authorityDigest (hmac key s)" and key: "length key = AUTHORITY_KEY_BYTES"
    and limits: "0 \<le> entries" "entries \<le> max_safe" "0 \<le> bytes" "bytes \<le> max_safe"
    and first: "cache_run xs (open_durable hmac ttl entries bytes None None key True) = (outs, c)"
    and second: "cache_run ys (reopen hmac key c) = (outs', c')"
  shows "outs @ outs' = fst (cache_run (map (keyed_op (hmac key)) (xs @ ys)) (empty_cache ttl entries bytes))"
proof -
  note o = durable_inv_open [OF key limits, of hmac ttl]
  have d: "durable_inv (hmac key) c"
    and r: "cache_run (map (keyed_op (hmac key)) xs) (empty_cache ttl entries bytes) = (outs, memory_of c)"
    using run_sim [OF o(1) digest, of xs] first o(2) by simp_all
  note re = durable_inv_reopen [of hmac key c, OF d key]
  have "cache_run (map (keyed_op (hmac key)) ys) (memory_of c) = (outs', memory_of c')"
    using run_sim [OF re(1) digest, of ys] second re(2) by simp
  then show ?thesis using r by (simp add: cache_run_append)
qed

definition sample_hmac :: "string \<Rightarrow> string \<Rightarrow> string" where
  "sample_hmac key s = replicate 64 (if s = ''sig'' then CHR ''a'' else CHR ''b'')"

definition sample_key :: string where
  "sample_key = replicate 32 (CHR ''k'')"

theorem durable_refines_memory_witness:
  "fst (cache_run [ReserveMessage ''m'' ''sig'' None 5 None]
     (open_durable sample_hmac 100 10 1000 None None sample_key True)) @
   fst (cache_run [Lookup ''m'' ''sig'' 6, Lookup ''m'' ''forged'' 7] (reopen sample_hmac sample_key
     (snd (cache_run [ReserveMessage ''m'' ''sig'' None 5 None] (open_durable sample_hmac 100 10 1000 None None sample_key True))))) =
   [ORecord Recorded, OMatch Uncertain, OMatch Conflict] \<and>
   fst (cache_run (map (keyed_op (sample_hmac sample_key))
     ([ReserveMessage ''m'' ''sig'' None 5 None] @ [Lookup ''m'' ''sig'' 6, Lookup ''m'' ''forged'' 7]))
     (empty_cache 100 10 1000)) = [ORecord Recorded, OMatch Uncertain, OMatch Conflict]"
proof -
  have d: "authorityDigest (sample_hmac sample_key s)" for s
    by (simp add: authorityDigest_def sample_hmac_def list_all_iff)
  have k: "length sample_key = AUTHORITY_KEY_BYTES" by (simp add: sample_key_def AUTHORITY_KEY_BYTES_def)
  have l: "(0::int) \<le> 10" "10 \<le> max_safe" "(0::int) \<le> 1000" "1000 \<le> max_safe" by (simp_all add: max_safe_def)
  have out: "fst (cache_run [ReserveMessage ''m'' ''sig'' None 5 None]
     (open_durable sample_hmac 100 10 1000 None None sample_key True)) @
   fst (cache_run [Lookup ''m'' ''sig'' 6, Lookup ''m'' ''forged'' 7] (reopen sample_hmac sample_key
     (snd (cache_run [ReserveMessage ''m'' ''sig'' None 5 None] (open_durable sample_hmac 100 10 1000 None None sample_key True))))) =
   [ORecord Recorded, OMatch Uncertain, OMatch Conflict]" by code_simp
  show ?thesis
    using durable_refines_memory [of sample_hmac sample_key 10 1000 "[ReserveMessage ''m'' ''sig'' None 5 None]" 100,
        OF d k l prod.collapse [symmetric] prod.collapse [symmetric],
        of "[Lookup ''m'' ''sig'' 6, Lookup ''m'' ''forged'' 7]"] out
    by (simp del: cache_run.simps map_append keyed_op.simps list.map)
qed

text \<open>
  The storage fails closed: with one half of the database and key pair missing, a key of the
  wrong size, or a database SQLite cannot open, nothing matches, nothing is recorded, accepted or
  changed, and every question counts as answered.
\<close>

theorem storage_fails_closed:
  assumes "(db \<noteq> None) \<noteq> (key \<noteq> None) \<or> (\<exists>k. key = Some k \<and> length k \<noteq> AUTHORITY_KEY_BYTES) \<or> \<not> opens"
    and "c = open_durable hmac ttl entries bytes db key randomKey opens"
  shows "fst (lookup m s now c) = Invalid \<and> fst (lookupForTarget m s t now c) = Invalid \<and>
    fst (lookupQuestionTarget m s g now c) = None \<and> isQuestionAnswered m c \<and>
    fst (record_message m s r now target c) = RInvalid \<and> fst (reserve_message m s r now target c) = RInvalid \<and>
    fst (accept m s target c) = AInvalid \<and> snd (cache_run xs c) = c"
proof -
  have inv: "storageInvalid c" and none: "c_delivered c = []" "database c = None"
    using assms by (auto simp: open_durable_def prepareDurableAuthority_def empty_cache_def Let_def split: option.splits)
  have sig: "signatureAuthority c s = None" for s using inv by (simp add: signatureAuthority_def)
  have step: "snd (cache_step x c) = c" for x
    using sig none by (cases x) (simp_all add: lookup_def lookupForTarget_def lookupQuestionTarget_def settleQuestion_def
        record_message_def reserve_message_def recordWithSignature_def accept_def forget_def read_def)
  have "snd (cache_run xs c) = c" by (induction xs) (simp_all add: Let_def split_beta step)
  then show ?thesis using sig inv
    by (simp add: lookup_def lookupForTarget_def lookupQuestionTarget_def isQuestionAnswered_def record_message_def
        reserve_message_def recordWithSignature_def accept_def)
qed

theorem storage_fails_closed_witness:
  "fst (lookup ''m'' ''s'' 1 (open_durable sample_hmac 100 10 1000 (Some NoTable) None sample_key True)) = Invalid \<and>
   fst (reserve_message ''m'' ''s'' None 1 None (open_durable sample_hmac 100 10 1000 (Some NoTable) None sample_key True)) = RInvalid"
  using storage_fails_closed [of "Some NoTable" None True _ sample_hmac 100 10 1000 sample_key "''m''" "''s''" 1 _ _ None None, OF _ refl] by simp

end
