(* ===== verification/Intercom_Inbox.thy ===== *)
theory Intercom_Inbox
  imports Prelude
begin

text \<open>
  The receiving side of the intercom: how a target names a session
  (\<^verbatim>\<open>packages/intercom/session-target.ts\<close>), the queue of messages that arrive while the parent is busy
  (\<^verbatim>\<open>inbound-idle-queue.ts\<close>), and the tracker that decides which message a reply answers
  (\<^verbatim>\<open>reply-tracker.ts\<close>). Objects the code compares by reference carry a number that stands for
  the reference. The set of messages already shown in the session changes outside the queue and is an
  argument of each operation that reads it. Trimming and lower-casing are those of ASCII strings.
\<close>

section \<open>Sessions and how they are addressed\<close>

record session =
  session_id :: string
  session_name :: "string option"

definition whitespace :: "char \<Rightarrow> bool" where
  "whitespace c = (c \<in> {CHR '' '', char_of (9 :: nat), char_of (10 :: nat), char_of (11 :: nat), char_of (12 :: nat), char_of (13 :: nat)})"

definition trim :: "string \<Rightarrow> string" where
  "trim s = rev (dropWhile whitespace (rev (dropWhile whitespace s)))"

definition lower_char :: "char \<Rightarrow> char" where
  "lower_char c = (let n = of_char c :: nat in if 65 \<le> n \<and> n \<le> 90 then char_of (n + 32) else c)"

definition toLowerCase :: "string \<Rightarrow> string" where
  "toLowerCase s = map lower_char s"

datatype resolution =
    Resolved session
  | AmbiguousName "session list"
  | AmbiguousIdPrefix "session list"
  | AmbiguousSessionId "session list"
  | NotFound

definition hex_digits :: string where
  "hex_digits = ''0123456789abcdefABCDEF''"

fun hex_groups :: "nat list \<Rightarrow> string \<Rightarrow> bool" where
  "hex_groups [] s = False"
| "hex_groups [n] s = (length s = n \<and> list_all (\<lambda>c. c \<in> set hex_digits) s)"
| "hex_groups (n # m # ns) s =
    (n < length s \<and> list_all (\<lambda>c. c \<in> set hex_digits) (take n s) \<and> s ! n = CHR ''-'' \<and> hex_groups (m # ns) (drop (Suc n) s))"

definition UUID_PATTERN :: "string \<Rightarrow> bool" where
  "UUID_PATTERN s = hex_groups [8, 4, 4, 4, 12] s"

definition UUID_PREFIX_PATTERN :: "string \<Rightarrow> bool" where
  "UUID_PREFIX_PATTERN s = hex_groups [8] s"

definition startsWith :: "string \<Rightarrow> string \<Rightarrow> bool" where
  "startsWith s p = (take (length p) s = p)"

definition prefixMatches :: "session list \<Rightarrow> string \<Rightarrow> session list" where
  "prefixMatches sessions target =
    filter (\<lambda>s. UUID_PATTERN (session_id s) \<and> startsWith (toLowerCase (session_id s)) (toLowerCase target)) sessions"

definition resolveSessionTarget :: "session list \<Rightarrow> string \<Rightarrow> resolution" where
  "resolveSessionTarget sessions nameOrId =
    (let target = trim nameOrId in
     case find (\<lambda>s. session_id s = target) sessions of
       Some s \<Rightarrow> Resolved s
     | None \<Rightarrow>
         let exactNames = filter (\<lambda>s. map_option toLowerCase (session_name s) = Some (toLowerCase target)) sessions in
         case exactNames of
           [s] \<Rightarrow> Resolved s
         | _ # _ # _ \<Rightarrow> AmbiguousName exactNames
         | [] \<Rightarrow>
             if UUID_PREFIX_PATTERN target then
               (case prefixMatches sessions target of
                  [s] \<Rightarrow> Resolved s
                | _ # _ # _ \<Rightarrow> AmbiguousIdPrefix (prefixMatches sessions target)
                | [] \<Rightarrow> NotFound)
             else NotFound)"

definition resolveSessionTargetByHostSessionId :: "session list \<Rightarrow> string \<Rightarrow> (session \<Rightarrow> string option) \<Rightarrow> resolution" where
  "resolveSessionTargetByHostSessionId sessions target hostSessionIdOf =
    (let hostSessionId = trim target in
     if hostSessionId = [] then NotFound
     else let matches = filter (\<lambda>s. hostSessionIdOf s = Some hostSessionId) sessions in
       case matches of
         [s] \<Rightarrow> Resolved s
       | _ # _ # _ \<Rightarrow> AmbiguousSessionId matches
       | [] \<Rightarrow> NotFound)"

datatype target_error = TargetError resolution

text \<open>\<open>resolveSessionTargetId\<close> on the sessions the broker lists; \<open>Inr None\<close> is \<open>null\<close>.\<close>

definition resolveSessionTargetId :: "session list \<Rightarrow> string option \<Rightarrow> string \<Rightarrow> target_error + string option" where
  "resolveSessionTargetId listed supervisor nameOrId =
    (let sessions = (case supervisor of
         None \<Rightarrow> listed
       | Some i \<Rightarrow> if i \<noteq> [] \<and> \<not> list_ex (\<lambda>s. session_id s = i) listed
           then listed @ [\<lparr>session_id = i, session_name = None\<rparr>] else listed)
     in case resolveSessionTarget sessions nameOrId of
          Resolved s \<Rightarrow> Inr (Some (session_id s))
        | NotFound \<Rightarrow> Inr None
        | r \<Rightarrow> Inl (TargetError r))"

section \<open>The idle queue\<close>

record message =
  message_id :: string
  timestamp :: int
  expectsReply :: bool
  subagentRunId :: "string option"

record inbound =
  entry_ref :: nat
  entry_from :: session
  entry_message :: message
  historyOnly :: bool

definition mayStartTurn :: "inbound \<Rightarrow> bool" where
  "mayStartTurn e = (\<not> historyOnly e)"

definition maySupplyReplyContext :: "inbound \<Rightarrow> bool" where
  "maySupplyReplyContext e = (\<not> historyOnly e)"

datatype send_option = TriggerTurn bool | DeliverAsFollowUp

record idle_plan =
  plan_triggerTurn :: bool
  plan_replyContext :: "inbound option"
  plan_sendOptions :: "send_option list"

fun find_index :: "('a \<Rightarrow> bool) \<Rightarrow> 'a list \<Rightarrow> nat option" where
  "find_index P [] = None"
| "find_index P (x # xs) = (if P x then Some 0 else map_option Suc (find_index P xs))"

definition planIdleBatch :: "inbound list \<Rightarrow> idle_plan" where
  "planIdleBatch es =
    (let starter = find_index mayStartTurn es in
     \<lparr>plan_triggerTurn = (starter \<noteq> None),
      plan_replyContext = (if starter \<noteq> None then find maySupplyReplyContext es else None),
      plan_sendOptions = map (\<lambda>i. case starter of
          None \<Rightarrow> TriggerTurn False
        | Some k \<Rightarrow> if i < k then TriggerTurn False else if i = k then TriggerTurn True else DeliverAsFollowUp) [0..<length es]\<rparr>)"

record idle_queue =
  q_entries :: "inbound list"
  q_generation :: nat

record idle_claim =
  cl_entries :: "inbound list"
  cl_original :: "inbound list"
  cl_generation :: nat
  cl_settled :: bool

definition msg_id :: "inbound \<Rightarrow> string" where
  "msg_id e = message_id (entry_message e)"

definition ref_in :: "inbound \<Rightarrow> inbound list \<Rightarrow> bool" where
  "ref_in e es = (entry_ref e \<in> set (map entry_ref es))"

definition dropConsumed :: "string list \<Rightarrow> idle_queue \<Rightarrow> idle_queue" where
  "dropConsumed consumed q = q\<lparr>q_entries := filter (\<lambda>e. msg_id e \<notin> set consumed) (q_entries q)\<rparr>"

definition enqueue :: "string list \<Rightarrow> inbound \<Rightarrow> idle_queue \<Rightarrow> bool \<times> idle_queue" where
  "enqueue consumed e q =
    (if msg_id e \<in> set consumed \<or> list_ex (\<lambda>queued. msg_id queued = msg_id e) (q_entries q) then (False, q)
     else (True, q\<lparr>q_entries := q_entries q @ [e]\<rparr>))"

definition has_entry :: "inbound \<Rightarrow> idle_queue \<Rightarrow> bool" where
  "has_entry e q = ref_in e (q_entries q)"

fun remove_ref :: "nat \<Rightarrow> inbound list \<Rightarrow> inbound list" where
  "remove_ref r [] = []"
| "remove_ref r (x # xs) = (if entry_ref x = r then xs else x # remove_ref r xs)"

definition remove_entry :: "string list \<Rightarrow> inbound \<Rightarrow> idle_queue \<Rightarrow> bool \<times> idle_queue" where
  "remove_entry consumed e q =
    (if \<not> ref_in e (q_entries q) then (False, q)
     else (msg_id e \<notin> set consumed, q\<lparr>q_entries := remove_ref (entry_ref e) (q_entries q)\<rparr>))"

definition drain :: "string list \<Rightarrow> idle_queue \<Rightarrow> inbound list \<times> idle_queue" where
  "drain consumed q = (let q = dropConsumed consumed q in (q_entries q, q\<lparr>q_entries := []\<rparr>))"

definition add_legacy_id :: "(string, string jset) jmap \<Rightarrow> inbound \<Rightarrow> (string, string jset) jmap" where
  "add_legacy_id m e = (case (subagentRunId (entry_message e), session_name (entry_from e)) of
      (None, Some name) \<Rightarrow> map_set m name (set_add (map_get_or m name []) (session_id (entry_from e)))
    | _ \<Rightarrow> m)"

definition legacyIdsByName :: "inbound list \<Rightarrow> (string, string jset) jmap" where
  "legacyIdsByName original = foldl add_legacy_id [] original"

text \<open>\<open>terminalAt\<close> is \<open>None\<close> for its default, positive infinity.\<close>

definition claims_entry :: "string \<Rightarrow> string list \<Rightarrow> int option \<Rightarrow> (string, string jset) jmap \<Rightarrow> inbound \<Rightarrow> bool" where
  "claims_entry runId targets terminalAt legacy e =
    (if expectsReply (entry_message e) then False
     else if (case terminalAt of None \<Rightarrow> False | Some t \<Rightarrow> timestamp (entry_message e) > t) then False
     else
       let idMatches = session_id (entry_from e) \<in> set targets;
           nameMatches = (case session_name (entry_from e) of None \<Rightarrow> False | Some n \<Rightarrow> n \<in> set targets)
       in if \<not> idMatches \<and> \<not> nameMatches then False
          else case subagentRunId (entry_message e) of
            Some r \<Rightarrow> r = runId
          | None \<Rightarrow> idMatches \<or> (case session_name (entry_from e) of
              None \<Rightarrow> False | Some n \<Rightarrow> map_option length (map_get legacy n) = Some 1))"

definition claimOrdinarySourceTargets ::
  "string list \<Rightarrow> string \<Rightarrow> string list \<Rightarrow> int option \<Rightarrow> idle_queue \<Rightarrow> idle_claim \<times> idle_queue" where
  "claimOrdinarySourceTargets consumed runId targets terminalAt q =
    (let q = dropConsumed consumed q;
         original = q_entries q;
         selected = filter (claims_entry runId targets terminalAt (legacyIdsByName original)) original
     in (\<lparr>cl_entries = selected, cl_original = original, cl_generation = q_generation q, cl_settled = False\<rparr>,
         q\<lparr>q_entries := filter (\<lambda>e. \<not> ref_in e selected) original\<rparr>))"

definition claim_isCurrent :: "idle_claim \<Rightarrow> idle_queue \<Rightarrow> bool" where
  "claim_isCurrent cl q = (cl_generation cl = q_generation q)"

definition rollbackFrom :: "nat \<Rightarrow> idle_claim \<Rightarrow> idle_queue \<Rightarrow> idle_claim \<times> idle_queue" where
  "rollbackFrom index cl q =
    (if cl_settled cl \<or> cl_generation cl \<noteq> q_generation q then (cl, q)
     else
       let undelivered = drop index (cl_entries cl);
           laterEntries = filter (\<lambda>e. \<not> ref_in e (cl_original cl)) (q_entries q)
       in (cl\<lparr>cl_settled := True\<rparr>,
           q\<lparr>q_entries := filter (\<lambda>e. \<not> ref_in e (cl_entries cl) \<or> ref_in e undelivered) (cl_original cl) @ laterEntries\<rparr>))"

definition clear_queue :: "idle_queue \<Rightarrow> idle_queue" where
  "clear_queue q = q\<lparr>q_generation := Suc (q_generation q), q_entries := []\<rparr>"

section \<open>The reply tracker\<close>

record context_entry =
  ctx_ref :: nat
  ctx_from :: session
  ctx_message :: message
  receivedAt :: int

record tracker =
  pendingAsks :: "(string, context_entry) jmap"
  pendingTurnContexts :: "context_entry list"
  currentTurnContext :: "context_entry option"
  turnContextAdmitted :: bool
  askTimeoutMs :: int

definition ctx_id :: "context_entry \<Rightarrow> string" where
  "ctx_id c = message_id (ctx_message c)"

definition recordIncomingMessage :: "context_entry \<Rightarrow> tracker \<Rightarrow> tracker" where
  "recordIncomingMessage c t =
    (if expectsReply (ctx_message c) then t\<lparr>pendingAsks := map_set (pendingAsks t) (ctx_id c) c\<rparr> else t)"

definition queueTurnContext :: "context_entry \<Rightarrow> tracker \<Rightarrow> tracker" where
  "queueTurnContext c t = t\<lparr>pendingTurnContexts := pendingTurnContexts t @ [c]\<rparr>"

definition same_ref :: "context_entry \<Rightarrow> context_entry option \<Rightarrow> bool" where
  "same_ref c o' = (case o' of None \<Rightarrow> False | Some c' \<Rightarrow> ctx_ref c' = ctx_ref c)"

definition forgetIncomingMessage :: "context_entry \<Rightarrow> tracker \<Rightarrow> tracker" where
  "forgetIncomingMessage c t =
    (let t = (if same_ref c (map_get (pendingAsks t) (ctx_id c)) then t\<lparr>pendingAsks := map_delete (pendingAsks t) (ctx_id c)\<rparr> else t);
         t = t\<lparr>pendingTurnContexts := filter (\<lambda>c'. ctx_ref c' \<noteq> ctx_ref c) (pendingTurnContexts t)\<rparr>
     in if same_ref c (currentTurnContext t) then t\<lparr>currentTurnContext := None\<rparr> else t)"

definition pruneExpired :: "int \<Rightarrow> tracker \<Rightarrow> tracker" where
  "pruneExpired now t = t\<lparr>pendingAsks := filter (\<lambda>e. \<not> now - receivedAt (snd e) > askTimeoutMs t) (pendingAsks t)\<rparr>"

definition beginTurn :: "int \<Rightarrow> tracker \<Rightarrow> tracker" where
  "beginTurn now t = (pruneExpired now t)\<lparr>turnContextAdmitted := False\<rparr>"

fun take_context :: "string \<Rightarrow> context_entry list \<Rightarrow> (context_entry \<times> context_entry list) option" where
  "take_context m [] = None"
| "take_context m (c # cs) = (if ctx_id c = m then Some (c, cs) else map_option (map_prod id (Cons c)) (take_context m cs))"

definition admitTurnMessage :: "string \<Rightarrow> tracker \<Rightarrow> tracker" where
  "admitTurnMessage m t =
    (if map_option ctx_id (currentTurnContext t) = Some m then t\<lparr>turnContextAdmitted := True\<rparr>
     else case take_context m (pendingTurnContexts t) of
       None \<Rightarrow> t
     | Some (admitted, rest) \<Rightarrow>
         if turnContextAdmitted t then t\<lparr>pendingTurnContexts := rest\<rparr>
         else t\<lparr>pendingTurnContexts := rest, currentTurnContext := Some admitted, turnContextAdmitted := True\<rparr>)"

definition endTurn :: "tracker \<Rightarrow> tracker" where
  "endTurn t = t\<lparr>currentTurnContext := None\<rparr>"

definition restoreTurnContext :: "tracker \<Rightarrow> tracker" where
  "restoreTurnContext t = t\<lparr>turnContextAdmitted := False\<rparr>"

definition reset_tracker :: "tracker \<Rightarrow> tracker" where
  "reset_tracker t = t\<lparr>pendingAsks := [], pendingTurnContexts := [], currentTurnContext := None\<rparr>"

datatype reply_error =
    AmbiguousTarget resolution
  | NoReplyContext
  | NotFrom
  | NoPendingAsk
  | MultiplePendingAsksFrom
  | NoActiveContext
  | MultiplePendingAsks

text \<open>\<open>resolveReplyTarget\<close> with \<open>replyTo\<close>: the asks, and a message of the current turn that expects no reply.\<close>

definition replyContexts :: "tracker \<Rightarrow> (string, context_entry) jmap" where
  "replyContexts t = (case currentTurnContext t of
      Some c \<Rightarrow> if expectsReply (ctx_message c) then pendingAsks t else map_set (pendingAsks t) (ctx_id c) c
    | None \<Rightarrow> pendingAsks t)"

definition replyTo_target :: "string option \<Rightarrow> string \<Rightarrow> tracker \<Rightarrow> reply_error + context_entry" where
  "replyTo_target to replyTo t =
    (let contexts = replyContexts t in
     case resolveSessionTarget (map (\<lambda>i. \<lparr>session_id = i, session_name = None\<rparr>) (map_keys contexts)) replyTo of
       AmbiguousIdPrefix ss \<Rightarrow> Inl (AmbiguousTarget (AmbiguousIdPrefix ss))
     | AmbiguousName ss \<Rightarrow> Inl (AmbiguousTarget (AmbiguousName ss))
     | Resolved s \<Rightarrow> (case map_get contexts (session_id s) of
         None \<Rightarrow> Inl NoReplyContext
       | Some exact \<Rightarrow> (case to of
           None \<Rightarrow> Inr exact
         | Some name \<Rightarrow> (case resolveSessionTarget [ctx_from exact] name of Resolved _ \<Rightarrow> Inr exact | _ \<Rightarrow> Inl NotFrom)))
     | _ \<Rightarrow> Inl NoReplyContext)"

definition senders :: "context_entry list \<Rightarrow> session list" where
  "senders pending = map_values (foldl (\<lambda>m c. map_set m (session_id (ctx_from c)) (ctx_from c)) [] pending)"

definition to_target :: "string \<Rightarrow> tracker \<Rightarrow> reply_error + context_entry" where
  "to_target to t =
    (let pending = map_values (pendingAsks t) in
     case resolveSessionTarget (senders pending) to of
       Resolved s \<Rightarrow>
         (case filter (\<lambda>c. session_id (ctx_from c) = session_id s) pending of
            [c] \<Rightarrow> Inr c
          | _ # _ # _ \<Rightarrow> Inl MultiplePendingAsksFrom
          | [] \<Rightarrow> Inl NoPendingAsk)
     | NotFound \<Rightarrow> Inl NoPendingAsk
     | r \<Rightarrow> Inl (AmbiguousTarget r))"

definition visible_asks :: "tracker \<Rightarrow> context_entry list" where
  "visible_asks t = filter (\<lambda>c. \<not> list_ex (\<lambda>queued. ctx_id queued = ctx_id c) (pendingTurnContexts t)) (map_values (pendingAsks t))"

definition resolveReplyTarget :: "string option \<Rightarrow> string option \<Rightarrow> int \<Rightarrow> tracker \<Rightarrow> (reply_error + context_entry) \<times> tracker" where
  "resolveReplyTarget to replyTo now t =
    (let t = pruneExpired now t in
     (case replyTo of
        Some r \<Rightarrow> replyTo_target to r t
      | None \<Rightarrow> (case to of
          Some name \<Rightarrow> to_target name t
        | None \<Rightarrow> (case currentTurnContext t of
            Some c \<Rightarrow> Inr c
          | None \<Rightarrow> (case visible_asks t of
              [c] \<Rightarrow> Inr c
            | [] \<Rightarrow> Inl NoActiveContext
            | _ \<Rightarrow> Inl MultiplePendingAsks))), t))"

definition markReplied :: "string \<Rightarrow> tracker \<Rightarrow> tracker" where
  "markReplied replyTo t =
    (let t = t\<lparr>pendingAsks := map_delete (pendingAsks t) replyTo,
               pendingTurnContexts := filter (\<lambda>c. ctx_id c \<noteq> replyTo) (pendingTurnContexts t)\<rparr>
     in if map_option ctx_id (currentTurnContext t) = Some replyTo then t\<lparr>currentTurnContext := None\<rparr> else t)"

definition listPending :: "int \<Rightarrow> tracker \<Rightarrow> context_entry list \<times> tracker" where
  "listPending now t = (let t = pruneExpired now t in (sort_key receivedAt (map_values (pendingAsks t)), t))"

section \<open>Resolution of a target\<close>

lemma single_filter: "filter P xs = [x] \<Longrightarrow> x \<in> set xs \<and> P x \<and> (\<forall>y \<in> set xs. P y \<longrightarrow> y = x)"
proof -
  assume f: "filter P xs = [x]"
  then have "set (filter P xs) = {x}" by simp
  then show ?thesis by auto
qed

text \<open>
  A name never reaches an ambiguous session: a resolved target is the session with exactly that
  identifier; or, if there is none, the only session with that name; or the only session whose
  identifier is a UUID that starts with the eight digits given.
\<close>

theorem session_target_unambiguous:
  assumes "resolveSessionTarget ss target = Resolved s"
  shows "s \<in> set ss \<and>
    (session_id s = trim target \<or>
     (\<forall>y \<in> set ss. session_id y \<noteq> trim target) \<and>
     (map_option toLowerCase (session_name s) = Some (toLowerCase (trim target)) \<and>
        (\<forall>y \<in> set ss. map_option toLowerCase (session_name y) = Some (toLowerCase (trim target)) \<longrightarrow> y = s) \<or>
      UUID_PREFIX_PATTERN (trim target) \<and> UUID_PATTERN (session_id s) \<and>
        (\<forall>y \<in> set ss. UUID_PATTERN (session_id y) \<and> startsWith (toLowerCase (session_id y)) (toLowerCase (trim target)) \<longrightarrow> y = s)))"
proof (cases "find (\<lambda>s. session_id s = trim target) ss")
  case (Some x)
  then have "x = s" using assms by (simp add: resolveSessionTarget_def Let_def)
  then show ?thesis using Some by (auto simp: find_Some_iff)
next
  case None
  then have no: "\<forall>y \<in> set ss. session_id y \<noteq> trim target" by (auto simp: find_None_iff)
  let ?P = "\<lambda>s. map_option toLowerCase (session_name s) = Some (toLowerCase (trim target))"
  let ?Q = "\<lambda>s. UUID_PATTERN (session_id s) \<and> startsWith (toLowerCase (session_id s)) (toLowerCase (trim target))"
  have "filter ?P ss = [s] \<or> UUID_PREFIX_PATTERN (trim target) \<and> filter ?Q ss = [s]"
    using assms None unfolding resolveSessionTarget_def Let_def prefixMatches_def
    by (auto split: list.splits if_splits)
  then show ?thesis using no single_filter [of ?P ss s] single_filter [of ?Q ss s] by auto
qed

theorem session_target_unambiguous_witness:
  "resolveSessionTarget [\<lparr>session_id = ''x1'', session_name = Some ''Bob''\<rparr>, \<lparr>session_id = ''x2'', session_name = Some ''amy''\<rparr>] '' AMY ''
     = Resolved \<lparr>session_id = ''x2'', session_name = Some ''amy''\<rparr> \<and>
   \<lparr>session_id = ''x2'', session_name = Some ''amy''\<rparr> \<in>
     set [\<lparr>session_id = ''x1'', session_name = Some ''Bob''\<rparr>, \<lparr>session_id = ''x2'', session_name = Some ''amy''\<rparr>]"
proof -
  have r: "resolveSessionTarget [\<lparr>session_id = ''x1'', session_name = Some ''Bob''\<rparr>, \<lparr>session_id = ''x2'', session_name = Some ''amy''\<rparr>] '' AMY ''
     = Resolved \<lparr>session_id = ''x2'', session_name = Some ''amy''\<rparr>" by code_simp
  show ?thesis using session_target_unambiguous [OF r] r by blast
qed

section \<open>Claims of the idle queue\<close>

definition legacy_of :: "inbound list \<Rightarrow> string \<Rightarrow> string set" where
  "legacy_of es n = {session_id (entry_from e) | e. e \<in> set es \<and> subagentRunId (entry_message e) = None \<and> session_name (entry_from e) = Some n}"

lemma legacyIdsByName_get:
  "set (map_get_or (legacyIdsByName es) n []) = legacy_of es n \<and> distinct (map_get_or (legacyIdsByName es) n [])"
proof (induction es rule: rev_induct)
  case Nil
  then show ?case by (simp add: legacyIdsByName_def legacy_of_def map_get_or_def)
next
  case (snoc e es)
  have "legacyIdsByName (es @ [e]) = add_legacy_id (legacyIdsByName es) e" by (simp add: legacyIdsByName_def)
  then show ?case using snoc by (auto simp: add_legacy_id_def legacy_of_def split: option.splits)
qed

lemma legacy_single:
  assumes "map_option length (map_get (legacyIdsByName es) n) = Some 1"
  shows "\<exists>i. legacy_of es n = {i}"
proof -
  obtain ids where ids: "map_get (legacyIdsByName es) n = Some ids" "length ids = 1" using assms by auto
  then obtain i where "ids = [i]" by (cases ids) auto
  then show ?thesis using legacyIdsByName_get [of es n] ids(1) by (auto simp: map_get_or_def)
qed

lemma claim_fields:
  assumes "claimOrdinarySourceTargets consumed runId targets terminalAt q = (cl, q')"
  shows "cl_original cl = filter (\<lambda>e. msg_id e \<notin> set consumed) (q_entries q)"
    "cl_entries cl = filter (claims_entry runId targets terminalAt (legacyIdsByName (cl_original cl))) (cl_original cl)"
    "q_entries q' = filter (\<lambda>e. \<not> ref_in e (cl_entries cl)) (cl_original cl)"
    "cl_generation cl = q_generation q" "q_generation q' = q_generation q" "\<not> cl_settled cl"
  using assms by (auto simp: claimOrdinarySourceTargets_def dropConsumed_def Let_def)

lemma ref_in_filter:
  assumes "distinct (map entry_ref es)" and "e \<in> set es"
  shows "ref_in e (filter P es) = P e"
proof -
  have "x \<in> set es \<Longrightarrow> entry_ref x = entry_ref e \<Longrightarrow> x = e" for x
    using assms by (auto simp: distinct_map inj_on_def)
  then show ?thesis using assms(2) by (auto simp: ref_in_def)
qed

lemma enqueue_appends:
  "\<exists>new. q_entries (foldl (\<lambda>q e. snd (enqueue consumed e q)) q es) = q_entries q @ new \<and> set new \<subseteq> set es \<and>
     q_generation (foldl (\<lambda>q e. snd (enqueue consumed e q)) q es) = q_generation q"
proof (induction es rule: rev_induct)
  case Nil
  then show ?case by simp
next
  case (snoc e es)
  then show ?case by (auto simp: enqueue_def)
qed

lemma take_drop_ref:
  assumes "distinct (map entry_ref es)" and "e \<in> set es"
  shows "ref_in e (drop i es) = (\<not> ref_in e (take i es))"
proof -
  have "set (map entry_ref (take i es)) \<inter> set (map entry_ref (drop i es)) = {}"
    using assms(1) append_take_drop_id [of i es] by (metis distinct_append map_append)
  moreover have "e \<in> set (take i es) \<or> e \<in> set (drop i es)"
    using assms(2) append_take_drop_id [of i es] by (metis Un_iff set_append)
  ultimately show ?thesis by (auto simp: ref_in_def)
qed

section \<open>The tracker's invariant\<close>

datatype tracker_op =
    RecordIncoming context_entry
  | QueueTurn context_entry
  | ForgetIncoming context_entry
  | BeginTurn int
  | AdmitTurn string
  | EndTurn
  | RestoreTurn
  | ResetTracker
  | ResolveReply "string option" "string option" int
  | MarkReplied string
  | ListPending int

fun tracker_step :: "tracker \<Rightarrow> tracker_op \<Rightarrow> tracker" where
  "tracker_step t (RecordIncoming c) = recordIncomingMessage c t"
| "tracker_step t (QueueTurn c) = queueTurnContext c t"
| "tracker_step t (ForgetIncoming c) = forgetIncomingMessage c t"
| "tracker_step t (BeginTurn now) = beginTurn now t"
| "tracker_step t (AdmitTurn m) = admitTurnMessage m t"
| "tracker_step t EndTurn = endTurn t"
| "tracker_step t RestoreTurn = restoreTurnContext t"
| "tracker_step t ResetTracker = reset_tracker t"
| "tracker_step t (ResolveReply to replyTo now) = snd (resolveReplyTarget to replyTo now t)"
| "tracker_step t (MarkReplied m) = markReplied m t"
| "tracker_step t (ListPending now) = snd (listPending now t)"

definition new_tracker :: "int \<Rightarrow> tracker" where
  "new_tracker timeout = \<lparr>pendingAsks = [], pendingTurnContexts = [], currentTurnContext = None,
     turnContextAdmitted = False, askTimeoutMs = timeout\<rparr>"

definition tracker_inv :: "tracker \<Rightarrow> bool" where
  "tracker_inv t \<longleftrightarrow> wf_map (pendingAsks t) \<and>
     (\<forall>k c. (k, c) \<in> set (pendingAsks t) \<longrightarrow> ctx_id c = k \<and> expectsReply (ctx_message c))"

lemma tracker_inv_filter: "tracker_inv t \<Longrightarrow> tracker_inv (t\<lparr>pendingAsks := filter P (pendingAsks t)\<rparr>)"
  by (auto simp: tracker_inv_def wf_map_def distinct_map_filter)

lemma tracker_inv_prune: "tracker_inv t \<Longrightarrow> tracker_inv (pruneExpired now t)"
  unfolding pruneExpired_def by (rule tracker_inv_filter)

lemma tracker_inv_delete: "tracker_inv t \<Longrightarrow> tracker_inv (t\<lparr>pendingAsks := map_delete (pendingAsks t) m\<rparr>)"
  unfolding map_delete_def by (rule tracker_inv_filter)

lemma tracker_inv_same_asks: "tracker_inv t \<Longrightarrow> pendingAsks t' = pendingAsks t \<Longrightarrow> tracker_inv t'"
  by (simp add: tracker_inv_def)

lemma tracker_inv_forget: "tracker_inv t \<Longrightarrow> tracker_inv (forgetIncomingMessage c t)"
  using tracker_inv_delete [of t "ctx_id c"]
  by (auto simp: forgetIncomingMessage_def Let_def tracker_inv_def split: if_splits)

lemma tracker_inv_record: "tracker_inv t \<Longrightarrow> tracker_inv (recordIncomingMessage c t)"
  by (auto simp: recordIncomingMessage_def tracker_inv_def in_set_map_set split: if_splits)

lemma tracker_inv_step: "tracker_inv t \<Longrightarrow> tracker_inv (tracker_step t x)"
proof (cases x)
  case (RecordIncoming c)
  then show "tracker_inv t \<Longrightarrow> ?thesis" by (simp add: tracker_inv_record)
next
  case (ForgetIncoming c)
  then show "tracker_inv t \<Longrightarrow> ?thesis" by (simp add: tracker_inv_forget)
next
  case (MarkReplied m)
  assume "tracker_inv t"
  then have "tracker_inv (t\<lparr>pendingAsks := map_delete (pendingAsks t) m\<rparr>)" by (rule tracker_inv_delete)
  then show ?thesis by (rule tracker_inv_same_asks) (simp add: MarkReplied markReplied_def Let_def)
next
  case (BeginTurn now)
  assume "tracker_inv t"
  then have "tracker_inv (pruneExpired now t)" by (rule tracker_inv_prune)
  then show ?thesis by (rule tracker_inv_same_asks) (simp add: BeginTurn beginTurn_def)
next
  case (AdmitTurn m)
  assume "tracker_inv t"
  then show ?thesis
    by (rule tracker_inv_same_asks) (simp add: AdmitTurn admitTurnMessage_def split: option.split)
next
  case (ResolveReply to replyTo now)
  then show "tracker_inv t \<Longrightarrow> ?thesis" by (simp add: resolveReplyTarget_def Let_def tracker_inv_prune)
next
  case (ListPending now)
  then show "tracker_inv t \<Longrightarrow> ?thesis" by (simp add: listPending_def Let_def tracker_inv_prune)
qed (simp_all add: queueTurnContext_def endTurn_def restoreTurnContext_def reset_tracker_def tracker_inv_def)

interpretation tr: step_system tracker_step "new_tracker timeout" tracker_inv for timeout
proof unfold_locales
  show "tracker_inv (new_tracker timeout)" by (simp add: new_tracker_def tracker_inv_def)
qed (rule tracker_inv_step)

lemma in_pending_values:
  assumes "tracker_inv t"
  shows "c \<in> set (map_values (pendingAsks t)) \<longleftrightarrow> map_get (pendingAsks t) (ctx_id c) = Some c"
proof -
  have "c \<in> set (map_values (pendingAsks t)) \<longleftrightarrow> (\<exists>k. (k, c) \<in> set (pendingAsks t))" by (force simp: map_values_def)
  also have "\<dots> \<longleftrightarrow> (ctx_id c, c) \<in> set (pendingAsks t)" using assms by (auto simp: tracker_inv_def)
  also have "\<dots> \<longleftrightarrow> map_get (pendingAsks t) (ctx_id c) = Some c" using assms by (simp add: tracker_inv_def map_get_eq_in_set)
  finally show ?thesis .
qed

lemma single_case: "(case xs of [] \<Rightarrow> Inl e | [x] \<Rightarrow> Inr x | _ # _ # _ \<Rightarrow> Inl e') = Inr c \<Longrightarrow> xs = [c]"
  by (auto split: list.splits)

lemma replyTo_target_sound:
  assumes "tracker_inv t" and "replyTo_target to r t = Inr c"
  shows "currentTurnContext t = Some c \<or> c \<in> set (map_values (pendingAsks t))"
proof -
  obtain k where "map_get (replyContexts t) k = Some c"
    using assms(2) by (auto simp: replyTo_target_def Let_def split: resolution.splits option.splits)
  then have "currentTurnContext t = Some c \<or> map_get (pendingAsks t) k = Some c"
    by (auto simp: replyContexts_def split: option.splits if_splits)
  then show ?thesis by (auto simp: map_values_def dest!: map_get_Some_in_set intro: rev_image_eqI)
qed

lemma to_target_sound:
  assumes "to_target name t = Inr c"
  shows "c \<in> set (map_values (pendingAsks t))"
proof -
  obtain s :: session where "filter (\<lambda>c. session_id (ctx_from c) = session_id s) (map_values (pendingAsks t)) = [c]"
    using assms by (auto simp: to_target_def Let_def split: resolution.splits list.splits)
  then show ?thesis by (auto dest: single_filter)
qed

lemma prune_keeps:
  assumes "tracker_inv t" and "c \<in> set (map_values (pendingAsks (pruneExpired now t)))"
  shows "c \<in> set (map_values (pendingAsks t)) \<and> now - receivedAt c \<le> askTimeoutMs t"
  using assms by (auto simp: pruneExpired_def map_values_def)

lemma resolve_sound:
  assumes "tracker_inv t" and "fst (resolveReplyTarget to replyTo now t) = Inr c"
  shows "currentTurnContext t = Some c \<or>
     map_get (pendingAsks t) (ctx_id c) = Some c \<and> expectsReply (ctx_message c) \<and> now - receivedAt c \<le> askTimeoutMs t"
proof -
  let ?t = "pruneExpired now t"
  have inv: "tracker_inv ?t" using assms(1) by (rule tracker_inv_prune)
  have cur: "currentTurnContext ?t = currentTurnContext t" by (simp add: pruneExpired_def)
  have "currentTurnContext ?t = Some c \<or> c \<in> set (map_values (pendingAsks ?t))"
  proof (cases replyTo)
    case (Some r)
    then show ?thesis using assms(2) replyTo_target_sound [OF inv] by (simp add: resolveReplyTarget_def Let_def)
  next
    case None
    note reply = None
    show ?thesis
    proof (cases to)
      case (Some name)
      then show ?thesis using assms(2) reply to_target_sound by (simp add: resolveReplyTarget_def Let_def)
    next
      case None
      have "currentTurnContext ?t = Some c \<or> visible_asks ?t = [c]"
        using assms(2) reply None by (auto simp: resolveReplyTarget_def Let_def split: option.splits list.splits)
      then show ?thesis unfolding visible_asks_def by (auto dest: single_filter)
    qed
  qed
  then show ?thesis
  proof
    assume "c \<in> set (map_values (pendingAsks ?t))"
    from prune_keeps [OF assms(1) this] have v: "c \<in> set (map_values (pendingAsks t))" and "now - receivedAt c \<le> askTimeoutMs t"
      by simp_all
    moreover have "expectsReply (ctx_message c)" using v assms(1) by (auto simp: tracker_inv_def map_values_def)
    ultimately show ?thesis using in_pending_values [OF assms(1)] by simp
  qed (simp add: cur)
qed

lemma resolve_implicit:
  assumes "currentTurnContext t = None" and "fst (resolveReplyTarget None None now t) = Inr c"
  shows "visible_asks (pruneExpired now t) = [c]"
proof -
  have "currentTurnContext (pruneExpired now t) = None" using assms(1) by (simp add: pruneExpired_def)
  then show ?thesis using assms(2) by (auto simp: resolveReplyTarget_def Let_def split: list.splits)
qed

lemma marked_not_current: "currentTurnContext (markReplied m t) = Some c \<Longrightarrow> ctx_id c \<noteq> m"
  by (auto simp: markReplied_def Let_def split: if_splits)

lemma marked_not_pending: "map_get (pendingAsks (markReplied m t)) m = None"
  by (simp add: markReplied_def Let_def)

text \<open>A message the tracker does not know stays unknown until one with its id comes in.\<close>

fun brings_in :: "tracker_op \<Rightarrow> string option" where
  "brings_in (RecordIncoming c) = Some (ctx_id c)"
| "brings_in (QueueTurn c) = Some (ctx_id c)"
| "brings_in _ = None"

definition gone :: "string \<Rightarrow> tracker \<Rightarrow> bool" where
  "gone m t \<longleftrightarrow> map_get (pendingAsks t) m = None \<and> m \<notin> ctx_id ` set (pendingTurnContexts t) \<and>
    (\<forall>c. currentTurnContext t = Some c \<longrightarrow> ctx_id c \<noteq> m)"

lemma gone_marked: "gone m (markReplied m t)"
proof -
  have "m \<notin> ctx_id ` set (pendingTurnContexts (markReplied m t))" by (auto simp: markReplied_def Let_def)
  then show ?thesis unfolding gone_def using marked_not_current [of m t] marked_not_pending [of m t] by metis
qed

lemma get_filter_None: "map_get m k = None \<Longrightarrow> map_get (filter P m) k = None"
  by (auto simp: map_get_None_iff)

lemma get_delete_None: "map_get m k = None \<Longrightarrow> map_get (map_delete m k') k = None"
  unfolding map_delete_def by (rule get_filter_None)

lemma take_context_parts: "take_context m cs = Some (c, rest) \<Longrightarrow> c \<in> set cs \<and> set rest \<subseteq> set cs"
  by (induction cs arbitrary: rest) (auto split: if_splits)

lemma gone_prune: "gone m t \<Longrightarrow> gone m (pruneExpired now t)"
  by (auto simp: gone_def pruneExpired_def intro: get_filter_None)

lemma gone_admit:
  assumes "gone m t"
  shows "gone m (admitTurnMessage k t)"
proof (cases "map_option ctx_id (currentTurnContext t) = Some k \<or> take_context k (pendingTurnContexts t) = None")
  case True
  then show ?thesis using assms by (auto simp: gone_def admitTurnMessage_def)
next
  case False
  then obtain c rest where "take_context k (pendingTurnContexts t) = Some (c, rest)" by auto
  then show ?thesis using False assms take_context_parts [of k "pendingTurnContexts t" c rest] by (auto simp: gone_def admitTurnMessage_def)
qed

lemma gone_forget: "gone m t \<Longrightarrow> gone m (forgetIncomingMessage c t)"
  by (auto simp: gone_def forgetIncomingMessage_def Let_def intro: get_delete_None)

lemma gone_step:
  assumes "gone m t" and "brings_in x \<noteq> Some m"
  shows "gone m (tracker_step t x)"
proof (cases x)
  case (BeginTurn now)
  have "gone m (pruneExpired now t)" by (rule gone_prune [OF assms(1)])
  then show ?thesis by (simp add: BeginTurn beginTurn_def gone_def)
next
  case (MarkReplied k)
  then show ?thesis using assms(1) by (auto simp: gone_def markReplied_def Let_def intro: get_delete_None)
qed (use assms in \<open>simp_all add: gone_admit gone_forget gone_prune resolveReplyTarget_def listPending_def Let_def\<close>,
  (simp_all add: gone_def recordIncomingMessage_def queueTurnContext_def endTurn_def restoreTurnContext_def reset_tracker_def)?)

lemma gone_run: "gone m t \<Longrightarrow> \<forall>x \<in> set later. brings_in x \<noteq> Some m \<Longrightarrow> gone m (foldl tracker_step t later)"
  by (induction later arbitrary: t) (simp_all add: gone_step)

section \<open>What the inbox guarantees\<close>

text \<open>
  A terminal claims only its own child's messages: every entry a claim takes was queued and not
  yet shown, asks no reply, is not younger than the terminal, comes from one of the targets, and
  belongs to the claiming run; an entry that names no run is taken by its sender's name only if
  every queued entry without a run under that name has the same sender.
\<close>

theorem claim_takes_own_messages:
  assumes "claimOrdinarySourceTargets consumed runId targets terminalAt q = (cl, q')" and "e \<in> set (cl_entries cl)"
  shows "e \<in> set (q_entries q) \<and> msg_id e \<notin> set consumed \<and> \<not> expectsReply (entry_message e) \<and>
    (\<forall>t. terminalAt = Some t \<longrightarrow> timestamp (entry_message e) \<le> t) \<and>
    (session_id (entry_from e) \<in> set targets \<or> (\<exists>n \<in> set targets. session_name (entry_from e) = Some n)) \<and>
    (\<forall>r. subagentRunId (entry_message e) = Some r \<longrightarrow> r = runId) \<and>
    (subagentRunId (entry_message e) = None \<longrightarrow> session_id (entry_from e) \<in> set targets \<or>
       (\<forall>e' \<in> set (q_entries q). msg_id e' \<notin> set consumed \<longrightarrow> subagentRunId (entry_message e') = None \<longrightarrow>
          session_name (entry_from e') = session_name (entry_from e) \<longrightarrow> session_id (entry_from e') = session_id (entry_from e)))"
proof -
  note f = claim_fields [OF assms(1)]
  have mem: "e \<in> set (cl_original cl)" and cl: "claims_entry runId targets terminalAt (legacyIdsByName (cl_original cl)) e"
    using assms(2) f(2) by simp_all
  have legacy: "session_id (entry_from e) \<in> set targets \<or>
      (\<forall>e' \<in> set (cl_original cl). subagentRunId (entry_message e') = None \<longrightarrow>
          session_name (entry_from e') = session_name (entry_from e) \<longrightarrow> session_id (entry_from e') = session_id (entry_from e))"
    if none: "subagentRunId (entry_message e) = None"
  proof (cases "session_id (entry_from e) \<in> set targets")
    case False
    then obtain n where n: "session_name (entry_from e) = Some n"
      and one: "map_option length (map_get (legacyIdsByName (cl_original cl)) n) = Some 1"
      using cl none by (auto simp: claims_entry_def Let_def split: if_splits option.splits)
    obtain i where "legacy_of (cl_original cl) n = {i}" using legacy_single [OF one] by blast
    then have "\<And>e'. e' \<in> set (cl_original cl) \<Longrightarrow> subagentRunId (entry_message e') = None \<Longrightarrow>
        session_name (entry_from e') = Some n \<Longrightarrow> session_id (entry_from e') = i"
      by (auto simp: legacy_of_def)
    then show ?thesis using mem none n by metis
  qed simp
  have "\<not> expectsReply (entry_message e)" "\<forall>t. terminalAt = Some t \<longrightarrow> timestamp (entry_message e) \<le> t"
    "session_id (entry_from e) \<in> set targets \<or> (\<exists>n \<in> set targets. session_name (entry_from e) = Some n)"
    "\<forall>r. subagentRunId (entry_message e) = Some r \<longrightarrow> r = runId"
    using cl by (auto simp: claims_entry_def Let_def split: if_splits option.splits)
  then show ?thesis using mem legacy unfolding f(1) set_filter by blast
qed

definition sample_entry :: "nat \<Rightarrow> string \<Rightarrow> string \<Rightarrow> string option \<Rightarrow> inbound" where
  "sample_entry r i m run = \<lparr>entry_ref = r, entry_from = \<lparr>session_id = i, session_name = Some ''child''\<rparr>,
     entry_message = \<lparr>message_id = m, timestamp = 5, expectsReply = False, subagentRunId = run\<rparr>, historyOnly = False\<rparr>"

definition sample_queue :: idle_queue where
  "sample_queue = \<lparr>q_entries = [sample_entry 1 ''s1'' ''m1'' (Some ''run''), sample_entry 2 ''s2'' ''m2'' (Some ''other''),
     sample_entry 3 ''s3'' ''m3'' None], q_generation = 0\<rparr>"

theorem claim_takes_own_messages_witness:
  "map msg_id (cl_entries (fst (claimOrdinarySourceTargets [] ''run'' [''child''] (Some 9) sample_queue))) = [''m1'', ''m3''] \<and>
   \<not> expectsReply (entry_message (sample_entry 3 ''s3'' ''m3'' None))"
proof -
  have m: "map msg_id (cl_entries (fst (claimOrdinarySourceTargets [] ''run'' [''child''] (Some 9) sample_queue))) = [''m1'', ''m3'']"
    "sample_entry 3 ''s3'' ''m3'' None \<in> set (cl_entries (fst (claimOrdinarySourceTargets [] ''run'' [''child''] (Some 9) sample_queue)))"
    by code_simp+
  show ?thesis using claim_takes_own_messages [OF prod.collapse [symmetric] m(2)] m(1) by simp
qed

text \<open>
  A failed claim gives back what it did not deliver: the claim splits the queue in place, and
  rolling it back from position \<open>i\<close> leaves every entry but the \<open>i\<close> delivered ones in the original
  order, followed by what arrived since; a second rollback, or one after the queue was cleared,
  changes nothing.
\<close>

theorem rollback_restores_order:
  assumes "distinct (map entry_ref (q_entries q))"
    and "claimOrdinarySourceTargets consumed runId targets terminalAt q = (cl, q1)"
    and "q2 = foldl (\<lambda>q e. snd (enqueue consumed' e q)) q1 arrivals"
    and "\<forall>e \<in> set arrivals. \<not> ref_in e (q_entries q)"
  shows "(\<forall>e \<in> set (cl_original cl). ref_in e (cl_entries cl) \<noteq> ref_in e (q_entries q1)) \<and>
    (\<exists>new. q_entries q2 = q_entries q1 @ new \<and> set new \<subseteq> set arrivals \<and>
       q_entries (snd (rollbackFrom i cl q2)) =
         filter (\<lambda>e. msg_id e \<notin> set consumed \<and> \<not> ref_in e (take i (cl_entries cl))) (q_entries q) @ new) \<and>
    rollbackFrom j (fst (rollbackFrom i cl q2)) q' = (fst (rollbackFrom i cl q2), q') \<and>
    rollbackFrom i cl (clear_queue q2) = (cl, clear_queue q2)"
proof -
  note f = claim_fields [OF assms(2)]
  have dist: "distinct (map entry_ref (cl_original cl))" unfolding f(1) using assms(1) by (rule distinct_map_filter)
  have dsel: "distinct (map entry_ref (cl_entries cl))" unfolding f(2) using dist by (rule distinct_map_filter)
  obtain new where new: "q_entries q2 = q_entries q1 @ new" "set new \<subseteq> set arrivals" "q_generation q2 = q_generation q1"
    unfolding assms(3) using enqueue_appends [of consumed' q1 arrivals] by blast
  have part: "ref_in e (cl_entries cl) \<noteq> ref_in e (q_entries q1)" if "e \<in> set (cl_original cl)" for e
    unfolding f(3) using ref_in_filter [OF dist that] by simp
  have keep: "(\<not> ref_in e (cl_entries cl) \<or> ref_in e (drop i (cl_entries cl))) = (\<not> ref_in e (take i (cl_entries cl)))"
    if e: "e \<in> set (cl_original cl)" for e
  proof (cases "ref_in e (cl_entries cl)")
    case True
    then have "e \<in> set (cl_entries cl)" using ref_in_filter [OF dist e] e unfolding f(2) by auto
    then show ?thesis using take_drop_ref [OF dsel] True by simp
  next
    case False
    then show ?thesis by (auto simp: ref_in_def dest: in_set_takeD)
  qed
  have old: "filter (\<lambda>e. \<not> ref_in e (cl_original cl)) (q_entries q1) = []"
    by (auto simp: f(3) filter_empty_conv ref_in_def)
  have late: "filter (\<lambda>e. \<not> ref_in e (cl_original cl)) new = new"
    using new(2) assms(4) by (auto simp: filter_id_conv ref_in_def f(1))
  have "q_entries (snd (rollbackFrom i cl q2)) =
      filter (\<lambda>e. \<not> ref_in e (cl_entries cl) \<or> ref_in e (drop i (cl_entries cl))) (cl_original cl) @ new"
    using f(4-6) new(3) by (simp add: rollbackFrom_def Let_def new(1) old late)
  also have "filter (\<lambda>e. \<not> ref_in e (cl_entries cl) \<or> ref_in e (drop i (cl_entries cl))) (cl_original cl) =
      filter (\<lambda>e. \<not> ref_in e (take i (cl_entries cl))) (cl_original cl)"
    by (rule filter_cong [OF refl]) (rule keep)
  also have "\<dots> = filter (\<lambda>e. msg_id e \<notin> set consumed \<and> \<not> ref_in e (take i (cl_entries cl))) (q_entries q)"
    by (simp add: f(1) conj_commute)
  finally have restored: "q_entries (snd (rollbackFrom i cl q2)) =
      filter (\<lambda>e. msg_id e \<notin> set consumed \<and> \<not> ref_in e (take i (cl_entries cl))) (q_entries q) @ new" .
  have "cl_settled (fst (rollbackFrom i cl q2))" using f(4-6) new(3) by (simp add: rollbackFrom_def Let_def)
  then have "rollbackFrom j (fst (rollbackFrom i cl q2)) q' = (fst (rollbackFrom i cl q2), q')" by (simp add: rollbackFrom_def)
  moreover have "rollbackFrom i cl (clear_queue q2) = (cl, clear_queue q2)"
    using f(4,5) new(3) by (simp add: rollbackFrom_def clear_queue_def)
  ultimately show ?thesis using part restored new(1,2) by blast
qed

theorem rollback_restores_order_witness:
  "map msg_id (q_entries (snd (claimOrdinarySourceTargets [] ''run'' [''child''] (Some 9) sample_queue))) = [''m2''] \<and>
   (\<exists>new. q_entries (snd (rollbackFrom 1 (fst (claimOrdinarySourceTargets [] ''run'' [''child''] (Some 9) sample_queue))
       (foldl (\<lambda>q e. snd (enqueue [] e q)) (snd (claimOrdinarySourceTargets [] ''run'' [''child''] (Some 9) sample_queue))
          [sample_entry 4 ''s4'' ''m4'' None]))) =
     [sample_entry 2 ''s2'' ''m2'' (Some ''other''), sample_entry 3 ''s3'' ''m3'' None] @ new)"
proof -
  let ?c = "claimOrdinarySourceTargets [] ''run'' [''child''] (Some 9) sample_queue"
  have d: "distinct (map entry_ref (q_entries sample_queue))" by code_simp
  have m: "map msg_id (q_entries (snd ?c)) = [''m2'']" by code_simp
  have fr: "\<forall>e \<in> set [sample_entry 4 ''s4'' ''m4'' None]. \<not> ref_in e (q_entries sample_queue)" by code_simp
  have k: "filter (\<lambda>e. msg_id e \<notin> set [] \<and> \<not> ref_in e (take 1 (cl_entries (fst ?c)))) (q_entries sample_queue) =
     [sample_entry 2 ''s2'' ''m2'' (Some ''other''), sample_entry 3 ''s3'' ''m3'' None]" by code_simp
  show ?thesis
    using rollback_restores_order [where consumed = "[]" and runId = "''run''" and targets = "[''child'']" and terminalAt = "Some 9"
        and consumed' = "[]" and i = 1, OF d prod.collapse [symmetric] refl fr] m unfolding k by blast
qed

text \<open>
  C40. A reply answers a message the session may answer: the target is the message of the current
  turn, or an ask that is pending, expects a reply and has not expired; an implicit reply outside a
  turn picks an ask only if it is the one pending ask the model has seen; and once a message is
  marked replied no reply is routed to it, whatever happens later, unless a message with its id is
  recorded or queued for a turn again.
\<close>

theorem reply_target_sound:
  assumes "t = foldl tracker_step (new_tracker timeout) ops"
    and "fst (resolveReplyTarget to replyTo now t) = Inr c"
  shows "(currentTurnContext t = Some c \<or>
      map_get (pendingAsks t) (ctx_id c) = Some c \<and> expectsReply (ctx_message c) \<and> now - receivedAt c \<le> askTimeoutMs t) \<and>
    (to = None \<longrightarrow> replyTo = None \<longrightarrow> currentTurnContext t = None \<longrightarrow>
      ctx_id c \<notin> ctx_id ` set (pendingTurnContexts t) \<and>
      (\<forall>c'. map_get (pendingAsks t) (ctx_id c') = Some c' \<and> now - receivedAt c' \<le> askTimeoutMs t \<and>
         ctx_id c' \<notin> ctx_id ` set (pendingTurnContexts t) \<longrightarrow> c' = c)) \<and>
    (\<forall>m later to' replyTo' now' c'. (\<forall>x \<in> set later. brings_in x \<noteq> Some m) \<longrightarrow>
      fst (resolveReplyTarget to' replyTo' now' (foldl tracker_step (markReplied m t) later)) = Inr c' \<longrightarrow> ctx_id c' \<noteq> m)"
proof -
  have inv: "tracker_inv t" unfolding assms(1) by (rule tr.inv_run)
  have vis: "c' \<in> set (visible_asks (pruneExpired now t)) \<longleftrightarrow>
      map_get (pendingAsks t) (ctx_id c') = Some c' \<and> now - receivedAt c' \<le> askTimeoutMs t \<and>
      ctx_id c' \<notin> ctx_id ` set (pendingTurnContexts t)" for c'
    using in_pending_values [OF inv, of c'] in_pending_values [OF tracker_inv_prune [OF inv], of c' now]
    unfolding visible_asks_def pruneExpired_def list_ex_iff
    by (auto simp: map_values_def) (metis image_eqI)
  have implicit: "ctx_id c \<notin> ctx_id ` set (pendingTurnContexts t) \<and>
      (\<forall>c'. map_get (pendingAsks t) (ctx_id c') = Some c' \<and> now - receivedAt c' \<le> askTimeoutMs t \<and>
         ctx_id c' \<notin> ctx_id ` set (pendingTurnContexts t) \<longrightarrow> c' = c)"
    if "to = None" "replyTo = None" "currentTurnContext t = None"
  proof -
    have "visible_asks (pruneExpired now t) = [c]" using resolve_implicit [OF that(3)] assms(2) that(1,2) by simp
    then have "\<And>c'. (c' = c) = (map_get (pendingAsks t) (ctx_id c') = Some c' \<and> now - receivedAt c' \<le> askTimeoutMs t \<and>
      ctx_id c' \<notin> ctx_id ` set (pendingTurnContexts t))" using vis by simp
    then show ?thesis by blast
  qed
  have "ctx_id c' \<noteq> m" if "\<forall>x \<in> set later. brings_in x \<noteq> Some m"
    and r: "fst (resolveReplyTarget to' replyTo' now' (foldl tracker_step (markReplied m t) later)) = Inr c'" for m later to' replyTo' now' c'
  proof -
    have i: "tracker_inv (foldl tracker_step (markReplied m t) later)"
      using tr.inv_run_from [OF tracker_inv_step [OF inv, of "MarkReplied m"], of later] by simp
    have "gone m (foldl tracker_step (markReplied m t) later)" using gone_run [OF gone_marked that(1)] .
    then show ?thesis using resolve_sound [OF i r] by (auto simp: gone_def)
  qed
  then show ?thesis using resolve_sound [OF inv assms(2)] implicit by blast
qed

definition sample_ask :: "nat \<Rightarrow> string \<Rightarrow> context_entry" where
  "sample_ask r m = \<lparr>ctx_ref = r, ctx_from = \<lparr>session_id = ''s'' , session_name = None\<rparr>,
     ctx_message = \<lparr>message_id = m, timestamp = 1, expectsReply = True, subagentRunId = None\<rparr>, receivedAt = 10\<rparr>"

theorem reply_target_sound_witness:
  "fst (resolveReplyTarget None None 20 (foldl tracker_step (new_tracker 100)
     [RecordIncoming (sample_ask 1 ''a''), QueueTurn (sample_ask 1 ''a''), RecordIncoming (sample_ask 2 ''b'')])) = Inr (sample_ask 2 ''b'') \<and>
   ctx_id (sample_ask 2 ''b'') \<notin> ctx_id ` set (pendingTurnContexts (foldl tracker_step (new_tracker 100)
     [RecordIncoming (sample_ask 1 ''a''), QueueTurn (sample_ask 1 ''a''), RecordIncoming (sample_ask 2 ''b'')]))"
proof -
  have r: "fst (resolveReplyTarget None None 20 (foldl tracker_step (new_tracker 100)
     [RecordIncoming (sample_ask 1 ''a''), QueueTurn (sample_ask 1 ''a''), RecordIncoming (sample_ask 2 ''b'')])) = Inr (sample_ask 2 ''b'')"
    by code_simp
  have n: "currentTurnContext (foldl tracker_step (new_tracker 100)
     [RecordIncoming (sample_ask 1 ''a''), QueueTurn (sample_ask 1 ''a''), RecordIncoming (sample_ask 2 ''b'')]) = None" by code_simp
  show ?thesis using reply_target_sound [OF refl r] r n by blast
qed

text \<open>
  A message that is delivered again while a claim holds it is queued a second time by the rollback of
  that claim, since \<open>enqueue\<close> looks only at the entries queued at that moment.
\<close>

lemma rollback_can_duplicate:
  "let (cl, q1) = claimOrdinarySourceTargets [] ''run'' [''child''] None sample_queue;
       (accepted, q2) = enqueue [] (sample_entry 9 ''s1'' ''m1'' (Some ''run'')) q1
   in accepted \<and> map msg_id (fst (drain [] (snd (rollbackFrom 0 cl q2)))) = [''m1'', ''m2'', ''m3'', ''m1'']"
  by code_simp

end
