(* ===== verification/Compaction.thy ===== *)
theory Compaction
  imports Prelude "HOL-Library.Product_Lexorder"
begin

text \<open>
  Verbatim compaction of a transcript (\<^verbatim>\<open>packages/coding-agent/src/core/compaction\<close>): the numbered
  region and its protected lines (\<^verbatim>\<open>transcript-serialization.ts\<close>), the line ranges an untrusted planner
  asks to delete and their validation, the folding of earlier markers and the reconstruction
  (\<^verbatim>\<open>deleted-ranges.ts\<close>), and the oldest-first trimming of what the planner is shown
  (\<^verbatim>\<open>region-trimming.ts\<close>). A character is a UTF-16 code unit below 256; every pattern of the code is
  ASCII. Numbers are exact rationals; the rounding of doubles is not modelled.
\<close>

section \<open>Data\<close>

record line_range =
  r_start :: int
  r_end :: int

type_synonym line = string

datatype span_role = UserSpan | AssistantSpan | ToolSpan

record message_span =
  sp_role :: span_role
  sp_start :: nat
  sp_end :: nat

record numbered_region =
  rg_lines :: "line list"
  rg_spans :: "message_span list option"
  rg_headers :: "nat jset"
  rg_markers :: "(nat, int) jmap"
  rg_protected :: "nat jset option"
  rg_tokenEstimate :: int

datatype raw_endpoint = RawNum number | RawStr string | RawBool bool | RawNull

record raw_range =
  raw_start :: "raw_endpoint option"
  raw_end :: "raw_endpoint option"

section \<open>\<open>Number\<close> on the values JSON can carry\<close>

definition js_space :: "char \<Rightarrow> bool" where
  "js_space c = ((of_char c :: nat) \<in> {9, 10, 11, 12, 13, 32, 160})"

definition js_trim :: "string \<Rightarrow> string" where
  "js_trim s = rev (dropWhile js_space (rev (dropWhile js_space s)))"

definition is_digit :: "char \<Rightarrow> bool" where
  "is_digit c = (48 \<le> (of_char c :: nat) \<and> (of_char c :: nat) \<le> 57)"

definition digit_value :: "char \<Rightarrow> nat" where
  "digit_value c = (let n = of_char c :: nat in
     if 48 \<le> n \<and> n \<le> 57 then n - 48 else if 65 \<le> n \<and> n \<le> 70 then n - 55 else if 97 \<le> n \<and> n \<le> 102 then n - 87 else 16)"

definition radix_value :: "nat \<Rightarrow> string \<Rightarrow> nat" where
  "radix_value b s = foldl (\<lambda>n c. b * n + digit_value c) 0 s"

definition radix_literal :: "nat \<Rightarrow> string \<Rightarrow> number" where
  "radix_literal b s = (if s \<noteq> [] \<and> list_all (\<lambda>c. digit_value c < b) s then Num (of_nat (radix_value b s)) else NaN)"

definition exponent :: "string \<Rightarrow> int option" where
  "exponent s = (case s of
      [] \<Rightarrow> Some 0
    | c # r \<Rightarrow>
        if c \<noteq> CHR ''e'' \<and> c \<noteq> CHR ''E'' then None
        else
          let (neg, ds) = (case r of
              CHR ''-'' # t \<Rightarrow> (True, t) | CHR ''+'' # t \<Rightarrow> (False, t) | _ \<Rightarrow> (False, r))
          in if ds \<noteq> [] \<and> list_all is_digit ds
             then Some (if neg then - int (radix_value 10 ds) else int (radix_value 10 ds)) else None)"

definition pow10 :: "int \<Rightarrow> rat" where
  "pow10 e = (if 0 \<le> e then 10 ^ nat e else inverse (10 ^ nat (- e)))"

definition decimal_literal :: "string \<Rightarrow> number" where
  "decimal_literal s =
    (let ip = takeWhile is_digit s; r1 = dropWhile is_digit s;
         (fp, r2) = (case r1 of CHR ''.'' # t \<Rightarrow> (takeWhile is_digit t, dropWhile is_digit t) | _ \<Rightarrow> ([], r1))
     in if ip = [] \<and> fp = [] then NaN
        else case exponent r2 of
          None \<Rightarrow> NaN
        | Some e \<Rightarrow> Num ((of_nat (radix_value 10 ip) + of_nat (radix_value 10 fp) / 10 ^ length fp) * pow10 e))"

definition negate :: "number \<Rightarrow> number" where
  "negate n = (case n of Num r \<Rightarrow> Num (- r) | NaN \<Rightarrow> NaN | PosInf \<Rightarrow> NegInf | NegInf \<Rightarrow> PosInf)"

definition unsigned_literal :: "string \<Rightarrow> number" where
  "unsigned_literal s = (if s = ''Infinity'' then PosInf else decimal_literal s)"

definition string_number :: "string \<Rightarrow> number" where
  "string_number s =
    (let t = js_trim s in
     if t = [] then Num 0
     else if take 2 t \<in> {''0x'', ''0X''} then radix_literal 16 (drop 2 t)
     else if take 2 t \<in> {''0o'', ''0O''} then radix_literal 8 (drop 2 t)
     else if take 2 t \<in> {''0b'', ''0B''} then radix_literal 2 (drop 2 t)
     else case t of
       CHR ''-'' # u \<Rightarrow> negate (unsigned_literal u)
     | CHR ''+'' # u \<Rightarrow> unsigned_literal u
     | _ \<Rightarrow> unsigned_literal t)"

text \<open>A text that denotes a number too large for a double denotes an infinity.\<close>

definition overflow :: "number \<Rightarrow> number" where
  "overflow n = (case n of
      Num r \<Rightarrow> if 2 ^ 1024 - 2 ^ 970 \<le> r then PosInf else if r \<le> - (2 ^ 1024 - 2 ^ 970) then NegInf else n
    | _ \<Rightarrow> n)"

definition to_number :: "raw_endpoint \<Rightarrow> number" where
  "to_number v = (case v of
      RawNum n \<Rightarrow> n | RawStr s \<Rightarrow> overflow (string_number s) | RawBool b \<Rightarrow> Num (if b then 1 else 0) | RawNull \<Rightarrow> Num 0)"

definition trunc :: "rat \<Rightarrow> int" where
  "trunc r = (if 0 \<le> r then \<lfloor>r\<rfloor> else \<lceil>r\<rceil>)"

definition coerceEndpoint :: "raw_endpoint option \<Rightarrow> int option" where
  "coerceEndpoint v = (case v of
      None \<Rightarrow> None
    | Some e \<Rightarrow> (case to_number e of Num r \<Rightarrow> Some (trunc r) | _ \<Rightarrow> None))"

section \<open>Validation of the planner's ranges\<close>

definition merge_step :: "line_range list \<Rightarrow> line_range \<Rightarrow> line_range list" where
  "merge_step merged rng =
    (if merged \<noteq> [] \<and> r_start rng \<le> r_end (last merged) + 1
     then butlast merged @ [(last merged)\<lparr>r_end := max (r_end (last merged)) (r_end rng)\<rparr>]
     else merged @ [rng])"

definition mergeRanges :: "line_range list \<Rightarrow> line_range list" where
  "mergeRanges ranges = foldl merge_step [] ranges"

function split_loop :: "nat jset \<Rightarrow> int \<Rightarrow> int \<Rightarrow> int \<Rightarrow> line_range list \<Rightarrow> line_range list" where
  "split_loop protected line stop start fragments =
    (if line \<le> stop then
       if \<not> (0 \<le> line \<and> set_has protected (nat line)) then split_loop protected (line + 1) stop start fragments
       else split_loop protected (line + 1) stop (line + 1)
         (if start < line then fragments @ [\<lparr>r_start = start, r_end = line - 1\<rparr>] else fragments)
     else if start \<le> stop then fragments @ [\<lparr>r_start = start, r_end = stop\<rparr>] else fragments)"
  by pat_completeness auto
termination
  by (relation "measure (\<lambda>(protected, line, stop, start, fragments). nat (stop + 1 - line))") auto

declare split_loop.simps [simp del]

definition splitAroundProtected :: "nat jset \<Rightarrow> line_range \<Rightarrow> line_range list" where
  "splitAroundProtected protected rng = split_loop protected (r_start rng) (r_end rng) (r_start rng) []"

definition normalize_range :: "int \<Rightarrow> raw_range \<Rightarrow> line_range list" where
  "normalize_range totalLines candidate =
    (case (coerceEndpoint (raw_start candidate), coerceEndpoint (raw_end candidate)) of
       (Some s, Some e) \<Rightarrow>
         let (s, e) = (if s > e then (e, s) else (s, e));
             s = max 1 s; e = min totalLines e
         in if s \<le> e then [\<lparr>r_start = s, r_end = e\<rparr>] else []
     | _ \<Rightarrow> [])"

definition protected_lines :: "numbered_region \<Rightarrow> nat jset" where
  "protected_lines region = or_else (rg_protected region) []"

definition validateDeletedRanges :: "raw_range list \<Rightarrow> numbered_region \<Rightarrow> line_range list" where
  "validateDeletedRanges raw region =
    (let totalLines = int (length (rg_lines region));
         normalized = sort_key (\<lambda>r. (r_start r, r_end r)) (concat (map (normalize_range totalLines) raw))
     in concat (map (splitAroundProtected (protected_lines region)) (mergeRanges normalized)))"

section \<open>Folding earlier markers into the deletion\<close>

text \<open>Reading and writing an array of booleans as JavaScript does: past the end, \<open>undefined\<close> and extension.\<close>

definition flag :: "bool list \<Rightarrow> nat \<Rightarrow> bool" where
  "flag deleted i = (i < length deleted \<and> deleted ! i)"

definition set_flag :: "bool list \<Rightarrow> nat \<Rightarrow> bool list" where
  "set_flag deleted i =
    (if i < length deleted then deleted[i := True] else deleted @ replicate (i - length deleted) False @ [True])"

definition rangesToDeletedLines :: "line_range list \<Rightarrow> nat \<Rightarrow> bool list" where
  "rangesToDeletedLines ranges lineCount =
    foldl (\<lambda>deleted r. foldl (\<lambda>deleted line. set_flag deleted (nat (line - 1))) deleted [r_start r..r_end r])
      (replicate lineCount False) ranges"

definition fold_marker :: "bool list \<times> bool \<Rightarrow> nat \<Rightarrow> bool list \<times> bool" where
  "fold_marker st lineNumber = (case st of (deleted, changed) \<Rightarrow>
     let index = lineNumber - 1 in
     if flag deleted index then (deleted, changed)
     else
       let previousDeleted = (if index > 0 then flag deleted (index - 1) else False);
           nextDeleted = (if index + 1 < length deleted then flag deleted (index + 1) else False)
       in if previousDeleted \<or> nextDeleted then (set_flag deleted index, True) else (deleted, changed))"

definition fold_pass :: "nat list \<Rightarrow> bool list \<Rightarrow> bool list \<times> bool" where
  "fold_pass keys deleted = foldl fold_marker (deleted, False) keys"

definition unfolded :: "nat list \<Rightarrow> bool list \<Rightarrow> nat set" where
  "unfolded keys deleted = {k \<in> set keys. \<not> flag deleted (k - 1)}"

lemma flag_set_flag [simp]: "flag (set_flag deleted i) j = (j = i \<or> flag deleted j)"
  by (auto simp: flag_def set_flag_def nth_append nth_list_update)

lemma fold_marker_flags:
  "\<exists>D. fold_marker (deleted, changed) k = (D, changed) \<and> D = deleted \<or>
       fold_marker (deleted, changed) k = (D, True) \<and> \<not> flag deleted (k - 1) \<and> D = set_flag deleted (k - 1)"
  by (auto simp: fold_marker_def Let_def)

lemma fold_pass_decreases:
  assumes "foldl fold_marker (deleted, c) keys' = (deleted', c')" and "set keys' \<subseteq> set keys"
  shows "unfolded keys deleted' \<subseteq> unfolded keys deleted \<and> (c' \<longrightarrow> c \<or> unfolded keys deleted' \<subset> unfolded keys deleted)"
  using assms
proof (induction keys' arbitrary: deleted c)
  case Nil
  then show ?case by auto
next
  case (Cons k ks)
  consider "fold_marker (deleted, c) k = (deleted, c)"
    | "fold_marker (deleted, c) k = (set_flag deleted (k - 1), True)" "\<not> flag deleted (k - 1)"
    using fold_marker_flags [of deleted c k] by blast
  then show ?case
  proof cases
    case 1
    then show ?thesis using Cons by simp
  next
    case 2
    have "foldl fold_marker (set_flag deleted (k - 1), True) ks = (deleted', c')" using Cons.prems(1) 2 by simp
    then have "unfolded keys deleted' \<subseteq> unfolded keys (set_flag deleted (k - 1))"
      using Cons.IH Cons.prems(2) by (metis list.set_intros(2) subset_iff)
    moreover have "unfolded keys (set_flag deleted (k - 1)) \<subset> unfolded keys deleted"
      using 2(2) Cons.prems(2) by (auto simp: unfolded_def)
    ultimately show ?thesis by auto
  qed
qed

lemma fold_pass_measure:
  assumes "(deleted', True) = fold_pass keys deleted"
  shows "card (unfolded keys deleted') < card (unfolded keys deleted)"
proof (rule psubset_card_mono)
  show "finite (unfolded keys deleted)" by (simp add: unfolded_def)
  show "unfolded keys deleted' \<subset> unfolded keys deleted"
    using fold_pass_decreases [of deleted False keys deleted' True keys] assms by (simp add: fold_pass_def)
qed

function fold_loop :: "nat list \<Rightarrow> bool list \<Rightarrow> bool list" where
  "fold_loop keys deleted =
    (case fold_pass keys deleted of (deleted', changed) \<Rightarrow> if changed then fold_loop keys deleted' else deleted')"
  by pat_completeness auto
termination
  by (relation "measure (\<lambda>(keys, deleted). card (unfolded keys deleted))") (auto simp: fold_pass_measure)

declare fold_loop.simps [simp del]

text \<open>The scan that turns the flags back into ranges; the last position is a sentinel that closes an open range.\<close>

fun flag_ranges :: "nat \<Rightarrow> int option \<Rightarrow> bool list \<Rightarrow> line_range list" where
  "flag_ranges index start [] = (case start of None \<Rightarrow> [] | Some s \<Rightarrow> [\<lparr>r_start = s, r_end = int index\<rparr>])"
| "flag_ranges index start (isDeleted # rest) =
    (let start = (if isDeleted \<and> start = None then Some (int index + 1) else start) in
     case start of
       Some s \<Rightarrow>
         if \<not> isDeleted then \<lparr>r_start = s, r_end = int index\<rparr> # flag_ranges (Suc index) None rest
         else flag_ranges (Suc index) start rest
     | None \<Rightarrow> flag_ranges (Suc index) None rest)"

definition foldAdjacentMarkers :: "numbered_region \<Rightarrow> line_range list \<Rightarrow> line_range list" where
  "foldAdjacentMarkers region ranges =
    flag_ranges 0 None (fold_loop (map_keys (rg_markers region)) (rangesToDeletedLines ranges (length (rg_lines region))))"

section \<open>Reconstruction\<close>

definition cumulativeDeletedCount :: "numbered_region \<Rightarrow> line_range \<Rightarrow> int" where
  "cumulativeDeletedCount region rng =
    foldl (\<lambda>count line. case map_get (rg_markers region) (nat line) of None \<Rightarrow> count | Some prior \<Rightarrow> count + (prior - 1))
      (r_end rng - r_start rng + 1) [r_start rng..r_end rng]"

text \<open>What is pushed to the output: a line of the region by its number, or a marker with its count.\<close>

datatype output_item = Kept nat | Marker int

fun output_items :: "numbered_region \<Rightarrow> int \<Rightarrow> line_range list \<Rightarrow> output_item list" where
  "output_items region line [] = map (\<lambda>l. Kept (nat l)) [line..int (length (rg_lines region))]"
| "output_items region line (rng # rest) =
    map (\<lambda>l. Kept (nat l)) [line..r_start rng - 1] @
    Marker (cumulativeDeletedCount region rng) # output_items region (r_end rng + 1) rest"

definition filteredMarker :: "int \<Rightarrow> line" where
  "filteredMarker lineCount = ''(filtered '' @ int_dec lineCount @ '' lines)''"

definition item_line :: "numbered_region \<Rightarrow> output_item \<Rightarrow> line" where
  "item_line region i = (case i of Kept n \<Rightarrow> rg_lines region ! (n - 1) | Marker c \<Rightarrow> filteredMarker c)"

definition newline :: char where
  "newline = char_of (10 :: nat)"

abbreviation join_lines :: "line list \<Rightarrow> string" where
  "join_lines \<equiv> join_on newline"

abbreviation split_lines :: "string \<Rightarrow> line list" where
  "split_lines \<equiv> split_on newline"

definition contiguous_step :: "line_range list \<Rightarrow> nat \<Rightarrow> line_range list" where
  "contiguous_step ranges l =
    (if ranges \<noteq> [] \<and> int l = r_end (last ranges) + 1 then butlast ranges @ [(last ranges)\<lparr>r_end := int l\<rparr>]
     else ranges @ [\<lparr>r_start = int l, r_end = int l\<rparr>])"

definition contiguousRanges :: "nat jset \<Rightarrow> line_range list" where
  "contiguousRanges lines = foldl contiguous_step [] (sort lines)"

record compaction_stats =
  linesBefore :: int
  linesDeleted :: int
  linesKept :: int
  rangeCount :: int
  tokensBefore :: int
  tokensAfter :: int
  percentReduction :: rat

record compacted_transcript =
  ct_text :: string
  ct_ranges :: "line_range list"
  ct_keptRanges :: "line_range list"
  ct_stats :: compaction_stats

definition math_round :: "rat \<Rightarrow> int" where
  "math_round r = \<lfloor>r + 1 / 2\<rfloor>"

definition quarter_up :: "nat \<Rightarrow> int" where
  "quarter_up n = \<lceil>(of_nat n :: rat) / 4\<rceil>"

definition reconstructCompactedTranscript :: "numbered_region \<Rightarrow> line_range list \<Rightarrow> compacted_transcript" where
  "reconstructCompactedTranscript region ranges =
    (let finalRanges = foldAdjacentMarkers region ranges;
         output = map (item_line region) (output_items region 1 finalRanges);
         text = join_lines output;
         deletedCount = foldl (\<lambda>total r. total + r_end r - r_start r + 1) 0 finalRanges;
         tokens = quarter_up (length text);
         reduction = (if rg_tokenEstimate region = 0 then 0
           else of_int (math_round ((1 - of_int tokens / of_int (rg_tokenEstimate region)) * 1000)) / 10)
     in \<lparr>ct_text = text, ct_ranges = finalRanges, ct_keptRanges = contiguousRanges (protected_lines region),
         ct_stats = \<lparr>linesBefore = int (length (rg_lines region)), linesDeleted = deletedCount,
           linesKept = int (length (rg_lines region)) - deletedCount, rangeCount = int (length finalRanges),
           tokensBefore = rg_tokenEstimate region, tokensAfter = tokens, percentReduction = reduction\<rparr>\<rparr>)"

section \<open>The numbered region\<close>

definition ROLES :: "string list" where
  "ROLES = [''User'', ''Assistant'', ''Assistant thinking'', ''Assistant tool calls'', ''Tool result'']"

definition role_header :: "string \<Rightarrow> string" where
  "role_header role = CHR ''['' # role @ '']: ''"

text \<open>\<open>ROLE_HEADER_RE.exec\<close>: the role of a line that starts with a header. No header is a prefix of another.\<close>

definition header_role :: "line \<Rightarrow> string option" where
  "header_role l = find (\<lambda>role. take (length (role_header role)) l = role_header role) ROLES"

definition strip_header :: "line \<Rightarrow> line" where
  "strip_header l = (case header_role l of None \<Rightarrow> l | Some role \<Rightarrow> drop (length (role_header role)) l)"

definition lower_ascii :: "char \<Rightarrow> char" where
  "lower_ascii c = (let n = of_char c :: nat in if 65 \<le> n \<and> n \<le> 90 then char_of (n + 32) else c)"

datatype keep_marker = KeepOpen | KeepClose

definition keepContextMarker :: "line \<Rightarrow> keep_marker option" where
  "keepContextMarker l =
    (let body = map lower_ascii (js_trim (strip_header l)) in
     if body = ''<keepcontext>'' then Some KeepOpen else if body = ''</keepcontext>'' then Some KeepClose else None)"

definition roleMayProtect :: "string option \<Rightarrow> bool" where
  "roleMayProtect role = (role \<noteq> Some ''Tool result'')"

definition protectThrough :: "nat option \<Rightarrow> nat \<Rightarrow> nat jset \<Rightarrow> nat jset" where
  "protectThrough openIndex stop protected = (case openIndex of
      None \<Rightarrow> protected | Some i \<Rightarrow> set_add_all protected (map Suc [i..<stop]))"

fun keep_loop :: "line list \<Rightarrow> nat \<Rightarrow> nat option \<Rightarrow> string option \<Rightarrow> nat jset \<Rightarrow> nat jset" where
  "keep_loop [] index openIndex role protected = protectThrough openIndex index protected"
| "keep_loop (l # ls) index openIndex role protected =
    (let (openIndex, role, protected) = (case header_role l of
         None \<Rightarrow> (openIndex, role, protected)
       | Some r \<Rightarrow> (None, Some r, protectThrough openIndex index protected))
     in if \<not> roleMayProtect role then keep_loop ls (Suc index) openIndex role protected
        else case keepContextMarker l of
          Some KeepOpen \<Rightarrow> keep_loop ls (Suc index) (case openIndex of None \<Rightarrow> Some index | Some i \<Rightarrow> Some i) role protected
        | Some KeepClose \<Rightarrow> keep_loop ls (Suc index) None role (protectThrough openIndex (Suc index) protected)
        | None \<Rightarrow> keep_loop ls (Suc index) openIndex role protected)"

definition keepContextLineNumbers :: "line list \<Rightarrow> nat jset" where
  "keepContextLineNumbers lines = keep_loop lines 0 None None []"

text \<open>\<open>FILTERED_MARKER_RE.exec\<close> and the number it captures.\<close>

definition filtered_count :: "line \<Rightarrow> int option" where
  "filtered_count l =
    (let pre = ''(filtered ''; post = '' lines)''; body = drop (length pre) l; ds = takeWhile is_digit body in
     if take (length pre) l = pre \<and> ds \<noteq> [] \<and> dropWhile is_digit body = post then Some (int (radix_value 10 ds)) else None)"

definition header_lines :: "line list \<Rightarrow> nat jset" where
  "header_lines lines = map Suc (filter (\<lambda>i. header_role (lines ! i) \<noteq> None) [0..<length lines])"

definition marker_lines :: "line list \<Rightarrow> (nat, int) jmap" where
  "marker_lines lines = concat (map (\<lambda>i. case filtered_count (lines ! i) of None \<Rightarrow> [] | Some n \<Rightarrow> [(Suc i, n)]) [0..<length lines])"

definition createNumberedRegion :: "string \<Rightarrow> nat jset option \<Rightarrow> numbered_region" where
  "createNumberedRegion text protectedLineNumbers =
    (let lines = split_lines text;
         detected = keepContextLineNumbers lines;
         merged = (case protectedLineNumbers of None \<Rightarrow> detected | Some p \<Rightarrow> set_add_all (set_add_all [] p) detected)
     in \<lparr>rg_lines = lines, rg_spans = None, rg_headers = header_lines lines, rg_markers = marker_lines lines,
         rg_protected = (if length merged > 0 then Some merged else None), rg_tokenEstimate = quarter_up (length text)\<rparr>)"

section \<open>Trimming the head\<close>

definition rebaseSet :: "nat jset option \<Rightarrow> nat \<Rightarrow> nat jset" where
  "rebaseSet source offset = foldl (\<lambda>s l. if l > offset then set_add s (l - offset) else s) [] (or_else source [])"

definition trimRegionHead :: "numbered_region \<Rightarrow> nat \<Rightarrow> numbered_region option" where
  "trimRegionHead region offset =
    (if offset \<le> 0 \<or> offset \<ge> length (rg_lines region) then None
     else
       let lines = drop offset (rg_lines region) in
       Some \<lparr>rg_lines = lines,
         rg_spans = map_option (\<lambda>spans. map (\<lambda>span. span\<lparr>sp_start := max 1 (sp_start span - offset), sp_end := sp_end span - offset\<rparr>)
           (filter (\<lambda>span. sp_end span > offset) spans)) (rg_spans region),
         rg_headers = rebaseSet (Some (rg_headers region)) offset,
         rg_markers = foldl (\<lambda>m e. if fst e > offset then map_set m (fst e - offset) (snd e) else m) [] (rg_markers region),
         rg_protected = map_option (\<lambda>p. rebaseSet (Some p) offset) (rg_protected region),
         rg_tokenEstimate = quarter_up (length (join_lines lines))\<rparr>)"

definition nextTrimOffset :: "numbered_region \<Rightarrow> nat \<Rightarrow> nat option" where
  "nextTrimOffset region currentOffset =
    (let remaining = int (length (rg_lines region)) - int currentOffset in
     if remaining \<le> 1 then None
     else
       let nxt = int currentOffset + max 1 (remaining div 2) in
       if nxt \<ge> int (length (rg_lines region)) then None else Some (nat nxt))"

definition rebaseTrimmedRanges :: "line_range list \<Rightarrow> nat \<Rightarrow> raw_range list" where
  "rebaseTrimmedRanges validated offset =
    \<lparr>raw_start = Some (RawNum (Num 1)), raw_end = Some (RawNum (Num (of_nat offset)))\<rparr> #
    map (\<lambda>r. \<lparr>raw_start = Some (RawNum (Num (of_int (r_start r) + of_nat offset))),
              raw_end = Some (RawNum (Num (of_int (r_end r) + of_nat offset)))\<rparr>) validated"

section \<open>Ranges as sets of lines\<close>

definition lines_of :: "line_range list \<Rightarrow> int set" where
  "lines_of rs = (\<Union>r \<in> set rs. {r_start r..r_end r})"

definition separated :: "line_range list \<Rightarrow> bool" where
  "separated rs \<longleftrightarrow> sorted_wrt (\<lambda>a b. r_end a + 1 < r_start b) rs \<and> (\<forall>r \<in> set rs. r_start r \<le> r_end r)"

lemma lines_of_simps [simp]:
  "lines_of [] = {}" "lines_of (r # rs) = {r_start r..r_end r} \<union> lines_of rs" "lines_of (rs @ rs') = lines_of rs \<union> lines_of rs'"
  by (auto simp: lines_of_def)

lemma separated_Nil [simp]: "separated []"
  by (simp add: separated_def)

lemma separated_append:
  "separated (rs @ rs') \<longleftrightarrow> separated rs \<and> separated rs' \<and> (\<forall>a \<in> set rs. \<forall>b \<in> set rs'. r_end a + 1 < r_start b)"
  by (auto simp: separated_def sorted_wrt_append)

lemma separated_single: "separated [r] \<longleftrightarrow> r_start r \<le> r_end r"
  by (simp add: separated_def)

lemma separated_Cons:
  "separated (r # rs) \<longleftrightarrow> r_start r \<le> r_end r \<and> separated rs \<and> (\<forall>b \<in> set rs. r_end r + 1 < r_start b)"
  by (auto simp: separated_def)

lemma merge_step_effect:
  assumes "separated acc" and "r_start r \<le> r_end r" and "acc \<noteq> [] \<longrightarrow> r_start (last acc) \<le> r_start r"
  shows "separated (merge_step acc r) \<and> lines_of (merge_step acc r) = lines_of acc \<union> {r_start r..r_end r} \<and>
    merge_step acc r \<noteq> [] \<and> r_start (last (merge_step acc r)) \<le> r_start r"
proof (cases "acc = []")
  case True
  then show ?thesis using assms by (simp add: merge_step_def separated_single)
next
  case False
  then obtain as l where acc: "acc = as @ [l]" by (metis append_butlast_last_id)
  have l: "r_start l \<le> r_start r" "r_start l \<le> r_end l" and sep: "separated as" "\<forall>a \<in> set as. r_end a + 1 < r_start l"
    using assms acc by (auto simp: separated_append separated_single)
  show ?thesis
  proof (cases "r_start r \<le> r_end l + 1")
    case True
    have "{r_start l..max (r_end l) (r_end r)} = {r_start l..r_end l} \<union> {r_start r..r_end r}"
      using True l assms(2) by auto
    then show ?thesis using True acc l sep by (auto simp: merge_step_def separated_append separated_single)
  next
    case False
    have "\<forall>a \<in> set as. r_end a + 1 < r_start r" using sep(2) l by force
    then show ?thesis using False acc l sep assms(2)
      by (auto simp: merge_step_def separated_append separated_single separated_Cons)
  qed
qed

lemma merge_fold_effect:
  assumes "separated acc" and "sorted (map r_start rs)" and "\<forall>r \<in> set rs. r_start r \<le> r_end r"
    and "acc \<noteq> [] \<longrightarrow> (\<forall>r \<in> set rs. r_start (last acc) \<le> r_start r)"
  shows "separated (foldl merge_step acc rs) \<and> lines_of (foldl merge_step acc rs) = lines_of acc \<union> lines_of rs"
  using assms
proof (induction rs arbitrary: acc)
  case Nil
  then show ?case by simp
next
  case (Cons r rs)
  have step: "separated (merge_step acc r)" "lines_of (merge_step acc r) = lines_of acc \<union> {r_start r..r_end r}"
    "merge_step acc r \<noteq> []" "r_start (last (merge_step acc r)) \<le> r_start r"
    using merge_step_effect [OF Cons.prems(1), of r] Cons.prems(3,4) by auto
  have "\<forall>x \<in> set rs. r_start (last (merge_step acc r)) \<le> r_start x" using Cons.prems(2) step(4) by force
  then show ?case using Cons.IH [OF step(1)] Cons.prems(2,3) step(2) by auto
qed

lemma sorted_starts: "sorted (map r_start (sort_key (\<lambda>r. (r_start r, r_end r)) rs))"
proof -
  have "sorted (map (\<lambda>r. (r_start r, r_end r)) (sort_key (\<lambda>r. (r_start r, r_end r)) rs))" by (rule sorted_sort_key)
  then have "sorted_wrt (\<lambda>a b. (r_start a, r_end a) \<le> (r_start b, r_end b)) (sort_key (\<lambda>r. (r_start r, r_end r)) rs)"
    by (simp add: sorted_map)
  then have "sorted_wrt (\<lambda>a b. r_start a \<le> r_start b) (sort_key (\<lambda>r. (r_start r, r_end r)) rs)"
    by (rule sorted_wrt_mono_rel [rotated]) (auto simp: less_eq_prod_def)
  then show ?thesis by (simp add: sorted_map)
qed

lemma mergeRanges_effect:
  assumes "\<forall>r \<in> set rs. r_start r \<le> r_end r"
  shows "separated (mergeRanges (sort_key (\<lambda>r. (r_start r, r_end r)) rs))"
    "lines_of (mergeRanges (sort_key (\<lambda>r. (r_start r, r_end r)) rs)) = lines_of rs"
proof -
  have "separated (foldl merge_step [] (sort_key (\<lambda>r. (r_start r, r_end r)) rs)) \<and>
    lines_of (foldl merge_step [] (sort_key (\<lambda>r. (r_start r, r_end r)) rs)) =
      lines_of [] \<union> lines_of (sort_key (\<lambda>r. (r_start r, r_end r)) rs)"
    using assms sorted_starts by (intro merge_fold_effect) auto
  then show "separated (mergeRanges (sort_key (\<lambda>r. (r_start r, r_end r)) rs))"
    "lines_of (mergeRanges (sort_key (\<lambda>r. (r_start r, r_end r)) rs)) = lines_of rs"
    by (auto simp: mergeRanges_def lines_of_def)
qed

definition protected_set :: "nat jset \<Rightarrow> int set" where
  "protected_set protected = int ` set protected"

lemma protected_test: "(0 \<le> line \<and> set_has protected (nat line)) = (line \<in> protected_set protected)"
  by (auto simp: set_has_def protected_set_def image_iff intro: bexI [of _ "nat line"])

lemma split_loop_effect:
  assumes "start \<le> line" and "{start..line - 1} \<inter> protected_set P = {}" and "line \<le> stop + 1"
  shows "\<exists>X. split_loop P line stop start frags = frags @ X \<and> separated X \<and>
    lines_of X = {start..stop} - protected_set P \<and> (\<forall>r \<in> set X. start \<le> r_start r \<and> r_end r \<le> stop)"
  using assms
proof (induction P line stop start frags rule: split_loop.induct)
  case (1 P line stop start frags)
  note IH1 = "1.IH"(1) and IH2 = "1.IH"(2)
  show ?case
  proof (cases "line \<le> stop")
    case False
    then have "line = stop + 1" using "1.prems"(3) by simp
    then have "lines_of (if start \<le> stop then [\<lparr>r_start = start, r_end = stop\<rparr>] else []) = {start..stop} - protected_set P"
      using "1.prems"(2) by auto
    moreover have "split_loop P line stop start frags =
        frags @ (if start \<le> stop then [\<lparr>r_start = start, r_end = stop\<rparr>] else [])"
      using False by (subst split_loop.simps) simp
    ultimately show ?thesis
      by (intro exI [of _ "if start \<le> stop then [\<lparr>r_start = start, r_end = stop\<rparr>] else []"]) (simp add: separated_single)
  next
    case True
    show ?thesis
    proof (cases "line \<in> protected_set P")
      case False
      have "{start..line + 1 - 1} = insert line {start..line - 1}" using "1.prems"(1) by auto
      then have free: "{start..line + 1 - 1} \<inter> protected_set P = {}" using "1.prems"(2) False by simp
      have "split_loop P line stop start frags = split_loop P (line + 1) stop start frags"
        using True False by (subst split_loop.simps) (simp add: protected_test)
      then show ?thesis using IH1 [OF True] False free "1.prems"(1) True by (simp add: protected_test)
    next
      case prot: True
      let ?new = "if start < line then [\<lparr>r_start = start, r_end = line - 1\<rparr>] else []"
      have "split_loop P line stop start frags = split_loop P (line + 1) stop (line + 1) (frags @ ?new)"
        using True prot by (subst split_loop.simps) (simp add: protected_test)
      moreover obtain X where X: "split_loop P (line + 1) stop (line + 1) (frags @ ?new) = (frags @ ?new) @ X" "separated X"
        "lines_of X = {line + 1..stop} - protected_set P" "\<forall>r \<in> set X. line + 1 \<le> r_start r \<and> r_end r \<le> stop"
        using IH2 [OF True] prot True by (auto simp: protected_test split: if_splits)
      moreover have "lines_of ?new = {start..line - 1} - protected_set P" using "1.prems"(1,2) by auto
      moreover have "{start..stop} - protected_set P = ({start..line - 1} - protected_set P) \<union> ({line + 1..stop} - protected_set P)"
        using "1.prems"(1) True prot by (auto simp: not_le) (metis order_le_less)
      moreover have "separated (?new @ X)" using X(2,4) by (auto simp: separated_append separated_single)
      moreover have "\<forall>r \<in> set (?new @ X). start \<le> r_start r \<and> r_end r \<le> stop"
        using X(4) "1.prems"(1) True by force
      ultimately show ?thesis by (intro exI [of _ "?new @ X"]) auto
    qed
  qed
qed

lemma splitAroundProtected_effect:
  assumes "r_start r \<le> r_end r"
  shows "separated (splitAroundProtected P r)" "lines_of (splitAroundProtected P r) = {r_start r..r_end r} - protected_set P"
    "x \<in> set (splitAroundProtected P r) \<Longrightarrow> r_start r \<le> r_start x \<and> r_end x \<le> r_end r"
  using split_loop_effect [of "r_start r" "r_start r" P "r_end r" "[]"] assms by (auto simp: splitAroundProtected_def)

lemma separated_concat:
  assumes "separated rs" and "\<And>r. r \<in> set rs \<Longrightarrow> separated (f r)"
    and "\<And>r x. r \<in> set rs \<Longrightarrow> x \<in> set (f r) \<Longrightarrow> r_start r \<le> r_start x \<and> r_end x \<le> r_end r"
  shows "separated (concat (map f rs))"
  using assms
proof (induction rs)
  case Nil
  then show ?case by simp
next
  case (Cons r rs)
  have "r_end a + 1 < r_start b" if "a \<in> set (f r)" "b \<in> set (concat (map f rs))" for a b
  proof -
    obtain r' where r': "r' \<in> set rs" "b \<in> set (f r')" using \<open>b \<in> set (concat (map f rs))\<close> by auto
    have "r_end r + 1 < r_start r'" using Cons.prems(1) r'(1) by (simp add: separated_Cons)
    moreover have "r_end a \<le> r_end r" using Cons.prems(3) [of r a] \<open>a \<in> set (f r)\<close> by simp
    moreover have "r_start r' \<le> r_start b" using Cons.prems(3) [of r' b] r' by simp
    ultimately show ?thesis by linarith
  qed
  moreover have "separated (concat (map f rs))" using Cons by (simp add: separated_Cons)
  ultimately show ?case using Cons.prems(2) by (simp add: separated_append)
qed

lemma lines_of_concat: "lines_of (concat (map f rs)) = (\<Union>r \<in> set rs. lines_of (f r))"
  by (auto simp: lines_of_def)

text \<open>The lines a raw range asks for, clamped to the region.\<close>

definition requested :: "int \<Rightarrow> raw_range \<Rightarrow> int set" where
  "requested n c = (case (coerceEndpoint (raw_start c), coerceEndpoint (raw_end c)) of
      (Some s, Some e) \<Rightarrow> {min s e..max s e} \<inter> {1..n} | _ \<Rightarrow> {})"

lemma normalize_range_effect:
  "lines_of (normalize_range n c) = requested n c"
  "r \<in> set (normalize_range n c) \<Longrightarrow> 1 \<le> r_start r \<and> r_start r \<le> r_end r \<and> r_end r \<le> n"
  by (auto simp: normalize_range_def requested_def Let_def split: option.splits if_splits)

lemma validate_effect:
  "separated (validateDeletedRanges raw region)"
  "lines_of (validateDeletedRanges raw region) =
     (\<Union>c \<in> set raw. requested (int (length (rg_lines region))) c) - protected_set (protected_lines region)"
proof -
  let ?n = "int (length (rg_lines region))"
  let ?rs = "concat (map (normalize_range ?n) raw)"
  have valid: "\<forall>r \<in> set ?rs. r_start r \<le> r_end r" using normalize_range_effect(2) by fastforce
  note m = mergeRanges_effect [OF valid]
  let ?m = "mergeRanges (sort_key (\<lambda>r. (r_start r, r_end r)) ?rs)"
  have mv: "\<And>r. r \<in> set ?m \<Longrightarrow> r_start r \<le> r_end r" using m(1) by (simp add: separated_def)
  have v: "validateDeletedRanges raw region = concat (map (splitAroundProtected (protected_lines region)) ?m)"
    by (simp add: validateDeletedRanges_def Let_def)
  show "separated (validateDeletedRanges raw region)"
    unfolding v using m(1) splitAroundProtected_effect mv by (intro separated_concat) auto
  have "lines_of (validateDeletedRanges raw region) = (\<Union>r \<in> set ?m. {r_start r..r_end r} - protected_set (protected_lines region))"
    unfolding v lines_of_concat using splitAroundProtected_effect(2) mv by auto
  also have "\<dots> = lines_of ?m - protected_set (protected_lines region)" by (auto simp: lines_of_def)
  also have "lines_of ?m = (\<Union>c \<in> set raw. requested ?n c)"
    unfolding m(2) lines_of_concat normalize_range_effect(1) ..
  finally show "lines_of (validateDeletedRanges raw region) =
     (\<Union>c \<in> set raw. requested ?n c) - protected_set (protected_lines region)" .
qed

section \<open>What folding deletes\<close>

text \<open>The least set of positions that holds the deleted ones and every marker next to one of its members.\<close>

inductive_set folded :: "nat list \<Rightarrow> bool list \<Rightarrow> nat set" for keys deleted where
  deleted: "flag deleted i \<Longrightarrow> i \<in> folded keys deleted"
| after_deleted: "Suc (Suc i) \<in> set keys \<Longrightarrow> i \<in> folded keys deleted \<Longrightarrow> Suc i \<in> folded keys deleted"
| before_deleted: "Suc i \<in> set keys \<Longrightarrow> Suc i < length deleted \<Longrightarrow> Suc i \<in> folded keys deleted \<Longrightarrow> i \<in> folded keys deleted"

definition keys_within :: "nat list \<Rightarrow> bool list \<Rightarrow> bool" where
  "keys_within keys deleted \<longleftrightarrow> (\<forall>k \<in> set keys. 1 \<le> k \<and> k \<le> length deleted)"

lemma length_set_flag [simp]: "i < length deleted \<Longrightarrow> length (set_flag deleted i) = length deleted"
  by (simp add: set_flag_def)

lemma fold_marker_within:
  assumes "1 \<le> k" "k \<le> length deleted" "k \<in> set keys" "length deleted = length D0"
    and "\<And>i. flag deleted i \<Longrightarrow> i \<in> folded keys D0"
  shows "length (fst (fold_marker (deleted, c) k)) = length deleted"
    "flag (fst (fold_marker (deleted, c) k)) i \<Longrightarrow> i \<in> folded keys D0"
proof -
  show "length (fst (fold_marker (deleted, c) k)) = length deleted"
    using assms(1,2) by (auto simp: fold_marker_def Let_def)
  have new: "k - 1 \<in> folded keys D0"
    if "(0 < k - 1 \<and> flag deleted (k - 1 - 1)) \<or> (k - 1 + 1 < length deleted \<and> flag deleted (k - 1 + 1))"
    using that
  proof
    assume a: "0 < k - 1 \<and> flag deleted (k - 1 - 1)"
    then obtain j where "k = Suc (Suc j)" using assms(1) by (cases k; cases "k - 1") auto
    then show ?thesis using a assms(3,5) folded.after_deleted [of j keys D0] by simp
  next
    assume a: "k - 1 + 1 < length deleted \<and> flag deleted (k - 1 + 1)"
    then show ?thesis using assms folded.before_deleted [of "k - 1" keys D0] by simp
  qed
  then show "flag (fst (fold_marker (deleted, c) k)) i \<Longrightarrow> i \<in> folded keys D0"
    using assms(5) by (auto simp: fold_marker_def Let_def split: if_splits)
qed

lemma fold_pass_within:
  assumes "keys_within keys D0" and "set ks \<subseteq> set keys" and "length deleted = length D0"
    and "\<And>i. flag deleted i \<Longrightarrow> i \<in> folded keys D0"
  shows "length (fst (foldl fold_marker (deleted, c) ks)) = length D0 \<and>
    (\<forall>i. flag (fst (foldl fold_marker (deleted, c) ks)) i \<longrightarrow> i \<in> folded keys D0) \<and>
    (\<forall>i. flag deleted i \<longrightarrow> flag (fst (foldl fold_marker (deleted, c) ks)) i)"
  using assms(2-4)
proof (induction ks arbitrary: deleted c)
  case Nil
  then show ?case by simp
next
  case (Cons k ks)
  have k: "1 \<le> k" "k \<le> length deleted" "k \<in> set keys" using Cons.prems assms(1) by (auto simp: keys_within_def)
  obtain D c' where D: "fold_marker (deleted, c) k = (D, c')" by (cases "fold_marker (deleted, c) k")
  have "length D = length D0" "\<And>i. flag D i \<Longrightarrow> i \<in> folded keys D0"
    using fold_marker_within [OF k Cons.prems(2) Cons.prems(3), of c] D Cons.prems(2) by auto
  moreover have "\<And>i. flag deleted i \<Longrightarrow> flag D i" using fold_marker_flags [of deleted c k] D by auto
  ultimately show ?case using Cons.IH [of D c'] Cons.prems(1) D by auto
qed

lemma fold_pass_stable:
  assumes "foldl fold_marker (deleted, False) ks = (deleted', False)"
  shows "deleted' = deleted \<and> (\<forall>k \<in> set ks. fold_marker (deleted, False) k = (deleted, False))"
proof -
  have true: "snd (foldl fold_marker (d, True) ks)" for d ks
  proof (induction ks arbitrary: d)
    case (Cons k ks)
    then show ?case using fold_marker_flags [of d True k] by auto
  qed simp
  show ?thesis using assms
  proof (induction ks)
    case Nil
    then show ?case by simp
  next
    case (Cons k ks)
    consider "fold_marker (deleted, False) k = (deleted, False)" | D where "fold_marker (deleted, False) k = (D, True)"
      using fold_marker_flags [of deleted False k] by blast
    then show ?case
    proof cases
      case 1
      then show ?thesis using Cons by simp
    next
      case 2
      then show ?thesis using Cons.prems true [of D ks] by simp
    qed
  qed
qed

lemma stable_closed:
  assumes "\<forall>k \<in> set keys. fold_marker (deleted, False) k = (deleted, False)"
    and "length deleted = length D0" and "\<And>i. flag D0 i \<Longrightarrow> flag deleted i"
  shows "i \<in> folded keys D0 \<Longrightarrow> flag deleted i"
proof (induction rule: folded.induct)
  case (deleted i)
  then show ?case by (rule assms(3))
next
  case (after_deleted i)
  then show ?case using assms(1) by (force simp: fold_marker_def Let_def split: if_splits)
next
  case (before_deleted i)
  then have "fold_marker (deleted, False) (Suc i) = (deleted, False)" using assms(1) by blast
  then show ?case using before_deleted assms(2) by (auto simp: fold_marker_def Let_def split: if_splits)
qed

lemma fold_loop_folded:
  assumes "keys_within keys D0" and "length deleted = length D0"
    and "\<And>i. flag deleted i \<Longrightarrow> i \<in> folded keys D0" and "\<And>i. flag D0 i \<Longrightarrow> flag deleted i"
  shows "length (fold_loop keys deleted) = length D0 \<and> (\<forall>i. flag (fold_loop keys deleted) i \<longleftrightarrow> i \<in> folded keys D0)"
  using assms
proof (induction keys deleted rule: fold_loop.induct)
  case (1 keys deleted)
  obtain D c where D: "fold_pass keys deleted = (D, c)" by (cases "fold_pass keys deleted")
  have w: "length D = length D0" "\<And>i. flag D i \<Longrightarrow> i \<in> folded keys D0" "\<And>i. flag deleted i \<Longrightarrow> flag D i"
    using fold_pass_within [OF "1.prems"(1) order_refl "1.prems"(2) "1.prems"(3), of False] D
    by (auto simp: fold_pass_def)
  show ?case
  proof (cases c)
    case True
    have "fold_loop keys deleted = fold_loop keys D" using D True by (subst fold_loop.simps) simp
    moreover have "length (fold_loop keys D) = length D0 \<and> (\<forall>i. flag (fold_loop keys D) i \<longleftrightarrow> i \<in> folded keys D0)"
      by (rule "1.IH" [OF D [symmetric] True "1.prems"(1) w(1)]) (use w(2,3) "1.prems"(4) in blast)+
    ultimately show ?thesis by simp
  next
    case False
    have "D = deleted \<and> (\<forall>k \<in> set keys. fold_marker (deleted, False) k = (deleted, False))"
      using D False by (intro fold_pass_stable) (simp add: fold_pass_def)
    moreover have "fold_loop keys deleted = D" using D False by (subst fold_loop.simps) simp
    ultimately show ?thesis using stable_closed [OF _ "1.prems"(2,4)] "1.prems"(2,3) by auto
  qed
qed

lemma flag_ranges_effect:
  "(case start of None \<Rightarrow> True | Some s \<Rightarrow> s \<le> int index) \<Longrightarrow>
    separated (flag_ranges index start D) \<and>
    lines_of (flag_ranges index start D) =
      (case start of None \<Rightarrow> {} | Some s \<Rightarrow> {s..int index}) \<union> {int index + int i + 1 | i. flag D i} \<and>
    (\<forall>r \<in> set (flag_ranges index start D). (case start of None \<Rightarrow> int index + 1 | Some s \<Rightarrow> s) \<le> r_start r)"
proof (induction index start D rule: flag_ranges.induct)
  case (1 index start)
  then show ?case by (auto simp: flag_def separated_single split: option.splits)
next
  case (2 index start d rest)
  have flags: "{int index + int i + 1 | i. flag (d # rest) i} =
      (if d then {int index + 1} else {}) \<union> {int (Suc index) + int i + 1 | i. flag rest i}"
  proof (intro set_eqI iffI)
    fix x
    assume "x \<in> {int index + int i + 1 | i. flag (d # rest) i}"
    then obtain i where i: "x = int index + int i + 1" "flag (d # rest) i" by blast
    show "x \<in> (if d then {int index + 1} else {}) \<union> {int (Suc index) + int i + 1 | i. flag rest i}"
      using i by (cases i) (auto simp: flag_def)
  next
    fix x
    assume "x \<in> (if d then {int index + 1} else {}) \<union> {int (Suc index) + int i + 1 | i. flag rest i}"
    then consider "d" "x = int index + 1" | i where "x = int index + int (Suc i) + 1" "flag rest i"
      by (auto split: if_splits)
    then show "x \<in> {int index + int i + 1 | i. flag (d # rest) i}"
    proof cases
      case 1
      then show ?thesis by (auto simp: flag_def intro!: exI [of _ 0])
    next
      case 2
      then show ?thesis by (intro CollectI exI [of _ "Suc i"]) (simp add: flag_def)
    qed
  qed
  show ?case
  proof (cases d)
    case True
    let ?s = "case start of None \<Rightarrow> int index + 1 | Some s \<Rightarrow> s"
    have "separated (flag_ranges (Suc index) (Some ?s) rest) \<and>
      lines_of (flag_ranges (Suc index) (Some ?s) rest) = {?s..int (Suc index)} \<union> {int (Suc index) + int i + 1 | i. flag rest i} \<and>
      (\<forall>r \<in> set (flag_ranges (Suc index) (Some ?s) rest). ?s \<le> r_start r)"
      using "2.IH" True "2.prems" by (cases start) auto
    moreover have "flag_ranges index start (d # rest) = flag_ranges (Suc index) (Some ?s) rest"
      using True by (cases start) simp_all
    moreover have "{?s..int (Suc index)} = (case start of None \<Rightarrow> {} | Some s \<Rightarrow> {s..int index}) \<union> {int index + 1}"
      using "2.prems" by (cases start) auto
    ultimately show ?thesis unfolding flags using True by (auto split: option.splits)
  next
    case False
    have rest: "separated (flag_ranges (Suc index) None rest) \<and>
      lines_of (flag_ranges (Suc index) None rest) = {int (Suc index) + int i + 1 | i. flag rest i} \<and>
      (\<forall>r \<in> set (flag_ranges (Suc index) None rest). int (Suc index) + 1 \<le> r_start r)"
      using "2.IH" False by (cases start) auto
    show ?thesis
    proof (cases start)
      case None
      then show ?thesis unfolding flags using False rest by force
    next
      case (Some s)
      then show ?thesis unfolding flags using False rest "2.prems" by (auto simp: separated_Cons)
    qed
  qed
qed

lemma foldl_set_flag:
  assumes "\<And>l. l \<in> set ls \<Longrightarrow> nat (l - 1) < length deleted"
  shows "length (foldl (\<lambda>deleted l. set_flag deleted (nat (l - 1))) deleted ls) = length deleted \<and>
    (\<forall>i. flag (foldl (\<lambda>deleted l. set_flag deleted (nat (l - 1))) deleted ls) i \<longleftrightarrow> flag deleted i \<or> (\<exists>l \<in> set ls. i = nat (l - 1)))"
  using assms by (induction ls arbitrary: deleted) auto

lemma rangesToDeletedLines_flags:
  assumes "\<forall>r \<in> set rs. 1 \<le> r_start r \<and> r_end r \<le> int n"
  shows "length (rangesToDeletedLines rs n) = n \<and> (\<forall>i. flag (rangesToDeletedLines rs n) i \<longleftrightarrow> int i + 1 \<in> lines_of rs)"
proof -
  let ?f = "\<lambda>deleted r. foldl (\<lambda>deleted line. set_flag deleted (nat (line - 1))) deleted [r_start r..r_end r]"
  have "length (foldl ?f deleted rs) = length deleted \<and>
    (\<forall>i. flag (foldl ?f deleted rs) i \<longleftrightarrow> flag deleted i \<or> int i + 1 \<in> lines_of rs)" if "length deleted = n" for deleted
    using assms that
  proof (induction rs arbitrary: deleted)
    case Nil
    then show ?case by simp
  next
    case (Cons r rs)
    have r: "1 \<le> r_start r" "r_end r \<le> int n" using Cons.prems(1) by auto
    have "\<And>l. l \<in> set [r_start r..r_end r] \<Longrightarrow> nat (l - 1) < length deleted" using r Cons.prems(2) by auto
    note f = foldl_set_flag [of "[r_start r..r_end r]" deleted, OF this]
    have mem: "(\<exists>l \<in> set [r_start r..r_end r]. i = nat (l - 1)) \<longleftrightarrow> int i + 1 \<in> {r_start r..r_end r}" for i
      using r by (auto intro!: bexI [of _ "int i + 1"])
    have "length (?f deleted r) = n" using f Cons.prems(2) by auto
    then show ?case using Cons.IH [of "?f deleted r"] Cons.prems f mem by auto
  qed
  moreover have "\<not> flag (replicate n False) i" for i by (simp add: flag_def)
  ultimately show ?thesis using length_replicate [of n False] unfolding rangesToDeletedLines_def by (metis (no_types, lifting))
qed

section \<open>What the output holds\<close>

definition line_weight :: "numbered_region \<Rightarrow> int \<Rightarrow> int" where
  "line_weight region l = (case map_get (rg_markers region) (nat l) of None \<Rightarrow> 1 | Some prior \<Rightarrow> prior)"

fun item_weight :: "numbered_region \<Rightarrow> output_item \<Rightarrow> int" where
  "item_weight region (Kept n) = line_weight region (int n)"
| "item_weight region (Marker c) = c"

definition kept_numbers :: "output_item list \<Rightarrow> nat list" where
  "kept_numbers items = concat (map (\<lambda>i. case i of Kept n \<Rightarrow> [n] | Marker c \<Rightarrow> []) items)"

lemma kept_numbers_simps [simp]:
  "kept_numbers [] = []" "kept_numbers (Kept n # is) = n # kept_numbers is" "kept_numbers (Marker c # is) = kept_numbers is"
  "kept_numbers (is @ is') = kept_numbers is @ kept_numbers is'"
  by (simp_all add: kept_numbers_def)

lemma kept_numbers_map_Kept [simp]: "kept_numbers (map (\<lambda>l. Kept (nat l)) ls) = map nat ls"
  by (induction ls) auto

lemma cumulative_sum:
  assumes "r_start r \<le> r_end r + 1"
  shows "cumulativeDeletedCount region r = (\<Sum>l\<leftarrow>[r_start r..r_end r]. line_weight region l)"
proof -
  have "foldl (\<lambda>count line. case map_get (rg_markers region) (nat line) of None \<Rightarrow> count | Some prior \<Rightarrow> count + (prior - 1)) c ls =
      c + (\<Sum>l\<leftarrow>ls. line_weight region l) - int (length ls)" for c ls
    by (induction ls arbitrary: c) (auto simp: line_weight_def split: option.split)
  then show ?thesis using assms by (simp add: cumulativeDeletedCount_def)
qed

lemma upto_append: "a \<le> b + 1 \<Longrightarrow> b \<le> c \<Longrightarrow> [a..b] @ [b + 1..c] = [a..c]" for a b c :: int
proof (cases "a \<le> b")
  case True
  then show "b \<le> c \<Longrightarrow> ?thesis" using upto_split2 [of a b c] by simp
next
  case False
  assume "a \<le> b + 1"
  then have "a = b + 1" using False by simp
  then show ?thesis by simp
qed

lemma output_items_effect:
  assumes "separated rs" and "\<forall>r \<in> set rs. line \<le> r_start r \<and> r_end r \<le> int (length (rg_lines region))" and "1 \<le> line"
    and "line \<le> int (length (rg_lines region)) + 1"
  shows "kept_numbers (output_items region line rs) = map nat (filter (\<lambda>l. l \<notin> lines_of rs) [line..int (length (rg_lines region))]) \<and>
    (\<Sum>i\<leftarrow>output_items region line rs. item_weight region i) = (\<Sum>l\<leftarrow>[line..int (length (rg_lines region))]. line_weight region l)"
  using assms
proof (induction region line rs rule: output_items.induct)
  case (1 region line)
  have "(\<Sum>l\<leftarrow>[line..int (length (rg_lines region))]. item_weight region (Kept (nat l))) =
    (\<Sum>l\<leftarrow>[line..int (length (rg_lines region))]. line_weight region l)"
    using 1 by (intro arg_cong [where f = sum_list] map_cong) auto
  then show ?case by (simp add: comp_def)
next
  case (2 region line r rs)
  let ?N = "int (length (rg_lines region))"
  have r: "line \<le> r_start r" "r_start r \<le> r_end r" "r_end r \<le> ?N" "separated rs" "\<forall>b \<in> set rs. r_end r + 1 < r_start b"
    using "2.prems" by (auto simp: separated_Cons)
  have ih: "kept_numbers (output_items region (r_end r + 1) rs) = map nat (filter (\<lambda>l. l \<notin> lines_of rs) [r_end r + 1..?N]) \<and>
    (\<Sum>i\<leftarrow>output_items region (r_end r + 1) rs. item_weight region i) = (\<Sum>l\<leftarrow>[r_end r + 1..?N]. line_weight region l)"
    using r "2.prems" by (intro "2.IH") force+
  have split: "[line..?N] = [line..r_start r - 1] @ [r_start r..r_end r] @ [r_end r + 1..?N]"
    using upto_append [of line "r_start r - 1" ?N] upto_append [of "r_start r" "r_end r" ?N] r by simp
  have below: "l \<notin> lines_of rs" if "l \<le> r_end r" for l
    using r(5) that by (force simp: lines_of_def)
  have f1: "filter (\<lambda>l. l \<notin> lines_of (r # rs)) [line..r_start r - 1] = [line..r_start r - 1]"
    using below r by (auto simp: filter_id_conv)
  have f2: "filter (\<lambda>l. l \<notin> lines_of (r # rs)) [r_start r..r_end r] = []" by (auto simp: filter_empty_conv)
  have f3: "filter (\<lambda>l. l \<notin> lines_of (r # rs)) [r_end r + 1..?N] = filter (\<lambda>l. l \<notin> lines_of rs) [r_end r + 1..?N]"
    by (rule filter_cong) auto
  have w: "(\<Sum>l\<leftarrow>[line..r_start r - 1]. item_weight region (Kept (nat l))) = (\<Sum>l\<leftarrow>[line..r_start r - 1]. line_weight region l)"
    using "2.prems"(3) by (intro arg_cong [where f = sum_list] map_cong) auto
  have "r_start r \<le> r_end r + 1" using r(2) by simp
  note c = cumulative_sum [OF this, of region]
  show ?case unfolding split using ih f1 f2 f3 w c by (simp add: comp_def)
qed

section \<open>Text and lines\<close>

lemma digit_value_digit [simp]: "n < 10 \<Longrightarrow> digit_value (digit n) = n"
  by (simp add: digit_value_def)

lemma is_digit_nat_dec: "c \<in> set (nat_dec n) \<Longrightarrow> is_digit c"
  using nat_dec_chars [of c n] by (simp add: is_digit_def)

lemma nat_dec_nonempty [simp]: "nat_dec n \<noteq> []"
  by (subst nat_dec.simps) simp

lemma radix_nat_dec: "radix_value 10 (nat_dec n) = n"
proof (induction n rule: nat_dec.induct)
  case (1 n)
  show ?case
  proof (cases "n < 10")
    case True
    then show ?thesis by (simp add: nat_dec.simps [of n] radix_value_def)
  next
    case False
    then have "radix_value 10 (nat_dec n) = 10 * radix_value 10 (nat_dec (n div 10)) + digit_value (digit (n mod 10))"
      by (simp add: nat_dec.simps [of n] radix_value_def)
    then show ?thesis using 1 False by simp
  qed
qed

lemma filtered_count_marker: "0 \<le> c \<Longrightarrow> filtered_count (filteredMarker c) = Some c"
proof -
  assume c: "0 \<le> c"
  let ?n = "nat_dec (nat c)"
  have nd: "\<not> is_digit (CHR '' '')" by (simp add: is_digit_def)
  have tw: "takeWhile is_digit (?n @ '' lines)'') = ?n" using is_digit_nat_dec nd by (subst takeWhile_append2) auto
  have dw: "dropWhile is_digit (?n @ '' lines)'') = '' lines)''" using is_digit_nat_dec nd by (subst dropWhile_append2) auto
  have fm: "filteredMarker c = ''(filtered '' @ ?n @ '' lines)''" using c by (simp add: filteredMarker_def int_dec_def)
  show ?thesis unfolding filtered_count_def fm Let_def using c
    by (simp only: append_eq_conv_conj [symmetric] append_same_eq drop_append take_append)
      (simp add: tw dw [simplified] tw [simplified] radix_nat_dec)
qed

lemma marker_no_newline: "0 \<le> c \<Longrightarrow> newline \<notin> set (filteredMarker c)"
proof -
  assume "0 \<le> c"
  then have "filteredMarker c = ''(filtered '' @ nat_dec (nat c) @ '' lines)''" by (simp add: filteredMarker_def int_dec_def)
  moreover have "newline \<notin> set (nat_dec (nat c))" using is_digit_nat_dec [of newline "nat c"] by (auto simp: is_digit_def newline_def)
  moreover have "newline \<notin> set ''(filtered ''" "newline \<notin> set '' lines)''" by code_simp+
  ultimately show ?thesis by simp
qed

lemma filtered_count_nonneg: "filtered_count l = Some n \<Longrightarrow> 0 \<le> n"
  by (auto simp: filtered_count_def Let_def split: if_splits)

lemma map_get_marker_lines:
  "map_get (marker_lines lines) k = (if 1 \<le> k \<and> k \<le> length lines then filtered_count (lines ! (k - 1)) else None)"
proof -
  have "map_get (concat (map (\<lambda>i. case f i of None \<Rightarrow> [] | Some n \<Rightarrow> [(Suc i, n)]) xs)) k =
      (if 1 \<le> k \<and> k - 1 \<in> set xs then f (k - 1) else None)" for f :: "nat \<Rightarrow> int option" and xs
    by (induction xs) (auto simp: map_get_def split: option.splits)
  then show ?thesis by (auto simp: marker_lines_def)
qed

definition text_weight :: "line \<Rightarrow> int" where
  "text_weight l = (case filtered_count l of None \<Rightarrow> 1 | Some n \<Rightarrow> n)"

definition accounted_lines :: "string \<Rightarrow> int" where
  "accounted_lines text = (\<Sum>l\<leftarrow>split_lines text. text_weight l)"

end
