(* ===== verification/Compaction_Plan.thy ===== *)
theory Compaction_Plan
  imports Compaction
begin

text \<open>
  The planner's side of compaction: the walk over ever shorter views of the region after a context overflow
  (\<^verbatim>\<open>planWithTrimming\<close> of \<^verbatim>\<open>compaction-runner.ts\<close>), the structured input the planner is given and the way its
  answer is read back (\<^verbatim>\<open>structured-compaction-input.ts\<close>), and the theorems on compaction as a whole. What the
  planner answers, and whether the request has been aborted meanwhile, are arguments of the model, indexed by the
  number of requests made before.
\<close>

section \<open>The trimming walk\<close>

datatype planner_outcome =
    Ranked "raw_range list"
  | Recovered "raw_range list" nat
  | RateLimited
  | Unusable
  | Overflowed
  | PolicyRefusal
  | ProviderError

datatype planner_attempt = Planned "raw_range list" | Terminal planner_outcome

datatype compaction_error = CompactionCancelled

type_synonym plan_result = "(compaction_error + planner_attempt) \<times> (numbered_region \<times> int) list"

definition keep_target :: "rat \<Rightarrow> numbered_region \<Rightarrow> int" where
  "keep_target compression_ratio region =
    max (case rg_protected region of None \<Rightarrow> 0 | Some p \<Rightarrow> int (length p))
      (math_round (of_nat (length (rg_lines region)) * compression_ratio))"

definition outcome_ranges :: "planner_outcome \<Rightarrow> raw_range list option" where
  "outcome_ranges outcome = (case outcome of Ranked rs \<Rightarrow> Some rs | Recovered rs n \<Rightarrow> Some rs | _ \<Rightarrow> None)"

lemma nextTrimOffset_bounds:
  "nextTrimOffset region offset = Some n \<Longrightarrow> offset < n \<and> n < length (rg_lines region)"
  by (auto simp: nextTrimOffset_def Let_def split: if_splits)

text \<open>The second component logs the requests: the view the planner was shown and its keep target.\<close>

function trim_loop :: "(nat \<Rightarrow> numbered_region \<Rightarrow> int \<Rightarrow> planner_outcome) \<Rightarrow> (nat \<Rightarrow> bool) \<Rightarrow> rat \<Rightarrow> numbered_region \<Rightarrow>
    nat \<Rightarrow> nat \<Rightarrow> plan_result" where
  "trim_loop plan aborted ratio whole request offset =
    (case (if offset = 0 then Some whole else trimRegionHead whole offset) of
       None \<Rightarrow> (Inr (Terminal Overflowed), [])
     | Some region \<Rightarrow>
         let keepTarget = keep_target ratio region;
             outcome = plan request region keepTarget
         in case outcome_ranges outcome of
              Some rs \<Rightarrow>
                (Inr (Planned (if offset = 0 then rs else rebaseTrimmedRanges (validateDeletedRanges rs region) offset)),
                 [(region, keepTarget)])
            | None \<Rightarrow>
                if outcome \<noteq> Overflowed then (Inr (Terminal outcome), [(region, keepTarget)])
                else if aborted request then (Inl CompactionCancelled, [(region, keepTarget)])
                else case nextTrimOffset whole offset of
                       None \<Rightarrow> (Inr (Terminal outcome), [(region, keepTarget)])
                     | Some offset' \<Rightarrow>
                         let (result, requests) = trim_loop plan aborted ratio whole (Suc request) offset'
                         in (result, (region, keepTarget) # requests))"
  by pat_completeness auto
termination
  by (relation "measure (\<lambda>(plan, aborted, ratio, whole, request, offset). length (rg_lines whole) - offset)")
    (auto dest: nextTrimOffset_bounds)

declare trim_loop.simps [simp del]

definition planWithTrimming ::
  "(nat \<Rightarrow> numbered_region \<Rightarrow> int \<Rightarrow> planner_outcome) \<Rightarrow> (nat \<Rightarrow> bool) \<Rightarrow> rat \<Rightarrow> numbered_region \<Rightarrow> plan_result" where
  "planWithTrimming plan aborted ratio region = trim_loop plan aborted ratio region 0 0"

section \<open>Regions made from a text\<close>

definition wf_region :: "numbered_region \<Rightarrow> bool" where
  "wf_region region \<longleftrightarrow> rg_lines region \<noteq> [] \<and> (\<forall>l \<in> set (rg_lines region). newline \<notin> set l) \<and>
    rg_markers region = marker_lines (rg_lines region)"

lemma createNumberedRegion_fields [simp]:
  "rg_lines (createNumberedRegion text p) = split_lines text"
  "rg_markers (createNumberedRegion text p) = marker_lines (split_lines text)"
  by (simp_all add: createNumberedRegion_def Let_def)

lemma wf_createNumberedRegion: "wf_region (createNumberedRegion text p)"
  by (auto simp: wf_region_def dest: split_on_no_sep)

lemma marker_keys: "k \<in> set (map_keys (marker_lines lines)) \<longleftrightarrow> 1 \<le> k \<and> k \<le> length lines \<and> filtered_count (lines ! (k - 1)) \<noteq> None"
proof -
  have "k \<in> set (map_keys (marker_lines lines)) \<longleftrightarrow> map_get (marker_lines lines) k \<noteq> None"
    by (simp add: map_get_def map_keys_def map_of_eq_None_iff)
  then show ?thesis by (auto simp: map_get_marker_lines split: if_splits)
qed

definition deleted_flags :: "numbered_region \<Rightarrow> line_range list \<Rightarrow> bool list" where
  "deleted_flags region ranges = rangesToDeletedLines ranges (length (rg_lines region))"

text \<open>The line numbers that reconstruction removes: those of the ranges, closed under adjacent earlier markers.\<close>

definition removed_lines :: "numbered_region \<Rightarrow> line_range list \<Rightarrow> nat set" where
  "removed_lines region ranges = Suc ` folded (map_keys (rg_markers region)) (deleted_flags region ranges)"

definition inside :: "numbered_region \<Rightarrow> line_range list \<Rightarrow> bool" where
  "inside region ranges \<longleftrightarrow> (\<forall>r \<in> set ranges. 1 \<le> r_start r \<and> r_end r \<le> int (length (rg_lines region)))"

lemma requested_within: "requested n c \<subseteq> {1..n}"
  by (auto simp: requested_def split: option.splits)

lemma inside_lines: "separated rs \<Longrightarrow> inside region rs \<longleftrightarrow> lines_of rs \<subseteq> {1..int (length (rg_lines region))}"
  by (force simp: inside_def lines_of_def separated_def)

lemma inside_validated: "inside region (validateDeletedRanges raw region)"
  using validate_effect [of raw region] requested_within [of "int (length (rg_lines region))"]
  by (subst inside_lines) (auto dest: subsetD)

lemma foldAdjacentMarkers_effect:
  assumes "wf_region region" and "inside region ranges"
  shows "separated (foldAdjacentMarkers region ranges)" "lines_of (foldAdjacentMarkers region ranges) = int ` removed_lines region ranges"
    "inside region (foldAdjacentMarkers region ranges)"
proof -
  let ?keys = "map_keys (rg_markers region)" and ?D = "deleted_flags region ranges"
  have D: "length ?D = length (rg_lines region)"
    using rangesToDeletedLines_flags [of ranges "length (rg_lines region)"] assms(2) by (simp add: inside_def deleted_flags_def)
  have kw: "keys_within ?keys ?D" using assms(1) marker_keys D by (auto simp: wf_region_def keys_within_def)
  have f: "length (fold_loop ?keys ?D) = length ?D" "\<And>i. flag (fold_loop ?keys ?D) i \<longleftrightarrow> i \<in> folded ?keys ?D"
    using fold_loop_folded [OF kw, of ?D] by (auto intro: folded.intros)
  have e: "foldAdjacentMarkers region ranges = flag_ranges 0 None (fold_loop ?keys ?D)"
    by (simp add: foldAdjacentMarkers_def deleted_flags_def)
  show s: "separated (foldAdjacentMarkers region ranges)" unfolding e using flag_ranges_effect [of 0 None] by simp
  show l: "lines_of (foldAdjacentMarkers region ranges) = int ` removed_lines region ranges"
    unfolding e using flag_ranges_effect [of 0 None "fold_loop ?keys ?D"] f(2) by (auto simp: removed_lines_def image_iff)
  have "i < length (rg_lines region)" if "i \<in> folded ?keys ?D" for i
    using that f D by (metis flag_def)
  then have "int ` removed_lines region ranges \<subseteq> {1..int (length (rg_lines region))}" by (force simp: removed_lines_def)
  then show "inside region (foldAdjacentMarkers region ranges)" using inside_lines [OF s] l by simp
qed

section \<open>The output as a text\<close>

lemma upto_Suc_upt: "[1..int n] = map (int \<circ> Suc) [0..<n]"
  by (induction n) (simp_all add: upto_rec2 add.commute)

abbreviation compacted_items :: "numbered_region \<Rightarrow> line_range list \<Rightarrow> output_item list" where
  "compacted_items region ranges \<equiv> output_items region 1 (foldAdjacentMarkers region ranges)"

lemma ct_text_items: "ct_text (reconstructCompactedTranscript region ranges) = join_lines (map (item_line region) (compacted_items region ranges))"
  by (simp add: reconstructCompactedTranscript_def Let_def)

lemma compacted_items_effect:
  assumes "wf_region region" and "inside region ranges"
  shows "kept_numbers (compacted_items region ranges) = filter (\<lambda>n. n \<notin> removed_lines region ranges) [1..<Suc (length (rg_lines region))]"
    "(\<Sum>i\<leftarrow>compacted_items region ranges. item_weight region i) = (\<Sum>l\<leftarrow>[1..int (length (rg_lines region))]. line_weight region l)"
proof -
  note f = foldAdjacentMarkers_effect [OF assms]
  have e: "kept_numbers (compacted_items region ranges) =
      map nat (filter (\<lambda>l. l \<notin> int ` removed_lines region ranges) [1..int (length (rg_lines region))])"
    "(\<Sum>i\<leftarrow>compacted_items region ranges. item_weight region i) = (\<Sum>l\<leftarrow>[1..int (length (rg_lines region))]. line_weight region l)"
    using output_items_effect [OF f(1), of 1 region] f(2,3) by (auto simp: inside_def)
  show "(\<Sum>i\<leftarrow>compacted_items region ranges. item_weight region i) = (\<Sum>l\<leftarrow>[1..int (length (rg_lines region))]. line_weight region l)"
    by (rule e(2))
  have "[1..int (length (rg_lines region))] = map int [1..<Suc (length (rg_lines region))]"
    unfolding upto_Suc_upt One_nat_def by (simp only: map_Suc_upt [symmetric] map_map)
  then have "kept_numbers (compacted_items region ranges) =
      filter (\<lambda>n. int n \<notin> int ` removed_lines region ranges) [1..<Suc (length (rg_lines region))]"
    unfolding e(1) by (simp add: filter_map comp_def)
  then show "kept_numbers (compacted_items region ranges) =
      filter (\<lambda>n. n \<notin> removed_lines region ranges) [1..<Suc (length (rg_lines region))]"
    by (simp add: image_iff)
qed

lemma item_lines_wf:
  assumes "wf_region region" and "inside region ranges" and "i \<in> set (compacted_items region ranges)"
  shows "newline \<notin> set (item_line region i)" "text_weight (item_line region i) = item_weight region i"
proof -
  have weights: "0 \<le> line_weight region l" for l
    using assms(1) map_get_marker_lines [of "rg_lines region" "nat l"] filtered_count_nonneg
    by (auto simp: line_weight_def wf_region_def split: option.split if_splits)
  have markers: "0 \<le> cumulativeDeletedCount region r" if "r_start r \<le> r_end r" for r
    using cumulative_sum [of r region] that weights by (auto intro!: sum_list_nonneg)
  have items: "case i of Kept n \<Rightarrow> n \<in> set (kept_numbers (output_items region line rs)) | Marker c \<Rightarrow> 0 \<le> c"
    if "separated rs" "i \<in> set (output_items region line rs)" for rs line
    using that markers by (induction region line rs rule: output_items.induct) (auto simp: separated_Cons split: output_item.split)
  show "newline \<notin> set (item_line region i)" "text_weight (item_line region i) = item_weight region i"
  proof (atomize (full), cases i)
    case (Kept n)
    then have "n \<in> set (kept_numbers (compacted_items region ranges))"
      using items [OF foldAdjacentMarkers_effect(1) [OF assms(1,2)] assms(3)] by simp
    then have n: "1 \<le> n" "n \<le> length (rg_lines region)" unfolding compacted_items_effect(1) [OF assms(1,2)] by auto
    then have "rg_lines region ! (n - 1) \<in> set (rg_lines region)" by simp
    then show "newline \<notin> set (item_line region i) \<and> text_weight (item_line region i) = item_weight region i"
      using assms(1) n Kept by (simp add: item_line_def wf_region_def text_weight_def line_weight_def map_get_marker_lines)
  next
    case (Marker c)
    then have "0 \<le> c" using items [OF foldAdjacentMarkers_effect(1) [OF assms(1,2)] assms(3)] by simp
    then show "newline \<notin> set (item_line region i) \<and> text_weight (item_line region i) = item_weight region i"
      using Marker by (simp add: item_line_def text_weight_def filtered_count_marker marker_no_newline)
  qed
qed

lemma compacted_items_nonempty:
  assumes "wf_region region" and "inside region ranges"
  shows "compacted_items region ranges \<noteq> []"
  using assms by (cases "foldAdjacentMarkers region ranges") (auto simp: wf_region_def)

lemma compacted_lines:
  assumes "wf_region region" and "inside region ranges"
  shows "split_lines (ct_text (reconstructCompactedTranscript region ranges)) = map (item_line region) (compacted_items region ranges)"
  unfolding ct_text_items using compacted_items_nonempty [OF assms] item_lines_wf(1) [OF assms] by (intro split_join_on) auto

lemma compacted_weight:
  assumes "wf_region region" and "inside region ranges"
  shows "accounted_lines (ct_text (reconstructCompactedTranscript region ranges)) = (\<Sum>l\<leftarrow>rg_lines region. text_weight l)"
proof -
  have "accounted_lines (ct_text (reconstructCompactedTranscript region ranges)) =
      (\<Sum>i\<leftarrow>compacted_items region ranges. text_weight (item_line region i))"
    by (simp add: accounted_lines_def compacted_lines [OF assms] comp_def)
  also have "\<dots> = (\<Sum>i\<leftarrow>compacted_items region ranges. item_weight region i)"
    using item_lines_wf(2) [OF assms] by (intro arg_cong [where f = sum_list] map_cong) auto
  also have "\<dots> = (\<Sum>n\<leftarrow>[0..<length (rg_lines region)]. text_weight (rg_lines region ! n))"
  proof -
    have "line_weight region (int (Suc n)) = text_weight (rg_lines region ! n)" if "n < length (rg_lines region)" for n
      using assms(1) that by (simp add: line_weight_def text_weight_def wf_region_def map_get_marker_lines nat_add_distrib)
    then show ?thesis unfolding compacted_items_effect(2) [OF assms] upto_Suc_upt
      by (auto simp: comp_def simp del: of_nat_Suc intro!: arg_cong [where f = sum_list])
  qed
  also have "\<dots> = (\<Sum>l\<leftarrow>rg_lines region. text_weight l)"
    by (rule arg_cong [where f = sum_list]) (rule nth_equalityI; simp)
  finally show ?thesis .
qed

section \<open>Views of the region\<close>

definition view :: "numbered_region \<Rightarrow> nat \<Rightarrow> numbered_region option" where
  "view whole offset = (if offset = 0 then Some whole else trimRegionHead whole offset)"

lemma view_lines: "view whole offset = Some region \<Longrightarrow> rg_lines region = drop offset (rg_lines whole) \<and> (offset = 0 \<or> offset < length (rg_lines whole))"
  by (auto simp: view_def trimRegionHead_def Let_def split: if_splits)

lemma view_inside: "offset < length (rg_lines whole) \<Longrightarrow> \<exists>region. view whole offset = Some region"
  by (simp add: view_def trimRegionHead_def Let_def)

lemma trim_loop_unfold:
  fixes ratio :: rat
  assumes "view whole offset = Some region"
  defines "k \<equiv> keep_target ratio region"
  shows "trim_loop plan aborted ratio whole request offset =
    (case outcome_ranges (plan request region k) of
       Some rs \<Rightarrow> (Inr (Planned (if offset = 0 then rs else rebaseTrimmedRanges (validateDeletedRanges rs region) offset)), [(region, k)])
     | None \<Rightarrow>
         if plan request region k \<noteq> Overflowed then (Inr (Terminal (plan request region k)), [(region, k)])
         else if aborted request then (Inl CompactionCancelled, [(region, k)])
         else case nextTrimOffset whole offset of
                None \<Rightarrow> (Inr (Terminal Overflowed), [(region, k)])
              | Some offset' \<Rightarrow>
                  (case trim_loop plan aborted ratio whole (Suc request) offset' of (result, requests) \<Rightarrow> (result, (region, k) # requests)))"
  using assms(1) unfolding k_def by (subst trim_loop.simps) (simp add: view_def Let_def cong: option.case_cong split: option.split)

text \<open>Each request shows a strictly shorter suffix, and their number is logarithmic in the remaining lines.\<close>

definition shrinking :: "numbered_region \<Rightarrow> (numbered_region \<times> int) list \<Rightarrow> bool" where
  "shrinking whole requests \<longleftrightarrow>
    sorted_wrt (\<lambda>a b. length (rg_lines (fst b)) < length (rg_lines (fst a))) requests \<and>
    (\<forall>r \<in> set requests. \<exists>offset. view whole offset = Some (fst r))"

lemma halving: "nextTrimOffset whole offset = Some n \<Longrightarrow>
    2 * (length (rg_lines whole) - n - 1) \<le> length (rg_lines whole) - offset - 1"
  by (auto simp: nextTrimOffset_def Let_def split: if_splits)

lemma trim_loop_requests:
  assumes "view whole offset = Some region"
  shows "\<exists>result k rest. trim_loop plan aborted ratio whole request offset = (result, (region, k) # rest) \<and> shrinking whole ((region, k) # rest) \<and>
    (rest \<noteq> [] \<longrightarrow> 2 ^ (length rest - 1) \<le> length (rg_lines whole) - offset - 1)"
  using assms
proof (induction "length (rg_lines whole) - offset" arbitrary: offset request region rule: less_induct)
  case less
  let ?k = "keep_target ratio region"
  have here: "shrinking whole [(region, ?k)]" using less.prems by (auto simp: shrinking_def)
  consider result where "trim_loop plan aborted ratio whole request offset = (result, [(region, ?k)])"
    | n where "nextTrimOffset whole offset = Some n" "trim_loop plan aborted ratio whole request offset =
        (case trim_loop plan aborted ratio whole (Suc request) n of (result, requests) \<Rightarrow> (result, (region, ?k) # requests))"
    by (atomize_elim, cases "outcome_ranges (plan request region ?k)"; cases "nextTrimOffset whole offset")
      (auto simp: trim_loop_unfold [OF less.prems])
  then show ?case
  proof cases
    case 1
    then show ?thesis using here by auto
  next
    case 2
    note n = nextTrimOffset_bounds [OF 2(1)]
    obtain region' where v: "view whole n = Some region'" using view_inside n by blast
    obtain result k' rest where r: "trim_loop plan aborted ratio whole (Suc request) n = (result, (region', k') # rest)"
      "shrinking whole ((region', k') # rest)" "rest \<noteq> [] \<longrightarrow> 2 ^ (length rest - 1) \<le> length (rg_lines whole) - n - 1"
      using less.hyps [OF _ v] n by (meson diff_less_mono2 less_trans)
    have "length (rg_lines region') < length (rg_lines region)" using view_lines [OF v] view_lines [OF less.prems] n by auto
    then have "shrinking whole ((region, ?k) # (region', k') # rest)"
      using r(2) less.prems by (auto simp: shrinking_def)
    moreover have "2 ^ (length ((region', k') # rest) - 1) \<le> length (rg_lines whole) - offset - 1"
    proof (cases rest)
      case Nil
      then show ?thesis using n by auto
    next
      case (Cons a as)
      then have "2 ^ length rest = 2 * (2 :: nat) ^ (length rest - 1)" by simp
      then show ?thesis using r(3) halving [OF 2(1)] Cons by simp
    qed
    ultimately show ?thesis using 2(2) r(1) by auto
  qed
qed

definition plan_ranges :: "numbered_region \<Rightarrow> nat \<Rightarrow> raw_range list \<Rightarrow> raw_range list" where
  "plan_ranges region offset rs = (if offset = 0 then rs else rebaseTrimmedRanges (validateDeletedRanges rs region) offset)"

lemma trim_loop_planned:
  assumes "trim_loop plan aborted ratio whole request offset = (Inr (Planned planned), requests)" and "view whole offset = Some region"
  shows "\<exists>offset' region' k rs. last requests = (region', k) \<and> view whole offset' = Some region' \<and>
    outcome_ranges (plan (request + length requests - 1) region' k) = Some rs \<and> planned = plan_ranges region' offset' rs"
  using assms
proof (induction "length (rg_lines whole) - offset" arbitrary: offset request region requests rule: less_induct)
  case less
  let ?k = "keep_target ratio region"
  consider rs where "outcome_ranges (plan request region ?k) = Some rs" "planned = plan_ranges region offset rs" "requests = [(region, ?k)]"
    | n requests' where "nextTrimOffset whole offset = Some n" "requests = (region, ?k) # requests'"
      "trim_loop plan aborted ratio whole (Suc request) n = (Inr (Planned planned), requests')"
    using less.prems(1) by (atomize_elim, cases "outcome_ranges (plan request region ?k)"; cases "nextTrimOffset whole offset")
      (auto simp: trim_loop_unfold [OF less.prems(2)] plan_ranges_def split: if_splits prod.splits)
  then show ?case
  proof cases
    case 1
    then show ?thesis using less.prems(2) by auto
  next
    case 2
    note n = nextTrimOffset_bounds [OF 2(1)]
    obtain region' where v: "view whole n = Some region'" using view_inside n by blast
    then have "requests' \<noteq> []" using trim_loop_requests [OF v, of plan aborted ratio "Suc request"] 2(3) by auto
    moreover have "length (rg_lines whole) - n < length (rg_lines whole) - offset" using n by auto
    ultimately show ?thesis using less.hyps [OF _ 2(3) v] 2(2) by auto
  qed
qed

lemma coerce_integer [simp]: "coerceEndpoint (Some (RawNum (Num (of_int k)))) = Some k"
  by (simp add: coerceEndpoint_def to_number_def trunc_def)

lemma requested_integers [simp]:
  "a \<le> b \<Longrightarrow> requested n \<lparr>raw_start = Some (RawNum (Num (of_int a))), raw_end = Some (RawNum (Num (of_int b)))\<rparr> = {a..b} \<inter> {1..n}"
  by (simp add: requested_def)

lemma rebaseTrimmedRanges_ints:
  "rebaseTrimmedRanges validated offset =
    \<lparr>raw_start = Some (RawNum (Num (of_int 1))), raw_end = Some (RawNum (Num (of_int (int offset))))\<rparr> #
    map (\<lambda>r. \<lparr>raw_start = Some (RawNum (Num (of_int (r_start r + int offset)))),
              raw_end = Some (RawNum (Num (of_int (r_end r + int offset))))\<rparr>) validated"
  by (simp add: rebaseTrimmedRanges_def)

lemma rebased_effect:
  assumes "view whole offset = Some region"
  shows "lines_of (validateDeletedRanges (plan_ranges region offset rs) whole) =
    {1..int offset} \<union> (\<lambda>l. l + int offset) ` lines_of (validateDeletedRanges rs region) - protected_set (protected_lines whole)"
proof (cases "offset = 0")
  case True
  then show ?thesis using assms validate_effect(2) [of rs whole] by (auto simp: plan_ranges_def view_def)
next
  case False
  let ?v = "validateDeletedRanges rs region" and ?n = "int (length (rg_lines whole))"
  have off: "rg_lines region = drop offset (rg_lines whole)" "1 \<le> int offset" "int offset < ?n"
    using view_lines [OF assms] False by auto
  have "inside region ?v" by (rule inside_validated)
  then have ins: "1 \<le> r_start r" "r_start r \<le> r_end r" "r_end r + int offset \<le> ?n" if "r \<in> set ?v" for r
    using validate_effect(1) [of rs region] that off by (auto simp: inside_def separated_def)
  have each: "requested ?n \<lparr>raw_start = Some (RawNum (Num (of_int (r_start r + int offset)))),
      raw_end = Some (RawNum (Num (of_int (r_end r + int offset))))\<rparr> = (\<lambda>l. l + int offset) ` {r_start r..r_end r}" if "r \<in> set ?v" for r
    using ins [OF that] by (subst requested_integers) (auto simp: image_iff intro: bexI [of _ "_ - int offset"])
  have "(\<Union>c \<in> set (plan_ranges region offset rs). requested ?n c) = {1..int offset} \<union> (\<Union>r \<in> set ?v. (\<lambda>l. l + int offset) ` {r_start r..r_end r})"
    using False each off(2,3) requested_integers [of 1 "int offset" ?n] unfolding plan_ranges_def rebaseTrimmedRanges_ints by auto
  also have "(\<Union>r \<in> set ?v. (\<lambda>l. l + int offset) ` {r_start r..r_end r}) = (\<lambda>l. l + int offset) ` lines_of ?v"
    unfolding lines_of_def by blast
  finally show ?thesis by (simp add: validate_effect(2))
qed

lemma folded_origin: "i \<in> folded keys D \<Longrightarrow> flag D i \<or> Suc i \<in> set keys"
  by (cases rule: folded.cases) auto

lemma protected_not_flagged:
  assumes "Suc i \<in> set (protected_lines region)"
  shows "\<not> flag (deleted_flags region (validateDeletedRanges raw region)) i"
proof -
  have "flag (deleted_flags region (validateDeletedRanges raw region)) i \<longleftrightarrow> int i + 1 \<in> lines_of (validateDeletedRanges raw region)"
    unfolding deleted_flags_def using rangesToDeletedLines_flags inside_validated [of region raw] by (simp add: inside_def)
  moreover have "int i + 1 \<in> protected_set (protected_lines region)"
    using assms by (force simp: protected_set_def)
  ultimately show ?thesis by (simp add: validate_effect(2))
qed

section \<open>Protected spans\<close>

text \<open>The role in force at a line: that of the last header at or before it.\<close>

definition role_at :: "line list \<Rightarrow> nat \<Rightarrow> string option" where
  "role_at lines n = foldl (\<lambda>role l. case header_role l of None \<Rightarrow> role | Some r \<Rightarrow> Some r) None (take n lines)"

text \<open>Line \<open>n\<close> belongs to the span opened at line \<open>i\<close> of the same message, which no closing tag before \<open>n\<close> ended.\<close>

definition in_span :: "line list \<Rightarrow> nat \<Rightarrow> nat \<Rightarrow> bool" where
  "in_span lines i n \<longleftrightarrow> 1 \<le> i \<and> i \<le> n \<and> keepContextMarker (lines ! (i - 1)) = Some KeepOpen \<and>
    (\<forall>j \<in> {i<..n}. header_role (lines ! (j - 1)) = None) \<and>
    (\<forall>j \<in> {i..<n}. keepContextMarker (lines ! (j - 1)) \<noteq> Some KeepClose) \<and> roleMayProtect (role_at lines n)"

lemma role_at_Suc:
  "k < length lines \<Longrightarrow> role_at lines (Suc k) = (case header_role (lines ! k) of None \<Rightarrow> role_at lines k | Some r \<Rightarrow> Some r)"
  by (simp add: role_at_def take_Suc_conv_app_nth split: option.split)

lemma in_span_Suc:
  assumes "k < length lines"
  shows "in_span lines i (Suc k) \<longleftrightarrow>
    (i = Suc k \<and> keepContextMarker (lines ! k) = Some KeepOpen \<and> roleMayProtect (role_at lines (Suc k))) \<or>
    (header_role (lines ! k) = None \<and> in_span lines i k \<and> keepContextMarker (lines ! (k - 1)) \<noteq> Some KeepClose)"
proof (cases "i \<le> k")
  case True
  have sets: "{i<..Suc k} = insert (Suc k) {i<..k}" "{i..<Suc k} = insert k {i..<k}" using True by auto
  show ?thesis
  proof (cases "header_role (lines ! k) = None")
    case nh: True
    then have "role_at lines (Suc k) = role_at lines k" using role_at_Suc [OF assms] by simp
    then show ?thesis using True nh unfolding in_span_def sets by auto
  next
    case False
    then show ?thesis using True unfolding in_span_def sets by auto
  qed
next
  case False
  then show ?thesis by (cases "i = Suc k") (auto simp: in_span_def)
qed

text \<open>A matching pair of tag lines: the first closing tag after an opening one, in the same message.\<close>

definition matching :: "line list \<Rightarrow> nat \<Rightarrow> nat \<Rightarrow> bool" where
  "matching lines i j \<longleftrightarrow> in_span lines i j \<and> j \<le> length lines \<and> keepContextMarker (lines ! (j - 1)) = Some KeepClose"

lemma in_span_shorter:
  assumes "in_span lines i m" and "i \<le> n" and "n \<le> m" and "m \<le> length lines"
  shows "in_span lines i n"
  using assms(3,1,2,4)
proof (induction rule: inc_induct)
  case (step k)
  then have "in_span lines i (Suc k)" by simp
  then show ?case using step.hyps step.prems in_span_Suc [of k lines i] by auto
qed

lemma matching_protects: "matching lines i j \<Longrightarrow> n \<in> {i..j} \<Longrightarrow> n \<le> length lines \<and> in_span lines i n"
  using in_span_shorter [of lines i j n] by (auto simp: matching_def)

definition still_open :: "line list \<Rightarrow> nat \<Rightarrow> bool" where
  "still_open lines k \<longleftrightarrow> (\<exists>i. in_span lines i k) \<and> keepContextMarker (lines ! (k - 1)) \<noteq> Some KeepClose"

definition protected_upto :: "line list \<Rightarrow> nat \<Rightarrow> nat set" where
  "protected_upto lines k = {n. n \<le> k \<and> (\<exists>i. in_span lines i n)}"

lemma protected_upto_Suc:
  "protected_upto lines (Suc k) = protected_upto lines k \<union> (if \<exists>i. in_span lines i (Suc k) then {Suc k} else {})"
  by (auto simp: protected_upto_def le_Suc_eq)

lemma protected_upto_0 [simp]: "protected_upto lines 0 = {}" "\<not> still_open lines 0"
  by (auto simp: protected_upto_def still_open_def in_span_def)

lemma set_protectThrough: "set (protectThrough openIndex stop P) = set P \<union> (case openIndex of None \<Rightarrow> {} | Some i \<Rightarrow> {Suc i..stop})"
  by (auto simp: protectThrough_def image_Suc_atLeastLessThan simp flip: atLeastLessThanSuc_atLeastAtMost split: option.split)

text \<open>What the scan knows after \<open>k\<close> lines.\<close>

definition scan_inv :: "line list \<Rightarrow> nat \<Rightarrow> nat option \<Rightarrow> string option \<Rightarrow> nat jset \<Rightarrow> bool" where
  "scan_inv lines k openIndex role P \<longleftrightarrow> role = role_at lines k \<and> (openIndex \<noteq> None) = still_open lines k \<and>
    (\<forall>i. openIndex = Some i \<longrightarrow> i < k) \<and> set (protectThrough openIndex k P) = protected_upto lines k"

lemma keep_loop_spec:
  assumes "scan_inv lines k openIndex role P" and "k \<le> length lines"
  shows "set (keep_loop (drop k lines) k openIndex role P) = protected_upto lines (length lines)"
  using assms
proof (induction "length lines - k" arbitrary: k openIndex role P)
  case 0
  then show ?case by (simp add: scan_inv_def)
next
  case (Suc m)
  then have k: "k < length lines" by simp
  note inv = Suc.prems(1) [unfolded scan_inv_def]
  let ?l = "lines ! k"
  define op where "op = (if header_role ?l = None then openIndex else None)"
  define P' where "P' = (if header_role ?l = None then P else protectThrough openIndex k P)"
  have IH: "scan_inv lines (Suc k) op' (role_at lines (Suc k)) Q \<Longrightarrow>
      set (keep_loop (drop (Suc k) lines) (Suc k) op' (role_at lines (Suc k)) Q) = protected_upto lines (length lines)" for op' Q
    using Suc.hyps Suc.prems(2) k by (metis Suc_diff_Suc Suc_inject Suc_leI)
  have role: "role_at lines (Suc k) = (case header_role ?l of None \<Rightarrow> role | Some r \<Rightarrow> Some r)"
    using role_at_Suc [OF k] inv by (simp split: option.split)
  have before: "set (protectThrough op k P') = protected_upto lines k" "op \<noteq> None \<longleftrightarrow> header_role ?l = None \<and> still_open lines k"
    "\<And>i. op = Some i \<Longrightarrow> i < k"
    using inv by (auto simp: op_def P'_def protectThrough_def split: if_splits)
  have spans: "(\<exists>i. in_span lines i (Suc k)) \<longleftrightarrow>
      (keepContextMarker ?l = Some KeepOpen \<and> roleMayProtect (role_at lines (Suc k))) \<or> op \<noteq> None"
    unfolding before(2) still_open_def in_span_Suc [OF k] by blast
  have may: "op \<noteq> None \<Longrightarrow> roleMayProtect (role_at lines (Suc k))"
    using before(2) in_span_Suc [OF k] by (auto simp: still_open_def in_span_def role_at_Suc [OF k])
  have unroll: "keep_loop (drop k lines) k openIndex role P =
      (if \<not> roleMayProtect (role_at lines (Suc k)) then keep_loop (drop (Suc k) lines) (Suc k) op (role_at lines (Suc k)) P'
       else case keepContextMarker ?l of
          Some KeepOpen \<Rightarrow> keep_loop (drop (Suc k) lines) (Suc k) (Some (case op of None \<Rightarrow> k | Some i \<Rightarrow> i)) (role_at lines (Suc k)) P'
        | Some KeepClose \<Rightarrow> keep_loop (drop (Suc k) lines) (Suc k) None (role_at lines (Suc k)) (protectThrough op (Suc k) P')
        | None \<Rightarrow> keep_loop (drop (Suc k) lines) (Suc k) op (role_at lines (Suc k)) P')"
    using k by (cases "header_role ?l")
      (simp_all add: Cons_nth_drop_Suc [symmetric] role op_def P'_def split: option.split keep_marker.split)
  have ext: "set (protectThrough (Some i) (Suc k) P') = insert (Suc k) (set (protectThrough (Some i) k P'))" if "i \<le> k" for i
    using that by (auto simp: set_protectThrough)
  consider (skip) "\<not> roleMayProtect (role_at lines (Suc k))" | (op) "roleMayProtect (role_at lines (Suc k))" "keepContextMarker ?l = Some KeepOpen"
    | (close) "roleMayProtect (role_at lines (Suc k))" "keepContextMarker ?l = Some KeepClose"
    | (plain) "roleMayProtect (role_at lines (Suc k))" "keepContextMarker ?l = None"
    using keep_marker.exhaust by (metis option.exhaust)
  then show ?case
  proof cases
    case skip
    then have "op = None" "\<not> (\<exists>i. in_span lines i (Suc k))" using may spans by auto
    then show ?thesis unfolding unroll using skip before(1) 
      by (auto intro!: IH simp: scan_inv_def still_open_def protected_upto_Suc protectThrough_def)
  next
    case op
    have "scan_inv lines (Suc k) (Some (case op of None \<Rightarrow> k | Some i \<Rightarrow> i)) (role_at lines (Suc k)) P'"
      using op before spans ext
      by (cases op) (auto simp: scan_inv_def still_open_def protected_upto_Suc set_protectThrough)
    then show ?thesis unfolding unroll using op by (simp add: IH)
  next
    case close
    have "scan_inv lines (Suc k) None (role_at lines (Suc k)) (protectThrough op (Suc k) P')"
      using close before spans ext
      by (cases op) (auto simp: scan_inv_def still_open_def protected_upto_Suc set_protectThrough)
    then show ?thesis unfolding unroll using close by (simp add: IH)
  next
    case plain
    have "scan_inv lines (Suc k) op (role_at lines (Suc k)) P'"
      using plain before spans ext
      by (cases op) (auto simp: scan_inv_def still_open_def protected_upto_Suc set_protectThrough)
    then show ?thesis unfolding unroll using plain by (simp add: IH)
  qed
qed

section \<open>Theorems\<close>

lemma separated_count:
  "separated rs \<Longrightarrow> finite (lines_of rs) \<and> (\<Sum>r\<leftarrow>rs. r_end r - r_start r + 1) = int (card (lines_of rs))"
proof (induction rs)
  case Nil
  then show ?case by simp
next
  case (Cons r rs)
  have "{r_start r..r_end r} \<inter> lines_of rs = {}" using Cons.prems by (force simp: separated_Cons lines_of_def)
  then show ?case using Cons by (simp add: separated_Cons card_Un_disjoint)
qed

lemma linesKept_count:
  assumes "wf_region region" and "inside region ranges"
  shows "linesKept (ct_stats (reconstructCompactedTranscript region ranges)) = int (length (kept_numbers (compacted_items region ranges)))"
proof -
  let ?F = "foldAdjacentMarkers region ranges" and ?n = "length (rg_lines region)"
  note f = foldAdjacentMarkers_effect [OF assms]
  have "foldl (\<lambda>total r. total + r_end r - r_start r + 1) a rs = a + (\<Sum>r\<leftarrow>rs. r_end r - r_start r + 1)" for a :: int and rs :: "line_range list"
    by (induction rs arbitrary: a) simp_all
  then have d: "linesKept (ct_stats (reconstructCompactedTranscript region ranges)) = int ?n - int (card (removed_lines region ranges))"
    using separated_count [OF f(1)] by (simp add: reconstructCompactedTranscript_def Let_def f(2) card_image)
  have sub: "removed_lines region ranges \<subseteq> {1..<Suc ?n}"
    using f(1-3) inside_lines [OF f(1), of region] by force
  have "length (filter (\<lambda>n. n \<notin> removed_lines region ranges) [1..<Suc ?n]) = card ({1..<Suc ?n} - removed_lines region ranges)"
    by (subst distinct_card [symmetric]) (auto intro: arg_cong [where f = card])
  also have "\<dots> = ?n - card (removed_lines region ranges)"
    using sub by (simp add: card_Diff_subset finite_subset)
  finally show ?thesis using d card_mono [OF _ sub] by (simp add: compacted_items_effect(1) [OF assms])
qed

text \<open>
  C5. The ranges an untrusted planner returns are normalised to a set-theoretic specification: whatever the raw
  values are, the validated ranges are ascending, non-empty, pairwise separated by at least one kept line and inside
  the region, and the lines they cover are exactly those of the requests (endpoints in either order, truncated and
  clamped to the region, unusable requests ignored) minus the protected lines.
\<close>
theorem validated_ranges:
  "separated (validateDeletedRanges raw region) \<and>
   lines_of (validateDeletedRanges raw region) \<subseteq> {1..int (length (rg_lines region))} \<and>
   lines_of (validateDeletedRanges raw region) =
     (\<Union>c \<in> set raw. requested (int (length (rg_lines region))) c) - protected_set (protected_lines region)"
  using validate_effect [of raw region] inside_validated [of region raw] by (simp add: inside_lines)

text \<open>
  C4. Compaction is verbatim. In a region none of whose protected lines is an earlier marker, the lines of the compacted
  text are the surviving lines of the region, unchanged and in order, with markers between them; a line goes only if a
  validated range covers it or it is an earlier marker in a run that touches a deleted line (\<open>removed_lines\<close> is that least
  closure); every protected line survives, and the reported number of kept lines is the number of lines that survive.
\<close>
theorem compaction_verbatim:
  assumes "\<forall>n \<in> set (protected_lines (createNumberedRegion transcript p)).
    1 \<le> n \<and> n \<le> length (split_lines transcript) \<longrightarrow> filtered_count (split_lines transcript ! (n - 1)) = None"
  shows "let region = createNumberedRegion transcript p;
       ranges = validateDeletedRanges raw region;
       out = reconstructCompactedTranscript region ranges;
       items = output_items region 1 (ct_ranges out)
   in split_lines (ct_text out) = map (item_line region) items \<and>
      kept_numbers items = filter (\<lambda>n. n \<notin> removed_lines region ranges) [1..<Suc (length (split_lines transcript))] \<and>
      {n \<in> set (protected_lines region). 1 \<le> n \<and> n \<le> length (split_lines transcript)} \<subseteq> set (kept_numbers items) \<and>
      linesKept (ct_stats out) = int (length (kept_numbers items))"
proof -
  let ?region = "createNumberedRegion transcript p"
  let ?ranges = "validateDeletedRanges raw ?region"
  let ?items = "compacted_items ?region ?ranges"
  note ok = wf_createNumberedRegion [of transcript p] inside_validated [of ?region raw]
  have kept: "kept_numbers ?items = filter (\<lambda>n. n \<notin> removed_lines ?region ?ranges) [1..<Suc (length (split_lines transcript))]"
    using compacted_items_effect(1) [OF ok] by simp
  have "n \<notin> removed_lines ?region ?ranges"
    if "n \<in> set (protected_lines ?region)" "1 \<le> n" "filtered_count (split_lines transcript ! (n - 1)) = None" for n
    using that protected_not_flagged [of "n - 1" ?region raw] by (auto simp: removed_lines_def marker_keys dest: folded_origin)
  then have "{n \<in> set (protected_lines ?region). 1 \<le> n \<and> n \<le> length (split_lines transcript)} \<subseteq> set (kept_numbers ?items)"
    unfolding kept using assms by auto
  moreover have "ct_ranges (reconstructCompactedTranscript ?region ?ranges) = foldAdjacentMarkers ?region ?ranges"
    by (simp add: reconstructCompactedTranscript_def Let_def)
  ultimately show ?thesis unfolding Let_def using kept compacted_lines [OF ok] linesKept_count [OF ok] by simp
qed

definition sample_transcript :: string where
  "sample_transcript = join_lines [''[User]: a'', ''<keepContext>'', ''b'', ''</keepContext>'', ''(filtered 3 lines)'', ''c'']"

definition sample_deletion :: "raw_range list" where
  "sample_deletion = [\<lparr>raw_start = Some (RawNum (Num 6)), raw_end = Some (RawNum (Num 3))\<rparr>]"

theorem compaction_verbatim_witness:
  "let region = createNumberedRegion sample_transcript None;
       out = reconstructCompactedTranscript region (validateDeletedRanges sample_deletion region)
   in ct_text out = join_lines [''[User]: a'', ''<keepContext>'', ''b'', ''</keepContext>'', ''(filtered 4 lines)''] \<and>
      {n \<in> set (protected_lines region). 1 \<le> n \<and> n \<le> 6} \<subseteq> set (kept_numbers (output_items region 1 (ct_ranges out)))"
proof -
  have h: "\<forall>n \<in> set (protected_lines (createNumberedRegion sample_transcript None)).
      1 \<le> n \<and> n \<le> length (split_lines sample_transcript) \<longrightarrow> filtered_count (split_lines sample_transcript ! (n - 1)) = None"
    by code_simp
  have n: "length (split_lines sample_transcript) = 6" by code_simp
  have t: "ct_text (reconstructCompactedTranscript (createNumberedRegion sample_transcript None)
      (validateDeletedRanges sample_deletion (createNumberedRegion sample_transcript None))) =
      join_lines [''[User]: a'', ''<keepContext>'', ''b'', ''</keepContext>'', ''(filtered 4 lines)'']"
    by code_simp
  show ?thesis using compaction_verbatim [OF h, of sample_deletion] t unfolding n Let_def by blast
qed

text \<open>
  Nothing is lost from the account: a transcript stands for as many original lines after a compaction as before,
  a marker counting for the lines it replaced, however often the output is compacted again.
\<close>
theorem compaction_accounting:
  "let region = createNumberedRegion transcript p
   in accounted_lines (ct_text (reconstructCompactedTranscript region (validateDeletedRanges raw region))) = accounted_lines transcript"
  using compacted_weight [OF wf_createNumberedRegion [of transcript p] inside_validated [of "createNumberedRegion transcript p" raw]]
  by (simp add: Let_def accounted_lines_def)

lemma tagged_lines: "set (keepContextLineNumbers lines) = {n. n \<le> length lines \<and> (\<exists>i. in_span lines i n)}"
proof -
  have "scan_inv lines 0 None None []" by (simp add: scan_inv_def role_at_def protectThrough_def)
  then show ?thesis using keep_loop_spec [of lines 0 None None "[]"] by (simp add: keepContextLineNumbers_def protected_upto_def)
qed

text \<open>
  C17. Every line from an opening tag to the closing tag that matches it is protected, both tag lines included: a matching
  pair stands on whole lines of one message that is not a tool result, with no closing tag between. If every opening tag of
  such a message has its closing tag, nothing else is protected.
\<close>
theorem keep_context_pairs:
  "(\<Union>(i, j) \<in> {(i, j). matching lines i j}. {i..j}) \<subseteq> set (keepContextLineNumbers lines) \<and>
   ((\<forall>i \<in> {1..length lines}. keepContextMarker (lines ! (i - 1)) = Some KeepOpen \<and> roleMayProtect (role_at lines i) \<longrightarrow> (\<exists>j. matching lines i j)) \<longrightarrow>
     set (keepContextLineNumbers lines) = (\<Union>(i, j) \<in> {(i, j). matching lines i j}. {i..j}))"
proof -
  have sub: "(\<Union>(i, j) \<in> {(i, j). matching lines i j}. {i..j}) \<subseteq> set (keepContextLineNumbers lines)"
    using matching_protects unfolding tagged_lines by fastforce
  moreover have "n \<in> (\<Union>(i, j) \<in> {(i, j). matching lines i j}. {i..j})"
    if closed: "\<forall>i \<in> {1..length lines}. keepContextMarker (lines ! (i - 1)) = Some KeepOpen \<and> roleMayProtect (role_at lines i) \<longrightarrow> (\<exists>j. matching lines i j)"
      and n: "n \<in> set (keepContextLineNumbers lines)" for n
  proof -
    obtain i where i: "in_span lines i n" "n \<le> length lines" using n unfolding tagged_lines by blast
    then have "i \<in> {1..length lines}" "keepContextMarker (lines ! (i - 1)) = Some KeepOpen" "roleMayProtect (role_at lines i)"
      using in_span_shorter [OF i(1), of i] by (auto simp: in_span_def)
    then obtain j where j: "matching lines i j" using closed by blast
    then have "n \<in> {i..j}" using i(1) by (auto simp: matching_def in_span_def not_less [symmetric])
    then show ?thesis using j by blast
  qed
  ultimately show ?thesis by (intro conjI impI subset_antisym) blast+
qed

theorem keep_context_pairs_witness:
  "set (keepContextLineNumbers [''[User]: a'', ''<keepContext>'', ''b'', ''</keepContext>'', ''c'']) =
    (\<Union>(i, j) \<in> {(i, j). matching [''[User]: a'', ''<keepContext>'', ''b'', ''</keepContext>'', ''c''] i j}. {i..j}) \<and>
   matching [''[User]: a'', ''<keepContext>'', ''b'', ''</keepContext>'', ''c''] 2 4"
proof -
  let ?lines = "[''[User]: a'', ''<keepContext>'', ''b'', ''</keepContext>'', ''c'']"
  have m: "matching ?lines 2 4" by code_simp
  have open_at: "\<forall>i \<in> {1..length ?lines}. keepContextMarker (?lines ! (i - 1)) = Some KeepOpen \<longrightarrow> i = 2" by code_simp
  have "\<forall>i \<in> {1..length ?lines}. keepContextMarker (?lines ! (i - 1)) = Some KeepOpen \<and> roleMayProtect (role_at ?lines i) \<longrightarrow> (\<exists>j. matching ?lines i j)"
    using open_at m by blast
  then show ?thesis using keep_context_pairs [of ?lines] m by blast
qed

text \<open>
  C18. Trimming after overflows always ends: the planner is asked at least once, first about the whole region, each
  further request shows a strictly shorter view, and the number of requests is logarithmic in the number of lines.
\<close>
theorem trimming_terminates:
  "case planWithTrimming plan aborted ratio region of (result, requests) \<Rightarrow>
     requests \<noteq> [] \<and> fst (hd requests) = region \<and>
     sorted_wrt (\<lambda>a b. length (rg_lines (fst b)) < length (rg_lines (fst a))) requests \<and>
     2 ^ (length requests - 2) \<le> max 1 (length (rg_lines region) - 1)"
proof -
  obtain result k rest where t: "planWithTrimming plan aborted ratio region = (result, (region, k) # rest)"
    "shrinking region ((region, k) # rest)" "rest \<noteq> [] \<longrightarrow> 2 ^ (length rest - 1) \<le> length (rg_lines region) - 1"
    using trim_loop_requests [of region 0 region plan aborted ratio 0] by (auto simp: planWithTrimming_def view_def)
  then show ?thesis by (cases rest) (auto simp: shrinking_def)
qed

text \<open>
  C19. What a plan deletes after trimming: the last view is a suffix of the region, and once validated on the whole
  region the returned ranges cover the withheld head and the lines the planner chose in that view, put back in the
  original numbering, and never a protected line.
\<close>
theorem trimmed_plan_sound:
  assumes "planWithTrimming plan aborted ratio region = (Inr (Planned planned), requests)"
  shows "\<exists>offset view k answer. last requests = (view, k) \<and> rg_lines view = drop offset (rg_lines region) \<and>
    outcome_ranges (plan (length requests - 1) view k) = Some answer \<and>
    lines_of (validateDeletedRanges planned region) =
      {1..int offset} \<union> (\<lambda>l. l + int offset) ` lines_of (validateDeletedRanges answer view) - protected_set (protected_lines region)"
proof -
  obtain offset v k rs where t: "last requests = (v, k)" "view region offset = Some v"
    "outcome_ranges (plan (length requests - 1) v k) = Some rs" "planned = plan_ranges v offset rs"
    using trim_loop_planned [of plan aborted ratio region 0 0 planned requests region] assms
    by (auto simp: planWithTrimming_def view_def)
  then show ?thesis using rebased_effect [OF t(2), of rs] view_lines [OF t(2)] by blast
qed

definition sample_region :: numbered_region where
  "sample_region = createNumberedRegion (join_lines [''[User]: a'', ''b'', ''<keepContext>'', ''c'']) None"

definition sample_plan :: "nat \<Rightarrow> numbered_region \<Rightarrow> int \<Rightarrow> planner_outcome" where
  "sample_plan request region k =
    (if request = 0 then Overflowed else Ranked [\<lparr>raw_start = Some (RawNum (Num 2)), raw_end = Some (RawNum (Num 1))\<rparr>])"

theorem trimmed_plan_sound_witness:
  "fst (planWithTrimming sample_plan (\<lambda>_. False) (1 / 2) sample_region) =
     Inr (Planned [\<lparr>raw_start = Some (RawNum (Num 1)), raw_end = Some (RawNum (Num 2))\<rparr>]) \<and>
   (\<exists>offset view k answer. rg_lines view = drop offset (rg_lines sample_region) \<and> outcome_ranges (sample_plan 1 view k) = Some answer \<and>
     lines_of (validateDeletedRanges [\<lparr>raw_start = Some (RawNum (Num 1)), raw_end = Some (RawNum (Num 2))\<rparr>] sample_region) =
       {1..int offset} \<union> (\<lambda>l. l + int offset) ` lines_of (validateDeletedRanges answer view) - protected_set (protected_lines sample_region))"
proof -
  let ?ranges = "[\<lparr>raw_start = Some (RawNum (Num 1)), raw_end = Some (RawNum (Num 2))\<rparr>]"
  have r: "fst (planWithTrimming sample_plan (\<lambda>_. False) (1 / 2) sample_region) = Inr (Planned ?ranges)" by code_simp
  have n: "length (snd (planWithTrimming sample_plan (\<lambda>_. False) (1 / 2) sample_region)) = 2" by code_simp
  have "planWithTrimming sample_plan (\<lambda>_. False) (1 / 2) sample_region =
      (Inr (Planned ?ranges), snd (planWithTrimming sample_plan (\<lambda>_. False) (1 / 2) sample_region))"
    using r by (metis prod.collapse)
  from trimmed_plan_sound [OF this] show ?thesis using r n by auto
qed

text \<open>
  Folding does not look at the protected lines: an earlier marker at the end of a protected, unclosed span is folded
  into the deletion next to it, although a protected line is meant to survive.
\<close>
lemma folding_drops_protected_marker:
  "let region = createNumberedRegion (join_lines [''[User]: a'', ''<keepContext>'', ''(filtered 3 lines)'', ''[User]: b'']) None;
       out = reconstructCompactedTranscript region
         (validateDeletedRanges [\<lparr>raw_start = Some (RawNum (Num 4)), raw_end = Some (RawNum (Num 4))\<rparr>] region)
   in protected_lines region = [2, 3] \<and> ct_ranges out = [\<lparr>r_start = 3, r_end = 4\<rparr>]"
  by code_simp

end
