(* ===== verification/Planner_Input.thy ===== *)
theory Planner_Input
  imports Compaction_Plan
begin

text \<open>
  How messages become the numbered region and how the planner's answer finds its way back: the serialisation of
  messages and the conversation region (\<^verbatim>\<open>transcript-serialization.ts\<close>), the structured input with one entry per
  message, the records the planner answers with, and their mapping to lines of the region
  (\<^verbatim>\<open>structured-compaction-input.ts\<close>). What \<open>JSON.stringify\<close> yields for an argument value is an argument of the
  serialiser; values are of any type.
\<close>

section \<open>Serialisation\<close>

datatype content_block = TextBlock string | ImageBlock string string | DocumentBlock

datatype content = PlainText string | Blocks "content_block list"

datatype 'v assistant_block = AText string | AThinking string | AToolCall string "(string \<times> 'v) list" | AFallback

datatype 'v message = UserMessage content | AssistantMessage "'v assistant_block list" | ToolResultMessage content

datatype chunk = TextChunk string | ImageChunk string string

datatype serialize_mode = Compacted | Retained

definition TOOL_RESULT_MAX_CHARS :: nat where
  "TOOL_RESULT_MAX_CHARS = 16000"

definition truncateToolResult :: "string \<Rightarrow> string" where
  "truncateToolResult s =
    (if length s \<le> TOOL_RESULT_MAX_CHARS then s
     else take TOOL_RESULT_MAX_CHARS s @ [newline, newline] @ ''[... '' @ nat_dec (length s - TOOL_RESULT_MAX_CHARS) @ '' more characters truncated]'')"

definition lastChunk :: "chunk list \<Rightarrow> chunk option" where
  "lastChunk chunks = (if chunks = [] then None else Some (last chunks))"

definition appendText :: "chunk list \<Rightarrow> string \<Rightarrow> chunk list" where
  "appendText chunks s =
    (if s = [] then chunks
     else case lastChunk chunks of
       Some (TextChunk t) \<Rightarrow> butlast chunks @ [TextChunk (t @ s)]
     | _ \<Rightarrow> chunks @ [TextChunk s])"

definition hasContent :: "chunk list \<Rightarrow> bool" where
  "hasContent chunks = list_ex (\<lambda>c. case c of TextChunk t \<Rightarrow> t \<noteq> [] | ImageChunk d m \<Rightarrow> True) chunks"

definition ends_with_newline :: "string \<Rightarrow> bool" where
  "ends_with_newline s = (s \<noteq> [] \<and> last s = newline)"

fun serialize_block :: "serialize_mode \<Rightarrow> chunk list \<Rightarrow> content_block \<Rightarrow> chunk list" where
  "serialize_block mode chunks (TextBlock s) = appendText chunks s"
| "serialize_block mode chunks DocumentBlock = chunks"
| "serialize_block Retained chunks (ImageBlock d m) =
    (if length chunks > 0 then appendText chunks [newline] else chunks) @ [ImageChunk d m]"
| "serialize_block Compacted chunks (ImageBlock d m) =
    (let needsBreak = (case lastChunk chunks of Some (TextChunk t) \<Rightarrow> \<not> ends_with_newline t | _ \<Rightarrow> False)
     in appendText chunks ((if needsBreak then [newline] else []) @ ''[image]'' @ [newline]))"

definition drop_trailing_newline :: "chunk list \<Rightarrow> chunk list" where
  "drop_trailing_newline chunks = (case lastChunk chunks of
      Some (TextChunk t) \<Rightarrow> if ends_with_newline t then butlast chunks @ [TextChunk (butlast t)] else chunks
    | _ \<Rightarrow> chunks)"

definition serializeContentBlocks :: "content \<Rightarrow> serialize_mode \<Rightarrow> chunk list" where
  "serializeContentBlocks content mode = (case content of
      PlainText s \<Rightarrow> if length s > 0 then [TextChunk s] else []
    | Blocks bs \<Rightarrow> drop_trailing_newline (foldl (serialize_block mode) [] bs))"

definition push_chunk :: "chunk list \<Rightarrow> chunk \<Rightarrow> chunk list" where
  "push_chunk chunks c = (case c of TextChunk t \<Rightarrow> appendText chunks t | ImageChunk d m \<Rightarrow> chunks @ [c])"

definition pushSection :: "chunk list \<Rightarrow> string \<Rightarrow> chunk list \<Rightarrow> chunk list" where
  "pushSection chunks header sec =
    (if \<not> hasContent sec then chunks
     else foldl push_chunk (appendText chunks ((if length chunks > 0 then [newline, newline] else []) @ header)) sec)"

fun join_with :: "string \<Rightarrow> string list \<Rightarrow> string" where
  "join_with sep [] = []"
| "join_with sep [l] = l"
| "join_with sep (l # ls) = l @ sep @ join_with sep ls"

definition tool_call_text :: "('v \<Rightarrow> string) \<Rightarrow> string \<Rightarrow> (string \<times> 'v) list \<Rightarrow> string" where
  "tool_call_text stringify name args =
    name @ ''('' @ join_with '', '' (map (\<lambda>(key, value). key @ ''='' @ stringify value) args) @ '')''"

definition block_texts :: "'v assistant_block list \<Rightarrow> string list" where
  "block_texts bs = concat (map (\<lambda>b. case b of AText t \<Rightarrow> [t] | _ \<Rightarrow> []) bs)"

definition block_thinking :: "'v assistant_block list \<Rightarrow> string list" where
  "block_thinking bs = concat (map (\<lambda>b. case b of AThinking t \<Rightarrow> [t] | _ \<Rightarrow> []) bs)"

definition block_calls :: "('v \<Rightarrow> string) \<Rightarrow> 'v assistant_block list \<Rightarrow> string list" where
  "block_calls stringify bs = concat (map (\<lambda>b. case b of AToolCall n args \<Rightarrow> [tool_call_text stringify n args] | _ \<Rightarrow> []) bs)"

definition truncate_chunk :: "chunk \<Rightarrow> chunk" where
  "truncate_chunk c = (case c of TextChunk t \<Rightarrow> TextChunk (truncateToolResult t) | ImageChunk d m \<Rightarrow> c)"

definition serialize_message :: "('v \<Rightarrow> string) \<Rightarrow> serialize_mode \<Rightarrow> chunk list \<Rightarrow> 'v message \<Rightarrow> chunk list" where
  "serialize_message stringify mode chunks message = (case message of
      UserMessage c \<Rightarrow> pushSection chunks ''[User]: '' (serializeContentBlocks c mode)
    | AssistantMessage bs \<Rightarrow>
        let thinking = block_thinking bs; texts = block_texts bs; calls = block_calls stringify bs;
            chunks = (if length thinking > 0 then pushSection chunks ''[Assistant thinking]: '' [TextChunk (join_with [newline] thinking)] else chunks);
            chunks = (if length texts > 0 then pushSection chunks ''[Assistant]: '' [TextChunk (join_with [newline] texts)] else chunks)
        in if length calls > 0 then pushSection chunks ''[Assistant tool calls]: '' [TextChunk (join_with ''; '' calls)] else chunks
    | ToolResultMessage c \<Rightarrow>
        let sec = serializeContentBlocks c mode
        in pushSection chunks ''[Tool result]: '' (if mode = Compacted then map truncate_chunk sec else sec))"

definition serializeTranscriptChunks :: "('v \<Rightarrow> string) \<Rightarrow> 'v message list \<Rightarrow> serialize_mode \<Rightarrow> chunk list" where
  "serializeTranscriptChunks stringify messages mode = foldl (serialize_message stringify mode) [] messages"

definition serializeConversationForCompaction :: "('v \<Rightarrow> string) \<Rightarrow> 'v message list \<Rightarrow> string" where
  "serializeConversationForCompaction stringify messages =
    concat (map (\<lambda>c. case c of TextChunk t \<Rightarrow> t | ImageChunk d m \<Rightarrow> []) (serializeTranscriptChunks stringify messages Compacted))"

definition serializeRetainedTranscript :: "('v \<Rightarrow> string) \<Rightarrow> 'v message list \<Rightarrow> chunk list" where
  "serializeRetainedTranscript stringify messages = serializeTranscriptChunks stringify messages Retained"

section \<open>The conversation region\<close>

definition section_role :: "'v message \<Rightarrow> span_role" where
  "section_role m = (case m of ToolResultMessage c \<Rightarrow> ToolSpan | UserMessage c \<Rightarrow> UserSpan | AssistantMessage bs \<Rightarrow> AssistantSpan)"

definition conversation_sections :: "('v \<Rightarrow> string) \<Rightarrow> 'v message list \<Rightarrow> string option \<Rightarrow> (span_role \<times> string) list" where
  "conversation_sections stringify messages previousSummary =
    (if or_else previousSummary [] \<noteq> [] then [(AssistantSpan, or_else previousSummary [])] else []) @
    concat (map (\<lambda>m. let s = serializeConversationForCompaction stringify [m]
      in if s \<noteq> [] then [(section_role m, s)] else []) messages)"

fun section_loop :: "bool \<Rightarrow> nat \<Rightarrow> line list \<times> message_span list \<Rightarrow> (span_role \<times> string) list \<Rightarrow> line list \<times> message_span list" where
  "section_loop hasSummary index acc [] = acc"
| "section_loop hasSummary index (lines, spans) ((role, s) # rest) =
    (let start = length lines + 1;
         lines' = lines @ split_lines s;
         lines'' = (if rest \<noteq> [] \<and> \<not> (index = 0 \<and> hasSummary) then lines' @ [[]] else lines')
     in section_loop hasSummary (Suc index) (lines'', spans @ [\<lparr>sp_role = role, sp_start = start, sp_end = length lines''\<rparr>]) rest)"

definition createConversationRegion :: "('v \<Rightarrow> string) \<Rightarrow> 'v message list \<Rightarrow> string option \<Rightarrow> numbered_region" where
  "createConversationRegion stringify messages previousSummary =
    (case section_loop (or_else previousSummary [] \<noteq> []) 0 ([], []) (conversation_sections stringify messages previousSummary) of
       (lines, spans) \<Rightarrow>
         (createNumberedRegion (join_lines lines) None)
           \<lparr>rg_spans := Some (if length spans > 0 then spans else [\<lparr>sp_role = AssistantSpan, sp_start = 1, sp_end = 1\<rparr>])\<rparr>)"

section \<open>The structured input\<close>

record input_message =
  im_id :: nat
  im_role :: span_role
  im_lines :: "line list"

record message_range =
  mr_id :: nat
  mr_start :: nat
  mr_end :: nat

record structured_input =
  si_messages :: "input_message list"
  si_query :: string
  si_ratio :: rat
  si_protected :: "message_range list"

definition infer_step :: "line list \<Rightarrow> message_span list \<Rightarrow> nat \<Rightarrow> message_span list" where
  "infer_step lines spans index =
    (let header = header_role (lines ! index) in
     if header \<noteq> None \<or> length spans = 0
     then (if length spans > 0 then butlast spans @ [(last spans)\<lparr>sp_end := index\<rparr>] else spans) @
       [\<lparr>sp_role = (if header = Some ''User'' then UserSpan else if header = Some ''Tool result'' then ToolSpan else AssistantSpan),
         sp_start = index + 1, sp_end = length lines\<rparr>]
     else spans)"

definition inferMessageSpans :: "numbered_region \<Rightarrow> message_span list" where
  "inferMessageSpans region = foldl (infer_step (rg_lines region)) [] [0..<length (rg_lines region)]"

definition message_spans :: "numbered_region \<Rightarrow> message_span list" where
  "message_spans region = (case rg_spans region of None \<Rightarrow> inferMessageSpans region | Some spans \<Rightarrow> spans)"

text \<open>\<open>lines.slice(start - 1, end)\<close>; line numbers start at 1, so the index is not negative.\<close>

definition slice_lines :: "line list \<Rightarrow> nat \<Rightarrow> nat \<Rightarrow> line list" where
  "slice_lines lines start stop = take (stop - (start - 1)) (drop (start - 1) lines)"

definition protected_ranges :: "numbered_region \<Rightarrow> nat \<Rightarrow> message_span \<Rightarrow> message_range list" where
  "protected_ranges region index sp =
    map (\<lambda>r. \<lparr>mr_id = index + 1, mr_start = nat (r_start r), mr_end = nat (r_end r)\<rparr>)
      (contiguousRanges (set_add_all []
        (map (\<lambda>l. l - sp_start sp + 1) (filter (\<lambda>l. sp_start sp \<le> l \<and> l \<le> sp_end sp) (protected_lines region)))))"

definition buildStructuredCompactionInput :: "numbered_region \<Rightarrow> string \<Rightarrow> rat \<Rightarrow> structured_input" where
  "buildStructuredCompactionInput region query ratio =
    (let spans = message_spans region in
     \<lparr>si_messages = map (\<lambda>(index, span). \<lparr>im_id = index + 1, im_role = sp_role span,
          im_lines = slice_lines (rg_lines region) (sp_start span) (sp_end span)\<rparr>) (zip [0..<length spans] spans),
      si_query = query, si_ratio = ratio,
      si_protected = concat (map (\<lambda>(index, span). protected_ranges region index span) (zip [0..<length spans] spans))\<rparr>)"

section \<open>The planner's answer\<close>

text \<open>\<open>0|[1-9][0-9]*\<close>: a decimal numeral without leading zeros at the front, and what follows it.\<close>

definition read_numeral :: "string \<Rightarrow> (nat \<times> string) option" where
  "read_numeral s = (let ds = takeWhile is_digit s in
     if ds = [] \<or> (hd ds = CHR ''0'' \<and> ds \<noteq> ''0'') then None else Some (radix_value 10 ds, dropWhile is_digit s))"

definition parse_record :: "line \<Rightarrow> message_range option" where
  "parse_record l = (case read_numeral l of
      Some (i, CHR '':'' # r1) \<Rightarrow> (case read_numeral r1 of
        Some (s, CHR '','' # r2) \<Rightarrow> (case read_numeral r2 of
          Some (e, []) \<Rightarrow> Some \<lparr>mr_id = i, mr_start = s, mr_end = e\<rparr>
        | _ \<Rightarrow> None)
      | _ \<Rightarrow> None)
    | _ \<Rightarrow> None)"

definition safe_record :: "message_range \<Rightarrow> bool" where
  "safe_record r = (int (mr_id r) \<le> MAX_SAFE_INTEGER \<and> int (mr_start r) \<le> MAX_SAFE_INTEGER \<and> int (mr_end r) \<le> MAX_SAFE_INTEGER)"

fun parse_records :: "line list \<Rightarrow> message_range list option" where
  "parse_records [] = Some []"
| "parse_records (l # ls) = (case parse_record l of
      None \<Rightarrow> None
    | Some r \<Rightarrow> if \<not> safe_record r then None else map_option ((#) r) (parse_records ls))"

definition before_last_newline :: "string \<Rightarrow> string" where
  "before_last_newline s = rev (drop 1 (dropWhile (\<lambda>c. c \<noteq> newline) (rev s)))"

definition parseMessageRangeRecords :: "string \<Rightarrow> bool \<Rightarrow> message_range list option" where
  "parseMessageRangeRecords s truncated =
    (let complete = (if truncated then before_last_newline s else if ends_with_newline s then butlast s else s)
     in if complete = [] then None else parse_records (split_lines complete))"

definition message_offsets :: "input_message list \<Rightarrow> (nat, nat \<times> nat) jmap" where
  "message_offsets messages =
    fst (foldl (\<lambda>(m, offset) msg. (map_set m (im_id msg) (offset, length (im_lines msg)), offset + length (im_lines msg))) ([], 0) messages)"

definition map_message_range :: "(nat, nat \<times> nat) jmap \<Rightarrow> message_range \<Rightarrow> line_range list" where
  "map_message_range offsets r = (case map_get offsets (mr_id r) of
      None \<Rightarrow> []
    | Some (offset, len) \<Rightarrow>
        if mr_start r < 1 \<or> mr_end r < mr_start r \<or> mr_end r > len then []
        else [\<lparr>r_start = int (offset + mr_start r), r_end = int (offset + mr_end r)\<rparr>])"

definition mapMessageRanges :: "message_range list \<Rightarrow> structured_input \<Rightarrow> line_range list" where
  "mapMessageRanges ranges input = concat (map (map_message_range (message_offsets (si_messages input))) ranges)"

section \<open>Spans tile the region\<close>

fun tiles :: "nat \<Rightarrow> message_span list \<Rightarrow> nat \<Rightarrow> bool" where
  "tiles a [] n = (a = n)"
| "tiles a (s # ss) n = (sp_start s = a + 1 \<and> sp_start s \<le> sp_end s \<and> tiles (sp_end s) ss n)"

lemma tiles_append: "tiles a (ss @ ss') n \<longleftrightarrow> (\<exists>m. tiles a ss m \<and> tiles m ss' n)"
  by (induction ss arbitrary: a) auto

lemma tiles_le: "tiles a ss n \<Longrightarrow> a \<le> n"
  by (induction ss arbitrary: a) fastforce+

lemma tiles_trim:
  "tiles a ss n \<Longrightarrow> tiles (a - offset)
    (map (\<lambda>sp. sp\<lparr>sp_start := max 1 (sp_start sp - offset), sp_end := sp_end sp - offset\<rparr>) (filter (\<lambda>sp. sp_end sp > offset) ss)) (n - offset)"
proof (induction ss arbitrary: a)
  case Nil
  then show ?case by simp
next
  case (Cons s ss)
  note rest = Cons.IH [of "sp_end s"]
  show ?case
  proof (cases "sp_end s > offset")
    case True
    then show ?thesis using Cons.prems rest by auto
  next
    case False
    then have "a - offset = sp_end s - offset" using Cons.prems by auto
    then show ?thesis using Cons.prems rest False by simp
  qed
qed

lemma infer_fold:
  "k \<le> length lines \<Longrightarrow> k > 0 \<Longrightarrow> \<exists>init l. foldl (infer_step lines) [] [0..<k] = init @ [l] \<and> tiles 0 init (sp_start l - 1) \<and>
    1 \<le> sp_start l \<and> sp_start l \<le> k \<and> sp_end l = length lines"
proof (induction k)
  case 0
  then show ?case by simp
next
  case (Suc k)
  show ?case
  proof (cases "k = 0")
    case True
    then show ?thesis using Suc.prems by (auto simp: infer_step_def Let_def intro!: exI [of _ "[]"])
  next
    case False
    then obtain init l where f: "foldl (infer_step lines) [] [0..<k] = init @ [l]" "tiles 0 init (sp_start l - 1)"
      "1 \<le> sp_start l" "sp_start l \<le> k" "sp_end l = length lines"
      using Suc by auto
    have step: "foldl (infer_step lines) [] [0..<Suc k] = infer_step lines (init @ [l]) k" using f(1) by simp
    show ?thesis
    proof (cases "header_role (lines ! k) = None")
      case True
      then show ?thesis unfolding step using f(2-5) by (auto simp: infer_step_def [of lines "init @ [l]" k])
    next
      case False
      have "tiles 0 (init @ [l\<lparr>sp_end := k\<rparr>]) k" using f(2-4) by (auto simp: tiles_append intro!: exI [of _ "sp_start l - 1"])
      then show ?thesis unfolding step using False Suc.prems(1) by (auto simp: infer_step_def [of lines "init @ [l]" k])
    qed
  qed
qed

lemma infer_tiles: "tiles 0 (inferMessageSpans region) (length (rg_lines region))"
proof (cases "rg_lines region = []")
  case True
  then show ?thesis by (simp add: inferMessageSpans_def)
next
  case False
  then obtain init l where "foldl (infer_step (rg_lines region)) [] [0..<length (rg_lines region)] = init @ [l]"
    "tiles 0 init (sp_start l - 1)" "1 \<le> sp_start l" "sp_start l \<le> length (rg_lines region)" "sp_end l = length (rg_lines region)"
    using infer_fold [of "length (rg_lines region)" "rg_lines region"] by auto
  then show ?thesis by (auto simp: inferMessageSpans_def tiles_append intro!: exI [of _ "sp_start l - 1"])
qed

lemma section_loop_tiles:
  assumes "tiles 0 spans (length lines)" and "\<forall>l \<in> set lines. newline \<notin> set l" and "spans = [] \<longrightarrow> lines = []"
  shows "case section_loop summary index (lines, spans) secs of (lines', spans') \<Rightarrow>
    tiles 0 spans' (length lines') \<and> (\<forall>l \<in> set lines'. newline \<notin> set l) \<and> (spans' = [] \<longleftrightarrow> lines' = [])"
  using assms
proof (induction summary index "(lines, spans)" secs arbitrary: lines spans rule: section_loop.induct)
  case (1 summary index)
  then show ?case by (cases spans) (auto dest: tiles_le)
next
  case (2 summary index lines spans role s rest)
  let ?pad = "if rest \<noteq> [] \<and> \<not> (index = 0 \<and> summary) then [[]] else [] :: line list"
  let ?lines = "(lines @ split_lines s) @ ?pad"
  have "tiles 0 (spans @ [\<lparr>sp_role = role, sp_start = length lines + 1, sp_end = length ?lines\<rparr>]) (length ?lines)"
    using "2.prems"(1) by (auto simp: tiles_append Suc_le_eq)
  moreover have "\<forall>l \<in> set ?lines. newline \<notin> set l" using "2.prems"(2) by (auto dest: split_on_no_sep)
  ultimately show ?case using "2.hyps" [OF refl refl, of ?lines] by (auto simp: Let_def)
qed

lemma conversation_region:
  fixes stringify :: "'v \<Rightarrow> string" and messages :: "'v message list" and summary :: "string option"
  defines "region \<equiv> createConversationRegion stringify messages summary"
  shows "wf_region region \<and> (\<exists>spans. rg_spans region = Some spans \<and> tiles 0 spans (length (rg_lines region)))"
proof -
  obtain lines spans where l: "section_loop (or_else summary [] \<noteq> []) 0 ([], []) (conversation_sections stringify messages summary) = (lines, spans)"
    by fastforce
  then have t: "tiles 0 spans (length lines)" "\<forall>l \<in> set lines. newline \<notin> set l" "spans = [] \<longleftrightarrow> lines = []"
    using section_loop_tiles [of "[]" "[]" "or_else summary [] \<noteq> []" 0 "conversation_sections stringify messages summary"] by auto
  have r: "region = (createNumberedRegion (join_lines lines) None)
      \<lparr>rg_spans := Some (if length spans > 0 then spans else [\<lparr>sp_role = AssistantSpan, sp_start = 1, sp_end = 1\<rparr>])\<rparr>"
    using l by (simp add: region_def createConversationRegion_def)
  have "wf_region region" using wf_createNumberedRegion [of "join_lines lines" None] by (simp add: r wf_region_def)
  moreover have "tiles 0 (if length spans > 0 then spans else [\<lparr>sp_role = AssistantSpan, sp_start = 1, sp_end = 1\<rparr>]) (length (split_lines (join_lines lines)))"
    using t by (cases "lines = []") (auto simp: split_join_on)
  ultimately show ?thesis by (simp add: r)
qed

section \<open>From message lines to region lines\<close>

lemma length_slice: "1 \<le> a \<Longrightarrow> b \<le> length lines \<Longrightarrow> length (slice_lines lines a b) = b - (a - 1)"
  by (simp add: slice_lines_def)

lemma nth_slice: "1 \<le> a \<Longrightarrow> b \<le> length lines \<Longrightarrow> i < b - (a - 1) \<Longrightarrow> slice_lines lines a b ! i = lines ! (a - 1 + i)"
  by (simp add: slice_lines_def)

lemma concat_tiles:
  "tiles a ss n \<Longrightarrow> n \<le> length lines \<Longrightarrow> concat (map (\<lambda>s. slice_lines lines (sp_start s) (sp_end s)) ss) = take (n - a) (drop a lines)"
proof (induction ss arbitrary: a)
  case Nil
  then show ?case by simp
next
  case (Cons s ss)
  have le: "a \<le> sp_end s" "sp_end s \<le> n" using Cons.prems tiles_le by auto
  have "concat (map (\<lambda>s. slice_lines lines (sp_start s) (sp_end s)) ss) = take (n - sp_end s) (drop (sp_end s) lines)"
    using Cons by simp
  moreover have "slice_lines lines (sp_start s) (sp_end s) = take (sp_end s - a) (drop a lines)"
    using Cons.prems by (simp add: slice_lines_def)
  moreover have "take (n - a) (drop a lines) = take (sp_end s - a) (drop a lines) @ take (n - sp_end s) (drop (sp_end s) lines)"
    using take_add [of "sp_end s - a" "n - sp_end s" "drop a lines"] le by simp
  ultimately show ?case by simp
qed

definition indexed :: "nat \<Rightarrow> 'a list \<Rightarrow> (nat \<times> 'a) list" where
  "indexed k xs = zip [k..<k + length xs] xs"

lemma indexed_simps [simp]: "indexed k [] = []" "indexed k (x # xs) = (k, x) # indexed (Suc k) xs"
  by (simp_all add: indexed_def upt_conv_Cons del: upt_Suc)

lemma set_indexed: "set (indexed k xs) = (\<lambda>i. (k + i, xs ! i)) ` {..<length xs}"
  by (induction xs arbitrary: k) (auto simp: lessThan_Suc_eq_insert_0 image_image)

definition built_messages :: "line list \<Rightarrow> nat \<Rightarrow> message_span list \<Rightarrow> input_message list" where
  "built_messages lines k ss = map (\<lambda>(index, sp). \<lparr>im_id = index + 1, im_role = sp_role sp,
     im_lines = slice_lines lines (sp_start sp) (sp_end sp)\<rparr>) (indexed k ss)"

lemma build_fields:
  "si_messages (buildStructuredCompactionInput region query ratio) = built_messages (rg_lines region) 0 (message_spans region)"
  "si_protected (buildStructuredCompactionInput region query ratio) =
     concat (map (\<lambda>(index, sp). protected_ranges region index sp) (indexed 0 (message_spans region)))"
  by (simp_all add: buildStructuredCompactionInput_def built_messages_def indexed_def Let_def)

lemma offsets_fold:
  "tiles a ss n \<Longrightarrow> n \<le> length lines \<Longrightarrow>
    map_get (fst (foldl (\<lambda>(m, offset) msg. (map_set m (im_id msg) (offset, length (im_lines msg)), offset + length (im_lines msg)))
      (m, a) (built_messages lines k ss))) mid =
    (if k < mid \<and> mid \<le> k + length ss then Some (sp_start (ss ! (mid - k - 1)) - 1, sp_end (ss ! (mid - k - 1)) - (sp_start (ss ! (mid - k - 1)) - 1))
     else map_get m mid)"
proof (induction ss arbitrary: a k m)
  case Nil
  then show ?case by (auto simp: built_messages_def)
next
  case (Cons s ss)
  have s: "sp_start s = Suc a" "Suc a \<le> sp_end s" "sp_end s \<le> n" "tiles (sp_end s) ss n"
    using Cons.prems tiles_le by auto
  have step: "built_messages lines k (s # ss) = \<lparr>im_id = k + 1, im_role = sp_role s, im_lines = slice_lines lines (sp_start s) (sp_end s)\<rparr> #
      built_messages lines (Suc k) ss"
    by (simp add: built_messages_def)
  have len: "length (slice_lines lines (sp_start s) (sp_end s)) = sp_end s - a"
    using s Cons.prems(2) by (simp add: length_slice)
  have stop: "a + (sp_end s - a) = sp_end s" using s by simp
  show ?case unfolding step using s len stop Cons.IH [OF s(4) Cons.prems(2)]
    by (auto simp: nth_Cons' split: if_splits)
qed

lemma message_offsets_built:
  "tiles 0 ss n \<Longrightarrow> n \<le> length lines \<Longrightarrow> map_get (message_offsets (built_messages lines 0 ss)) mid =
    (if 1 \<le> mid \<and> mid \<le> length ss then Some (sp_start (ss ! (mid - 1)) - 1, sp_end (ss ! (mid - 1)) - (sp_start (ss ! (mid - 1)) - 1)) else None)"
  using offsets_fold [of 0 ss n lines "[]" 0 mid] by (simp add: message_offsets_def map_get_def Suc_le_eq)

lemma contiguous_fold:
  assumes "sorted xs" and "distinct xs"
  shows "lines_of (foldl contiguous_step [] xs) = int ` set xs \<and>
    (\<forall>r \<in> set (foldl contiguous_step [] xs). r_start r \<le> r_end r \<and> r_start r \<in> int ` set xs \<and> r_end r \<in> int ` set xs) \<and>
    (xs \<noteq> [] \<longrightarrow> foldl contiguous_step [] xs \<noteq> [] \<and> r_end (last (foldl contiguous_step [] xs)) = int (last xs))"
  using assms
proof (induction xs rule: rev_induct)
  case Nil
  then show ?case by simp
next
  case (snoc x xs)
  let ?F = "foldl contiguous_step [] xs"
  have ih: "lines_of ?F = int ` set xs" "\<forall>r \<in> set ?F. r_start r \<le> r_end r \<and> r_start r \<in> int ` set xs \<and> r_end r \<in> int ` set xs"
    "xs \<noteq> [] \<longrightarrow> ?F \<noteq> [] \<and> r_end (last ?F) = int (last xs)"
    using snoc by (auto simp: sorted_append)
  have step: "foldl contiguous_step [] (xs @ [x]) = contiguous_step ?F x" by simp
  show ?case
  proof (cases "?F \<noteq> [] \<and> int x = r_end (last ?F) + 1")
    case True
    then obtain F l where F: "?F = F @ [l]" by (metis append_butlast_last_id)
    have l: "r_start l \<le> r_end l" "int x = r_end l + 1" using ih(2) F True by auto
    have "{r_start l..int x} = insert (int x) {r_start l..r_end l}" using l by auto
    then show ?thesis unfolding step using F l ih(1,2) by (auto simp: contiguous_step_def [of "F @ [l]" x])
  next
    case False
    then show ?thesis unfolding step using ih by (auto simp: contiguous_step_def [of ?F x])
  qed
qed

lemma contiguousRanges_effect:
  assumes "distinct xs"
  shows "lines_of (contiguousRanges xs) = int ` set xs"
    "r \<in> set (contiguousRanges xs) \<Longrightarrow> r_start r \<le> r_end r \<and> r_start r \<in> int ` set xs \<and> r_end r \<in> int ` set xs"
  using contiguous_fold [of "sort xs"] assms by (simp_all add: contiguousRanges_def)

lemma tiles_nth:
  "tiles a ss n \<Longrightarrow> i < length ss \<Longrightarrow> a < sp_start (ss ! i) \<and> sp_start (ss ! i) \<le> sp_end (ss ! i) \<and> sp_end (ss ! i) \<le> n"
proof (induction ss arbitrary: a i)
  case Nil
  then show ?case by simp
next
  case (Cons s ss)
  then show ?case using tiles_le [of "sp_end s" ss n] by (cases i) (fastforce dest: Cons.IH)+
qed

lemma tiles_cover: "tiles a ss n \<Longrightarrow> a < l \<Longrightarrow> l \<le> n \<Longrightarrow> \<exists>i < length ss. sp_start (ss ! i) \<le> l \<and> l \<le> sp_end (ss ! i)"
proof (induction ss arbitrary: a)
  case Nil
  then show ?case by simp
next
  case (Cons s ss)
  show ?case
  proof (cases "l \<le> sp_end s")
    case True
    then show ?thesis using Cons.prems by (auto intro!: exI [of _ 0])
  next
    case False
    then obtain i where "i < length ss" "sp_start (ss ! i) \<le> l \<and> l \<le> sp_end (ss ! i)" using Cons by fastforce
    then show ?thesis by (auto intro!: exI [of _ "Suc i"])
  qed
qed

lemma concat_map_concat: "concat (map f (concat (map g xs))) = concat (map (\<lambda>x. concat (map f (g x))) xs)"
  by (induction xs) simp_all

lemma mapped_range:
  assumes "tiles 0 ss n" and "n \<le> length lines"
  shows "map_message_range (message_offsets (built_messages lines 0 ss)) r =
    (if 1 \<le> mr_id r \<and> mr_id r \<le> length ss \<and> 1 \<le> mr_start r \<and> mr_start r \<le> mr_end r \<and>
        mr_end r \<le> sp_end (ss ! (mr_id r - 1)) - (sp_start (ss ! (mr_id r - 1)) - 1)
     then [\<lparr>r_start = int (sp_start (ss ! (mr_id r - 1)) - 1 + mr_start r), r_end = int (sp_start (ss ! (mr_id r - 1)) - 1 + mr_end r)\<rparr>] else [])"
  using message_offsets_built [OF assms, of "mr_id r"] by (auto simp: map_message_range_def not_le)

lemma mapped_protected:
  assumes "tiles 0 ss n" and "n \<le> length lines" and "i < length ss"
  shows "lines_of (concat (map (map_message_range (message_offsets (built_messages lines 0 ss))) (protected_ranges region i (ss ! i)))) =
    {l \<in> protected_set (protected_lines region). int (sp_start (ss ! i)) \<le> l \<and> l \<le> int (sp_end (ss ! i))}"
proof -
  let ?s = "ss ! i"
  let ?local = "set_add_all [] (map (\<lambda>l. l - sp_start ?s + 1) (filter (\<lambda>l. sp_start ?s \<le> l \<and> l \<le> sp_end ?s) (protected_lines region)))"
  have s: "1 \<le> sp_start ?s" "sp_start ?s \<le> sp_end ?s" using tiles_nth [OF assms(1,3)] by auto
  have d: "distinct ?local" by (rule distinct_set_add_all) simp
  note c = contiguousRanges_effect [OF d]
  have loc: "int ` set ?local = (\<lambda>l. l - int (sp_start ?s) + 1) ` {l \<in> protected_set (protected_lines region). int (sp_start ?s) \<le> l \<and> l \<le> int (sp_end ?s)}"
    by (auto simp: protected_set_def image_iff of_nat_diff)
  have local_bounds: "1 \<le> x \<and> x \<le> int (sp_end ?s) - (int (sp_start ?s) - 1)" if "x \<in> int ` set ?local" for x
    using that unfolding loc by auto
  have "map_message_range (message_offsets (built_messages lines 0 ss)) \<lparr>mr_id = i + 1, mr_start = nat (r_start r), mr_end = nat (r_end r)\<rparr> =
      [\<lparr>r_start = int (sp_start ?s) - 1 + r_start r, r_end = int (sp_start ?s) - 1 + r_end r\<rparr>]" if "r \<in> set (contiguousRanges ?local)" for r
    using c(2) [OF that] local_bounds [of "r_start r"] local_bounds [of "r_end r"] s assms(3)
    by (auto simp: mapped_range [OF assms(1,2)] of_nat_diff nat_le_iff)
  then have "lines_of (concat (map (map_message_range (message_offsets (built_messages lines 0 ss))) (protected_ranges region i ?s))) =
      (\<Union>r \<in> set (contiguousRanges ?local). {int (sp_start ?s) - 1 + r_start r..int (sp_start ?s) - 1 + r_end r})"
    unfolding lines_of_concat protected_ranges_def by simp
  also have "\<dots> = (\<lambda>x. int (sp_start ?s) - 1 + x) ` lines_of (contiguousRanges ?local)"
    by (simp add: lines_of_def image_UN add.commute)
  also have "\<dots> = {l \<in> protected_set (protected_lines region). int (sp_start ?s) \<le> l \<and> l \<le> int (sp_end ?s)}"
    unfolding c(1) loc image_image by simp
  finally show ?thesis .
qed

section \<open>Records as text\<close>

definition record_line :: "message_range \<Rightarrow> line" where
  "record_line r = nat_dec (mr_id r) @ CHR '':'' # nat_dec (mr_start r) @ CHR '','' # nat_dec (mr_end r)"

lemma nat_dec_no_leading_zero: "n \<noteq> 0 \<Longrightarrow> hd (nat_dec n) \<noteq> CHR ''0''"
proof (induction n rule: nat_dec.induct)
  case (1 n)
  show ?case
  proof (cases "n < 10")
    case True
    then have "of_char (hd (nat_dec n)) = 48 + n" by (simp add: nat_dec.simps [of n])
    then show ?thesis using "1.prems" by auto
  next
    case False
    then show ?thesis using 1 by (simp add: nat_dec.simps [of n])
  qed
qed

lemma read_numeral_nat_dec:
  assumes "r = [] \<or> \<not> is_digit (hd r)"
  shows "read_numeral (nat_dec n @ r) = Some (n, r)"
proof -
  have "takeWhile is_digit (nat_dec n @ r) = nat_dec n" "dropWhile is_digit (nat_dec n @ r) = r"
    using is_digit_nat_dec [of _ n] assms by (cases r; simp add: takeWhile_append dropWhile_append)+
  moreover have "nat_dec n = ''0'' \<or> hd (nat_dec n) \<noteq> CHR ''0''"
    using nat_dec_no_leading_zero [of n] by (cases "n = 0") (auto simp: nat_dec.simps [of 0] digit_def)
  ultimately show ?thesis by (auto simp: read_numeral_def radix_nat_dec Let_def)
qed

lemma parse_record_line: "parse_record (record_line r) = Some r"
proof -
  have nd: "\<not> is_digit (CHR '':'')" "\<not> is_digit (CHR '','')" by (simp_all add: is_digit_def)
  show ?thesis using read_numeral_nat_dec [of "[]" "mr_end r"] nd
    by (simp add: parse_record_def record_line_def read_numeral_nat_dec)
qed

lemma parse_record_lines: "list_all safe_record rs \<Longrightarrow> parse_records (map record_line rs) = Some rs"
  by (induction rs) (simp_all add: parse_record_line)

lemma record_line_no_newline: "newline \<notin> set (record_line r)"
proof -
  have "newline \<notin> set (nat_dec n)" for n using is_digit_nat_dec [of newline n] by (auto simp: is_digit_def newline_def)
  moreover have "newline \<noteq> CHR '':''" "newline \<noteq> CHR '',''" by code_simp+
  ultimately show ?thesis by (simp add: record_line_def)
qed

lemma tiles_region:
  assumes "rg_spans region = None \<or>
    (\<exists>stringify (messages :: 'v message list) summary offset. view (createConversationRegion stringify messages summary) offset = Some region)"
  shows "tiles 0 (message_spans region) (length (rg_lines region))"
  using assms
proof
  assume "rg_spans region = None"
  then show ?thesis by (simp add: message_spans_def infer_tiles)
next
  assume "\<exists>stringify (messages :: 'v message list) summary offset. view (createConversationRegion stringify messages summary) offset = Some region"
  then obtain stringify offset summary and messages :: "'v message list"
    where v: "view (createConversationRegion stringify messages summary) offset = Some region" by blast
  obtain spans where s: "rg_spans (createConversationRegion stringify messages summary) = Some spans"
    "tiles 0 spans (length (rg_lines (createConversationRegion stringify messages summary)))"
    using conversation_region [of stringify messages summary] by blast
  show ?thesis using v s tiles_trim [OF s(2), of offset]
    by (auto simp: view_def message_spans_def trimRegionHead_def Let_def split: if_splits)
qed

section \<open>Theorems\<close>

text \<open>
  C33. The planner sees the region and nothing else, and is understood: for a region made from a conversation or any
  trimmed view of it, and for a region whose messages are inferred from headers, the messages of the structured input
  concatenate to the region's lines; the protected ranges shown to the planner denote exactly the protected lines; and
  a record that is accepted denotes the lines of the region that the planner saw at those places of that message.
\<close>
theorem structured_input_faithful:
  assumes "rg_spans region = None \<or>
    (\<exists>stringify (messages :: 'v message list) summary offset. view (createConversationRegion stringify messages summary) offset = Some region)"
  shows "let input = buildStructuredCompactionInput region query ratio in
    concat (map im_lines (si_messages input)) = rg_lines region \<and>
    lines_of (mapMessageRanges (si_protected input) input) = protected_set (protected_lines region) \<inter> {1..int (length (rg_lines region))} \<and>
    (\<forall>r q. mapMessageRanges [r] input = [q] \<longrightarrow> 1 \<le> mr_id r \<and> mr_id r \<le> length (si_messages input) \<and>
      slice_lines (rg_lines region) (nat (r_start q)) (nat (r_end q)) =
        slice_lines (im_lines (si_messages input ! (mr_id r - 1))) (mr_start r) (mr_end r))"
proof -
  let ?input = "buildStructuredCompactionInput region query ratio" and ?ss = "message_spans region" and ?lines = "rg_lines region"
  have t: "tiles 0 ?ss (length ?lines)" by (rule tiles_region [OF assms])
  have lines: "map im_lines (si_messages ?input) = map (\<lambda>s. slice_lines ?lines (sp_start s) (sp_end s)) ?ss"
    by (rule nth_equalityI) (simp_all add: build_fields built_messages_def indexed_def)
  have "concat (map im_lines (si_messages ?input)) = ?lines" unfolding lines using concat_tiles [OF t] by simp
  moreover have "lines_of (mapMessageRanges (si_protected ?input) ?input) = protected_set (protected_lines region) \<inter> {1..int (length ?lines)}"
  proof -
    have "lines_of (mapMessageRanges (si_protected ?input) ?input) =
        (\<Union>i \<in> {..<length ?ss}. {l \<in> protected_set (protected_lines region). int (sp_start (?ss ! i)) \<le> l \<and> l \<le> int (sp_end (?ss ! i))})"
      using mapped_protected [OF t order_refl, of _ region]
      by (simp add: mapMessageRanges_def build_fields concat_map_concat lines_of_concat [of _ "indexed _ _"] set_indexed)
    also have "\<dots> = protected_set (protected_lines region) \<inter> {1..int (length ?lines)}"
    proof (intro set_eqI iffI)
      fix l
      assume "l \<in> protected_set (protected_lines region) \<inter> {1..int (length ?lines)}"
      then show "l \<in> (\<Union>i \<in> {..<length ?ss}. {l \<in> protected_set (protected_lines region). int (sp_start (?ss ! i)) \<le> l \<and> l \<le> int (sp_end (?ss ! i))})"
        using tiles_cover [OF t, of "nat l"] by (force simp: le_nat_iff nat_le_iff)
    qed (use tiles_nth [OF t] in force)
    finally show ?thesis .
  qed
  moreover have "1 \<le> mr_id r \<and> mr_id r \<le> length (si_messages ?input) \<and>
      slice_lines ?lines (nat (r_start q)) (nat (r_end q)) = slice_lines (im_lines (si_messages ?input ! (mr_id r - 1))) (mr_start r) (mr_end r)"
    if "mapMessageRanges [r] ?input = [q]" for r q
  proof -
    let ?s = "?ss ! (mr_id r - 1)"
    have a: "1 \<le> mr_id r" "mr_id r \<le> length ?ss" "1 \<le> mr_start r" "mr_start r \<le> mr_end r" "mr_end r \<le> sp_end ?s - (sp_start ?s - 1)"
      "q = \<lparr>r_start = int (sp_start ?s - 1 + mr_start r), r_end = int (sp_start ?s - 1 + mr_end r)\<rparr>"
      using that by (auto simp: mapMessageRanges_def build_fields mapped_range [OF t order_refl] split: if_splits)
    have s: "0 < sp_start ?s" "sp_end ?s \<le> length ?lines" using tiles_nth [OF t, of "mr_id r - 1"] a by auto
    have "im_lines (si_messages ?input ! (mr_id r - 1)) = slice_lines ?lines (sp_start ?s) (sp_end ?s)"
      using a by (simp add: build_fields built_messages_def indexed_def)
    moreover have "slice_lines ?lines (sp_start ?s - 1 + mr_start r) (sp_start ?s - 1 + mr_end r) =
        slice_lines (slice_lines ?lines (sp_start ?s) (sp_end ?s)) (mr_start r) (mr_end r)"
      using a s by (simp add: slice_lines_def drop_take min_def add.commute)
    moreover have "nat (r_start q) = sp_start ?s - 1 + mr_start r" "nat (r_end q) = sp_start ?s - 1 + mr_end r"
      unfolding a(6) by (simp_all only: line_range.simps nat_int)
    moreover have "length (si_messages ?input) = length ?ss" by (simp add: build_fields built_messages_def indexed_def)
    ultimately show ?thesis using a(1,2) by simp
  qed
  ultimately show ?thesis by (simp add: Let_def)
qed

text \<open>
  Records round-trip: a non-empty list of records with safe integers, one per line, is read back unchanged, with or
  without a final newline; when the answer was cut off, the complete records before the last newline are read and the
  unfinished one is dropped.
\<close>
theorem records_roundtrip:
  assumes "rs \<noteq> []" and "list_all safe_record rs" and "newline \<notin> set partial"
  shows "parseMessageRangeRecords (join_lines (map record_line rs)) False = Some rs \<and>
    parseMessageRangeRecords (join_lines (map record_line rs) @ [newline]) False = Some rs \<and>
    parseMessageRangeRecords (join_lines (map record_line rs) @ newline # partial) True = Some rs"
proof -
  let ?s = "join_lines (map record_line rs)"
  have split: "split_lines ?s = map record_line rs"
    using assms(1) record_line_no_newline by (intro split_join_on) auto
  have full: "[] \<notin> set (map record_line rs)" by (auto simp: record_line_def)
  then have ne: "?s \<noteq> []" using split by (metis list.set_intros(1) split_on.simps(1))
  have "\<not> ends_with_newline ?s"
  proof
    assume "ends_with_newline ?s"
    then obtain t where "?s = t @ newline # []" by (auto simp: ends_with_newline_def) (metis append_butlast_last_id)
    then have "[] \<in> set (map record_line rs)" using split by (metis in_set_conv_decomp split_on_snoc)
    then show False using full by blast
  qed
  moreover have "dropWhile (\<lambda>c. c \<noteq> newline) (rev partial @ newline # rev ?s) = newline # rev ?s"
    using assms(3) by (subst dropWhile_append2) auto
  then have "before_last_newline (?s @ newline # partial) = ?s" by (simp add: before_last_newline_def)
  moreover have "ends_with_newline (?s @ [newline])" by (simp add: ends_with_newline_def)
  ultimately show ?thesis using split ne parse_record_lines [OF assms(2)] by (simp add: parseMessageRangeRecords_def)
qed

definition sample_conversation :: numbered_region where
  "sample_conversation = createConversationRegion (\<lambda>v :: nat. nat_dec v)
    [UserMessage (Blocks [TextBlock ''a'', ImageBlock ''i'' ''png'']), AssistantMessage [AThinking ''t'', AToolCall ''ls'' [(''n'', 3)]],
     ToolResultMessage (PlainText ''<keepContext>''), UserMessage (PlainText ''<keepContext>'')] (Some ''s'')"

theorem structured_input_faithful_witness:
  "concat (map im_lines (si_messages (buildStructuredCompactionInput sample_conversation ''q'' 1))) = rg_lines sample_conversation \<and>
   lines_of (mapMessageRanges (si_protected (buildStructuredCompactionInput sample_conversation ''q'' 1))
       (buildStructuredCompactionInput sample_conversation ''q'' 1)) =
     protected_set (protected_lines sample_conversation) \<inter> {1..int (length (rg_lines sample_conversation))} \<and>
   protected_lines sample_conversation = [11]"
proof -
  have v: "view sample_conversation 0 = Some sample_conversation" by (simp add: view_def)
  have p: "protected_lines sample_conversation = [11]" by code_simp
  show ?thesis
    using structured_input_faithful [where region = sample_conversation and query = "''q''" and ratio = 1 and 'v = nat] v p
    unfolding sample_conversation_def by (auto simp: Let_def)
qed

theorem records_roundtrip_witness:
  "parseMessageRangeRecords (join_lines (map record_line [\<lparr>mr_id = 1, mr_start = 20, mr_end = 31\<rparr>])) False =
     Some [\<lparr>mr_id = 1, mr_start = 20, mr_end = 31\<rparr>] \<and>
   parseMessageRangeRecords (join_lines (map record_line [\<lparr>mr_id = 1, mr_start = 20, mr_end = 31\<rparr>]) @ newline # ''2:4'') True =
     Some [\<lparr>mr_id = 1, mr_start = 20, mr_end = 31\<rparr>]"
proof -
  have s: "list_all safe_record [\<lparr>mr_id = 1, mr_start = 20, mr_end = 31\<rparr>]" by (simp add: safe_record_def MAX_SAFE_INTEGER_def)
  have n: "newline \<notin> set ''2:4''" by code_simp
  have ne: "[\<lparr>mr_id = 1, mr_start = 20, mr_end = 31\<rparr>] \<noteq> []" by simp
  show ?thesis using records_roundtrip [OF ne s n] by blast
qed

section \<open>Serialisation as a join of sections\<close>

text \<open>The reference: the text of each content, one section per non-empty body, sections separated by a blank line.\<close>

definition text_step :: "string \<Rightarrow> content_block \<Rightarrow> string" where
  "text_step acc b = (case b of
      TextBlock s \<Rightarrow> acc @ s
    | ImageBlock d m \<Rightarrow> acc @ (if acc \<noteq> [] \<and> last acc \<noteq> newline then [newline] else []) @ ''[image]'' @ [newline]
    | DocumentBlock \<Rightarrow> acc)"

definition content_text :: "content \<Rightarrow> string" where
  "content_text c = (case c of
      PlainText s \<Rightarrow> s
    | Blocks bs \<Rightarrow> let t = foldl text_step [] bs in if t \<noteq> [] \<and> last t = newline then butlast t else t)"

definition titled :: "string \<Rightarrow> string \<Rightarrow> string list" where
  "titled header body = (if body = [] then [] else [header @ body])"

definition message_sections :: "('v \<Rightarrow> string) \<Rightarrow> 'v message \<Rightarrow> string list" where
  "message_sections stringify m = (case m of
      UserMessage c \<Rightarrow> titled ''[User]: '' (content_text c)
    | AssistantMessage bs \<Rightarrow>
        titled ''[Assistant thinking]: '' (join_with [newline] (block_thinking bs)) @
        titled ''[Assistant]: '' (join_with [newline] (block_texts bs)) @
        titled ''[Assistant tool calls]: '' (join_with ''; '' (block_calls stringify bs))
    | ToolResultMessage c \<Rightarrow> titled ''[Tool result]: '' (truncateToolResult (content_text c)))"

definition text_chunks :: "string \<Rightarrow> chunk list" where
  "text_chunks t = (if t = [] then [] else [TextChunk t])"

lemma appendText_chunks [simp]: "appendText (text_chunks t) s = text_chunks (t @ s)"
  by (simp add: appendText_def text_chunks_def lastChunk_def)

lemma serialize_block_chunks: "serialize_block Compacted (text_chunks t) b = text_chunks (text_step t b)"
proof (cases b)
  case (ImageBlock d m)
  have "(case lastChunk (text_chunks t) of Some (TextChunk t) \<Rightarrow> \<not> ends_with_newline t | _ \<Rightarrow> False) \<longleftrightarrow> t \<noteq> [] \<and> last t \<noteq> newline"
    by (simp add: text_chunks_def lastChunk_def ends_with_newline_def)
  then show ?thesis using ImageBlock by (simp add: text_step_def)
qed (simp_all add: text_step_def)

lemma serialize_blocks_chunks: "foldl (serialize_block Compacted) (text_chunks t) bs = text_chunks (foldl text_step t bs)"
  by (induction bs arbitrary: t) (simp_all add: serialize_block_chunks)

text \<open>The chunks of a content hold its text; a trailing newline that was the whole text leaves an empty chunk.\<close>

lemma content_chunks:
  "serializeContentBlocks c Compacted = text_chunks (content_text c) \<or>
   (serializeContentBlocks c Compacted = [TextChunk []] \<and> content_text c = [])"
proof (cases c)
  case (PlainText s)
  then show ?thesis by (simp add: serializeContentBlocks_def content_text_def text_chunks_def)
next
  case (Blocks bs)
  have "foldl (serialize_block Compacted) [] bs = text_chunks (foldl text_step [] bs)"
    using serialize_blocks_chunks [of "[]" bs] by (simp add: text_chunks_def)
  then show ?thesis using Blocks
    by (auto simp: serializeContentBlocks_def content_text_def text_chunks_def drop_trailing_newline_def lastChunk_def ends_with_newline_def Let_def)
qed

lemma pushSection_chunks:
  assumes "sec = text_chunks t \<or> sec = [TextChunk []] \<and> t = []" and "header \<noteq> []" and "list_all (\<lambda>s. s \<noteq> []) secs"
  shows "pushSection (text_chunks (join_with [newline, newline] secs)) header sec =
    text_chunks (join_with [newline, newline] (secs @ titled header t))"
proof -
  have snoc: "secs \<noteq> [] \<Longrightarrow> join_with sep (secs @ [x]) = join_with sep secs @ sep @ x" for sep x
    by (induction sep secs rule: join_with.induct) auto
  have empty: "join_with sep secs = [] \<longleftrightarrow> secs = []" for sep
    using assms(3) by (induction sep secs rule: join_with.induct) auto
  show ?thesis using assms(1,2) snoc empty
    by (cases "secs = []") (auto simp: pushSection_def hasContent_def titled_def push_chunk_def text_chunks_def
      appendText_def lastChunk_def)
qed

lemma titled_nonempty: "header \<noteq> [] \<Longrightarrow> list_all (\<lambda>s. s \<noteq> []) (titled header t)"
  by (simp add: titled_def)

lemma serialize_message_chunks:
  assumes "list_all (\<lambda>s. s \<noteq> []) secs"
  shows "serialize_message stringify Compacted (text_chunks (join_with [newline, newline] secs)) m =
    text_chunks (join_with [newline, newline] (secs @ message_sections stringify m)) \<and> list_all (\<lambda>s. s \<noteq> []) (message_sections stringify m)"
proof (cases m)
  case (UserMessage c)
  then show ?thesis using pushSection_chunks [OF content_chunks [of c] _ assms]
    by (simp add: serialize_message_def message_sections_def titled_nonempty)
next
  case (AssistantMessage bs)
  have opt: "(if length xs > 0 then pushSection (text_chunks (join_with [newline, newline] secs)) header [TextChunk (join_with sep xs)]
      else text_chunks (join_with [newline, newline] secs)) =
      text_chunks (join_with [newline, newline] (secs @ titled header (join_with sep xs)))"
    if "list_all (\<lambda>s. s \<noteq> []) secs" "header \<noteq> []" for xs :: "string list" and header sep and secs :: "string list"
    using that pushSection_chunks [of "[TextChunk (join_with sep xs)]" "join_with sep xs" header secs]
    by (cases xs) (auto simp: titled_def text_chunks_def)
  have ne: "list_all (\<lambda>s. s \<noteq> []) (xs @ titled (c # h) t)" if "list_all (\<lambda>s. s \<noteq> []) xs" for xs :: "string list" and c h t
    using that by (simp add: titled_nonempty)
  have "list_all (\<lambda>s. s \<noteq> []) (message_sections stringify m)" using AssistantMessage by (simp add: message_sections_def titled_nonempty)
  then show ?thesis unfolding AssistantMessage
    by (simp only: serialize_message_def message_sections_def message.case Let_def opt [OF assms list.distinct(2)]
      opt [OF ne [OF assms] list.distinct(2)] opt [OF ne [OF ne [OF assms]] list.distinct(2)])
      (simp only: append_assoc simp_thms)
next
  case (ToolResultMessage c)
  have "map truncate_chunk (serializeContentBlocks c Compacted) = text_chunks (truncateToolResult (content_text c)) \<or>
      map truncate_chunk (serializeContentBlocks c Compacted) = [TextChunk []] \<and> truncateToolResult (content_text c) = []"
    using content_chunks [of c] by (auto simp: truncate_chunk_def text_chunks_def truncateToolResult_def)
  then show ?thesis using ToolResultMessage pushSection_chunks [OF _ _ assms]
    by (simp add: serialize_message_def message_sections_def titled_nonempty Let_def)
qed

text \<open>
  The serialised conversation is the plain join of its sections: one per non-empty user text, thinking, text, tool
  calls and (truncated) tool result of each message, in order, under its header, separated by one blank line; images
  stand as markers on lines of their own.
\<close>
theorem serialize_sections:
  "serializeConversationForCompaction stringify messages =
     join_with [newline, newline] (concat (map (message_sections stringify) messages))"
proof -
  have "foldl (serialize_message stringify Compacted) (text_chunks (join_with [newline, newline] secs)) messages =
      text_chunks (join_with [newline, newline] (secs @ concat (map (message_sections stringify) messages)))"
    if "list_all (\<lambda>s. s \<noteq> []) secs" for secs
    using that
  proof (induction messages arbitrary: secs)
    case Nil
    then show ?case by simp
  next
    case (Cons m ms)
    note m = serialize_message_chunks [OF Cons.prems, of stringify m]
    show ?case using m Cons.IH [of "secs @ message_sections stringify m"] Cons.prems by simp
  qed
  from this [of "[]"] show ?thesis
    by (simp add: serializeConversationForCompaction_def serializeTranscriptChunks_def text_chunks_def)
qed

end
