(* ===== verification/Truncation.thy ===== *)
theory Truncation
  imports Js_Text
begin

text \<open>
  Truncation of tool output (\<^verbatim>\<open>packages/coding-agent/src/core/tools/truncate.ts\<close>): whole lines from the head or the
  tail under a line limit and a byte limit, the middle cut out under a byte limit, and cuts by code units that keep
  surrogate pairs together. Text is UTF-16, byte counts are those of its UTF-8 encoding. Limits are natural numbers,
  as every caller passes them.
\<close>

section \<open>Data\<close>

datatype limit_hit = HitLines | HitBytes

record truncation_result =
  tr_content :: js_text
  tr_truncated :: bool
  tr_by :: "limit_hit option"
  tr_totalLines :: nat
  tr_totalBytes :: nat
  tr_outputLines :: nat
  tr_outputBytes :: nat
  tr_lastLinePartial :: bool
  tr_firstLineExceeds :: bool
  tr_maxLines :: nat
  tr_maxBytes :: nat

record truncation_options =
  op_maxLines :: "nat option"
  op_maxBytes :: "nat option"

definition DEFAULT_MAX_LINES :: nat where
  "DEFAULT_MAX_LINES = 3000"

definition DEFAULT_MAX_BYTES :: nat where
  "DEFAULT_MAX_BYTES = 50 * 1024"

definition GREP_MAX_LINE_LENGTH :: nat where
  "GREP_MAX_LINE_LENGTH = 512"

definition ascii :: "string \<Rightarrow> js_text" where
  "ascii s = map (\<lambda>c. of_nat (of_char c)) s"

definition splitLinesForCounting :: "js_text \<Rightarrow> js_text list" where
  "splitLinesForCounting content =
    (if length content = 0 then []
     else let lines = split_on newline_unit content in if last content = newline_unit then butlast lines else lines)"

text \<open>\<open>toFixed(1)\<close> of a number that is exact in binary: the nearest tenth, ties upwards.\<close>

definition fixed_tenths :: "nat \<Rightarrow> nat \<Rightarrow> string" where
  "fixed_tenths n d = (let t = (20 * n + d) div (2 * d) in nat_dec (t div 10) @ ''.'' @ nat_dec (t mod 10))"

definition formatSize :: "nat \<Rightarrow> string" where
  "formatSize bytes =
    (if bytes < 1024 then nat_dec bytes @ ''B''
     else if bytes < 1024 * 1024 then fixed_tenths bytes 1024 @ ''KB''
     else fixed_tenths bytes (1024 * 1024) @ ''MB'')"

definition untruncated :: "js_text \<Rightarrow> nat \<Rightarrow> nat \<Rightarrow> truncation_result" where
  "untruncated content maxLines maxBytes =
    \<lparr>tr_content = content, tr_truncated = False, tr_by = None,
     tr_totalLines = length (splitLinesForCounting content), tr_totalBytes = byteLength content,
     tr_outputLines = length (splitLinesForCounting content), tr_outputBytes = byteLength content,
     tr_lastLinePartial = False, tr_firstLineExceeds = False, tr_maxLines = maxLines, tr_maxBytes = maxBytes\<rparr>"

section \<open>From the head\<close>

fun head_loop :: "nat \<Rightarrow> nat \<Rightarrow> nat \<Rightarrow> js_text list \<Rightarrow> js_text list \<Rightarrow> nat \<Rightarrow> js_text list \<times> nat \<times> limit_hit" where
  "head_loop maxLines maxBytes i [] out count = (out, count, HitLines)"
| "head_loop maxLines maxBytes i (line # lines) out count =
    (if i < maxLines then
       let lineBytes = byteLength line + (if i > 0 then 1 else 0) in
       if count + lineBytes > maxBytes then (out, count, HitBytes)
       else head_loop maxLines maxBytes (Suc i) lines (out @ [line]) (count + lineBytes)
     else (out, count, HitLines))"

definition truncateHead :: "js_text \<Rightarrow> truncation_options \<Rightarrow> truncation_result" where
  "truncateHead content options =
    (let maxLines = or_else (op_maxLines options) DEFAULT_MAX_LINES;
         maxBytes = or_else (op_maxBytes options) DEFAULT_MAX_BYTES;
         totalBytes = byteLength content;
         lines = splitLinesForCounting content;
         totalLines = length lines
     in if totalLines \<le> maxLines \<and> totalBytes \<le> maxBytes then untruncated content maxLines maxBytes
        else if byteLength (lines ! 0) > maxBytes then
          \<lparr>tr_content = [], tr_truncated = True, tr_by = Some HitBytes, tr_totalLines = totalLines, tr_totalBytes = totalBytes,
           tr_outputLines = 0, tr_outputBytes = 0, tr_lastLinePartial = False, tr_firstLineExceeds = True,
           tr_maxLines = maxLines, tr_maxBytes = maxBytes\<rparr>
        else
          case head_loop maxLines maxBytes 0 lines [] 0 of (out, count, hit) \<Rightarrow>
            let hit = (if length out \<ge> maxLines \<and> count \<le> maxBytes then HitLines else hit);
                outputContent = join_on newline_unit out
            in \<lparr>tr_content = outputContent, tr_truncated = True, tr_by = Some hit, tr_totalLines = totalLines, tr_totalBytes = totalBytes,
                tr_outputLines = length out, tr_outputBytes = byteLength outputContent, tr_lastLinePartial = False,
                tr_firstLineExceeds = False, tr_maxLines = maxLines, tr_maxBytes = maxBytes\<rparr>)"

section \<open>From the tail\<close>

function skip_continuation :: "nat list \<Rightarrow> nat \<Rightarrow> nat" where
  "skip_continuation buf start =
    (if start < length buf \<and> continuation_byte (buf ! start) then skip_continuation buf (Suc start) else start)"
  by pat_completeness auto
termination
  by (relation "measure (\<lambda>(buf, start). length buf - start)") auto

declare skip_continuation.simps [simp del]

definition truncateStringToBytesFromEnd :: "js_text \<Rightarrow> nat \<Rightarrow> js_text" where
  "truncateStringToBytesFromEnd str maxBytes =
    (let buf = utf8_bytes str in
     if length buf \<le> maxBytes then str
     else decode_utf8 (drop (skip_continuation buf (length buf - maxBytes)) buf))"

text \<open>The loop walks the lines backwards, here given in reverse order.\<close>

fun tail_loop :: "nat \<Rightarrow> nat \<Rightarrow> js_text list \<Rightarrow> js_text list \<Rightarrow> nat \<Rightarrow> js_text list \<times> nat \<times> limit_hit \<times> bool" where
  "tail_loop maxLines maxBytes [] out count = (out, count, HitLines, False)"
| "tail_loop maxLines maxBytes (line # earlier) out count =
    (if length out < maxLines then
       let lineBytes = byteLength line + (if length out > 0 then 1 else 0) in
       if count + lineBytes > maxBytes then
         if length out = 0
         then let truncatedLine = truncateStringToBytesFromEnd line maxBytes
              in ([truncatedLine], byteLength truncatedLine, HitBytes, True)
         else (out, count, HitBytes, False)
       else tail_loop maxLines maxBytes earlier (line # out) (count + lineBytes)
     else (out, count, HitLines, False))"

definition truncateTail :: "js_text \<Rightarrow> truncation_options \<Rightarrow> truncation_result" where
  "truncateTail content options =
    (let maxLines = or_else (op_maxLines options) DEFAULT_MAX_LINES;
         maxBytes = or_else (op_maxBytes options) DEFAULT_MAX_BYTES;
         totalBytes = byteLength content;
         lines = splitLinesForCounting content;
         totalLines = length lines
     in if totalLines \<le> maxLines \<and> totalBytes \<le> maxBytes then untruncated content maxLines maxBytes
        else
          case tail_loop maxLines maxBytes (rev lines) [] 0 of (out, count, hit, partial) \<Rightarrow>
            let hit = (if length out \<ge> maxLines \<and> count \<le> maxBytes then HitLines else hit);
                outputContent = join_on newline_unit out
            in \<lparr>tr_content = outputContent, tr_truncated = True, tr_by = Some hit, tr_totalLines = totalLines, tr_totalBytes = totalBytes,
                tr_outputLines = length out, tr_outputBytes = byteLength outputContent, tr_lastLinePartial = partial,
                tr_firstLineExceeds = False, tr_maxLines = maxLines, tr_maxBytes = maxBytes\<rparr>)"

section \<open>By code units\<close>

text \<open>\<open>charCodeAt\<close> out of range is NaN, which is no surrogate.\<close>

definition high_at :: "js_text \<Rightarrow> int \<Rightarrow> bool" where
  "high_at t i = (0 \<le> i \<and> i < int (length t) \<and> high_surrogate (t ! nat i))"

definition low_at :: "js_text \<Rightarrow> int \<Rightarrow> bool" where
  "low_at t i = (0 \<le> i \<and> i < int (length t) \<and> low_surrogate (t ! nat i))"

definition sliceHead :: "js_text \<Rightarrow> int \<Rightarrow> js_text" where
  "sliceHead t maxUnits =
    (let stop = max 0 maxUnits in
     if high_at t (stop - 1) \<and> low_at t stop then take (nat (stop - 1)) t else take (nat stop) t)"

definition sliceTail :: "js_text \<Rightarrow> int \<Rightarrow> js_text" where
  "sliceTail t maxUnits =
    (if maxUnits \<le> 0 then []
     else
       let start = max 0 (int (length t) - maxUnits) in
       if low_at t start \<and> high_at t (start - 1) then drop (nat (start + 1)) t else drop (nat start) t)"

definition truncateLine :: "js_text \<Rightarrow> int option \<Rightarrow> js_text \<times> bool" where
  "truncateLine line maxChars =
    (let maxChars = or_else maxChars (int GREP_MAX_LINE_LENGTH) in
     if int (length line) \<le> maxChars then (line, False)
     else (sliceHead line maxChars @ ascii ''... [truncated]'', True))"

section \<open>In the middle\<close>

record middle_result =
  md_content :: js_text
  md_truncated :: bool
  md_removedChars :: nat
  md_totalBytes :: nat
  md_totalLines :: nat

definition is_boundary :: "nat list \<Rightarrow> nat \<Rightarrow> bool" where
  "is_boundary buf index = (index \<ge> length buf \<or> \<not> continuation_byte (buf ! index))"

fun back_to_boundary :: "nat list \<Rightarrow> nat \<Rightarrow> nat" where
  "back_to_boundary buf 0 = 0"
| "back_to_boundary buf (Suc n) = (if \<not> is_boundary buf (Suc n) then back_to_boundary buf n else Suc n)"

definition ellipsis :: "16 word" where
  "ellipsis = 0x2026"

definition truncateMiddle :: "js_text \<Rightarrow> nat \<Rightarrow> middle_result" where
  "truncateMiddle content maxBytes =
    (let buf = utf8_bytes content;
         totalLines = length (splitLinesForCounting content)
     in if length buf \<le> maxBytes then
          \<lparr>md_content = content, md_truncated = False, md_removedChars = 0, md_totalBytes = length buf, md_totalLines = totalLines\<rparr>
        else
          let headEnd = back_to_boundary buf (maxBytes div 2);
              tailStart = skip_continuation buf (length buf - (maxBytes - maxBytes div 2));
              head = decode_utf8 (take headEnd buf);
              tail = decode_utf8 (drop tailStart buf);
              removedChars = length (code_points (decode_utf8 (take (tailStart - headEnd) (drop headEnd buf))))
          in \<lparr>md_content = head @ [ellipsis] @ ascii (nat_dec removedChars) @ ascii '' chars truncated'' @ [ellipsis] @ tail,
              md_truncated = True, md_removedChars = removedChars, md_totalBytes = length buf, md_totalLines = totalLines\<rparr>)"

section \<open>The loops\<close>

lemma head_loop_effect:
  assumes "i = length out" and "count = joined_bytes out" and "count \<le> maxBytes" and "i \<le> maxLines"
    and "head_loop maxLines maxBytes i lines out count = (out', count', hit)"
  shows "\<exists>n \<le> length lines. out' = out @ take n lines \<and> count' = joined_bytes out' \<and> count' \<le> maxBytes \<and> length out' \<le> maxLines \<and>
    (if hit = HitLines then n = length lines \<or> length out' = maxLines
     else n < length lines \<and> length out' < maxLines \<and> maxBytes < joined_bytes (out' @ [lines ! n]))"
  using assms
proof (induction maxLines maxBytes i lines out count rule: head_loop.induct)
  case (1 maxLines maxBytes i out count)
  then show ?case by auto
next
  case (2 maxLines maxBytes i line lines out count)
  let ?b = "byteLength line + (if i > 0 then 1 else 0)"
  have join: "joined_bytes (out @ [line]) = count + ?b" using "2.prems"(1,2) by (auto simp: joined_bytes_snoc)
  show ?case
  proof (cases "i < maxLines \<and> count + ?b \<le> maxBytes")
    case True
    then have "head_loop maxLines maxBytes (Suc i) lines (out @ [line]) (count + ?b) = (out', count', hit)"
      using "2.prems"(5) by (auto simp: Let_def)
    with "2.IH" [of ?b] True "2.prems"(1) join obtain n where n: "n \<le> length lines" "out' = (out @ [line]) @ take n lines"
      "count' = joined_bytes out'" "count' \<le> maxBytes" "length out' \<le> maxLines"
      "if hit = HitLines then n = length lines \<or> length out' = maxLines
       else n < length lines \<and> length out' < maxLines \<and> maxBytes < joined_bytes (out' @ [lines ! n])"
      by auto
    then show ?thesis by (intro exI [of _ "Suc n"]) (auto split: if_splits)
  next
    case False
    then show ?thesis using "2.prems" join by (intro exI [of _ 0]) (auto simp: Let_def split: if_splits)
  qed
qed

lemma tail_loop_effect:
  assumes "count = joined_bytes out" and "count \<le> maxBytes" and "length out \<le> maxLines"
    and "tail_loop maxLines maxBytes earlier out count = (out', count', hit, partial)" and "out \<noteq> [] \<or> \<not> partial"
  shows "\<not> partial \<and> (\<exists>n \<le> length earlier. out' = rev (take n earlier) @ out \<and> count' = joined_bytes out' \<and> count' \<le> maxBytes \<and> length out' \<le> maxLines \<and>
    (if hit = HitLines then n = length earlier \<or> length out' = maxLines
     else n < length earlier \<and> length out' < maxLines \<and> maxBytes < joined_bytes (earlier ! n # out')))"
  using assms
proof (induction maxLines maxBytes earlier out count rule: tail_loop.induct)
  case (1 maxLines maxBytes out count)
  then show ?case by auto
next
  case (2 maxLines maxBytes line earlier out count)
  let ?b = "byteLength line + (if length out > 0 then 1 else 0)"
  have join: "joined_bytes (line # out) = count + ?b" using "2.prems"(1) by (auto simp: joined_bytes_Cons)
  show ?case
  proof (cases "length out < maxLines \<and> count + ?b \<le> maxBytes")
    case True
    then have "tail_loop maxLines maxBytes earlier (line # out) (count + ?b) = (out', count', hit, partial)"
      using "2.prems"(4) by (auto simp: Let_def)
    with "2.IH" [of ?b] True join have IH: "\<not> partial \<and> (\<exists>n \<le> length earlier. out' = rev (take n earlier) @ line # out \<and>
        count' = joined_bytes out' \<and> count' \<le> maxBytes \<and> length out' \<le> maxLines \<and>
        (if hit = HitLines then n = length earlier \<or> length out' = maxLines
         else n < length earlier \<and> length out' < maxLines \<and> maxBytes < joined_bytes (earlier ! n # out')))"
      by auto
    then obtain n where n: "n \<le> length earlier" "out' = rev (take n earlier) @ line # out"
      "count' = joined_bytes out'" "count' \<le> maxBytes" "length out' \<le> maxLines"
      "if hit = HitLines then n = length earlier \<or> length out' = maxLines
       else n < length earlier \<and> length out' < maxLines \<and> maxBytes < joined_bytes (earlier ! n # out')"
      by blast
    then show ?thesis using conjunct1 [OF IH] by (intro conjI exI [of _ "Suc n"]) (auto split: if_splits)
  next
    case False
    then show ?thesis using "2.prems" join by (auto simp: Let_def intro!: exI [of _ 0] split: if_splits)
  qed
qed

lemma tail_loop_partial:
  assumes "tail_loop maxLines maxBytes lines [] 0 = (out, count, hit, True)"
  shows "\<exists>line earlier. lines = line # earlier \<and> maxLines > 0 \<and> byteLength line > maxBytes \<and> hit = HitBytes \<and>
    out = [truncateStringToBytesFromEnd line maxBytes]"
proof (cases lines)
  case Nil
  then show ?thesis using assms by simp
next
  case (Cons line earlier)
  show ?thesis
  proof (cases "maxLines > 0 \<and> byteLength line \<le> maxBytes")
    case True
    then have "tail_loop maxLines maxBytes earlier [line] (byteLength line) = (out, count, hit, True)"
      using assms Cons by (auto simp: Let_def)
    then show ?thesis using tail_loop_effect [of "byteLength line" "[line]" maxBytes maxLines earlier out count hit True] True by auto
  next
    case False
    then show ?thesis using assms Cons by (auto simp: Let_def split: if_splits)
  qed
qed

section \<open>Cuts at character boundaries\<close>

lemma skip_continuation_effect:
  "start \<le> length buf \<Longrightarrow> start \<le> skip_continuation buf start \<and> skip_continuation buf start \<le> length buf \<and> is_boundary buf (skip_continuation buf start)"
proof (induction buf start rule: skip_continuation.induct)
  case (1 buf start)
  then show ?case by (subst (1 2 3) skip_continuation.simps) (auto simp: is_boundary_def Suc_le_eq)
qed

lemma back_to_boundary_effect:
  "back_to_boundary buf n \<le> n \<and> (back_to_boundary buf n = 0 \<or> is_boundary buf (back_to_boundary buf n))"
  by (induction buf n rule: back_to_boundary.induct) auto

lemma boundary_points:
  assumes "is_boundary (utf8_bytes t) k" and "k \<le> byteLength t"
  shows "\<exists>as bs. code_points t = as @ bs \<and> k = length (encode_points as)"
  using assms by (intro encode_prefix_boundary) (auto simp: is_boundary_def utf8_bytes_points byteLength_def dest: code_points_bound)

lemma decode_scalars:
  assumes "set cs \<subseteq> set (code_points t)"
  shows "decode_utf8 (encode_points cs) = points_text (map to_scalar cs)" "list_all scalar_point (map to_scalar cs)"
proof -
  show s: "list_all scalar_point (map to_scalar cs)"
    using assms code_points_bound to_scalar_scalar by (auto simp: list_all_iff)
  show "decode_utf8 (encode_points cs) = points_text (map to_scalar cs)" using decode_encode [OF s] by (simp add: encode_scalars)
qed

lemma truncate_end_effect:
  assumes "byteLength t > maxBytes"
  shows "\<exists>as bs. code_points t = as @ bs \<and> truncateStringToBytesFromEnd t maxBytes = points_text (map to_scalar bs) \<and>
    byteLength (truncateStringToBytesFromEnd t maxBytes) \<le> maxBytes"
proof -
  let ?buf = "utf8_bytes t"
  let ?k = "skip_continuation ?buf (length ?buf - maxBytes)"
  have k: "length ?buf - maxBytes \<le> ?k" "?k \<le> byteLength t" "is_boundary ?buf ?k"
    using skip_continuation_effect [of "length ?buf - maxBytes" ?buf] by (auto simp: byteLength_def)
  then obtain as bs where ab: "code_points t = as @ bs" "?k = length (encode_points as)" using boundary_points by blast
  then have "drop ?k ?buf = encode_points bs" by (simp add: utf8_bytes_points)
  moreover have "length ?buf = length (encode_points as) + length (encode_points bs)" using ab(1) by (simp add: utf8_bytes_points)
  moreover have "set bs \<subseteq> set (code_points t)" using ab by auto
  ultimately show ?thesis using assms ab k(1) decode_scalars [of bs t] byteLength_points [of "map to_scalar bs"]
    by (intro exI [of _ as] exI [of _ bs]) (auto simp: truncateStringToBytesFromEnd_def byteLength_def encode_scalars Let_def)
qed

lemma utf8_point_nonempty: "utf8_point c \<noteq> []"
  by (simp add: utf8_point_def Let_def)

lemma encode_points_empty: "encode_points cs = [] \<longleftrightarrow> cs = []"
  by (cases cs) (simp_all add: utf8_point_nonempty)

lemma nested_prefixes:
  assumes "as @ bs = as' @ bs'" and "length (encode_points as) \<le> length (encode_points as')"
  shows "\<exists>mid. as' = as @ mid"
proof -
  obtain us where "as = as' @ us \<or> as @ us = as'" using assms(1) by (auto simp: append_eq_append_conv2)
  then show ?thesis using assms(2) by (auto simp: encode_points_empty)
qed

lemma well_formed_scalars: "well_formed t \<Longrightarrow> set cs \<subseteq> set (code_points t) \<Longrightarrow> map to_scalar cs = cs"
  by (auto simp: well_formed_def list_ex_iff to_scalar_def intro!: map_idI)

section \<open>Lines\<close>

text \<open>The counted lines joined again are the text, up to the final newline that is not counted as a line.\<close>

lemma counted_lines:
  assumes "content \<noteq> []"
  shows "splitLinesForCounting content \<noteq> []"
    "content = join_on newline_unit (splitLinesForCounting content) @ (if last content = newline_unit then [newline_unit] else [])"
proof -
  have "splitLinesForCounting content \<noteq> [] \<and>
    content = join_on newline_unit (splitLinesForCounting content) @ (if last content = newline_unit then [newline_unit] else [])"
  proof (cases "last content = newline_unit")
    case True
    then obtain t where t: "content = t @ [newline_unit]" using assms by (metis append_butlast_last_id)
    then have "splitLinesForCounting content = split_on newline_unit t" by (simp add: splitLinesForCounting_def split_on_snoc)
    then show ?thesis using t by (simp add: join_split_on)
  next
    case False
    then show ?thesis using assms by (simp add: splitLinesForCounting_def join_split_on)
  qed
  then show "splitLinesForCounting content \<noteq> []"
    "content = join_on newline_unit (splitLinesForCounting content) @ (if last content = newline_unit then [newline_unit] else [])" by blast+
qed

abbreviation limits :: "nat \<Rightarrow> nat \<Rightarrow> truncation_options" where
  "limits maxLines maxBytes \<equiv> \<lparr>op_maxLines = Some maxLines, op_maxBytes = Some maxBytes\<rparr>"

section \<open>Theorems\<close>

text \<open>
  C35. Truncation from the head obeys both limits and is greedy: the output is the text itself when both limits hold,
  and otherwise its first lines, whole, joined again; it never exceeds either limit, reports its own size, and stops
  only at the line limit, at the end, or where the next line would not fit.
\<close>
theorem truncate_head_bounds:
  "let r = truncateHead content (limits maxLines maxBytes); lines = splitLinesForCounting content; n = tr_outputLines r in
   tr_outputBytes r = byteLength (tr_content r) \<and> tr_outputBytes r \<le> maxBytes \<and> n \<le> min maxLines (length lines) \<and>
   tr_truncated r = (maxLines < length lines \<or> maxBytes < byteLength content) \<and>
   tr_content r = (if tr_truncated r then join_on newline_unit (take n lines) else content) \<and>
   (n = min maxLines (length lines) \<or> maxBytes < byteLength (join_on newline_unit (take (Suc n) lines)))"
proof -
  let ?lines = "splitLinesForCounting content"
  show ?thesis
  proof (cases "length ?lines \<le> maxLines \<and> byteLength content \<le> maxBytes")
    case True
    then show ?thesis by (simp add: truncateHead_def untruncated_def or_else_def Let_def)
  next
    case False
    then have "content \<noteq> []" by (auto simp: splitLinesForCounting_def)
    then have ne: "?lines \<noteq> []" by (rule counted_lines(1))
    then have one: "take (Suc 0) ?lines = [?lines ! 0]" by (cases ?lines) auto
    show ?thesis
    proof (cases "byteLength (?lines ! 0) > maxBytes")
      case True
      then show ?thesis using False one by (auto simp: truncateHead_def or_else_def Let_def)
    next
      case fits: False
      obtain out count hit where h: "head_loop maxLines maxBytes 0 ?lines [] 0 = (out, count, hit)" by (cases "head_loop maxLines maxBytes 0 ?lines [] 0")
      obtain n where n: "n \<le> length ?lines" "out = take n ?lines" "joined_bytes out \<le> maxBytes" "length out \<le> maxLines"
        "if hit = HitLines then n = length ?lines \<or> length out = maxLines
         else n < length ?lines \<and> length out < maxLines \<and> maxBytes < joined_bytes (out @ [?lines ! n])"
        using head_loop_effect [OF _ _ _ _ h] by auto
      have r: "truncateHead content (limits maxLines maxBytes) =
          \<lparr>tr_content = join_on newline_unit out, tr_truncated = True,
           tr_by = Some (if length out \<ge> maxLines \<and> count \<le> maxBytes then HitLines else hit),
           tr_totalLines = length ?lines, tr_totalBytes = byteLength content, tr_outputLines = length out,
           tr_outputBytes = byteLength (join_on newline_unit out), tr_lastLinePartial = False, tr_firstLineExceeds = False,
           tr_maxLines = maxLines, tr_maxBytes = maxBytes\<rparr>"
        using False fits h by (auto simp: truncateHead_def or_else_def Let_def)
      have len: "length out = n" using n(1,2) by simp
      have "maxBytes < joined_bytes (take (Suc n) ?lines)" if "n < min maxLines (length ?lines)"
        using that n(2,5) len by (auto simp: take_Suc_conv_app_nth split: if_splits)
      then have full: "n = min maxLines (length ?lines) \<or> maxBytes < joined_bytes (take (Suc n) ?lines)"
        using n(1,4) len by (metis le_neq_implies_less min.boundedI)
      show ?thesis unfolding r Let_def using n len False full by (auto simp: byteLength_join)
    qed
  qed
qed

text \<open>
  Truncation from the tail obeys both limits and is greedy from the end; when not even the last line fits, the
  output is the end of that line, cut at a character boundary and within the byte limit.
\<close>
theorem truncate_tail_bounds:
  "let r = truncateTail content (limits maxLines maxBytes); lines = splitLinesForCounting content; n = tr_outputLines r; skip = length lines - n in
   tr_outputBytes r = byteLength (tr_content r) \<and> tr_outputBytes r \<le> maxBytes \<and> n \<le> min maxLines (length lines) \<and>
   tr_truncated r = (maxLines < length lines \<or> maxBytes < byteLength content) \<and>
   (if tr_lastLinePartial r
    then n = 1 \<and> maxBytes < byteLength (last lines) \<and>
      (\<exists>as bs. code_points (last lines) = as @ bs \<and> tr_content r = points_text (map to_scalar bs))
    else tr_content r = (if tr_truncated r then join_on newline_unit (drop skip lines) else content) \<and>
      (n = min maxLines (length lines) \<or> maxBytes < byteLength (join_on newline_unit (drop (skip - 1) lines))))"
proof -
  let ?lines = "splitLinesForCounting content"
  show ?thesis
  proof (cases "length ?lines \<le> maxLines \<and> byteLength content \<le> maxBytes")
    case True
    then show ?thesis by (simp add: truncateTail_def untruncated_def or_else_def Let_def)
  next
    case False
    obtain out count hit partial where h: "tail_loop maxLines maxBytes (rev ?lines) [] 0 = (out, count, hit, partial)"
      by (cases "tail_loop maxLines maxBytes (rev ?lines) [] 0")
    have r: "truncateTail content (limits maxLines maxBytes) =
        \<lparr>tr_content = join_on newline_unit out, tr_truncated = True,
         tr_by = Some (if length out \<ge> maxLines \<and> count \<le> maxBytes then HitLines else hit),
         tr_totalLines = length ?lines, tr_totalBytes = byteLength content, tr_outputLines = length out,
         tr_outputBytes = byteLength (join_on newline_unit out), tr_lastLinePartial = partial, tr_firstLineExceeds = False,
         tr_maxLines = maxLines, tr_maxBytes = maxBytes\<rparr>"
      using False h by (auto simp: truncateTail_def or_else_def Let_def)
    show ?thesis
    proof (cases partial)
      case True
      then have "tail_loop maxLines maxBytes (rev ?lines) [] 0 = (out, count, hit, True)" using h by simp
      from tail_loop_partial [OF this] obtain line earlier where l: "rev ?lines = line # earlier" "maxLines > 0" "byteLength line > maxBytes"
        "out = [truncateStringToBytesFromEnd line maxBytes]"
        by blast
      have "last ?lines = line" "?lines \<noteq> []" using l(1) by (metis last_rev list.sel(1) rev_rev_ident, auto)
      then show ?thesis unfolding r using l truncate_end_effect [OF l(3)] True False by (auto simp: Suc_le_eq)
    next
      case whole: False
      obtain n where n: "n \<le> length ?lines" "out = rev (take n (rev ?lines))" "joined_bytes out \<le> maxBytes" "length out \<le> maxLines"
        "if hit = HitLines then n = length ?lines \<or> length out = maxLines
         else n < length ?lines \<and> length out < maxLines \<and> maxBytes < joined_bytes (rev ?lines ! n # out)"
        using tail_loop_effect [of 0 "[]" maxBytes maxLines "rev ?lines" out count hit partial, OF _ _ _ h] whole
        unfolding length_rev append_Nil2 by (metis joined_bytes.simps(1) le0 list.size(3))
      have out: "out = drop (length ?lines - n) ?lines" "length out = n" using n(1,2) by (simp_all add: take_rev)
      have "maxBytes < joined_bytes (drop (length ?lines - n - 1) ?lines)" if "n < min maxLines (length ?lines)"
      proof -
        have "drop (length ?lines - n - 1) ?lines = rev ?lines ! n # out"
          using that unfolding out by (subst Cons_nth_drop_Suc [symmetric]) (auto simp: rev_nth Suc_diff_Suc)
        then show ?thesis using that n(5) out(2) by (auto split: if_splits)
      qed
      then have full: "n = min maxLines (length ?lines) \<or> maxBytes < joined_bytes (drop (length ?lines - n - 1) ?lines)"
        using n(1,4) out(2) by (metis le_neq_implies_less min.boundedI)
      show ?thesis unfolding r Let_def using n out False whole full by (auto simp: byteLength_join)
    qed
  qed
qed

text \<open>
  Cutting out the middle keeps a prefix and a suffix of a well-formed text, no character split, together within the
  byte limit and the prefix within half of it, and reports exactly the number of characters removed.
\<close>
theorem truncate_middle:
  assumes "well_formed content" and "maxBytes < byteLength content"
  shows "\<exists>head mid tail. content = head @ mid @ tail \<and> code_points content = code_points head @ code_points mid @ code_points tail \<and>
    md_removedChars (truncateMiddle content maxBytes) = length (code_points mid) \<and>
    md_content (truncateMiddle content maxBytes) =
      head @ [ellipsis] @ ascii (nat_dec (length (code_points mid))) @ ascii '' chars truncated'' @ [ellipsis] @ tail \<and>
    byteLength head \<le> maxBytes div 2 \<and> byteLength head + byteLength tail \<le> maxBytes"
proof -
  let ?buf = "utf8_bytes content"
  let ?h = "back_to_boundary ?buf (maxBytes div 2)" and ?t = "skip_continuation ?buf (length ?buf - (maxBytes - maxBytes div 2))"
  have len: "maxBytes < length ?buf" using assms(2) by (simp add: byteLength_def)
  have t: "length ?buf - (maxBytes - maxBytes div 2) \<le> ?t" "?t \<le> byteLength content" "is_boundary ?buf ?t"
    using skip_continuation_effect [of "length ?buf - (maxBytes - maxBytes div 2)" ?buf] by (auto simp: byteLength_def)
  have h: "?h \<le> maxBytes div 2" "?h \<le> byteLength content" "?h \<le> ?t"
    using back_to_boundary_effect [of ?buf "maxBytes div 2"] len t(1) by (auto simp: byteLength_def)
  have "\<exists>as bs. code_points content = as @ bs \<and> ?h = length (encode_points as)"
  proof (cases "?h = 0")
    case True
    then show ?thesis by (intro exI [of _ "[]"] exI [of _ "code_points content"]) simp
  next
    case False
    then have "is_boundary ?buf ?h" using back_to_boundary_effect [of ?buf "maxBytes div 2"] by auto
    then show ?thesis by (rule boundary_points [OF _ h(2)])
  qed
  then obtain as bs where a: "code_points content = as @ bs" "?h = length (encode_points as)" by blast
  obtain as' cs where c: "code_points content = as' @ cs" "?t = length (encode_points as')" using boundary_points [OF t(3,2)] by blast
  then obtain mid where as': "as' = as @ mid" using nested_prefixes [of as bs as' cs] a h(3) by auto
  have points: "code_points content = as @ mid @ cs" using c as' by simp
  have buf: "?buf = encode_points as @ encode_points mid @ encode_points cs" by (simp add: utf8_bytes_points points)
  have same: "map to_scalar xs = xs" "list_all scalar_point xs" if "set xs \<subseteq> set (code_points content)" for xs
    using well_formed_scalars [OF assms(1) that] decode_scalars(2) [OF that] by auto
  have sub: "set as \<subseteq> set (code_points content)" "set mid \<subseteq> set (code_points content)" "set cs \<subseteq> set (code_points content)"
    using points by auto
  have dec: "decode_utf8 (encode_points xs) = points_text xs" "code_points (points_text xs) = xs" "byteLength (points_text xs) = length (encode_points xs)"
    if "set xs \<subseteq> set (code_points content)" for xs
    using decode_scalars(1) [OF that] same [OF that] by (auto simp: code_points_points_text byteLength_points)
  have cuts: "take ?h ?buf = encode_points as" "drop ?t ?buf = encode_points cs" "take (?t - ?h) (drop ?h ?buf) = encode_points mid"
    using buf a(2) c(2) as' by simp_all
  have "truncateMiddle content maxBytes = \<lparr>md_content = points_text as @ [ellipsis] @ ascii (nat_dec (length mid)) @
        ascii '' chars truncated'' @ [ellipsis] @ points_text cs,
      md_truncated = True, md_removedChars = length mid, md_totalBytes = length ?buf, md_totalLines = length (splitLinesForCounting content)\<rparr>"
    using len unfolding truncateMiddle_def Let_def cuts by (simp add: dec [OF sub(1)] dec [OF sub(2)] dec [OF sub(3)])
  moreover have "content = points_text as @ points_text mid @ points_text cs"
    using points_text_code_points [of content] points by simp
  moreover have "length (encode_points cs) \<le> maxBytes - maxBytes div 2" using t(1) c(2) buf as' len by simp
  ultimately show ?thesis using dec [OF sub(1)] dec [OF sub(2)] dec [OF sub(3)] points a(2) h(1)
    by (intro exI [of _ "points_text as"] exI [of _ "points_text mid"] exI [of _ "points_text cs"]) auto
qed

theorem truncate_middle_witness:
  "\<exists>head mid tail. ascii ''abcdefgh'' = head @ mid @ tail \<and>
    md_removedChars (truncateMiddle (ascii ''abcdefgh'') 4) = length (code_points mid) \<and>
    byteLength head \<le> 2 \<and> byteLength head + byteLength tail \<le> 4"
proof -
  note eval = ascii_def byteLength_def utf8_bytes_def utf8_point_def is_surrogate_point_def high_surrogate_def low_surrogate_def Let_def
  have w: "well_formed (ascii ''abcdefgh'')" by (simp add: well_formed_def eval)
  have b: "4 < byteLength (ascii ''abcdefgh'')" by (simp add: eval)
  show ?thesis using truncate_middle [OF w b] by auto
qed

text \<open>Slices by code units keep surrogate pairs together and are as long as that allows.\<close>

lemma sliceHead_pairs:
  "\<exists>rest. t = sliceHead t n @ rest \<and> code_points t = code_points (sliceHead t n) @ code_points rest \<and>
    int (length (sliceHead t n)) \<le> max 0 n \<and> min (int (length t)) (n - 1) \<le> int (length (sliceHead t n))"
proof -
  let ?k = "length (sliceHead t n)"
  have k: "sliceHead t n = take ?k t" by (auto simp: sliceHead_def Let_def min_def)
  have "int ?k \<le> max 0 n" "min (int (length t)) (n - 1) \<le> int ?k" by (auto simp: sliceHead_def Let_def)
  moreover have "drop ?k t = [] \<or> \<not> (take ?k t \<noteq> [] \<and> high_surrogate (last (take ?k t)) \<and> low_surrogate (hd (drop ?k t)))"
  proof (cases "high_at t (max 0 n - 1) \<and> low_at t (max 0 n)")
    case True
    then have kk: "?k = nat (n - 1)" "0 < n" "n < int (length t)" by (auto simp: sliceHead_def high_at_def low_at_def Let_def min_def split: if_splits)
    then have "hd (drop ?k t) = t ! nat (n - 1)" by (subst hd_drop_conv_nth) auto
    moreover have "high_surrogate (t ! nat (n - 1))" using True kk by (simp add: high_at_def max_def)
    ultimately have "\<not> low_surrogate (hd (drop ?k t))" by (auto simp: surrogate_units)
    then show ?thesis by blast
  next
    case False
    then have kk: "?k = min (length t) (nat n)" by (auto simp: sliceHead_def Let_def min_def)
    show ?thesis
    proof (cases "0 < n \<and> n < int (length t)")
      case True
      then have kn: "?k = nat n" using kk by auto
      have "last (take ?k t) = t ! nat (n - 1)" using True kn by (subst last_conv_nth) (auto simp: nat_diff_distrib min_def)
      moreover have "hd (drop ?k t) = t ! nat n" using True kn by (subst hd_drop_conv_nth) auto
      ultimately show ?thesis using False True by (auto simp: high_at_def low_at_def max_def)
    next
      case F: False
      then show ?thesis using kk by (cases "0 < n") auto
    qed
  qed
  then have "code_points (take ?k t @ drop ?k t) = code_points (take ?k t) @ code_points (drop ?k t)" by (rule code_points_cut)
  ultimately show ?thesis using append_take_drop_id [of ?k t] unfolding k [symmetric] by metis
qed

text \<open>
  The byte limit can be exceeded by the final newline alone; then every line is returned and the result names the line
  limit although it was not reached.
\<close>
lemma truncatedBy_misreports:
  "let r = truncateHead (ascii ''ab'' @ [newline_unit]) (limits 10 2) in
   tr_truncated r \<and> tr_by r = Some HitLines \<and> tr_totalLines r = 1 \<and> tr_outputLines r = 1 \<and> tr_totalBytes r = 3"
  by (simp add: truncateHead_def or_else_def splitLinesForCounting_def ascii_def newline_unit_def byteLength_def utf8_bytes_def
    utf8_point_def is_surrogate_point_def high_surrogate_def low_surrogate_def Let_def)

end
