(* ===== verification/Tool_Pairing.thy ===== *)
theory Tool_Pairing
  imports Prelude
begin

text \<open>
  Structural pairing of tool calls and results in provider-bound context
  (\<^verbatim>\<open>packages/coding-agent/src/core/context-tool-pairing.ts\<close>): the guard against a repeated assistant turn and the
  renaming of reused or empty call ids. A message carries the fields the code reads; the rest of it and of its blocks
  is payload of any type. Object identity is a reference number, and what \<open>JSON.stringify\<close> makes of a message is an
  argument.
\<close>

section \<open>Data\<close>

datatype 'b block = ToolCall string 'b | OtherBlock 'b

datatype message_role = Assistant | ToolResult | OtherRole

record ('b, 'p) agent_message =
  am_ref :: nat
  am_role :: message_role
  am_content :: "'b block list option"
  am_toolCallId :: "string option"
  am_responseId :: "string option"
  am_timestamp :: int
  am_excluded :: bool
  am_payload :: 'p

datatype pairing_error = StructurallyInvalid "string list"

definition block_id :: "'b block \<Rightarrow> string option" where
  "block_id b = (case b of ToolCall i p \<Rightarrow> Some i | OtherBlock p \<Rightarrow> None)"

definition block_ids :: "'b block list \<Rightarrow> string list" where
  "block_ids bs = List.map_filter block_id bs"

definition toolCallBlocks :: "('b, 'p) agent_message \<Rightarrow> string list" where
  "toolCallBlocks m = (case am_content m of None \<Rightarrow> [] | Some bs \<Rightarrow> block_ids bs)"

section \<open>The guard\<close>

definition responseId :: "('b, 'p) agent_message \<Rightarrow> string option" where
  "responseId m = (case am_responseId m of Some i \<Rightarrow> if i \<noteq> [] then Some i else None | None \<Rightarrow> None)"

definition isSameAssistantTurn ::
  "(('b, 'p) agent_message \<Rightarrow> string) \<Rightarrow> ('b, 'p) agent_message \<Rightarrow> ('b, 'p) agent_message \<Rightarrow> bool" where
  "isSameAssistantTurn stringify a b =
    (if am_ref a = am_ref b then True
     else case (responseId a, responseId b) of
       (Some i, Some j) \<Rightarrow> i = j
     | _ \<Rightarrow> am_timestamp a = am_timestamp b \<and> stringify a = stringify b)"

type_synonym ('b, 'p) announced = "(string, ('b, 'p) agent_message list) jmap \<times> string jset"

definition announce ::
  "(('b, 'p) agent_message \<Rightarrow> string) \<Rightarrow> ('b, 'p) agent_message \<Rightarrow> ('b, 'p) announced \<Rightarrow> string \<Rightarrow> ('b, 'p) announced" where
  "announce stringify m st i = (case st of (announcers, duplicates) \<Rightarrow>
     (case map_get announcers i of
        None \<Rightarrow> (map_set announcers i [m], duplicates)
      | Some previous \<Rightarrow>
          (map_set announcers i (previous @ [m]),
           if list_ex (\<lambda>earlier. isSameAssistantTurn stringify earlier m) previous then set_add duplicates i else duplicates)))"

definition announce_message ::
  "(('b, 'p) agent_message \<Rightarrow> string) \<Rightarrow> ('b, 'p) announced \<Rightarrow> ('b, 'p) agent_message \<Rightarrow> ('b, 'p) announced" where
  "announce_message stringify st m =
    (if am_role m \<noteq> Assistant \<or> am_excluded m then st
     else foldl (announce stringify m) st (set_add_all [] (toolCallBlocks m)))"

definition findDuplicateToolCallIds :: "(('b, 'p) agent_message \<Rightarrow> string) \<Rightarrow> ('b, 'p) agent_message list \<Rightarrow> string list" where
  "findDuplicateToolCallIds stringify messages = snd (foldl (announce_message stringify) ([], []) messages)"

definition assertToolPairingInvariant ::
  "(('b, 'p) agent_message \<Rightarrow> string) \<Rightarrow> ('b, 'p) agent_message list \<Rightarrow> pairing_error + unit" where
  "assertToolPairingInvariant stringify messages =
    (let duplicates = findDuplicateToolCallIds stringify messages
     in if length duplicates = 0 then Inr () else Inl (StructurallyInvalid duplicates))"

section \<open>Unique ids\<close>

definition id_base :: "string \<Rightarrow> nat \<Rightarrow> string" where
  "id_base original turn = (if original = [] then ''call'' else original) @ ''_'' @ nat_dec turn"

definition candidate :: "string \<Rightarrow> nat \<Rightarrow> string" where
  "candidate base attempt = (if attempt = 0 then base else base @ ''_'' @ nat_dec attempt)"

lemma candidate_inject: "candidate base i = candidate base j \<longleftrightarrow> i = j"
  by (auto simp: candidate_def nat_dec_inject)

lemma finite_taken: "finite {k. attempt \<le> k \<and> candidate base k \<in> set used}"
proof (rule finite_subset)
  show "{k. attempt \<le> k \<and> candidate base k \<in> set used} \<subseteq> candidate base -` set used" by auto
  show "finite (candidate base -` set used)" by (rule finite_vimageI) (auto simp: inj_def candidate_inject)
qed

function attempt_loop :: "string \<Rightarrow> string jset \<Rightarrow> nat \<Rightarrow> string" where
  "attempt_loop base used attempt =
    (if set_has used (candidate base attempt) then attempt_loop base used (Suc attempt) else candidate base attempt)"
  by pat_completeness auto
termination
proof (relation "measure (\<lambda>(base, used, attempt). card {k. attempt \<le> k \<and> candidate base k \<in> set used})")
  fix base used attempt
  assume "set_has used (candidate base attempt)"
  then have "attempt \<in> {k. attempt \<le> k \<and> candidate base k \<in> set used}" by (simp add: set_has_def)
  moreover have "attempt \<notin> {k. Suc attempt \<le> k \<and> candidate base k \<in> set used}" by simp
  moreover have "{k. Suc attempt \<le> k \<and> candidate base k \<in> set used} \<subseteq> {k. attempt \<le> k \<and> candidate base k \<in> set used}" by auto
  ultimately have "{k. Suc attempt \<le> k \<and> candidate base k \<in> set used} \<subset> {k. attempt \<le> k \<and> candidate base k \<in> set used}" by blast
  then show "((base, used, Suc attempt), base, used, attempt) \<in> measure (\<lambda>(base, used, attempt). card {k. attempt \<le> k \<and> candidate base k \<in> set used})"
    using finite_taken by (simp add: psubset_card_mono)
qed simp

declare attempt_loop.simps [simp del]

definition uniqueToolCallId :: "string \<Rightarrow> nat \<Rightarrow> string jset \<Rightarrow> string" where
  "uniqueToolCallId original turn used = attempt_loop (id_base original turn) used 0"

fun needs_rename :: "string jset \<Rightarrow> string jset \<Rightarrow> string list \<Rightarrow> bool" where
  "needs_rename used seen [] = False"
| "needs_rename used seen (i # is) =
    (if i = [] \<or> set_has used i \<or> set_has seen i then True else needs_rename used (set_add seen i) is)"

definition needsToolCallRename :: "string list \<Rightarrow> string jset \<Rightarrow> bool" where
  "needsToolCallRename blocks used = needs_rename used [] blocks"

type_synonym pairing = "(string, string list) jmap"

fun rename_blocks :: "nat \<Rightarrow> string jset \<Rightarrow> pairing \<Rightarrow> 'b block list \<Rightarrow> string jset \<times> pairing \<times> 'b block list" where
  "rename_blocks turn used pairing [] = (used, pairing, [])"
| "rename_blocks turn used pairing (OtherBlock p # bs) =
    (case rename_blocks turn used pairing bs of (used', pairing', bs') \<Rightarrow> (used', pairing', OtherBlock p # bs'))"
| "rename_blocks turn used pairing (ToolCall i p # bs) =
    (let j = (if i \<noteq> [] \<and> \<not> set_has used i then i else uniqueToolCallId i turn used)
     in case rename_blocks turn (set_add used j) (map_set pairing i (map_get_or pairing i [] @ [j])) bs of
          (used', pairing', bs') \<Rightarrow> (used', pairing', ToolCall j p # bs'))"

record pairing_state =
  ps_used :: "string jset"
  ps_renamed :: "pairing option"
  ps_changed :: bool
  ps_turn :: nat

definition new_pairing_state :: pairing_state where
  "new_pairing_state = \<lparr>ps_used = [], ps_renamed = None, ps_changed = False, ps_turn = 0\<rparr>"

definition rename_result :: "pairing_state \<Rightarrow> ('b, 'p) agent_message \<Rightarrow> pairing_state \<times> ('b, 'p) agent_message" where
  "rename_result st m = (case (am_role m, ps_renamed st, am_toolCallId m) of
      (ToolResult, Some pairing, Some i) \<Rightarrow>
        (case map_get pairing i of
           Some (j # js) \<Rightarrow> (st\<lparr>ps_renamed := Some (map_set pairing i js)\<rparr>, if j = i then m else m\<lparr>am_toolCallId := Some j\<rparr>)
         | _ \<Rightarrow> (st, m))
    | _ \<Rightarrow> (st, m))"

definition uniquify_message :: "pairing_state \<Rightarrow> ('b, 'p) agent_message \<Rightarrow> pairing_state \<times> ('b, 'p) agent_message" where
  "uniquify_message st m =
    (if am_role m = Assistant then
       let turn = ps_turn st + 1; st = st\<lparr>ps_turn := turn, ps_renamed := None\<rparr> in
       if \<not> needsToolCallRename (toolCallBlocks m) (ps_used st)
       then (st\<lparr>ps_used := set_add_all (ps_used st) (toolCallBlocks m)\<rparr>, m)
       else case rename_blocks turn (ps_used st) [] (or_else (am_content m) []) of
         (used, pairing, content) \<Rightarrow>
           (st\<lparr>ps_used := used, ps_renamed := Some pairing, ps_changed := True\<rparr>, m\<lparr>am_content := Some content\<rparr>)
     else rename_result st m)"

fun uniquify_loop :: "pairing_state \<Rightarrow> ('b, 'p) agent_message list \<Rightarrow> pairing_state \<times> ('b, 'p) agent_message list" where
  "uniquify_loop st [] = (st, [])"
| "uniquify_loop st (m # ms) =
    (case uniquify_message st m of (st', m') \<Rightarrow> (case uniquify_loop st' ms of (st'', ms') \<Rightarrow> (st'', m' # ms')))"

definition uniquifyToolCallIds :: "('b, 'p) agent_message list \<Rightarrow> ('b, 'p) agent_message list" where
  "uniquifyToolCallIds messages =
    (case uniquify_loop new_pairing_state messages of (st, uniquified) \<Rightarrow> if ps_changed st then uniquified else messages)"

section \<open>Fresh ids\<close>

lemma block_ids_simps [simp]:
  "block_ids [] = []" "block_ids (OtherBlock p # bs) = block_ids bs" "block_ids (ToolCall i p # bs) = i # block_ids bs"
  by (simp_all add: block_ids_def block_id_def)

lemma attempt_loop_fresh: "attempt_loop base used attempt \<notin> set used \<and> (\<exists>k. attempt_loop base used attempt = candidate base k)"
proof (induction base used attempt rule: attempt_loop.induct)
  case (1 base used attempt)
  then show ?case by (subst (1 2) attempt_loop.simps) (auto simp: set_has_def)
qed

lemma uniqueToolCallId_fresh: "uniqueToolCallId original turn used \<notin> set used" "uniqueToolCallId original turn used \<noteq> []"
proof -
  have "candidate (id_base original turn) k \<noteq> []" for k by (simp add: candidate_def id_base_def)
  then show "uniqueToolCallId original turn used \<notin> set used" "uniqueToolCallId original turn used \<noteq> []"
    using attempt_loop_fresh [of "id_base original turn" used 0] unfolding uniqueToolCallId_def by metis+
qed

lemma needs_rename_iff:
  "\<not> needs_rename used seen is \<longleftrightarrow> distinct is \<and> [] \<notin> set is \<and> set is \<inter> set used = {} \<and> set is \<inter> set seen = {}"
  by (induction used seen "is" rule: needs_rename.induct) (auto simp: set_has_def)

lemma needsToolCallRename_iff:
  "\<not> needsToolCallRename is used \<longleftrightarrow> distinct is \<and> [] \<notin> set is \<and> set is \<inter> set used = {}"
  by (simp add: needsToolCallRename_def needs_rename_iff)

text \<open>What renaming does to the blocks of a turn: only ids change, and the new ones are fresh.\<close>

lemma rename_blocks_effect:
  assumes "rename_blocks turn used pairing bs = (used', pairing', bs')"
  shows "set used' = set used \<union> set (block_ids bs') \<and> distinct (block_ids bs') \<and> [] \<notin> set (block_ids bs') \<and>
    set (block_ids bs') \<inter> set used = {} \<and> length (block_ids bs') = length (block_ids bs)"
  using assms
proof (induction turn used pairing bs arbitrary: used' pairing' bs' rule: rename_blocks.induct)
  case (1 turn used pairing)
  then show ?case by simp
next
  case (2 turn used pairing p bs)
  then show ?case by (auto split: prod.splits)
next
  case (3 turn used pairing i p bs)
  define j where "j = (if i \<noteq> [] \<and> \<not> set_has used i then i else uniqueToolCallId i turn used)"
  have j: "j \<notin> set used" "j \<noteq> []" using uniqueToolCallId_fresh [of i turn used] by (auto simp: j_def set_has_def)
  obtain bs'' where r: "rename_blocks turn (set_add used j) (map_set pairing i (map_get_or pairing i [] @ [j])) bs = (used', pairing', bs'')"
    "bs' = ToolCall j p # bs''"
    using "3.prems" by (auto simp: j_def Let_def split: prod.splits)
  have "set used' = set (set_add used j) \<union> set (block_ids bs'') \<and> distinct (block_ids bs'') \<and> [] \<notin> set (block_ids bs'') \<and>
      set (block_ids bs'') \<inter> set (set_add used j) = {} \<and> length (block_ids bs'') = length (block_ids bs)"
    using "3.IH" [OF j_def r(1)] .
  then show ?case using j r(2) by auto
qed

text \<open>The pairing lists, for each old id, the new ids in call order.\<close>

definition renamed_as :: "string list \<Rightarrow> string list \<Rightarrow> string \<Rightarrow> string list" where
  "renamed_as old new i = map snd (filter (\<lambda>(a, b). a = i) (zip old new))"

lemma renamed_as_Cons [simp]: "renamed_as (x # xs) (y # ys) i = (if x = i then y # renamed_as xs ys i else renamed_as xs ys i)"
  by (simp add: renamed_as_def)

lemma renamed_as_Nil [simp]: "renamed_as [] ys i = []" "renamed_as xs [] i = []"
  by (simp_all add: renamed_as_def)

lemma rename_blocks_pairing:
  assumes "rename_blocks turn used pairing bs = (used', pairing', bs')"
  shows "map_get_or pairing' i [] = map_get_or pairing i [] @ renamed_as (block_ids bs) (block_ids bs') i"
  using assms
proof (induction turn used pairing bs arbitrary: used' pairing' bs' rule: rename_blocks.induct)
  case (1 turn used pairing)
  then show ?case by simp
next
  case (2 turn used pairing p bs)
  then show ?case by (auto split: prod.splits)
next
  case (3 turn used pairing k p bs)
  define j where "j = (if k \<noteq> [] \<and> \<not> set_has used k then k else uniqueToolCallId k turn used)"
  obtain bs'' where r: "rename_blocks turn (set_add used j) (map_set pairing k (map_get_or pairing k [] @ [j])) bs = (used', pairing', bs'')"
    "bs' = ToolCall j p # bs''"
    using "3.prems" by (auto simp: j_def Let_def split: prod.splits)
  have "map_get_or pairing' i [] = map_get_or (map_set pairing k (map_get_or pairing k [] @ [j])) i [] @ renamed_as (block_ids bs) (block_ids bs'') i"
    using "3.IH" [OF j_def r(1)] .
  then show ?case using r(2) by (simp add: map_get_or_def)
qed

section \<open>Unique ids of a context\<close>

definition call_ids :: "('b, 'p) agent_message list \<Rightarrow> string list" where
  "call_ids ms = concat (map (\<lambda>m. if am_role m = Assistant then toolCallBlocks m else []) ms)"

lemma call_ids_simps [simp]:
  "call_ids [] = []" "call_ids (m # ms) = (if am_role m = Assistant then toolCallBlocks m else []) @ call_ids ms"
  by (simp_all add: call_ids_def)

lemma rename_result_effect:
  "rename_result st m = (st', m') \<Longrightarrow> am_role m' = am_role m \<and> am_content m' = am_content m \<and> ps_used st' = ps_used st \<and> ps_changed st' = ps_changed st"
  by (auto simp: rename_result_def split: message_role.splits option.splits list.splits if_splits)

lemma uniquify_message_cases:
  assumes "uniquify_message st m = (st', m')"
  shows "(am_role m \<noteq> Assistant \<and> rename_result st m = (st', m')) \<or>
    (am_role m = Assistant \<and> \<not> needsToolCallRename (toolCallBlocks m) (ps_used st) \<and> m' = m \<and>
      ps_used st' = set_add_all (ps_used st) (toolCallBlocks m) \<and> ps_renamed st' = None \<and> ps_changed st' = ps_changed st) \<or>
    (am_role m = Assistant \<and> (\<exists>content. rename_blocks (ps_turn st + 1) (ps_used st) [] (or_else (am_content m) []) =
        (ps_used st', the (ps_renamed st'), content) \<and> m' = m\<lparr>am_content := Some content\<rparr> \<and> ps_renamed st' \<noteq> None \<and> ps_changed st'))"
proof (cases "am_role m = Assistant \<and> needsToolCallRename (toolCallBlocks m) (ps_used st)")
  case True
  obtain used pairing content where r: "rename_blocks (ps_turn st + 1) (ps_used st) [] (or_else (am_content m) []) = (used, pairing, content)"
    by (metis prod_cases3)
  then show ?thesis using assms True by (auto simp: uniquify_message_def Let_def)
next
  case False
  then consider "am_role m \<noteq> Assistant" | "am_role m = Assistant" "\<not> needsToolCallRename (toolCallBlocks m) (ps_used st)" by blast
  then show ?thesis
  proof cases
    case 1
    then show ?thesis using assms by (simp add: uniquify_message_def)
  next
    case 2
    then show ?thesis using assms by (auto simp: uniquify_message_def Let_def)
  qed
qed

lemma uniquify_message_effect:
  assumes "uniquify_message st m = (st', m')"
  defines "ids \<equiv> if am_role m = Assistant then toolCallBlocks m' else []"
  shows "am_role m' = am_role m \<and> set (ps_used st') = set (ps_used st) \<union> set ids \<and> distinct ids \<and> [] \<notin> set ids \<and> set ids \<inter> set (ps_used st) = {}"
  using uniquify_message_cases [OF assms(1)]
proof (elim disjE conjE exE)
  assume "am_role m \<noteq> Assistant" "rename_result st m = (st', m')"
  then show ?thesis using rename_result_effect [of st m st' m'] by (simp add: ids_def)
next
  assume "am_role m = Assistant" "\<not> needsToolCallRename (toolCallBlocks m) (ps_used st)" "m' = m"
    "ps_used st' = set_add_all (ps_used st) (toolCallBlocks m)"
  then show ?thesis using needsToolCallRename_iff [of "toolCallBlocks m" "ps_used st"] by (simp add: ids_def)
next
  fix content
  assume "rename_blocks (ps_turn st + 1) (ps_used st) [] (or_else (am_content m) []) = (ps_used st', the (ps_renamed st'), content)"
    "m' = m\<lparr>am_content := Some content\<rparr>" "am_role m = Assistant"
  then show ?thesis using rename_blocks_effect by (fastforce simp: ids_def toolCallBlocks_def)
qed

lemma uniquify_loop_unique:
  assumes "uniquify_loop st ms = (st', ms')"
  shows "distinct (call_ids ms') \<and> [] \<notin> set (call_ids ms') \<and> set (call_ids ms') \<inter> set (ps_used st) = {}"
  using assms
proof (induction st ms arbitrary: st' ms' rule: uniquify_loop.induct)
  case (1 st)
  then show ?case by simp
next
  case (2 st m ms)
  obtain st1 m1 where s: "uniquify_message st m = (st1, m1)" by (cases "uniquify_message st m")
  obtain st2 ms2 where l: "uniquify_loop st1 ms = (st2, ms2)" by (cases "uniquify_loop st1 ms")
  have "ms' = m1 # ms2" using "2.prems" s l by simp
  then show ?case using uniquify_message_effect [OF s] "2.IH" [OF s [symmetric] l] by auto
qed

text \<open>As long as nothing was renamed, every message is returned as it is.\<close>

lemma rename_result_None: "ps_renamed st = None \<Longrightarrow> rename_result st m = (st, m)"
  by (cases "am_role m") (simp_all add: rename_result_def)

lemma uniquify_message_unchanged:
  assumes "uniquify_message st m = (st', m')" and "ps_renamed st = None"
  shows "(ps_changed st \<longrightarrow> ps_changed st') \<and> (\<not> ps_changed st' \<longrightarrow> m' = m \<and> ps_renamed st' = None)"
  using uniquify_message_cases [OF assms(1)] rename_result_None [OF assms(2), of m] assms(2) by auto

lemma uniquify_changed_mono: "uniquify_message st m = (st', m') \<Longrightarrow> ps_changed st \<Longrightarrow> ps_changed st'"
  using uniquify_message_cases [of st m st' m'] rename_result_effect [of st m st' m'] by auto

lemma uniquify_loop_changed_mono: "uniquify_loop st ms = (st', ms') \<Longrightarrow> ps_changed st \<Longrightarrow> ps_changed st'"
proof (induction st ms arbitrary: st' ms' rule: uniquify_loop.induct)
  case (1 st)
  then show ?case by simp
next
  case (2 st m ms)
  obtain st1 m1 where s: "uniquify_message st m = (st1, m1)" by (cases "uniquify_message st m")
  obtain st2 ms2 where l: "uniquify_loop st1 ms = (st2, ms2)" by (cases "uniquify_loop st1 ms")
  have "st' = st2" using "2.prems"(1) s l by simp
  then show ?case using "2.IH" [OF s [symmetric] l uniquify_changed_mono [OF s "2.prems"(2)]] by simp
qed

lemma uniquify_loop_unchanged:
  "uniquify_loop st ms = (st', ms') \<Longrightarrow> ps_renamed st = None \<Longrightarrow> \<not> ps_changed st' \<Longrightarrow> ms' = ms"
proof (induction st ms arbitrary: st' ms' rule: uniquify_loop.induct)
  case (1 st)
  then show ?case by simp
next
  case (2 st m ms)
  obtain st1 m1 where s: "uniquify_message st m = (st1, m1)" by (cases "uniquify_message st m")
  obtain st2 ms2 where l: "uniquify_loop st1 ms = (st2, ms2)" by (cases "uniquify_loop st1 ms")
  have e: "ms' = m1 # ms2" "st' = st2" using "2.prems"(1) s l by simp_all
  then have "\<not> ps_changed st1" using uniquify_loop_changed_mono [OF l] "2.prems"(3) by blast
  then show ?case using uniquify_message_unchanged [OF s "2.prems"(2)] "2.IH" [OF s [symmetric] l] "2.prems"(3) e by auto
qed

lemma uniquify_is_loop: "uniquifyToolCallIds ms = snd (uniquify_loop new_pairing_state ms)"
  using uniquify_loop_unchanged [of new_pairing_state ms]
  by (cases "uniquify_loop new_pairing_state ms") (auto simp: uniquifyToolCallIds_def new_pairing_state_def)

lemma uniquify_loop_append:
  "uniquify_loop st (ms @ ms') = (case uniquify_loop st ms of (st', out) \<Rightarrow> (case uniquify_loop st' ms' of (st'', out') \<Rightarrow> (st'', out @ out')))"
  by (induction st ms rule: uniquify_loop.induct) (auto split: prod.splits)

lemma uniquify_loop_length: "length (snd (uniquify_loop st ms)) = length ms"
  by (induction st ms rule: uniquify_loop.induct) (auto split: prod.splits)

section \<open>Results follow their calls\<close>

definition result_ids :: "('b, 'p) agent_message list \<Rightarrow> string list" where
  "result_ids rs = map (\<lambda>m. or_else (am_toolCallId m) []) rs"

definition is_result :: "('b, 'p) agent_message \<Rightarrow> bool" where
  "is_result m \<longleftrightarrow> am_role m = ToolResult \<and> am_toolCallId m \<noteq> None"

lemma results_renamed:
  assumes "list_all is_result rs" and "ps_renamed st = Some p"
    and "\<And>i. count_list (result_ids rs) i \<le> length (map_get_or p i [])"
  shows "renamed_as (result_ids rs) (result_ids (snd (uniquify_loop st rs))) i = take (count_list (result_ids rs) i) (map_get_or p i [])"
  using assms
proof (induction rs arbitrary: st p)
  case Nil
  then show ?case by (simp add: result_ids_def)
next
  case (Cons r rs)
  obtain k where k: "am_role r = ToolResult" "am_toolCallId r = Some k" using Cons.prems(1) by (auto simp: is_result_def)
  have ids: "result_ids (r # rs) = k # result_ids rs" using k by (simp add: result_ids_def or_else_def)
  have "count_list (result_ids (r # rs)) k \<le> length (map_get_or p k [])" by (rule Cons.prems(3))
  then obtain j js where j: "map_get p k = Some (j # js)"
    unfolding ids by (cases "map_get p k"; cases "the (map_get p k)") (auto simp: map_get_or_def)
  let ?st = "st\<lparr>ps_renamed := Some (map_set p k js)\<rparr>"
  have step: "uniquify_message st r = (?st, if j = k then r else r\<lparr>am_toolCallId := Some j\<rparr>)"
    using k j Cons.prems(2) by (simp add: uniquify_message_def rename_result_def)
  have out: "result_ids (snd (uniquify_loop st (r # rs))) = j # result_ids (snd (uniquify_loop ?st rs))"
    using k by (simp add: step result_ids_def or_else_def split: prod.split)
  have cnt: "count_list (result_ids rs) i \<le> length (map_get_or (map_set p k js) i [])" for i
    using Cons.prems(3) [of i] j unfolding ids by (auto simp: map_get_or_def split: if_splits)
  have "renamed_as (result_ids rs) (result_ids (snd (uniquify_loop ?st rs))) i = take (count_list (result_ids rs) i) (map_get_or (map_set p k js) i [])"
    using Cons.IH [of ?st "map_set p k js"] Cons.prems(1) cnt by simp
  then show ?case unfolding out unfolding ids using j by (auto simp: map_get_or_def)
qed

lemma renamed_as_same: "renamed_as xs xs i = replicate (count_list xs i) i"
  by (induction xs) auto

lemma results_unrenamed:
  assumes "list_all is_result rs" and "ps_renamed st = None"
  shows "snd (uniquify_loop st rs) = rs"
  using assms
proof (induction rs arbitrary: st)
  case Nil
  then show ?case by simp
next
  case (Cons r rs)
  have "uniquify_message st r = (st, r)"
    using Cons.prems rename_result_None [of st r] by (auto simp: uniquify_message_def is_result_def)
  moreover have "snd (uniquify_loop st rs) = rs" using Cons by simp
  ultimately show ?case by (cases "uniquify_loop st rs") simp
qed

lemma turn_results:
  assumes "am_role turn = Assistant" and "list_all is_result rs"
    and "\<And>i. count_list (result_ids rs) i \<le> count_list (toolCallBlocks turn) i"
    and "uniquify_message st turn = (st', turn')"
  shows "renamed_as (result_ids rs) (result_ids (snd (uniquify_loop st' rs))) i =
    take (count_list (result_ids rs) i) (renamed_as (toolCallBlocks turn) (toolCallBlocks turn') i)"
proof (cases "needsToolCallRename (toolCallBlocks turn) (ps_used st)")
  case False
  then have "ps_renamed st' = None" "turn' = turn" using assms(1,4) unfolding uniquify_message_def Let_def by auto
  then show ?thesis using results_unrenamed [OF assms(2)] assms(3) [of i] by (simp add: renamed_as_same)
next
  case True
  obtain used pairing content where r: "rename_blocks (ps_turn st + 1) (ps_used st) [] (or_else (am_content turn) []) = (used, pairing, content)"
    by (metis prod_cases3)
  then have s: "ps_renamed st' = Some pairing" "toolCallBlocks turn' = block_ids content"
    using assms(1,4) True by (auto simp: uniquify_message_def Let_def toolCallBlocks_def)
  have ids: "toolCallBlocks turn = block_ids (or_else (am_content turn) [])" by (cases "am_content turn") (simp_all add: toolCallBlocks_def or_else_def)
  have pair: "map_get_or pairing i [] = renamed_as (toolCallBlocks turn) (toolCallBlocks turn') i" for i
    using rename_blocks_pairing [OF r] s(2) ids by (simp add: map_get_or_def map_get_def)
  have "length (renamed_as xs ys i) = count_list xs i" if "length ys = length xs" for xs ys i
    using that by (induction ys xs rule: list_induct2) auto
  then have "count_list (result_ids rs) i \<le> length (map_get_or pairing i [])" for i
    using assms(3) [of i] rename_blocks_effect [OF r] s(2) ids unfolding pair by simp
  from results_renamed [OF assms(2) s(1) this] show ?thesis unfolding pair .
qed

section \<open>What the guard reports\<close>

definition announces :: "('b, 'p) agent_message \<Rightarrow> string \<Rightarrow> bool" where
  "announces m i \<longleftrightarrow> am_role m = Assistant \<and> \<not> am_excluded m \<and> i \<in> set (toolCallBlocks m)"

lemma announce_fold:
  assumes "distinct is"
  shows "(\<forall>i. map_get (fst (foldl (announce stringify m) (ann, dup) is)) i =
      (if i \<in> set is then Some (map_get_or ann i [] @ [m]) else map_get ann i)) \<and>
    set (snd (foldl (announce stringify m) (ann, dup) is)) =
      set dup \<union> {i \<in> set is. \<exists>e \<in> set (map_get_or ann i []). isSameAssistantTurn stringify e m}"
  using assms
proof (induction "is" arbitrary: ann dup)
  case Nil
  show ?case by simp
next
  case (Cons k ks)
  define st where "st = announce stringify m (ann, dup) k"
  have st: "map_get (fst st) j = (if j = k then Some (map_get_or ann k [] @ [m]) else map_get ann j)"
    "set (snd st) = set dup \<union> {i \<in> {k}. \<exists>e \<in> set (map_get_or ann i []). isSameAssistantTurn stringify e m}" for j
    by (auto simp: st_def announce_def map_get_or_def list_ex_iff split: option.split)
  then have same: "map_get_or (fst st) i [] = map_get_or ann i []" if "i \<in> set ks" for i
    using that Cons.prems by (auto simp: map_get_or_def)
  have IH: "map_get (fst (foldl (announce stringify m) st ks)) i = (if i \<in> set ks then Some (map_get_or (fst st) i [] @ [m]) else map_get (fst st) i)"
    "set (snd (foldl (announce stringify m) st ks)) =
      set (snd st) \<union> {i \<in> set ks. \<exists>e \<in> set (map_get_or (fst st) i []). isSameAssistantTurn stringify e m}" for i
    using Cons.IH [of "fst st" "snd st"] Cons.prems by auto
  have "foldl (announce stringify m) (ann, dup) (k # ks) = foldl (announce stringify m) st ks" by (simp add: st_def)
  then show ?case using IH st same Cons.prems by auto
qed

lemma pairs_snoc:
  "(\<exists>a b. a < b \<and> b < length (ms @ [m]) \<and> P ((ms @ [m]) ! a) ((ms @ [m]) ! b)) \<longleftrightarrow>
    (\<exists>a b. a < b \<and> b < length ms \<and> P (ms ! a) (ms ! b)) \<or> (\<exists>a < length ms. P (ms ! a) m)"
proof
  assume "\<exists>a b. a < b \<and> b < length (ms @ [m]) \<and> P ((ms @ [m]) ! a) ((ms @ [m]) ! b)"
  then obtain a b where ab: "a < b" "b < length (ms @ [m])" "P ((ms @ [m]) ! a) ((ms @ [m]) ! b)" by blast
  show "(\<exists>a b. a < b \<and> b < length ms \<and> P (ms ! a) (ms ! b)) \<or> (\<exists>a < length ms. P (ms ! a) m)"
  proof (cases "b < length ms")
    case True
    then show ?thesis using ab by (metis less_trans nth_append)
  next
    case False
    then have "b = length ms" "a < length ms" using ab by auto
    then show ?thesis using ab(3) by (metis nth_append nth_append_length)
  qed
next
  assume "(\<exists>a b. a < b \<and> b < length ms \<and> P (ms ! a) (ms ! b)) \<or> (\<exists>a < length ms. P (ms ! a) m)"
  then consider a b where "a < b" "b < length ms" "P (ms ! a) (ms ! b)" | a where "a < length ms" "P (ms ! a) m" by blast
  then show "\<exists>a b. a < b \<and> b < length (ms @ [m]) \<and> P ((ms @ [m]) ! a) ((ms @ [m]) ! b)"
  proof cases
    case 1
    then show ?thesis by (intro exI [of _ a] exI [of _ b]) (simp add: nth_append)
  next
    case 2
    then show ?thesis by (intro exI [of _ a] exI [of _ "length ms"]) (simp add: nth_append)
  qed
qed

lemma guard_state:
  "map_get_or (fst (foldl (announce_message stringify) ([], []) ms)) i [] = filter (\<lambda>m. announces m i) ms"
  "set (snd (foldl (announce_message stringify) ([], []) ms)) =
    {i. \<exists>a b. a < b \<and> b < length ms \<and> announces (ms ! a) i \<and> announces (ms ! b) i \<and> isSameAssistantTurn stringify (ms ! a) (ms ! b)}"
proof (induction ms arbitrary: i rule: rev_induct)
  case Nil
  {
    case 1
    show ?case by (simp add: map_get_or_def map_get_def)
  next
    case 2
    show ?case by simp
  }
next
  case (snoc m ms)
  obtain ann dup where st: "foldl (announce_message stringify) ([], []) ms = (ann, dup)" by (cases "foldl (announce_message stringify) ([], []) ms")
  let ?ids = "set_add_all [] (toolCallBlocks m)"
  have ids: "distinct ?ids" "set ?ids = set (toolCallBlocks m)" by (auto intro: distinct_set_add_all)
  have ann: "map_get_or ann i [] = filter (\<lambda>m. announces m i) ms" for i using snoc.IH(1) [of i] st by simp
  {
    case 1
    have "map_get_or (fst (announce_message stringify (ann, dup) m)) i [] = map_get_or ann i [] @ (if announces m i then [m] else [])"
      using announce_fold [OF ids(1), of stringify m ann dup] ids(2)
      by (auto simp: announce_message_def announces_def map_get_or_def)
    then show ?case using ann [of i] st by simp
  next
    case 2
    have new: "set (snd (announce_message stringify (ann, dup) m)) =
        set dup \<union> {i. announces m i \<and> (\<exists>a < length ms. announces (ms ! a) i \<and> isSameAssistantTurn stringify (ms ! a) m)}"
      using announce_fold [OF ids(1), of stringify m ann dup] ids(2)
      by (auto simp: announce_message_def announces_def ann in_set_conv_nth)
    have dup: "set dup = {i. \<exists>a b. a < b \<and> b < length ms \<and> announces (ms ! a) i \<and> announces (ms ! b) i \<and> isSameAssistantTurn stringify (ms ! a) (ms ! b)}"
      using snoc.IH(2) st by simp
    have step: "foldl (announce_message stringify) ([], []) (ms @ [m]) = announce_message stringify (ann, dup) m" using st by simp
    show ?case unfolding step new dup
    proof (rule set_eqI)
      fix i
      show "i \<in> {i. \<exists>a b. a < b \<and> b < length ms \<and> announces (ms ! a) i \<and> announces (ms ! b) i \<and> isSameAssistantTurn stringify (ms ! a) (ms ! b)} \<union>
            {i. announces m i \<and> (\<exists>a < length ms. announces (ms ! a) i \<and> isSameAssistantTurn stringify (ms ! a) m)} \<longleftrightarrow>
          i \<in> {i. \<exists>a b. a < b \<and> b < length (ms @ [m]) \<and> announces ((ms @ [m]) ! a) i \<and> announces ((ms @ [m]) ! b) i \<and>
            isSameAssistantTurn stringify ((ms @ [m]) ! a) ((ms @ [m]) ! b)}"
        using pairs_snoc [of ms m "\<lambda>x y. announces x i \<and> announces y i \<and> isSameAssistantTurn stringify x y"]
        by (simp only: Un_iff mem_Collect_eq) blast
    qed
  }
qed

section \<open>Theorems\<close>

text \<open>
  C34. After renaming, no two tool calls of the context share an id and none is empty, whatever ids the models chose;
  no message is added or dropped; and what earlier messages become does not depend on later ones, so the derived ids
  stay the same as the conversation grows.
\<close>
theorem unique_tool_call_ids:
  "distinct (call_ids (uniquifyToolCallIds ms)) \<and> [] \<notin> set (call_ids (uniquifyToolCallIds ms)) \<and>
   length (uniquifyToolCallIds ms) = length ms \<and> take (length ms) (uniquifyToolCallIds (ms @ later)) = uniquifyToolCallIds ms"
proof -
  obtain st out where l: "uniquify_loop new_pairing_state ms = (st, out)" by (cases "uniquify_loop new_pairing_state ms")
  have len: "length out = length ms" using uniquify_loop_length [of new_pairing_state ms] l by simp
  have "take (length ms) (uniquifyToolCallIds (ms @ later)) = out"
    unfolding uniquify_is_loop uniquify_loop_append l using len by (simp split: prod.split)
  then show ?thesis using uniquify_loop_unique [OF l] l len by (simp add: uniquify_is_loop)
qed

text \<open>
  Results stay with their calls: for the results that directly follow a turn, the ids given to the results that
  named some id are, in order, the new ids of the turn's calls that had that id, so the first result goes to the first
  such call and so on.
\<close>
theorem results_follow_calls:
  assumes "am_role turn = Assistant" and "list_all is_result results"
    and "\<And>i. count_list (result_ids results) i \<le> count_list (toolCallBlocks turn) i"
  shows "\<exists>before turn' results' rest. uniquifyToolCallIds (earlier @ turn # results @ later) = before @ turn' # results' @ rest \<and>
    length before = length earlier \<and> length results' = length results \<and>
    (\<forall>i. renamed_as (result_ids results) (result_ids results') i =
      take (count_list (result_ids results) i) (renamed_as (toolCallBlocks turn) (toolCallBlocks turn') i))"
proof -
  obtain st1 before where e: "uniquify_loop new_pairing_state earlier = (st1, before)" by (cases "uniquify_loop new_pairing_state earlier")
  obtain st2 turn' where t: "uniquify_message st1 turn = (st2, turn')" by (cases "uniquify_message st1 turn")
  obtain st3 results' where r: "uniquify_loop st2 results = (st3, results')" by (cases "uniquify_loop st2 results")
  obtain st4 rest where f: "uniquify_loop st3 later = (st4, rest)" by (cases "uniquify_loop st3 later")
  have "uniquifyToolCallIds (earlier @ turn # results @ later) = before @ turn' # results' @ rest"
    by (simp add: uniquify_is_loop uniquify_loop_append e t r f)
  moreover have "length before = length earlier" "length results' = length results"
    using uniquify_loop_length [of new_pairing_state earlier] uniquify_loop_length [of st2 results] e r by simp_all
  moreover have "renamed_as (result_ids results) (result_ids results') i =
      take (count_list (result_ids results) i) (renamed_as (toolCallBlocks turn) (toolCallBlocks turn') i)" for i
    using turn_results [OF assms t, of i] r by simp
  ultimately show ?thesis by blast
qed

text \<open>
  The guard refuses a context exactly when some id is announced by two assistant messages that are the same turn
  (the same object, the same response id, or equal in time and text), and it names exactly those ids.
\<close>
theorem duplicate_turns_reported:
  "set (findDuplicateToolCallIds stringify ms) =
    {i. \<exists>a b. a < b \<and> b < length ms \<and> announces (ms ! a) i \<and> announces (ms ! b) i \<and> isSameAssistantTurn stringify (ms ! a) (ms ! b)} \<and>
   (assertToolPairingInvariant stringify ms = Inr () \<or>
    assertToolPairingInvariant stringify ms = Inl (StructurallyInvalid (findDuplicateToolCallIds stringify ms))) \<and>
   (assertToolPairingInvariant stringify ms = Inr ()) = (set (findDuplicateToolCallIds stringify ms) = {})"
proof (intro conjI)
  show "set (findDuplicateToolCallIds stringify ms) =
    {i. \<exists>a b. a < b \<and> b < length ms \<and> announces (ms ! a) i \<and> announces (ms ! b) i \<and> isSameAssistantTurn stringify (ms ! a) (ms ! b)}"
    unfolding findDuplicateToolCallIds_def by (rule guard_state(2))
qed (simp_all add: assertToolPairingInvariant_def Let_def)

definition sample_call :: "nat \<Rightarrow> string list \<Rightarrow> (unit, unit) agent_message" where
  "sample_call n ids = \<lparr>am_ref = n, am_role = Assistant, am_content = Some (map (\<lambda>i. ToolCall i ()) ids), am_toolCallId = None,
     am_responseId = None, am_timestamp = int n, am_excluded = False, am_payload = ()\<rparr>"

definition sample_result :: "nat \<Rightarrow> string \<Rightarrow> (unit, unit) agent_message" where
  "sample_result n i = \<lparr>am_ref = n, am_role = ToolResult, am_content = None, am_toolCallId = Some i,
     am_responseId = None, am_timestamp = int n, am_excluded = False, am_payload = ()\<rparr>"

theorem results_follow_calls_witness:
  "\<exists>before turn' results' rest. uniquifyToolCallIds ([sample_call 0 [''b'']] @ sample_call 1 [''b'', ''b''] # [sample_result 2 ''b''] @ []) =
      before @ turn' # results' @ rest \<and>
    renamed_as [''b''] (result_ids results') ''b'' = take 1 (renamed_as [''b'', ''b''] (toolCallBlocks turn') ''b'')"
proof -
  have a: "am_role (sample_call 1 [''b'', ''b'']) = Assistant" "list_all is_result [sample_result 2 ''b'']"
    "count_list (result_ids [sample_result 2 ''b'']) i \<le> count_list (toolCallBlocks (sample_call 1 [''b'', ''b''])) i" for i
    by (auto simp: sample_call_def sample_result_def is_result_def result_ids_def or_else_def toolCallBlocks_def)
  have ids: "result_ids [sample_result 2 ''b''] = [''b'']" "toolCallBlocks (sample_call 1 [''b'', ''b'']) = [''b'', ''b'']"
    by (simp_all add: sample_call_def sample_result_def result_ids_def or_else_def toolCallBlocks_def)
  have one: "count_list [''b''] ''b'' = 1" by simp
  obtain before turn' results' rest where u:
    "uniquifyToolCallIds ([sample_call 0 [''b'']] @ sample_call 1 [''b'', ''b''] # [sample_result 2 ''b''] @ []) = before @ turn' # results' @ rest"
    and q: "\<forall>i. renamed_as [''b''] (result_ids results') i = take (count_list [''b''] i) (renamed_as [''b'', ''b''] (toolCallBlocks turn') i)"
    using results_follow_calls [OF a, of "[sample_call 0 [''b'']]" "[]"] unfolding ids by blast
  from q [THEN spec, of "''b''"] u show ?thesis unfolding one by blast
qed

end
