(* ===== verification/Request_Lanes.thy ===== *)
theory Request_Lanes
  imports Prelude
begin

text \<open>
  How the coordinator of a worker pool orders one worker's requests
  (\<^verbatim>\<open>packages/workflows/src/workers/worker-request-lanes.ts\<close>): each request waits for promises chosen by its lane, and
  leaves a promise of its own behind. A promise is modelled by the requests whose settlement it awaits, numbered in the
  order they are scheduled; none of them is ever rejected, since a request that fails settles too. The run of the
  scheduled requests is a step relation: requests are scheduled, start once what they wait for has settled, and settle
  at any later time.
\<close>

section \<open>Lanes\<close>

datatype lane = Barrier | Commits | Heartbeats | Acknowledgements | Free | Publications | Detached

datatype lane_sequence = CommitSequence | HeartbeatSequence

datatype answered_request =
    Ready | Claim | Fenced | Recycle | Complete | Commit | StageWorkspace | Heartbeat | Control | Controlled
  | BudgetCheck | Activity | Route | Delivery | DeliveryReady | Place

definition SEQUENCES :: "lane \<Rightarrow> lane_sequence option" where
  "SEQUENCES lane = (case lane of
      Commits \<Rightarrow> Some CommitSequence | Heartbeats \<Rightarrow> Some HeartbeatSequence | Acknowledgements \<Rightarrow> Some HeartbeatSequence | _ \<Rightarrow> None)"

fun WORKER_REQUEST_LANES :: "answered_request \<Rightarrow> lane" where
  "WORKER_REQUEST_LANES Ready = Barrier"
| "WORKER_REQUEST_LANES Claim = Barrier"
| "WORKER_REQUEST_LANES Fenced = Barrier"
| "WORKER_REQUEST_LANES Recycle = Barrier"
| "WORKER_REQUEST_LANES Complete = Barrier"
| "WORKER_REQUEST_LANES Commit = Commits"
| "WORKER_REQUEST_LANES StageWorkspace = Commits"
| "WORKER_REQUEST_LANES Heartbeat = Heartbeats"
| "WORKER_REQUEST_LANES Control = Heartbeats"
| "WORKER_REQUEST_LANES Controlled = Acknowledgements"
| "WORKER_REQUEST_LANES BudgetCheck = Free"
| "WORKER_REQUEST_LANES Activity = Publications"
| "WORKER_REQUEST_LANES Route = Free"
| "WORKER_REQUEST_LANES Delivery = Detached"
| "WORKER_REQUEST_LANES DeliveryReady = Detached"
| "WORKER_REQUEST_LANES Place = Detached"

section \<open>The scheduler\<close>

type_synonym promise = "nat jset"

record lanes =
  ln_barrier :: promise
  ln_sequences :: "(lane_sequence, promise) jmap"
  ln_publications :: promise
  ln_everything :: promise

definition new_lanes :: lanes where
  "new_lanes = \<lparr>ln_barrier = [], ln_sequences = [], ln_publications = [], ln_everything = []\<rparr>"

definition awaited :: "lanes \<Rightarrow> lane \<Rightarrow> promise" where
  "awaited st lane =
    (if lane = Barrier then ln_everything st
     else set_add_all (set_add_all (ln_barrier st)
         (case SEQUENCES lane of None \<Rightarrow> [] | Some s \<Rightarrow> map_get_or (ln_sequences st) s []))
       (if lane = Acknowledgements then ln_publications st else []))"

definition run_request :: "lanes \<Rightarrow> lane \<Rightarrow> nat \<Rightarrow> promise \<times> lanes" where
  "run_request st lane request =
    (let after = awaited st lane;
         settled = [request];
         st = (if lane = Barrier then st\<lparr>ln_barrier := settled\<rparr> else st);
         st = (case SEQUENCES lane of None \<Rightarrow> st | Some s \<Rightarrow> st\<lparr>ln_sequences := map_set (ln_sequences st) s settled\<rparr>);
         st = (if lane = Publications then st\<lparr>ln_publications := set_add_all (ln_publications st) settled\<rparr> else st);
         st = (if lane \<noteq> Detached then st\<lparr>ln_everything := set_add_all (ln_everything st) settled\<rparr> else st)
     in (after, st))"

definition settled_promise :: "lanes \<Rightarrow> promise" where
  "settled_promise st = ln_everything st"

section \<open>Runs\<close>

record lane_run =
  lr_lanes :: lanes
  lr_requests :: "(lane \<times> promise) list"
  lr_started :: "nat set"
  lr_settled :: "nat set"

definition new_run :: lane_run where
  "new_run = \<lparr>lr_lanes = new_lanes, lr_requests = [], lr_started = {}, lr_settled = {}\<rparr>"

definition can_start :: "lane_run \<Rightarrow> nat \<Rightarrow> bool" where
  "can_start r i \<longleftrightarrow> i < length (lr_requests r) \<and> i \<notin> lr_started r \<and> set (snd (lr_requests r ! i)) \<subseteq> lr_settled r"

inductive lane_step :: "lane_run \<Rightarrow> lane_run \<Rightarrow> bool" where
  schedule: "run_request (lr_lanes r) lane (length (lr_requests r)) = (after, st) \<Longrightarrow>
    lane_step r (r\<lparr>lr_lanes := st, lr_requests := lr_requests r @ [(lane, after)]\<rparr>)"
| start: "can_start r i \<Longrightarrow> lane_step r (r\<lparr>lr_started := insert i (lr_started r)\<rparr>)"
| settle: "i \<in> lr_started r \<Longrightarrow> lane_step r (r\<lparr>lr_settled := insert i (lr_settled r)\<rparr>)"

inductive reachable_run :: "lane_run \<Rightarrow> bool" where
  initial: "reachable_run new_run"
| step: "reachable_run r \<Longrightarrow> lane_step r r' \<Longrightarrow> reachable_run r'"

inductive_cases lane_step_cases: "lane_step r r'"

section \<open>What the scheduler remembers\<close>

text \<open>Which earlier request a later one has to wait for, as the lanes are described.\<close>

definition conflicts :: "lane \<Rightarrow> lane \<Rightarrow> bool" where
  "conflicts earlier later \<longleftrightarrow>
    (later = Barrier \<and> earlier \<noteq> Detached) \<or> (earlier = Barrier) \<or>
    (SEQUENCES later \<noteq> None \<and> SEQUENCES earlier = SEQUENCES later) \<or>
    (later = Acknowledgements \<and> earlier = Publications)"

definition latest :: "(lane \<Rightarrow> bool) \<Rightarrow> lane list \<Rightarrow> promise \<Rightarrow> bool" where
  "latest P ls p \<longleftrightarrow> (\<forall>i \<in> set p. i < length ls \<and> P (ls ! i)) \<and> (\<forall>i < length ls. P (ls ! i) \<longrightarrow> (\<exists>k \<in> set p. i \<le> k))"

definition lanes_inv :: "lane list \<Rightarrow> lanes \<Rightarrow> bool" where
  "lanes_inv ls st \<longleftrightarrow>
    latest (\<lambda>l. l = Barrier) ls (ln_barrier st) \<and>
    (\<forall>s. latest (\<lambda>l. SEQUENCES l = Some s) ls (map_get_or (ln_sequences st) s [])) \<and>
    set (ln_publications st) = {i. i < length ls \<and> ls ! i = Publications} \<and>
    set (ln_everything st) = {i. i < length ls \<and> ls ! i \<noteq> Detached}"

lemma latest_snoc: "latest P ls p \<Longrightarrow> latest P (ls @ [l]) (if P l then [length ls] else p)"
  by (auto simp: latest_def nth_append less_Suc_eq)

lemma lanes_inv_new: "lanes_inv [] new_lanes"
  by (simp add: lanes_inv_def new_lanes_def latest_def map_get_or_def map_get_def)

lemma run_request_inv:
  assumes "lanes_inv ls st" and "run_request st lane (length ls) = (after, st')"
  shows "lanes_inv (ls @ [lane]) st'" "after = awaited st lane"
proof -
  have fields: "after = awaited st lane" "ln_barrier st' = (if lane = Barrier then [length ls] else ln_barrier st)"
    "ln_sequences st' = (case SEQUENCES lane of None \<Rightarrow> ln_sequences st | Some s \<Rightarrow> map_set (ln_sequences st) s [length ls])"
    "ln_publications st' = (if lane = Publications then set_add_all (ln_publications st) [length ls] else ln_publications st)"
    "ln_everything st' = (if lane \<noteq> Detached then set_add_all (ln_everything st) [length ls] else ln_everything st)"
    using assms(2) by (auto simp: run_request_def Let_def split: option.splits)
  then show "after = awaited st lane" by simp
  have "latest (\<lambda>l. l = Barrier) (ls @ [lane]) (ln_barrier st')"
    using latest_snoc [of "\<lambda>l. l = Barrier" ls "ln_barrier st" lane] assms(1) unfolding fields(2) by (simp add: lanes_inv_def)
  moreover have "latest (\<lambda>l. SEQUENCES l = Some s) (ls @ [lane]) (map_get_or (ln_sequences st') s [])" for s
    using latest_snoc [of "\<lambda>l. SEQUENCES l = Some s" ls "map_get_or (ln_sequences st) s []" lane] assms(1) unfolding fields(3)
    by (cases "SEQUENCES lane") (auto simp: lanes_inv_def map_get_or_def split: if_splits)
  moreover have "set (ln_publications st') = {i. i < length (ls @ [lane]) \<and> (ls @ [lane]) ! i = Publications}"
    using assms(1) unfolding fields(4) by (auto simp: lanes_inv_def nth_append less_Suc_eq)
  moreover have "set (ln_everything st') = {i. i < length (ls @ [lane]) \<and> (ls @ [lane]) ! i \<noteq> Detached}"
    using assms(1) unfolding fields(5) by (auto simp: lanes_inv_def nth_append less_Suc_eq)
  ultimately show "lanes_inv (ls @ [lane]) st'" by (simp add: lanes_inv_def)
qed

text \<open>What a request awaits are earlier requests it conflicts with, and among them the latest of each kind.\<close>

definition awaits_ok :: "lane list \<Rightarrow> lane \<Rightarrow> promise \<Rightarrow> bool" where
  "awaits_ok ls lane p \<longleftrightarrow> (\<forall>i \<in> set p. i < length ls \<and> conflicts (ls ! i) lane) \<and>
    (\<forall>i < length ls. conflicts (ls ! i) lane \<longrightarrow>
      i \<in> set p \<or> (\<exists>k \<in> set p. i < k \<and> conflicts (ls ! i) (ls ! k)))"

lemma conflicts_Barrier: "conflicts l Barrier \<longleftrightarrow> l \<noteq> Detached"
  by (cases l) (simp_all add: conflicts_def SEQUENCES_def)

lemma awaited_other:
  assumes "lane \<noteq> Barrier"
  shows "set (awaited st lane) = set (ln_barrier st) \<union>
    (case SEQUENCES lane of None \<Rightarrow> {} | Some s \<Rightarrow> set (map_get_or (ln_sequences st) s [])) \<union>
    (if lane = Acknowledgements then set (ln_publications st) else {})"
  using assms by (simp add: awaited_def split: option.split)

lemma latestE:
  assumes "latest P ls p" and "i < length ls" and "P (ls ! i)"
  obtains k where "k \<in> set p" and "i = k \<or> i < k" and "P (ls ! k)"
  using assms unfolding latest_def by (metis le_neq_implies_less)

lemma awaited_ok:
  assumes inv: "lanes_inv ls st"
  shows "awaits_ok ls lane (awaited st lane)"
proof (cases "lane = Barrier")
  case True
  have "set (ln_everything st) = {i. i < length ls \<and> ls ! i \<noteq> Detached}" using inv by (simp add: lanes_inv_def)
  then show ?thesis using True by (simp add: awaits_ok_def awaited_def conflicts_Barrier)
next
  case False
  have barrier: "latest (\<lambda>l. l = Barrier) ls (ln_barrier st)"
    and sequence: "latest (\<lambda>l. SEQUENCES l = Some s) ls (map_get_or (ln_sequences st) s [])"
    and publications: "set (ln_publications st) = {i. i < length ls \<and> ls ! i = Publications}" for s
    using inv by (simp_all add: lanes_inv_def)
  have "i \<in> set (awaited st lane) \<or> (\<exists>k \<in> set (awaited st lane). i < k \<and> conflicts (ls ! i) (ls ! k))"
    if i: "i < length ls" "conflicts (ls ! i) lane" for i
  proof -
    consider "ls ! i = Barrier" | s where "SEQUENCES lane = Some s" "SEQUENCES (ls ! i) = Some s"
      | "lane = Acknowledgements" "ls ! i = Publications"
      using i(2) False unfolding conflicts_def by fastforce
    then show ?thesis
    proof cases
      case 1
      obtain k where k: "k \<in> set (ln_barrier st)" "i = k \<or> i < k"
        using latestE [where P = "\<lambda>l. l = Barrier", OF barrier i(1) 1] by blast
      have "k \<in> set (awaited st lane)" using k(1) False by (simp add: awaited_other)
      moreover have "conflicts (ls ! i) (ls ! k)" using 1 by (simp add: conflicts_def)
      ultimately show ?thesis using k(2) by blast
    next
      case 2
      obtain k where k: "k \<in> set (map_get_or (ln_sequences st) s [])" "i = k \<or> i < k" "SEQUENCES (ls ! k) = Some s"
        using latestE [where P = "\<lambda>l. SEQUENCES l = Some s", OF sequence i(1) 2(2)] by blast
      have "k \<in> set (awaited st lane)" using k(1) 2(1) False by (simp add: awaited_other)
      moreover have "conflicts (ls ! i) (ls ! k)" using 2(2) k(3) by (simp add: conflicts_def)
      ultimately show ?thesis using k(2) by blast
    next
      case 3
      then have "i \<in> set (awaited st lane)" using publications i(1) by (simp add: awaited_other)
      then show ?thesis ..
    qed
  qed
  moreover have "i < length ls \<and> conflicts (ls ! i) lane" if i: "i \<in> set (awaited st lane)" for i
  proof -
    consider "i \<in> set (ln_barrier st)" | s where "SEQUENCES lane = Some s" "i \<in> set (map_get_or (ln_sequences st) s [])"
      | "lane = Acknowledgements" "i \<in> set (ln_publications st)"
      using i False by (auto simp: awaited_other split: option.splits if_splits)
    then show ?thesis
    proof cases
      case 1
      then show ?thesis using barrier by (simp add: latest_def conflicts_def)
    next
      case 2
      then show ?thesis using sequence [of s] by (simp add: latest_def conflicts_def)
    next
      case 3
      then show ?thesis using publications by (simp add: conflicts_def)
    qed
  qed
  ultimately show ?thesis by (simp add: awaits_ok_def)
qed

section \<open>Invariant of runs\<close>

abbreviation lane_of :: "lane_run \<Rightarrow> nat \<Rightarrow> lane" where
  "lane_of r i \<equiv> fst (lr_requests r ! i)"

definition run_inv :: "lane_run \<Rightarrow> bool" where
  "run_inv r \<longleftrightarrow> lanes_inv (map fst (lr_requests r)) (lr_lanes r) \<and>
    (\<forall>j < length (lr_requests r). awaits_ok (map fst (take j (lr_requests r))) (lane_of r j) (snd (lr_requests r ! j))) \<and>
    lr_settled r \<subseteq> lr_started r \<and> lr_started r \<subseteq> {..<length (lr_requests r)} \<and>
    (\<forall>i \<in> lr_started r. set (snd (lr_requests r ! i)) \<subseteq> lr_settled r)"

lemma run_inv_step: "lane_step r r' \<Longrightarrow> run_inv r \<Longrightarrow> run_inv r'"
proof (induction rule: lane_step.induct)
  case (schedule r lane after st)
  have l: "lanes_inv (map fst (lr_requests r)) (lr_lanes r)" using schedule.prems by (simp add: run_inv_def)
  have "run_request (lr_lanes r) lane (length (map fst (lr_requests r))) = (after, st)" using schedule.hyps by simp
  note s = run_request_inv [OF l this]
  have "awaits_ok (map fst (take j (lr_requests r @ [(lane, after)]))) (fst ((lr_requests r @ [(lane, after)]) ! j)) (snd ((lr_requests r @ [(lane, after)]) ! j))"
    if "j < length (lr_requests r @ [(lane, after)])" for j
  proof (cases "j < length (lr_requests r)")
    case True
    then show ?thesis using schedule.prems by (simp add: run_inv_def nth_append)
  next
    case False
    then have "j = length (lr_requests r)" using that by simp
    then show ?thesis using awaited_ok [OF l, of lane] s(2) by simp
  qed
  then show ?case using schedule.prems s(1) by (auto simp: run_inv_def nth_append)
next
  case (start r i)
  then show ?case by (auto simp: run_inv_def can_start_def)
next
  case (settle i r)
  then show ?case by (auto simp: run_inv_def)
qed

lemma run_inv_reachable: "reachable_run r \<Longrightarrow> run_inv r"
proof (induction rule: reachable_run.induct)
  case initial
  show ?case by (simp add: run_inv_def new_run_def lanes_inv_new)
next
  case (step r r')
  then show ?case by (simp add: run_inv_step)
qed

text \<open>Because what has started had nothing left to wait for, the latest requests stand for all the earlier ones.\<close>

lemma awaited_settled_iff:
  assumes "run_inv r" and "j < length (lr_requests r)"
  shows "set (snd (lr_requests r ! j)) \<subseteq> lr_settled r \<longleftrightarrow> (\<forall>i < j. conflicts (lane_of r i) (lane_of r j) \<longrightarrow> i \<in> lr_settled r)"
  using assms(2)
proof (induction j rule: less_induct)
  case (less j)
  let ?p = "snd (lr_requests r ! j)"
  have ok: "awaits_ok (map fst (take j (lr_requests r))) (lane_of r j) ?p" using assms(1) less.prems by (simp add: run_inv_def)
  have own: "i < j \<and> conflicts (lane_of r i) (lane_of r j)" if "i \<in> set ?p" for i
    using ok that less.prems by (auto simp: awaits_ok_def)
  have all: "i \<in> set ?p \<or> (\<exists>k \<in> set ?p. i < k \<and> conflicts (lane_of r i) (lane_of r k))"
    if "i < j" "conflicts (lane_of r i) (lane_of r j)" for i
  proof -
    have "i \<in> set ?p \<or> (\<exists>k \<in> set ?p. i < k \<and> conflicts (lane_of r i) (map fst (take j (lr_requests r)) ! k))"
      using ok that less.prems by (auto simp: awaits_ok_def)
    then show ?thesis using own less.prems by auto
  qed
  show ?case
  proof
    assume sub: "set ?p \<subseteq> lr_settled r"
    show "\<forall>i < j. conflicts (lane_of r i) (lane_of r j) \<longrightarrow> i \<in> lr_settled r"
    proof (intro allI impI)
      fix i
      assume i: "i < j" "conflicts (lane_of r i) (lane_of r j)"
      consider "i \<in> set ?p" | k where "k \<in> set ?p" "i < k" "conflicts (lane_of r i) (lane_of r k)" using all [OF i] by blast
      then show "i \<in> lr_settled r"
      proof cases
        case 1
        then show ?thesis using sub by blast
      next
        case 2
        then have k: "k \<in> lr_settled r" "k < j" using sub own by auto
        then have "set (snd (lr_requests r ! k)) \<subseteq> lr_settled r" using assms(1) by (auto simp: run_inv_def)
        then show ?thesis using less.IH [of k] k less.prems 2 by auto
      qed
    qed
  next
    assume "\<forall>i < j. conflicts (lane_of r i) (lane_of r j) \<longrightarrow> i \<in> lr_settled r"
    then show "set ?p \<subseteq> lr_settled r" using own by blast
  qed
qed

section \<open>Shared lease extensions\<close>

text \<open>
  \<open>AttemptLeaseExtensions\<close>. The promises of its calls are numbered in the order of the calls of \<open>extendLease\<close>. A call
  is answered by the journal at some later time; the handlers of its promise then adopt the answer, and after that
  forget the call. Other code of the coordinator sets or clears the attempt the worker holds at any time.
\<close>

record pool_work =
  pw_id :: string
  pw_generation :: nat
  pw_expiresAt :: int

definition attemptKey :: "pool_work \<Rightarrow> string" where
  "attemptKey w = pw_id w @ ''#'' @ nat_dec (pw_generation w)"

datatype call_phase = Requested | Answered | Landed

record lease_extensions =
  le_holder :: "pool_work option"
  le_inFlight :: "(string, nat) jmap"
  le_calls :: "(pool_work \<times> call_phase) list"

definition new_extensions :: lease_extensions where
  "new_extensions = \<lparr>le_holder = None, le_inFlight = [], le_calls = []\<rparr>"

definition extend :: "lease_extensions \<Rightarrow> pool_work \<Rightarrow> nat \<times> lease_extensions" where
  "extend st attempt = (case map_get (le_inFlight st) (attemptKey attempt) of
      Some joined \<Rightarrow> (joined, st)
    | None \<Rightarrow> (length (le_calls st),
        st\<lparr>le_calls := le_calls st @ [(attempt, Requested)],
           le_inFlight := map_set (le_inFlight st) (attemptKey attempt) (length (le_calls st))\<rparr>))"

definition adopt :: "lease_extensions \<Rightarrow> pool_work \<Rightarrow> lease_extensions" where
  "adopt st work = (case le_holder st of
      None \<Rightarrow> st
    | Some held \<Rightarrow> if attemptKey held = attemptKey work \<and> pw_expiresAt held \<le> pw_expiresAt work
        then st\<lparr>le_holder := Some work\<rparr> else st)"

definition extendHeld :: "lease_extensions \<Rightarrow> nat option \<times> lease_extensions" where
  "extendHeld st = (case le_holder st of None \<Rightarrow> (None, st) | Some held \<Rightarrow> map_prod Some (\<lambda>s. s) (extend st held))"

definition set_phase :: "nat \<Rightarrow> call_phase \<Rightarrow> lease_extensions \<Rightarrow> lease_extensions" where
  "set_phase i p st = st\<lparr>le_calls := (le_calls st)[i := (fst (le_calls st ! i), p)]\<rparr>"

text \<open>The answer of call \<open>i\<close>, \<open>None\<close> when it failed; then the handler that forgets the call.\<close>

definition answer_call :: "lease_extensions \<Rightarrow> nat \<Rightarrow> pool_work option \<Rightarrow> lease_extensions" where
  "answer_call st i answer =
    (if i < length (le_calls st) \<and> snd (le_calls st ! i) = Requested
     then set_phase i Answered (case answer of None \<Rightarrow> st | Some work \<Rightarrow> adopt st work) else st)"

definition land_call :: "lease_extensions \<Rightarrow> nat \<Rightarrow> lease_extensions" where
  "land_call st i =
    (if i < length (le_calls st) \<and> snd (le_calls st ! i) = Answered
     then set_phase i Landed (st\<lparr>le_inFlight := map_delete (le_inFlight st) (attemptKey (fst (le_calls st ! i)))\<rparr>) else st)"

datatype extension_event = Extend pool_work | ExtendHeld | Answer nat "pool_work option" | Land nat | Hold "pool_work option"

fun extension_step :: "lease_extensions \<Rightarrow> extension_event \<Rightarrow> lease_extensions" where
  "extension_step st (Extend w) = snd (extend st w)"
| "extension_step st ExtendHeld = snd (extendHeld st)"
| "extension_step st (Answer i a) = answer_call st i a"
| "extension_step st (Land i) = land_call st i"
| "extension_step st (Hold w) = st\<lparr>le_holder := w\<rparr>"

text \<open>A call is in flight until it has landed, and the map names exactly the calls in flight, by attempt.\<close>

definition in_flight :: "lease_extensions \<Rightarrow> string \<Rightarrow> nat \<Rightarrow> bool" where
  "in_flight st key i \<longleftrightarrow> i < length (le_calls st) \<and> snd (le_calls st ! i) \<noteq> Landed \<and> attemptKey (fst (le_calls st ! i)) = key"

definition extensions_inv :: "lease_extensions \<Rightarrow> bool" where
  "extensions_inv st \<longleftrightarrow> (\<forall>key i. map_get (le_inFlight st) key = Some i \<longleftrightarrow> in_flight st key i)"

lemma nat_dec_hash_free: "CHR ''#'' \<notin> set (nat_dec n)"
  using nat_dec_chars [of "CHR ''#''" n] by (auto simp: of_char_def)

lemma attemptKey_inject: "attemptKey v = attemptKey w \<longleftrightarrow> pw_id v = pw_id w \<and> pw_generation v = pw_generation w"
proof
  assume "attemptKey v = attemptKey w"
  then have e: "rev (nat_dec (pw_generation v)) @ CHR ''#'' # rev (pw_id v) = rev (nat_dec (pw_generation w)) @ CHR ''#'' # rev (pw_id w)"
    unfolding attemptKey_def by (metis append.simps(1) append.simps(2) append_assoc rev.simps(2) rev_append rev_rev_ident)
  have "takeWhile (\<lambda>c. c \<noteq> CHR ''#'') (rev (nat_dec n) @ CHR ''#'' # xs) = rev (nat_dec n)" for n xs
    using nat_dec_hash_free [of n] by (subst takeWhile_append2) auto
  then show "pw_id v = pw_id w \<and> pw_generation v = pw_generation w" using e by (metis append_same_eq list.inject nat_dec_inject rev_rev_ident same_append_eq)
qed (simp add: attemptKey_def)

lemma set_phase_calls [simp]: "length (le_calls (set_phase i p st)) = length (le_calls st)" "le_inFlight (set_phase i p st) = le_inFlight st"
  by (simp_all add: set_phase_def)

lemma adopt_frame [simp]: "le_calls (adopt st w) = le_calls st" "le_inFlight (adopt st w) = le_inFlight st"
  by (simp_all add: adopt_def split: option.split)

lemma extend_inv:
  assumes inv: "extensions_inv st"
  shows "extensions_inv (snd (extend st w))"
proof (cases "map_get (le_inFlight st) (attemptKey w)")
  case None
  have fresh: "\<not> in_flight st (attemptKey w) i" for i using inv None unfolding extensions_inv_def by (metis option.distinct(1))
  have "in_flight (snd (extend st w)) key i \<longleftrightarrow> in_flight st key i \<or> (i = length (le_calls st) \<and> key = attemptKey w)" for key i
    using None by (auto simp: extend_def in_flight_def nth_append less_Suc_eq)
  then show ?thesis using inv None fresh by (auto simp: extensions_inv_def extend_def)
next
  case (Some joined)
  then show ?thesis using inv by (simp add: extend_def)
qed

lemma answer_inv:
  assumes "extensions_inv st"
  shows "extensions_inv (answer_call st i a)"
proof -
  have "in_flight (answer_call st i a) key j = in_flight st key j" for key j
    by (cases a; cases "i = j") (auto simp: answer_call_def in_flight_def set_phase_def)
  moreover have "le_inFlight (answer_call st i a) = le_inFlight st" by (cases a) (simp_all add: answer_call_def)
  ultimately show ?thesis using assms by (simp add: extensions_inv_def)
qed

lemma land_inv:
  assumes inv: "extensions_inv st"
  shows "extensions_inv (land_call st i)"
proof (cases "i < length (le_calls st) \<and> snd (le_calls st ! i) = Answered")
  case True
  let ?key = "attemptKey (fst (le_calls st ! i))"
  have own: "map_get (le_inFlight st) ?key = Some i" using inv True by (simp add: extensions_inv_def in_flight_def)
  have "in_flight (land_call st i) key j \<longleftrightarrow> in_flight st key j \<and> j \<noteq> i" for key j
    using True by (cases "i = j") (auto simp: land_call_def in_flight_def set_phase_def)
  moreover have "map_get (le_inFlight (land_call st i)) key = (if key = ?key then None else map_get (le_inFlight st) key)" for key
    using True by (simp add: land_call_def)
  moreover have "in_flight st ?key j \<Longrightarrow> j = i" for j using inv own unfolding extensions_inv_def by (metis option.inject)
  moreover have "in_flight st key i \<Longrightarrow> key = ?key" for key by (simp add: in_flight_def)
  ultimately show ?thesis using inv unfolding extensions_inv_def by (metis option.distinct(1))
next
  case False
  then have "land_call st i = st" by (auto simp: land_call_def)
  then show ?thesis using inv by simp
qed

lemma extension_step_inv: "extensions_inv st \<Longrightarrow> extensions_inv (extension_step st e)"
proof (induction e rule: extension_event.induct)
  case ExtendHeld
  then show ?case using extend_inv by (simp add: extendHeld_def snd_map_prod split: option.split)
next
  case (Hold w)
  then show ?case by (simp add: extensions_inv_def in_flight_def)
qed (simp_all add: extend_inv answer_inv land_inv)

lemma extend_joins:
  assumes inv: "extensions_inv st"
  shows "if \<exists>i. in_flight st (attemptKey w) i then in_flight st (attemptKey w) (fst (extend st w)) \<and> snd (extend st w) = st
    else fst (extend st w) = length (le_calls st) \<and> le_calls (snd (extend st w)) = le_calls st @ [(w, Requested)]"
proof (cases "map_get (le_inFlight st) (attemptKey w)")
  case None
  have "\<not> in_flight st (attemptKey w) i" for i using inv None unfolding extensions_inv_def by (metis option.distinct(1))
  then show ?thesis using None by (simp add: extend_def)
next
  case (Some joined)
  then have "in_flight st (attemptKey w) joined" using inv by (simp add: extensions_inv_def)
  then show ?thesis using Some by (auto simp: extend_def)
qed

interpretation lease_calls: step_system extension_step new_extensions extensions_inv
proof
  show "extensions_inv new_extensions" by (simp add: extensions_inv_def new_extensions_def in_flight_def)
qed (rule extension_step_inv)

section \<open>Theorems\<close>

text \<open>
  C37. The lanes order exactly what they are meant to order: in every reachable run a request that has not started may
  start just when every earlier request it conflicts with has settled, whatever else is in flight. So a barrier runs
  alone but for detached requests, commits and heartbeats each run one at a time in the order they were sent, and an
  acknowledgement comes after every earlier publication.
\<close>
theorem lanes_order_conflicts:
  assumes "reachable_run r" and "j < length (lr_requests r)" and "j \<notin> lr_started r"
  shows "can_start r j = (\<forall>i < j. conflicts (lane_of r i) (lane_of r j) \<longrightarrow> i \<in> lr_settled r)"
  using awaited_settled_iff [OF run_inv_reachable [OF assms(1)] assms(2)] assms(2,3) by (simp add: can_start_def)

text \<open>A commit, a barrier and a heartbeat, scheduled in that order; the commit has started and settled.\<close>

definition sample_run :: lane_run where
  "sample_run = \<lparr>lr_lanes = snd (run_request (snd (run_request (snd (run_request new_lanes Commits 0)) Barrier 1)) Heartbeats 2),
    lr_requests = [(Commits, []), (Barrier, [0]), (Heartbeats, [1])], lr_started = {0}, lr_settled = {0}\<rparr>"

lemma sample_run_reachable: "reachable_run sample_run"
proof -
  let ?r1 = "new_run\<lparr>lr_lanes := snd (run_request new_lanes Commits 0), lr_requests := [(Commits, [])]\<rparr>"
  let ?r2 = "?r1\<lparr>lr_lanes := snd (run_request (lr_lanes ?r1) Barrier 1), lr_requests := [(Commits, []), (Barrier, [0])]\<rparr>"
  let ?r3 = "?r2\<lparr>lr_lanes := snd (run_request (lr_lanes ?r2) Heartbeats 2), lr_requests := [(Commits, []), (Barrier, [0]), (Heartbeats, [1])]\<rparr>"
  let ?r4 = "?r3\<lparr>lr_started := insert 0 (lr_started ?r3)\<rparr>"
  note eval = run_request_def awaited_def new_lanes_def new_run_def SEQUENCES_def set_add_all_def set_add_def map_get_or_def map_get_def Let_def
  have "lane_step new_run ?r1" using lane_step.schedule [of new_run Commits "[]" "snd (run_request new_lanes Commits 0)"] by (simp add: eval)
  moreover have "lane_step ?r1 ?r2" using lane_step.schedule [of ?r1 Barrier "[0]" "lr_lanes ?r2"] by (simp add: eval)
  moreover have "lane_step ?r2 ?r3" using lane_step.schedule [of ?r2 Heartbeats "[1]" "lr_lanes ?r3"] by (simp add: eval)
  moreover have "lane_step ?r3 ?r4" by (rule lane_step.start) (simp add: can_start_def new_run_def)
  moreover have "lane_step ?r4 (?r4\<lparr>lr_settled := insert 0 (lr_settled ?r4)\<rparr>)" by (rule lane_step.settle) simp
  moreover have "?r4\<lparr>lr_settled := insert 0 (lr_settled ?r4)\<rparr> = sample_run" by (simp add: sample_run_def new_run_def)
  ultimately show ?thesis by (metis reachable_run.initial reachable_run.step)
qed

theorem lanes_order_conflicts_witness: "can_start sample_run 1 \<and> \<not> can_start sample_run 2"
  using lanes_order_conflicts [OF sample_run_reachable, of 1] lanes_order_conflicts [OF sample_run_reachable, of 2]
  by (auto simp: sample_run_def conflicts_def less_Suc_eq numeral_2_eq_2)

text \<open>
  Two requests that conflict never overlap, and the lanes never deadlock: whenever no request is running and some
  scheduled request has not started, one of them can start.
\<close>
theorem lanes_exclusive_and_live:
  assumes "reachable_run r"
  shows "(\<forall>i j. i < j \<and> j \<in> lr_started r \<and> conflicts (lane_of r i) (lane_of r j) \<longrightarrow> i \<in> lr_settled r) \<and>
    (lr_started r = lr_settled r \<and> lr_started r \<noteq> {..<length (lr_requests r)} \<longrightarrow> (\<exists>j. can_start r j))"
proof (intro conjI allI impI)
  have inv: "run_inv r" by (rule run_inv_reachable [OF assms])
  fix i j
  assume a: "i < j \<and> j \<in> lr_started r \<and> conflicts (lane_of r i) (lane_of r j)"
  then have "j < length (lr_requests r)" "set (snd (lr_requests r ! j)) \<subseteq> lr_settled r" using inv by (auto simp: run_inv_def)
  then show "i \<in> lr_settled r" using awaited_settled_iff [OF inv] a by blast
next
  have inv: "run_inv r" by (rule run_inv_reachable [OF assms])
  assume a: "lr_started r = lr_settled r \<and> lr_started r \<noteq> {..<length (lr_requests r)}"
  then have ex: "\<exists>j. j < length (lr_requests r) \<and> j \<notin> lr_started r" using inv by (auto simp: run_inv_def)
  define j where "j = (LEAST j. j < length (lr_requests r) \<and> j \<notin> lr_started r)"
  have j: "j < length (lr_requests r)" "j \<notin> lr_started r" using LeastI_ex [OF ex] by (auto simp: j_def)
  have "i \<in> lr_settled r" if "i < j" for i
    using not_less_Least [of i "\<lambda>j. j < length (lr_requests r) \<and> j \<notin> lr_started r"] that j(1) a by (auto simp: j_def)
  then have "can_start r j" using awaited_settled_iff [OF inv j(1)] j by (simp add: can_start_def)
  then show "\<exists>j. can_start r j" by blast
qed

theorem lanes_exclusive_and_live_witness: "\<exists>j. can_start sample_run j"
proof -
  have "(1::nat) \<in> {..<3}" "(1::nat) \<notin> {0}" by simp_all
  then have "{0} \<noteq> {..<3::nat}" by blast
  then show ?thesis using lanes_exclusive_and_live [OF sample_run_reachable] by (simp add: sample_run_def eval_nat_numeral)
qed

text \<open>
  Extensions of one attempt's lease are shared and never harm what the worker holds. After any sequence of events
  the calls still in flight belong to different attempts; a request for an attempt whose call is in flight joins that
  call, and otherwise starts one. Whatever a call answers, and however late, the worker keeps holding the attempt it
  held, with an expiry no earlier than before; it never takes up an attempt through an answer.
\<close>
theorem lease_extensions_shared:
  fixes events
  defines "st \<equiv> foldl extension_step new_extensions events"
  shows "(\<forall>key i j. in_flight st key i \<and> in_flight st key j \<longrightarrow> i = j) \<and>
    (if \<exists>i. in_flight st (attemptKey w) i then in_flight st (attemptKey w) (fst (extend st w)) \<and> snd (extend st w) = st
     else fst (extend st w) = length (le_calls st) \<and> le_calls (snd (extend st w)) = le_calls st @ [(w, Requested)]) \<and>
    (case le_holder st of
        None \<Rightarrow> le_holder (answer_call st i answer) = None
      | Some held \<Rightarrow> \<exists>held'. le_holder (answer_call st i answer) = Some held' \<and> pw_id held' = pw_id held \<and>
          pw_generation held' = pw_generation held \<and> pw_expiresAt held \<le> pw_expiresAt held')"
proof (intro conjI allI impI)
  have inv: "extensions_inv st" unfolding st_def by (rule lease_calls.inv_run)
  show "i = j" if "in_flight st key i \<and> in_flight st key j" for key i j
    using inv that unfolding extensions_inv_def by (metis option.inject)
  show "if \<exists>i. in_flight st (attemptKey w) i then in_flight st (attemptKey w) (fst (extend st w)) \<and> snd (extend st w) = st
     else fst (extend st w) = length (le_calls st) \<and> le_calls (snd (extend st w)) = le_calls st @ [(w, Requested)]"
    by (rule extend_joins [OF inv])
  show "case le_holder st of None \<Rightarrow> le_holder (answer_call st i answer) = None
      | Some held \<Rightarrow> \<exists>held'. le_holder (answer_call st i answer) = Some held' \<and> pw_id held' = pw_id held \<and>
          pw_generation held' = pw_generation held \<and> pw_expiresAt held \<le> pw_expiresAt held'"
    by (cases answer) (auto simp: answer_call_def set_phase_def adopt_def attemptKey_inject split: option.split)
qed

definition sample_work :: "int \<Rightarrow> pool_work" where
  "sample_work e = \<lparr>pw_id = ''w'', pw_generation = 1, pw_expiresAt = e\<rparr>"

theorem lease_extensions_shared_witness:
  "le_holder (foldl extension_step new_extensions [Hold (Some (sample_work 5)), ExtendHeld, Extend (sample_work 5), Answer 0 (Some (sample_work 9))])
     = Some (sample_work 9) \<and>
   fst (extend (foldl extension_step new_extensions [Hold (Some (sample_work 5)), ExtendHeld]) (sample_work 5)) = 0"
  using lease_extensions_shared [of "[Hold (Some (sample_work 5)), ExtendHeld]" "sample_work 5" 0 "Some (sample_work 9)"]
  by (simp add: extend_def extendHeld_def answer_call_def adopt_def set_phase_def new_extensions_def map_get_def in_flight_def attemptKey_inject sample_work_def)

end
