(* ===== verification/Pool_Places.thy ===== *)
theory Pool_Places
  imports Prelude
begin

text \<open>
  The places of a worker pool (\<^verbatim>\<open>packages/workflows/src/workers/waiting-workers.ts\<close>). A pool runs at most \<open>count\<close> attempts
  at once; an attempt that only waits for a person or a detached tool gives its place back and asks for one when it
  wakes. The theory models the coordinator's side (\<open>PoolPlaces\<close>, \<open>WaitingWorkerReserve\<close>), the worker's side
  (\<open>AttemptPlace\<close>), what an attempt's published runs show (\<open>attemptWaitsReleased\<close>), and the two sides together, with
  requests and replies that take any time.
\<close>

section \<open>When an attempt waits released\<close>

datatype stage_status = SPending | SRunning | SAwaitingInput | SPaused | SBlocked | SWaiting | SCompleted | SFailed | SSkipped

datatype tool_status = TPending | TRunning | TCompleted | TFailed | TCached | TCancelled

datatype wait_kind = ToolWait | ReleaseWait | PromptWait | IdleWait

record stage_view =
  sv_status :: stage_status
  sv_wait :: "wait_kind option"

record run_view =
  rv_toolNodes :: "tool_status list"
  rv_stages :: "stage_view list"

definition isTerminalStageStatus :: "stage_status \<Rightarrow> bool" where
  "isTerminalStageStatus s \<longleftrightarrow> s = SCompleted \<or> s = SFailed \<or> s = SSkipped"

definition OUTSIDE_WAITS :: "wait_kind list" where
  "OUTSIDE_WAITS = [ToolWait, PromptWait]"

text \<open>The inner loop over the stages of a run: \<open>None\<close> is the early return of false.\<close>

fun scan_stages :: "stage_view list \<Rightarrow> bool \<Rightarrow> bool option" where
  "scan_stages [] waits = Some waits"
| "scan_stages (s # ss) waits =
    (if isTerminalStageStatus (sv_status s) then scan_stages ss waits
     else if sv_wait s = None \<or> the (sv_wait s) \<notin> set OUTSIDE_WAITS then None
     else scan_stages ss True)"

fun scan_runs :: "run_view list \<Rightarrow> bool \<Rightarrow> bool" where
  "scan_runs [] waits = waits"
| "scan_runs (r # rs) waits =
    (if TRunning \<in> set (rv_toolNodes r) then False
     else case scan_stages (rv_stages r) waits of None \<Rightarrow> False | Some w \<Rightarrow> scan_runs rs w)"

definition attemptWaitsReleased :: "run_view list \<Rightarrow> bool" where
  "attemptWaitsReleased rs = scan_runs rs False"

definition live :: "stage_view \<Rightarrow> bool" where
  "live s \<longleftrightarrow> \<not> isTerminalStageStatus (sv_status s)"

definition waits_outside :: "stage_view \<Rightarrow> bool" where
  "waits_outside s \<longleftrightarrow> sv_wait s = Some ToolWait \<or> sv_wait s = Some PromptWait"

lemma scan_stages_eq:
  "scan_stages ss waits =
    (if \<forall>s \<in> set ss. live s \<longrightarrow> waits_outside s then Some (waits \<or> (\<exists>s \<in> set ss. live s)) else None)"
  by (induction ss waits rule: scan_stages.induct) (auto simp: live_def waits_outside_def OUTSIDE_WAITS_def)

lemma scan_runs_eq:
  "scan_runs rs waits \<longleftrightarrow>
    (\<forall>r \<in> set rs. TRunning \<notin> set (rv_toolNodes r) \<and> (\<forall>s \<in> set (rv_stages r). live s \<longrightarrow> waits_outside s)) \<and>
    (waits \<or> (\<exists>r \<in> set rs. \<exists>s \<in> set (rv_stages r). live s))"
proof (induction rs arbitrary: waits)
  case (Cons r rs)
  show ?case unfolding scan_runs.simps scan_stages_eq
    using Cons [of "waits \<or> (\<exists>s \<in> set (rv_stages r). live s)"] by auto
qed simp

section \<open>The reserve of extra workers\<close>

definition grow :: "nat \<Rightarrow> nat \<Rightarrow> nat \<Rightarrow> nat \<times> nat" where
  "grow extra waiting count = (let wanted = min waiting count - extra in (wanted, extra + wanted))"

definition shrink :: "nat \<Rightarrow> nat \<Rightarrow> nat \<Rightarrow> bool \<times> nat" where
  "shrink extra waiting count = (if extra \<le> min waiting count then (False, extra) else (True, extra - 1))"

definition lost :: "nat \<Rightarrow> nat" where
  "lost extra = extra - 1"

datatype reserve_op = Grow nat | Shrink nat | Lost

fun reserve_step :: "nat \<Rightarrow> nat \<Rightarrow> reserve_op \<Rightarrow> nat" where
  "reserve_step count extra (Grow waiting) = snd (grow extra waiting count)"
| "reserve_step count extra (Shrink waiting) = snd (shrink extra waiting count)"
| "reserve_step count extra Lost = lost extra"

interpretation reserve: step_system "reserve_step count" 0 "\<lambda>extra. extra \<le> count" for count
proof
  fix extra :: nat and a
  show "extra \<le> count \<Longrightarrow> reserve_step count extra a \<le> count"
    by (cases a) (auto simp: grow_def shrink_def lost_def Let_def)
qed simp

section \<open>Places\<close>

text \<open>A request is answered once; its number names the promise of \<open>reacquire\<close>, and the answers are those given so far.\<close>

record 'h places =
  pl_holders :: "'h jset"
  pl_released :: "'h jset"
  pl_queue :: "('h \<times> nat) list"
  pl_answers :: "(nat \<times> bool) list"
  pl_next :: nat

definition new_places :: "'h places" where
  "new_places = \<lparr>pl_holders = [], pl_released = [], pl_queue = [], pl_answers = [], pl_next = 0\<rparr>"

function grant_places :: "nat \<Rightarrow> 'h places \<Rightarrow> 'h places" where
  "grant_places count st = (case pl_queue st of
      [] \<Rightarrow> st
    | (h, i) # rest \<Rightarrow>
        if length (pl_holders st) < count
        then grant_places count (st\<lparr>pl_queue := rest, pl_released := set_delete (pl_released st) h,
          pl_holders := set_add (pl_holders st) h, pl_answers := pl_answers st @ [(i, True)]\<rparr>)
        else st)"
  by pat_completeness auto
termination by (relation "measure (\<lambda>(count, st). length (pl_queue st))") auto

declare grant_places.simps [simp del]

definition claim_place :: "nat \<Rightarrow> 'h places \<Rightarrow> 'h \<Rightarrow> bool \<times> 'h places" where
  "claim_place count st h =
    (if count \<le> length (pl_holders st) then (False, st) else (True, st\<lparr>pl_holders := set_add (pl_holders st) h\<rparr>))"

definition release_place :: "nat \<Rightarrow> 'h places \<Rightarrow> 'h \<Rightarrow> 'h places" where
  "release_place count st h =
    grant_places count (st\<lparr>pl_holders := set_delete (pl_holders st) h, pl_released := set_add (pl_released st) h\<rparr>)"

definition reacquire_place :: "nat \<Rightarrow> 'h places \<Rightarrow> 'h \<Rightarrow> nat \<times> 'h places" where
  "reacquire_place count st h = (pl_next st,
    if h \<notin> set (pl_released st) then st\<lparr>pl_next := Suc (pl_next st), pl_answers := pl_answers st @ [(pl_next st, True)]\<rparr>
    else grant_places count (st\<lparr>pl_next := Suc (pl_next st), pl_queue := pl_queue st @ [(h, pl_next st)]\<rparr>))"

text \<open>Takes the first request of the holder out of the queue.\<close>

fun take_request :: "'h \<Rightarrow> ('h \<times> nat) list \<Rightarrow> nat option \<times> ('h \<times> nat) list" where
  "take_request h [] = (None, [])"
| "take_request h ((h', i) # q) = (if h' = h then (Some i, q) else map_prod (\<lambda>x. x) (Cons (h', i)) (take_request h q))"

definition end_place :: "nat \<Rightarrow> 'h places \<Rightarrow> 'h \<Rightarrow> 'h places" where
  "end_place count st h =
    (let (request, queue) = take_request h (pl_queue st) in
     grant_places count (st\<lparr>pl_holders := set_delete (pl_holders st) h, pl_released := set_delete (pl_released st) h,
       pl_queue := queue, pl_answers := pl_answers st @ (case request of None \<Rightarrow> [] | Some i \<Rightarrow> [(i, False)])\<rparr>))"

section \<open>The worker's side\<close>

datatype taking = AwaitingRelease | Asking

record attempt_place =
  ap_held :: bool
  ap_releasing :: bool
  ap_taking :: "taking option"

datatype ask = AskRelease | AskReacquire

datatype 'e take_outcome = Returns | Throws 'e | Waits

definition new_attempt_place :: attempt_place where
  "new_attempt_place = \<lparr>ap_held = True, ap_releasing = False, ap_taking = None\<rparr>"

definition observe :: "attempt_place \<Rightarrow> bool \<Rightarrow> ask list \<times> attempt_place" where
  "observe st waits = (if \<not> waits \<or> \<not> ap_held st then ([], st) else ([AskRelease], st\<lparr>ap_held := False, ap_releasing := True\<rparr>))"

text \<open>The release was answered, or failed; \<open>failed\<close> is then called with the error.\<close>

definition release_settled :: "attempt_place \<Rightarrow> 'e option \<Rightarrow> 'e list \<times> attempt_place" where
  "release_settled st error = (case error of None \<Rightarrow> [] | Some e \<Rightarrow> [e], st\<lparr>ap_releasing := False\<rparr>)"

definition take_place :: "attempt_place \<Rightarrow> 'e option \<Rightarrow> 'e take_outcome \<times> attempt_place" where
  "take_place st aborted =
    (if ap_held st then (Returns, st)
     else case aborted of
         Some reason \<Rightarrow> (Throws reason, st)
       | None \<Rightarrow> (Waits, if ap_taking st = None then st\<lparr>ap_taking := Some AwaitingRelease\<rparr> else st))"

text \<open>\<open>reacquire\<close> in its two parts: after the release has settled it asks, and after the answer it ends.\<close>

definition reacquire_ask :: "attempt_place \<Rightarrow> ask list \<times> attempt_place" where
  "reacquire_ask st =
    (if ap_taking st = Some AwaitingRelease \<and> \<not> ap_releasing st then ([AskReacquire], st\<lparr>ap_taking := Some Asking\<rparr>) else ([], st))"

definition reacquire_answered :: "attempt_place \<Rightarrow> 'e + bool \<Rightarrow> 'e \<Rightarrow> 'e option \<times> attempt_place" where
  "reacquire_answered st answer fenced = (case answer of
      Inl error \<Rightarrow> (Some error, st\<lparr>ap_taking := None\<rparr>)
    | Inr granted \<Rightarrow> if granted then (None, st\<lparr>ap_held := True, ap_taking := None\<rparr>) else (Some fenced, st\<lparr>ap_taking := None\<rparr>))"

section \<open>Granting\<close>

text \<open>Granting answers a prefix of the queue, in order, and stops only when the queue is empty or no place is left.\<close>

definition granted :: "nat \<Rightarrow> 'h places \<Rightarrow> 'h places" where
  "granted n st = st\<lparr>pl_queue := drop n (pl_queue st),
    pl_released := set_delete_all (pl_released st) (map fst (take n (pl_queue st))),
    pl_holders := set_add_all (pl_holders st) (map fst (take n (pl_queue st))),
    pl_answers := pl_answers st @ map (\<lambda>(h, i). (i, True)) (take n (pl_queue st))\<rparr>"

lemma granted_0: "granted 0 st = st"
  by (simp add: granted_def set_delete_all_def set_add_all_def)

lemma granted_Suc:
  "pl_queue st = (h, i) # rest \<Longrightarrow>
    granted (Suc n) st = granted n (st\<lparr>pl_queue := rest, pl_released := set_delete (pl_released st) h,
      pl_holders := set_add (pl_holders st) h, pl_answers := pl_answers st @ [(i, True)]\<rparr>)"
  by (simp add: granted_def set_delete_all_def set_add_all_def)

lemma length_set_add: "length (set_add s x) = (if x \<in> set s then length s else Suc (length s))"
  by (simp add: set_add_def)

lemma grant_places_prefix:
  "\<exists>n \<le> length (pl_queue st). grant_places count st = granted n st \<and>
    (n = length (pl_queue st) \<or> count \<le> length (pl_holders (granted n st)))"
proof (induction count st rule: grant_places.induct)
  case (1 count st)
  show ?case
  proof (cases "pl_queue st")
    case Nil
    then show ?thesis by (simp add: grant_places.simps granted_0)
  next
    case (Cons r rest)
    obtain h i where r: "r = (h, i)" by (cases r)
    show ?thesis
    proof (cases "length (pl_holders st) < count")
      case True
      let ?st = "st\<lparr>pl_queue := rest, pl_released := set_delete (pl_released st) h,
        pl_holders := set_add (pl_holders st) h, pl_answers := pl_answers st @ [(i, True)]\<rparr>"
      obtain n where n: "n \<le> length rest" "grant_places count ?st = granted n ?st"
        "n = length rest \<or> count \<le> length (pl_holders (granted n ?st))"
        using 1 [OF Cons r [symmetric] True] by auto
      have "grant_places count st = granted (Suc n) st"
        using True Cons r n(2) by (subst grant_places.simps) (simp add: granted_Suc)
      moreover have "granted n ?st = granted (Suc n) st" using Cons r by (simp add: granted_Suc)
      ultimately show ?thesis using n(1,3) Cons by (intro exI [of _ "Suc n"]) auto
    next
      case False
      then show ?thesis using Cons r by (subst grant_places.simps) (auto simp: granted_0 intro: exI [of _ 0])
    qed
  qed
qed

lemma grant_places_bounded: "length (pl_holders st) \<le> count \<Longrightarrow> length (pl_holders (grant_places count st)) \<le> count"
proof (induction count st rule: grant_places.induct)
  case (1 count st)
  show ?case
    using 1 by (subst grant_places.simps) (auto simp: length_set_add split: list.split)
qed

lemma grant_places_full: "pl_queue (grant_places count st) = [] \<or> count \<le> length (pl_holders (grant_places count st))"
  using grant_places_prefix [of st count] by (auto simp: granted_def)

lemma grant_places_distinct: "distinct (pl_holders st) \<Longrightarrow> distinct (pl_holders (grant_places count st))"
  using grant_places_prefix [of st count] by (auto simp: granted_def)

lemma grant_places_next [simp]: "pl_next (grant_places count st) = pl_next st"
  using grant_places_prefix [of st count] by (auto simp: granted_def)

section \<open>Invariant of the coordinator\<close>

text \<open>At most \<open>count\<close> places are held, and none is free while a woken attempt waits.\<close>

definition places_inv :: "nat \<Rightarrow> 'h places \<Rightarrow> bool" where
  "places_inv count st \<longleftrightarrow> distinct (pl_holders st) \<and> length (pl_holders st) \<le> count \<and>
    (pl_queue st = [] \<or> count \<le> length (pl_holders st))"

lemma places_inv_grant:
  "distinct (pl_holders st) \<Longrightarrow> length (pl_holders st) \<le> count \<Longrightarrow> places_inv count (grant_places count st)"
  by (simp add: places_inv_def grant_places_distinct grant_places_bounded grant_places_full)

lemma length_set_delete_le: "length (set_delete s x) \<le> length s"
  by (simp add: set_delete_def)

datatype 'h place_op = Claim 'h | Release 'h | Reacquire 'h | End 'h

fun place_step :: "nat \<Rightarrow> 'h places \<Rightarrow> 'h place_op \<Rightarrow> 'h places" where
  "place_step count st (Claim h) = snd (claim_place count st h)"
| "place_step count st (Release h) = release_place count st h"
| "place_step count st (Reacquire h) = snd (reacquire_place count st h)"
| "place_step count st (End h) = end_place count st h"

lemma place_step_inv:
  assumes inv: "places_inv count st"
  shows "places_inv count (place_step count st a)"
proof (cases a)
  case (Claim h)
  then show ?thesis using inv by (auto simp: claim_place_def places_inv_def length_set_add)
next
  case (Release h)
  then show ?thesis using inv length_set_delete_le [of "pl_holders st" h]
    by (auto simp: release_place_def places_inv_def [of _ st] intro!: places_inv_grant)
next
  case (Reacquire h)
  have "places_inv count (grant_places count (st\<lparr>pl_next := Suc (pl_next st), pl_queue := pl_queue st @ [(h, pl_next st)]\<rparr>))"
    using inv by (intro places_inv_grant) (auto simp: places_inv_def)
  then show ?thesis using inv Reacquire by (simp add: reacquire_place_def) (simp add: places_inv_def)
next
  case (End h)
  then show ?thesis using inv length_set_delete_le [of "pl_holders st" h]
    by (auto simp: end_place_def places_inv_def [of _ st] intro!: places_inv_grant split: prod.split)
qed

interpretation pool_places: step_system "place_step count" new_places "places_inv count" for count
  by unfold_locales (simp_all add: place_step_inv, simp add: places_inv_def new_places_def)

section \<open>Both sides together\<close>

text \<open>
  Each attempt the coordinator runs has a side in its worker. \<open>sd_handled\<close> says that the coordinator has handled the
  release the worker asked for and its reply is under way; \<open>sd_request\<close> is the number of the request the coordinator
  has entered for it, until the worker receives the answer. Messages of an attempt that has ended are dropped.
\<close>

record side =
  sd_place :: attempt_place
  sd_handled :: bool
  sd_request :: "nat option"

record 'h place_system =
  sy_pool :: "'h places"
  sy_attempts :: "'h \<rightharpoonup> side"

definition new_side :: side where
  "new_side = \<lparr>sd_place = new_attempt_place, sd_handled = False, sd_request = None\<rparr>"

definition new_system :: "'h place_system" where
  "new_system = \<lparr>sy_pool = new_places, sy_attempts = (\<lambda>_. None)\<rparr>"

inductive system_step :: "nat \<Rightarrow> 'h place_system \<Rightarrow> 'h place_system \<Rightarrow> bool" for count where
  claims: "sy_attempts s h = None \<Longrightarrow> claim_place count (sy_pool s) h = (True, pool) \<Longrightarrow>
    system_step count s \<lparr>sy_pool = pool, sy_attempts = (sy_attempts s)(h \<mapsto> new_side)\<rparr>"
| observes: "sy_attempts s h = Some a \<Longrightarrow>
    system_step count s (s\<lparr>sy_attempts := (sy_attempts s)(h \<mapsto> a\<lparr>sd_place := snd (observe (sd_place a) waits)\<rparr>)\<rparr>)"
| release_handled: "sy_attempts s h = Some a \<Longrightarrow> ap_releasing (sd_place a) \<Longrightarrow> \<not> sd_handled a \<Longrightarrow>
    system_step count s \<lparr>sy_pool = release_place count (sy_pool s) h, sy_attempts = (sy_attempts s)(h \<mapsto> a\<lparr>sd_handled := True\<rparr>)\<rparr>"
| release_replied: "sy_attempts s h = Some a \<Longrightarrow> sd_handled a \<Longrightarrow>
    system_step count s (s\<lparr>sy_attempts := (sy_attempts s)(h \<mapsto>
      a\<lparr>sd_handled := False, sd_place := snd (release_settled (sd_place a) (None :: unit option))\<rparr>)\<rparr>)"
| takes: "sy_attempts s h = Some a \<Longrightarrow>
    system_step count s (s\<lparr>sy_attempts := (sy_attempts s)(h \<mapsto> a\<lparr>sd_place := snd (take_place (sd_place a) (aborted :: unit option))\<rparr>)\<rparr>)"
| asks: "sy_attempts s h = Some a \<Longrightarrow>
    system_step count s (s\<lparr>sy_attempts := (sy_attempts s)(h \<mapsto> a\<lparr>sd_place := snd (reacquire_ask (sd_place a))\<rparr>)\<rparr>)"
| ask_handled: "sy_attempts s h = Some a \<Longrightarrow> ap_taking (sd_place a) = Some Asking \<Longrightarrow> sd_request a = None \<Longrightarrow>
    reacquire_place count (sy_pool s) h = (i, pool) \<Longrightarrow>
    system_step count s \<lparr>sy_pool = pool, sy_attempts = (sy_attempts s)(h \<mapsto> a\<lparr>sd_request := Some i\<rparr>)\<rparr>"
| ask_replied: "sy_attempts s h = Some a \<Longrightarrow> sd_request a = Some i \<Longrightarrow> (i, b) \<in> set (pl_answers (sy_pool s)) \<Longrightarrow>
    system_step count s (s\<lparr>sy_attempts := (sy_attempts s)(h \<mapsto>
      a\<lparr>sd_request := None, sd_place := snd (reacquire_answered (sd_place a) (Inr b) ())\<rparr>)\<rparr>)"
| ends: "sy_attempts s h = Some a \<Longrightarrow>
    system_step count s \<lparr>sy_pool = end_place count (sy_pool s) h, sy_attempts = (sy_attempts s)(h := None)\<rparr>"

inductive reachable_system :: "nat \<Rightarrow> 'h place_system \<Rightarrow> bool" for count where
  initial: "reachable_system count new_system"
| step: "reachable_system count s \<Longrightarrow> system_step count s s' \<Longrightarrow> reachable_system count s'"

text \<open>Where an attempt stands, by what its worker knows and what the coordinator has recorded.\<close>

definition side_ok :: "'h places \<Rightarrow> 'h \<Rightarrow> side \<Rightarrow> bool" where
  "side_ok pool h a \<longleftrightarrow>
    (if ap_held (sd_place a)
     then h \<in> set (pl_holders pool) \<and> \<not> ap_releasing (sd_place a) \<and> \<not> sd_handled a \<and> ap_taking (sd_place a) = None \<and> sd_request a = None
     else if ap_releasing (sd_place a)
     then sd_request a = None \<and> ap_taking (sd_place a) \<noteq> Some Asking \<and>
       (if sd_handled a then h \<in> set (pl_released pool) \<and> h \<notin> fst ` set (pl_queue pool) else h \<in> set (pl_holders pool))
     else \<not> sd_handled a \<and> (case sd_request a of
         None \<Rightarrow> h \<in> set (pl_released pool) \<and> h \<notin> fst ` set (pl_queue pool)
       | Some i \<Rightarrow> ap_taking (sd_place a) = Some Asking \<and>
           ((h \<in> set (pl_released pool) \<and> (h, i) \<in> set (pl_queue pool)) \<or>
            (h \<in> set (pl_holders pool) \<and> (i, True) \<in> set (pl_answers pool)))))"

definition pool_ok :: "'h places \<Rightarrow> bool" where
  "pool_ok pool \<longleftrightarrow> set (pl_holders pool) \<inter> set (pl_released pool) = {} \<and>
    distinct (map fst (pl_queue pool)) \<and> fst ` set (pl_queue pool) \<subseteq> set (pl_released pool) \<and>
    distinct (map snd (pl_queue pool) @ map fst (pl_answers pool)) \<and>
    (\<forall>i \<in> snd ` set (pl_queue pool) \<union> fst ` set (pl_answers pool). i < pl_next pool)"

definition system_ok :: "'h places \<Rightarrow> ('h \<rightharpoonup> side) \<Rightarrow> bool" where
  "system_ok pool A \<longleftrightarrow> pool_ok pool \<and> dom A = set (pl_holders pool) \<union> set (pl_released pool) \<and>
    (\<forall>h a. A h = Some a \<longrightarrow> side_ok pool h a)"

text \<open>One place granted to the first of the queue.\<close>

lemma system_ok_grant_one:
  assumes ok: "system_ok pool A" and q: "pl_queue pool = (h, i) # rest"
  shows "system_ok (pool\<lparr>pl_queue := rest, pl_released := set_delete (pl_released pool) h,
      pl_holders := set_add (pl_holders pool) h, pl_answers := pl_answers pool @ [(i, True)]\<rparr>) A"
    (is "system_ok ?pool A")
proof -
  have p: "pool_ok pool" and dom: "dom A = set (pl_holders pool) \<union> set (pl_released pool)"
    and sides: "\<And>h a. A h = Some a \<Longrightarrow> side_ok pool h a"
    using ok by (auto simp: system_ok_def)
  have released: "h \<in> set (pl_released pool)" "h \<notin> set (pl_holders pool)" "h \<notin> fst ` set rest" "i \<notin> snd ` set rest"
    using p q by (auto simp: pool_ok_def)
  have "pool_ok ?pool" using p q by (auto simp: pool_ok_def)
  moreover have "dom A = set (pl_holders ?pool) \<union> set (pl_released ?pool)" using dom released by auto
  moreover have "side_ok ?pool g a" if g: "A g = Some a" for g a
  proof (cases "g = h")
    case True
    have "side_ok pool h a" using sides g True by simp
    moreover have "fst ` set (pl_queue pool) = insert h (fst ` set rest)" using q by simp
    ultimately obtain j where j: "\<not> ap_held (sd_place a)" "\<not> ap_releasing (sd_place a)" "\<not> sd_handled a" "sd_request a = Some j"
      "ap_taking (sd_place a) = Some Asking" "(h, j) \<in> set (pl_queue pool)"
      using released by (auto simp: side_ok_def split: if_splits option.splits)
    have "j = i" using j(6) q released by force
    then show ?thesis using j True by (simp add: side_ok_def)
  next
    case False
    then show ?thesis using sides [OF g] q by (auto simp: side_ok_def split: if_splits option.splits)
  qed
  ultimately show ?thesis by (simp add: system_ok_def)
qed

lemma system_ok_grant: "system_ok pool A \<Longrightarrow> system_ok (grant_places count pool) A"
proof (induction count pool rule: grant_places.induct)
  case (1 count pool)
  show ?case
  proof (cases "pl_queue pool")
    case Nil
    then show ?thesis using 1(2) by (simp add: grant_places.simps)
  next
    case (Cons r rest)
    obtain h i where r: "r = (h, i)" by (cases r)
    show ?thesis using 1(1) [OF Cons r [symmetric] _ system_ok_grant_one [OF 1(2)]] 1(2) Cons r
      by (subst grant_places.simps) simp
  qed
qed

lemma system_okD:
  assumes "system_ok pool A"
  shows "pool_ok pool" "dom A = set (pl_holders pool) \<union> set (pl_released pool)" "A h = Some a \<Longrightarrow> side_ok pool h a"
  using assms by (auto simp: system_ok_def)

lemma system_ok_claim:
  assumes ok: "system_ok pool A" and "A h = None" and "claim_place count pool h = (True, pool')"
  shows "system_ok pool' (A(h \<mapsto> new_side))"
proof -
  have pool': "pool' = pool\<lparr>pl_holders := set_add (pl_holders pool) h\<rparr>" using assms(3) by (simp add: claim_place_def split: if_splits)
  have fresh: "h \<notin> set (pl_holders pool)" "h \<notin> set (pl_released pool)" using system_okD(2) [OF ok] assms(2) by auto
  have "pool_ok pool'" using system_okD(1) [OF ok] fresh unfolding pool' by (auto simp: pool_ok_def)
  moreover have "dom (A(h \<mapsto> new_side)) = set (pl_holders pool') \<union> set (pl_released pool')"
    using system_okD(2) [OF ok] unfolding pool' by auto
  moreover have "side_ok pool' g a" if "(A(h \<mapsto> new_side)) g = Some a" for g a
  proof (cases "g = h")
    case True
    then have "a = new_side" using that by simp
    then show ?thesis using True unfolding pool' by (simp add: side_ok_def new_side_def new_attempt_place_def)
  next
    case False
    then show ?thesis using system_okD(3) [OF ok, of g a] that unfolding pool'
      by (auto simp: side_ok_def split: if_splits option.splits)
  qed
  ultimately show ?thesis by (simp add: system_ok_def)
qed

lemma system_ok_release:
  assumes ok: "system_ok pool A" and a: "A h = Some a" "ap_releasing (sd_place a)" "\<not> sd_handled a"
  shows "system_ok (release_place count pool h) (A(h \<mapsto> a\<lparr>sd_handled := True\<rparr>))"
proof -
  let ?pool = "pool\<lparr>pl_holders := set_delete (pl_holders pool) h, pl_released := set_add (pl_released pool) h\<rparr>"
  let ?A = "A(h \<mapsto> a\<lparr>sd_handled := True\<rparr>)"
  have own: "\<not> ap_held (sd_place a)" "sd_request a = None" "ap_taking (sd_place a) \<noteq> Some Asking" "h \<in> set (pl_holders pool)"
    using system_okD(3) [OF ok a(1)] a(2,3) by (auto simp: side_ok_def split: if_splits)
  have free: "h \<notin> set (pl_released pool)" "h \<notin> fst ` set (pl_queue pool)" using system_okD(1) [OF ok] own(4) by (auto simp: pool_ok_def)
  have "pool_ok ?pool" using system_okD(1) [OF ok] by (auto simp: pool_ok_def)
  moreover have "dom ?A = set (pl_holders ?pool) \<union> set (pl_released ?pool)" using system_okD(2) [OF ok] by auto
  moreover have "side_ok ?pool g b" if "?A g = Some b" for g b
  proof (cases "g = h")
    case True
    then show ?thesis using that own free a(2) by (auto simp: side_ok_def)
  next
    case False
    then show ?thesis using system_okD(3) [OF ok, of g b] that by (auto simp: side_ok_def split: if_splits option.splits)
  qed
  ultimately have "system_ok ?pool ?A" by (simp add: system_ok_def)
  then show ?thesis unfolding release_place_def by (rule system_ok_grant)
qed

lemma system_ok_reacquire:
  assumes ok: "system_ok pool A" and a: "A h = Some a" "ap_taking (sd_place a) = Some Asking" "sd_request a = None"
    and r: "reacquire_place count pool h = (i, pool')"
  shows "system_ok pool' (A(h \<mapsto> a\<lparr>sd_request := Some i\<rparr>))"
proof -
  let ?pool = "pool\<lparr>pl_next := Suc (pl_next pool), pl_queue := pl_queue pool @ [(h, pl_next pool)]\<rparr>"
  let ?A = "A(h \<mapsto> a\<lparr>sd_request := Some (pl_next pool)\<rparr>)"
  have own: "\<not> ap_held (sd_place a)" "\<not> ap_releasing (sd_place a)" "\<not> sd_handled a" "h \<in> set (pl_released pool)"
    "h \<notin> fst ` set (pl_queue pool)"
    using system_okD(3) [OF ok a(1)] a(2,3) by (auto simp: side_ok_def split: if_splits)
  have "pool_ok ?pool" using system_okD(1) [OF ok] own(4,5) by (auto simp: pool_ok_def less_Suc_eq)
  moreover have "dom ?A = set (pl_holders ?pool) \<union> set (pl_released ?pool)" using system_okD(2) [OF ok] own(4) by auto
  moreover have "side_ok ?pool g b" if "?A g = Some b" for g b
  proof (cases "g = h")
    case True
    then show ?thesis using that own a(2) by (auto simp: side_ok_def)
  next
    case False
    then show ?thesis using system_okD(3) [OF ok, of g b] that by (auto simp: side_ok_def split: if_splits option.splits)
  qed
  ultimately have "system_ok ?pool ?A" by (simp add: system_ok_def)
  then have "system_ok (grant_places count ?pool) ?A" by (rule system_ok_grant)
  then show ?thesis using r own(4) by (auto simp: reacquire_place_def)
qed

lemma take_request_distinct:
  "distinct (map fst q) \<Longrightarrow> take_request h q = (map_of q h, filter (\<lambda>r. fst r \<noteq> h) q)"
proof (induction h q rule: take_request.induct)
  case (2 h h' i q)
  then have "h' = h \<Longrightarrow> filter (\<lambda>r. fst r \<noteq> h) q = q" by (auto simp: filter_id_conv image_iff)
  then show ?case using 2 by simp
qed simp

lemma system_ok_end:
  assumes ok: "system_ok pool A"
  shows "system_ok (end_place count pool h) (A(h := None))"
proof -
  let ?pool = "pool\<lparr>pl_holders := set_delete (pl_holders pool) h, pl_released := set_delete (pl_released pool) h,
    pl_queue := filter (\<lambda>r. fst r \<noteq> h) (pl_queue pool),
    pl_answers := pl_answers pool @ (case map_of (pl_queue pool) h of None \<Rightarrow> [] | Some i \<Rightarrow> [(i, False)])\<rparr>"
  have p: "pool_ok pool" by (rule system_okD(1) [OF ok])
  have "pool_ok ?pool"
  proof (cases "map_of (pl_queue pool) h")
    case None
    then have "filter (\<lambda>r. fst r \<noteq> h) (pl_queue pool) = pl_queue pool" by (auto simp: filter_id_conv map_of_eq_None_iff image_iff)
    moreover have "h \<notin> fst ` set (pl_queue pool)" using None by (simp add: map_of_eq_None_iff)
    moreover have "fst ` set (pl_queue pool) \<subseteq> set (pl_released pool)" "set (pl_holders pool) \<inter> set (pl_released pool) = {}"
      using p by (simp_all add: pool_ok_def)
    ultimately have "fst ` set (pl_queue pool) \<subseteq> set (pl_released pool) - {h}"
        "(set (pl_holders pool) - {h}) \<inter> (set (pl_released pool) - {h}) = {}" "filter (\<lambda>r. fst r \<noteq> h) (pl_queue pool) = pl_queue pool"
      by blast+
    then show ?thesis using p None by (simp add: pool_ok_def)
  next
    case (Some i)
    obtain q1 q2 where q: "pl_queue pool = q1 @ (h, i) # q2" using map_of_SomeD [OF Some] by (meson split_list)
    have "\<forall>x \<in> set q1. fst x \<noteq> h" "\<forall>x \<in> set q2. fst x \<noteq> h" using p q by (auto simp: pool_ok_def)
    then have "filter (\<lambda>r. fst r \<noteq> h) q1 = q1" "filter (\<lambda>r. fst r \<noteq> h) q2 = q2" by simp_all
    then have "filter (\<lambda>r. fst r \<noteq> h) (pl_queue pool) = q1 @ q2" using q by simp
    then show ?thesis using p Some q by (auto simp: pool_ok_def)
  qed
  moreover have "dom (A(h := None)) = set (pl_holders ?pool) \<union> set (pl_released ?pool)" using system_okD(2) [OF ok] by auto
  moreover have "side_ok ?pool g b" if "(A(h := None)) g = Some b" for g b
    using system_okD(3) [OF ok, of g b] that by (auto simp: side_ok_def split: if_splits option.splits)
  ultimately have "system_ok ?pool (A(h := None))" by (simp add: system_ok_def)
  then have "system_ok (grant_places count ?pool) (A(h := None))" by (rule system_ok_grant)
  moreover have "distinct (map fst (pl_queue pool))" using p by (simp add: pool_ok_def)
  ultimately show ?thesis by (simp add: end_place_def take_request_distinct)
qed

lemma system_ok_side:
  assumes ok: "system_ok pool A" and "A h = Some a" and "side_ok pool h a \<Longrightarrow> side_ok pool h b"
  shows "system_ok pool (A(h \<mapsto> b))"
  using assms by (auto simp: system_ok_def)

lemma answer_of_request:
  assumes "pool_ok pool" and "side_ok pool h a" and "sd_request a = Some i" and "(i, b) \<in> set (pl_answers pool)"
  shows "b" "h \<in> set (pl_holders pool)"
proof -
  have d: "distinct (map fst (pl_answers pool))" and "snd ` set (pl_queue pool) \<inter> fst ` set (pl_answers pool) = {}"
    using assms(1) by (simp_all add: pool_ok_def)
  then have "(h, i) \<notin> set (pl_queue pool)" using assms(4) by (metis disjoint_iff fst_conv imageI snd_conv)
  then have r: "h \<in> set (pl_holders pool)" "(i, True) \<in> set (pl_answers pool)"
    using assms(2,3) by (auto simp: side_ok_def split: if_splits)
  show "h \<in> set (pl_holders pool)" by (rule r(1))
  show "b" using eq_key_imp_eq_value [OF d assms(4) r(2)] by simp
qed

definition system_inv :: "nat \<Rightarrow> 'h place_system \<Rightarrow> bool" where
  "system_inv count s \<longleftrightarrow> places_inv count (sy_pool s) \<and> system_ok (sy_pool s) (sy_attempts s)"

lemma system_step_inv:
  assumes "system_step count s s'" and "system_inv count s"
  shows "system_inv count s'"
  using assms
proof (induction rule: system_step.induct)
  case (claims s h pool)
  then have "places_inv count (place_step count (sy_pool s) (Claim h))" by (simp only: system_inv_def place_step_inv)
  then show ?case using claims system_ok_claim by (fastforce simp: system_inv_def)
next
  case (observes s h a waits)
  then show ?case by (auto simp: system_inv_def side_ok_def observe_def intro!: system_ok_side)
next
  case (release_handled s h a)
  then have "places_inv count (place_step count (sy_pool s) (Release h))" by (simp only: system_inv_def place_step_inv)
  moreover have "system_ok (release_place count (sy_pool s) h) ((sy_attempts s)(h \<mapsto> a\<lparr>sd_handled := True\<rparr>))"
    using release_handled by (intro system_ok_release) (simp_all add: system_inv_def)
  ultimately show ?case by (simp add: system_inv_def)
next
  case (release_replied s h a)
  then show ?case
    by (auto simp: system_inv_def side_ok_def release_settled_def split: if_splits option.splits intro!: system_ok_side)
next
  case (takes s h a aborted)
  then show ?case
    by (auto simp: system_inv_def side_ok_def take_place_def split: if_splits option.splits intro!: system_ok_side)
next
  case (asks s h a)
  then show ?case
    by (auto simp: system_inv_def side_ok_def reacquire_ask_def split: if_splits option.splits intro!: system_ok_side)
next
  case (ask_handled s h a i pool)
  then have "places_inv count (place_step count (sy_pool s) (Reacquire h))" by (simp only: system_inv_def place_step_inv)
  then show ?case using ask_handled system_ok_reacquire by (fastforce simp: system_inv_def)
next
  case (ask_replied s h a i b)
  have ok: "pool_ok (sy_pool s)" "side_ok (sy_pool s) h a" using ask_replied by (auto simp: system_inv_def system_ok_def)
  have "b" "h \<in> set (pl_holders (sy_pool s))" using answer_of_request [OF ok ask_replied.hyps(2,3)] by auto
  moreover have "\<not> ap_releasing (sd_place a) \<and> \<not> sd_handled a" using ok(2) ask_replied.hyps(2) by (auto simp: side_ok_def split: if_splits)
  ultimately show ?case using ask_replied
    by (auto simp: system_inv_def side_ok_def reacquire_answered_def intro!: system_ok_side)
next
  case (ends s h a)
  then have "places_inv count (place_step count (sy_pool s) (End h))" by (simp only: system_inv_def place_step_inv)
  moreover have "system_ok (end_place count (sy_pool s) h) ((sy_attempts s)(h := None))"
    using ends by (intro system_ok_end) (simp add: system_inv_def)
  ultimately show ?case by (simp add: system_inv_def)
qed

lemma system_inv_reachable: "reachable_system count s \<Longrightarrow> system_inv count s"
proof (induction rule: reachable_system.induct)
  case initial
  show ?case
    by (simp add: system_inv_def new_system_def places_inv_def system_ok_def pool_ok_def new_places_def)
next
  case (step s s')
  then show ?case by (simp add: system_step_inv)
qed

section \<open>Theorems\<close>

text \<open>
  C38. No more attempts than \<open>count\<close> run at once: whatever order requests and replies take, every live attempt whose
  worker believes it holds a place is one of the holders the coordinator knows, so at most \<open>count\<close> workers believe so;
  and while a woken attempt waits for a place, none is free.
\<close>
theorem places_bound_attempts:
  fixes s :: "'h place_system"
  assumes "reachable_system count s"
  shows "{h. \<exists>a. sy_attempts s h = Some a \<and> ap_held (sd_place a)} \<subseteq> set (pl_holders (sy_pool s)) \<and>
    card {h. \<exists>a. sy_attempts s h = Some a \<and> ap_held (sd_place a)} \<le> count \<and>
    (pl_queue (sy_pool s) \<noteq> [] \<longrightarrow> card (set (pl_holders (sy_pool s))) = count)"
proof -
  have inv: "places_inv count (sy_pool s)" "system_ok (sy_pool s) (sy_attempts s)"
    using system_inv_reachable [OF assms] by (simp_all add: system_inv_def)
  have sub: "{h. \<exists>a. sy_attempts s h = Some a \<and> ap_held (sd_place a)} \<subseteq> set (pl_holders (sy_pool s))"
    using inv(2) by (auto simp: system_ok_def side_ok_def split: if_splits)
  have "card (set (pl_holders (sy_pool s))) = length (pl_holders (sy_pool s))" using inv(1) by (simp add: places_inv_def distinct_card)
  then show ?thesis using sub card_mono [OF _ sub] inv(1) by (auto simp: places_inv_def)
qed

text \<open>Two slots and one place: the first attempt waits released, and the second took its place.\<close>

definition sample_system :: "nat place_system" where
  "sample_system = \<lparr>sy_pool = \<lparr>pl_holders = [1], pl_released = [0], pl_queue = [], pl_answers = [], pl_next = 0\<rparr>,
    sy_attempts = [0 \<mapsto> \<lparr>sd_place = \<lparr>ap_held = False, ap_releasing = True, ap_taking = None\<rparr>, sd_handled = True, sd_request = None\<rparr>,
      1 \<mapsto> new_side]\<rparr>"

lemma sample_system_reachable: "reachable_system 1 sample_system"
proof -
  let ?a = "\<lparr>sd_place = \<lparr>ap_held = False, ap_releasing = True, ap_taking = None\<rparr>, sd_handled = False, sd_request = None\<rparr>"
  let ?s1 = "\<lparr>sy_pool = new_places\<lparr>pl_holders := [0]\<rparr>, sy_attempts = [0 \<mapsto> new_side]\<rparr> :: nat place_system"
  let ?s2 = "\<lparr>sy_pool = new_places\<lparr>pl_holders := [0]\<rparr>, sy_attempts = [0 \<mapsto> ?a]\<rparr> :: nat place_system"
  let ?s3 = "\<lparr>sy_pool = new_places\<lparr>pl_released := [0]\<rparr>, sy_attempts = [0 \<mapsto> ?a\<lparr>sd_handled := True\<rparr>]\<rparr> :: nat place_system"
  note eval = new_system_def new_places_def set_add_def set_delete_def
  have "system_step 1 new_system ?s1"
    using system_step.claims [of new_system 0 1 "new_places\<lparr>pl_holders := [0]\<rparr>"] by (simp add: eval claim_place_def)
  moreover have "system_step 1 ?s1 ?s2"
    using system_step.observes [of ?s1 0 new_side 1 True] by (simp add: observe_def new_side_def new_attempt_place_def)
  moreover have "system_step 1 ?s2 ?s3"
    using system_step.release_handled [of ?s2 0 ?a 1] by (simp add: eval release_place_def grant_places.simps)
  moreover have "system_step 1 ?s3 sample_system"
    using system_step.claims [of ?s3 1 1 "sy_pool sample_system"] by (simp add: eval sample_system_def claim_place_def)
  ultimately show ?thesis by (meson reachable_system.initial reachable_system.step)
qed

theorem places_bound_attempts_witness: "card {h. \<exists>a. sy_attempts sample_system h = Some a \<and> ap_held (sd_place a)} \<le> 1"
  using places_bound_attempts [OF sample_system_reachable] by blast

text \<open>
  Freed places go to woken attempts first, in the order they asked: at any time a claim is refused while one waits,
  and a release answers, in order, the longest prefix of the queue that the places allow; the reserve starts exactly as
  many extra workers as bring it to the number of waiting attempts, and never more than \<open>count\<close> run.
\<close>
theorem woken_attempts_first:
  fixes count :: nat and ops :: "'h place_op list" and extras :: "reserve_op list"
  defines "st \<equiv> foldl (place_step count) new_places ops"
    and "extra \<equiv> foldl (reserve_step count) 0 extras"
  shows "(pl_queue st \<noteq> [] \<longrightarrow> claim_place count st h = (False, st)) \<and>
    (\<exists>n \<le> length (pl_queue st). pl_queue (release_place count st g) = drop n (pl_queue st) \<and>
      pl_answers (release_place count st g) = pl_answers st @ map (\<lambda>(h, i). (i, True)) (take n (pl_queue st)) \<and>
      (n = length (pl_queue st) \<or> length (pl_holders (release_place count st g)) = count)) \<and>
    snd (grow extra waiting count) = max extra (min waiting count) \<and>
    fst (grow extra waiting count) = snd (grow extra waiting count) - extra \<and> extra \<le> count"
proof (intro conjI impI)
  have inv: "places_inv count st" unfolding st_def by (rule pool_places.inv_run)
  then show "claim_place count st h = (False, st)" if "pl_queue st \<noteq> []" using that by (auto simp: places_inv_def claim_place_def)
  let ?st = "st\<lparr>pl_holders := set_delete (pl_holders st) g, pl_released := set_add (pl_released st) g\<rparr>"
  have "places_inv count (release_place count st g)" using place_step_inv [OF inv, of "Release g"] by simp
  then show "\<exists>n \<le> length (pl_queue st). pl_queue (release_place count st g) = drop n (pl_queue st) \<and>
      pl_answers (release_place count st g) = pl_answers st @ map (\<lambda>(h, i). (i, True)) (take n (pl_queue st)) \<and>
      (n = length (pl_queue st) \<or> length (pl_holders (release_place count st g)) = count)"
    using grant_places_prefix [of ?st count] by (auto simp: release_place_def granted_def places_inv_def)
  show "extra \<le> count" unfolding extra_def by (rule reserve.inv_run)
qed (auto simp: grow_def Let_def)

theorem woken_attempts_first_witness:
  "claim_place 1 (foldl (place_step 1) new_places [Claim 0, Release 0, Claim 1, Reacquire 0]) (2::nat) =
    (False, foldl (place_step 1) new_places [Claim 0, Release 0, Claim 1, Reacquire 0])"
proof -
  have "pl_queue (foldl (place_step 1) new_places [Claim (0::nat), Release 0, Claim 1, Reacquire 0]) \<noteq> []"
    by (simp add: claim_place_def release_place_def reacquire_place_def new_places_def grant_places.simps set_add_def set_delete_def)
  then show ?thesis using woken_attempts_first [of 1 "[Claim 0, Release 0, Claim 1, Reacquire 0]" 2] by blast
qed

text \<open>
  An attempt's runs show it waiting exactly when no durable tool call of its runs is running, some stage is live, and
  every live stage waits for a detached tool call or a person.
\<close>
theorem waits_released_iff:
  "attemptWaitsReleased rs \<longleftrightarrow>
    (\<forall>r \<in> set rs. TRunning \<notin> set (rv_toolNodes r) \<and> (\<forall>s \<in> set (rv_stages r). live s \<longrightarrow> waits_outside s)) \<and>
    (\<exists>r \<in> set rs. \<exists>s \<in> set (rv_stages r). live s)"
  by (simp add: attemptWaitsReleased_def scan_runs_eq)

end
