(* ===== verification/Pool_Queue.thy ===== *)
theory Pool_Queue
  imports Run_Journal Stage_Topology "HOL-Library.Char_ord"
begin

text \<open>
  The work queue of a worker pool (\<^verbatim>\<open>packages/workflows/src/durable/journal/sql-pool-queue.ts\<close>, class \<open>SqlPoolQueue\<close>), for
  a journal in the same database. The tables are a record; a row is a record and a table keeps its rows in \<open>rowid\<close> order.
  Every operation is one transaction: it either throws, and nothing is written, or returns a value and the new tables.
  The SQL statements are small (selections by equality, updates of the selected rows, inserts) and are written as
  functions on the tables. The clock of the database is an argument; so are random ids and the digest of a value.
  A descriptor and a checkpoint are kept as values, not as their JSON text.
\<close>

section \<open>Data\<close>

record root_lease =
  rl_runId :: string
  rl_holderId :: string
  rl_epoch :: int

record pool_descriptor =
  pd_boundaryId :: string
  pd_childRunId :: string
  pd_scope :: string
  pd_definition :: string
  pd_digest :: string
  pd_inputs :: json
  pd_execution :: "(string, json) jmap"

datatype work_state = WReady | WLeased | WCompleted | WFailed

record work_row =
  w_id :: string
  w_root :: string
  w_boundary :: string
  w_descriptor :: pool_descriptor
  w_fingerprint :: string
  w_state :: work_state
  w_generation :: int
  w_worker :: "string option"
  w_epoch :: int
  w_expires_at :: int
  w_renewed_at :: int
  w_ready_at :: int

record pool_work =
  q_descriptor :: pool_descriptor
  q_id :: string
  q_state :: work_state
  q_generation :: int
  q_worker :: "string option"
  q_epoch :: int
  q_expiresAt :: int
  q_renewedAt :: int

record work_token =
  tk_id :: string
  tk_generation :: int
  tk_worker :: "string option"
  tk_epoch :: int

datatype control_state = CtlRunning | CtlPaused | CtlQuit

record pool_control =
  pc_state :: control_state
  pc_revision :: int

record lease_record =
  lk_holderId :: "string option"
  lk_epoch :: int
  lk_renewedAt :: int

text \<open>The key of an event is the JSON text of its type, the kind of its checkpoint and the checkpoint's id.\<close>

record event_row =
  ev_root :: string
  ev_seq :: int
  ev_epoch :: int
  ev_key :: "string \<times> string"
  ev_payload :: stage_checkpoint
  ev_at :: int

record owner_row =
  ow_work :: string
  ow_replay_key :: string

record pool_tables =
  pt_runs :: "(string, string) jmap"
  pt_leases :: "(string, lease_record) jmap"
  pt_events :: "event_row list"
  pt_roots :: "(string, int) jmap"
  pt_control :: "(string, pool_control) jmap"
  pt_work :: "work_row list"
  pt_results :: "(string, json) jmap"
  pt_owners :: "(string, owner_row) jmap"
  pt_snapshots :: "(string, int \<times> json) jmap"

datatype stale_reason = Missing | NotLeased | GenerationMismatch | WorkerMismatch | EpochMismatch | Expired | RootNotRunning

datatype claim_reason = OutsideScope | OwnedByOtherWork | ClaimedForOtherStage | MissingSession | NotForkCopy | RunMismatch

datatype pool_error =
    InvalidDuration
  | InvalidText journal_error
  | CounterRange journal_error
  | PoolNotInitialized string
  | StaleRootLease string int int
  | StaleWorkLease string int stale_reason
  | ConfigurationImmutable
  | BoundaryIdentityMismatch
  | BoundaryIdentityConflict
  | EntryModuleChanged
  | ScopesOverlap
  | SessionClaim string claim_reason
  | ResultIdentityConflict
  | ResultIdentityMismatch
  | PrimaryKeyViolation

section \<open>Values\<close>

definition js_of :: "string \<Rightarrow> js_text" where
  "js_of s = map (\<lambda>c. of_nat (of_char c)) s"

definition check_text :: "text_field \<Rightarrow> string \<Rightarrow> pool_error + unit" where
  "check_text field value = map_sum InvalidText (\<lambda>u. u) (validateText field (js_of value))"

definition positive :: "int \<Rightarrow> pool_error + unit" where
  "positive value = throw_if (MAX_SAFE_INTEGER < value \<or> value \<le> 0) InvalidDuration"

definition snapshotLease :: "root_lease \<Rightarrow> pool_error + unit" where
  "snapshotLease lease = try_bind (check_text FRunId (rl_runId lease)) (\<lambda>_. check_text FHolderId (rl_holderId lease))"

definition expiry :: "int \<Rightarrow> int \<Rightarrow> pool_error + int" where
  "expiry now duration = try_bind (positive (now + duration)) (\<lambda>_. Inr (now + duration))"

definition counter :: "string \<Rightarrow> counter_field \<Rightarrow> int \<Rightarrow> pool_error + int" where
  "counter run field value = map_sum CounterRange (\<lambda>v. v) (journalCounter (js_of run) field value Overflow)"

definition fromRow :: "work_row \<Rightarrow> pool_work" where
  "fromRow row = \<lparr>q_descriptor = w_descriptor row, q_id = w_id row, q_state = w_state row, q_generation = w_generation row,
    q_worker = w_worker row, q_epoch = w_epoch row, q_expiresAt = w_expires_at row, q_renewedAt = w_renewed_at row\<rparr>"

definition workspaceBinding :: "pool_descriptor \<Rightarrow> json option" where
  "workspaceBinding d = (case map_get (pd_execution d) ''workspaceBinding'' of Some JNull \<Rightarrow> None | b \<Rightarrow> b)"

text \<open>The digest is taken of the value with the keys of every object in order.\<close>

fun canonical :: "json \<Rightarrow> json" where
  "canonical (JArr js) = JArr (map canonical js)"
| "canonical (JObj kvs) = JObj (sort_key fst (map (map_prod (\<lambda>k. k) canonical) kvs))"
| "canonical j = j"

definition descriptor_json :: "pool_descriptor \<Rightarrow> json" where
  "descriptor_json d = JObj [(''boundaryId'', JStr (pd_boundaryId d)), (''childRunId'', JStr (pd_childRunId d)),
    (''scope'', JStr (pd_scope d)), (''definition'', JStr (pd_definition d)), (''digest'', JStr (pd_digest d)),
    (''inputs'', pd_inputs d), (''execution'', JObj (pd_execution d))]"

definition workFingerprint :: "(json \<times> stage_checkpoint \<Rightarrow> string) \<Rightarrow> pool_descriptor \<Rightarrow> stage_checkpoint \<Rightarrow> string" where
  "workFingerprint hash d boundary =
    hash (canonical (descriptor_json (d\<lparr>pd_execution := map_delete (pd_execution d) ''workspaceSnapshot''\<rparr>)), boundary)"

text \<open>\<open>a ?? b\<close> on the values of object fields.\<close>

definition nullish_or :: "json option \<Rightarrow> json option \<Rightarrow> json option" where
  "nullish_or a b = (case a of None \<Rightarrow> b | Some JNull \<Rightarrow> b | Some v \<Rightarrow> Some v)"

definition set_field :: "(string, json) jmap \<Rightarrow> string \<Rightarrow> json option \<Rightarrow> (string, json) jmap" where
  "set_field obj k v = (case v of None \<Rightarrow> map_delete obj k | Some j \<Rightarrow> map_set obj k j)"

definition withQueuedSnapshot :: "pool_descriptor \<Rightarrow> pool_descriptor \<Rightarrow> pool_descriptor" where
  "withQueuedSnapshot d queued = d\<lparr>pd_execution := set_field (pd_execution d) ''workspaceSnapshot''
    (nullish_or (map_get (pd_execution d) ''workspaceSnapshot'') (map_get (pd_execution queued) ''workspaceSnapshot''))\<rparr>"

section \<open>Tables\<close>

definition update_work :: "(work_row \<Rightarrow> bool) \<Rightarrow> (work_row \<Rightarrow> work_row) \<Rightarrow> pool_tables \<Rightarrow> pool_tables" where
  "update_work P f t = t\<lparr>pt_work := map (\<lambda>r. if P r then f r else r) (pt_work t)\<rparr>"

definition work_changes :: "(work_row \<Rightarrow> bool) \<Rightarrow> pool_tables \<Rightarrow> nat" where
  "work_changes P t = length (filter P (pt_work t))"

definition work_of :: "pool_tables \<Rightarrow> string \<Rightarrow> string \<Rightarrow> work_row option" where
  "work_of t wid run = find (\<lambda>r. w_id r = wid \<and> w_root r = run) (pt_work t)"

definition leaseRow :: "pool_tables \<Rightarrow> root_lease \<Rightarrow> (lease_record \<times> string \<times> int option) option" where
  "leaseRow t lease = (case (map_get (pt_leases t) (rl_runId lease), map_get (pt_runs t) (rl_runId lease)) of
      (Some row, Some status) \<Rightarrow> Some (row, status, map_get (pt_roots t) (rl_runId lease))
    | _ \<Rightarrow> None)"

definition holds_root :: "lease_record \<Rightarrow> root_lease \<Rightarrow> bool" where
  "holds_root row lease \<longleftrightarrow> lk_epoch row = rl_epoch lease \<and> lk_holderId row = Some (rl_holderId lease)"

definition staleRoot :: "root_lease \<Rightarrow> lease_record option \<Rightarrow> pool_error" where
  "staleRoot lease row = StaleRootLease (rl_runId lease) (rl_epoch lease) (case row of None \<Rightarrow> 0 | Some r \<Rightarrow> lk_epoch r)"

text \<open>\<open>authority\<close>: the lease is the root's and inside its window; the status of the run is returned.\<close>

definition authority :: "pool_tables \<Rightarrow> root_lease \<Rightarrow> int option \<Rightarrow> int \<Rightarrow> pool_error + string" where
  "authority t lease timeout now = (case leaseRow t lease of
      None \<Rightarrow> Inl (staleRoot lease None)
    | Some (row, status, kept) \<Rightarrow>
        if kept = None \<and> timeout = None then Inl (PoolNotInitialized (rl_runId lease))
        else if \<not> holds_root row lease \<or>
          isWorkflowLeaseExpired (lk_renewedAt row) (or_else kept (or_else timeout 0)) now
        then Inl (staleRoot lease (Some row)) else Inr status)"

datatype root_standing = RootCurrent | RootLate | RootLost

definition rootLease :: "pool_tables \<Rightarrow> root_lease \<Rightarrow> int \<Rightarrow> int \<Rightarrow> root_standing" where
  "rootLease t lease timeout now = (case leaseRow t lease of
      None \<Rightarrow> RootLost
    | Some (row, _, kept) \<Rightarrow>
        if \<not> holds_root row lease then RootLost
        else if isWorkflowLeaseExpired (lk_renewedAt row) (or_else kept timeout) now then RootLate else RootCurrent)"

definition initialize :: "pool_tables \<Rightarrow> root_lease \<Rightarrow> int \<Rightarrow> int \<Rightarrow> pool_error + (unit \<times> pool_tables)" where
  "initialize t lease timeout now =
    try_bind (positive timeout) (\<lambda>_.
    try_bind (snapshotLease lease) (\<lambda>_.
    try_bind (authority t lease (Some timeout) now) (\<lambda>_.
    let t' = (if map_has (pt_roots t) (rl_runId lease) then t else t\<lparr>pt_roots := map_set (pt_roots t) (rl_runId lease) timeout\<rparr>)
    in if map_get (pt_roots t') (rl_runId lease) \<noteq> Some timeout then Inl ConfigurationImmutable else Inr ((), t'))))"

definition initialized :: "pool_tables \<Rightarrow> string \<Rightarrow> bool" where
  "initialized t run = map_has (pt_roots t) run"

definition holdRootSnapshot :: "pool_tables \<Rightarrow> root_lease \<Rightarrow> json option \<Rightarrow> pool_error + (unit \<times> pool_tables)" where
  "holdRootSnapshot t lease snapshot =
    try_bind (snapshotLease lease) (\<lambda>_.
    let row = map_option fst (leaseRow t lease) in
    if (case row of None \<Rightarrow> True | Some r \<Rightarrow> \<not> holds_root r lease) then Inl (staleRoot lease row)
    else case snapshot of
        None \<Rightarrow> Inr ((), t\<lparr>pt_snapshots := filter (\<lambda>(root, epoch, _). \<not> (root = rl_runId lease \<and> epoch < rl_epoch lease)) (pt_snapshots t)\<rparr>)
      | Some s \<Rightarrow> Inr ((), t\<lparr>pt_snapshots := map_set (pt_snapshots t) (rl_runId lease) (rl_epoch lease, s)\<rparr>))"

definition releaseRootSnapshot :: "pool_tables \<Rightarrow> root_lease \<Rightarrow> pool_error + (unit \<times> pool_tables)" where
  "releaseRootSnapshot t lease =
    try_bind (snapshotLease lease) (\<lambda>_.
    Inr ((), t\<lparr>pt_snapshots := filter (\<lambda>(root, epoch, _). \<not> (root = rl_runId lease \<and> epoch = rl_epoch lease)) (pt_snapshots t)\<rparr>))"

definition controlIn :: "pool_tables \<Rightarrow> root_lease \<Rightarrow> pool_control" where
  "controlIn t lease = map_get_or (pt_control t) (rl_runId lease) \<lparr>pc_state = CtlRunning, pc_revision = 0\<rparr>"

definition control :: "pool_tables \<Rightarrow> root_lease \<Rightarrow> int \<Rightarrow> pool_error + pool_control" where
  "control t lease now = try_bind (authority t lease None now) (\<lambda>_. Inr (controlIn t lease))"

definition setControl :: "pool_tables \<Rightarrow> root_lease \<Rightarrow> control_state \<Rightarrow> int \<Rightarrow> pool_error + (pool_control \<times> pool_tables)" where
  "setControl t lease state now =
    try_bind (authority t lease None now) (\<lambda>_.
    let revision = (case map_get (pt_control t) (rl_runId lease) of
          None \<Rightarrow> 1 | Some c \<Rightarrow> pc_revision c + (if pc_state c \<noteq> state then 1 else 0));
        c = \<lparr>pc_state = state, pc_revision = revision\<rparr>
    in Inr (c, t\<lparr>pt_control := map_set (pt_control t) (rl_runId lease) c\<rparr>))"

section \<open>Attempts\<close>

definition staleWork :: "work_token \<Rightarrow> stale_reason \<Rightarrow> pool_error" where
  "staleWork token reason = StaleWorkLease (tk_id token) (tk_generation token) reason"

definition current :: "pool_tables \<Rightarrow> root_lease \<Rightarrow> work_token \<Rightarrow> bool \<Rightarrow> pool_error + work_row" where
  "current t lease token allowCompleted = (case work_of t (tk_id token) (rl_runId lease) of
      None \<Rightarrow> Inl (staleWork token Missing)
    | Some row \<Rightarrow>
        if w_state row \<noteq> WLeased \<and> \<not> (allowCompleted \<and> w_state row = WCompleted) then Inl (staleWork token NotLeased)
        else if w_epoch row \<noteq> tk_epoch token then Inl (staleWork token EpochMismatch)
        else if w_generation row \<noteq> tk_generation token then Inl (staleWork token GenerationMismatch)
        else if w_worker row \<noteq> tk_worker token then Inl (staleWork token WorkerMismatch)
        else Inr row)"

text \<open>What every write of an attempt checks first: the root's authority, the attempt, and that both are of one epoch.\<close>

definition current_here :: "pool_tables \<Rightarrow> root_lease \<Rightarrow> work_token \<Rightarrow> bool \<Rightarrow> int \<Rightarrow> pool_error + (string \<times> work_row)" where
  "current_here t lease token allowCompleted now =
    try_bind (authority t lease None now) (\<lambda>status.
    try_bind (current t lease token allowCompleted) (\<lambda>row.
    try_bind (throw_if (w_epoch row \<noteq> rl_epoch lease) (staleWork token EpochMismatch)) (\<lambda>_. Inr (status, row))))"

definition assertCurrent :: "pool_tables \<Rightarrow> root_lease \<Rightarrow> work_token \<Rightarrow> int \<Rightarrow> pool_error + unit" where
  "assertCurrent t lease token now =
    try_bind (current_here t lease token False now) (\<lambda>(_, row). throw_if (w_expires_at row < now) (staleWork token Expired))"

datatype append_refusal = ForeignRoot | CoordinatorAuthority pool_error | AttemptRefused pool_error | Rethrown pool_error

text \<open>
  The guard of \<open>withCurrentAppend\<close>: which refusal an append of the attempt meets. \<open>session\<close> is what \<open>assertSession\<close>
  throws, if anything.
\<close>

definition refusal_of :: "pool_error \<Rightarrow> append_refusal" where
  "refusal_of e = (case e of StaleRootLease _ _ _ \<Rightarrow> CoordinatorAuthority e | InvalidText _ \<Rightarrow> Rethrown e | CounterRange _ \<Rightarrow> Rethrown e
    | _ \<Rightarrow> AttemptRefused e)"

definition append_guard ::
  "pool_tables \<Rightarrow> root_lease \<Rightarrow> work_token \<Rightarrow> string \<Rightarrow> pool_error option \<Rightarrow> int \<Rightarrow> append_refusal + unit" where
  "append_guard t lease token runId session now =
    try_bind (map_sum Rethrown (\<lambda>u. u) (snapshotLease lease)) (\<lambda>_.
    if runId \<noteq> rl_runId lease then Inl ForeignRoot
    else map_sum refusal_of (\<lambda>u. u)
      (try_bind (current_here t lease token True now) (\<lambda>_. case session of None \<Rightarrow> Inr () | Some e \<Rightarrow> Inl e)))"

definition attemptStanding :: "pool_tables \<Rightarrow> root_lease \<Rightarrow> work_token \<Rightarrow> int \<Rightarrow> pool_error + int option" where
  "attemptStanding t lease token now =
    try_bind (snapshotLease lease) (\<lambda>_.
    try_bind (authority t lease None now) (\<lambda>_.
    Inr (case work_of t (tk_id token) (rl_runId lease) of
        None \<Rightarrow> None
      | Some row \<Rightarrow>
          if w_state row = WLeased \<and> w_epoch row = tk_epoch token \<and> w_epoch row = rl_epoch lease \<and>
            w_generation row = tk_generation token \<and> w_worker row = tk_worker token \<and> now \<le> w_expires_at row
          then Some now else None)))"

definition assertAttemptIn :: "pool_tables \<Rightarrow> root_lease \<Rightarrow> work_token \<Rightarrow> int \<Rightarrow> pool_error + int" where
  "assertAttemptIn t lease token now =
    try_bind (attemptStanding t lease token now) (\<lambda>standing. case standing of
        Some n \<Rightarrow> Inr n
      | None \<Rightarrow> try_bind (current t lease token False) (\<lambda>row.
          Inl (staleWork token (if w_epoch row = rl_epoch lease then Expired else EpochMismatch))))"

definition assertRootIn :: "pool_tables \<Rightarrow> root_lease \<Rightarrow> int \<Rightarrow> pool_error + int" where
  "assertRootIn t lease now = try_bind (snapshotLease lease) (\<lambda>_. try_bind (authority t lease None now) (\<lambda>_. Inr now))"

definition admitsAttemptWrites :: "pool_tables \<Rightarrow> root_lease \<Rightarrow> string \<Rightarrow> bool" where
  "admitsAttemptWrites t lease status =
    (if status = ''running'' then True else if status \<noteq> ''paused'' then False
     else map_option pc_state (map_get (pt_control t) (rl_runId lease)) = Some CtlPaused)"

section \<open>Claiming\<close>

datatype claim_placement = Unbound | PlacedWork string int

definition compatible :: "(string \<times> string) list \<Rightarrow> work_row \<Rightarrow> bool" where
  "compatible definitions row \<longleftrightarrow> (pd_definition (w_descriptor row), pd_digest (w_descriptor row)) \<in> set definitions"

fun placed :: "claim_placement option \<Rightarrow> work_row \<Rightarrow> bool" where
  "placed None row = True"
| "placed (Some Unbound) row = (workspaceBinding (w_descriptor row) = None)"
| "placed (Some (PlacedWork i g)) row = (w_id row = i \<and> w_generation row = g)"

definition claimable :: "root_lease \<Rightarrow> (string \<times> string) list \<Rightarrow> int \<Rightarrow> work_row \<Rightarrow> bool" where
  "claimable lease definitions now row \<longleftrightarrow> w_root row = rl_runId lease \<and> w_state row = WReady \<and> w_epoch row = rl_epoch lease \<and>
    w_ready_at row \<le> now \<and> compatible definitions row"

text \<open>\<open>ORDER BY ready_at, rowid\<close>\<close>

definition by_age :: "(work_row \<Rightarrow> bool) \<Rightarrow> pool_tables \<Rightarrow> work_row list" where
  "by_age P t = sort_key w_ready_at (filter P (pt_work t))"

definition row_by_id :: "pool_tables \<Rightarrow> string \<Rightarrow> work_row option" where
  "row_by_id t i = find (\<lambda>r. w_id r = i) (pt_work t)"

definition claim ::
  "pool_tables \<Rightarrow> root_lease \<Rightarrow> string \<Rightarrow> (string \<times> string) list \<Rightarrow> int \<Rightarrow> claim_placement option \<Rightarrow> int \<Rightarrow>
    pool_error + (pool_work option \<times> pool_tables)" where
  "claim t lease worker definitions duration placement now =
    try_bind (positive duration) (\<lambda>_.
    try_bind (snapshotLease lease) (\<lambda>_.
    try_bind (check_text FHolderId worker) (\<lambda>_.
    try_bind (authority t lease None now) (\<lambda>status.
    if (case map_get (pt_control t) (rl_runId lease) of None \<Rightarrow> False | Some c \<Rightarrow> pc_state c \<noteq> CtlRunning) then Inr (None, t)
    else if status \<noteq> ''running'' \<or> definitions = [] then Inr (None, t)
    else case by_age (\<lambda>r. claimable lease definitions now r \<and> placed placement r) t of
        [] \<Rightarrow> Inr (None, t)
      | row # _ \<Rightarrow>
          try_bind (counter (rl_runId lease) FEpoch (w_generation row + 1)) (\<lambda>generation.
          try_bind (expiry now duration) (\<lambda>expires.
          let t' = update_work (\<lambda>r. w_id r = w_id row \<and> w_state r = WReady \<and> w_generation r = w_generation row)
            (\<lambda>r. r\<lparr>w_state := WLeased, w_generation := generation, w_worker := Some worker, w_epoch := rl_epoch lease,
              w_expires_at := expires, w_renewed_at := now\<rparr>) t
          in Inr (map_option fromRow (row_by_id t' (w_id row)), t')))))))"

definition readyCandidates ::
  "pool_tables \<Rightarrow> root_lease \<Rightarrow> (string \<times> string) list \<Rightarrow> nat \<Rightarrow> int \<Rightarrow> (string \<times> int \<times> json option) list" where
  "readyCandidates t lease definitions limit now =
    (if definitions = [] then []
     else map (\<lambda>r. (w_id r, w_generation r, workspaceBinding (w_descriptor r)))
       (take limit (by_age (claimable lease definitions now) t)))"

definition failUnclaimed :: "pool_tables \<Rightarrow> root_lease \<Rightarrow> string \<Rightarrow> int \<Rightarrow> int \<Rightarrow> pool_error + (bool \<times> pool_tables)" where
  "failUnclaimed t lease wid generation now =
    try_bind (snapshotLease lease) (\<lambda>_.
    try_bind (authority t lease None now) (\<lambda>_.
    let P = (\<lambda>r. w_id r = wid \<and> w_root r = rl_runId lease \<and> w_state r = WReady \<and> w_generation r = generation \<and> w_epoch r = rl_epoch lease)
    in Inr (work_changes P t = 1, update_work P (\<lambda>r. r\<lparr>w_state := WFailed, w_worker := None, w_expires_at := 0\<rparr>) t)))"

section \<open>The life of an attempt\<close>

definition renewed :: "work_row \<Rightarrow> int \<Rightarrow> int \<Rightarrow> pool_tables \<Rightarrow> pool_work \<times> pool_tables" where
  "renewed row expiresAt now t = ((fromRow row)\<lparr>q_expiresAt := expiresAt, q_renewedAt := now\<rparr>,
    update_work (\<lambda>r. w_id r = w_id row) (\<lambda>r. r\<lparr>w_expires_at := expiresAt, w_renewed_at := now\<rparr>) t)"

definition renew_work :: "pool_tables \<Rightarrow> root_lease \<Rightarrow> work_token \<Rightarrow> int \<Rightarrow> int \<Rightarrow> pool_error + (pool_work \<times> pool_tables)" where
  "renew_work t lease token duration now =
    try_bind (positive duration) (\<lambda>_.
    try_bind (snapshotLease lease) (\<lambda>_.
    try_bind (current_here t lease token False now) (\<lambda>(_, row).
    try_bind (throw_if (w_expires_at row < now) (staleWork token Expired)) (\<lambda>_.
    try_bind (expiry now duration) (\<lambda>e. Inr (renewed row (max (w_expires_at row) e) now t))))))"

definition extendIn :: "pool_tables \<Rightarrow> root_lease \<Rightarrow> work_token \<Rightarrow> int \<Rightarrow> int \<Rightarrow> pool_error + (pool_work \<times> pool_tables)" where
  "extendIn t lease token duration now =
    try_bind (current_here t lease token False now) (\<lambda>(_, row).
    try_bind (expiry now duration) (\<lambda>e. Inr (renewed row (max (w_expires_at row) e) now t)))"

definition extend_work :: "pool_tables \<Rightarrow> root_lease \<Rightarrow> work_token \<Rightarrow> int \<Rightarrow> int \<Rightarrow> pool_error + (pool_work \<times> pool_tables)" where
  "extend_work t lease token duration now =
    try_bind (positive duration) (\<lambda>_. try_bind (snapshotLease lease) (\<lambda>_. extendIn t lease token duration now))"

definition heartbeat ::
  "pool_tables \<Rightarrow> root_lease \<Rightarrow> work_token \<Rightarrow> int \<Rightarrow> (pool_tables \<Rightarrow> pool_error + ('r \<times> pool_tables)) \<Rightarrow> int \<Rightarrow>
    pool_error + ((pool_work \<times> 'r \<times> pool_control) \<times> pool_tables)" where
  "heartbeat t lease token duration record_usage now =
    try_bind (positive duration) (\<lambda>_.
    try_bind (snapshotLease lease) (\<lambda>_.
    try_bind (extendIn t lease token duration now) (\<lambda>(work, t1).
    try_bind (record_usage t1) (\<lambda>(recorded, t2). Inr ((work, recorded, controlIn t2 lease), t2)))))"

fun result_runId :: "json \<Rightarrow> json option" where
  "result_runId (JObj obj) = map_get obj ''runId''"
| "result_runId _ = None"

definition complete :: "pool_tables \<Rightarrow> root_lease \<Rightarrow> work_token \<Rightarrow> json \<Rightarrow> int \<Rightarrow> pool_error + (unit \<times> pool_tables)" where
  "complete t lease token result now =
    try_bind (snapshotLease lease) (\<lambda>_.
    try_bind (current_here t lease token True now) (\<lambda>(status, row).
    if w_state row = WCompleted
    then try_bind (throw_if (map_get (pt_results t) (tk_id token) \<noteq> Some result) ResultIdentityConflict) (\<lambda>_. Inr ((), t))
    else try_bind (throw_if (w_expires_at row < now) (staleWork token Expired)) (\<lambda>_.
      try_bind (throw_if (\<not> admitsAttemptWrites t lease status) (staleWork token RootNotRunning)) (\<lambda>_.
      try_bind (throw_if (result_runId result \<noteq> Some (JStr (pd_childRunId (w_descriptor row)))) ResultIdentityMismatch) (\<lambda>_.
      try_bind (throw_if (map_has (pt_results t) (tk_id token)) PrimaryKeyViolation) (\<lambda>_.
      Inr ((), update_work (\<lambda>r. w_id r = tk_id token) (\<lambda>r. r\<lparr>w_state := WCompleted\<rparr>)
        (t\<lparr>pt_results := map_set (pt_results t) (tk_id token) result\<rparr>))))))))"

definition result_of :: "pool_tables \<Rightarrow> string \<Rightarrow> string \<Rightarrow> json option" where
  "result_of t run wid = (case work_of t wid run of None \<Rightarrow> None | Some _ \<Rightarrow> map_get (pt_results t) wid)"

definition reopenCompleted ::
  "pool_tables \<Rightarrow> root_lease \<Rightarrow> string \<Rightarrow> (json \<Rightarrow> bool) \<Rightarrow> int \<Rightarrow> pool_error + (pool_work option \<times> pool_tables)" where
  "reopenCompleted t lease wid rerun now =
    try_bind (snapshotLease lease) (\<lambda>_.
    try_bind (authority t lease None now) (\<lambda>_.
    case work_of t wid (rl_runId lease) of
      None \<Rightarrow> Inr (None, t)
    | Some row \<Rightarrow>
        if w_state row \<noteq> WCompleted \<or> rl_epoch lease \<le> w_epoch row then Inr (None, t)
        else case map_get (pt_results t) wid of
            None \<Rightarrow> Inr (None, t)
          | Some stored \<Rightarrow>
              if \<not> rerun stored then Inr (None, t)
              else let f = (\<lambda>r. r\<lparr>w_state := WReady, w_worker := None, w_expires_at := 0, w_epoch := rl_epoch lease\<rparr>)
                in Inr (Some (fromRow (f row)),
                  update_work (\<lambda>r. w_id r = wid) f (t\<lparr>pt_results := map_delete (pt_results t) wid\<rparr>))))"

definition expire :: "pool_tables \<Rightarrow> root_lease \<Rightarrow> work_token \<Rightarrow> int \<Rightarrow> pool_error + (bool \<times> pool_tables)" where
  "expire t lease token now =
    try_bind (snapshotLease lease) (\<lambda>_.
    try_bind (authority t lease None now) (\<lambda>_.
    try_bind (current t lease token False) (\<lambda>row.
    if w_epoch row = rl_epoch lease \<and> now \<le> w_expires_at row then Inr (False, t)
    else Inr (True, update_work (\<lambda>r. w_id r = w_id row) (\<lambda>r. r\<lparr>w_state := WReady, w_worker := None, w_expires_at := 0\<rparr>) t))))"

definition settleExited ::
  "pool_tables \<Rightarrow> root_lease \<Rightarrow> work_token \<Rightarrow> work_state \<Rightarrow> int \<Rightarrow> int \<Rightarrow> pool_error + (bool \<times> pool_tables)" where
  "settleExited t lease token state rewind now =
    try_bind (snapshotLease lease) (\<lambda>_.
    try_bind (authority t lease None now) (\<lambda>_.
    case work_of t (tk_id token) (rl_runId lease) of
      None \<Rightarrow> Inr (False, t)
    | Some row \<Rightarrow>
        if w_state row \<noteq> WLeased \<or> w_generation row \<noteq> tk_generation token \<or> w_worker row \<noteq> tk_worker token \<or> w_epoch row \<noteq> tk_epoch token
        then Inr (False, t)
        else Inr (True, update_work (\<lambda>r. w_id r = w_id row)
          (\<lambda>r. r\<lparr>w_state := state, w_worker := None, w_expires_at := 0, w_generation := w_generation row - rewind\<rparr>) t)))"

definition releaseExited :: "pool_tables \<Rightarrow> root_lease \<Rightarrow> work_token \<Rightarrow> int \<Rightarrow> pool_error + (bool \<times> pool_tables)" where
  "releaseExited t lease token now = settleExited t lease token WReady 0 now"

definition failExited :: "pool_tables \<Rightarrow> root_lease \<Rightarrow> work_token \<Rightarrow> int \<Rightarrow> pool_error + (bool \<times> pool_tables)" where
  "failExited t lease token now = settleExited t lease token WFailed 0 now"

definition releaseUnplaced :: "pool_tables \<Rightarrow> root_lease \<Rightarrow> work_token \<Rightarrow> int \<Rightarrow> pool_error + (bool \<times> pool_tables)" where
  "releaseUnplaced t lease token now = settleExited t lease token WReady 1 now"

definition releaseRetained :: "pool_tables \<Rightarrow> root_lease \<Rightarrow> work_token \<Rightarrow> bool \<Rightarrow> int \<Rightarrow> pool_error + (bool \<times> pool_tables)" where
  "releaseRetained t lease token adopt now =
    try_bind (snapshotLease lease) (\<lambda>_.
    try_bind (authority t lease None now) (\<lambda>_.
    try_bind (current t lease token False) (\<lambda>row.
    if rl_epoch lease \<le> w_epoch row then Inr (False, t)
    else Inr (True, update_work (\<lambda>r. w_id r = w_id row)
      (\<lambda>r. r\<lparr>w_state := WReady, w_worker := None, w_expires_at := 0, w_epoch := (if adopt then rl_epoch lease else w_epoch row)\<rparr>) t))))"

definition releaseClosed :: "pool_tables \<Rightarrow> root_lease \<Rightarrow> string list \<Rightarrow> int \<Rightarrow> pool_error + (nat \<times> pool_tables)" where
  "releaseClosed t lease retained now =
    try_bind (snapshotLease lease) (\<lambda>_.
    try_bind (authority t lease None now) (\<lambda>_.
    let P = (\<lambda>r. w_root r = rl_runId lease \<and> (w_state r = WReady \<or> (w_state r = WLeased \<and> w_epoch r = rl_epoch lease)) \<and> w_id r \<notin> set retained)
    in Inr (work_changes P t, update_work P (\<lambda>r. r\<lparr>w_state := WFailed, w_worker := None, w_expires_at := 0\<rparr>) t)))"

definition releasePreviousIncarnations :: "pool_tables \<Rightarrow> root_lease \<Rightarrow> string list \<Rightarrow> int \<Rightarrow> pool_error + (nat \<times> pool_tables)" where
  "releasePreviousIncarnations t lease retained now =
    try_bind (snapshotLease lease) (\<lambda>_.
    try_bind (authority t lease None now) (\<lambda>_.
    let P = (\<lambda>r. w_root r = rl_runId lease \<and> w_state r = WLeased \<and> w_epoch r < rl_epoch lease \<and> w_id r \<notin> set retained)
    in Inr (work_changes P t, update_work P (\<lambda>r. r\<lparr>w_state := WReady, w_worker := None, w_expires_at := 0\<rparr>) t)))"

definition inspect :: "pool_tables \<Rightarrow> string \<Rightarrow> pool_work list" where
  "inspect t run = map fromRow (by_age (\<lambda>r. w_root r = run) t)"

section \<open>Queueing work\<close>

record session_header =
  sh_internal :: bool
  sh_parentSessionId :: "string option"
  sh_workflowRunId :: "string option"

record session_claim =
  cl_sessionId :: string
  cl_replayKey :: string
  cl_runId :: string

record enqueue_options =
  eo_acceptEntryChanges :: bool
  eo_claimSessions :: "session_claim list"

text \<open>\<open>headers\<close> is what the session store of the pool holds.\<close>

fun claimSessions ::
  "(string \<rightharpoonup> session_header) \<Rightarrow> string \<Rightarrow> string \<Rightarrow> session_claim list \<Rightarrow> pool_tables \<Rightarrow> pool_error + pool_tables" where
  "claimSessions headers work scope [] t = Inr t"
| "claimSessions headers work scope (c # cs) t =
    (let refuse = (\<lambda>reason. Inl (SessionClaim (cl_sessionId c) reason)) in
     if \<not> starts_with (cl_replayKey c) (scope @ '':'') then refuse OutsideScope
     else case map_get (pt_owners t) (cl_sessionId c) of
         Some owner \<Rightarrow>
           if ow_work owner \<noteq> work then refuse OwnedByOtherWork
           else if ow_replay_key owner \<noteq> cl_replayKey c then refuse ClaimedForOtherStage
           else claimSessions headers work scope cs t
       | None \<Rightarrow> (case headers (cl_sessionId c) of
             None \<Rightarrow> refuse MissingSession
           | Some header \<Rightarrow>
               if \<not> sh_internal header \<or> sh_parentSessionId header = None then refuse NotForkCopy
               else if sh_workflowRunId header \<noteq> Some (cl_runId c) then refuse RunMismatch
               else claimSessions headers work scope cs
                 (t\<lparr>pt_owners := map_set (pt_owners t) (cl_sessionId c) \<lparr>ow_work = work, ow_replay_key = cl_replayKey c\<rparr>\<rparr>)))"

text \<open>
  \<open>rebind\<close>. The requested descriptor, with what a resume may change put back as it was queued, must be the same child.
\<close>

definition as_queued :: "pool_descriptor \<Rightarrow> pool_descriptor \<Rightarrow> pool_descriptor" where
  "as_queued requested queued =
    (let execution = map_delete (pd_execution requested) ''executionMode'' in
     requested\<lparr>pd_digest := pd_digest queued,
       pd_execution := (case map_get (pd_execution queued) ''executionMode'' of
           None \<Rightarrow> execution | Some mode \<Rightarrow> execution @ [(''executionMode'', mode)])\<rparr>)"

definition rebind ::
  "(json \<times> stage_checkpoint \<Rightarrow> string) \<Rightarrow> pool_tables \<Rightarrow> root_lease \<Rightarrow> work_row \<Rightarrow> pool_descriptor \<Rightarrow> stage_checkpoint \<Rightarrow> string \<Rightarrow>
    enqueue_options \<Rightarrow> pool_error + (work_row \<times> pool_tables)" where
  "rebind hash t lease previous requested boundary fingerprint options =
    (let queued = w_descriptor previous in
     try_bind (throw_if (workFingerprint hash (as_queued requested queued) boundary \<noteq> w_fingerprint previous) BoundaryIdentityConflict) (\<lambda>_.
     try_bind (throw_if (rl_epoch lease \<le> w_epoch previous) BoundaryIdentityConflict) (\<lambda>_.
     try_bind (throw_if (pd_digest queued \<noteq> pd_digest requested \<and> \<not> eo_acceptEntryChanges options) EntryModuleChanged) (\<lambda>_.
     let f = (\<lambda>r. r\<lparr>w_descriptor := requested, w_fingerprint := fingerprint\<rparr>)
     in Inr (f previous, update_work (\<lambda>r. w_id r = w_id previous) f t)))))"

text \<open>The checks of \<open>enqueue\<close> that the boundary's checkpoint starts exactly the child the descriptor names.\<close>

definition boundary_matches :: "root_lease \<Rightarrow> pool_descriptor \<Rightarrow> stage_checkpoint \<Rightarrow> bool" where
  "boundary_matches lease d boundary \<longleftrightarrow>
    sc_workflowId boundary = rl_runId lease \<and> sc_checkpointId boundary = ''boundary-start:'' @ pd_scope d \<and>
    sc_replayKey boundary = pd_scope d \<and>
    (case sc_topology boundary of
       None \<Rightarrow> False
     | Some topology \<Rightarrow>
         t_stageId topology = pd_boundaryId d \<and> t_sourceOrder topology \<noteq> None \<and> t_version topology = 1 \<and>
         t_status topology = Some Running \<and> map_option rt_runId (t_run topology) = Some (rl_runId lease) \<and>
         (case t_boundary topology of
            None \<Rightarrow> False
          | Some b \<Rightarrow> b_version b = 1 \<and> b_status b = Running \<and> b_event b = BoundaryStart \<and>
              ct_runId (b_child b) = pd_childRunId d \<and> ct_rootRunId (b_child b) = rl_runId lease \<and>
              ct_parentStageId (b_child b) = pd_boundaryId d \<and> ct_parentRunId (b_child b) = sc_workflowId boundary \<and>
              b_replayScope b = pd_scope d))"

fun check_texts :: "string list \<Rightarrow> pool_error + unit" where
  "check_texts [] = Inr ()"
| "check_texts (v # vs) = try_bind (check_text FKey v) (\<lambda>_. check_texts vs)"

definition boundary_key :: "stage_checkpoint \<Rightarrow> string \<times> string" where
  "boundary_key boundary = (''stage'', sc_checkpointId boundary)"

definition record_start :: "pool_tables \<Rightarrow> root_lease \<Rightarrow> stage_checkpoint \<Rightarrow> int \<Rightarrow> pool_error + pool_tables" where
  "record_start t lease boundary now =
    (let own = filter (\<lambda>e. ev_root e = rl_runId lease) (pt_events t) in
     case find (\<lambda>e. ev_key e = boundary_key boundary) own of
       Some existing \<Rightarrow> try_bind (throw_if (ev_payload existing \<noteq> boundary) BoundaryIdentityConflict) (\<lambda>_. Inr t)
     | None \<Rightarrow>
         try_bind (counter (rl_runId lease) FSeq (foldr max (map ev_seq own) 0 + 1)) (\<lambda>seq.
         Inr (t\<lparr>pt_events := pt_events t @ [\<lparr>ev_root = rl_runId lease, ev_seq = seq, ev_epoch = rl_epoch lease,
           ev_key = boundary_key boundary, ev_payload = boundary, ev_at = now\<rparr>]\<rparr>)))"

definition same_child :: "root_lease \<Rightarrow> pool_descriptor \<Rightarrow> work_row \<Rightarrow> bool" where
  "same_child lease d r \<longleftrightarrow> w_root r = rl_runId lease \<and>
    (w_boundary r = pd_boundaryId d \<or> pd_scope (w_descriptor r) = pd_scope d \<or> pd_childRunId (w_descriptor r) = pd_childRunId d)"

definition scopes_overlap :: "string \<Rightarrow> string \<Rightarrow> bool" where
  "scopes_overlap a b \<longleftrightarrow> starts_with a (b @ '':'') \<or> starts_with b (a @ '':'')"

definition new_row :: "root_lease \<Rightarrow> pool_descriptor \<Rightarrow> string \<Rightarrow> string \<Rightarrow> int \<Rightarrow> work_row" where
  "new_row lease d fingerprint uuid now = \<lparr>w_id = uuid, w_root = rl_runId lease, w_boundary = pd_boundaryId d, w_descriptor = d,
    w_fingerprint = fingerprint, w_state = WReady, w_generation = 0, w_worker = None, w_epoch = rl_epoch lease,
    w_expires_at = 0, w_renewed_at = 0, w_ready_at = now\<rparr>"

definition requeue ::
  "(json \<times> stage_checkpoint \<Rightarrow> string) \<Rightarrow> (string \<rightharpoonup> session_header) \<Rightarrow> pool_tables \<Rightarrow> root_lease \<Rightarrow> work_row \<Rightarrow> pool_descriptor \<Rightarrow>
    stage_checkpoint \<Rightarrow> enqueue_options \<Rightarrow> pool_error + (pool_work \<times> pool_tables)" where
  "requeue hash headers t lease previous d boundary options =
    (let requested = withQueuedSnapshot d (w_descriptor previous);
         fingerprint = workFingerprint hash d boundary in
     try_bind (if w_fingerprint previous = fingerprint then Inr (previous, t)
       else rebind hash t lease previous requested boundary fingerprint options) (\<lambda>(row, t1).
     try_bind (claimSessions headers (w_id row) (pd_scope d) (eo_claimSessions options) t1) (\<lambda>t2.
     if (w_state row \<noteq> WReady \<and> w_state row \<noteq> WFailed) \<or> rl_epoch lease \<le> w_epoch row then Inr (fromRow row, t2)
     else let f = (\<lambda>r. r\<lparr>w_state := WReady, w_epoch := rl_epoch lease, w_descriptor := requested\<rparr>)
       in Inr (fromRow (f row), update_work (\<lambda>r. w_id r = w_id row) f t2))))"

definition enqueue ::
  "(json \<times> stage_checkpoint \<Rightarrow> string) \<Rightarrow> (string \<rightharpoonup> session_header) \<Rightarrow> string \<Rightarrow> pool_tables \<Rightarrow> root_lease \<Rightarrow> pool_descriptor \<Rightarrow>
    stage_checkpoint \<Rightarrow> enqueue_options \<Rightarrow> int \<Rightarrow> pool_error + (pool_work \<times> pool_tables)" where
  "enqueue hash headers uuid t lease d boundary options now =
    try_bind (snapshotLease lease) (\<lambda>_.
    try_bind (throw_if (\<not> boundary_matches lease d boundary) BoundaryIdentityMismatch) (\<lambda>_.
    try_bind (check_texts [pd_boundaryId d, pd_childRunId d, pd_scope d, pd_definition d, pd_digest d]) (\<lambda>_.
    try_bind (authority t lease None now) (\<lambda>_.
    case find (same_child lease d) (pt_work t) of
      Some previous \<Rightarrow> requeue hash headers t lease previous d boundary options
    | None \<Rightarrow>
        try_bind (throw_if (\<exists>r \<in> set (pt_work t). w_root r = rl_runId lease \<and> scopes_overlap (pd_scope d) (pd_scope (w_descriptor r)))
          ScopesOverlap) (\<lambda>_.
        try_bind (throw_if (\<exists>r \<in> set (pt_work t). w_id r = uuid) PrimaryKeyViolation) (\<lambda>_.
        let row = new_row lease d (workFingerprint hash d boundary) uuid now in
        try_bind (record_start (t\<lparr>pt_work := pt_work t @ [row]\<rparr>) lease boundary now) (\<lambda>t1.
        try_bind (claimSessions headers uuid (pd_scope d) (eo_claimSessions options) t1) (\<lambda>t2.
        Inr (fromRow row, t2)))))))))"

end
