(* ===== verification/Pool_Lifecycle.thy ===== *)
theory Pool_Lifecycle
  imports Pool_Queue
begin

text \<open>
  What the work queue of a pool guarantees over every history of its operations: each work item follows a small life
  cycle, attempts are fenced by their generation, roots by their lease, the oldest work is claimed first, and a result is
  kept until a later incarnation of its root reopens it.
\<close>

section \<open>Histories\<close>

text \<open>
  Operations arrive in any order from the coordinators of every incarnation of every root. \<open>JournalChanges\<close> stands for
  what other code does to the run and lease rows of the journal. The usage report of a heartbeat writes other tables;
  here it succeeds or throws.
\<close>

datatype pool_op =
    Initialize root_lease int
  | HoldSnapshot root_lease "json option"
  | ReleaseSnapshot root_lease
  | SetControl root_lease control_state
  | Enqueue "string \<rightharpoonup> session_header" string root_lease pool_descriptor stage_checkpoint enqueue_options
  | Claim root_lease string "(string \<times> string) list" int "claim_placement option"
  | FailUnclaimed root_lease string int
  | Renew root_lease work_token int
  | Extend root_lease work_token int
  | Heartbeat root_lease work_token int "pool_error option"
  | Complete root_lease work_token json
  | Reopen root_lease string "json \<Rightarrow> bool"
  | Expire root_lease work_token
  | ReleaseExited root_lease work_token
  | FailExited root_lease work_token
  | ReleaseUnplaced root_lease work_token
  | ReleaseRetained root_lease work_token bool
  | ReleaseClosed root_lease "string list"
  | ReleasePrevious root_lease "string list"
  | JournalChanges "(string, string) jmap" "(string, lease_record) jmap"

fun pool_step :: "(json \<times> stage_checkpoint \<Rightarrow> string) \<Rightarrow> pool_tables \<Rightarrow> pool_op \<times> int \<Rightarrow> pool_tables" where
  "pool_step hash t (Initialize lease timeout, now) = result_state t (initialize t lease timeout now)"
| "pool_step hash t (HoldSnapshot lease snapshot, now) = result_state t (holdRootSnapshot t lease snapshot)"
| "pool_step hash t (ReleaseSnapshot lease, now) = result_state t (releaseRootSnapshot t lease)"
| "pool_step hash t (SetControl lease state, now) = result_state t (setControl t lease state now)"
| "pool_step hash t (Enqueue headers uuid lease d boundary options, now) = result_state t (enqueue hash headers uuid t lease d boundary options now)"
| "pool_step hash t (Claim lease worker definitions duration placement, now) = result_state t (claim t lease worker definitions duration placement now)"
| "pool_step hash t (FailUnclaimed lease wid generation, now) = result_state t (failUnclaimed t lease wid generation now)"
| "pool_step hash t (Renew lease token duration, now) = result_state t (renew_work t lease token duration now)"
| "pool_step hash t (Extend lease token duration, now) = result_state t (extend_work t lease token duration now)"
| "pool_step hash t (Heartbeat lease token duration report, now) =
    result_state t (heartbeat t lease token duration (\<lambda>t. case report of None \<Rightarrow> Inr ((), t) | Some e \<Rightarrow> Inl e) now)"
| "pool_step hash t (Complete lease token result, now) = result_state t (complete t lease token result now)"
| "pool_step hash t (Reopen lease wid rerun, now) = result_state t (reopenCompleted t lease wid rerun now)"
| "pool_step hash t (Expire lease token, now) = result_state t (expire t lease token now)"
| "pool_step hash t (ReleaseExited lease token, now) = result_state t (releaseExited t lease token now)"
| "pool_step hash t (FailExited lease token, now) = result_state t (failExited t lease token now)"
| "pool_step hash t (ReleaseUnplaced lease token, now) = result_state t (releaseUnplaced t lease token now)"
| "pool_step hash t (ReleaseRetained lease token adopt, now) = result_state t (releaseRetained t lease token adopt now)"
| "pool_step hash t (ReleaseClosed lease retained, now) = result_state t (releaseClosed t lease retained now)"
| "pool_step hash t (ReleasePrevious lease retained, now) = result_state t (releasePreviousIncarnations t lease retained now)"
| "pool_step hash t (JournalChanges statuses holders, now) = t\<lparr>pt_runs := statuses, pt_leases := holders\<rparr>"

definition empty_tables :: pool_tables where
  "empty_tables = \<lparr>pt_runs = [], pt_leases = [], pt_events = [], pt_roots = [], pt_control = [], pt_work = [], pt_results = [],
    pt_owners = [], pt_snapshots = []\<rparr>"

section \<open>The life cycle of one work item\<close>

text \<open>
  What matters of a row and its stored result, and how it may change: a step relation that says what the queue promises
  for each work item, whatever the statements that implement it.
\<close>

datatype work_view = View work_state int "string option" int "json option"

inductive life_step :: "bool \<Rightarrow> work_view \<Rightarrow> work_view \<Rightarrow> bool" where
  stays: "life_step b v v"
| is_claimed: "life_step b (View WReady g None e r) (View WLeased (g + 1) (Some w) e r)"
| is_released: "life_step b (View WLeased g w e r) (View WReady g None e r)"
| is_unplaced: "life_step True (View WLeased g w e r) (View WReady (g - 1) None e r)"
| attempt_fails: "life_step b (View WLeased g w e r) (View WFailed g None e r)"
| is_dropped: "life_step b (View WReady g w e r) (View WFailed g None e r)"
| completes: "life_step b (View WLeased g w e None) (View WCompleted g w e (Some v))"
| is_adopted: "s = WReady \<or> s = WFailed \<Longrightarrow> e < e' \<Longrightarrow> life_step b (View s g w e r) (View WReady g w e' r)"
| is_handed_over: "e < e' \<Longrightarrow> life_step b (View WLeased g w e r) (View WReady g None e' r)"
| is_reopened: "e < e' \<Longrightarrow> life_step b (View WCompleted g w e (Some v)) (View WReady g None e' None)"

inductive_simps life_step_simps: "life_step b (View s g w e r) (View s' g' w' e' r')"

definition row_view :: "pool_tables \<Rightarrow> work_row \<Rightarrow> work_view" where
  "row_view t r = View (w_state r) (w_generation r) (w_worker r) (w_epoch r) (map_get (pt_results t) (w_id r))"

definition row_held :: "work_token \<Rightarrow> work_row \<Rightarrow> bool" where
  "row_held token r \<longleftrightarrow> w_id r = tk_id token \<and> w_state r = WLeased \<and> w_generation r = tk_generation token \<and>
    w_worker r = tk_worker token \<and> w_epoch r = tk_epoch token"

definition same_work :: "work_row \<Rightarrow> work_row \<Rightarrow> bool" where
  "same_work r u \<longleftrightarrow> w_id u = w_id r \<and> w_root u = w_root r \<and> w_boundary u = w_boundary r \<and> w_ready_at u = w_ready_at r"

definition fresh_row :: "pool_tables \<Rightarrow> work_row \<Rightarrow> bool" where
  "fresh_row t r \<longleftrightarrow> w_state r = WReady \<and> w_generation r = 0 \<and> w_worker r = None \<and> w_id r \<notin> w_id ` set (pt_work t)"

definition tables_step :: "(work_row \<Rightarrow> bool) \<Rightarrow> pool_tables \<Rightarrow> pool_tables \<Rightarrow> bool" where
  "tables_step U t t' \<longleftrightarrow> (\<exists>us new. pt_work t' = us @ new \<and> (new = [] \<or> (\<exists>r. new = [r] \<and> fresh_row t r)) \<and>
    list_all2 (\<lambda>r u. same_work r u \<and> life_step (U r) (row_view t r) (row_view t' u)) (pt_work t) us \<and>
    fst ` set (pt_results t') \<subseteq> fst ` set (pt_results t) \<union> w_id ` set (pt_work t))"

text \<open>What holds of every item: an attempt has a worker and a positive generation, and exactly a completed item has a result.\<close>

fun view_ok :: "work_view \<Rightarrow> bool" where
  "view_ok (View s g w e r) \<longleftrightarrow> 0 \<le> g \<and> ((s = WLeased \<or> s = WCompleted) = (w \<noteq> None)) \<and> (w \<noteq> None \<longrightarrow> 0 < g) \<and> ((s = WCompleted) = (r \<noteq> None))"

definition pool_inv :: "pool_tables \<Rightarrow> bool" where
  "pool_inv t \<longleftrightarrow> distinct (map w_id (pt_work t)) \<and> fst ` set (pt_results t) \<subseteq> w_id ` set (pt_work t) \<and>
    (\<forall>r \<in> set (pt_work t). view_ok (row_view t r))"

lemma life_step_ok: "life_step b v v' \<Longrightarrow> view_ok v \<Longrightarrow> view_ok v'"
  by (induction rule: life_step.induct) auto

lemma tables_step_inv:
  assumes step: "tables_step U t t'" and inv: "pool_inv t"
  shows "pool_inv t'"
proof -
  obtain us new where us: "pt_work t' = us @ new" "new = [] \<or> (\<exists>r. new = [r] \<and> fresh_row t r)"
    "list_all2 (\<lambda>r u. same_work r u \<and> life_step (U r) (row_view t r) (row_view t' u)) (pt_work t) us"
    and keys: "fst ` set (pt_results t') \<subseteq> fst ` set (pt_results t) \<union> w_id ` set (pt_work t)"
    using step unfolding tables_step_def by blast
  have "map w_id us = map w_id (pt_work t)" using us(3) by (induction rule: list_all2_induct) (auto simp: same_work_def)
  then have ids: "map w_id us = map w_id (pt_work t)" "w_id ` set us = w_id ` set (pt_work t)" by (simp, metis list.set_map)
  have sub: "fst ` set (pt_results t') \<subseteq> w_id ` set (pt_work t)" using keys inv by (auto simp: pool_inv_def)
  have old: "view_ok (row_view t' u)" if "u \<in> set us" for u
  proof -
    obtain r where "r \<in> set (pt_work t)" "life_step (U r) (row_view t r) (row_view t' u)"
      using us(3) \<open>u \<in> set us\<close> by (metis (no_types, lifting) in_set_conv_nth list_all2_conv_all_nth)
    then show ?thesis using inv life_step_ok by (auto simp: pool_inv_def)
  qed
  have "view_ok (row_view t' r)" if r: "new = [r]" "fresh_row t r" for r
  proof -
    have "map_get (pt_results t') (w_id r) = None" using sub r(2) by (auto simp: map_get_None_iff fresh_row_def)
    then show ?thesis using r(2) by (simp add: row_view_def fresh_row_def)
  qed
  then have views: "\<forall>r \<in> set (pt_work t'). view_ok (row_view t' r)" using us(1,2) old by auto
  have "distinct (map w_id us)" using ids(1) inv by (simp add: pool_inv_def)
  moreover have "w_id r \<notin> w_id ` set us" if "fresh_row t r" for r using that ids(2) by (simp add: fresh_row_def)
  ultimately have "distinct (map w_id (pt_work t'))" using us(1,2) by (force simp: image_iff)
  moreover have "fst ` set (pt_results t') \<subseteq> w_id ` set (pt_work t')" using us(1) ids(2) sub by (simp add: image_Un) blast
  ultimately show ?thesis using views by (simp add: pool_inv_def)
qed

lemma tables_step_same:
  assumes "pt_work t' = pt_work t" and "pt_results t' = pt_results t"
  shows "tables_step U t t'"
  unfolding tables_step_def
  by (intro exI [of _ "pt_work t"] exI [of _ "[]"]) (simp add: assms list_all2_same same_work_def row_view_def life_step.stays)

lemma tables_step_update:
  assumes "pt_work t' = map (\<lambda>r. if P r then f r else r) (pt_work t)" and "pt_results t' = pt_results t"
    and "\<And>r. r \<in> set (pt_work t) \<Longrightarrow> P r \<Longrightarrow> same_work r (f r) \<and> life_step (U r) (row_view t r) (row_view t (f r))"
  shows "tables_step U t t'"
proof -
  have "list_all2 (\<lambda>r u. same_work r u \<and> life_step (U r) (row_view t r) (row_view t' u)) (pt_work t) (map (\<lambda>r. if P r then f r else r) (pt_work t))"
    unfolding list_all2_map2 list_all2_same
  proof
    fix r
    assume r: "r \<in> set (pt_work t)"
    have "row_view t' u = row_view t u" for u using assms(2) by (simp add: row_view_def)
    then show "same_work r (if P r then f r else r) \<and> life_step (U r) (row_view t r) (row_view t' (if P r then f r else r))"
      using assms(3) [OF r] by (simp add: same_work_def life_step.stays)
  qed
  then show ?thesis unfolding tables_step_def using assms(1,2) by (intro exI [of _ "pt_work t'"] exI [of _ "[]"]) auto
qed

lemma tables_step_one:
  assumes inv: "pool_inv t" and row: "row \<in> set (pt_work t)"
    and work: "pt_work t' = map (\<lambda>r. if w_id r = w_id row then f r else r) (pt_work t)"
    and results: "\<And>i. i \<noteq> w_id row \<Longrightarrow> map_get (pt_results t') i = map_get (pt_results t) i"
    and keys: "fst ` set (pt_results t') \<subseteq> fst ` set (pt_results t) \<union> w_id ` set (pt_work t)"
    and one: "same_work row (f row)" "life_step (U row) (row_view t row) (row_view t' (f row))"
  shows "tables_step U t t'"
proof -
  have same: "r = row" if "r \<in> set (pt_work t)" "w_id r = w_id row" for r
    using inv row that by (auto simp: pool_inv_def distinct_map inj_on_def)
  have "list_all2 (\<lambda>r u. same_work r u \<and> life_step (U r) (row_view t r) (row_view t' u)) (pt_work t)
      (map (\<lambda>r. if w_id r = w_id row then f r else r) (pt_work t))"
    unfolding list_all2_map2 list_all2_same
  proof
    fix r
    assume r: "r \<in> set (pt_work t)"
    show "same_work r (if w_id r = w_id row then f r else r) \<and>
      life_step (U r) (row_view t r) (row_view t' (if w_id r = w_id row then f r else r))"
    proof (cases "w_id r = w_id row")
      case True
      then show ?thesis using same [OF r] one by simp
    next
      case False
      then show ?thesis using results [OF False] by (simp add: same_work_def row_view_def life_step.stays)
    qed
  qed
  then show ?thesis unfolding tables_step_def using work keys by (intro exI [of _ "pt_work t'"] exI [of _ "[]"]) auto
qed

section \<open>Every operation is a step of the life cycle\<close>

lemma update_work_simps [simp]:
  "pt_work (update_work P f t) = map (\<lambda>r. if P r then f r else r) (pt_work t)"
  "pt_results (update_work P f t) = pt_results t" "pt_roots (update_work P f t) = pt_roots t"
  "pt_leases (update_work P f t) = pt_leases t" "pt_runs (update_work P f t) = pt_runs t"
  "pt_control (update_work P f t) = pt_control t" "pt_owners (update_work P f t) = pt_owners t"
  by (simp_all add: update_work_def)

lemma authority_update [simp]: "authority (update_work P f t) lease window now = authority t lease window now"
proof -
  have "leaseRow (update_work P f t) lease = leaseRow t lease" unfolding leaseRow_def update_work_simps ..
  then show ?thesis unfolding authority_def by simp
qed

lemma update_work_in: "r \<in> set (pt_work t) \<Longrightarrow> P r \<Longrightarrow> f r \<in> set (pt_work (update_work P f t))"
  by (force simp: image_iff)

lemma find_unique:
  assumes "x \<in> set xs" and "P x" and "\<And>y. y \<in> set xs \<Longrightarrow> P y \<Longrightarrow> y = x"
  shows "find P xs = Some x"
proof (cases "find P xs")
  case None
  then show ?thesis using assms(1,2) by (simp add: find_None_iff)
next
  case (Some y)
  then have "y \<in> set xs" "P y" by (auto simp: find_Some_iff)
  then show ?thesis using Some assms(3) by simp
qed

lemma work_ofD: "work_of t i run = Some row \<Longrightarrow> row \<in> set (pt_work t) \<and> w_id row = i \<and> w_root row = run"
  by (auto simp: work_of_def find_Some_iff)

lemma currentD:
  assumes "current t lease token allowCompleted = Inr row"
  shows "row \<in> set (pt_work t)" "w_id row = tk_id token" "w_root row = rl_runId lease" "w_epoch row = tk_epoch token"
    "w_generation row = tk_generation token" "w_worker row = tk_worker token"
    "w_state row = WLeased \<or> (allowCompleted \<and> w_state row = WCompleted)"
  using assms work_ofD by (auto simp: current_def split: option.splits if_splits)

lemma current_hereD:
  assumes "current_here t lease token allowCompleted now = Inr (status, row)"
  shows "authority t lease None now = Inr status" "current t lease token allowCompleted = Inr row" "w_epoch row = rl_epoch lease"
  using assms by (auto simp: current_here_def try_bind_Inr)

text \<open>An update of the one row an attempt holds.\<close>

lemma row_update_step:
  assumes "pool_inv t" and "row \<in> set (pt_work t)" and "same_work row (f row)" and "life_step (U row) (row_view t row) (row_view t (f row))"
  shows "tables_step U t (update_work (\<lambda>r. w_id r = w_id row) f t)"
proof (rule tables_step_one [OF assms(1,2), where f = f])
  show "life_step (U row) (row_view t row) (row_view (update_work (\<lambda>r. w_id r = w_id row) f t) (f row))"
    using assms(4) by (simp add: row_view_def)
qed (use assms(3) in auto)

lemma maybe_update_step:
  assumes "pool_inv t" and "row \<in> set (pt_work t)"
    and "t' = t \<or> (t' = update_work (\<lambda>r. w_id r = w_id row) f t \<and> same_work row (f row) \<and> life_step (U row) (row_view t row) (row_view t (f row)))"
  shows "tables_step U t t'"
  using assms(3)
proof
  assume "t' = t"
  then show ?thesis by (simp add: tables_step_same)
next
  assume "t' = update_work (\<lambda>r. w_id r = w_id row) f t \<and> same_work row (f row) \<and> life_step (U row) (row_view t row) (row_view t (f row))"
  then show ?thesis using row_update_step [OF assms(1,2)] by simp
qed

lemma renewed_step:
  "pool_inv t \<Longrightarrow> row \<in> set (pt_work t) \<Longrightarrow> tables_step U t (snd (renewed row expires now t))"
  by (auto simp: renewed_def same_work_def row_view_def life_step.stays intro!: row_update_step)

lemma extendIn_step:
  assumes "pool_inv t" and "extendIn t lease token duration now = Inr (work, t')"
  shows "tables_step U t t'"
proof -
  obtain status row e where "current_here t lease token False now = Inr (status, row)" "renewed row e now t = (work, t')"
    using assms(2) by (auto simp: extendIn_def try_bind_Inr)
  then show ?thesis using renewed_step [OF assms(1) currentD(1)] current_hereD(2) by (metis snd_conv)
qed

lemma renew_step:
  assumes "pool_inv t" and "renew_work t lease token duration now = Inr (work, t')"
  shows "tables_step U t t'"
proof -
  obtain status row e where "current_here t lease token False now = Inr (status, row)" "renewed row e now t = (work, t')"
    using assms(2) by (auto simp: renew_work_def try_bind_Inr)
  then show ?thesis using renewed_step [OF assms(1) currentD(1)] current_hereD(2) by (metis snd_conv)
qed

lemma complete_step:
  assumes inv: "pool_inv t" and "complete t lease token result now = Inr (u, t')"
  shows "tables_step U t t'"
proof -
  obtain status row where c: "current_here t lease token True now = Inr (status, row)"
    and eq: "w_state row = WCompleted \<and> t' = t \<or> (w_state row \<noteq> WCompleted \<and> \<not> map_has (pt_results t) (tk_id token) \<and>
      t' = update_work (\<lambda>r. w_id r = tk_id token) (\<lambda>r. r\<lparr>w_state := WCompleted\<rparr>)
        (t\<lparr>pt_results := map_set (pt_results t) (tk_id token) result\<rparr>))"
    using assms(2) by (auto simp: complete_def try_bind_Inr split: if_splits)
  note row = currentD [OF current_hereD(2) [OF c]]
  show ?thesis
  proof (cases "w_state row = WCompleted")
    case True
    then show ?thesis using eq by (simp add: tables_step_same)
  next
    case False
    then have t': "\<not> map_has (pt_results t) (tk_id token)" "t' = update_work (\<lambda>r. w_id r = tk_id token) (\<lambda>r. r\<lparr>w_state := WCompleted\<rparr>)
        (t\<lparr>pt_results := map_set (pt_results t) (tk_id token) result\<rparr>)" and leased: "w_state row = WLeased"
      using eq row(7) by auto
    have "map_get (pt_results t) (w_id row) = None" using t'(1) row(2) by (simp add: map_has_get)
    moreover have "tk_id token \<in> w_id ` set (pt_work t)" using row(1,2) by (metis image_eqI)
    ultimately show ?thesis using t'(2) row(2) leased
      by (intro tables_step_one [OF inv row(1), where f = "\<lambda>r. r\<lparr>w_state := WCompleted\<rparr>"])
        (auto simp: same_work_def row_view_def life_step_simps)
  qed
qed

lemma reopen_step:
  assumes inv: "pool_inv t" and "reopenCompleted t lease wid rerun now = Inr (work, t')"
  shows "tables_step U t t'"
proof -
  let ?f = "\<lambda>r. r\<lparr>w_state := WReady, w_worker := None, w_expires_at := 0, w_epoch := rl_epoch lease\<rparr>"
  have "t' = t \<or> (\<exists>row stored. work_of t wid (rl_runId lease) = Some row \<and> w_state row = WCompleted \<and> w_epoch row < rl_epoch lease \<and>
      map_get (pt_results t) wid = Some stored \<and> t' = update_work (\<lambda>r. w_id r = wid) ?f (t\<lparr>pt_results := map_delete (pt_results t) wid\<rparr>))"
    using assms(2) by (auto simp: reopenCompleted_def try_bind_Inr Let_def split: option.splits if_splits)
  then show ?thesis
  proof
    assume "t' = t"
    then show ?thesis by (simp add: tables_step_same)
  next
    assume "\<exists>row stored. work_of t wid (rl_runId lease) = Some row \<and> w_state row = WCompleted \<and> w_epoch row < rl_epoch lease \<and>
      map_get (pt_results t) wid = Some stored \<and> t' = update_work (\<lambda>r. w_id r = wid) ?f (t\<lparr>pt_results := map_delete (pt_results t) wid\<rparr>)"
    then obtain row stored where r: "work_of t wid (rl_runId lease) = Some row" "w_state row = WCompleted" "w_epoch row < rl_epoch lease"
      "map_get (pt_results t) wid = Some stored" "t' = update_work (\<lambda>r. w_id r = wid) ?f (t\<lparr>pt_results := map_delete (pt_results t) wid\<rparr>)"
      by blast
    have row: "row \<in> set (pt_work t)" "w_id row = wid" using work_ofD [OF r(1)] by auto
    show ?thesis using r row
      by (intro tables_step_one [OF inv row(1), where f = ?f]) (auto simp: same_work_def row_view_def life_step_simps)
  qed
qed

text \<open>The releases of one attempt.\<close>

lemma expire_step:
  assumes "pool_inv t" and "expire t lease token now = Inr (b, t')"
  shows "tables_step U t t'"
proof -
  let ?f = "\<lambda>r. r\<lparr>w_state := WReady, w_worker := None, w_expires_at := 0\<rparr>"
  obtain row where row: "current t lease token False = Inr row" and t': "t' = t \<or> t' = update_work (\<lambda>r. w_id r = w_id row) ?f t"
    using assms(2) by (auto simp: expire_def try_bind_Inr split: if_splits)
  have "w_state row = WLeased" using currentD(7) [OF row] by simp
  then have "life_step (U row) (row_view t row) (row_view t (?f row))" by (simp add: row_view_def life_step.is_released)
  then show ?thesis using t' by (intro maybe_update_step [OF assms(1) currentD(1) [OF row], where f = ?f]) (auto simp: same_work_def)
qed

lemma retained_step:
  assumes "pool_inv t" and "releaseRetained t lease token adopt now = Inr (b, t')"
  shows "tables_step U t t'"
proof -
  obtain row where row: "current t lease token False = Inr row"
    and t': "t' = t \<or> (w_epoch row < rl_epoch lease \<and> t' = update_work (\<lambda>r. w_id r = w_id row)
      (\<lambda>r. r\<lparr>w_state := WReady, w_worker := None, w_expires_at := 0, w_epoch := (if adopt then rl_epoch lease else w_epoch row)\<rparr>) t)"
    using assms(2) by (auto simp: releaseRetained_def try_bind_Inr split: if_splits)
  let ?f = "\<lambda>r. r\<lparr>w_state := WReady, w_worker := None, w_expires_at := 0, w_epoch := (if adopt then rl_epoch lease else w_epoch row)\<rparr>"
  have "w_state row = WLeased" using currentD(7) [OF row] by simp
  then have "w_epoch row < rl_epoch lease \<Longrightarrow> life_step (U row) (row_view t row) (row_view t (?f row))"
    by (simp add: row_view_def life_step.is_released life_step.is_handed_over)
  then show ?thesis using t' by (intro maybe_update_step [OF assms(1) currentD(1) [OF row], where f = ?f]) (auto simp: same_work_def)
qed

lemma exited_step:
  assumes "pool_inv t" and "settleExited t lease token state rewind now = Inr (b, t')"
    and "(state, rewind) \<in> {(WReady, 0), (WFailed, 0)} \<or> (state = WReady \<and> rewind = 1 \<and> U = row_held token)"
  shows "tables_step U t t'"
proof (cases "t' = t")
  case True
  then show ?thesis by (simp add: tables_step_same)
next
  case False
  then obtain row where row: "work_of t (tk_id token) (rl_runId lease) = Some row" "w_state row = WLeased"
    and held: "w_generation row = tk_generation token" "w_worker row = tk_worker token" "w_epoch row = tk_epoch token"
    and t': "t' = update_work (\<lambda>r. w_id r = w_id row)
      (\<lambda>r. r\<lparr>w_state := state, w_worker := None, w_expires_at := 0, w_generation := w_generation row - rewind\<rparr>) t"
    using assms(2) by (auto simp: settleExited_def try_bind_Inr split: option.splits if_splits)
  let ?f = "\<lambda>r. r\<lparr>w_state := state, w_worker := None, w_expires_at := 0, w_generation := w_generation row - rewind\<rparr>"
  have "row_held token row" using row(2) held work_ofD [OF row(1)] by (simp add: row_held_def)
  then have "life_step (U row) (row_view t row) (row_view t (?f row))"
    using assms(3) row(2)
    by (auto simp: row_view_def life_step.is_released life_step.is_unplaced life_step.attempt_fails)
  then show ?thesis using t' work_ofD [OF row(1)]
    by (intro maybe_update_step [OF assms(1), where row = row and f = ?f]) (auto simp: same_work_def)
qed

text \<open>The updates of many rows.\<close>

lemma updates_step:
  assumes "\<And>r. P r \<Longrightarrow> same_work r (f r) \<and> life_step (U r) (row_view t r) (row_view t (f r))"
  shows "tables_step U t (update_work P f t)"
  by (rule tables_step_update [where P = P and f = f]) (simp_all add: assms)

lemma fails_life: "w_state r = WReady \<or> w_state r = WLeased \<Longrightarrow>
  same_work r (r\<lparr>w_state := WFailed, w_worker := None, w_expires_at := 0\<rparr>) \<and>
  life_step (U r) (row_view t r) (row_view t (r\<lparr>w_state := WFailed, w_worker := None, w_expires_at := 0\<rparr>))"
  by (auto simp: same_work_def row_view_def life_step.is_dropped life_step.attempt_fails)

lemma releases_life: "w_state r = WLeased \<Longrightarrow>
  same_work r (r\<lparr>w_state := WReady, w_worker := None, w_expires_at := 0\<rparr>) \<and>
  life_step (U r) (row_view t r) (row_view t (r\<lparr>w_state := WReady, w_worker := None, w_expires_at := 0\<rparr>))"
  by (simp add: same_work_def row_view_def life_step.is_released)

lemma failUnclaimed_step: "failUnclaimed t lease wid generation now = Inr (b, t') \<Longrightarrow> tables_step U t t'"
  by (auto simp: failUnclaimed_def try_bind_Inr Let_def fails_life intro!: updates_step)

lemma releaseClosed_step: "releaseClosed t lease retained now = Inr (n, t') \<Longrightarrow> tables_step U t t'"
  using fails_life by (auto simp: releaseClosed_def try_bind_Inr Let_def intro!: updates_step)

lemma releasePrevious_step: "releasePreviousIncarnations t lease retained now = Inr (n, t') \<Longrightarrow> tables_step U t t'"
  by (auto simp: releasePreviousIncarnations_def try_bind_Inr Let_def releases_life intro!: updates_step)

section \<open>Claiming and queueing\<close>

lemma by_age_in: "by_age P t = row # rest \<Longrightarrow> row \<in> set (pt_work t) \<and> P row"
proof -
  assume "by_age P t = row # rest"
  then have "row \<in> set (by_age P t)" by simp
  then show ?thesis by (simp add: by_age_def)
qed

definition claimed_row :: "work_row \<Rightarrow> string \<Rightarrow> root_lease \<Rightarrow> int \<Rightarrow> int \<Rightarrow> work_row" where
  "claimed_row r worker lease expires now = r\<lparr>w_state := WLeased, w_generation := w_generation r + 1, w_worker := Some worker,
    w_epoch := rl_epoch lease, w_expires_at := expires, w_renewed_at := now\<rparr>"

definition may_claim :: "pool_tables \<Rightarrow> root_lease \<Rightarrow> (string \<times> string) list \<Rightarrow> string \<Rightarrow> bool" where
  "may_claim t lease definitions status \<longleftrightarrow> status = ''running'' \<and> definitions \<noteq> [] \<and>
    (case map_get (pt_control t) (rl_runId lease) of None \<Rightarrow> True | Some c \<Rightarrow> pc_state c = CtlRunning)"

lemma counter_Inr: "counter run field v = Inr g \<Longrightarrow> g = v \<and> 0 \<le> v \<and> v \<le> MAX_SAFE_INTEGER"
  by (auto simp: counter_def journalCounter_def split: if_splits)

lemma expiry_Inr: "expiry now duration = Inr e \<longleftrightarrow> e = now + duration \<and> 0 < now + duration \<and> now + duration \<le> MAX_SAFE_INTEGER"
  by (auto simp: expiry_def positive_def try_bind_Inr)

text \<open>A claim that returns either takes nothing, or takes the first row by age.\<close>

lemma claim_cases:
  assumes inv: "pool_inv t" and c: "claim t lease worker definitions duration placement now = Inr (work, t')"
  obtains (None) "work = None" "t' = t"
      "\<And>status. authority t lease None now = Inr status \<Longrightarrow> may_claim t lease definitions status \<Longrightarrow>
        by_age (\<lambda>r. claimable lease definitions now r \<and> placed placement r) t = []"
  | (Some) row rest status where "authority t lease None now = Inr status" "may_claim t lease definitions status"
      "by_age (\<lambda>r. claimable lease definitions now r \<and> placed placement r) t = row # rest" "w_generation row < MAX_SAFE_INTEGER"
      "t' = update_work (\<lambda>r. w_id r = w_id row) (\<lambda>r. claimed_row r worker lease (now + duration) now) t"
      "work = Some (fromRow (claimed_row row worker lease (now + duration) now))"
proof -
  obtain status where a: "authority t lease None now = Inr status" using c by (auto simp: claim_def try_bind_Inr)
  let ?q = "by_age (\<lambda>r. claimable lease definitions now r \<and> placed placement r) t"
  show thesis
  proof (cases "may_claim t lease definitions status \<and> ?q \<noteq> []")
    case False
    then have "work = None" "t' = t" using c a by (auto simp: claim_def try_bind_Inr may_claim_def split: if_splits option.splits list.splits)
    then show thesis using None a False by auto
  next
    case True
    then obtain row rest where q: "?q = row # rest" by (cases ?q) auto
    let ?P = "\<lambda>r. w_id r = w_id row \<and> w_state r = WReady \<and> w_generation r = w_generation row"
    let ?f = "\<lambda>r. r\<lparr>w_state := WLeased, w_generation := w_generation row + 1, w_worker := Some worker, w_epoch := rl_epoch lease,
      w_expires_at := now + duration, w_renewed_at := now\<rparr>"
    have row: "row \<in> set (pt_work t)" "claimable lease definitions now row" using by_age_in [OF q] by auto
    have out: "w_generation row < MAX_SAFE_INTEGER" "t' = update_work ?P ?f t" "work = map_option fromRow (row_by_id (update_work ?P ?f t) (w_id row))"
      using c a True q by (auto simp: claim_def try_bind_Inr may_claim_def expiry_Inr Let_def dest!: counter_Inr split: if_splits option.splits)
    have only: "r = row" if "r \<in> set (pt_work t)" "w_id r = w_id row" for r
      using inv row(1) that by (auto simp: pool_inv_def distinct_map inj_on_def)
    have "w_state row = WReady" using row(2) by (simp add: claimable_def)
    then have "(if ?P r then ?f r else r) = (if w_id r = w_id row then claimed_row r worker lease (now + duration) now else r)"
      if "r \<in> set (pt_work t)" for r
      using only [OF that] by (auto simp: claimed_row_def)
    then have upd: "update_work ?P ?f t = update_work (\<lambda>r. w_id r = w_id row) (\<lambda>r. claimed_row r worker lease (now + duration) now) t"
      by (simp add: update_work_def)
    have "w_id (claimed_row r worker lease (now + duration) now) = w_id r" for r by (simp add: claimed_row_def)
    then have found: "row_by_id (update_work (\<lambda>r. w_id r = w_id row) (\<lambda>r. claimed_row r worker lease (now + duration) now) t) (w_id row) =
        Some (claimed_row row worker lease (now + duration) now)"
      using only row(1) unfolding row_by_id_def update_work_simps
      by (intro find_unique) auto
    show thesis using Some [OF a _ q out(1)] True out(2,3) upd found by simp
  qed
qed

lemma claim_step:
  assumes inv: "pool_inv t" and c: "claim t lease worker definitions duration placement now = Inr (work, t')"
  shows "tables_step U t t'"
  using inv c
proof (cases rule: claim_cases)
  case None
  then show ?thesis by (simp add: tables_step_same)
next
  case (Some row rest status)
  have row: "row \<in> set (pt_work t)" "claimable lease definitions now row" using by_age_in [OF Some(3)] by auto
  then have "view_ok (row_view t row)" "w_state row = WReady" "w_epoch row = rl_epoch lease" using inv by (auto simp: pool_inv_def claimable_def)
  then have "life_step (U row) (row_view t row) (row_view t (claimed_row row worker lease (now + duration) now))"
    by (simp add: row_view_def claimed_row_def life_step_simps)
  then show ?thesis using Some(5)
    by (intro maybe_update_step [OF inv row(1), where f = "\<lambda>r. claimed_row r worker lease (now + duration) now"])
      (auto simp: same_work_def claimed_row_def)
qed

lemma claimSessions_frame:
  "claimSessions headers work scope cs t = Inr t' \<Longrightarrow> pt_work t' = pt_work t \<and> pt_results t' = pt_results t"
proof (induction cs arbitrary: t)
  case (Cons c cs)
  then show ?case by (fastforce simp: Let_def split: if_splits option.splits)
qed simp

lemma record_start_frame:
  "record_start t lease boundary now = Inr t' \<Longrightarrow> pt_work t' = pt_work t \<and> pt_results t' = pt_results t"
  by (auto simp: record_start_def Let_def try_bind_Inr split: option.splits)

lemma rebind_cases:
  assumes "rebind hash t lease previous requested boundary fingerprint options = Inr (row, t1)"
  shows "row = previous\<lparr>w_descriptor := requested, w_fingerprint := fingerprint\<rparr>"
    "t1 = update_work (\<lambda>r. w_id r = w_id previous) (\<lambda>r. r\<lparr>w_descriptor := requested, w_fingerprint := fingerprint\<rparr>) t"
    "w_epoch previous < rl_epoch lease"
  using assms by (auto simp: rebind_def Let_def try_bind_Inr)

lemma requeue_step:
  assumes inv: "pool_inv t" and prev: "previous \<in> set (pt_work t)"
    and q: "requeue hash headers t lease previous d boundary options = Inr (work, t')"
  shows "tables_step U t t'"
proof -
  let ?i = "w_id previous"
  let ?requested = "withQueuedSnapshot d (w_descriptor previous)"
  obtain row t1 t2 where r: "(if w_fingerprint previous = workFingerprint hash d boundary then Inr (previous, t)
      else rebind hash t lease previous ?requested boundary (workFingerprint hash d boundary) options) = Inr (row, t1)"
    and t2: "claimSessions headers (w_id row) (pd_scope d) (eo_claimSessions options) t1 = Inr t2"
    and t': "t' = (if (w_state row \<noteq> WReady \<and> w_state row \<noteq> WFailed) \<or> rl_epoch lease \<le> w_epoch row then t2
      else update_work (\<lambda>r. w_id r = w_id row) (\<lambda>r. r\<lparr>w_state := WReady, w_epoch := rl_epoch lease, w_descriptor := ?requested\<rparr>) t2)"
    using q by (auto simp: requeue_def Let_def try_bind_Inr split: if_splits)
  obtain g where g: "row = g previous" "pt_work t1 = map (\<lambda>r. if w_id r = ?i then g r else r) (pt_work t)" "pt_results t1 = pt_results t"
    and core: "\<And>r. same_work r (g r) \<and> row_view t (g r) = row_view t r \<and> w_state (g r) = w_state r \<and> w_epoch (g r) = w_epoch r"
  proof (cases "w_fingerprint previous = workFingerprint hash d boundary")
    case True
    then show ?thesis using r that [of "\<lambda>r. r"] by (auto simp: same_work_def)
  next
    case False
    then have "rebind hash t lease previous ?requested boundary (workFingerprint hash d boundary) options = Inr (row, t1)" using r by simp
    note rb = rebind_cases [OF this]
    show ?thesis using that [of "\<lambda>r. r\<lparr>w_descriptor := ?requested, w_fingerprint := workFingerprint hash d boundary\<rparr>"] rb(1,2)
      by (simp add: same_work_def row_view_def)
  qed
  have i: "w_id row = ?i" "\<And>r. w_id (g r) = w_id r" using g(1) core by (simp_all add: same_work_def)
  define f where "f = (\<lambda>r. if (w_state row \<noteq> WReady \<and> w_state row \<noteq> WFailed) \<or> rl_epoch lease \<le> w_epoch row then g r
    else (g r)\<lparr>w_state := WReady, w_epoch := rl_epoch lease, w_descriptor := ?requested\<rparr>)"
  have work: "pt_work t' = map (\<lambda>r. if w_id r = ?i then f r else r) (pt_work t)" "pt_results t' = pt_results t"
    using t' claimSessions_frame [OF t2] g i by (auto simp: f_def)
  have "same_work previous (f previous)" using core [of previous] by (auto simp: f_def same_work_def)
  moreover have "life_step (U previous) (row_view t previous) (row_view t (f previous))"
  proof (cases "(w_state row \<noteq> WReady \<and> w_state row \<noteq> WFailed) \<or> rl_epoch lease \<le> w_epoch row")
    case True
    then have "row_view t (f previous) = row_view t previous" using core [of previous] by (simp add: f_def)
    then show ?thesis by (simp add: life_step.stays)
  next
    case False
    then show ?thesis using core [of previous] g(1) by (auto simp: f_def row_view_def same_work_def life_step_simps)
  qed
  ultimately show ?thesis using work
    by (intro tables_step_one [OF inv prev, where f = f]) (auto simp: row_view_def)
qed

lemma enqueue_step:
  assumes inv: "pool_inv t" and q: "enqueue hash headers uuid t lease d boundary options now = Inr (work, t')"
  shows "tables_step U t t'"
proof (cases "find (same_child lease d) (pt_work t)")
  case (Some previous)
  then have "previous \<in> set (pt_work t)" by (auto simp: find_Some_iff)
  then show ?thesis using requeue_step [OF inv] q Some by (auto simp: enqueue_def try_bind_Inr)
next
  case None
  let ?row = "new_row lease d (workFingerprint hash d boundary) uuid now"
  obtain t1 t2 where t: "record_start (t\<lparr>pt_work := pt_work t @ [?row]\<rparr>) lease boundary now = Inr t1"
    "claimSessions headers uuid (pd_scope d) (eo_claimSessions options) t1 = Inr t'" "uuid \<notin> w_id ` set (pt_work t)"
    using q None by (auto simp: enqueue_def try_bind_Inr Let_def)
  have work: "pt_work t' = pt_work t @ [?row]" "pt_results t' = pt_results t"
    using record_start_frame [OF t(1)] claimSessions_frame [OF t(2)] by auto
  have "list_all2 (\<lambda>r u. same_work r u \<and> life_step (U r) (row_view t r) (row_view t' u)) (pt_work t) (pt_work t)"
    using work(2) by (simp add: list_all2_same same_work_def row_view_def life_step.stays)
  moreover have "fresh_row t ?row" using t(3) by (simp add: fresh_row_def new_row_def)
  ultimately show ?thesis unfolding tables_step_def using work by (intro exI [of _ "pt_work t"] exI [of _ "[?row]"]) auto
qed

section \<open>Histories keep the invariant\<close>

lemma result_step:
  assumes "\<And>x t'. r = Inr (x, t') \<Longrightarrow> tables_step U t t'"
  shows "tables_step U t (result_state t r)"
  using assms by (cases r) (auto simp: tables_step_same)

lemma extend_step: "pool_inv t \<Longrightarrow> extend_work t lease token duration now = Inr (work, t') \<Longrightarrow> tables_step U t t'"
  using extendIn_step by (auto simp: extend_work_def try_bind_Inr)

lemma heartbeat_step:
  "pool_inv t \<Longrightarrow> heartbeat t lease token duration (\<lambda>t. case report of None \<Rightarrow> Inr ((), t) | Some e \<Rightarrow> Inl e) now = Inr (x, t') \<Longrightarrow> tables_step U t t'"
  using extendIn_step by (fastforce simp: heartbeat_def try_bind_Inr split: option.splits)

lemma frame_step:
  "initialize t lease timeout now = Inr (u, t') \<Longrightarrow> tables_step U t t'"
  "holdRootSnapshot t lease snapshot = Inr (u, t') \<Longrightarrow> tables_step U t t'"
  "releaseRootSnapshot t lease = Inr (u, t') \<Longrightarrow> tables_step U t t'"
  "setControl t lease state now = Inr (c, t') \<Longrightarrow> tables_step U t t'"
  by (auto simp: initialize_def holdRootSnapshot_def releaseRootSnapshot_def setControl_def try_bind_Inr Let_def
      split: if_splits option.splits intro!: tables_step_same)

lemmas op_steps = enqueue_step claim_step renew_step extend_step heartbeat_step complete_step reopen_step expire_step retained_step

text \<open>The rows an operation may move back by one generation: only the attempt whose claim is put back unplaced.\<close>

fun unplaces :: "pool_op \<Rightarrow> work_row \<Rightarrow> bool" where
  "unplaces (ReleaseUnplaced lease token) = row_held token"
| "unplaces _ = (\<lambda>_. False)"

lemma pool_step_life:
  assumes "pool_inv t"
  shows "tables_step (unplaces a) t (pool_step hash t (a, now))"
proof (cases a)
  case (ReleaseExited lease token)
  then show ?thesis using exited_step [OF assms, of lease token WReady 0 now] by (auto simp: releaseExited_def intro: result_step)
next
  case (FailExited lease token)
  then show ?thesis using exited_step [OF assms, of lease token WFailed 0 now] by (auto simp: failExited_def intro: result_step)
next
  case (ReleaseUnplaced lease token)
  then show ?thesis using exited_step [OF assms, of lease token WReady 1 now] by (auto simp: releaseUnplaced_def intro: result_step)
next
  case (JournalChanges statuses holders)
  then show ?thesis by (simp add: tables_step_same)
qed (auto intro!: result_step intro: op_steps [OF assms] frame_step failUnclaimed_step releaseClosed_step releasePrevious_step)

interpretation pool_history: step_system "pool_step hash" empty_tables pool_inv for hash
proof
  show "pool_inv empty_tables" by (simp add: pool_inv_def empty_tables_def)
  show "pool_inv t \<Longrightarrow> pool_inv (pool_step hash t a)" for t a
    using tables_step_inv [OF pool_step_life] by (cases a) simp
qed

section \<open>Fencing\<close>

lemma tables_step_row:
  assumes "tables_step U t t'" and "r \<in> set (pt_work t)"
  obtains u where "u \<in> set (pt_work t')" "same_work r u" "life_step (U r) (row_view t r) (row_view t' u)"
proof -
  obtain us new where us: "pt_work t' = us @ new"
    "list_all2 (\<lambda>r u. same_work r u \<and> life_step (U r) (row_view t r) (row_view t' u)) (pt_work t) us"
    using assms(1) unfolding tables_step_def by blast
  obtain i where i: "i < length (pt_work t)" "r = pt_work t ! i" using assms(2) by (metis in_set_conv_nth)
  then have "us ! i \<in> set (pt_work t')" "same_work r (us ! i) \<and> life_step (U r) (row_view t r) (row_view t' (us ! i))"
    using us list_all2_nthD [OF us(2), of i] list_all2_lengthD [OF us(2)] by auto
  then show thesis using that by blast
qed

definition holds_work :: "pool_tables \<Rightarrow> work_token \<Rightarrow> bool" where
  "holds_work t token \<longleftrightarrow> (\<exists>r \<in> set (pt_work t). row_held token r)"

text \<open>An attempt is over once its work has gone past its generation, or is no longer leased at it.\<close>

definition over :: "work_token \<Rightarrow> work_state \<Rightarrow> int \<Rightarrow> bool" where
  "over token s g \<longleftrightarrow> tk_generation token < g \<or> (tk_generation token = g \<and> s \<noteq> WLeased)"

definition attempt_over :: "pool_tables \<Rightarrow> work_token \<Rightarrow> bool" where
  "attempt_over t token \<longleftrightarrow> (\<exists>r \<in> set (pt_work t). w_id r = tk_id token \<and> over token (w_state r) (w_generation r))"

lemma life_over:
  assumes "life_step b (View s g w e r) (View s' g' w' e' r')" and "over token s g"
  shows "over token s' g'"
  using assms by (auto simp: life_step_simps over_def)

lemma attempt_over_step:
  assumes "pool_inv t" and "attempt_over t token"
  shows "attempt_over (pool_step hash t a) token"
proof -
  obtain r where r: "r \<in> set (pt_work t)" "w_id r = tk_id token" "over token (w_state r) (w_generation r)"
    using assms(2) by (auto simp: attempt_over_def)
  obtain op now where a: "a = (op, now)" by (cases a)
  obtain u where u: "u \<in> set (pt_work (pool_step hash t a))" "same_work r u"
    "life_step (unplaces op r) (row_view t r) (row_view (pool_step hash t a) u)"
    using tables_step_row [OF pool_step_life [OF assms(1), of op hash now] r(1)] a by blast
  have "over token (w_state u) (w_generation u)" using life_over [OF u(3) [unfolded row_view_def] r(3)] .
  then show ?thesis using u(1,2) r(2) by (auto simp: attempt_over_def same_work_def)
qed

lemma attempt_over_run: "pool_inv t \<Longrightarrow> attempt_over t token \<Longrightarrow> attempt_over (foldl (pool_step hash) t later) token"
proof (induction later arbitrary: t)
  case (Cons a later)
  then show ?case using attempt_over_step pool_history.inv_step by simp
qed simp

lemma losing_is_over:
  assumes inv: "pool_inv t" and "holds_work t token" and "\<not> holds_work (pool_step hash t (op, now)) token"
    and "\<And>lease. op \<noteq> ReleaseUnplaced lease token"
  shows "attempt_over (pool_step hash t (op, now)) token"
proof -
  obtain r where r: "r \<in> set (pt_work t)" "row_held token r" using assms(2) by (auto simp: holds_work_def)
  obtain u where u: "u \<in> set (pt_work (pool_step hash t (op, now)))" "same_work r u"
    "life_step (unplaces op r) (row_view t r) (row_view (pool_step hash t (op, now)) u)"
    using tables_step_row [OF pool_step_life [OF inv] r(1)] by blast
  have no: "\<not> unplaces op r"
  proof
    assume "unplaces op r"
    then obtain lease token' where "op = ReleaseUnplaced lease token'" "row_held token' r" by (cases op) auto
    then show False using r(2) assms(4) [of lease] by (auto simp: row_held_def intro: work_token.equality)
  qed
  have "\<not> row_held token u" using assms(3) u(1) by (auto simp: holds_work_def)
  then have "over token (w_state u) (w_generation u)"
    using u(2,3) r(2) no by (auto simp: row_view_def row_held_def same_work_def over_def life_step_simps)
  then show ?thesis using u(1,2) r(2) by (auto simp: attempt_over_def row_held_def same_work_def)
qed

text \<open>What an attempt asks for under its token.\<close>

fun op_token :: "pool_op \<Rightarrow> work_token option" where
  "op_token (Renew _ token _) = Some token"
| "op_token (Extend _ token _) = Some token"
| "op_token (Heartbeat _ token _ _) = Some token"
| "op_token (Complete _ token _) = Some token"
| "op_token (Expire _ token) = Some token"
| "op_token (ReleaseExited _ token) = Some token"
| "op_token (FailExited _ token) = Some token"
| "op_token (ReleaseUnplaced _ token) = Some token"
| "op_token (ReleaseRetained _ token _) = Some token"
| "op_token _ = None"

lemma over_refused:
  assumes "pool_inv t" and "attempt_over t token"
  shows "\<exists>e. current t lease token False = Inl e" and "current t lease token True = Inr row \<Longrightarrow> w_state row = WCompleted"
proof -
  obtain r where r: "r \<in> set (pt_work t)" "w_id r = tk_id token" "over token (w_state r) (w_generation r)"
    using assms(2) by (auto simp: attempt_over_def)
  have only: "row = r" if "current t lease token b = Inr row" for b row
    using currentD(1,2) [OF that] r(1,2) assms(1) by (auto simp: pool_inv_def distinct_map inj_on_def)
  have finished: "w_state row = WCompleted \<and> b" if "current t lease token b = Inr row" for b row
    using only [OF that] currentD(5,7) [OF that] r(3) by (auto simp: over_def)
  show "\<exists>e. current t lease token False = Inl e" using finished by (cases "current t lease token False") auto
  show "current t lease token True = Inr row \<Longrightarrow> w_state row = WCompleted" using finished by blast
qed

lemma over_settles_nothing:
  assumes "pool_inv t" and "attempt_over t token"
  shows "result_state t (settleExited t lease token state rewind now) = t"
proof -
  obtain r where r: "r \<in> set (pt_work t)" "w_id r = tk_id token" "over token (w_state r) (w_generation r)"
    using assms(2) by (auto simp: attempt_over_def)
  have "row = r" if "work_of t (tk_id token) (rl_runId lease) = Some row" for row
    using work_ofD [OF that] r(1,2) assms(1) by (auto simp: pool_inv_def distinct_map inj_on_def)
  then show ?thesis using r(3) by (auto simp: settleExited_def over_def try_bind_def split: sum.split option.split)
qed

lemma over_writes_nothing:
  assumes inv: "pool_inv t" and over: "attempt_over t token" and op: "op_token op = Some token"
  shows "pool_step hash t (op, now) = t"
proof -
  have no: "\<exists>e. current_here t lease token False now = Inl e" for lease
    using over_refused(1) [OF inv over, of lease] by (auto simp: current_here_def try_bind_def split: sum.split)
  show ?thesis
  proof (cases op)
    case (Complete lease token' result)
    then have [simp]: "token' = token" using op by simp
    have "t' = t" if c: "complete t lease token result now = Inr ((), t')" for t'
    proof -
      obtain status row where row: "current_here t lease token True now = Inr (status, row)"
        using c by (auto simp: complete_def try_bind_Inr)
      then have "w_state row = WCompleted" using over_refused(2) [OF inv over] current_hereD(2) by blast
      then show ?thesis using c row by (auto simp: complete_def try_bind_Inr)
    qed
    note same = this
    show ?thesis
    proof (cases "complete t lease token result now")
      case (Inr p)
      then have "complete t lease token result now = Inr ((), snd p)" by (cases p) simp
      then show ?thesis using same Complete by simp
    qed (simp add: Complete)
  next
    case (Expire lease token')
    then show ?thesis using op over_refused(1) [OF inv over, of lease] by (auto simp: expire_def try_bind_def split: sum.split)
  next
    case (ReleaseRetained lease token' adopt)
    then show ?thesis using op over_refused(1) [OF inv over, of lease] by (auto simp: releaseRetained_def try_bind_def split: sum.split)
  next
    case (Renew lease token' duration)
    then show ?thesis using op no [of lease] by (auto simp: renew_work_def try_bind_def split: sum.split)
  next
    case (Extend lease token' duration)
    then show ?thesis using op no [of lease] by (auto simp: extend_work_def extendIn_def try_bind_def split: sum.split)
  next
    case (Heartbeat lease token' duration report)
    then show ?thesis using op no [of lease] by (auto simp: heartbeat_def extendIn_def try_bind_def split: sum.split)
  qed (use op over_settles_nothing [OF inv over] in \<open>auto simp: releaseExited_def failExited_def releaseUnplaced_def\<close>)
qed

lemma over_not_held: "pool_inv t \<Longrightarrow> attempt_over t token \<Longrightarrow> \<not> holds_work t token"
proof
  assume inv: "pool_inv t" and over: "attempt_over t token" and "holds_work t token"
  then obtain r where r: "r \<in> set (pt_work t)" "row_held token r" by (auto simp: holds_work_def)
  obtain u where "u \<in> set (pt_work t)" "w_id u = tk_id token" "over token (w_state u) (w_generation u)"
    using over by (auto simp: attempt_over_def)
  moreover have "u = r" using calculation r inv by (auto simp: pool_inv_def distinct_map inj_on_def row_held_def)
  ultimately show False using r(2) by (auto simp: row_held_def over_def)
qed

text \<open>The lease an operation acts under, where its authority is checked.\<close>

fun op_lease :: "pool_op \<Rightarrow> root_lease option" where
  "op_lease (SetControl lease _) = Some lease"
| "op_lease (Enqueue _ _ lease _ _ _) = Some lease"
| "op_lease (Claim lease _ _ _ _) = Some lease"
| "op_lease (FailUnclaimed lease _ _) = Some lease"
| "op_lease (Renew lease _ _) = Some lease"
| "op_lease (Extend lease _ _) = Some lease"
| "op_lease (Heartbeat lease _ _ _) = Some lease"
| "op_lease (Complete lease _ _) = Some lease"
| "op_lease (Reopen lease _ _) = Some lease"
| "op_lease (Expire lease _) = Some lease"
| "op_lease (ReleaseExited lease _) = Some lease"
| "op_lease (FailExited lease _) = Some lease"
| "op_lease (ReleaseUnplaced lease _) = Some lease"
| "op_lease (ReleaseRetained lease _ _) = Some lease"
| "op_lease (ReleaseClosed lease _) = Some lease"
| "op_lease (ReleasePrevious lease _) = Some lease"
| "op_lease _ = None"

lemma authority_standing: "rootLease t lease window now \<noteq> RootCurrent \<Longrightarrow> \<exists>e. authority t lease None now = Inl e"
  by (auto simp: rootLease_def authority_def split: option.splits if_splits)

lemma authority_standing_window: "rootLease t lease window now \<noteq> RootCurrent \<Longrightarrow> \<exists>e. authority t lease (Some window) now = Inl e"
  by (auto simp: rootLease_def authority_def split: option.splits if_splits)

lemma refused_keeps: "r = Inl e \<Longrightarrow> result_state t r = t"
  by simp

lemma no_authority_no_write:
  assumes e: "authority t lease None now = Inl e" and op: "op_lease op = Some lease"
  shows "pool_step hash t (op, now) = t"
proof -
  have here: "current_here t lease token b now = Inl e" for token b using e by (simp add: current_here_def)
  note defs = setControl_def enqueue_def claim_def failUnclaimed_def renew_work_def extend_work_def extendIn_def heartbeat_def complete_def
    reopenCompleted_def expire_def releaseExited_def failExited_def releaseUnplaced_def settleExited_def releaseRetained_def
    releaseClosed_def releasePreviousIncarnations_def
  show ?thesis using op
    by (cases op) (auto simp: defs e here try_bind_def split: sum.split)
qed

lemma results_frame:
  assumes inv: "pool_inv t" and "\<And>lease token result. op \<noteq> Complete lease token result" and "\<And>lease i rerun. op \<noteq> Reopen lease i rerun"
  shows "pt_results (pool_step hash t (op, now)) = pt_results t"
proof -
  have st: "pt_results (result_state t r) = pt_results t" if "\<And>x t'. r = Inr (x, t') \<Longrightarrow> pt_results t' = pt_results t" for r :: "pool_error + ('x \<times> pool_tables)"
    using that by (cases r) auto
  have renewed: "pt_results t' = pt_results t" if "renewed row e now t = (x, t')" for row e x t' using that by (auto simp: renewed_def)
  have settle: "pt_results t' = pt_results t" if "settleExited t lease token state rewind now = Inr (x, t')" for lease token state rewind x t'
    using that by (auto simp: settleExited_def try_bind_Inr split: option.splits if_splits)
  have extend: "pt_results t' = pt_results t" if "extendIn t lease token duration now = Inr (x, t')" for lease token duration x t'
    using that renewed by (auto simp: extendIn_def try_bind_Inr)
  show ?thesis
  proof (cases op)
    case (Enqueue headers uuid lease d boundary options)
    have "pt_results t' = pt_results t" if q: "enqueue hash headers uuid t lease d boundary options now = Inr (x, t')" for x t'
    proof (cases "find (same_child lease d) (pt_work t)")
      case None
      then show ?thesis using q by (auto simp: enqueue_def try_bind_Inr Let_def dest!: record_start_frame claimSessions_frame)
    next
      case (Some previous)
      then show ?thesis using q
        by (auto simp: enqueue_def requeue_def try_bind_Inr Let_def dest!: claimSessions_frame rebind_cases(2) split: if_splits)
    qed
    then show ?thesis using Enqueue by (simp add: st)
  next
    case (Claim lease worker definitions duration placement)
    have "pt_results t' = pt_results t" if c: "claim t lease worker definitions duration placement now = Inr (x, t')" for x t'
      using inv c by (cases rule: claim_cases) auto
    then show ?thesis using Claim by (simp add: st)
  next
    case (Heartbeat lease token duration report)
    have "pt_results t' = pt_results t"
      if c: "heartbeat t lease token duration (\<lambda>t. case report of None \<Rightarrow> Inr ((), t) | Some e \<Rightarrow> Inl e) now = Inr (x, t')" for x t'
      using c extend by (auto simp: heartbeat_def try_bind_Inr split: option.splits)
    then show ?thesis using Heartbeat by (simp add: st)
  next
    case (Renew lease token duration)
    have "pt_results t' = pt_results t" if "renew_work t lease token duration now = Inr (x, t')" for x t'
      using that renewed by (auto simp: renew_work_def try_bind_Inr)
    then show ?thesis using Renew by (simp add: st)
  next
    case (Extend lease token duration)
    have "pt_results t' = pt_results t" if "extend_work t lease token duration now = Inr (x, t')" for x t'
      using that extend by (auto simp: extend_work_def try_bind_Inr)
    then show ?thesis using Extend by (simp add: st)
  qed (use assms(2,3) settle in \<open>auto simp: initialize_def holdRootSnapshot_def releaseRootSnapshot_def setControl_def failUnclaimed_def
      expire_def releaseExited_def failExited_def releaseUnplaced_def releaseRetained_def releaseClosed_def releasePreviousIncarnations_def
      try_bind_Inr Let_def split: if_splits option.splits intro!: st\<close>)
qed

section \<open>A small history\<close>

text \<open>Plain ASCII text is accepted as it is.\<close>

lemma code_points_low: "(\<And>u. u \<in> set us \<Longrightarrow> unat u < 0xD800) \<Longrightarrow> code_points us = map unat us"
proof (induction us rule: code_points.induct)
  case (2 u us)
  have "\<not> high_surrogate u"
    using 2(3) [of u] by (auto simp: high_surrogate_def word_le_nat_alt)
  then show ?case using 2 by (auto split: list.split)
qed simp

lemma check_text_plain:
  assumes "\<forall>c \<in> set s. 0 < (of_char c :: nat)"
  shows "check_text field s = Inr ()"
proof -
  have char: "(of_char c :: nat) < 256" for c by (rule nat_of_char_less_256)
  have unit: "unat (of_nat (of_char c) :: 16 word) = (of_char c :: nat)" for c
  proof -
    have "of_char c mod 65536 = (of_char c :: nat)" by (rule mod_less) (use char [of c] in linarith)
    then show ?thesis by (simp add: unat_of_nat)
  qed
  have "unat u < 0xD800" if u: "u \<in> set (js_of s)" for u
  proof -
    obtain c where "u = of_nat (of_char c)" using u by (auto simp: js_of_def)
    then have "unat u = of_char c" by (simp only: unit)
    then show ?thesis using char [of c] by linarith
  qed
  then have "code_points (js_of s) = map unat (js_of s)" by (rule code_points_low)
  then have pts: "code_points (js_of s) = map of_char s" by (simp add: js_of_def unit)
  have "\<not> list_ex is_surrogate_point (map of_char s)"
  proof -
    have "\<not> 55296 \<le> (of_char c :: nat)" for c using char [of c] by linarith
    then show ?thesis by (simp add: list_ex_iff is_surrogate_point_def)
  qed
  moreover have "0 \<notin> set (js_of s)"
  proof
    assume "0 \<in> set (js_of s)"
    then obtain c where "c \<in> set s" "(0 :: 16 word) = of_nat (of_char c)" by (auto simp: js_of_def)
    then show False using assms unit [of c] by (metis less_numeral_extra(3) unat_0)
  qed
  ultimately show ?thesis by (simp add: check_text_def validateText_def pts)
qed

definition sample_lease :: root_lease where
  "sample_lease = \<lparr>rl_runId = ''r'', rl_holderId = ''h'', rl_epoch = 1\<rparr>"

definition sample_descriptor :: pool_descriptor where
  "sample_descriptor = \<lparr>pd_boundaryId = ''b'', pd_childRunId = ''c'', pd_scope = ''s'', pd_definition = ''d'', pd_digest = ''x'',
    pd_inputs = JObj [], pd_execution = []\<rparr>"

definition sample_boundary :: stage_checkpoint where
  "sample_boundary = \<lparr>sc_workflowId = ''r'', sc_checkpointId = ''boundary-start:s'', sc_name = ''n'', sc_replayKey = ''s'',
    sc_topology = Some \<lparr>t_version = 1, t_stageId = ''b'', t_parentIds = [], t_intercomGroup = None, t_sourceOrder = Some 1,
      t_occurrenceKey = None, t_status = Some Running, t_order = None,
      t_run = Some \<lparr>rt_runId = ''r'', rt_runName = ''n'', rt_parentRunId = None, rt_parentStageId = None, rt_rootRunId = None\<rparr>,
      t_boundary = Some \<lparr>b_version = 1, b_replayScope = ''s'', b_alias = ''a'', b_workflow = ''w'', b_invocationFingerprint = ''f'',
        b_child = \<lparr>ct_runId = ''c'', ct_runName = ''c'', ct_parentRunId = ''r'', ct_parentStageId = ''b'', ct_rootRunId = ''r''\<rparr>,
        b_workspace = None, b_event = BoundaryStart, b_status = Running\<rparr>\<rparr>,
    sc_output = None, sc_sessionId = None, sc_sessionFile = None, sc_completedAt = 0\<rparr>"

definition sample_options :: enqueue_options where
  "sample_options = \<lparr>eo_acceptEntryChanges = False, eo_claimSessions = []\<rparr>"

definition sample_journal :: pool_op where
  "sample_journal = JournalChanges [(''r'', ''running'')] [(''r'', \<lparr>lk_holderId = Some ''h'', lk_epoch = 1, lk_renewedAt = 0\<rparr>)]"

definition sample_hash :: "json \<times> stage_checkpoint \<Rightarrow> string" where
  "sample_hash v = ''hash''"

definition sample_token :: work_token where
  "sample_token = \<lparr>tk_id = ''u'', tk_generation = 1, tk_worker = Some ''w'', tk_epoch = 1\<rparr>"

definition sample_history :: "(pool_op \<times> int) list" where
  "sample_history = [(sample_journal, 0), (Initialize sample_lease 1000, 0),
    (Enqueue (\<lambda>_. None) ''u'' sample_lease sample_descriptor sample_boundary sample_options, 1),
    (Claim sample_lease ''w'' [(''d'', ''x'')] 10 None, 2)]"

definition sample_row :: work_row where
  "sample_row = \<lparr>w_id = ''u'', w_root = ''r'', w_boundary = ''b'', w_descriptor = sample_descriptor, w_fingerprint = ''hash'',
    w_state = WLeased, w_generation = 1, w_worker = Some ''w'', w_epoch = 1, w_expires_at = 12, w_renewed_at = 2, w_ready_at = 1\<rparr>"

definition sample_tables :: pool_tables where
  "sample_tables = \<lparr>pt_runs = [(''r'', ''running'')], pt_leases = [(''r'', \<lparr>lk_holderId = Some ''h'', lk_epoch = 1, lk_renewedAt = 0\<rparr>)],
    pt_events = [\<lparr>ev_root = ''r'', ev_seq = 1, ev_epoch = 1, ev_key = (''stage'', ''boundary-start:s''), ev_payload = sample_boundary, ev_at = 1\<rparr>],
    pt_roots = [(''r'', 1000)], pt_control = [], pt_work = [sample_row], pt_results = [], pt_owners = [], pt_snapshots = []\<rparr>"

lemma sample_texts: "check_text field ''r'' = Inr ()" "check_text field ''h'' = Inr ()" "check_text field ''w'' = Inr ()"
  "check_text field ''b'' = Inr ()" "check_text field ''c'' = Inr ()" "check_text field ''s'' = Inr ()" "check_text field ''d'' = Inr ()"
  "check_text field ''x'' = Inr ()"
  by (simp_all add: check_text_plain)

lemma sample_lease_checked: "snapshotLease sample_lease = Inr ()"
  by (simp add: snapshotLease_def sample_lease_def sample_texts)

lemma sample_boundary_matches: "boundary_matches sample_lease sample_descriptor sample_boundary"
  "boundary_key sample_boundary = (''stage'', ''boundary-start:s'')"
  by (simp_all add: boundary_matches_def boundary_key_def sample_lease_def sample_descriptor_def sample_boundary_def)

lemma sample_descriptor_checked:
  "check_texts [pd_boundaryId sample_descriptor, pd_childRunId sample_descriptor, pd_scope sample_descriptor,
    pd_definition sample_descriptor, pd_digest sample_descriptor] = Inr ()"
  by (simp add: sample_descriptor_def sample_texts)

definition sample_queued :: pool_tables where
  "sample_queued = sample_tables\<lparr>pt_work := [new_row sample_lease sample_descriptor ''hash'' ''u'' 1]\<rparr>"

definition sample_enqueue :: pool_op where
  "sample_enqueue = Enqueue (\<lambda>_. None) ''u'' sample_lease sample_descriptor sample_boundary sample_options"

lemmas sample_root = sample_lease_def holds_root_def authority_def leaseRow_def map_get_def isWorkflowLeaseExpired_def

lemma sample_queue: "foldl (pool_step sample_hash) empty_tables [(sample_journal, 0), (Initialize sample_lease 1000, 0), (sample_enqueue, 1)] = sample_queued"
proof -
  let ?t1 = "pool_step sample_hash empty_tables (sample_journal, 0)"
  let ?t2 = "?t1\<lparr>pt_roots := [(''r'', 1000)]\<rparr>"
  have "pool_step sample_hash ?t1 (Initialize sample_lease 1000, 0) = ?t2"
    using sample_lease_checked [unfolded sample_lease_def]
    by (simp add: sample_journal_def empty_tables_def initialize_def positive_def MAX_SAFE_INTEGER_def sample_root map_has_def)
  moreover have "pool_step sample_hash ?t2 (sample_enqueue, 1) = sample_queued"
  proof -
    have auth: "authority ?t2 sample_lease None 1 = Inr ''running''" by (simp add: sample_journal_def sample_root)
    have start: "record_start (?t2\<lparr>pt_work := [new_row sample_lease sample_descriptor ''hash'' ''u'' 1]\<rparr>) sample_lease sample_boundary 1 = Inr sample_queued"
      by (simp add: record_start_def sample_boundary_matches counter_def journalCounter_def MAX_SAFE_INTEGER_def sample_queued_def sample_tables_def
          sample_journal_def empty_tables_def) (simp add: sample_lease_def)
    have hash: "workFingerprint sample_hash sample_descriptor sample_boundary = ''hash''" by (simp add: workFingerprint_def sample_hash_def)
    have none: "pt_work ?t2 = []" by (simp add: sample_journal_def empty_tables_def)
    show ?thesis unfolding sample_enqueue_def pool_step.simps enqueue_def Let_def
      by (simp only: sample_lease_checked sample_boundary_matches sample_descriptor_checked auth none hash list.set find.simps
          append.simps start try_bind_simps throw_if_simps sample_options_def enqueue_options.simps claimSessions.simps not_True_eq_False
          option.case bex_empty result_state.simps)
  qed
  ultimately show ?thesis by simp
qed

lemma sample_claim: "claim sample_queued sample_lease ''w'' [(''d'', ''x'')] 10 None 2 = Inr (Some (fromRow sample_row), sample_tables)"
  using sample_lease_checked [unfolded sample_lease_def]
  by (simp add: sample_queued_def sample_tables_def sample_row_def claim_def positive_def expiry_def counter_def journalCounter_def
      MAX_SAFE_INTEGER_def sample_texts sample_root by_age_def claimable_def compatible_def new_row_def sample_descriptor_def
      update_work_def row_by_id_def Let_def)

lemma sample_run: "foldl (pool_step sample_hash) empty_tables sample_history = sample_tables"
proof -
  have "foldl (pool_step sample_hash) empty_tables sample_history =
      pool_step sample_hash (foldl (pool_step sample_hash) empty_tables [(sample_journal, 0), (Initialize sample_lease 1000, 0), (sample_enqueue, 1)])
        (Claim sample_lease ''w'' [(''d'', ''x'')] 10 None, 2)"
    by (simp add: sample_history_def sample_enqueue_def)
  then show ?thesis unfolding sample_queue by (simp add: sample_claim)
qed

section \<open>Theorems\<close>

text \<open>
  C30. Over every history, each operation moves each work item by at most one step of its life cycle, adds at most one
  item, which is ready and unattempted, and removes none; the only generation that ever falls is that of an attempt whose
  claim is put back unplaced. An item has a worker exactly while it is leased or completed, and a stored result exactly
  while it is completed.
\<close>
theorem pool_refines_life_cycle:
  fixes hash and history :: "(pool_op \<times> int) list"
  defines "t \<equiv> foldl (pool_step hash) empty_tables history"
  shows "tables_step (unplaces op) t (pool_step hash t (op, now)) \<and> distinct (map w_id (pt_work t)) \<and>
    (\<forall>r \<in> set (pt_work t). (w_state r = WLeased \<or> w_state r = WCompleted) = (w_worker r \<noteq> None) \<and>
      (w_state r = WCompleted) = (map_get (pt_results t) (w_id r) \<noteq> None))"
proof -
  have inv: "pool_inv t" unfolding t_def by (rule pool_history.inv_run)
  then show ?thesis using pool_step_life [OF inv] by (auto simp: pool_inv_def row_view_def)
qed

theorem pool_refines_life_cycle_witness:
  "tables_step (\<lambda>_. False) sample_tables (pool_step sample_hash sample_tables (Expire sample_lease sample_token, 20)) \<and>
   w_worker sample_row \<noteq> None"
proof -
  have "sample_row \<in> set (pt_work sample_tables)" "w_state sample_row = WLeased" by (simp_all add: sample_tables_def sample_row_def)
  then show ?thesis
    using pool_refines_life_cycle [of "Expire sample_lease sample_token" sample_hash sample_history 20] unfolding sample_run by fastforce
qed

lemma hold_snapshot_lost: "rootLease t lease window now = RootLost \<Longrightarrow> pool_step hash t (HoldSnapshot lease snapshot, now) = t"
  by (auto simp: rootLease_def holdRootSnapshot_def Let_def try_bind_def split: option.splits if_splits sum.split)

lemma in_map_set_other: "x \<in> set m \<Longrightarrow> fst x \<noteq> k \<Longrightarrow> x \<in> set (map_set m k v)"
  by (induction m) auto

lemma hold_snapshot_own:
  "\<exists>snaps. pool_step hash t (HoldSnapshot lease snapshot, now) = t\<lparr>pt_snapshots := snaps\<rparr> \<and>
    (\<forall>x \<in> set (pt_snapshots t). fst x \<noteq> rl_runId lease \<longrightarrow> x \<in> set snaps)"
proof (cases "holdRootSnapshot t lease snapshot")
  case (Inl e)
  then show ?thesis by (intro exI [of _ "pt_snapshots t"]) simp
next
  case (Inr y)
  then show ?thesis
    by (cases snapshot) (auto simp: holdRootSnapshot_def Let_def try_bind_Inr in_map_set_other split: if_splits option.splits)
qed

lemma release_snapshot_own:
  "\<exists>snaps. pool_step hash t (ReleaseSnapshot lease, now) = t\<lparr>pt_snapshots := snaps\<rparr> \<and>
    (\<forall>x \<in> set (pt_snapshots t). fst x \<noteq> rl_runId lease \<or> fst (snd x) \<noteq> rl_epoch lease \<longrightarrow> x \<in> set snaps)"
proof (cases "releaseRootSnapshot t lease")
  case (Inl e)
  then show ?thesis by (intro exI [of _ "pt_snapshots t"]) simp
next
  case (Inr y)
  then have "y = ((), t\<lparr>pt_snapshots := filter (\<lambda>(root, epoch, _). \<not> (root = rl_runId lease \<and> epoch = rl_epoch lease)) (pt_snapshots t)\<rparr>)"
    by (auto simp: releaseRootSnapshot_def try_bind_Inr)
  then show ?thesis using Inr by (auto split: prod.splits)
qed

text \<open>
  C29. A lost attempt is fenced for good. Once an attempt no longer holds its work, lost by any operation but its own return
  unplaced (\<open>releaseUnplaced\<close>, which gives the generation back), it never holds it again in any later history of the queue,
  and a renewal, an extension, a heartbeat, a completion, an expiry or a release under its token changes nothing. Commits and
  appends of sessions under the token are not operations of this theory.
\<close>
theorem lost_attempt_fenced:
  fixes hash and history later :: "(pool_op \<times> int) list" and op :: pool_op and now :: int
  defines "t \<equiv> foldl (pool_step hash) empty_tables history"
  defines "t' \<equiv> foldl (pool_step hash) (pool_step hash t (op, now)) later"
  assumes "holds_work t token" and "\<not> holds_work (pool_step hash t (op, now)) token" and "\<And>lease. op \<noteq> ReleaseUnplaced lease token"
    and "op_token request = Some token"
  shows "\<not> holds_work t' token \<and> pool_step hash t' (request, now') = t'"
proof -
  have inv: "pool_inv t" unfolding t_def by (rule pool_history.inv_run)
  then have inv1: "pool_inv (pool_step hash t (op, now))" by (rule pool_history.inv_step)
  have inv': "pool_inv t'" unfolding t'_def by (rule pool_history.inv_run_from [OF inv1])
  have "attempt_over t' token" unfolding t'_def using attempt_over_run [OF inv1 losing_is_over [OF inv assms(3-5)]] by simp
  then show ?thesis using over_not_held [OF inv'] over_writes_nothing [OF inv' _ assms(6)] by blast
qed

theorem lost_attempt_fenced_witness:
  "pool_step sample_hash (pool_step sample_hash sample_tables (Expire sample_lease sample_token, 20)) (Complete sample_lease sample_token (JObj []), 21) =
    pool_step sample_hash sample_tables (Expire sample_lease sample_token, 20)"
proof -
  have "holds_work sample_tables sample_token" by (simp add: holds_work_def sample_tables_def sample_row_def sample_token_def row_held_def)
  moreover have "\<not> holds_work (pool_step sample_hash sample_tables (Expire sample_lease sample_token, 20)) sample_token"
    using sample_lease_checked
    by (simp add: expire_def authority_def leaseRow_def holds_root_def isWorkflowLeaseExpired_def current_def work_of_def map_get_def
        holds_work_def sample_tables_def sample_row_def sample_token_def row_held_def update_work_def)
      (simp add: sample_lease_def)
  ultimately show ?thesis
    using lost_attempt_fenced [where hash = sample_hash and history = sample_history and token = sample_token and later = "[]"
        and op = "Expire sample_lease sample_token" and now = 20 and now' = 21
        and request = "Complete sample_lease sample_token (JObj [])"] unfolding sample_run by simp
qed



lemma by_age_first:
  assumes "by_age P t = row # rest" and "r \<in> set (pt_work t)" and "P r"
  shows "w_ready_at row \<le> w_ready_at r"
proof -
  have "sorted (map w_ready_at (by_age P t))" by (simp add: by_age_def)
  moreover have "r \<in> set (by_age P t)" using assms(2,3) by (simp add: by_age_def)
  ultimately show ?thesis using assms(1) by auto
qed

text \<open>
  A claim takes the oldest work it may take, and only it: when it returns work, that was a ready item of this
  incarnation of the root, compatible and placed as asked, with none older; exactly this row changes, to an attempt of
  the claiming worker at the next generation. When it returns none, nothing changes, and if the root runs and is not
  paused there was nothing to take.
\<close>
theorem claim_takes_oldest:
  fixes hash and history :: "(pool_op \<times> int) list"
  defines "t \<equiv> foldl (pool_step hash) empty_tables history"
  assumes "claim t lease worker definitions duration placement now = Inr (work, t')"
  shows "case work of
      None \<Rightarrow> t' = t \<and> (\<forall>status. authority t lease None now = Inr status \<and> may_claim t lease definitions status \<longrightarrow>
        \<not> (\<exists>r \<in> set (pt_work t). claimable lease definitions now r \<and> placed placement r))
    | Some w \<Rightarrow> (\<exists>row \<in> set (pt_work t). claimable lease definitions now row \<and> placed placement row \<and>
        (\<forall>r \<in> set (pt_work t). claimable lease definitions now r \<and> placed placement r \<longrightarrow> w_ready_at row \<le> w_ready_at r) \<and>
        w = fromRow (claimed_row row worker lease (now + duration) now) \<and> w_generation row < MAX_SAFE_INTEGER \<and>
        t' = t\<lparr>pt_work := map (\<lambda>r. if w_id r = w_id row then claimed_row row worker lease (now + duration) now else r) (pt_work t)\<rparr>)"
proof -
  have inv: "pool_inv t" unfolding t_def by (rule pool_history.inv_run)
  then show ?thesis using assms(2)
  proof (cases rule: claim_cases)
    case None
    have "\<not> (\<exists>r \<in> set (pt_work t). claimable lease definitions now r \<and> placed placement r)"
      if "authority t lease None now = Inr status" "may_claim t lease definitions status" for status
    proof -
      have "filter (\<lambda>r. claimable lease definitions now r \<and> placed placement r) (pt_work t) = []"
        using None(3) [OF that] by (metis by_age_def length_0_conv length_sort)
      then show ?thesis by (auto simp: filter_empty_conv)
    qed
    then show ?thesis using None by simp
  next
    case (Some row rest status)
    have row: "row \<in> set (pt_work t)" "claimable lease definitions now row" "placed placement row" using by_age_in [OF Some(3)] by auto
    have "(if w_id r = w_id row then claimed_row r worker lease (now + duration) now else r) =
        (if w_id r = w_id row then claimed_row row worker lease (now + duration) now else r)" if "r \<in> set (pt_work t)" for r
      using that row(1) inv by (auto simp: pool_inv_def distinct_map inj_on_def)
    then have "t' = t\<lparr>pt_work := map (\<lambda>r. if w_id r = w_id row then claimed_row row worker lease (now + duration) now else r) (pt_work t)\<rparr>"
      using Some(5) by (simp add: update_work_def)
    then show ?thesis using Some(4,6) row by_age_first [OF Some(3)] by (auto intro!: bexI [of _ row])
  qed
qed

theorem claim_takes_oldest_witness: "\<exists>row \<in> set (pt_work sample_queued). fromRow sample_row = fromRow (claimed_row row ''w'' sample_lease (2 + 10) 2)"
  using claim_takes_oldest [of sample_hash "[(sample_journal, 0), (Initialize sample_lease 1000, 0), (sample_enqueue, 1)]", unfolded sample_queue, OF sample_claim]
  by auto

text \<open>
  A lapsed attempt is replaced: when an attempt's lease has run out and its root runs, expiring it succeeds, the next
  claim of that item succeeds and returns it at the next generation, and from then on the old token is refused.
\<close>
theorem lapsed_attempt_replaced:
  fixes hash and history :: "(pool_op \<times> int) list"
  defines "t \<equiv> foldl (pool_step hash) empty_tables history"
  assumes root: "authority t lease None now = Inr ''running''" "map_get (pt_control t) (rl_runId lease) = None" "snapshotLease lease = Inr ()"
    and held: "current t lease token False = Inr row" "w_epoch row = rl_epoch lease" "w_expires_at row < now" "w_ready_at row \<le> now"
    and claim: "check_text FHolderId worker = Inr ()" "compatible definitions row" "0 < duration" "0 < now" "now + duration \<le> MAX_SAFE_INTEGER"
      "w_generation row < MAX_SAFE_INTEGER"
  shows "\<exists>t1 t2 work. expire t lease token now = Inr (True, t1) \<and>
    claim t1 lease worker definitions duration (Some (PlacedWork (tk_id token) (tk_generation token))) now = Inr (Some work, t2) \<and>
    q_id work = tk_id token \<and> q_generation work = tk_generation token + 1 \<and> q_worker work = Some worker \<and>
    (\<exists>e. current t2 lease token True = Inl e)"
proof -
  have inv: "pool_inv t" unfolding t_def by (rule pool_history.inv_run)
  note row = currentD [OF held(1)]
  let ?f = "\<lambda>r. r\<lparr>w_state := WReady, w_worker := None, w_expires_at := 0\<rparr>"
  define t1 where "t1 = update_work (\<lambda>r. w_id r = w_id row) ?f t"
  have exp: "expire t lease token now = Inr (True, t1)" using root held by (simp add: expire_def t1_def)
  have inv1: "pool_inv t1" using tables_step_inv [OF expire_step [OF inv exp] inv] .
  let ?p = "Some (PlacedWork (tk_id token) (tk_generation token))"
  have in1: "?f row \<in> set (pt_work t1)" using row(1) by (auto simp: t1_def)
  have ok: "claimable lease definitions now (?f row) \<and> placed ?p (?f row)" using row held(2,4) claim(2) by (simp add: claimable_def compatible_def)
  have only: "r = ?f row" if "r \<in> set (pt_work t1)" "placed ?p r" for r
    using that in1 inv1 row(2) by (auto simp: pool_inv_def distinct_map inj_on_def)
  obtain r rest where q: "by_age (\<lambda>r. claimable lease definitions now r \<and> placed ?p r) t1 = r # rest"
  proof (cases "by_age (\<lambda>r. claimable lease definitions now r \<and> placed ?p r) t1")
    case Nil
    then have "filter (\<lambda>r. claimable lease definitions now r \<and> placed ?p r) (pt_work t1) = []" by (metis by_age_def length_0_conv length_sort)
    then show ?thesis using in1 ok by (auto simp: filter_empty_conv)
  qed
  have r: "r = ?f row" using by_age_in [OF q] only by blast
  have auth1: "authority t1 lease None now = Inr ''running''" "map_get (pt_control t1) (rl_runId lease) = None"
    using root by (simp_all add: t1_def)
  have defs: "definitions \<noteq> []" using claim(2) by (auto simp: compatible_def)
  have gen: "0 \<le> w_generation row" using inv row(1) by (auto simp: pool_inv_def row_view_def)
  have cnt: "counter (rl_runId lease) FEpoch (w_generation row + 1) = Inr (w_generation row + 1)"
    using claim(6) gen by (simp add: counter_def journalCounter_def)
  have ex: "expiry now duration = Inr (now + duration)" using claim(3-5) by (simp add: expiry_Inr)
  have pos: "positive duration = Inr ()" using claim(3-5) by (simp add: positive_def)
  obtain work t2 where c: "claim t1 lease worker definitions duration ?p now = Inr (work, t2)"
    using root(3) claim(1) auth1 defs q r cnt ex pos by (simp add: claim_def Let_def)
  have "work = Some (fromRow (claimed_row (?f row) worker lease (now + duration) now)) \<and> (\<exists>e. current t2 lease token True = Inl e)"
    using inv1 c
  proof (cases rule: claim_cases)
    case None
    then show ?thesis using None(3) [OF auth1(1)] auth1(2) defs q by (simp add: may_claim_def)
  next
    case (Some row' rest' status)
    have e: "row' = ?f row" using Some(3) q r by simp
    have inv2: "pool_inv t2" using tables_step_inv [OF claim_step [OF inv1 c] inv1] .
    let ?n = "claimed_row (?f row) worker lease (now + duration) now"
    have n: "?n \<in> set (pt_work t2)" "w_id ?n = tk_id token" "w_generation ?n = tk_generation token + 1"
      using update_work_in [OF in1, of "\<lambda>r. w_id r = w_id row'" "\<lambda>r. claimed_row r worker lease (now + duration) now"] Some(5) e row(2,5)
      by (simp_all add: claimed_row_def)
    have "x = ?n" if "current t2 lease token True = Inr x" for x
      using currentD(1,2) [OF that] n(1,2) inv2 by (auto simp: pool_inv_def distinct_map inj_on_def)
    then have "\<exists>e. current t2 lease token True = Inl e"
      using currentD(5) n(3) by (cases "current t2 lease token True") fastforce+
    then show ?thesis using Some(6) e by simp
  qed
  then show ?thesis using exp c row(2,5) by (auto simp: fromRow_def claimed_row_def)
qed

theorem lapsed_attempt_replaced_witness:
  "\<exists>t1 t2 work. expire sample_tables sample_lease sample_token 20 = Inr (True, t1) \<and>
    claim t1 sample_lease ''x'' [(''d'', ''x'')] 10 (Some (PlacedWork ''u'' 1)) 20 = Inr (Some work, t2) \<and> q_generation work = 2"
proof -
  have root: "authority sample_tables sample_lease None 20 = Inr ''running''" "map_get (pt_control sample_tables) (rl_runId sample_lease) = None"
    by (simp_all add: sample_tables_def sample_root)
  have held: "current sample_tables sample_lease sample_token False = Inr sample_row"
    by (simp add: current_def work_of_def sample_tables_def sample_row_def sample_token_def sample_lease_def)
  have "compatible [(''d'', ''x'')] sample_row" by (simp add: compatible_def sample_row_def sample_descriptor_def)
  then show ?thesis
    using lapsed_attempt_replaced [of sample_hash sample_history sample_lease 20 sample_token sample_row "''x''" "[(''d'', ''x'')]" 10,
        unfolded sample_run, OF root sample_lease_checked held] sample_texts(8)
    by (auto simp: sample_row_def sample_lease_def sample_token_def MAX_SAFE_INTEGER_def)
qed

text \<open>
  A completed child has one result: completing stores it and may be repeated, but not with another result; and
  whatever happens later, the result stays until a later incarnation of the root reopens the item and accepts to run it
  again.
\<close>
theorem completed_result_kept:
  fixes hash and history :: "(pool_op \<times> int) list"
  defines "t \<equiv> foldl (pool_step hash) empty_tables history"
  assumes "map_get (pt_results t) wid = Some v"
  shows "(map_get (pt_results (pool_step hash t (op, now))) wid = Some v \<or>
      (\<exists>lease rerun row. op = Reopen lease wid rerun \<and> rerun v \<and> work_of t wid (rl_runId lease) = Some row \<and> w_epoch row < rl_epoch lease)) \<and>
    (complete t lease token result now = Inr ((), t') \<longrightarrow>
      map_get (pt_results t') (tk_id token) = Some result \<and> (tk_id token = wid \<longrightarrow> result = v \<and> t' = t))"
proof (intro conjI impI)
  have inv: "pool_inv t" unfolding t_def by (rule pool_history.inv_run)
  have completes: "map_get (pt_results t') (tk_id token) = Some result \<and> (tk_id token = wid \<longrightarrow> result = v \<and> t' = t) \<and>
      map_get (pt_results t') wid = Some v" if c: "complete t lease token result now = Inr ((), t')" for lease token result t' now
    using c assms(2) by (auto simp: complete_def try_bind_Inr map_has_get split: if_splits)
  show "map_get (pt_results (pool_step hash t (op, now))) wid = Some v \<or>
      (\<exists>lease rerun row. op = Reopen lease wid rerun \<and> rerun v \<and> work_of t wid (rl_runId lease) = Some row \<and> w_epoch row < rl_epoch lease)"
  proof (cases op)
    case (Complete lease token result)
    then show ?thesis using completes assms(2) by (cases "complete t lease token result now") auto
  next
    case (Reopen lease i rerun)
    then show ?thesis using assms(2)
      by (auto simp: reopenCompleted_def try_bind_def Let_def not_le split: sum.split option.split)
  qed (use results_frame [OF inv, of op hash now] assms(2) in auto)
  assume "complete t lease token result now = Inr ((), t')"
  then show "map_get (pt_results t') (tk_id token) = Some result" "tk_id token = wid \<Longrightarrow> result = v" "tk_id token = wid \<Longrightarrow> t' = t"
    using completes by blast+
qed

definition sample_result :: json where
  "sample_result = JObj [(''runId'', JStr ''c'')]"

definition sample_completed :: pool_tables where
  "sample_completed = sample_tables\<lparr>pt_work := [sample_row\<lparr>w_state := WCompleted\<rparr>], pt_results := [(''u'', sample_result)]\<rparr>"

lemma sample_complete: "complete sample_tables sample_lease sample_token sample_result 5 = Inr ((), sample_completed)"
proof -
  have "current_here sample_tables sample_lease sample_token True 5 = Inr (''running'', sample_row)"
    by (simp add: current_here_def current_def work_of_def sample_tables_def sample_row_def sample_token_def sample_root)
  then show ?thesis using sample_lease_checked
    by (simp add: complete_def sample_row_def sample_result_def sample_completed_def sample_tables_def sample_token_def map_get_def
        sample_descriptor_def admitsAttemptWrites_def map_has_def update_work_def)
qed

theorem completed_result_kept_witness:
  "map_get (pt_results (pool_step sample_hash sample_completed (Expire sample_lease sample_token, 9))) ''u'' = Some sample_result"
proof -
  have run: "foldl (pool_step sample_hash) empty_tables (sample_history @ [(Complete sample_lease sample_token sample_result, 5)]) = sample_completed"
    by (simp add: sample_run sample_complete)
  have "map_get (pt_results sample_completed) ''u'' = Some sample_result" by (simp add: sample_completed_def map_get_def)
  then show ?thesis
    using completed_result_kept [where hash = sample_hash and history = "sample_history @ [(Complete sample_lease sample_token sample_result, 5)]"
        and wid = "''u''" and op = "Expire sample_lease sample_token" and now = 9] unfolding run by blast
qed

end
