(* ===== verification/Pool_Commit.thy ===== *)
theory Pool_Commit
  imports Pool_Lifecycle
begin

text \<open>
  Commits of pool workers when the durable journal is in another database (\<open>commit\<close>, \<open>commitRemote\<close>, \<open>stageAndDeliver\<close>,
  \<open>deliver\<close>, \<open>deliverAll\<close> and the remote parts of \<open>claim\<close> and \<open>complete\<close> in \<^verbatim>\<open>sql-pool-queue.ts\<close>,
  \<open>applyPoolSession\<close> in \<^verbatim>\<open>pool-mutations.ts\<close>, \<open>upsertPoolUsage\<close> in \<^verbatim>\<open>pool-stage-usage.ts\<close>, \<open>isRecordedCheckpointValue\<close>
  in \<^verbatim>\<open>pool-remote-journal.ts\<close>). A commit is accepted into an outbox by one local transaction, appended to the journal
  under its key, and then its receipt is stored and the outbox row removed; the process may stop between any two of
  these. The theory interleaves commits, deliveries, crashes, the other operations of the queue and those of the journal
  (theory \<open>Run_Journal\<close>), and shows that no accepted commit is lost.

  Arguments: the digest of a canonical value, the session store's write, what \<open>validatePoolMutation\<close> answers and what
  \<open>poolCheckpointUsage\<close> bills. A root's usage total, which triggers keep, is not part of the state.
\<close>

section \<open>Checkpoints as values\<close>

fun field :: "json \<Rightarrow> string \<Rightarrow> json option" where
  "field (JObj obj) k = map_get obj k"
| "field _ k = None"

fun with_field :: "json \<Rightarrow> string \<Rightarrow> json \<Rightarrow> json" where
  "with_field (JObj obj) k v = JObj (map_set obj k v)"
| "with_field j k v = j"

definition is_number :: "json option \<Rightarrow> bool" where
  "is_number v = (case v of Some (JNum _) \<Rightarrow> True | _ \<Rightarrow> False)"

definition isSameCheckpointValue :: "(json \<Rightarrow> string) \<Rightarrow> json \<Rightarrow> json \<Rightarrow> bool" where
  "isSameCheckpointValue sha stored new = (sha (canonical stored) = sha (canonical new))"

definition with_time :: "json \<Rightarrow> string \<Rightarrow> json \<Rightarrow> json" where
  "with_time recorded k later =
    (if is_number (field recorded k) \<and> is_number (field later k) then with_field later k (the (field recorded k)) else later)"

definition withTimesOf :: "json \<Rightarrow> json \<Rightarrow> json" where
  "withTimesOf later recorded =
    with_time recorded ''completedAt'' (with_time recorded ''endedAt'' (with_time recorded ''startedAt'' later))"

definition isRecordedCheckpointValue :: "(json \<Rightarrow> string) \<Rightarrow> json \<Rightarrow> json \<Rightarrow> bool" where
  "isRecordedCheckpointValue sha stored new =
    (if isSameCheckpointValue sha stored new then True
     else if \<not> is_number (field stored ''completedAt'') then False
     else if (field stored ''startedAt'' = None) \<noteq> (field new ''startedAt'' = None) then False
     else
       let retimed = withTimesOf new stored in
       isSameCheckpointValue sha
         (case (field stored ''topology'', field new ''topology'') of
            (Some recorded, Some later) \<Rightarrow> with_field retimed ''topology'' (withTimesOf later recorded)
          | _ \<Rightarrow> retimed) stored)"

section \<open>Commits\<close>

type_synonym op_key = "string \<times> int \<times> string"

type_synonym pool_usage = "rat list"

record receipt =
  rc_seq :: "int option"
  rc_at :: int
  rc_lastSeq :: "int option"

record outbox_row =
  ob_work :: string
  ob_generation :: int
  ob_operation :: string
  ob_request :: string
  ob_event_key :: js_text
  ob_payload :: json
  ob_last_seq :: "int option"

definition ob_key :: "outbox_row \<Rightarrow> op_key" where
  "ob_key row = (ob_work row, ob_generation row, ob_operation row)"

record 's commit_state =
  cs_tables :: pool_tables
  cs_operations :: "(op_key, string \<times> receipt) jmap"
  cs_outbox :: "outbox_row list"
  cs_usage :: "(op_key, pool_usage) jmap"
  cs_sessions :: 's

datatype session_change = NoSession | SessionCreate string json | SessionReplace json int

record checkpoint_mutation =
  cm_session :: session_change
  cm_sessionId :: "string option"
  cm_sessionFile :: bool
  cm_replayKey :: string
  cm_completedAt :: int
  cm_event_key :: js_text
  cm_payload :: json
  cm_billed :: "(string \<times> pool_usage) option"

datatype commit_error =
    InPool pool_error
  | InJournal journal_error
  | OperationIdentityConflict
  | CheckpointRefused
  | CheckpointInFuture
  | CheckpointIdentityConflict
  | SessionCheckpointConflict
  | SessionsRequireIdentity
  | SessionIdentityMismatch
  | SessionScopeMismatch
  | SessionStoreFailed
  | EventsNotRecorded

datatype store_write = StoreCreate json | StoreReplace string json int | StoreAppend string json int

type_synonym 's session_store = "'s \<Rightarrow> store_write \<Rightarrow> (int \<times> 's) option"

definition store_session :: "'s session_store \<Rightarrow> store_write \<Rightarrow> 's commit_state \<Rightarrow> commit_error + (int \<times> 's commit_state)" where
  "store_session store w cs = (case store (cs_sessions cs) w of
      None \<Rightarrow> Inl SessionStoreFailed
    | Some (lastSeq, s') \<Rightarrow> Inr (lastSeq, cs\<lparr>cs_sessions := s'\<rparr>))"

text \<open>A checkpoint that creates or replaces its session; \<open>None\<close> when it carries none.\<close>

definition applyPoolSession ::
  "'s session_store \<Rightarrow> string \<Rightarrow> checkpoint_mutation \<Rightarrow> 's commit_state \<Rightarrow> commit_error + (int option \<times> 's commit_state)" where
  "applyPoolSession store workId m cs =
    (let answer = map_sum (\<lambda>e. e) (map_prod Some (\<lambda>c. c));
         identity = (case cm_sessionId m of None \<Rightarrow> '''' | Some sid \<Rightarrow> sid) in
     case cm_session m of
      NoSession \<Rightarrow> Inr (None, cs)
    | SessionCreate headerId content \<Rightarrow>
        try_bind (throw_if (identity = '''' \<or> cm_sessionFile m) SessionsRequireIdentity) (\<lambda>_.
        try_bind (throw_if (headerId \<noteq> identity) SessionIdentityMismatch) (\<lambda>_.
        try_bind (throw_if (map_has (pt_owners (cs_tables cs)) identity) (InPool PrimaryKeyViolation)) (\<lambda>_.
        let owners = map_set (pt_owners (cs_tables cs)) identity \<lparr>ow_work = workId, ow_replay_key = cm_replayKey m\<rparr> in
        answer (store_session store (StoreCreate content) (cs\<lparr>cs_tables := (cs_tables cs)\<lparr>pt_owners := owners\<rparr>\<rparr>)))))
    | SessionReplace content expectSeq \<Rightarrow>
        try_bind (throw_if (identity = '''' \<or> cm_sessionFile m) SessionsRequireIdentity) (\<lambda>_.
        try_bind (throw_if (map_get (pt_owners (cs_tables cs)) identity \<noteq> Some \<lparr>ow_work = workId, ow_replay_key = cm_replayKey m\<rparr>)
          SessionScopeMismatch) (\<lambda>_.
        answer (store_session store (StoreReplace identity content expectSeq) cs))))"

definition appendPoolSession ::
  "'s session_store \<Rightarrow> string \<Rightarrow> string \<Rightarrow> json \<Rightarrow> int \<Rightarrow> 's commit_state \<Rightarrow> commit_error + (int \<times> 's commit_state)" where
  "appendPoolSession store workId sid entries expectSeq cs =
    try_bind (throw_if (sid = '''') SessionsRequireIdentity) (\<lambda>_.
    try_bind (throw_if (map_option ow_work (map_get (pt_owners (cs_tables cs)) sid) \<noteq> Some workId) SessionScopeMismatch) (\<lambda>_.
    store_session store (StoreAppend sid entries expectSeq) cs))"

definition upsertPoolUsage :: "string \<Rightarrow> int \<Rightarrow> string \<times> pool_usage \<Rightarrow> 's commit_state \<Rightarrow> 's commit_state" where
  "upsertPoolUsage workId generation billed cs = (case billed of (key, usage) \<Rightarrow>
    let k = (workId, generation, key) in
    cs\<lparr>cs_usage := map_set (cs_usage cs) k (case map_get (cs_usage cs) k of None \<Rightarrow> usage | Some u \<Rightarrow> map2 max u usage)\<rparr>)"

definition MAX_WORKER_CLOCK_SKEW_MS :: int where
  "MAX_WORKER_CLOCK_SKEW_MS = 1000"

definition payload_of :: "journal_entry \<Rightarrow> json" where
  "payload_of e = (case je_event e of RunEvent _ p \<Rightarrow> p | StatusChanged _ p \<Rightarrow> p)"

text \<open>
  What every commit asks first: whether the attempt may write at all, and whether the operation has an answer already.
\<close>

definition prior_receipt ::
  "'s commit_state \<Rightarrow> root_lease \<Rightarrow> work_token \<Rightarrow> string \<Rightarrow> string \<Rightarrow> int \<Rightarrow> commit_error + (string \<times> work_row \<times> receipt option)" where
  "prior_receipt cs lease token operationId identity now =
    try_bind (map_sum InPool (\<lambda>x. x) (try_bind (snapshotLease lease) (\<lambda>_. try_bind (check_text FKey operationId) (\<lambda>_.
      current_here (cs_tables cs) lease token False now)))) (\<lambda>(status, row).
    case map_get (cs_operations cs) (tk_id token, tk_generation token, operationId) of
      None \<Rightarrow> Inr (status, row, None)
    | Some (request, receipt) \<Rightarrow>
        try_bind (throw_if (request \<noteq> identity) OperationIdentityConflict) (\<lambda>_. Inr (status, row, Some receipt)))"

definition attempt_may_write :: "'s commit_state \<Rightarrow> root_lease \<Rightarrow> work_token \<Rightarrow> string \<Rightarrow> work_row \<Rightarrow> int \<Rightarrow> commit_error + unit" where
  "attempt_may_write cs lease token status row now =
    try_bind (throw_if (w_expires_at row < now) (InPool (staleWork token Expired))) (\<lambda>_.
    throw_if (\<not> admitsAttemptWrites (cs_tables cs) lease status) (InPool (staleWork token RootNotRunning)))"

datatype staged = Replayed receipt | HeldRow outbox_row

text \<open>
  The local transaction of \<open>stageAndDeliver\<close>. \<open>existing\<close> is what an earlier read of the journal found under the key,
  \<open>valid\<close> whether \<open>validatePoolMutation\<close> accepts, \<open>wall\<close> the local clock.
\<close>

definition accept_checkpoint ::
  "(json \<Rightarrow> string) \<Rightarrow> 's session_store \<Rightarrow> 's commit_state \<Rightarrow> work_token \<Rightarrow> string \<Rightarrow> checkpoint_mutation \<Rightarrow> string \<Rightarrow>
    journal_entry option \<Rightarrow> bool \<Rightarrow> int \<Rightarrow> int \<Rightarrow> commit_error + (staged \<times> 's commit_state)" where
  "accept_checkpoint sha store cs token operationId m identity existing valid now wall =
    try_bind (throw_if (\<not> valid) CheckpointRefused) (\<lambda>_.
    try_bind (throw_if (max now wall + MAX_WORKER_CLOCK_SKEW_MS < cm_completedAt m) CheckpointInFuture) (\<lambda>_.
    try_bind (throw_if (case existing of None \<Rightarrow> False | Some e \<Rightarrow> \<not> isRecordedCheckpointValue sha (payload_of e) (cm_payload m))
      CheckpointIdentityConflict) (\<lambda>_.
    try_bind (throw_if (existing \<noteq> None \<and> cm_session m \<noteq> NoSession) SessionCheckpointConflict) (\<lambda>_.
    try_bind (applyPoolSession store (tk_id token) m cs) (\<lambda>(lastSeq, cs1).
    case existing of
      Some e \<Rightarrow>
        let receipt = \<lparr>rc_seq = Some (je_seq e), rc_at = je_at e, rc_lastSeq = None\<rparr>
        in Inr (Replayed receipt, cs1\<lparr>cs_operations :=
          map_set (cs_operations cs1) (tk_id token, tk_generation token, operationId) (identity, receipt)\<rparr>)
    | None \<Rightarrow>
        let cs2 = (case cm_billed m of None \<Rightarrow> cs1 | Some billed \<Rightarrow> upsertPoolUsage (tk_id token) (tk_generation token) billed cs1);
            entry = \<lparr>ob_work = tk_id token, ob_generation = tk_generation token, ob_operation = operationId, ob_request = identity,
              ob_event_key = cm_event_key m, ob_payload = cm_payload m, ob_last_seq = lastSeq\<rparr>
        in Inr (HeldRow entry, cs2\<lparr>cs_outbox := cs_outbox cs2 @ [entry]\<rparr>))))))"

definition stage ::
  "(json \<Rightarrow> string) \<Rightarrow> 's session_store \<Rightarrow> 's commit_state \<Rightarrow> root_lease \<Rightarrow> work_token \<Rightarrow> string \<Rightarrow> checkpoint_mutation \<Rightarrow> string \<Rightarrow>
    journal_entry option \<Rightarrow> bool \<Rightarrow> int \<Rightarrow> int \<Rightarrow> commit_error + (staged \<times> 's commit_state)" where
  "stage sha store cs lease token operationId m identity existing valid now wall =
    try_bind (prior_receipt cs lease token operationId identity now) (\<lambda>(status, row, previous).
    case previous of
      Some receipt \<Rightarrow> Inr (Replayed receipt, cs)
    | None \<Rightarrow> (case find (\<lambda>b. ob_key b = (tk_id token, tk_generation token, operationId)) (cs_outbox cs) of
        Some held \<Rightarrow> try_bind (throw_if (ob_request held \<noteq> identity) OperationIdentityConflict) (\<lambda>_. Inr (HeldRow held, cs))
      | None \<Rightarrow>
          try_bind (attempt_may_write cs lease token status row now) (\<lambda>_.
          accept_checkpoint sha store cs token operationId m identity existing valid now wall)))"

text \<open>An append to a session journals nothing: its whole commit is local.\<close>

definition commit_append ::
  "'s session_store \<Rightarrow> 's commit_state \<Rightarrow> root_lease \<Rightarrow> work_token \<Rightarrow> string \<Rightarrow> string \<Rightarrow> json \<Rightarrow> int \<Rightarrow> string \<Rightarrow> int \<Rightarrow>
    commit_error + (receipt \<times> 's commit_state)" where
  "commit_append store cs lease token operationId sid entries expectSeq identity now =
    try_bind (prior_receipt cs lease token operationId identity now) (\<lambda>(status, row, previous).
    case previous of
      Some receipt \<Rightarrow> Inr (receipt, cs)
    | None \<Rightarrow>
        try_bind (attempt_may_write cs lease token status row now) (\<lambda>_.
        try_bind (appendPoolSession store (w_id row) sid entries expectSeq cs) (\<lambda>(lastSeq, cs1).
        let receipt = \<lparr>rc_seq = None, rc_at = now, rc_lastSeq = Some lastSeq\<rparr> in
        Inr (receipt, cs1\<lparr>cs_operations := map_set (cs_operations cs1) (tk_id token, tk_generation token, operationId) (identity, receipt)\<rparr>))))"

section \<open>Delivery\<close>

definition js_lease :: "root_lease \<Rightarrow> lease" where
  "js_lease lease = \<lparr>l_runId = js_of (rl_runId lease), l_holderId = js_of (rl_holderId lease), l_epoch = rl_epoch lease\<rparr>"

text \<open>\<open>PoolRemoteJournal.append\<close>\<close>

definition append_checkpoint ::
  "memory_journal \<Rightarrow> root_lease \<Rightarrow> js_text \<Rightarrow> json \<Rightarrow> int \<Rightarrow> journal_error + ((append_status \<times> journal_entry) \<times> memory_journal)" where
  "append_checkpoint j lease key checkpoint now =
    append_entry j (js_lease lease) (RunEvent CheckpointRecorded checkpoint) (Some key) None now"

definition forget :: "outbox_row \<Rightarrow> 's commit_state \<Rightarrow> 's commit_state" where
  "forget held cs = cs\<lparr>cs_outbox := filter (\<lambda>b. ob_key b \<noteq> ob_key held) (cs_outbox cs)\<rparr>"

definition receipt_of :: "outbox_row \<Rightarrow> journal_entry \<Rightarrow> receipt" where
  "receipt_of held e = \<lparr>rc_seq = Some (je_seq e), rc_at = je_at e, rc_lastSeq = ob_last_seq held\<rparr>"

text \<open>The transaction after the append; when another checkpoint was there first, it forgets the row and throws.\<close>

definition deliver_finish ::
  "(json \<Rightarrow> string) \<Rightarrow> 's commit_state \<Rightarrow> outbox_row \<Rightarrow> append_status \<times> journal_entry \<Rightarrow> (commit_error + receipt) \<times> 's commit_state" where
  "deliver_finish sha cs held outcome = (case outcome of (status, e) \<Rightarrow>
    if status = Exists \<and> \<not> isRecordedCheckpointValue sha (payload_of e) (ob_payload held)
    then (Inl CheckpointIdentityConflict, forget held cs)
    else let receipt = receipt_of held e;
             operations = (if map_has (cs_operations cs) (ob_key held) then cs_operations cs
               else map_set (cs_operations cs) (ob_key held) (ob_request held, receipt))
      in (Inr receipt, forget held (cs\<lparr>cs_operations := operations\<rparr>)))"

definition deliver ::
  "(json \<Rightarrow> string) \<Rightarrow> 's commit_state \<Rightarrow> memory_journal \<Rightarrow> root_lease \<Rightarrow> outbox_row \<Rightarrow> int \<Rightarrow>
    (commit_error + receipt) \<times> 's commit_state \<times> memory_journal" where
  "deliver sha cs j lease held now = (case append_checkpoint j lease (ob_event_key held) (ob_payload held) now of
      Inl e \<Rightarrow> (Inl (InJournal e), cs, j)
    | Inr (outcome, j') \<Rightarrow> (case deliver_finish sha cs held outcome of (r, cs') \<Rightarrow> (r, cs', j')))"

fun deliver_rows ::
  "(json \<Rightarrow> string) \<Rightarrow> root_lease \<Rightarrow> int \<Rightarrow> outbox_row list \<Rightarrow> 's commit_state \<Rightarrow> memory_journal \<Rightarrow>
    (commit_error + unit) \<times> 's commit_state \<times> memory_journal" where
  "deliver_rows sha lease now [] cs j = (Inr (), cs, j)"
| "deliver_rows sha lease now (row # rows) cs j = (case deliver sha cs j lease row now of
      (Inl e, cs', j') \<Rightarrow> (Inl e, cs', j')
    | (Inr _, cs', j') \<Rightarrow> deliver_rows sha lease now rows cs' j')"

definition of_root :: "'s commit_state \<Rightarrow> string \<Rightarrow> outbox_row \<Rightarrow> bool" where
  "of_root cs run row = list_ex (\<lambda>w. w_id w = ob_work row \<and> w_root w = run) (pt_work (cs_tables cs))"

definition root_rows :: "'s commit_state \<Rightarrow> string \<Rightarrow> outbox_row list" where
  "root_rows cs run = filter (of_root cs run) (cs_outbox cs)"

definition deliverAll ::
  "(json \<Rightarrow> string) \<Rightarrow> root_lease \<Rightarrow> int \<Rightarrow> 's commit_state \<Rightarrow> memory_journal \<Rightarrow> (commit_error + nat) \<times> 's commit_state \<times> memory_journal" where
  "deliverAll sha lease now cs j =
    (let rows = root_rows cs (rl_runId lease) in
     case deliver_rows sha lease now rows cs j of
       (Inl e, cs', j') \<Rightarrow> (Inl e, cs', j')
     | (Inr _, cs', j') \<Rightarrow> (Inr (length rows), cs', j'))"

text \<open>
  A claim delivers first whatever is held; it takes nothing while that fails. \<open>pending\<close> is the queue's note that rows
  may be held. Nothing else runs in between, so one pass clears it.
\<close>

definition claim_remote ::
  "(json \<Rightarrow> string) \<Rightarrow> bool \<Rightarrow> root_lease \<Rightarrow> string \<Rightarrow> (string \<times> string) list \<Rightarrow> int \<Rightarrow> claim_placement option \<Rightarrow> int \<Rightarrow>
    's commit_state \<Rightarrow> memory_journal \<Rightarrow> (commit_error + pool_work option) \<times> 's commit_state \<times> memory_journal" where
  "claim_remote sha pending lease worker definitions duration placement now cs j =
    (case try_bind (positive duration) (\<lambda>_. try_bind (snapshotLease lease) (\<lambda>_. check_text FHolderId worker)) of
       Inl e \<Rightarrow> (Inl (InPool e), cs, j)
     | Inr _ \<Rightarrow>
     (case (if pending then deliverAll sha lease now cs j else (Inr 0, cs, j)) of
       (Inl (InJournal (StaleLeaseError r e c)), cs1, j1) \<Rightarrow> (Inl (InJournal (StaleLeaseError r e c)), cs1, j1)
     | (Inl _, cs1, j1) \<Rightarrow> (Inr None, cs1, j1)
     | (Inr _, cs1, j1) \<Rightarrow> (case claim (cs_tables cs1) lease worker definitions duration placement now of
           Inl e \<Rightarrow> (Inl (InPool e), cs1, j1)
         | Inr (work, t') \<Rightarrow> (Inr work, cs1\<lparr>cs_tables := t'\<rparr>, j1))))"

text \<open>A child completes only once the journal has every event it was told is committed.\<close>

definition complete_remote ::
  "'s commit_state \<Rightarrow> root_lease \<Rightarrow> work_token \<Rightarrow> json \<Rightarrow> int \<Rightarrow> commit_error + (unit \<times> 's commit_state)" where
  "complete_remote cs lease token result now =
    try_bind (map_sum InPool (\<lambda>x. x) (complete (cs_tables cs) lease token result now)) (\<lambda>(_, t').
    try_bind (throw_if (\<not> map_has (pt_results (cs_tables cs)) (tk_id token) \<and>
      list_ex (\<lambda>b. ob_work b = tk_id token) (cs_outbox cs)) EventsNotRecorded) (\<lambda>_.
    Inr ((), cs\<lparr>cs_tables := t'\<rparr>)))"

section \<open>Commits, deliveries and crashes interleaved\<close>

text \<open>
  A retried operation repeats its request, so an operation determines what it records: a checkpoint of a run under an
  event key, or an append to a session, and the digest of the request.
\<close>

datatype request = RecordCheckpoint string js_text json string | AppendSession string

type_synonym delivery = "root_lease \<times> outbox_row \<times> (append_status \<times> journal_entry) option"

record 's commit_system =
  sy_commits :: "'s commit_state"
  sy_journal :: memory_journal
  sy_deliveries :: "delivery list"
  sy_accepted :: "op_key set"

definition recorded_as :: "memory_journal \<Rightarrow> string \<Rightarrow> js_text \<Rightarrow> journal_entry \<Rightarrow> bool" where
  "recorded_as j run key e \<longleftrightarrow> e \<in> set (run_entries j (js_of run)) \<and> je_key e = Some key"

fun deletes :: "journal_op \<Rightarrow> bool" where
  "deletes (DeleteRun _ _) = True"
| "deletes (DeleteOwnedRun _ _ _) = True"
| "deletes _ = False"

fun is_complete :: "pool_op \<Rightarrow> bool" where
  "is_complete (Complete _ _ _) = True"
| "is_complete _ = False"

fun started :: "root_lease \<Rightarrow> staged \<Rightarrow> delivery list" where
  "started lease (HeldRow row) = [(lease, row, None)]"
| "started lease (Replayed _) = []"

text \<open>
  One step: a commit's local transaction (\<open>existing\<close> was read from the journal at some earlier moment), a delivery that
  a pass over the outbox starts, the append of a delivery, its last transaction, a delivery that fails or whose reply is
  lost, the stop of the process, and whatever else the queue and the journal do. The journal keeps the runs of the pool.
\<close>

inductive commit_step ::
  "(json \<Rightarrow> string) \<Rightarrow> 's session_store \<Rightarrow> (json \<times> stage_checkpoint \<Rightarrow> string) \<Rightarrow> (op_key \<Rightarrow> request) \<Rightarrow>
    's commit_system \<Rightarrow> 's commit_system \<Rightarrow> bool"
  for sha store hash requests where
  commits: "stage sha store (sy_commits s) lease token operationId m identity existing valid now wall = Inr (r, cs') \<Longrightarrow>
    requests (tk_id token, tk_generation token, operationId) = RecordCheckpoint (rl_runId lease) (cm_event_key m) (cm_payload m) identity \<Longrightarrow>
    (case existing of None \<Rightarrow> True | Some e \<Rightarrow> recorded_as (sy_journal s) (rl_runId lease) (cm_event_key m) e) \<Longrightarrow>
    commit_step sha store hash requests s (s\<lparr>sy_commits := cs', sy_deliveries := started lease r @ sy_deliveries s,
      sy_accepted := insert (tk_id token, tk_generation token, operationId) (sy_accepted s)\<rparr>)"
| commits_append: "commit_append store (sy_commits s) lease token operationId sid entries expectSeq identity now = Inr (receipt, cs') \<Longrightarrow>
    requests (tk_id token, tk_generation token, operationId) = AppendSession identity \<Longrightarrow>
    commit_step sha store hash requests s (s\<lparr>sy_commits := cs'\<rparr>)"
| drains: "row \<in> set (root_rows (sy_commits s) (rl_runId lease)) \<Longrightarrow>
    commit_step sha store hash requests s (s\<lparr>sy_deliveries := (lease, row, None) # sy_deliveries s\<rparr>)"
| appends: "(lease, row, None) \<in> set (sy_deliveries s) \<Longrightarrow>
    append_checkpoint (sy_journal s) lease (ob_event_key row) (ob_payload row) now = Inr (outcome, j') \<Longrightarrow>
    commit_step sha store hash requests s (s\<lparr>sy_journal := j',
      sy_deliveries := (lease, row, Some outcome) # remove1 (lease, row, None) (sy_deliveries s)\<rparr>)"
| finishes: "(lease, row, Some outcome) \<in> set (sy_deliveries s) \<Longrightarrow>
    deliver_finish sha (sy_commits s) row outcome = (r, cs') \<Longrightarrow>
    commit_step sha store hash requests s (s\<lparr>sy_commits := cs', sy_deliveries := remove1 (lease, row, Some outcome) (sy_deliveries s)\<rparr>)"
| gives_up: "commit_step sha store hash requests s (s\<lparr>sy_deliveries := remove1 d (sy_deliveries s)\<rparr>)"
| crashes: "commit_step sha store hash requests s (s\<lparr>sy_deliveries := []\<rparr>)"
| completes: "complete_remote (sy_commits s) lease token result now = Inr (u, cs') \<Longrightarrow>
    commit_step sha store hash requests s (s\<lparr>sy_commits := cs'\<rparr>)"
| queue_step: "\<not> is_complete a \<Longrightarrow>
    commit_step sha store hash requests s
      (s\<lparr>sy_commits := (sy_commits s)\<lparr>cs_tables := pool_step hash (cs_tables (sy_commits s)) (a, now)\<rparr>\<rparr>)"
| journal_moves: "\<not> deletes b \<Longrightarrow> commit_step sha store hash requests s (s\<lparr>sy_journal := journal_step (sy_journal s) b\<rparr>)"

definition new_system :: "'s \<Rightarrow> json option \<Rightarrow> 's commit_system" where
  "new_system sessions d = \<lparr>sy_commits = \<lparr>cs_tables = empty_tables, cs_operations = [], cs_outbox = [], cs_usage = [], cs_sessions = sessions\<rparr>,
    sy_journal = new_journal d, sy_deliveries = [], sy_accepted = {}\<rparr>"

section \<open>What each part does to the state\<close>

lemma isRecorded_refl [simp]: "isRecordedCheckpointValue sha v v"
  by (simp add: isRecordedCheckpointValue_def isSameCheckpointValue_def)

lemma store_session_fields:
  assumes "store_session store w cs = Inr (lastSeq, cs')"
  shows "\<exists>sessions. cs' = cs\<lparr>cs_sessions := sessions\<rparr>"
  using assms by (auto simp: store_session_def split: option.splits)

definition same_queue :: "pool_tables \<Rightarrow> pool_tables \<Rightarrow> bool" where
  "same_queue t t' \<longleftrightarrow> pt_work t' = pt_work t \<and> pt_results t' = pt_results t"

lemma applyPoolSession_fields:
  assumes "applyPoolSession store workId m cs = Inr (lastSeq, cs')"
  shows "same_queue (cs_tables cs) (cs_tables cs') \<and> cs_operations cs' = cs_operations cs \<and> cs_outbox cs' = cs_outbox cs"
proof -
  have map: "map_sum (\<lambda>e. e) (map_prod Some (\<lambda>c. c)) r = Inr (lastSeq, cs') \<longleftrightarrow> (\<exists>n. lastSeq = Some n \<and> r = Inr (n, cs'))" for r
    by (cases r) auto
  show ?thesis
    using assms
    by (cases "cm_session m")
      (auto simp: applyPoolSession_def same_queue_def map try_bind_Inr Let_def dest!: store_session_fields split: option.splits)
qed

lemma upsert_fields [simp]:
  "cs_tables (upsertPoolUsage i g b cs) = cs_tables cs" "cs_operations (upsertPoolUsage i g b cs) = cs_operations cs"
  "cs_outbox (upsertPoolUsage i g b cs) = cs_outbox cs"
  by (simp_all add: upsertPoolUsage_def Let_def split: prod.splits)

lemma prior_receipt_Inr:
  assumes "prior_receipt cs lease token operationId identity now = Inr (status, row, previous)"
  shows "current (cs_tables cs) lease token False = Inr row"
    "previous = map_option snd (map_get (cs_operations cs) (tk_id token, tk_generation token, operationId))"
proof -
  have lift: "map_sum InPool (\<lambda>x. x) r = Inr y \<longleftrightarrow> r = Inr y" for r :: "pool_error + (string \<times> work_row)" and y
    by (cases r) auto
  obtain answer where here: "current_here (cs_tables cs) lease token False now = Inr (status, row)"
    and prev: "answer = map_get (cs_operations cs) (tk_id token, tk_generation token, operationId)"
    "(case answer of None \<Rightarrow> Inr (status, row, None)
      | Some (request, receipt) \<Rightarrow> try_bind (throw_if (request \<noteq> identity) OperationIdentityConflict) (\<lambda>_. Inr (status, row, Some receipt)))
      = Inr (status, row, previous)"
    using assms by (auto simp: prior_receipt_def lift try_bind_Inr split: option.splits)
  show "current (cs_tables cs) lease token False = Inr row" using here by (rule current_hereD(2))
  show "previous = map_option snd (map_get (cs_operations cs) (tk_id token, tk_generation token, operationId))"
    using prev by (auto simp: try_bind_Inr split: option.splits)
qed

text \<open>
  A staged commit was answered before, is held already, is found recorded, or joins the outbox; only the last two write.
\<close>

lemma stage_cases:
  assumes st: "stage sha store cs lease token operationId m identity existing valid now wall = Inr (r, cs')"
  defines "key \<equiv> (tk_id token, tk_generation token, operationId)"
  obtains row where "current (cs_tables cs) lease token False = Inr row" and
    "(\<exists>rc. r = Replayed rc) \<and> cs' = cs \<and> map_has (cs_operations cs) key \<or>
     (\<exists>held. r = HeldRow held \<and> held \<in> set (cs_outbox cs) \<and> ob_key held = key \<and> cs' = cs) \<or>
     (\<exists>e rc. existing = Some e \<and> r = Replayed rc \<and> \<not> map_has (cs_operations cs) key \<and>
        isRecordedCheckpointValue sha (payload_of e) (cm_payload m) \<and> rc_seq rc = Some (je_seq e) \<and> rc_at rc = je_at e \<and>
        same_queue (cs_tables cs) (cs_tables cs') \<and> cs_outbox cs' = cs_outbox cs \<and>
        cs_operations cs' = map_set (cs_operations cs) key (identity, rc)) \<or>
     (\<exists>entry. r = HeldRow entry \<and> ob_key entry = key \<and> ob_request entry = identity \<and> ob_event_key entry = cm_event_key m \<and>
        ob_payload entry = cm_payload m \<and> (\<forall>b \<in> set (cs_outbox cs). ob_key b \<noteq> key) \<and> \<not> map_has (cs_operations cs) key \<and>
        same_queue (cs_tables cs) (cs_tables cs') \<and> cs_outbox cs' = cs_outbox cs @ [entry] \<and> cs_operations cs' = cs_operations cs)"
proof -
  obtain status row previous where prior: "prior_receipt cs lease token operationId identity now = Inr (status, row, previous)"
    using st by (auto simp: stage_def try_bind_Inr)
  note pr = prior_receipt_Inr [OF prior]
  show thesis
  proof (cases previous)
    case (Some rc)
    then have "r = Replayed rc" "cs' = cs" using st prior by (simp_all add: stage_def)
    moreover have "map_has (cs_operations cs) key" using pr(2) Some by (cases "map_get (cs_operations cs) key") (auto simp: map_has_get key_def)
    ultimately show thesis using that pr(1) by blast
  next
    case new: None
    then have none: "\<not> map_has (cs_operations cs) key" using pr(2) by (simp add: map_has_get key_def)
    show thesis
    proof (cases "find (\<lambda>b. ob_key b = key) (cs_outbox cs)")
      case (Some held)
      then have "r = HeldRow held" "cs' = cs" using st prior new by (auto simp: stage_def key_def try_bind_Inr)
      moreover have "held \<in> set (cs_outbox cs)" "ob_key held = key" using Some by (auto simp: find_Some_iff)
      ultimately show thesis using that pr(1) by blast
    next
      case None
      then have fresh: "\<forall>b \<in> set (cs_outbox cs). ob_key b \<noteq> key" by (auto simp: find_None_iff)
      have acc: "accept_checkpoint sha store cs token operationId m identity existing valid now wall = Inr (r, cs')"
        using st prior new None by (auto simp: stage_def key_def try_bind_Inr)
      then obtain lastSeq cs1 where s: "applyPoolSession store (tk_id token) m cs = Inr (lastSeq, cs1)"
        by (auto simp: accept_checkpoint_def try_bind_Inr)
      note f = applyPoolSession_fields [OF s]
      show thesis
      proof (cases existing)
        case None
        then show thesis using acc s f fresh none pr(1) that
          by (auto simp: accept_checkpoint_def Let_def ob_key_def key_def try_bind_Inr split: option.splits)
      next
        case (Some e)
        then show thesis using acc s f none pr(1) that
          by (auto simp: accept_checkpoint_def Let_def key_def try_bind_Inr)
      qed
    qed
  qed
qed

section \<open>What the pool relies on of a journal\<close>

text \<open>
  Any run journal may stand behind the pool. What it must promise of a keyed append: the answer is an event recorded
  under the key, with the payload offered when it is new; and an event once recorded stays.
\<close>

locale keyed_log =
  fixes recorded :: "'j \<Rightarrow> 'r \<Rightarrow> 'k \<Rightarrow> 'e \<Rightarrow> bool"
    and append_event :: "'j \<Rightarrow> 'l \<Rightarrow> 'k \<Rightarrow> 'p \<Rightarrow> int \<Rightarrow> 'x + ((append_status \<times> 'e) \<times> 'j)"
    and run_of :: "'l \<Rightarrow> 'r"
    and payload :: "'e \<Rightarrow> 'p"
    and ok :: "'j \<Rightarrow> bool"
  assumes answer: "append_event j l k p now = Inr ((st, e), j') \<Longrightarrow> recorded j' (run_of l) k e \<and> (st = Appended \<longrightarrow> payload e = p)"
    and keeps: "append_event j l k p now = Inr (out, j') \<Longrightarrow> recorded j r k' e' \<Longrightarrow> recorded j' r k' e'"
    and ok_append: "ok j \<Longrightarrow> append_event j l k p now = Inr (out, j') \<Longrightarrow> ok j'"
    and one: "ok j \<Longrightarrow> recorded j r k e \<Longrightarrow> recorded j r k e' \<Longrightarrow> e' = e"
begin

text \<open>An append repeated after a lost reply finds the event of the first.\<close>

lemma retried:
  assumes "ok j" and "recorded j (run_of l) k e" and "append_event j l k p now = Inr ((st, e'), j')"
  shows "e' = e"
  using assms answer keeps ok_append one by (metis (no_types, lifting))

end

lemma map_key_distinct:
  assumes "distinct (List.map_filter je_key es)" and "e \<in> set es" and "e' \<in> set es" and "je_key e = Some k" and "je_key e' = Some k"
  shows "e' = e"
  using assms by (induction es) (auto simp: List.map_filter_def image_iff split: option.splits if_splits)

lemma recorded_one:
  assumes inv: "journal_inv j" and "recorded_as j run k e" and "recorded_as j run k e'"
  shows "e' = e"
proof (cases "map_get (runs j) (js_of run)")
  case None
  then show ?thesis using assms(2) by (simp add: recorded_as_def run_entries_def)
next
  case (Some r)
  then have "distinct (List.map_filter je_key (mr_entries r))"
    using journal_inv_run [OF inv] by (auto simp: run_inv_def entries_inv_def)
  then show ?thesis using assms(2,3) Some by (intro map_key_distinct) (auto simp: recorded_as_def run_entries_def)
qed

definition journal_extends :: "memory_journal \<Rightarrow> memory_journal \<Rightarrow> bool" where
  "journal_extends j j' \<longleftrightarrow> (\<forall>r. set (run_entries j r) \<subseteq> set (run_entries j' r))"

lemma journal_extends_refl [simp]: "journal_extends j j"
  by (simp add: journal_extends_def)

lemma recorded_mono: "journal_extends j j' \<Longrightarrow> recorded_as j run k e \<Longrightarrow> recorded_as j' run k e"
  by (auto simp: journal_extends_def recorded_as_def)

lemma extends_same_runs: "runs j' = runs j \<Longrightarrow> journal_extends j j'"
  by (simp add: journal_extends_def run_entries_def)

lemma extends_new_run: "\<not> map_has (runs j) r \<Longrightarrow> journal_extends j (j\<lparr>runs := map_set (runs j) r run\<rparr>)"
  by (auto simp: journal_extends_def run_entries_def map_has_get split: option.splits)

lemma append_extends:
  assumes "append_entry j l event key x now = Inr ((st, en), j')"
  shows "journal_extends j j'"
  using assms
proof (rule append_entry_Inr)
  fix run
  assume "map_get (runs j) (l_runId l) = Some run"
    and "st = Exists \<and> j' = j \<and> Option.bind key (\<lambda>k. find_key k (mr_entries run)) = Some en \<or>
      st = Appended \<and> Option.bind key (\<lambda>k. find_key k (mr_entries run)) = None \<and>
      (x = None \<or> x = Some (last_seq (mr_entries run))) \<and>
      0 \<le> last_seq (mr_entries run) + 1 \<and> last_seq (mr_entries run) + 1 \<le> MAX_SAFE_INTEGER \<and>
      en = appended_entry l event key now run \<and>
      j' = j\<lparr>runs := map_set (runs j) (l_runId l) (appended_run l event key now run)\<rparr>"
  then show "journal_extends j j'"
    by (auto simp: journal_extends_def run_entries_def appended_run_def)
qed

lemma append_checkpoint_recorded:
  assumes "append_checkpoint j lease k p now = Inr ((st, e), j')"
  shows "recorded_as j' (rl_runId lease) k e \<and> (st = Appended \<longrightarrow> payload_of e = p)"
proof -
  have a: "append_entry j (js_lease lease) (RunEvent CheckpointRecorded p) (Some k) None now = Inr ((st, e), j')"
    using assms by (simp add: append_checkpoint_def)
  have found: "find_key k' es = Some e' \<Longrightarrow> e' \<in> set es \<and> je_key e' = Some k'" for k' es e' by (auto simp: find_key_def find_Some_iff)
  from a show ?thesis
    by (rule append_entry_Inr)
      (auto simp: recorded_as_def run_entries_def js_lease_def appended_run_def appended_entry_def payload_of_def dest!: found)
qed

interpretation rl: keyed_log recorded_as append_checkpoint rl_runId payload_of journal_inv
proof
  fix j lease k p now st e j' out r k' e'
  show "append_checkpoint j lease k p now = Inr ((st, e), j') \<Longrightarrow> recorded_as j' (rl_runId lease) k e \<and> (st = Appended \<longrightarrow> payload_of e = p)"
    by (rule append_checkpoint_recorded)
  show "append_checkpoint j lease k p now = Inr (out, j') \<Longrightarrow> recorded_as j r k' e' \<Longrightarrow> recorded_as j' r k' e'"
    by (cases out) (auto simp: append_checkpoint_def dest!: append_extends intro: recorded_mono)
  show "journal_inv j \<Longrightarrow> append_checkpoint j lease k p now = Inr (out, j') \<Longrightarrow> journal_inv j'"
    by (cases out) (auto simp: append_checkpoint_def intro: inv_append)
  show "journal_inv j \<Longrightarrow> recorded_as j r k e \<Longrightarrow> recorded_as j r k e' \<Longrightarrow> e' = e"
    by (rule recorded_one)
qed

lemma extends_result: "(\<And>x j'. r = Inr (x, j') \<Longrightarrow> journal_extends j j') \<Longrightarrow> journal_extends j (result_state j r)"
  by (cases r) auto

lemma grant_runs: "grant j r h now = Inr (out, j') \<Longrightarrow> runs j' = runs j"
  by (auto simp: grant_def put_lease_def try_bind_Inr)

lemma writes_extend:
  "createRun j h = Inr (x, j') \<Longrightarrow> journal_extends j j'"
  "createRunWithEvents j h es clock = Inr (x, j') \<Longrightarrow> journal_extends j j'"
  by (auto simp: createRun_def createRunWithEvents_def try_bind_Inr Let_def split: if_splits intro: extends_new_run)

lemma leases_extend:
  "acquire j r h now = Inr (y, j') \<Longrightarrow> journal_extends j j'"
  "takeover j r h expected now = Inr (y, j') \<Longrightarrow> journal_extends j j'"
  "takeoverExpired j r h ms now now' = Inr (y, j') \<Longrightarrow> journal_extends j j'"
  "renew j l now = Inr (u, j') \<Longrightarrow> journal_extends j j'"
  "release_lease j l now = Inr (u, j') \<Longrightarrow> journal_extends j j'"
  by (auto simp: acquire_def takeover_def takeoverExpired_def renew_def release_lease_def put_lease_def try_bind_Inr
    split: if_splits option.splits intro: extends_same_runs dest: grant_runs)

lemma journal_grows:
  assumes "\<not> deletes b"
  shows "journal_extends j (journal_step j b)"
  using assms
  by (cases b) (auto simp: close_journal_def intro!: extends_result intro: writes_extend leases_extend append_extends
    extends_same_runs [of "j\<lparr>closed := True\<rparr>"])

section \<open>The invariant of commits\<close>

definition row_request :: "(op_key \<Rightarrow> request) \<Rightarrow> string \<Rightarrow> outbox_row \<Rightarrow> bool" where
  "row_request requests run row \<longleftrightarrow> requests (ob_key row) = RecordCheckpoint run (ob_event_key row) (ob_payload row) (ob_request row)"

definition named_by :: "(json \<Rightarrow> string) \<Rightarrow> memory_journal \<Rightarrow> string \<Rightarrow> js_text \<Rightarrow> json \<Rightarrow> receipt \<Rightarrow> bool" where
  "named_by sha j run key payload rc \<longleftrightarrow> (\<exists>e. recorded_as j run key e \<and> rc_seq rc = Some (je_seq e) \<and> rc_at rc = je_at e \<and>
    isRecordedCheckpointValue sha (payload_of e) payload)"

definition conflicting :: "(json \<Rightarrow> string) \<Rightarrow> memory_journal \<Rightarrow> string \<Rightarrow> js_text \<Rightarrow> json \<Rightarrow> bool" where
  "conflicting sha j run key payload \<longleftrightarrow> (\<exists>e. recorded_as j run key e \<and> \<not> isRecordedCheckpointValue sha (payload_of e) payload)"

fun receipt_ok :: "(json \<Rightarrow> string) \<Rightarrow> memory_journal \<Rightarrow> request \<Rightarrow> receipt \<Rightarrow> bool" where
  "receipt_ok sha j (RecordCheckpoint run key payload _) rc = named_by sha j run key payload rc"
| "receipt_ok sha j (AppendSession _) rc = (rc_seq rc = None)"

fun accepted_ok :: "(json \<Rightarrow> string) \<Rightarrow> 's commit_state \<Rightarrow> memory_journal \<Rightarrow> op_key \<Rightarrow> request \<Rightarrow> bool" where
  "accepted_ok sha cs j op (RecordCheckpoint run key payload _) \<longleftrightarrow>
    op \<in> ob_key ` set (cs_outbox cs) \<or> map_has (cs_operations cs) op \<or> conflicting sha j run key payload"
| "accepted_ok sha cs j op (AppendSession _) = False"

fun delivery_ok :: "(op_key \<Rightarrow> request) \<Rightarrow> memory_journal \<Rightarrow> delivery \<Rightarrow> bool" where
  "delivery_ok requests j (lease, row, outcome) \<longleftrightarrow> row_request requests (rl_runId lease) row \<and>
    (case outcome of None \<Rightarrow> True
      | Some (st, e) \<Rightarrow> recorded_as j (rl_runId lease) (ob_event_key row) e \<and> (st = Appended \<longrightarrow> payload_of e = ob_payload row))"

definition outbox_ok :: "(op_key \<Rightarrow> request) \<Rightarrow> 's commit_state \<Rightarrow> bool" where
  "outbox_ok requests cs \<longleftrightarrow> pool_inv (cs_tables cs) \<and> distinct (map ob_key (cs_outbox cs)) \<and>
    (\<forall>row \<in> set (cs_outbox cs). (\<exists>run. row_request requests run row \<and> of_root cs run row) \<and>
      \<not> map_has (pt_results (cs_tables cs)) (ob_work row))"

definition commit_inv :: "(json \<Rightarrow> string) \<Rightarrow> (op_key \<Rightarrow> request) \<Rightarrow> 's commit_system \<Rightarrow> bool" where
  "commit_inv sha requests s \<longleftrightarrow> outbox_ok requests (sy_commits s) \<and> journal_inv (sy_journal s) \<and>
    (\<forall>d \<in> set (sy_deliveries s). delivery_ok requests (sy_journal s) d) \<and>
    (\<forall>op v. map_get (cs_operations (sy_commits s)) op = Some v \<longrightarrow> receipt_ok sha (sy_journal s) (requests op) (snd v)) \<and>
    (\<forall>op \<in> sy_accepted s. accepted_ok sha (sy_commits s) (sy_journal s) op (requests op))"

lemma named_mono: "journal_extends j j' \<Longrightarrow> named_by sha j run k p rc \<Longrightarrow> named_by sha j' run k p rc"
  unfolding named_by_def by (meson recorded_mono)

lemma conflicting_mono: "journal_extends j j' \<Longrightarrow> conflicting sha j run k p \<Longrightarrow> conflicting sha j' run k p"
  unfolding conflicting_def by (meson recorded_mono)

lemma receipt_ok_mono: "journal_extends j j' \<Longrightarrow> receipt_ok sha j q rc \<Longrightarrow> receipt_ok sha j' q rc"
  by (cases q) (auto intro: named_mono)

lemma accepted_ok_mono: "journal_extends j j' \<Longrightarrow> accepted_ok sha cs j op q \<Longrightarrow> accepted_ok sha cs j' op q"
  by (cases q) (auto intro: conflicting_mono)

lemma delivery_ok_mono: "journal_extends j j' \<Longrightarrow> delivery_ok requests j d \<Longrightarrow> delivery_ok requests j' d"
  by (cases d) (auto intro: recorded_mono split: option.splits)

text \<open>The journal moves on.\<close>

lemma commit_inv_journal:
  assumes "commit_inv sha requests s" and "journal_extends (sy_journal s) j'" and "journal_inv j'"
  shows "commit_inv sha requests (s\<lparr>sy_journal := j'\<rparr>)"
  using assms(1,3) unfolding commit_inv_def
  by (auto intro: delivery_ok_mono [OF assms(2)] receipt_ok_mono [OF assms(2)] accepted_ok_mono [OF assms(2)])

lemma commit_inv_deliveries:
  assumes "commit_inv sha requests s" and "\<And>d. d \<in> set ds \<Longrightarrow> d \<in> set (sy_deliveries s) \<or> delivery_ok requests (sy_journal s) d"
  shows "commit_inv sha requests (s\<lparr>sy_deliveries := ds\<rparr>)"
  using assms unfolding commit_inv_def by auto

text \<open>The tables of the queue move on: work items stay, and no held event gains a result.\<close>

lemma commit_inv_tables:
  assumes inv: "commit_inv sha requests s" and t: "pool_inv t'"
    and kept: "\<And>w. w \<in> set (pt_work (cs_tables (sy_commits s))) \<Longrightarrow> \<exists>w' \<in> set (pt_work t'). w_id w' = w_id w \<and> w_root w' = w_root w"
    and results: "\<And>row. row \<in> set (cs_outbox (sy_commits s)) \<Longrightarrow> map_has (pt_results t') (ob_work row) \<Longrightarrow>
      map_has (pt_results (cs_tables (sy_commits s))) (ob_work row)"
  shows "commit_inv sha requests (s\<lparr>sy_commits := (sy_commits s)\<lparr>cs_tables := t'\<rparr>\<rparr>)"
proof -
  have root: "of_root (sy_commits s) run row \<Longrightarrow> of_root ((sy_commits s)\<lparr>cs_tables := t'\<rparr>) run row" for run row
    using kept by (fastforce simp: of_root_def list_ex_iff)
  have acc: "accepted_ok sha ((sy_commits s)\<lparr>cs_tables := t'\<rparr>) j op q = accepted_ok sha (sy_commits s) j op q" for j op q
    by (cases q) simp_all
  show ?thesis using inv t root results unfolding commit_inv_def outbox_ok_def by (auto simp: acc) blast+
qed

lemma step_keeps_work:
  assumes "tables_step U t t'" and "w \<in> set (pt_work t)"
  shows "\<exists>w' \<in> set (pt_work t'). w_id w' = w_id w \<and> w_root w' = w_root w"
  by (rule tables_step_row [OF assms]) (auto simp: same_work_def)

lemma results_shrink:
  assumes "pool_inv t" and "\<not> is_complete a" and "map_has (pt_results (pool_step hash t (a, now))) i"
  shows "map_has (pt_results t) i"
proof (cases "\<exists>lease wid rerun. a = Reopen lease wid rerun")
  case True
  then obtain lease wid rerun where a: "a = Reopen lease wid rerun" by blast
  show ?thesis
  proof (cases "reopenCompleted t lease wid rerun now")
    case (Inr y)
    then have "pt_results (snd y) = pt_results t \<or> pt_results (snd y) = map_delete (pt_results t) wid"
      by (auto simp: reopenCompleted_def try_bind_Inr Let_def split: option.splits if_splits)
    then show ?thesis using assms(3) a Inr by (cases y) (auto simp: map_has_get split: if_splits)
  qed (use assms(3) a in simp)
next
  case False
  then have "pt_results (pool_step hash t (a, now)) = pt_results t"
    using assms(1,2) by (intro results_frame) auto
  then show ?thesis using assms(3) by simp
qed

text \<open>A transaction that answers one operation, or holds it, and leaves the work items as they are.\<close>

lemma same_queue_inv: "same_queue t t' \<Longrightarrow> pool_inv t' = pool_inv t"
  by (simp add: same_queue_def pool_inv_def row_view_def)

lemma same_queue_root: "same_queue (cs_tables cs) (cs_tables cs') \<Longrightarrow> of_root cs' run row = of_root cs run row"
  by (simp add: same_queue_def of_root_def)

lemma outbox_ok_same:
  assumes "outbox_ok requests cs" and "same_queue (cs_tables cs) (cs_tables cs')"
    and "distinct (map ob_key (cs_outbox cs'))"
    and "\<And>row. row \<in> set (cs_outbox cs') \<Longrightarrow> row \<in> set (cs_outbox cs) \<or>
      (\<exists>run. row_request requests run row \<and> of_root cs run row) \<and> \<not> map_has (pt_results (cs_tables cs)) (ob_work row)"
  shows "outbox_ok requests cs'"
  using assms(1,3) assms(4) same_queue_inv [OF assms(2)] same_queue_root [OF assms(2)] assms(2)
  unfolding outbox_ok_def same_queue_def by (metis (no_types, lifting))

lemma commit_inv_commits:
  assumes inv: "commit_inv sha requests s" and out: "outbox_ok requests cs'"
    and ops: "\<And>op v. map_get (cs_operations cs') op = Some v \<Longrightarrow> map_get (cs_operations (sy_commits s)) op = Some v \<or>
      receipt_ok sha (sy_journal s) (requests op) (snd v)"
    and acc: "\<And>op. op \<in> sy_accepted s \<or> op \<in> new \<Longrightarrow> accepted_ok sha cs' (sy_journal s) op (requests op)"
  shows "commit_inv sha requests (s\<lparr>sy_commits := cs', sy_accepted := new \<union> sy_accepted s\<rparr>)"
  using inv out ops acc unfolding commit_inv_def by (auto dest!: ops)

lemma accepted_ok_more:
  assumes "accepted_ok sha cs j op q" and "ob_key ` set (cs_outbox cs) \<subseteq> ob_key ` set (cs_outbox cs')"
    and "\<And>op. map_has (cs_operations cs) op \<Longrightarrow> map_has (cs_operations cs') op"
  shows "accepted_ok sha cs' j op q"
  using assms(1,2) assms(3) [of op] by (cases q) auto

lemma current_no_result:
  assumes "pool_inv t" and "current t lease token False = Inr row"
  shows "\<not> map_has (pt_results t) (tk_id token)"
proof -
  note c = currentD [OF assms(2)]
  have "view_ok (row_view t row)" using assms(1) c(1) by (auto simp: pool_inv_def)
  then show ?thesis using c(2,7) by (simp add: row_view_def map_has_get)
qed

lemma current_of_root:
  assumes "current (cs_tables cs) lease token False = Inr row" and "ob_work b = tk_id token"
  shows "of_root cs (rl_runId lease) b"
  using currentD(1-3) [OF assms(1)] assms(2) by (auto simp: of_root_def list_ex_iff)

lemma commits_keep_inv:
  assumes inv: "commit_inv sha requests s"
    and st: "stage sha store (sy_commits s) lease token operationId m identity existing valid now wall = Inr (r, cs')"
    and rq: "requests (tk_id token, tk_generation token, operationId) = RecordCheckpoint (rl_runId lease) (cm_event_key m) (cm_payload m) identity"
    and ex: "case existing of None \<Rightarrow> True | Some e \<Rightarrow> recorded_as (sy_journal s) (rl_runId lease) (cm_event_key m) e"
  shows "commit_inv sha requests (s\<lparr>sy_commits := cs', sy_deliveries := started lease r @ sy_deliveries s,
    sy_accepted := insert (tk_id token, tk_generation token, operationId) (sy_accepted s)\<rparr>)"
proof -
  let ?cs = "sy_commits s" and ?j = "sy_journal s"
  let ?key = "(tk_id token, tk_generation token, operationId)"
  have out: "outbox_ok requests ?cs" and acc: "\<And>op. op \<in> sy_accepted s \<Longrightarrow> accepted_ok sha ?cs ?j op (requests op)"
    using inv by (auto simp: commit_inv_def)
  have rows: "\<exists>run. row_request requests run b \<and> of_root ?cs run b" if "b \<in> set (cs_outbox ?cs)" for b
    using out that by (auto simp: outbox_ok_def)
  have main: "commit_inv sha requests (s\<lparr>sy_commits := cs', sy_accepted := {?key} \<union> sy_accepted s\<rparr>) \<and>
    (\<forall>row. r = HeldRow row \<longrightarrow> row_request requests (rl_runId lease) row)"
    if cur: "current (cs_tables ?cs) lease token False = Inr row" and
      cases: "(\<exists>rc. r = Replayed rc) \<and> cs' = ?cs \<and> map_has (cs_operations ?cs) ?key \<or>
     (\<exists>held. r = HeldRow held \<and> held \<in> set (cs_outbox ?cs) \<and> ob_key held = ?key \<and> cs' = ?cs) \<or>
     (\<exists>e rc. existing = Some e \<and> r = Replayed rc \<and> \<not> map_has (cs_operations ?cs) ?key \<and>
        isRecordedCheckpointValue sha (payload_of e) (cm_payload m) \<and> rc_seq rc = Some (je_seq e) \<and> rc_at rc = je_at e \<and>
        same_queue (cs_tables ?cs) (cs_tables cs') \<and> cs_outbox cs' = cs_outbox ?cs \<and>
        cs_operations cs' = map_set (cs_operations ?cs) ?key (identity, rc)) \<or>
     (\<exists>entry. r = HeldRow entry \<and> ob_key entry = ?key \<and> ob_request entry = identity \<and> ob_event_key entry = cm_event_key m \<and>
        ob_payload entry = cm_payload m \<and> (\<forall>b \<in> set (cs_outbox ?cs). ob_key b \<noteq> ?key) \<and> \<not> map_has (cs_operations ?cs) ?key \<and>
        same_queue (cs_tables ?cs) (cs_tables cs') \<and> cs_outbox cs' = cs_outbox ?cs @ [entry] \<and> cs_operations cs' = cs_operations ?cs)" for row
    using cases
  proof (elim disjE exE conjE)
    fix rc assume "r = Replayed rc" and "cs' = ?cs" and "map_has (cs_operations ?cs) ?key"
    moreover from this have "commit_inv sha requests (s\<lparr>sy_commits := cs', sy_accepted := {?key} \<union> sy_accepted s\<rparr>)"
      using out acc rq by (intro commit_inv_commits [OF inv]) auto
    ultimately show ?thesis by simp
  next
    fix held assume h: "r = HeldRow held" "held \<in> set (cs_outbox ?cs)" "ob_key held = ?key" "cs' = ?cs"
    then have "row_request requests (rl_runId lease) held" using rows [OF h(2)] rq by (auto simp: row_request_def)
    moreover from h have "commit_inv sha requests (s\<lparr>sy_commits := cs', sy_accepted := {?key} \<union> sy_accepted s\<rparr>)"
      using out acc rq by (intro commit_inv_commits [OF inv]) force+
    ultimately show ?thesis using h(1) by simp
  next
    fix e rc
    assume e: "existing = Some e" "r = Replayed rc" "isRecordedCheckpointValue sha (payload_of e) (cm_payload m)"
      "rc_seq rc = Some (je_seq e)" "rc_at rc = je_at e" and q: "same_queue (cs_tables ?cs) (cs_tables cs')"
      and o': "cs_outbox cs' = cs_outbox ?cs" and ops: "cs_operations cs' = map_set (cs_operations ?cs) ?key (identity, rc)"
    have rcok: "receipt_ok sha ?j (requests ?key) rc" using e ex rq by (auto simp: named_by_def)
    have out': "outbox_ok requests cs'" by (rule outbox_ok_same [OF out q]) (use out o' in \<open>auto simp: outbox_ok_def\<close>)
    have "accepted_ok sha cs' ?j op (requests op)" if "op \<in> sy_accepted s \<or> op \<in> {?key}" for op
      using that acc [of op] rq by (auto simp: ops o' map_has_get intro: accepted_ok_more)
    then have "commit_inv sha requests (s\<lparr>sy_commits := cs', sy_accepted := {?key} \<union> sy_accepted s\<rparr>)"
      using rcok by (intro commit_inv_commits [OF inv out']) (auto simp: ops split: if_splits)
    then show ?thesis using e(2) by simp
  next
    fix b assume b: "r = HeldRow b" "ob_key b = ?key" "ob_request b = identity" "ob_event_key b = cm_event_key m" "ob_payload b = cm_payload m"
      and fresh: "\<forall>b \<in> set (cs_outbox ?cs). ob_key b \<noteq> ?key" and q: "same_queue (cs_tables ?cs) (cs_tables cs')"
      and o': "cs_outbox cs' = cs_outbox ?cs @ [b]" and ops: "cs_operations cs' = cs_operations ?cs"
    have rq': "row_request requests (rl_runId lease) b" using b rq by (simp add: row_request_def)
    have w: "ob_work b = tk_id token" using b(2) by (simp add: ob_key_def)
    have pi: "pool_inv (cs_tables ?cs)" using out by (simp add: outbox_ok_def)
    have out': "outbox_ok requests cs'"
    proof (rule outbox_ok_same [OF out q])
      show "distinct (map ob_key (cs_outbox cs'))" using out o' fresh b(2) by (auto simp: outbox_ok_def)
      fix row assume "row \<in> set (cs_outbox cs')"
      then show "row \<in> set (cs_outbox ?cs) \<or> (\<exists>run. row_request requests run row \<and> of_root ?cs run row) \<and> \<not> map_has (pt_results (cs_tables ?cs)) (ob_work row)"
        using o' rq' current_of_root [OF cur w] current_no_result [OF pi cur] w by auto
    qed
    have "accepted_ok sha cs' ?j op (requests op)" if "op \<in> sy_accepted s \<or> op \<in> {?key}" for op
      using that acc [of op] rq b(2) by (auto simp: ops o' intro: accepted_ok_more)
    then have "commit_inv sha requests (s\<lparr>sy_commits := cs', sy_accepted := {?key} \<union> sy_accepted s\<rparr>)"
      by (intro commit_inv_commits [OF inv out']) (auto simp: ops)
    then show ?thesis using b(1) rq' by simp
  qed
  have both: "commit_inv sha requests (s\<lparr>sy_commits := cs', sy_accepted := {?key} \<union> sy_accepted s\<rparr>) \<and>
    (\<forall>row. r = HeldRow row \<longrightarrow> row_request requests (rl_runId lease) row)"
    by (rule stage_cases [OF st]) (erule main)
  have "commit_inv sha requests ((s\<lparr>sy_commits := cs', sy_accepted := {?key} \<union> sy_accepted s\<rparr>)\<lparr>sy_deliveries := started lease r @ sy_deliveries s\<rparr>)"
    by (rule commit_inv_deliveries) (use both in \<open>cases r; auto\<close>)+
  then show ?thesis by (simp add: commit_inv_def)
qed

lemma commit_append_cases:
  assumes "commit_append store cs lease token operationId sid entries expectSeq identity now = Inr (receipt, cs')"
  shows "cs' = cs \<or> (rc_seq receipt = None \<and> \<not> map_has (cs_operations cs) (tk_id token, tk_generation token, operationId) \<and>
    (\<exists>sessions. cs' = cs\<lparr>cs_sessions := sessions,
      cs_operations := map_set (cs_operations cs) (tk_id token, tk_generation token, operationId) (identity, receipt)\<rparr>))"
proof -
  let ?key = "(tk_id token, tk_generation token, operationId)"
  obtain status row previous where prior: "prior_receipt cs lease token operationId identity now = Inr (status, row, previous)"
    using assms by (auto simp: commit_append_def try_bind_Inr)
  show ?thesis
  proof (cases previous)
    case (Some rc)
    then show ?thesis using assms prior by (simp add: commit_append_def)
  next
    case None
    then have "\<not> map_has (cs_operations cs) ?key" using prior_receipt_Inr(2) [OF prior] by (simp add: map_has_get)
    then show ?thesis using assms prior None
      by (auto simp: commit_append_def appendPoolSession_def Let_def try_bind_Inr dest!: store_session_fields)
  qed
qed

lemma appends_session_keep_inv:
  assumes inv: "commit_inv sha requests s"
    and st: "commit_append store (sy_commits s) lease token operationId sid entries expectSeq identity now = Inr (receipt, cs')"
    and rq: "requests (tk_id token, tk_generation token, operationId) = AppendSession identity"
  shows "commit_inv sha requests (s\<lparr>sy_commits := cs'\<rparr>)"
proof -
  let ?key = "(tk_id token, tk_generation token, operationId)" and ?cs = "sy_commits s"
  have out: "outbox_ok requests ?cs" and acc: "\<And>op. op \<in> sy_accepted s \<Longrightarrow> accepted_ok sha ?cs (sy_journal s) op (requests op)"
    using inv by (auto simp: commit_inv_def)
  from commit_append_cases [OF st] show ?thesis
  proof (elim disjE conjE exE)
    fix sessions
    assume rc: "rc_seq receipt = None"
      and cs': "cs' = ?cs\<lparr>cs_sessions := sessions, cs_operations := map_set (cs_operations ?cs) ?key (identity, receipt)\<rparr>"
    have out': "outbox_ok requests cs'"
      by (rule outbox_ok_same [OF out]) (use out cs' in \<open>auto simp: same_queue_def outbox_ok_def\<close>)
    have "accepted_ok sha cs' (sy_journal s) op (requests op)" if "op \<in> sy_accepted s \<or> op \<in> {}" for op
      by (rule accepted_ok_more [OF acc]) (use that cs' in \<open>auto simp: map_has_get\<close>)
    then have "commit_inv sha requests (s\<lparr>sy_commits := cs', sy_accepted := {} \<union> sy_accepted s\<rparr>)"
      using rc rq by (intro commit_inv_commits [OF inv out']) (auto simp: cs' split: if_splits)
    then show ?thesis by simp
  qed (use inv in simp)
qed

text \<open>The last transaction of a delivery stores the receipt, or finds that another checkpoint has the key.\<close>

lemma finishes_keep_inv:
  assumes inv: "commit_inv sha requests s" and d: "delivery_ok requests (sy_journal s) (lease, row, Some outcome)"
    and fin: "deliver_finish sha (sy_commits s) row outcome = (r, cs')"
  shows "commit_inv sha requests (s\<lparr>sy_commits := cs'\<rparr>)"
proof -
  let ?cs = "sy_commits s" and ?j = "sy_journal s"
  obtain st e where o': "outcome = (st, e)" by force
  have rq: "requests (ob_key row) = RecordCheckpoint (rl_runId lease) (ob_event_key row) (ob_payload row) (ob_request row)"
    and rec: "recorded_as ?j (rl_runId lease) (ob_event_key row) e" and new: "st = Appended \<Longrightarrow> payload_of e = ob_payload row"
    using d by (auto simp: o' row_request_def)
  have out: "outbox_ok requests ?cs" and acc: "\<And>op. op \<in> sy_accepted s \<Longrightarrow> accepted_ok sha ?cs ?j op (requests op)"
    using inv by (auto simp: commit_inv_def)
  have q: "same_queue (cs_tables ?cs) (cs_tables cs')" and sub: "cs_outbox cs' = filter (\<lambda>b. ob_key b \<noteq> ob_key row) (cs_outbox ?cs)"
    using fin by (auto simp: o' deliver_finish_def forget_def same_queue_def Let_def split: if_splits)
  have out': "outbox_ok requests cs'"
    by (rule outbox_ok_same [OF out q]) (use out in \<open>auto simp: sub outbox_ok_def distinct_map_filter\<close>)
  let ?conflict = "st = Exists \<and> \<not> isRecordedCheckpointValue sha (payload_of e) (ob_payload row)"
  have grows: "map_has (cs_operations ?cs) op \<Longrightarrow> map_has (cs_operations cs') op" for op
    using fin by (auto simp: o' deliver_finish_def forget_def Let_def map_has_get split: if_splits)
  have settled: "accepted_ok sha cs' ?j (ob_key row) (requests (ob_key row))"
  proof (cases ?conflict)
    case True
    then show ?thesis using rec by (auto simp: rq conflicting_def)
  next
    case False
    then have "map_has (cs_operations cs') (ob_key row)"
      using fin by (auto simp: o' deliver_finish_def forget_def Let_def map_has_get split: if_splits)
    then show ?thesis by (simp add: rq)
  qed
  have acc': "accepted_ok sha cs' ?j op (requests op)" if "op \<in> sy_accepted s \<or> op \<in> {}" for op
  proof (cases "op = ob_key row")
    case False
    then show ?thesis using acc [of op] that grows [of op] by (cases "requests op") (auto simp: sub)
  qed (use settled in simp)
  have ops: "map_get (cs_operations ?cs) op = Some v \<or> receipt_ok sha ?j (requests op) (snd v)"
    if get: "map_get (cs_operations cs') op = Some v" for op v
  proof (cases "cs_operations cs' = cs_operations ?cs")
    case False
    then have "\<not> ?conflict" and cs': "cs_operations cs' = map_set (cs_operations ?cs) (ob_key row) (ob_request row, receipt_of row e)"
      using fin by (auto simp: o' deliver_finish_def forget_def Let_def split: if_splits)
    then have "isRecordedCheckpointValue sha (payload_of e) (ob_payload row)" using new by (cases st) auto
    then have "named_by sha ?j (rl_runId lease) (ob_event_key row) (ob_payload row) (receipt_of row e)"
      using rec by (auto simp: named_by_def receipt_of_def)
    then show ?thesis using get rq by (auto simp: cs' split: if_splits)
  qed (use get in simp)
  from commit_inv_commits [OF inv out' ops acc', of "{}"] show ?thesis by simp
qed

lemma completes_keep_inv:
  assumes inv: "commit_inv sha requests s"
    and c: "complete_remote (sy_commits s) lease token result now = Inr (u, cs')"
  shows "commit_inv sha requests (s\<lparr>sy_commits := cs'\<rparr>)"
proof -
  let ?cs = "sy_commits s"
  have lift: "map_sum InPool (\<lambda>x. x) r = Inr y \<longleftrightarrow> r = Inr y" for r :: "pool_error + (unit \<times> pool_tables)" and y
    by (cases r) auto
  obtain t' where t': "complete (cs_tables ?cs) lease token result now = Inr ((), t')" "cs' = ?cs\<lparr>cs_tables := t'\<rparr>"
    and held: "map_has (pt_results (cs_tables ?cs)) (tk_id token) \<or> (\<forall>b \<in> set (cs_outbox ?cs). ob_work b \<noteq> tk_id token)"
    using c by (auto simp: complete_remote_def lift try_bind_Inr list_ex_iff)
  have pi: "pool_inv (cs_tables ?cs)" using inv by (auto simp: commit_inv_def outbox_ok_def)
  have step: "tables_step (\<lambda>_. False) (cs_tables ?cs) t'" by (rule complete_step [OF pi t'(1)])
  have "pt_results t' = pt_results (cs_tables ?cs) \<or> pt_results t' = map_set (pt_results (cs_tables ?cs)) (tk_id token) result"
    using t'(1) by (auto simp: complete_def try_bind_Inr split: if_splits)
  then show ?thesis unfolding t'(2)
    using held by (intro commit_inv_tables [OF inv tables_step_inv [OF step pi] step_keeps_work [OF step]]) (auto simp: map_has_get split: if_splits)
qed

lemma root_row_request:
  assumes out: "outbox_ok requests cs" and row: "row \<in> set (root_rows cs run)"
  shows "row_request requests run row"
proof -
  have r: "row \<in> set (cs_outbox cs)" "of_root cs run row" using row by (auto simp: root_rows_def)
  then obtain run' where "row_request requests run' row" "of_root cs run' row" using out by (auto simp: outbox_ok_def)
  moreover have "run' = run" if "of_root cs run' row" for run'
    using that r(2) out by (auto simp: of_root_def outbox_ok_def pool_inv_def list_ex_iff distinct_map inj_on_def)
  ultimately show ?thesis by blast
qed

lemma commit_step_inv:
  assumes "commit_step sha store hash requests s s'" and inv: "commit_inv sha requests s"
  shows "commit_inv sha requests s'"
  using assms(1)
proof cases
  case (commits lease token operationId m identity existing valid now wall r cs')
  then show ?thesis using commits_keep_inv [OF inv] by blast
next
  case (commits_append lease token operationId sid entries expectSeq identity now receipt cs')
  then show ?thesis using appends_session_keep_inv [OF inv] by blast
next
  case (drains row lease)
  have "row_request requests (rl_runId lease) row" using root_row_request drains(2) inv by (auto simp: commit_inv_def)
  then show ?thesis unfolding drains(1) by (intro commit_inv_deliveries [OF inv]) auto
next
  case (appends lease row now outcome j')
  have d: "delivery_ok requests (sy_journal s) (lease, row, None)" using inv appends(2) by (auto simp: commit_inv_def)
  have j: "journal_extends (sy_journal s) j'" "journal_inv j'"
    using appends(3) append_extends rl.ok_append inv by (cases outcome; auto simp: append_checkpoint_def commit_inv_def; fail)+
  have i: "commit_inv sha requests (s\<lparr>sy_journal := j'\<rparr>)" by (rule commit_inv_journal [OF inv j])
  have "delivery_ok requests j' (lease, row, Some outcome)" using d append_checkpoint_recorded appends(3) by (cases outcome) fastforce
  then have "commit_inv sha requests ((s\<lparr>sy_journal := j'\<rparr>)\<lparr>sy_deliveries := (lease, row, Some outcome) # remove1 (lease, row, None) (sy_deliveries s)\<rparr>)"
    using set_remove1_subset by (intro commit_inv_deliveries [OF i]) fastforce
  then show ?thesis unfolding appends(1) by simp
next
  case (finishes lease row outcome r cs')
  have "delivery_ok requests (sy_journal s) (lease, row, Some outcome)" using inv finishes(2) by (auto simp: commit_inv_def)
  note i = finishes_keep_inv [OF inv this finishes(3)]
  have "commit_inv sha requests ((s\<lparr>sy_commits := cs'\<rparr>)\<lparr>sy_deliveries := remove1 (lease, row, Some outcome) (sy_deliveries s)\<rparr>)"
    using set_remove1_subset by (intro commit_inv_deliveries [OF i]) fastforce
  then show ?thesis unfolding finishes(1) by simp
next
  case (gives_up d)
  then show ?thesis using set_remove1_subset by (metis commit_inv_deliveries [OF inv] subset_iff)
next
  case crashes
  then show ?thesis by (auto intro: commit_inv_deliveries [OF inv])
next
  case (completes lease token result now u cs')
  then show ?thesis using completes_keep_inv [OF inv] by blast
next
  case (queue_step a now)
  have pi: "pool_inv (cs_tables (sy_commits s))" using inv by (auto simp: commit_inv_def outbox_ok_def)
  note step = pool_step_life [OF pi, of a hash now]
  show ?thesis unfolding queue_step(1)
    using results_shrink [OF pi queue_step(2)] by (intro commit_inv_tables [OF inv tables_step_inv [OF step pi] step_keeps_work [OF step]]) blast+
next
  case (journal_moves b)
  have "journal_inv (journal_step (sy_journal s) b)" using inv by (simp add: commit_inv_def journal_inv_step)
  then show ?thesis unfolding journal_moves(1) by (rule commit_inv_journal [OF inv journal_grows [OF journal_moves(2)]])
qed

lemma commit_inv_new: "commit_inv sha requests (new_system sessions d)"
  by (simp add: commit_inv_def outbox_ok_def new_system_def journal_inv_new pool_history.inv_start)

lemma commit_inv_reachable:
  assumes "(commit_step sha store hash requests)\<^sup>*\<^sup>* (new_system sessions d) s"
  shows "commit_inv sha requests s"
  using assms by (induction rule: rtranclp_induct) (auto intro: commit_inv_new commit_step_inv)

section \<open>One delivery and one pass over the outbox\<close>

lemma three_steps: "r a b \<Longrightarrow> r b c \<Longrightarrow> r c d \<Longrightarrow> r\<^sup>*\<^sup>* a d"
  by (meson converse_rtranclp_into_rtranclp rtranclp.rtrancl_refl)

text \<open>A delivery, run without interruption, is a few steps of the system.\<close>

lemma deliver_steps:
  assumes "row \<in> set (root_rows (sy_commits s) (rl_runId lease))"
    and "deliver sha (sy_commits s) (sy_journal s) lease row now = (r, cs', j')"
  shows "(commit_step sha store hash requests)\<^sup>*\<^sup>* s (s\<lparr>sy_commits := cs', sy_journal := j'\<rparr>)"
proof -
  let ?step = "commit_step sha store hash requests"
  let ?s1 = "s\<lparr>sy_deliveries := (lease, row, None) # sy_deliveries s\<rparr>"
  have one: "?step s ?s1" using assms(1) by (rule commit_step.drains)
  show ?thesis
  proof (cases "append_checkpoint (sy_journal s) lease (ob_event_key row) (ob_payload row) now")
    case (Inl e)
    then have "s\<lparr>sy_commits := cs', sy_journal := j'\<rparr> = s" using assms(2) by (simp add: deliver_def)
    then show ?thesis by simp
  next
    case (Inr y)
    obtain outcome j1 where y: "y = (outcome, j1)" by (cases y)
    let ?s2 = "?s1\<lparr>sy_journal := j1, sy_deliveries := (lease, row, Some outcome) # remove1 (lease, row, None) (sy_deliveries ?s1)\<rparr>"
    have two: "?step ?s1 ?s2" by (rule commit_step.appends) (use Inr y in auto)
    obtain r' cs1 where f: "deliver_finish sha (sy_commits s) row outcome = (r', cs1)" by force
    let ?s3 = "?s2\<lparr>sy_commits := cs1, sy_deliveries := remove1 (lease, row, Some outcome) (sy_deliveries ?s2)\<rparr>"
    have three: "?step ?s2 ?s3" by (rule commit_step.finishes) (use f in auto)
    have "s\<lparr>sy_commits := cs', sy_journal := j'\<rparr> = ?s3" using assms(2) Inr y f by (simp add: deliver_def)
    moreover have "?step\<^sup>*\<^sup>* s ?s3"
      using one two three by (rule three_steps [where r = ?step])
    ultimately show ?thesis by (rule ssubst)
  qed
qed

lemma deliver_effect:
  assumes "deliver sha cs j lease row now = (r, cs', j')"
  shows "cs_tables cs' = cs_tables cs \<and>
    ((\<exists>e. r = Inl (InJournal e) \<and> append_checkpoint j lease (ob_event_key row) (ob_payload row) now = Inl e \<and> cs' = cs \<and> j' = j) \<or>
     (r = Inl CheckpointIdentityConflict \<or> (\<exists>rc. r = Inr rc)) \<and> cs_outbox cs' = filter (\<lambda>b. ob_key b \<noteq> ob_key row) (cs_outbox cs) \<and>
     (\<exists>outcome. append_checkpoint j lease (ob_event_key row) (ob_payload row) now = Inr (outcome, j')))"
  using assms by (auto simp: deliver_def deliver_finish_def forget_def Let_def split: sum.splits prod.splits if_splits)

text \<open>What a journal must be for it to take the held events of a root: open, holding the lease, with room and legible keys.\<close>

definition admits :: "memory_journal \<Rightarrow> root_lease \<Rightarrow> outbox_row list \<Rightarrow> bool" where
  "admits j lease rows \<longleftrightarrow> validateLease j (js_lease lease) = Inr () \<and> checkLease j (js_lease lease) = Inr () \<and>
    map_has (runs j) (js_of (rl_runId lease)) \<and> int (length (run_entries j (js_of (rl_runId lease))) + length rows) \<le> MAX_SAFE_INTEGER \<and>
    (\<forall>row \<in> set rows. validateText FKey (ob_event_key row) = Inr ())"

lemma append_admitted:
  assumes inv: "journal_inv j" and ad: "admits j lease (row # rows)"
  obtains outcome j' where "append_checkpoint j lease (ob_event_key row) (ob_payload row) now = Inr (outcome, j')" and "admits j' lease rows"
proof -
  let ?l = "js_lease lease" and ?k = "ob_event_key row"
  have v: "validateLease j ?l = Inr ()" "checkLease j ?l = Inr ()" "validateText FKey ?k = Inr ()" using ad by (auto simp: admits_def)
  have open_j: "\<not> closed j" using v(1) by (auto simp: validateLease_def ensureOpen_def try_bind_Inr)
  obtain run where run: "map_get (runs j) (l_runId ?l) = Some run" using ad by (auto simp: admits_def map_has_get js_lease_def)
  have es: "run_entries j (l_runId ?l) = mr_entries run" using run by (simp add: run_entries_def)
  have seq: "last_seq (mr_entries run) = int (length (mr_entries run))" using run_entries_seq [OF inv, of "l_runId ?l"] es by (simp add: last_seq_length)
  have room: "int (length (mr_entries run)) + 1 + int (length rows) \<le> MAX_SAFE_INTEGER" using ad es by (simp add: admits_def js_lease_def)
  have req: "requireRun j (l_runId ?l) = Inr run" using open_j run by (simp add: requireRun_Inr)
  show thesis
  proof (cases "find_key ?k (mr_entries run)")
    case (Some e)
    then have "append_checkpoint j lease ?k (ob_payload row) now = Inr ((Exists, e), j)" using v req by (simp add: append_checkpoint_def append_entry_def)
    moreover have "admits j lease rows" using ad by (simp add: admits_def)
    ultimately show thesis by (rule that)
  next
    case None
    let ?en = "appended_entry ?l (RunEvent CheckpointRecorded (ob_payload row)) (Some ?k) now run"
    let ?j = "j\<lparr>runs := map_set (runs j) (l_runId ?l) (appended_run ?l (RunEvent CheckpointRecorded (ob_payload row)) (Some ?k) now run)\<rparr>"
    have "append_checkpoint j lease ?k (ob_payload row) now = Inr ((Appended, ?en), ?j)"
      using v req None room seq
      by (simp add: append_checkpoint_def append_entry_def journalCounter_def appended_entry_def appended_run_def Let_def)
    moreover have "validateLease ?j ?l = Inr ()" "checkLease ?j ?l = Inr ()"
      using v by (simp_all add: validateLease_def ensureOpen_def checkLease_owner lease_owner_def)
    then have "admits ?j lease rows" using ad room
      by (auto simp: admits_def map_has_get js_lease_def run_entries_def appended_run_def)
    ultimately show thesis by (rule that)
  qed
qed

lemma root_rows_filter:
  "cs_tables cs' = cs_tables cs \<Longrightarrow> cs_outbox cs' = filter P (cs_outbox cs) \<Longrightarrow> root_rows cs' run = filter P (root_rows cs run)"
  by (simp add: root_rows_def of_root_def conj_commute)

lemma deliver_rows_steps:
  assumes "distinct (map ob_key rows)" and "set rows \<subseteq> set (root_rows (sy_commits s) (rl_runId lease))"
    and "deliver_rows sha lease now rows (sy_commits s) (sy_journal s) = (r, cs', j')"
  shows "(commit_step sha store hash requests)\<^sup>*\<^sup>* s (s\<lparr>sy_commits := cs', sy_journal := j'\<rparr>) \<and> cs_tables cs' = cs_tables (sy_commits s) \<and>
    (\<exists>P. cs_outbox cs' = filter P (cs_outbox (sy_commits s))) \<and>
    (r = Inr () \<longrightarrow> cs_outbox cs' = filter (\<lambda>b. ob_key b \<notin> ob_key ` set rows) (cs_outbox (sy_commits s)))"
  using assms
proof (induction rows arbitrary: s)
  case Nil
  then have "s\<lparr>sy_commits := cs', sy_journal := j'\<rparr> = s" by simp
  then show ?case using Nil by (auto intro: exI [of _ "\<lambda>_. True"])
next
  case (Cons row rows)
  obtain q cs1 j1 where d: "deliver sha (sy_commits s) (sy_journal s) lease row now = (q, cs1, j1)" by (metis prod_cases3)
  let ?s1 = "s\<lparr>sy_commits := cs1, sy_journal := j1\<rparr>"
  have steps: "(commit_step sha store hash requests)\<^sup>*\<^sup>* s ?s1" by (rule deliver_steps [OF _ d]) (use Cons.prems(2) in simp)
  note eff = deliver_effect [OF d]
  have part: "\<exists>P. cs_outbox cs1 = filter P (cs_outbox (sy_commits s))" using eff by (auto intro: exI [of _ "\<lambda>_. True"])
  show ?case
  proof (cases q)
    case (Inl e)
    then have "cs' = cs1" "j' = j1" "r = Inl e" using Cons.prems(3) d by simp_all
    then show ?thesis using steps part eff by simp
  next
    case (Inr rc)
    have o1: "cs_outbox cs1 = filter (\<lambda>b. ob_key b \<noteq> ob_key row) (cs_outbox (sy_commits s))" "cs_tables cs1 = cs_tables (sy_commits s)"
      using eff Inr by auto
    have "deliver_rows sha lease now rows (sy_commits ?s1) (sy_journal ?s1) = (r, cs', j')" using Cons.prems(3) d Inr by simp
    moreover have "set rows \<subseteq> set (root_rows (sy_commits ?s1) (rl_runId lease))"
      using Cons.prems(1,2) by (auto simp: root_rows_filter [OF o1(2,1)]) (metis image_eqI)
    ultimately have IH: "(commit_step sha store hash requests)\<^sup>*\<^sup>* ?s1 (?s1\<lparr>sy_commits := cs', sy_journal := j'\<rparr>) \<and> cs_tables cs' = cs_tables cs1 \<and>
      (\<exists>P. cs_outbox cs' = filter P (cs_outbox cs1)) \<and> (r = Inr () \<longrightarrow> cs_outbox cs' = filter (\<lambda>b. ob_key b \<notin> ob_key ` set rows) (cs_outbox cs1))"
      using Cons.IH [of ?s1] Cons.prems(1) by simp
    then have "(commit_step sha store hash requests)\<^sup>*\<^sup>* s (s\<lparr>sy_commits := cs', sy_journal := j'\<rparr>)"
      using rtranclp_trans [OF steps] by simp
    moreover have "\<exists>P. cs_outbox cs' = filter P (cs_outbox (sy_commits s))" using IH o1(1) by (metis filter_filter)
    moreover have "filter (\<lambda>b. ob_key b \<notin> ob_key ` set rows) (cs_outbox cs1) = filter (\<lambda>b. ob_key b \<notin> ob_key ` set (row # rows)) (cs_outbox (sy_commits s))"
      by (simp add: o1(1) conj_commute)
    ultimately show ?thesis using IH o1(2) by simp
  qed
qed

lemma deliverAll_effect:
  assumes inv: "commit_inv sha requests s" and d: "deliverAll sha lease now (sy_commits s) (sy_journal s) = (r, cs', j')"
  shows "commit_inv sha requests (s\<lparr>sy_commits := cs', sy_journal := j'\<rparr>)" and "cs_tables cs' = cs_tables (sy_commits s)"
    and "r = Inr n \<Longrightarrow> root_rows cs' (rl_runId lease) = []"
proof -
  let ?rows = "root_rows (sy_commits s) (rl_runId lease)"
  obtain q where dr: "deliver_rows sha lease now ?rows (sy_commits s) (sy_journal s) = (q, cs', j')" and q: "r = Inr n \<Longrightarrow> q = Inr ()" for n
    using d by (auto simp: deliverAll_def Let_def split: prod.splits sum.splits)
  have dist: "distinct (map ob_key ?rows)"
    using inv by (auto simp: commit_inv_def outbox_ok_def root_rows_def distinct_map_filter)
  note eff = deliver_rows_steps [OF dist order_refl dr, of undefined undefined requests]
  have "commit_inv sha requests s'" if "(commit_step sha store hash requests)\<^sup>*\<^sup>* s s'" for store hash s'
    using that by (induction rule: rtranclp_induct) (auto intro: inv commit_step_inv)
  then show "commit_inv sha requests (s\<lparr>sy_commits := cs', sy_journal := j'\<rparr>)" using eff by blast
  show t: "cs_tables cs' = cs_tables (sy_commits s)" using eff by blast
  show "root_rows cs' (rl_runId lease) = []" if "r = Inr n"
  proof -
    have "cs_outbox cs' = filter (\<lambda>b. ob_key b \<notin> ob_key ` set ?rows) (cs_outbox (sy_commits s))" using eff q [OF that] by blast
    then have "root_rows cs' (rl_runId lease) = filter (\<lambda>b. ob_key b \<notin> ob_key ` set ?rows) ?rows" by (rule root_rows_filter [OF t])
    then show ?thesis by simp
  qed
qed

text \<open>A pass over rows the journal takes ends with all of them delivered, or with one found to conflict and dropped.\<close>

text \<open>A row of the outbox is delivered when its operation has a receipt that names its event in the journal.\<close>

definition delivered :: "(json \<Rightarrow> string) \<Rightarrow> 's commit_state \<Rightarrow> memory_journal \<Rightarrow> string \<Rightarrow> outbox_row \<Rightarrow> bool" where
  "delivered sha cs j run row \<longleftrightarrow>
    (\<exists>identity rc. map_get (cs_operations cs) (ob_key row) = Some (identity, rc) \<and> named_by sha j run (ob_event_key row) (ob_payload row) rc)"

lemma delivered_mono:
  assumes "delivered sha cs j run row" and "journal_extends j j'"
    and "\<And>op v. map_get (cs_operations cs) op = Some v \<Longrightarrow> map_get (cs_operations cs') op = Some v"
  shows "delivered sha cs' j' run row"
  using assms(1) assms(3) named_mono [OF assms(2)] unfolding delivered_def by blast

lemma deliver_grows:
  assumes "deliver sha cs j lease row now = (r, cs', j')"
  shows "journal_extends j j'" and "map_get (cs_operations cs) op = Some v \<Longrightarrow> map_get (cs_operations cs') op = Some v"
proof -
  show "journal_extends j j'"
    using assms by (auto simp: deliver_def append_checkpoint_def split: sum.splits prod.splits dest: append_extends)
  show "map_get (cs_operations cs) op = Some v \<Longrightarrow> map_get (cs_operations cs') op = Some v"
    using assms by (cases v) (auto simp: deliver_def deliver_finish_def forget_def Let_def map_has_get split: sum.splits prod.splits if_splits)
qed

lemma deliver_result:
  assumes inv: "commit_inv sha requests s" and row: "row \<in> set (root_rows (sy_commits s) (rl_runId lease))"
    and a: "append_checkpoint (sy_journal s) lease (ob_event_key row) (ob_payload row) now = Inr (outcome, j')"
    and f: "deliver_finish sha (sy_commits s) row outcome = (q, cs')"
  shows "commit_inv sha requests (s\<lparr>sy_commits := cs', sy_journal := j'\<rparr>)"
    and "q = Inl CheckpointIdentityConflict \<and> conflicting sha j' (rl_runId lease) (ob_event_key row) (ob_payload row) \<or>
      (\<exists>rc. q = Inr rc) \<and> delivered sha cs' j' (rl_runId lease) row"
proof -
  let ?s = "s\<lparr>sy_commits := cs', sy_journal := j'\<rparr>"
  have "deliver sha (sy_commits s) (sy_journal s) lease row now = (q, cs', j')" using a f by (simp add: deliver_def)
  note steps = deliver_steps [OF row this, of undefined undefined requests]
  have "commit_inv sha requests s'" if "(commit_step sha undefined undefined requests)\<^sup>*\<^sup>* s s'" for s'
    using that by (induction rule: rtranclp_induct) (auto intro: inv commit_step_inv)
  then show inv': "commit_inv sha requests ?s" using steps by blast
  have rq: "row_request requests (rl_runId lease) row" using root_row_request [OF _ row] inv by (auto simp: commit_inv_def)
  obtain st e where o': "outcome = (st, e)" by force
  have rec: "recorded_as j' (rl_runId lease) (ob_event_key row) e" using append_checkpoint_recorded a unfolding o' by blast
  show "q = Inl CheckpointIdentityConflict \<and> conflicting sha j' (rl_runId lease) (ob_event_key row) (ob_payload row) \<or>
      (\<exists>rc. q = Inr rc) \<and> delivered sha cs' j' (rl_runId lease) row"
  proof (cases "st = Exists \<and> \<not> isRecordedCheckpointValue sha (payload_of e) (ob_payload row)")
    case True
    then show ?thesis using f rec by (auto simp: o' deliver_finish_def conflicting_def)
  next
    case False
    then have q: "\<exists>rc. q = Inr rc" "map_has (cs_operations cs') (ob_key row)"
      using f by (auto simp: o' deliver_finish_def forget_def Let_def map_has_get split: if_splits)
    then obtain v where v: "map_get (cs_operations cs') (ob_key row) = Some v" by (auto simp: map_has_get)
    have "map_get (cs_operations (sy_commits ?s)) op = Some v \<Longrightarrow> receipt_ok sha (sy_journal ?s) (requests op) (snd v)" for op v
      using inv' unfolding commit_inv_def by blast
    from this [of "ob_key row" v] have "receipt_ok sha j' (requests (ob_key row)) (snd v)" using v by simp
    then show ?thesis using q(1) v rq by (cases v) (auto simp: delivered_def row_request_def)
  qed
qed

text \<open>
  A pass delivers the rows in order. It ends with none held, or at a row whose key the journal has for another checkpoint:
  that row is dropped and those behind it stay held.
\<close>

fun pass_result ::
  "(json \<Rightarrow> string) \<Rightarrow> 's commit_state \<Rightarrow> memory_journal \<Rightarrow> string \<Rightarrow> outbox_row list \<Rightarrow> commit_error + 'x \<Rightarrow> bool" where
  "pass_result sha cs' j' run rows (Inr _) \<longleftrightarrow> root_rows cs' run = [] \<and> (\<forall>row \<in> set rows. delivered sha cs' j' run row)"
| "pass_result sha cs' j' run rows (Inl e) \<longleftrightarrow> e = CheckpointIdentityConflict \<and>
    (\<exists>before row. rows = before @ row # root_rows cs' run \<and> (\<forall>b \<in> set before. delivered sha cs' j' run b) \<and>
      conflicting sha j' run (ob_event_key row) (ob_payload row))"

lemma pass_result_Cons:
  assumes "pass_result sha cs' j' run rows r" and "delivered sha cs' j' run row"
  shows "pass_result sha cs' j' run (row # rows) r"
proof (cases r)
  case (Inl e)
  then obtain before x where "rows = before @ x # root_rows cs' run" "\<forall>b \<in> set before. delivered sha cs' j' run b"
    "conflicting sha j' run (ob_event_key x) (ob_payload x)" "e = CheckpointIdentityConflict" using assms(1) by auto
  then show ?thesis using assms(2) Inl
    by (auto intro!: exI [of _ "row # before"] exI [of _ x])
qed (use assms in simp)

lemma deliver_rows_progress:
  assumes "commit_inv sha requests s" and "admits (sy_journal s) lease rows" and "root_rows (sy_commits s) (rl_runId lease) = rows"
  shows "\<exists>r cs' j'. deliver_rows sha lease now rows (sy_commits s) (sy_journal s) = (r, cs', j') \<and> journal_extends (sy_journal s) j' \<and>
    (\<forall>op v. map_get (cs_operations (sy_commits s)) op = Some v \<longrightarrow> map_get (cs_operations cs') op = Some v) \<and>
    pass_result sha cs' j' (rl_runId lease) rows r"
  using assms
proof (induction rows arbitrary: s)
  case (Cons row rows)
  let ?run = "rl_runId lease"
  have row: "row \<in> set (root_rows (sy_commits s) ?run)" using Cons.prems(3) by simp
  have dist: "distinct (map ob_key (row # rows))"
    using Cons.prems(1,3) by (auto simp: commit_inv_def outbox_ok_def root_rows_def distinct_map_filter simp flip: Cons.prems(3))
  have "journal_inv (sy_journal s)" using Cons.prems(1) by (simp add: commit_inv_def)
  then obtain outcome j1 where a: "append_checkpoint (sy_journal s) lease (ob_event_key row) (ob_payload row) now = Inr (outcome, j1)"
    and ad: "admits j1 lease rows" using append_admitted [OF _ Cons.prems(2)] by blast
  obtain q cs1 where f: "deliver_finish sha (sy_commits s) row outcome = (q, cs1)" by force
  have d: "deliver sha (sy_commits s) (sy_journal s) lease row now = (q, cs1, j1)" using a f by (simp add: deliver_def)
  note res = deliver_result [OF Cons.prems(1) row a f] and grows = deliver_grows [OF d]
  have "root_rows cs1 ?run = filter (\<lambda>b. ob_key b \<noteq> ob_key row) (root_rows (sy_commits s) ?run)"
    using deliver_effect [OF d] a by (intro root_rows_filter) auto
  also have "\<dots> = rows" unfolding Cons.prems(3) using dist by (auto simp: filter_id_conv) (metis image_eqI)
  finally have rr: "root_rows cs1 ?run = rows" .
  show ?case
  proof (cases q)
    case (Inl e)
    then have "pass_result sha cs1 j1 ?run (row # rows) (Inl e :: commit_error + unit)" using res(2) rr by (auto intro: exI [of _ "[]"])
    then show ?thesis using d Inl grows by auto
  next
    case (Inr rc)
    let ?s1 = "s\<lparr>sy_commits := cs1, sy_journal := j1\<rparr>"
    obtain r cs' j' where r: "deliver_rows sha lease now rows cs1 j1 = (r, cs', j')" "journal_extends j1 j'"
      "\<And>op v. map_get (cs_operations cs1) op = Some v \<Longrightarrow> map_get (cs_operations cs') op = Some v" "pass_result sha cs' j' ?run rows r"
      using Cons.IH [OF res(1)] ad rr by auto
    have "delivered sha cs1 j1 ?run row" using res(2) Inr by blast
    then have "delivered sha cs' j' ?run row" by (rule delivered_mono [OF _ r(2,3)])
    then have "pass_result sha cs' j' ?run (row # rows) r" by (rule pass_result_Cons [OF r(4)])
    moreover have "deliver_rows sha lease now (row # rows) (sy_commits s) (sy_journal s) = (r, cs', j')" using d Inr r(1) by simp
    moreover have "journal_extends (sy_journal s) j'" using grows(1) r(2) by (auto simp: journal_extends_def)
    ultimately show ?thesis using grows(2) r(3) by blast
  qed
qed auto

lemma accepted_settled:
  assumes inv: "commit_inv sha requests s" and op: "op \<in> sy_accepted s" and rq: "requests op = RecordCheckpoint run key payload identity"
    and none: "op \<notin> ob_key ` set (cs_outbox (sy_commits s))"
  shows "(\<exists>v. map_get (cs_operations (sy_commits s)) op = Some v \<and> named_by sha (sy_journal s) run key payload (snd v)) \<or>
    conflicting sha (sy_journal s) run key payload"
proof -
  have "accepted_ok sha (sy_commits s) (sy_journal s) op (requests op)"
    and rc: "map_get (cs_operations (sy_commits s)) op = Some v \<Longrightarrow> receipt_ok sha (sy_journal s) (requests op) (snd v)" for v
    using inv op unfolding commit_inv_def by blast+
  then have "map_has (cs_operations (sy_commits s)) op \<or> conflicting sha (sy_journal s) run key payload" using none rq by auto
  then show ?thesis
  proof
    assume "map_has (cs_operations (sy_commits s)) op"
    then obtain v where "map_get (cs_operations (sy_commits s)) op = Some v" by (auto simp only: map_has_get not_None_eq)
    then show ?thesis using rc [of v] rq by auto
  qed blast
qed

lemma accepted_outbox_root:
  assumes inv: "commit_inv sha requests s" and rq: "requests op = RecordCheckpoint run key payload identity"
    and held: "op \<in> ob_key ` set (cs_outbox (sy_commits s))"
  shows "op \<in> ob_key ` set (root_rows (sy_commits s) run)"
proof -
  obtain b where b: "b \<in> set (cs_outbox (sy_commits s))" "op = ob_key b" using held by blast
  then obtain run' where "row_request requests run' b" "of_root (sy_commits s) run' b" using inv by (auto simp: commit_inv_def outbox_ok_def)
  then show ?thesis using b rq by (auto simp: row_request_def root_rows_def)
qed

section \<open>A small system\<close>

text \<open>A root with one child under way, whose worker commits a checkpoint; then the process stops.\<close>

fun sample_sha :: "json \<Rightarrow> string" where
  "sample_sha (JStr s) = s"
| "sample_sha _ = ''other''"

definition sample_store :: "unit session_store" where
  "sample_store s w = None"

definition sample_requests :: "op_key \<Rightarrow> request" where
  "sample_requests op = RecordCheckpoint ''r'' [107] (JStr ''p'') ''q''"

definition sample_mutation :: checkpoint_mutation where
  "sample_mutation = \<lparr>cm_session = NoSession, cm_sessionId = None, cm_sessionFile = False, cm_replayKey = ''s:1'', cm_completedAt = 5,
    cm_event_key = [107], cm_payload = JStr ''p'', cm_billed = Some (''stage:c:1'', [3, 4])\<rparr>"

definition sample_held :: outbox_row where
  "sample_held = \<lparr>ob_work = ''u'', ob_generation = 1, ob_operation = ''k'', ob_request = ''q'', ob_event_key = [107],
    ob_payload = JStr ''p'', ob_last_seq = None\<rparr>"

definition sample_commits :: "unit commit_state" where
  "sample_commits = \<lparr>cs_tables = sample_tables, cs_operations = [], cs_outbox = [], cs_usage = [], cs_sessions = ()\<rparr>"

definition sample_staged :: "unit commit_state" where
  "sample_staged = sample_commits\<lparr>cs_outbox := [sample_held], cs_usage := [((''u'', 1, ''stage:c:1''), [3, 4])]\<rparr>"

definition sample_log :: "journal_entry list \<Rightarrow> memory_journal" where
  "sample_log es = \<lparr>runs = [([114], \<lparr>mr_header = sample_header, mr_entries = es\<rparr>)],
    leases = [([114], \<lparr>lr_holderId = Some [104], lr_epoch = 1, lr_renewedAt = 5\<rparr>)], closed = False, storage = None\<rparr>"

definition sample_event :: "int \<Rightarrow> journal_entry" where
  "sample_event now = \<lparr>je_runId = [114], je_seq = 1, je_epoch = 1, je_key = Some [107], je_event = RunEvent CheckpointRecorded (JStr ''p''), je_at = now\<rparr>"

definition sample_system :: "unit commit_state \<Rightarrow> journal_entry list \<Rightarrow> unit commit_system" where
  "sample_system cs es = \<lparr>sy_commits = cs, sy_journal = sample_log es, sy_deliveries = [], sy_accepted = {(''u'', 1, ''k'')}\<rparr>"

abbreviation sample_step :: "unit commit_system \<Rightarrow> unit commit_system \<Rightarrow> bool" where
  "sample_step \<equiv> commit_step sample_sha sample_store sample_hash sample_requests"

lemma queue_steps:
  assumes "\<And>a now. (a, now) \<in> set history \<Longrightarrow> \<not> is_complete a"
  shows "(commit_step sha store hash requests)\<^sup>*\<^sup>* s
    (s\<lparr>sy_commits := (sy_commits s)\<lparr>cs_tables := foldl (pool_step hash) (cs_tables (sy_commits s)) history\<rparr>\<rparr>)"
  using assms
proof (induction history rule: rev_induct)
  case (snoc x history)
  obtain a now where x: "x = (a, now)" by force
  let ?s = "s\<lparr>sy_commits := (sy_commits s)\<lparr>cs_tables := foldl (pool_step hash) (cs_tables (sy_commits s)) history\<rparr>\<rparr>"
  have "commit_step sha store hash requests ?s (?s\<lparr>sy_commits := (sy_commits ?s)\<lparr>cs_tables := pool_step hash (cs_tables (sy_commits ?s)) (a, now)\<rparr>\<rparr>)"
    by (rule commit_step.queue_step) (use snoc.prems x in auto)
  moreover have "(commit_step sha store hash requests)\<^sup>*\<^sup>* s ?s" using snoc by auto
  ultimately show ?case by (simp add: x)
qed simp

lemma sample_js: "js_of ''r'' = [114]" "js_of ''h'' = [104]"
  by (simp_all add: js_of_def)

lemma sample_log_run: "journal_step (journal_step (new_journal None) (CreateRun sample_header)) (Acquire [114] [104] 5) = sample_log []"
  by (simp add: journal_eval sample_header_def sample_log_def)

lemma sample_stage:
  "stage sample_sha sample_store sample_commits sample_lease sample_token ''k'' sample_mutation ''q'' None True 5 5
    = Inr (HeldRow sample_held, sample_staged)"
proof -
  have "current_here sample_tables sample_lease sample_token False 5 = Inr (''running'', sample_row)"
    by (simp add: current_here_def current_def work_of_def sample_tables_def sample_row_def sample_token_def sample_root)
  moreover have "check_text FKey ''k'' = Inr ()" by (simp add: check_text_plain)
  ultimately show ?thesis using sample_lease_checked
    by (simp add: stage_def prior_receipt_def attempt_may_write_def accept_checkpoint_def applyPoolSession_def upsertPoolUsage_def
        sample_commits_def sample_staged_def sample_mutation_def sample_held_def sample_row_def sample_token_def admitsAttemptWrites_def
        MAX_WORKER_CLOCK_SKEW_MS_def map_get_def Let_def map_set_fresh)
qed

lemma sample_reached: "sample_step\<^sup>*\<^sup>* (new_system () None) (sample_system sample_staged [])"
proof -
  let ?s0 = "new_system () None :: unit commit_system"
  let ?s1 = "?s0\<lparr>sy_journal := journal_step (new_journal None) (CreateRun sample_header)\<rparr>"
  let ?s2 = "?s0\<lparr>sy_journal := sample_log []\<rparr>"
  let ?s3 = "\<lparr>sy_commits = sample_commits, sy_journal = sample_log [], sy_deliveries = [], sy_accepted = {}\<rparr>"
  let ?s4 = "\<lparr>sy_commits = sample_staged, sy_journal = sample_log [], sy_deliveries = [(sample_lease, sample_held, None)],
    sy_accepted = {(''u'', 1, ''k'')}\<rparr>"
  have one: "sample_step ?s0 ?s1"
    using commit_step.journal_moves [of "CreateRun sample_header" sample_sha sample_store sample_hash sample_requests ?s0]
    by (simp add: new_system_def)
  have two: "sample_step ?s1 ?s2"
    using commit_step.journal_moves [of "Acquire [114] [104] 5" sample_sha sample_store sample_hash sample_requests ?s1] sample_log_run by simp
  have "?s2\<lparr>sy_commits := (sy_commits ?s2)\<lparr>cs_tables := foldl (pool_step sample_hash) (cs_tables (sy_commits ?s2)) sample_history\<rparr>\<rparr> = ?s3"
    using sample_run by (simp add: new_system_def sample_commits_def)
  moreover have "sample_step\<^sup>*\<^sup>* ?s2
    (?s2\<lparr>sy_commits := (sy_commits ?s2)\<lparr>cs_tables := foldl (pool_step sample_hash) (cs_tables (sy_commits ?s2)) sample_history\<rparr>\<rparr>)"
    by (rule queue_steps) (auto simp: sample_history_def sample_journal_def)
  ultimately have three: "sample_step\<^sup>*\<^sup>* ?s2 ?s3" by (rule subst)
  have four: "sample_step ?s3 ?s4"
    using commit_step.commits [of sample_sha sample_store ?s3 sample_lease sample_token "''k''" sample_mutation "''q''" None True 5 5
        "HeldRow sample_held" sample_staged sample_requests sample_hash] sample_stage
    by (simp add: sample_requests_def sample_token_def sample_lease_def sample_mutation_def)
  have five: "sample_step ?s4 (sample_system sample_staged [])"
    using commit_step.crashes [of sample_sha sample_store sample_hash sample_requests ?s4] by (simp add: sample_system_def)
  have "sample_step\<^sup>*\<^sup>* ?s1 ?s3" using two three by (rule converse_rtranclp_into_rtranclp [where r = sample_step])
  with one have "sample_step\<^sup>*\<^sup>* ?s0 ?s3" by (rule converse_rtranclp_into_rtranclp [where r = sample_step])
  then have "sample_step\<^sup>*\<^sup>* ?s0 ?s4" using four by (rule rtranclp.rtrancl_into_rtrancl)
  then show ?thesis using five by (rule rtranclp.rtrancl_into_rtrancl)
qed

text \<open>The held event reaches the journal, and its operation its receipt.\<close>

definition sample_delivered :: "int \<Rightarrow> unit commit_state" where
  "sample_delivered now = sample_staged\<lparr>cs_outbox := [],
    cs_operations := [((''u'', 1, ''k''), (''q'', \<lparr>rc_seq = Some 1, rc_at = now, rc_lastSeq = None\<rparr>))]\<rparr>"

lemma sample_root_rows: "root_rows (sample_staged\<lparr>cs_tables := t\<rparr>) ''r'' = (if list_ex (\<lambda>w. w_id w = ''u'' \<and> w_root w = ''r'') (pt_work t) then [sample_held] else [])"
  by (simp add: root_rows_def of_root_def sample_staged_def sample_commits_def sample_held_def)

lemma sample_append: "append_checkpoint (sample_log []) sample_lease [107] (JStr ''p'') now = Inr ((Appended, sample_event now), sample_log [sample_event now])"
  by (simp add: append_checkpoint_def js_lease_def sample_lease_def sample_js sample_log_def sample_header_def sample_event_def journal_eval)

lemma sample_deliver:
  "deliver sample_sha (sample_staged\<lparr>cs_tables := t\<rparr>) (sample_log []) sample_lease sample_held now =
    (Inr \<lparr>rc_seq = Some 1, rc_at = now, rc_lastSeq = None\<rparr>, (sample_delivered now)\<lparr>cs_tables := t\<rparr>, sample_log [sample_event now])"
  using sample_append [of now]
  by (simp add: deliver_def deliver_finish_def forget_def receipt_of_def sample_delivered_def sample_staged_def sample_commits_def
      sample_held_def sample_event_def ob_key_def map_has_def map_set_fresh Let_def)

lemma sample_staged_tables: "sample_staged\<lparr>cs_tables := sample_tables\<rparr> = sample_staged"
  by (simp add: sample_staged_def sample_commits_def)

lemma sample_staged_rows: "root_rows sample_staged ''r'' = [sample_held]"
  by (simp add: root_rows_def of_root_def sample_staged_def sample_commits_def sample_held_def sample_tables_def sample_row_def)

lemma sample_delivered_reached: "sample_step\<^sup>*\<^sup>* (new_system () None) (sample_system (sample_delivered 5) [sample_event 5])"
proof -
  have "sample_held \<in> set (root_rows (sy_commits (sample_system sample_staged [])) (rl_runId sample_lease))"
    by (simp add: sample_system_def sample_lease_def sample_staged_rows)
  moreover have "deliver sample_sha (sy_commits (sample_system sample_staged [])) (sy_journal (sample_system sample_staged [])) sample_lease sample_held 5 =
      (Inr \<lparr>rc_seq = Some 1, rc_at = 5, rc_lastSeq = None\<rparr>, sample_delivered 5, sample_log [sample_event 5])"
    using sample_deliver [of sample_tables 5] by (simp add: sample_staged_tables sample_system_def sample_delivered_def sample_staged_def sample_commits_def)
  ultimately have "sample_step\<^sup>*\<^sup>* (sample_system sample_staged [])
    ((sample_system sample_staged [])\<lparr>sy_commits := sample_delivered 5, sy_journal := sample_log [sample_event 5]\<rparr>)" by (rule deliver_steps)
  then show ?thesis using rtranclp_trans [OF sample_reached] by (simp add: sample_system_def)
qed

section \<open>Theorems\<close>

definition settled :: "(json \<Rightarrow> string) \<Rightarrow> 's commit_state \<Rightarrow> memory_journal \<Rightarrow> op_key \<Rightarrow> string \<Rightarrow> js_text \<Rightarrow> json \<Rightarrow> bool" where
  "settled sha cs j op run key payload \<longleftrightarrow>
    (\<exists>identity rc. map_get (cs_operations cs) op = Some (identity, rc) \<and> named_by sha j run key payload rc) \<or> conflicting sha j run key payload"

lemma settledI:
  assumes "commit_inv sha requests s" and "op \<in> sy_accepted s" and "requests op = RecordCheckpoint run key payload identity"
    and "op \<notin> ob_key ` set (cs_outbox (sy_commits s))"
  shows "settled sha (sy_commits s) (sy_journal s) op run key payload"
  using accepted_settled [OF assms] by (auto simp: settled_def)

text \<open>
  C20. A checkpoint commit that was accepted is never lost: in every state reached by any interleaving of commits, deliveries,
  lost replies, stops of the process and the other operations of the queue and the journal, its event is still held for
  delivery to the run's journal, or the operation has a receipt that names the event the journal holds under the
  checkpoint's key, equal to it up to times, or the journal holds a different checkpoint under that key. The run is not
  deleted meanwhile, and a retried operation repeats its request.
\<close>

theorem accepted_commit_never_lost:
  assumes "(commit_step sha store hash requests)\<^sup>*\<^sup>* (new_system sessions d) s" and "op \<in> sy_accepted s"
  shows "\<exists>run key payload identity. requests op = RecordCheckpoint run key payload identity \<and>
    (op \<in> ob_key ` set (root_rows (sy_commits s) run) \<or> settled sha (sy_commits s) (sy_journal s) op run key payload)"
proof -
  have inv: "commit_inv sha requests s" by (rule commit_inv_reachable [OF assms(1)])
  then have "accepted_ok sha (sy_commits s) (sy_journal s) op (requests op)" using assms(2) unfolding commit_inv_def by blast
  then obtain run key payload identity where rq: "requests op = RecordCheckpoint run key payload identity" by (cases "requests op") auto
  show ?thesis using rq accepted_outbox_root [OF inv rq] settledI [OF inv assms(2) rq] by blast
qed

theorem accepted_commit_never_lost_witness:
  "(''u'', 1, ''k'') \<in> ob_key ` set (root_rows (sy_commits (sample_system sample_staged [])) ''r'') \<or>
    settled sample_sha (sy_commits (sample_system sample_staged [])) (sy_journal (sample_system sample_staged [])) (''u'', 1, ''k'') ''r'' [107] (JStr ''p'')"
  using accepted_commit_never_lost [OF sample_reached, of "(''u'', 1, ''k'')"] by (auto simp: sample_requests_def sample_system_def)

text \<open>
  C21. What is held is delivered: from every reachable state, so also after a stop of the process, one undisturbed pass over the
  outbox of a root ends, if the journal is open, knows the run, holds the lease, has room for the held events and accepts their keys
  (\<open>admits\<close>). Either it reports as many deliveries as rows were held, none is held any more, and the operation of each has a receipt
  that names the event the journal now holds under its key; or it reports a conflict, the rows before one are delivered in this
  sense, that one is dropped and the journal holds a different checkpoint under its key, and those after it are still held.
\<close>

theorem outbox_drains:
  assumes reach: "(commit_step sha store hash requests)\<^sup>*\<^sup>* (new_system sessions d) s"
    and rows: "rows = root_rows (sy_commits s) (rl_runId lease)"
    and ad: "admits (sy_journal s) lease rows"
    and pass: "deliverAll sha lease now (sy_commits s) (sy_journal s) = (r, cs', j')"
  shows "r = Inr (length rows) \<and> root_rows cs' (rl_runId lease) = [] \<and> (\<forall>row \<in> set rows. delivered sha cs' j' (rl_runId lease) row) \<or>
    r = Inl CheckpointIdentityConflict \<and>
    (\<exists>before row. rows = before @ row # root_rows cs' (rl_runId lease) \<and> (\<forall>b \<in> set before. delivered sha cs' j' (rl_runId lease) b) \<and>
      conflicting sha j' (rl_runId lease) (ob_event_key row) (ob_payload row))"
proof -
  obtain q cs1 j1 where d: "deliver_rows sha lease now rows (sy_commits s) (sy_journal s) = (q, cs1, j1)"
    and q: "pass_result sha cs1 j1 (rl_runId lease) rows q"
    using deliver_rows_progress [OF commit_inv_reachable [OF reach] ad rows [symmetric], of now] by blast
  have all: "r = (case q of Inl e \<Rightarrow> Inl e | Inr _ \<Rightarrow> Inr (length rows))" "cs' = cs1" "j' = j1"
    using pass d by (auto simp: deliverAll_def Let_def simp flip: rows split: sum.splits)
  show ?thesis using q by (cases q) (auto simp: all)
qed

theorem outbox_drains_witness:
  "\<exists>r cs' j'. deliverAll sample_sha sample_lease 6 sample_staged (sample_log []) = (r, cs', j') \<and>
    r = Inr 1 \<and> root_rows cs' ''r'' = [] \<and> delivered sample_sha cs' j' ''r'' sample_held"
proof -
  let ?s = "sample_system sample_staged []"
  have rows: "[sample_held] = root_rows (sy_commits ?s) (rl_runId sample_lease)" by (simp add: sample_system_def sample_lease_def sample_staged_rows)
  have ad: "admits (sy_journal ?s) sample_lease [sample_held]"
    by (simp add: admits_def js_lease_def sample_lease_def sample_js sample_log_def sample_held_def run_entries_def journal_eval sample_system_def)
  have "deliver sample_sha sample_staged (sample_log []) sample_lease sample_held 6 =
      (Inr \<lparr>rc_seq = Some 1, rc_at = 6, rc_lastSeq = None\<rparr>, sample_delivered 6, sample_log [sample_event 6])"
    using sample_deliver [of sample_tables 6] by (simp add: sample_staged_tables sample_delivered_def sample_staged_def sample_commits_def)
  then have pass: "deliverAll sample_sha sample_lease 6 (sy_commits ?s) (sy_journal ?s) = (Inr 1, sample_delivered 6, sample_log [sample_event 6])"
    using rows [symmetric] by (simp add: deliverAll_def sample_system_def)
  show ?thesis using outbox_drains [OF sample_reached rows ad pass] pass by (simp add: sample_system_def sample_lease_def)
qed

text \<open>
  A child's result follows its checkpoints: once a work item has a stored result, no accepted checkpoint commit of that
  item is still on its way; each has a receipt that names the event in the journal, or lost its key to another.
\<close>

theorem result_follows_checkpoints:
  assumes "(commit_step sha store hash requests)\<^sup>*\<^sup>* (new_system sessions d) s"
    and "map_has (pt_results (cs_tables (sy_commits s))) wid" and "(wid, generation, operationId) \<in> sy_accepted s"
    and "requests (wid, generation, operationId) = RecordCheckpoint run key payload identity"
  shows "settled sha (sy_commits s) (sy_journal s) (wid, generation, operationId) run key payload"
proof -
  have inv: "commit_inv sha requests s" by (rule commit_inv_reachable [OF assms(1)])
  have "(wid, generation, operationId) \<notin> ob_key ` set (cs_outbox (sy_commits s))"
    using inv assms(2) by (auto simp: commit_inv_def outbox_ok_def ob_key_def)
  then show ?thesis by (rule settledI [OF inv assms(3,4)])
qed

theorem result_follows_checkpoints_witness:
  "\<exists>cs'. complete_remote (sample_delivered 5) sample_lease sample_token sample_result 5 = Inr ((), cs') \<and>
    settled sample_sha cs' (sample_log [sample_event 5]) (''u'', 1, ''k'') ''r'' [107] (JStr ''p'')"
proof -
  let ?s = "sample_system (sample_delivered 5) [sample_event 5]"
  let ?cs = "(sample_delivered 5)\<lparr>cs_tables := sample_completed\<rparr>"
  have c: "complete_remote (sy_commits ?s) sample_lease sample_token sample_result 5 = Inr ((), ?cs)"
    using sample_complete by (simp add: complete_remote_def sample_system_def sample_delivered_def sample_staged_def sample_commits_def)
  have "sample_step\<^sup>*\<^sup>* (new_system () None) (?s\<lparr>sy_commits := ?cs\<rparr>)"
    using sample_delivered_reached commit_step.completes [OF c] by (rule rtranclp.rtrancl_into_rtrancl)
  from result_follows_checkpoints [OF this, of "''u''" 1 "''k''" "''r''" "[107]" "JStr ''p''" "''q''"]
  have "settled sample_sha ?cs (sample_log [sample_event 5]) (''u'', 1, ''k'') ''r'' [107] (JStr ''p'')"
    by (simp add: sample_system_def sample_completed_def sample_requests_def map_has_def)
  then show ?thesis using c by (auto simp: sample_system_def)
qed

text \<open>
  A replacement attempt finds what the one before it was told is committed: when a claim hands out work, every
  checkpoint commit of the root accepted until then is recorded, with a receipt that names its event, or lost its key to
  another. The queue notes that rows may be held whenever the root has any.
\<close>

theorem claim_finds_commits_recorded:
  assumes reach: "(commit_step sha store hash requests)\<^sup>*\<^sup>* (new_system sessions d) s"
    and pending: "pending \<or> root_rows (sy_commits s) (rl_runId lease) = []"
    and c: "claim_remote sha pending lease worker definitions duration placement now (sy_commits s) (sy_journal s) = (Inr (Some work), cs', j')"
    and op: "op \<in> sy_accepted s" and rq: "requests op = RecordCheckpoint (rl_runId lease) key payload identity"
  shows "settled sha cs' j' op (rl_runId lease) key payload"
proof -
  have inv: "commit_inv sha requests s" by (rule commit_inv_reachable [OF reach])
  obtain n cs1 t' where drained: "(if pending then deliverAll sha lease now (sy_commits s) (sy_journal s) else (Inr 0, sy_commits s, sy_journal s)) = (Inr n, cs1, j')"
    and cs': "cs' = cs1\<lparr>cs_tables := t'\<rparr>"
    using c by (auto simp: claim_remote_def split: prod.splits sum.splits commit_error.splits journal_error.splits)
  let ?s = "s\<lparr>sy_commits := cs1, sy_journal := j'\<rparr>"
  have i: "commit_inv sha requests ?s \<and> root_rows cs1 (rl_runId lease) = []"
  proof (cases pending)
    case True
    then have "deliverAll sha lease now (sy_commits s) (sy_journal s) = (Inr n, cs1, j')" using drained by simp
    from deliverAll_effect(1,3) [OF inv this] show ?thesis by blast
  next
    case False
    then show ?thesis using drained pending inv by auto
  qed
  then have "op \<notin> ob_key ` set (cs_outbox (sy_commits ?s))" using accepted_outbox_root [of sha requests ?s, OF _ rq] by auto
  then have "settled sha (sy_commits ?s) (sy_journal ?s) op (rl_runId lease) key payload"
    by (intro settledI [of sha requests ?s]) (use i op rq in auto)
  then show ?thesis by (simp add: settled_def cs')
qed

text \<open>The worker is lost before its event is delivered; the claim that replaces it delivers it first.\<close>

definition sample_lapsed :: pool_tables where
  "sample_lapsed = sample_tables\<lparr>pt_work := [sample_row\<lparr>w_state := WReady, w_worker := None, w_expires_at := 0\<rparr>]\<rparr>"

lemma sample_lapse: "pool_step sample_hash sample_tables (Expire sample_lease sample_token, 20) = sample_lapsed"
proof -
  have "current sample_tables sample_lease sample_token False = Inr sample_row"
    by (simp add: current_def work_of_def sample_tables_def sample_row_def sample_token_def sample_lease_def)
  moreover have "authority sample_tables sample_lease None 20 = Inr ''running''" by (simp add: sample_tables_def sample_root)
  ultimately show ?thesis using sample_lease_checked
    by (simp add: expire_def sample_lapsed_def update_work_def sample_tables_def sample_row_def)
qed

definition sample_claimed :: pool_tables where
  "sample_claimed = sample_tables\<lparr>pt_work := [sample_row\<lparr>w_generation := 2, w_worker := Some ''x'', w_expires_at := 30, w_renewed_at := 20\<rparr>]\<rparr>"

lemma sample_reclaim:
  "claim sample_lapsed sample_lease ''x'' [(''d'', ''x'')] 10 None 20 =
    Inr (Some (fromRow (sample_row\<lparr>w_generation := 2, w_worker := Some ''x'', w_expires_at := 30, w_renewed_at := 20\<rparr>)), sample_claimed)"
  using sample_lease_checked [unfolded sample_lease_def]
  by (simp add: sample_lapsed_def sample_claimed_def sample_tables_def sample_row_def claim_def positive_def expiry_def counter_def journalCounter_def
      MAX_SAFE_INTEGER_def sample_texts sample_root by_age_def claimable_def compatible_def sample_descriptor_def
      update_work_def row_by_id_def Let_def)

theorem claim_finds_commits_recorded_witness:
  "\<exists>work cs' j'. claim_remote sample_sha True sample_lease ''x'' [(''d'', ''x'')] 10 None 20 (sample_staged\<lparr>cs_tables := sample_lapsed\<rparr>) (sample_log [])
      = (Inr (Some work), cs', j') \<and> q_generation work = 2 \<and> settled sample_sha cs' j' (''u'', 1, ''k'') ''r'' [107] (JStr ''p'')"
proof -
  let ?cs = "sample_staged\<lparr>cs_tables := sample_lapsed\<rparr>" and ?s = "sample_system (sample_staged\<lparr>cs_tables := sample_lapsed\<rparr>) []"
  have "sample_step (sample_system sample_staged []) ?s"
    using commit_step.queue_step [of "Expire sample_lease sample_token" sample_sha sample_store sample_hash sample_requests "sample_system sample_staged []" 20]
    by (simp add: sample_system_def sample_staged_def sample_commits_def sample_lapse [simplified])
  with sample_reached have reach: "sample_step\<^sup>*\<^sup>* (new_system () None) ?s" by (rule rtranclp.rtrancl_into_rtrancl)
  have "root_rows ?cs ''r'' = [sample_held]" using sample_root_rows [of sample_lapsed] by (simp add: sample_lapsed_def sample_row_def)
  then have "deliverAll sample_sha sample_lease 20 ?cs (sample_log []) = (Inr 1, (sample_delivered 20)\<lparr>cs_tables := sample_lapsed\<rparr>, sample_log [sample_event 20])"
    using sample_deliver [of sample_lapsed 20] by (simp add: deliverAll_def sample_lease_def)
  then have c: "claim_remote sample_sha True sample_lease ''x'' [(''d'', ''x'')] 10 None 20 ?cs (sample_log []) =
      (Inr (Some (fromRow (sample_row\<lparr>w_generation := 2, w_worker := Some ''x'', w_expires_at := 30, w_renewed_at := 20\<rparr>))),
       (sample_delivered 20)\<lparr>cs_tables := sample_claimed\<rparr>, sample_log [sample_event 20])"
    using sample_reclaim sample_lease_checked by (simp add: claim_remote_def sample_texts positive_def MAX_SAFE_INTEGER_def)
  have "settled sample_sha ((sample_delivered 20)\<lparr>cs_tables := sample_claimed\<rparr>) (sample_log [sample_event 20]) (''u'', 1, ''k'') (rl_runId sample_lease) [107] (JStr ''p'')"
    by (rule claim_finds_commits_recorded [OF reach, of True, where identity = "''q''"])
      (use c in \<open>auto simp: sample_system_def sample_requests_def sample_lease_def\<close>)
  then show ?thesis using c by (auto simp: sample_lease_def fromRow_def)
qed

end
