(* ===== verification/Checkpoint_Index.thy ===== *)
theory Checkpoint_Index
  imports Run_Journal Stage_Topology "HOL-Library.Product_Lexorder"
begin

text \<open>
  The index of a root's recorded checkpoints (\<^verbatim>\<open>workflows/src/durable/journal/pool-checkpoint-index.ts\<close>) that validation of
  pool commits reads instead of the root's whole history, over the journal of theory \<open>Run_Journal\<close>. Reads wait on the
  journal while others fold what they read into the index, the root may be deleted and recorded again meanwhile, and a
  view keeps references into the index. Objects the code shares and mutates are addresses of an explicit store. The theory
  shows that a view still answers like a scan of the root's events, under the limits of the step relation below: a pass over the
  stream reads one history of the root, which has an event, and no event of one history has the mark of one of another.

  \<open>decode\<close> reads the JSON of a checkpoint event as the typed record the code takes it for.
\<close>

section \<open>Checkpoints\<close>

record tool_topology =
  tt_version :: int
  tt_nodeId :: string
  tt_parentIds :: "string list"
  tt_run :: "run_topology option"

record tool_checkpoint =
  tc_workflowId :: string
  tc_checkpointId :: string
  tc_argsHash :: string
  tc_topology :: "tool_topology option"

record ui_checkpoint =
  ui_workflowId :: string
  ui_checkpointId :: string
  ui_promptHash :: string

datatype checkpoint = Tool tool_checkpoint | Ui ui_checkpoint | Stage stage_checkpoint

text \<open>\<open>IndexedEntry\<close>: the sequence number, the bytes of the event key and the checkpoint, never one of a prompt.\<close>

datatype indexed = ToolIx tool_checkpoint | StageIx stage_checkpoint

record index_entry =
  ix_seq :: int
  ix_order :: "nat list"
  ix_checkpoint :: indexed

section \<open>Partitions\<close>

record partitions =
  byRun :: "(string, index_entry list) jmap"
  startsByChild :: "(string, index_entry list) jmap"
  stagesByGroup :: "(string list, index_entry list) jmap"
  stagesByReplayKey :: "(string, index_entry list) jmap"
  boundariesByStageId :: "(string, index_entry list) jmap"
  boundariesByChild :: "(string, index_entry list) jmap"

definition new_partitions :: partitions where
  "new_partitions = \<lparr>byRun = [], startsByChild = [], stagesByGroup = [], stagesByReplayKey = [], boundariesByStageId = [], boundariesByChild = []\<rparr>"

definition push :: "('k, 'v list) jmap \<Rightarrow> 'k option \<Rightarrow> 'v \<Rightarrow> ('k, 'v list) jmap" where
  "push m key v = (case key of
      None \<Rightarrow> m
    | Some k \<Rightarrow> (case map_get m k of Some vs \<Rightarrow> map_set m k (vs @ [v]) | None \<Rightarrow> map_set m k [v]))"

fun checkpoint_run :: "indexed \<Rightarrow> string option" where
  "checkpoint_run (ToolIx c) = Option.bind (tc_topology c) (\<lambda>t. map_option rt_runId (tt_run t))"
| "checkpoint_run (StageIx c) = Option.bind (sc_topology c) (\<lambda>t. map_option rt_runId (t_run t))"

definition stage_boundary :: "stage_checkpoint \<Rightarrow> boundary_topology option" where
  "stage_boundary c = Option.bind (sc_topology c) t_boundary"

definition add :: "partitions \<Rightarrow> index_entry \<Rightarrow> partitions" where
  "add p entry =
    (let p1 = p\<lparr>byRun := push (byRun p) (checkpoint_run (ix_checkpoint entry)) entry\<rparr> in
     case ix_checkpoint entry of
       ToolIx _ \<Rightarrow> p1
     | StageIx c \<Rightarrow>
         let p2 = p1\<lparr>stagesByGroup := push (stagesByGroup p1) (Some (durableStageGroupKey c)) entry,
               stagesByReplayKey := push (stagesByReplayKey p1) (Some (sc_replayKey c)) entry\<rparr> in
         case stage_boundary c of
           None \<Rightarrow> p2
         | Some boundary \<Rightarrow>
             let p3 = p2\<lparr>boundariesByStageId := push (boundariesByStageId p2) (map_option t_stageId (sc_topology c)) entry,
                   boundariesByChild := push (boundariesByChild p2) (Some (ct_runId (b_child boundary))) entry\<rparr> in
             if b_event boundary = BoundaryStart
             then p3\<lparr>startsByChild := push (startsByChild p3) (Some (ct_runId (b_child boundary))) entry\<rparr>
             else p3)"

definition add_all :: "partitions \<Rightarrow> index_entry list \<Rightarrow> partitions" where
  "add_all p entries = foldl add p entries"

text \<open>\<open>inKeyOrder\<close>: each entry once, by the bytes of its key, then by sequence number.\<close>

definition inKeyOrder :: "index_entry list \<Rightarrow> index_entry list" where
  "inKeyOrder entries = sort_key (\<lambda>e. (ix_order e, ix_seq e)) (set_add_all [] entries)"

section \<open>What an entry is found under\<close>

fun stage_of :: "indexed \<Rightarrow> stage_checkpoint option" where
  "stage_of (StageIx c) = Some c"
| "stage_of (ToolIx _) = None"

definition group_key :: "indexed \<Rightarrow> string list option" where
  "group_key c = map_option durableStageGroupKey (stage_of c)"

definition replay_key :: "indexed \<Rightarrow> string option" where
  "replay_key c = map_option sc_replayKey (stage_of c)"

definition boundary_stage_key :: "indexed \<Rightarrow> string option" where
  "boundary_stage_key c = Option.bind (stage_of c) (\<lambda>s.
    if stage_boundary s = None then None else map_option t_stageId (sc_topology s))"

definition boundary_child_key :: "indexed \<Rightarrow> string option" where
  "boundary_child_key c = Option.bind (stage_of c) (\<lambda>s. map_option (\<lambda>b. ct_runId (b_child b)) (stage_boundary s))"

definition start_child_key :: "indexed \<Rightarrow> string option" where
  "start_child_key c = Option.bind (stage_of c) (\<lambda>s.
    Option.bind (stage_boundary s) (\<lambda>b. if b_event b = BoundaryStart then Some (ct_runId (b_child b)) else None))"

text \<open>A partition found by \<open>sel\<close> holds, under each key, the added entries that have that key, in order.\<close>

definition partition_of :: "(partitions \<Rightarrow> ('k, index_entry list) jmap) \<Rightarrow> (indexed \<Rightarrow> 'k option) \<Rightarrow> bool" where
  "partition_of sel key \<longleftrightarrow> sel new_partitions = [] \<and> (\<forall>p e. sel (add p e) = push (sel p) (key (ix_checkpoint e)) e)"

lemma partitions_by_key:
  "partition_of byRun checkpoint_run" "partition_of startsByChild start_child_key" "partition_of stagesByGroup group_key"
  "partition_of stagesByReplayKey replay_key" "partition_of boundariesByStageId boundary_stage_key"
  "partition_of boundariesByChild boundary_child_key"
  by (auto simp: partition_of_def new_partitions_def add_def push_def Let_def group_key_def replay_key_def boundary_stage_key_def
      boundary_child_key_def start_child_key_def split: indexed.splits option.splits)

lemma get_push: "map_get_or (push m key v) k [] = map_get_or m k [] @ (if key = Some k then [v] else [])"
  by (auto simp: push_def map_get_or_def split: option.splits)

lemma get_add_all:
  assumes "partition_of sel key"
  shows "map_get_or (sel (add_all p es)) k [] = map_get_or (sel p) k [] @ filter (\<lambda>e. key (ix_checkpoint e) = Some k) es"
proof (induction es arbitrary: p)
  case Nil
  then show ?case by (simp add: add_all_def)
next
  case (Cons e es)
  have "sel (add p e) = push (sel p) (key (ix_checkpoint e)) e" using assms by (simp add: partition_of_def)
  then show ?case using Cons [of "add p e"] by (simp add: add_all_def get_push)
qed

lemma get_new: "partition_of sel key \<Longrightarrow> map_get_or (sel (add_all new_partitions es)) k [] = filter (\<lambda>e. key (ix_checkpoint e) = Some k) es"
  using get_add_all [of sel key new_partitions es k] by (simp add: partition_of_def map_get_or_def)

section \<open>The index\<close>

record root_checkpoints =
  rk_seq :: int
  rk_key :: "js_text option"
  rk_at :: int
  rk_partitions :: nat

text \<open>The store of what the code shares by reference, and the index's map from roots to their object.\<close>

record index =
  in_parts :: "partitions list"
  in_objects :: "root_checkpoints list"
  in_roots :: "(string, nat) jmap"

definition new_index :: index where
  "new_index = \<lparr>in_parts = [], in_objects = [], in_roots = []\<rparr>"

record checkpoint_view =
  vw_base :: "nat option"
  vw_from :: int
  vw_delta :: nat

text \<open>\<open>PoolCheckpointView.entries\<close>; \<open>sel\<close> names the partition.\<close>

definition entries :: "index \<Rightarrow> (partitions \<Rightarrow> ('k, index_entry list) jmap) \<Rightarrow> checkpoint_view \<Rightarrow> 'k \<Rightarrow> index_entry list" where
  "entries ix sel view key =
    (let committed = (case vw_base view of
        None \<Rightarrow> []
      | Some b \<Rightarrow> map_get_or (sel (in_parts ix ! rk_partitions (in_objects ix ! b))) key []) in
     filter (\<lambda>e. ix_seq e \<le> vw_from view) committed @ map_get_or (sel (in_parts ix ! vw_delta view)) key [])"

section \<open>Reading\<close>

type_synonym mark = "int \<times> js_text option \<times> int"

definition mark_of :: "journal_entry \<Rightarrow> mark" where
  "mark_of e = (je_seq e, je_key e, je_at e)"

definition index_entry_of :: "(json \<Rightarrow> checkpoint) \<Rightarrow> journal_entry \<Rightarrow> index_entry option" where
  "index_entry_of decode e = (case je_event e of
      RunEvent CheckpointRecorded payload \<Rightarrow>
        let found = (\<lambda>c. Some \<lparr>ix_seq = je_seq e, ix_order = (case je_key e of None \<Rightarrow> [] | Some k \<Rightarrow> utf8_bytes k), ix_checkpoint = c\<rparr>) in
        (case decode payload of Ui _ \<Rightarrow> None | Tool c \<Rightarrow> found (ToolIx c) | Stage c \<Rightarrow> found (StageIx c))
    | _ \<Rightarrow> None)"

definition indexed_entries :: "(json \<Rightarrow> checkpoint) \<Rightarrow> journal_entry list \<Rightarrow> index_entry list" where
  "indexed_entries decode es = List.map_filter (index_entry_of decode) es"

text \<open>
  The loop of \<open>readEntries\<close> over one stream: \<open>None\<close> when the event at the watermark is another one, else whether it was
  seen, the last event and the entries to add.
\<close>

fun read_stream ::
  "(json \<Rightarrow> checkpoint) \<Rightarrow> mark option \<Rightarrow> bool \<Rightarrow> mark option \<Rightarrow> index_entry list \<Rightarrow> journal_entry list \<Rightarrow>
    (bool \<times> mark option \<times> index_entry list) option" where
  "read_stream decode mark verified head added [] = Some (verified, head, added)"
| "read_stream decode mark verified head added (e # es) =
    (if map_option fst mark = Some (je_seq e)
     then if map_option snd mark \<noteq> Some (je_key e, je_at e) then None
       else read_stream decode mark True (Some (mark_of e)) added es
     else read_stream decode mark verified (Some (mark_of e))
       (case index_entry_of decode e of None \<Rightarrow> added | Some entry \<Rightarrow> added @ [entry]) es)"

definition base_mark :: "index \<Rightarrow> nat option \<Rightarrow> mark option" where
  "base_mark ix base = (case base of
      None \<Rightarrow> None
    | Some b \<Rightarrow> let known = in_objects ix ! b in if 0 < rk_seq known then Some (rk_seq known, rk_key known, rk_at known) else None)"

record checkpoint_read =
  rd_current :: "nat option"
  rd_view :: checkpoint_view
  rd_to :: int
  rd_key :: "js_text option"
  rd_at :: int
  rd_added :: "index_entry list"

text \<open>\<open>view\<close>: the view and what a commit will fold in, with the partitions of the view new in the store.\<close>

definition make_view ::
  "index \<Rightarrow> nat option \<Rightarrow> nat option \<Rightarrow> int \<Rightarrow> int \<Rightarrow> mark option \<Rightarrow> index_entry list \<Rightarrow> checkpoint_read \<times> index" where
  "make_view ix current base from to head added =
    (\<lparr>rd_current = current, rd_view = \<lparr>vw_base = base, vw_from = from, vw_delta = length (in_parts ix)\<rparr>, rd_to = to,
       rd_key = Option.bind head (\<lambda>m. fst (snd m)), rd_at = (case head of None \<Rightarrow> 0 | Some m \<Rightarrow> snd (snd m)), rd_added = added\<rparr>,
     ix\<lparr>in_parts := in_parts ix @ [add_all new_partitions added]\<rparr>)"

text \<open>One pass of \<open>readEntries\<close>; \<open>None\<close> when it has to start again without a base.\<close>

definition readEntries_pass ::
  "(json \<Rightarrow> checkpoint) \<Rightarrow> index \<Rightarrow> nat option \<Rightarrow> nat option \<Rightarrow> mark option \<Rightarrow> (int \<Rightarrow> journal_entry list) \<Rightarrow>
    (checkpoint_read \<times> index) option" where
  "readEntries_pass decode ix current base mark stream =
    (case read_stream decode mark (mark = None) None [] (stream (case mark of None \<Rightarrow> 1 | Some m \<Rightarrow> fst m)) of
       None \<Rightarrow> None
     | Some (verified, head, added) \<Rightarrow>
         if mark \<noteq> None \<and> \<not> verified then None
         else Some (make_view ix current base (case mark of None \<Rightarrow> 0 | Some m \<Rightarrow> fst m) (case head of None \<Rightarrow> 0 | Some m \<Rightarrow> fst m) head added))"

text \<open>
  \<open>read\<close>, which queries the events of the root inside the transaction that validates: the last event, the one at the
  watermark, and the checkpoints between the two.
\<close>

definition read_in_tx :: "(json \<Rightarrow> checkpoint) \<Rightarrow> string \<Rightarrow> index \<Rightarrow> journal_entry list \<Rightarrow> checkpoint_read \<times> index" where
  "read_in_tx decode rootId ix evs =
    (let current = map_get (in_roots ix) rootId;
         head = (if evs = [] then None else Some (last evs));
         base = (case current of
             None \<Rightarrow> None
           | Some b \<Rightarrow>
               let known = in_objects ix ! b in
               if 0 < rk_seq known
               then let mark = (if map_option je_seq head = Some (rk_seq known) then head else find (\<lambda>e. je_seq e = rk_seq known) evs) in
                 if map_option (\<lambda>e. (je_key e, je_at e)) mark = Some (rk_key known, rk_at known) then Some b else None
               else Some b);
         from = (case base of None \<Rightarrow> 0 | Some b \<Rightarrow> rk_seq (in_objects ix ! b));
         to = (case head of None \<Rightarrow> 0 | Some e \<Rightarrow> je_seq e);
         added = (if from < to then indexed_entries decode (filter (\<lambda>e. from < je_seq e \<and> je_seq e \<le> to) evs) else []) in
     make_view ix current base from to (map_option mark_of head) added)"

text \<open>What \<open>PoolCheckpointRead.commit\<close> folds into the index.\<close>

definition commit_read :: "string \<Rightarrow> index \<Rightarrow> checkpoint_read \<Rightarrow> index" where
  "commit_read rootId ix r =
    (let latest = map_get (in_roots ix) rootId in
     case vw_base (rd_view r) of
       None \<Rightarrow>
         if latest \<noteq> rd_current r then ix
         else ix\<lparr>in_objects := in_objects ix @ [\<lparr>rk_seq = rd_to r, rk_key = rd_key r, rk_at = rd_at r, rk_partitions = vw_delta (rd_view r)\<rparr>],
             in_roots := map_set (in_roots ix) rootId (length (in_objects ix))\<rparr>
     | Some b \<Rightarrow>
         let known = in_objects ix ! b; p = rk_partitions known in
         if latest \<noteq> Some b \<or> rd_to r \<le> rk_seq known then ix
         else ix\<lparr>in_parts := (in_parts ix)[p := add_all (in_parts ix ! p) (filter (\<lambda>e. rk_seq known < ix_seq e) (rd_added r))],
             in_objects := (in_objects ix)[b := known\<lparr>rk_seq := rd_to r, rk_key := rd_key r, rk_at := rd_at r\<rparr>]\<rparr>)"

section \<open>Reads in flight\<close>

text \<open>
  The events of the root, one list per time it was recorded (the last is the present one); the reads that wait on the
  journal, with the object and the watermark they took; and the reads that returned a view, with the number of the
  history they read and whether they may still be folded in. \<open>sy_home\<close> notes the history each object of the index is of.
\<close>

record index_system =
  sy_logs :: "journal_entry list list"
  sy_index :: index
  sy_begun :: "(nat option \<times> nat option \<times> mark option) list"
  sy_reads :: "(checkpoint_read \<times> nat \<times> bool) list"
  sy_home :: "nat list"

definition log_from :: "journal_entry list \<Rightarrow> int \<Rightarrow> journal_entry list" where
  "log_from evs n = filter (\<lambda>e. n \<le> je_seq e) evs"

text \<open>
  A root that is deleted and recorded again never has at the same position an event of the same key and time, and a root
  whose checkpoints are read has an event. A pass over the stream of events is one step (events appended meanwhile come at its
  end); between its steps a read may wait arbitrarily long.
\<close>

inductive index_step :: "(json \<Rightarrow> checkpoint) \<Rightarrow> string \<Rightarrow> index_system \<Rightarrow> index_system \<Rightarrow> bool" for decode rootId where
  appends: "je_seq e = int (length (last (sy_logs s))) + 1 \<Longrightarrow>
    (\<And>old e'. old \<in> set (butlast (sy_logs s)) \<Longrightarrow> e' \<in> set old \<Longrightarrow> mark_of e' \<noteq> mark_of e) \<Longrightarrow>
    index_step decode rootId s (s\<lparr>sy_logs := butlast (sy_logs s) @ [last (sy_logs s) @ [e]]\<rparr>)"
| rerecords: "index_step decode rootId s (s\<lparr>sy_logs := sy_logs s @ [[]]\<rparr>)"
| begins: "base = map_get (in_roots (sy_index s)) rootId \<Longrightarrow>
    index_step decode rootId s (s\<lparr>sy_begun := (base, base, base_mark (sy_index s) base) # sy_begun s\<rparr>)"
| restarts: "(current, base, mark) \<in> set (sy_begun s) \<Longrightarrow> last (sy_logs s) \<noteq> [] \<Longrightarrow>
    readEntries_pass decode (sy_index s) current base mark (log_from (last (sy_logs s))) = None \<Longrightarrow>
    index_step decode rootId s (s\<lparr>sy_begun := (current, None, None) # remove1 (current, base, mark) (sy_begun s)\<rparr>)"
| views: "(current, base, mark) \<in> set (sy_begun s) \<Longrightarrow> last (sy_logs s) \<noteq> [] \<Longrightarrow>
    readEntries_pass decode (sy_index s) current base mark (log_from (last (sy_logs s))) = Some (r, ix') \<Longrightarrow>
    index_step decode rootId s (s\<lparr>sy_index := ix', sy_reads := (r, length (sy_logs s) - 1, True) # sy_reads s,
      sy_begun := remove1 (current, base, mark) (sy_begun s)\<rparr>)"
| folds: "sy_reads s = before @ (r, h, True) # after \<Longrightarrow> commit_read rootId (sy_index s) r = ix' \<Longrightarrow>
    index_step decode rootId s (s\<lparr>sy_index := ix', sy_reads := before @ (r, h, False) # after,
      sy_home := (if length (in_objects ix') = length (in_objects (sy_index s)) then sy_home s else sy_home s @ [h])\<rparr>)"

definition new_index_system :: index_system where
  "new_index_system = \<lparr>sy_logs = [[]], sy_index = new_index, sy_begun = [], sy_reads = [], sy_home = []\<rparr>"

section \<open>One pass over a stream\<close>

definition log_ok :: "journal_entry list \<Rightarrow> bool" where
  "log_ok evs \<longleftrightarrow> (\<forall>i < length evs. je_seq (evs ! i) = int i + 1)"

definition span_entries :: "(json \<Rightarrow> checkpoint) \<Rightarrow> journal_entry list \<Rightarrow> int \<Rightarrow> int \<Rightarrow> index_entry list" where
  "span_entries decode evs n m = indexed_entries decode (drop (nat n) (take (nat m) evs))"

lemma log_from_drop:
  assumes "log_ok evs" and "1 \<le> n"
  shows "log_from evs n = drop (nat (n - 1)) evs"
  using assms(1)
proof (induction evs rule: rev_induct)
  case (snoc e evs)
  have ok: "log_ok evs" unfolding log_ok_def
  proof (intro allI impI)
    fix i assume "i < length evs"
    then show "je_seq (evs ! i) = int i + 1" using snoc.prems [unfolded log_ok_def, rule_format, of i] by (simp add: nth_append)
  qed
  have "je_seq e = int (length evs) + 1" using snoc.prems [unfolded log_ok_def, rule_format, of "length evs"] by simp
  then show ?case using snoc.IH [OF ok] assms(2) by (auto simp: log_from_def)
qed (simp add: log_from_def)

lemma indexed_append [simp]: "indexed_entries decode (xs @ ys) = indexed_entries decode xs @ indexed_entries decode ys"
  by (simp add: indexed_entries_def List.map_filter_def)

lemma read_stream_plain:
  assumes "\<And>e. e \<in> set es \<Longrightarrow> map_option fst mark \<noteq> Some (je_seq e)"
  shows "read_stream decode mark verified head added es =
    Some (verified, if es = [] then head else Some (mark_of (last es)), added @ indexed_entries decode es)"
  using assms
  by (induction es arbitrary: head added) (auto simp: indexed_entries_def List.map_filter_def split: option.splits)

lemma in_drop:
  assumes "x \<in> set (drop n xs)"
  obtains i where "n + i < length xs" and "x = xs ! (n + i)"
proof -
  obtain i where "i < length (drop n xs)" "x = drop n xs ! i" using assms by (metis in_set_conv_nth)
  then show thesis using that [of i] by (simp add: less_diff_conv add.commute)
qed

lemma log_ok_nth: "log_ok evs \<Longrightarrow> i < length evs \<Longrightarrow> je_seq (evs ! i) = int i + 1"
  by (simp add: log_ok_def)

lemma read_stream_marked:
  assumes ok: "log_ok evs" and m: "mark = Some (n, k, a)" and n: "1 \<le> n"
    and r: "read_stream decode mark False None [] (log_from evs n) = Some (True, head, added)"
  shows "n \<le> int (length evs) \<and> mark_of (evs ! (nat n - 1)) = (n, k, a) \<and>
    head = Some (mark_of (last evs)) \<and> added = span_entries decode evs n (int (length evs))"
proof -
  have st: "log_from evs n = drop (nat n - 1) evs" using log_from_drop [OF ok n] n by (simp add: nat_diff_distrib')
  show ?thesis
  proof (cases "nat n - 1 < length evs")
    case False
    then show ?thesis using r st by simp
  next
    case True
    let ?e = "evs ! (nat n - 1)"
    have split: "drop (nat n - 1) evs = ?e # drop (nat n) evs" using Cons_nth_drop_Suc [OF True] n by (simp add: Suc_diff_Suc)
    have seq: "je_seq ?e = n" using log_ok_nth [OF ok True] n by simp
    have later: "map_option fst mark \<noteq> Some (je_seq e)" if e: "e \<in> set (drop (nat n) evs)" for e
    proof -
      obtain i where "nat n + i < length evs" "e = evs ! (nat n + i)" using e by (rule in_drop)
      then show ?thesis using log_ok_nth [OF ok, of "nat n + i"] m n by simp
    qed
    have match: "(je_key ?e, je_at ?e) = (k, a)"
      using r [unfolded st split] m seq by (auto split: if_splits)
    then have "read_stream decode mark True (Some (mark_of ?e)) [] (drop (nat n) evs) = Some (True, head, added)"
      using r [unfolded st split] m seq by simp
    then have ha: "head = (if drop (nat n) evs = [] then Some (mark_of ?e) else Some (mark_of (last (drop (nat n) evs))))"
      "added = indexed_entries decode (drop (nat n) evs)"
      using read_stream_plain [of "drop (nat n) evs" mark decode True "Some (mark_of ?e)" "[]", OF later] by auto
    have "head = Some (mark_of (last evs))"
    proof (cases "length evs \<le> nat n")
      case True
      then have "nat n - 1 = length evs - 1" using \<open>nat n - 1 < length evs\<close> by linarith
      moreover have "evs \<noteq> []" using \<open>nat n - 1 < length evs\<close> by auto
      ultimately show ?thesis using ha(1) True by (simp add: last_conv_nth)
    next
      case False
      then show ?thesis using ha(1) by (simp add: last_drop)
    qed
    then show ?thesis using True match seq ha(2) n by (auto simp: mark_of_def span_entries_def)
  qed
qed

text \<open>A pass that ends in a view read the rest of the root's events, after the event at the watermark.\<close>

lemma pass_effect:
  assumes ok: "log_ok evs" and ne: "evs \<noteq> []" and m: "\<forall>m. mark = Some m \<longrightarrow> 1 \<le> fst m"
    and p: "readEntries_pass decode ix current base mark (log_from evs) = Some (r, ix')"
  shows "ix' = ix\<lparr>in_parts := in_parts ix @ [add_all new_partitions (rd_added r)]\<rparr>"
    and "rd_current r = current" and "rd_view r = \<lparr>vw_base = base, vw_from = (case mark of None \<Rightarrow> 0 | Some m \<Rightarrow> fst m), vw_delta = length (in_parts ix)\<rparr>"
    and "rd_to r = int (length evs)" and "(rd_to r, rd_key r, rd_at r) = mark_of (last evs)"
    and "rd_added r = span_entries decode evs (vw_from (rd_view r)) (int (length evs))"
    and "mark = Some (n, k, a) \<Longrightarrow> n \<le> int (length evs) \<and> mark_of (evs ! (nat n - 1)) = (n, k, a)"
proof -
  have last_seq: "fst (mark_of (last evs)) = int (length evs)"
    using ne log_ok_nth [OF ok, of "length evs - 1"] by (cases evs rule: rev_cases) (auto simp: mark_of_def)
  obtain verified head added where rs: "read_stream decode mark (mark = None) None [] (log_from evs (case mark of None \<Rightarrow> 1 | Some m \<Rightarrow> fst m)) = Some (verified, head, added)"
    and v: "mark \<noteq> None \<longrightarrow> verified" and r: "r = \<lparr>rd_current = current,
      rd_view = \<lparr>vw_base = base, vw_from = (case mark of None \<Rightarrow> 0 | Some m \<Rightarrow> fst m), vw_delta = length (in_parts ix)\<rparr>,
      rd_to = (case head of None \<Rightarrow> 0 | Some m \<Rightarrow> fst m), rd_key = Option.bind head (\<lambda>m. fst (snd m)),
      rd_at = (case head of None \<Rightarrow> 0 | Some m \<Rightarrow> snd (snd m)), rd_added = added\<rparr>"
    and ix': "ix' = ix\<lparr>in_parts := in_parts ix @ [add_all new_partitions added]\<rparr>"
    using p by (auto simp: readEntries_pass_def make_view_def Let_def split: option.splits prod.splits if_splits)
  have "head = Some (mark_of (last evs)) \<and> added = span_entries decode evs (case mark of None \<Rightarrow> 0 | Some m \<Rightarrow> fst m) (int (length evs)) \<and>
    (\<forall>n k a. mark = Some (n, k, a) \<longrightarrow> n \<le> int (length evs) \<and> mark_of (evs ! (nat n - 1)) = (n, k, a))"
  proof (cases mark)
    case None
    have "log_from evs 1 = evs" using log_from_drop [OF ok, of 1] by simp
    then show ?thesis using rs None ne read_stream_plain [of evs None decode True None "[]"] by (simp add: span_entries_def)
  next
    case (Some w)
    obtain n k a where w: "w = (n, k, a)" by (cases w)
    then have "read_stream decode mark False None [] (log_from evs n) = Some (True, head, added)" using rs Some v by simp
    from read_stream_marked [OF ok _ _ this, of k a] show ?thesis using Some w m by simp
  qed
  then show "ix' = ix\<lparr>in_parts := in_parts ix @ [add_all new_partitions (rd_added r)]\<rparr>" "rd_current r = current"
    "rd_view r = \<lparr>vw_base = base, vw_from = (case mark of None \<Rightarrow> 0 | Some m \<Rightarrow> fst m), vw_delta = length (in_parts ix)\<rparr>"
    "rd_to r = int (length evs)" "(rd_to r, rd_key r, rd_at r) = mark_of (last evs)"
    "rd_added r = span_entries decode evs (vw_from (rd_view r)) (int (length evs))"
    "mark = Some (n, k, a) \<Longrightarrow> n \<le> int (length evs) \<and> mark_of (evs ! (nat n - 1)) = (n, k, a)"
    using r ix' last_seq by (auto simp: mark_of_def)
qed

section \<open>Spans of a history\<close>

lemma index_entry_seq: "index_entry_of decode e = Some x \<Longrightarrow> ix_seq x = je_seq e"
  by (auto simp: index_entry_of_def Let_def split: run_event.splits run_event_type.splits checkpoint.splits)

lemma indexed_seqs:
  assumes "\<And>e. e \<in> set es \<Longrightarrow> P (je_seq e)" and "x \<in> set (indexed_entries decode es)"
  shows "P (ix_seq x)"
  using assms index_entry_seq by (fastforce simp: indexed_entries_def List.map_filter_def)

lemma span_split: "0 \<le> n \<Longrightarrow> n \<le> m \<Longrightarrow> m \<le> l \<Longrightarrow> span_entries decode evs n l = span_entries decode evs n m @ span_entries decode evs m l"
proof -
  assume a: "0 \<le> n" "n \<le> m" "m \<le> l"
  then have "nat n \<le> nat m" "nat m \<le> nat l" by auto
  then have "take (nat l) evs = take (nat m) evs @ drop (nat m) (take (nat l) evs)"
    by (metis append_take_drop_id min.absorb1 take_take)
  moreover have "drop (nat n) (take (nat m) evs @ drop (nat m) (take (nat l) evs)) = drop (nat n) (take (nat m) evs) @ drop (nat m) (take (nat l) evs)"
    using \<open>nat n \<le> nat m\<close> by (cases "nat m \<le> length evs") auto
  ultimately have "drop (nat n) (take (nat l) evs) = drop (nat n) (take (nat m) evs) @ drop (nat m) (take (nat l) evs)" by simp
  then show ?thesis by (simp add: span_entries_def)
qed

lemma span_seqs:
  assumes ok: "log_ok evs" and "0 \<le> n" and "x \<in> set (span_entries decode evs n m)"
  shows "n < ix_seq x \<and> ix_seq x \<le> m"
proof (rule indexed_seqs [OF _ assms(3) [unfolded span_entries_def]])
  fix e assume "e \<in> set (drop (nat n) (take (nat m) evs))"
  then obtain i where "nat n + i < length (take (nat m) evs)" "e = take (nat m) evs ! (nat n + i)" by (rule in_drop)
  then show "n < je_seq e \<and> je_seq e \<le> m" using log_ok_nth [OF ok, of "nat n + i"] \<open>0 \<le> n\<close> by auto
qed

lemma span_upto:
  assumes "log_ok evs" and "0 \<le> n" and "n \<le> m"
  shows "filter (\<lambda>e. ix_seq e \<le> n) (span_entries decode evs 0 m) = span_entries decode evs 0 n"
proof -
  have "filter (\<lambda>e. ix_seq e \<le> n) (span_entries decode evs 0 n) = span_entries decode evs 0 n"
    by (rule filter_True) (use span_seqs [OF assms(1)] in force)
  moreover have "filter (\<lambda>e. ix_seq e \<le> n) (span_entries decode evs n m) = []"
    by (rule filter_False) (use span_seqs [OF assms(1,2)] in force)
  ultimately show ?thesis using span_split [of 0 n m decode evs] assms by simp
qed

lemma span_after:
  assumes "log_ok evs" and "0 \<le> n" and "n \<le> m" and "m \<le> l"
  shows "filter (\<lambda>e. m < ix_seq e) (span_entries decode evs n l) = span_entries decode evs m l"
proof -
  have "filter (\<lambda>e. m < ix_seq e) (span_entries decode evs n m) = []"
    by (rule filter_False) (use span_seqs [OF assms(1,2)] in force)
  moreover have "filter (\<lambda>e. m < ix_seq e) (span_entries decode evs m l) = span_entries decode evs m l"
    by (rule filter_True) (use span_seqs [OF assms(1), of m] assms(2,3) in force)
  ultimately show ?thesis using span_split [of n m l decode evs] assms by simp
qed

lemma span_prefix: "m \<le> int (length evs) \<Longrightarrow> span_entries decode (evs @ es) n m = span_entries decode evs n m"
  by (simp add: span_entries_def nat_le_iff)

section \<open>The invariant\<close>

definition is_of :: "index_system \<Rightarrow> nat \<Rightarrow> journal_entry list" where
  "is_of s h = sy_logs s ! h"

definition object_ok :: "(json \<Rightarrow> checkpoint) \<Rightarrow> index_system \<Rightarrow> nat \<Rightarrow> bool" where
  "object_ok decode s b \<longleftrightarrow> (let k = in_objects (sy_index s) ! b; h = sy_home s ! b in
    h < length (sy_logs s) \<and> 1 \<le> rk_seq k \<and> rk_seq k \<le> int (length (is_of s h)) \<and>
    (rk_seq k, rk_key k, rk_at k) = mark_of (is_of s h ! (nat (rk_seq k) - 1)) \<and> rk_partitions k < length (in_parts (sy_index s)) \<and>
    in_parts (sy_index s) ! rk_partitions k = add_all new_partitions (span_entries decode (is_of s h) 0 (rk_seq k)))"

fun begun_ok :: "index_system \<Rightarrow> nat option \<times> nat option \<times> mark option \<Rightarrow> bool" where
  "begun_ok s (current, base, mark) \<longleftrightarrow> (case base of
      None \<Rightarrow> mark = None
    | Some b \<Rightarrow> b < length (in_objects (sy_index s)) \<and> (\<exists>m. mark = Some m \<and> 1 \<le> fst m \<and> fst m \<le> rk_seq (in_objects (sy_index s) ! b) \<and>
        m = mark_of (is_of s (sy_home s ! b) ! (nat (fst m) - 1))))"

definition refs :: "index_system \<Rightarrow> nat list" where
  "refs s = map rk_partitions (in_objects (sy_index s))"

definition delta_of :: "checkpoint_read \<times> nat \<times> bool \<Rightarrow> nat" where
  "delta_of x = vw_delta (rd_view (fst x))"

text \<open>The partitions of a view are its own, or became those of the object its fold created.\<close>

definition aliased :: "index_system \<Rightarrow> checkpoint_read \<Rightarrow> nat \<Rightarrow> nat \<Rightarrow> bool" where
  "aliased s r h f \<longleftrightarrow> f < length (in_objects (sy_index s)) \<and> rk_partitions (in_objects (sy_index s) ! f) = vw_delta (rd_view r) \<and>
    vw_base (rd_view r) = None \<and> sy_home s ! f = h \<and> rd_to r \<le> rk_seq (in_objects (sy_index s) ! f)"

definition own_delta :: "index_system \<Rightarrow> checkpoint_read \<Rightarrow> bool" where
  "own_delta s r \<longleftrightarrow> vw_delta (rd_view r) \<notin> set (refs s) \<and> in_parts (sy_index s) ! vw_delta (rd_view r) = add_all new_partitions (rd_added r)"

definition base_ok :: "index_system \<Rightarrow> checkpoint_read \<Rightarrow> nat \<Rightarrow> bool" where
  "base_ok s r h \<longleftrightarrow> (vw_base (rd_view r) = None \<longrightarrow> vw_from (rd_view r) = 0) \<and>
    (\<forall>b. vw_base (rd_view r) = Some b \<longrightarrow> b < length (in_objects (sy_index s)) \<and> sy_home s ! b = h \<and>
      vw_from (rd_view r) \<le> rk_seq (in_objects (sy_index s) ! b))"

fun read_ok :: "(json \<Rightarrow> checkpoint) \<Rightarrow> index_system \<Rightarrow> checkpoint_read \<times> nat \<times> bool \<Rightarrow> bool" where
  "read_ok decode s (r, h, unfolded) \<longleftrightarrow> h < length (sy_logs s) \<and> 1 \<le> rd_to r \<and> rd_to r \<le> int (length (is_of s h)) \<and>
    (rd_to r, rd_key r, rd_at r) = mark_of (is_of s h ! (nat (rd_to r) - 1)) \<and>
    0 \<le> vw_from (rd_view r) \<and> vw_from (rd_view r) \<le> rd_to r \<and>
    rd_added r = span_entries decode (is_of s h) (vw_from (rd_view r)) (rd_to r) \<and>
    vw_delta (rd_view r) < length (in_parts (sy_index s)) \<and>
    base_ok s r h \<and> (own_delta s r \<or> \<not> unfolded \<and> (\<exists>f. aliased s r h f))"

definition logs_ok :: "journal_entry list list \<Rightarrow> bool" where
  "logs_ok logs \<longleftrightarrow> logs \<noteq> [] \<and> (\<forall>evs \<in> set logs. log_ok evs) \<and>
    (\<forall>h h' e e'. h < h' \<longrightarrow> h' < length logs \<longrightarrow> e \<in> set (logs ! h) \<longrightarrow> e' \<in> set (logs ! h') \<longrightarrow> mark_of e \<noteq> mark_of e')"

definition index_inv :: "(json \<Rightarrow> checkpoint) \<Rightarrow> string \<Rightarrow> index_system \<Rightarrow> bool" where
  "index_inv decode rootId s \<longleftrightarrow> logs_ok (sy_logs s) \<and> length (sy_home s) = length (in_objects (sy_index s)) \<and>
    distinct (refs s) \<and> distinct (map delta_of (sy_reads s)) \<and>
    (\<forall>b. map_get (in_roots (sy_index s)) rootId = Some b \<longrightarrow> b < length (in_objects (sy_index s))) \<and>
    (\<forall>b < length (in_objects (sy_index s)). object_ok decode s b) \<and>
    (\<forall>x \<in> set (sy_begun s). begun_ok s x) \<and> (\<forall>x \<in> set (sy_reads s). read_ok decode s x)"

text \<open>The histories of the root only grow.\<close>

lemma inv_logs:
  assumes inv: "index_inv decode rootId s" and ok: "logs_ok logs" and len: "length (sy_logs s) \<le> length logs"
    and grow: "\<And>h. h < length (sy_logs s) \<Longrightarrow> \<exists>es. logs ! h = sy_logs s ! h @ es"
  shows "index_inv decode rootId (s\<lparr>sy_logs := logs\<rparr>)"
proof -
  let ?s = "s\<lparr>sy_logs := logs\<rparr>"
  have nth: "nat n - 1 < length (is_of s h) \<Longrightarrow> is_of ?s h ! (nat n - 1) = is_of s h ! (nat n - 1)" if "h < length (sy_logs s)" for h n
    using grow [OF that] by (auto simp: is_of_def nth_append)
  have longer: "length (is_of s h) \<le> length (is_of ?s h)" if "h < length (sy_logs s)" for h using grow [OF that] by (auto simp: is_of_def)
  have span: "span_entries decode (is_of ?s h) n m = span_entries decode (is_of s h) n m" if "h < length (sy_logs s)" "m \<le> int (length (is_of s h))" for h n m
    using grow [OF that(1)] span_prefix that(2) by (auto simp: is_of_def)
  have obj: "object_ok decode ?s b" if "object_ok decode s b" for b
    using that nth [of "sy_home s ! b" "rk_seq (in_objects (sy_index s) ! b)"] longer [of "sy_home s ! b"]
      span [of "sy_home s ! b" "rk_seq (in_objects (sy_index s) ! b)" 0] len
    by (auto simp: object_ok_def Let_def)
  have beg: "begun_ok ?s x" if x: "begun_ok s x" "x \<in> set (sy_begun s)" for x
  proof -
    obtain current base mark where X: "x = (current, base, mark)" by (cases x)
    show ?thesis
    proof (cases base)
      case (Some b)
      then obtain m where m: "b < length (in_objects (sy_index s))" "mark = Some m" "1 \<le> fst m" "fst m \<le> rk_seq (in_objects (sy_index s) ! b)"
        "m = mark_of (is_of s (sy_home s ! b) ! (nat (fst m) - 1))" using x X by auto
      have "object_ok decode s b" using inv m(1) by (simp add: index_inv_def)
      then have h: "sy_home s ! b < length (sy_logs s)" and "rk_seq (in_objects (sy_index s) ! b) \<le> int (length (is_of s (sy_home s ! b)))"
        by (auto simp: object_ok_def Let_def)
      then have "nat (fst m) - 1 < length (is_of s (sy_home s ! b))" using m(3,4) by linarith
      then show ?thesis using nth [OF h, of "fst m"] m X Some by auto
    qed (use x X in auto)
  qed
  have "read_ok decode ?s x" if "read_ok decode s x" for x
  proof -
    obtain r h u where X: "x = (r, h, u)" by (cases x)
    have "own_delta ?s r = own_delta s r" "aliased ?s r h f = aliased s r h f" "base_ok ?s r h = base_ok s r h" for f
      by (simp_all add: own_delta_def aliased_def refs_def base_ok_def)
    then show ?thesis using that X nth [of h "rd_to r"] longer [of h] span [of h "rd_to r"] len by auto
  qed
  then show ?thesis using inv ok obj beg by (auto simp: index_inv_def refs_def)
qed

lemma logs_ok_append:
  assumes ok: "logs_ok logs" and "je_seq e = int (length (last logs)) + 1"
    and new: "\<And>old e'. old \<in> set (butlast logs) \<Longrightarrow> e' \<in> set old \<Longrightarrow> mark_of e' \<noteq> mark_of e"
  shows "logs_ok (butlast logs @ [last logs @ [e]])"
proof -
  obtain ls evs where l: "logs = ls @ [evs]" using ok by (cases logs rule: rev_cases) (auto simp: logs_ok_def)
  have "log_ok (evs @ [e])" using ok assms(2) by (auto simp: l logs_ok_def log_ok_def nth_append less_Suc_eq)
  moreover have "mark_of x \<noteq> mark_of x'" if "h < h'" "h' < Suc (length ls)" "x \<in> set ((ls @ [evs @ [e]]) ! h)" "x' \<in> set ((ls @ [evs @ [e]]) ! h')" for h h' x x'
  proof -
    have old: "(ls @ [evs @ [e]]) ! h = (ls @ [evs]) ! h" "h < length ls" using that(1,2) by (simp_all add: nth_append)
    have both: "\<And>x'. x' \<in> set ((ls @ [evs]) ! h') \<Longrightarrow> mark_of x \<noteq> mark_of x'" using ok that(1-3) old by (auto simp: l logs_ok_def)
    show ?thesis
    proof (cases "h' = length ls \<and> x' = e")
      case True
      moreover have "ls ! h \<in> set (butlast logs)" using old(2) by (simp add: l)
      moreover have "x \<in> set (ls ! h)" using that(3) old by (simp add: nth_append)
      ultimately show ?thesis using new by blast
    next
      case False
      then have "x' \<in> set ((ls @ [evs]) ! h')" using that(2,4) by (auto simp: nth_append split: if_splits)
      then show ?thesis by (rule both)
    qed
  qed
  ultimately show ?thesis using ok by (auto simp: l logs_ok_def)
qed

lemma logs_ok_new: "logs_ok logs \<Longrightarrow> logs_ok (logs @ [[]])"
  by (auto simp: logs_ok_def nth_append log_ok_def)

section \<open>Every step keeps it\<close>

text \<open>The index after an object was added or moved on: every object keeps its place, its history and its partitions.\<close>

definition index_grows :: "index_system \<Rightarrow> index_system \<Rightarrow> bool" where
  "index_grows s s' \<longleftrightarrow> sy_logs s' = sy_logs s \<and> length (in_objects (sy_index s)) \<le> length (in_objects (sy_index s')) \<and>
    length (in_parts (sy_index s)) \<le> length (in_parts (sy_index s')) \<and>
    (\<forall>b < length (in_objects (sy_index s)). sy_home s' ! b = sy_home s ! b \<and>
      rk_partitions (in_objects (sy_index s') ! b) = rk_partitions (in_objects (sy_index s) ! b) \<and>
      rk_seq (in_objects (sy_index s) ! b) \<le> rk_seq (in_objects (sy_index s') ! b))"

lemma begun_grows:
  assumes "index_grows s s'" and "begun_ok s x"
  shows "begun_ok s' x"
proof -
  obtain current base mark where x: "x = (current, base, mark)" by (cases x)
  show ?thesis using assms by (cases base) (fastforce simp: x index_grows_def is_of_def)+
qed

lemma read_grows:
  assumes g: "index_grows s s'" and ok: "read_ok decode s (r, h, u)"
    and own: "own_delta s r \<Longrightarrow> own_delta s' r \<or> \<not> u \<and> (\<exists>f. aliased s' r h f)"
  shows "read_ok decode s' (r, h, u)"
proof -
  have "base_ok s' r h" using g ok by (fastforce simp: base_ok_def index_grows_def)
  moreover have "\<exists>f. aliased s' r h f" if "aliased s r h f" for f
    by (rule exI [of _ f]) (use that g in \<open>fastforce simp: aliased_def index_grows_def\<close>)
  ultimately show ?thesis using ok own g by (auto simp: is_of_def index_grows_def)
qed

lemma begun_okI:
  assumes "b < length (in_objects (sy_index s))" and "mark = Some m" and "1 \<le> fst m" and "fst m \<le> rk_seq (in_objects (sy_index s) ! b)"
    and "m = mark_of (is_of s (sy_home s ! b) ! (nat (fst m) - 1))"
  shows "begun_ok s (current, Some b, mark)"
  using assms by auto

lemma begins_inv:
  assumes inv: "index_inv decode rootId s" and b: "base = map_get (in_roots (sy_index s)) rootId"
  shows "index_inv decode rootId (s\<lparr>sy_begun := (base, base, base_mark (sy_index s) base) # sy_begun s\<rparr>)"
proof -
  let ?s = "s\<lparr>sy_begun := (base, base, base_mark (sy_index s) base) # sy_begun s\<rparr>"
  have g: "index_grows s ?s" by (simp add: index_grows_def)
  have "begun_ok ?s (base, base, base_mark (sy_index s) base)"
  proof (cases base)
    case (Some i)
    then have i: "i < length (in_objects (sy_index s))" "object_ok decode s i" using inv b by (auto simp: index_inv_def)
    let ?k = "in_objects (sy_index s) ! i"
    have k: "1 \<le> rk_seq ?k" "(rk_seq ?k, rk_key ?k, rk_at ?k) = mark_of (is_of s (sy_home s ! i) ! (nat (rk_seq ?k) - 1))"
      using i(2) by (simp_all add: object_ok_def Let_def)
    have "base_mark (sy_index s) (Some i) = Some (rk_seq ?k, rk_key ?k, rk_at ?k)" using k(1) by (simp add: base_mark_def Let_def)
    then have "begun_ok s (Some i, Some i, base_mark (sy_index s) (Some i))"
      by (rule begun_okI [OF i(1)]) (use k(1) in simp, simp, unfold fst_conv, rule k(2))
    then have "begun_ok s (base, base, base_mark (sy_index s) base)" unfolding Some .
    then show ?thesis by (rule begun_grows [OF g])
  qed (simp add: base_mark_def)
  moreover have "object_ok decode ?s i = object_ok decode s i" for i by (simp add: object_ok_def is_of_def)
  moreover have "read_ok decode ?s x" if "x \<in> set (sy_reads s)" for x
  proof -
    obtain r h u where x: "x = (r, h, u)" by (cases x)
    have "read_ok decode s (r, h, u)" using inv that x by (auto simp: index_inv_def)
    then show ?thesis unfolding x by (rule read_grows [OF g]) (simp add: own_delta_def refs_def)
  qed
  ultimately show ?thesis using inv begun_grows [OF g] unfolding index_inv_def
    by (simp add: refs_def del: read_ok.simps begun_ok.simps)
qed

lemma begun_inv:
  assumes inv: "index_inv decode rootId s" and "\<And>x. x \<in> set xs \<Longrightarrow> x \<in> set (sy_begun s) \<or> (\<exists>c. x = (c, None, None))"
  shows "index_inv decode rootId (s\<lparr>sy_begun := xs\<rparr>)"
proof -
  let ?s = "s\<lparr>sy_begun := xs\<rparr>"
  have g: "index_grows s ?s" by (simp add: index_grows_def)
  have "begun_ok ?s x" if "x \<in> set xs" for x
  proof (cases "x \<in> set (sy_begun s)")
    case True
    then have "begun_ok s x" using inv by (simp add: index_inv_def)
    then show ?thesis by (rule begun_grows [OF g])
  next
    case False
    then show ?thesis using assms(2) [OF that] by auto
  qed
  moreover have "object_ok decode ?s i = object_ok decode s i" for i by (simp add: object_ok_def is_of_def)
  moreover have "read_ok decode ?s x" if "x \<in> set (sy_reads s)" for x
  proof -
    obtain r h u where x: "x = (r, h, u)" by (cases x)
    have "read_ok decode s (r, h, u)" using inv that x by (auto simp: index_inv_def)
    then show ?thesis unfolding x by (rule read_grows [OF g]) (simp add: own_delta_def refs_def)
  qed
  ultimately show ?thesis using inv unfolding index_inv_def by (simp add: refs_def del: read_ok.simps begun_ok.simps)
qed

text \<open>A view reads the present history, and one with a base found the base to be of that history.\<close>

lemma views_inv:
  assumes inv: "index_inv decode rootId s" and beg: "begun_ok s (current, base, mark)" and ne: "last (sy_logs s) \<noteq> []"
    and p: "readEntries_pass decode (sy_index s) current base mark (log_from (last (sy_logs s))) = Some (r, ix')"
  shows "index_inv decode rootId (s\<lparr>sy_index := ix', sy_reads := (r, length (sy_logs s) - 1, True) # sy_reads s\<rparr>)"
proof -
  let ?h = "length (sy_logs s) - 1" and ?evs = "last (sy_logs s)"
  let ?s = "s\<lparr>sy_index := ix', sy_reads := (r, ?h, True) # sy_reads s\<rparr>"
  have logs: "logs_ok (sy_logs s)" "sy_logs s \<noteq> []" using inv by (auto simp: index_inv_def logs_ok_def)
  then have evs: "is_of s ?h = ?evs" "log_ok ?evs" "?h < length (sy_logs s)" by (auto simp: is_of_def last_conv_nth logs_ok_def)
  have m1: "\<forall>m. mark = Some m \<longrightarrow> 1 \<le> fst m" using beg by (auto split: option.splits)
  note eff = pass_effect [OF evs(2) ne m1 p]
  have refs_lt: "x < length (in_parts (sy_index s))" if "x \<in> set (refs s)" for x
    using inv that by (auto simp: index_inv_def refs_def object_ok_def Let_def in_set_conv_nth)
  have g: "index_grows s ?s" by (simp add: index_grows_def eff(1))
  have refs: "refs ?s = refs s" by (simp add: refs_def eff(1))
  have old: "in_parts ix' ! i = in_parts (sy_index s) ! i" if "i < length (in_parts (sy_index s))" for i using that by (simp add: eff(1) nth_append)
  have obj: "object_ok decode ?s i" if "object_ok decode s i" for i
    using that old [of "rk_partitions (in_objects (sy_index s) ! i)"] by (auto simp: object_ok_def is_of_def Let_def eff(1))
  have reads: "read_ok decode ?s x" if "x \<in> set (sy_reads s)" for x
  proof -
    obtain r' h' u where x: "x = (r', h', u)" by (cases x)
    have ok: "read_ok decode s (r', h', u)" using inv that x by (auto simp: index_inv_def)
    then have "vw_delta (rd_view r') < length (in_parts (sy_index s))" by simp
    then show ?thesis unfolding x using old [of "vw_delta (rd_view r')"]
      by (intro read_grows [OF g ok]) (simp add: own_delta_def refs_def eff(1))
  qed
  have "base_ok s r ?h \<and> vw_from (rd_view r) \<le> int (length ?evs) \<and> 0 \<le> vw_from (rd_view r)"
  proof (cases base)
    case None
    then have "mark = None" using beg by simp
    then show ?thesis using None unfolding base_ok_def eff(3) by simp
  next
    case (Some b)
    then obtain n k a where m: "mark = Some (n, k, a)" "1 \<le> n" "b < length (in_objects (sy_index s))" "n \<le> rk_seq (in_objects (sy_index s) ! b)"
      "(n, k, a) = mark_of (is_of s (sy_home s ! b) ! (nat n - 1))" using beg by fastforce
    have found: "n \<le> int (length ?evs)" "mark_of (?evs ! (nat n - 1)) = (n, k, a)" using eff(7) [OF m(1)] by auto
    have ok: "object_ok decode s b" using inv m(3) by (simp add: index_inv_def)
    let ?h' = "sy_home s ! b"
    have h': "?h' < length (sy_logs s)" "nat n - 1 < length (is_of s ?h')" using ok m(2,4) by (auto simp: object_ok_def Let_def)
    have "?h' = ?h"
    proof (rule ccontr)
      assume "?h' \<noteq> ?h"
      then have lt: "?h' < ?h" using h'(1) by linarith
      have in1: "is_of s ?h' ! (nat n - 1) \<in> set (sy_logs s ! ?h')" using h'(2) by (simp add: is_of_def)
      have in2: "?evs ! (nat n - 1) \<in> set (sy_logs s ! ?h)" using found(1) m(2) evs(1) ne by (auto simp: is_of_def intro!: nth_mem)
      show False using logs(1) lt evs(3) in1 in2 m(5) found(2) unfolding logs_ok_def by metis
    qed
    then show ?thesis using Some m(1-4) found(1) by (simp add: base_ok_def eff(3))
  qed
  moreover have "base_ok ?s r ?h = base_ok s r ?h" by (simp add: base_ok_def eff(1))
  moreover have "own_delta ?s r" using refs_lt by (auto simp: own_delta_def refs_def eff(1,3))
  moreover have "(rd_to r, rd_key r, rd_at r) = mark_of (is_of ?s ?h ! (nat (rd_to r) - 1))"
    using eff(4,5) ne evs(1) by (simp add: is_of_def last_conv_nth)
  moreover have "1 \<le> rd_to r" using eff(4) ne by (cases ?evs) auto
  ultimately have new: "read_ok decode ?s (r, ?h, True)" using eff(3,4,6) evs by (auto simp: is_of_def eff(1))
  have "delta_of x \<noteq> length (in_parts (sy_index s))" if "x \<in> set (sy_reads s)" for x
    using inv that by (cases x) (auto simp: index_inv_def delta_of_def)
  then have "distinct (map delta_of (sy_reads ?s))" using inv by (auto simp: index_inv_def delta_of_def eff(3))
  then show ?thesis using inv new reads obj begun_grows [OF g] refs unfolding index_inv_def
    by (simp add: eff(1) del: read_ok.simps begun_ok.simps)
qed

lemma reads_flag:
  assumes "index_inv decode rootId s" and "sy_reads s = before @ (r, h, True) # after"
  shows "index_inv decode rootId (s\<lparr>sy_reads := before @ (r, h, False) # after\<rparr>)"
proof -
  let ?s = "s\<lparr>sy_reads := before @ (r, h, False) # after\<rparr>"
  have g: "index_grows s ?s" by (simp add: index_grows_def)
  have reads: "read_ok decode s x" if "x \<in> set (sy_reads s)" for x using assms(1) that by (simp add: index_inv_def)
  have keep: "read_ok decode ?s (r', h', u)" if "read_ok decode s (r', h', u)" for r' h' u
    by (rule read_grows [OF g that]) (simp add: own_delta_def refs_def)
  have "read_ok decode s (r, h, False)" using reads [of "(r, h, True)"] assms(2) by simp
  then have "read_ok decode ?s x" if "x \<in> set (sy_reads ?s)" for x
    using that keep reads assms(2) by (cases x) (auto simp del: read_ok.simps)
  moreover have "object_ok decode ?s i = object_ok decode s i" for i by (simp add: object_ok_def is_of_def)
  moreover have "distinct (map delta_of (sy_reads ?s))" using assms by (auto simp: index_inv_def delta_of_def)
  ultimately show ?thesis using assms(1) begun_grows [OF g] unfolding index_inv_def
    by (simp add: refs_def del: read_ok.simps begun_ok.simps)
qed

text \<open>A fold that finds no object of the root makes one of the view's own partitions.\<close>

lemma fold_new_inv:
  assumes inv: "index_inv decode rootId s" and r: "sy_reads s = before @ (r, h, True) # after" and base: "vw_base (rd_view r) = None"
  defines "ix' \<equiv> (sy_index s)\<lparr>in_objects := in_objects (sy_index s) @
      [\<lparr>rk_seq = rd_to r, rk_key = rd_key r, rk_at = rd_at r, rk_partitions = vw_delta (rd_view r)\<rparr>],
    in_roots := map_set (in_roots (sy_index s)) rootId (length (in_objects (sy_index s)))\<rparr>"
  shows "index_inv decode rootId (s\<lparr>sy_index := ix', sy_reads := before @ (r, h, False) # after, sy_home := sy_home s @ [h]\<rparr>)"
proof -
  let ?s = "s\<lparr>sy_index := ix', sy_reads := before @ (r, h, False) # after, sy_home := sy_home s @ [h]\<rparr>"
  let ?n = "length (in_objects (sy_index s))"
  have len: "length (sy_home s) = ?n" using inv by (simp add: index_inv_def)
  have ok: "read_ok decode s (r, h, True)" using inv r by (simp add: index_inv_def del: read_ok.simps)
  then have own: "own_delta s r" and from0: "vw_from (rd_view r) = 0" using base by (auto simp: base_ok_def)
  have g: "index_grows s ?s" by (simp add: index_grows_def ix'_def nth_append len)
  have refs: "refs ?s = refs s @ [vw_delta (rd_view r)]" by (simp add: refs_def ix'_def)
  have deltas: "delta_of x \<noteq> vw_delta (rd_view r)" if "x \<in> set (before @ after)" for x
  proof -
    have "distinct (map delta_of (before @ (r, h, True) # after))" using inv r by (simp add: index_inv_def)
    then have "delta_of (r, h, True) \<notin> delta_of ` set (before @ after)" by auto
    then show ?thesis using that by (force simp: delta_of_def image_iff)
  qed
  have new: "object_ok decode ?s ?n"
    using ok own from0 by (simp add: object_ok_def Let_def ix'_def nth_append len is_of_def own_delta_def)
  have objs: "object_ok decode ?s i" if "i < Suc ?n" for i
  proof (cases "i = ?n")
    case False
    then have "i < ?n" using that by simp
    moreover from this have "object_ok decode s i" using inv by (simp add: index_inv_def)
    ultimately show ?thesis by (simp add: object_ok_def Let_def ix'_def nth_append len is_of_def)
  qed (use new in simp)
  have self: "read_ok decode ?s (r, h, False)"
  proof (rule read_grows [OF g])
    show "read_ok decode s (r, h, False)" using ok by simp
    have "aliased ?s r h ?n" using base by (simp add: aliased_def ix'_def nth_append len)
    then show "own_delta ?s r \<or> \<not> False \<and> (\<exists>f. aliased ?s r h f)" by blast
  qed
  have others: "read_ok decode ?s x" if x: "x \<in> set (before @ after)" for x
  proof -
    obtain r' h' u where X: "x = (r', h', u)" by (cases x)
    have "read_ok decode s (r', h', u)" using inv r x X by (auto simp: index_inv_def simp del: read_ok.simps)
    moreover have "own_delta s r' \<Longrightarrow> own_delta ?s r'" using deltas [OF x] X by (auto simp: own_delta_def refs_def delta_of_def ix'_def)
    ultimately show ?thesis unfolding X by (intro read_grows [OF g]) auto
  qed
  have "distinct (refs ?s)" using inv own by (auto simp: index_inv_def refs own_delta_def)
  moreover have "distinct (map delta_of (sy_reads ?s))" using inv r by (auto simp: index_inv_def delta_of_def)
  moreover have "read_ok decode ?s x" if "x \<in> set (sy_reads ?s)" for x using that self others [of x] by (auto simp del: read_ok.simps)
  ultimately show ?thesis using inv objs begun_grows [OF g] len unfolding index_inv_def
    by (auto simp: ix'_def split: if_splits simp del: read_ok.simps begun_ok.simps)
qed

lemma add_all_append: "add_all (add_all p xs) ys = add_all p (xs @ ys)"
  by (simp add: add_all_def)

text \<open>A fold into the object the read was based on adds what that object lacks, also when it moved on meanwhile.\<close>

lemma fold_base_inv:
  assumes inv: "index_inv decode rootId s" and r: "sy_reads s = before @ (r, h, True) # after" and base: "vw_base (rd_view r) = Some b"
    and more: "rk_seq (in_objects (sy_index s) ! b) < rd_to r"
  defines "k \<equiv> in_objects (sy_index s) ! b"
  defines "ix' \<equiv> (sy_index s)\<lparr>in_parts := (in_parts (sy_index s))[rk_partitions k :=
      add_all (in_parts (sy_index s) ! rk_partitions k) (filter (\<lambda>e. rk_seq k < ix_seq e) (rd_added r))],
    in_objects := (in_objects (sy_index s))[b := k\<lparr>rk_seq := rd_to r, rk_key := rd_key r, rk_at := rd_at r\<rparr>]\<rparr>"
  shows "index_inv decode rootId (s\<lparr>sy_index := ix', sy_reads := before @ (r, h, False) # after\<rparr>)"
proof -
  let ?s = "s\<lparr>sy_index := ix', sy_reads := before @ (r, h, False) # after\<rparr>"
  have ok: "read_ok decode s (r, h, True)" using inv r by (simp add: index_inv_def del: read_ok.simps)
  then have b: "b < length (in_objects (sy_index s))" "sy_home s ! b = h" "vw_from (rd_view r) \<le> rk_seq k"
    using base by (auto simp: base_ok_def k_def)
  have ob: "object_ok decode s b" using inv b(1) by (simp add: index_inv_def)
  have logs: "log_ok (is_of s h)" using inv ok by (auto simp: index_inv_def logs_ok_def is_of_def)
  have g: "index_grows s ?s" using more b(1) by (auto simp: index_grows_def ix'_def nth_list_update k_def)
  have refs: "refs ?s = refs s"
    using b(1) by (simp add: refs_def ix'_def map_update k_def) (metis length_map list_update_id nth_map)
  have part: "in_parts ix' ! i = in_parts (sy_index s) ! i" if "i \<noteq> rk_partitions k" for i using that by (simp add: ix'_def)
  have kref: "rk_partitions k \<in> set (refs s)" using b(1) by (auto simp: refs_def k_def)
  have "filter (\<lambda>e. rk_seq k < ix_seq e) (rd_added r) = span_entries decode (is_of s h) (rk_seq k) (rd_to r)"
    using ok span_after [OF logs, of "vw_from (rd_view r)" "rk_seq k" "rd_to r"] b(3) more by (simp add: k_def)
  then have "in_parts ix' ! rk_partitions k = add_all new_partitions (span_entries decode (is_of s h) 0 (rd_to r))"
    using ob b(2) more span_split [of 0 "rk_seq k" "rd_to r" decode "is_of s h"]
    by (simp add: ix'_def object_ok_def Let_def k_def add_all_append)
  then have newb: "object_ok decode ?s b"
    using ob b ok by (simp add: object_ok_def Let_def is_of_def ix'_def k_def)
  have objs: "object_ok decode ?s i" if i: "i < length (in_objects (sy_index s))" for i
  proof (cases "i = b")
    case False
    then have "rk_partitions (in_objects (sy_index s) ! i) \<noteq> rk_partitions k"
      using inv i b(1) nth_eq_iff_index_eq [of "refs s" i b] by (auto simp: index_inv_def refs_def k_def)
    moreover have "object_ok decode s i" using inv i by (simp add: index_inv_def)
    ultimately show ?thesis using False part by (simp add: object_ok_def Let_def is_of_def ix'_def)
  qed (use newb in simp)
  have keep: "read_ok decode ?s (r', h', u)" if "read_ok decode s (r', h', u)" for r' h' u
  proof (rule read_grows [OF g that])
    assume "own_delta s r'"
    moreover from this have "vw_delta (rd_view r') \<noteq> rk_partitions k" using kref by (auto simp: own_delta_def)
    ultimately have "own_delta ?s r'" using part [of "vw_delta (rd_view r')"] by (simp add: own_delta_def refs)
    then show "own_delta ?s r' \<or> \<not> u \<and> (\<exists>f. aliased ?s r' h' f)" by blast
  qed
  have reads: "read_ok decode s x" if "x \<in> set (sy_reads s)" for x using inv that by (simp add: index_inv_def)
  have "read_ok decode s (r, h, False)" using ok by simp
  then have "read_ok decode ?s x" if "x \<in> set (sy_reads ?s)" for x
    using that keep reads r by (cases x) (auto simp del: read_ok.simps)
  moreover have "distinct (map delta_of (sy_reads ?s))" using inv r by (auto simp: index_inv_def delta_of_def)
  ultimately show ?thesis using inv objs begun_grows [OF g] refs unfolding index_inv_def
    by (auto simp: ix'_def simp del: read_ok.simps begun_ok.simps)
qed

lemma folds_inv:
  assumes inv: "index_inv decode rootId s" and r: "sy_reads s = before @ (r, h, True) # after" and c: "commit_read rootId (sy_index s) r = ix'"
  shows "index_inv decode rootId (s\<lparr>sy_index := ix', sy_reads := before @ (r, h, False) # after,
    sy_home := (if length (in_objects ix') = length (in_objects (sy_index s)) then sy_home s else sy_home s @ [h])\<rparr>)"
proof -
  have flag: ?thesis if "ix' = sy_index s"
  proof -
    have "s\<lparr>sy_index := ix', sy_reads := before @ (r, h, False) # after,
      sy_home := (if length (in_objects ix') = length (in_objects (sy_index s)) then sy_home s else sy_home s @ [h])\<rparr> =
      s\<lparr>sy_reads := before @ (r, h, False) # after\<rparr>" unfolding \<open>ix' = sy_index s\<close> by simp
    then show ?thesis using reads_flag [OF inv r] by simp
  qed
  show ?thesis
  proof (cases "vw_base (rd_view r)")
    case None
    show ?thesis
    proof (cases "map_get (in_roots (sy_index s)) rootId = rd_current r")
      case True
      then show ?thesis using fold_new_inv [OF inv r None] c None by (auto simp: commit_read_def Let_def)
    next
      case False
      then have "ix' = sy_index s" using c None by (simp add: commit_read_def Let_def)
      then show ?thesis by (rule flag)
    qed
  next
    case (Some b)
    let ?k = "in_objects (sy_index s) ! b"
    show ?thesis
    proof (cases "map_get (in_roots (sy_index s)) rootId = Some b \<and> rk_seq ?k < rd_to r")
      case True
      then have "ix' = (sy_index s)\<lparr>in_parts := (in_parts (sy_index s))[rk_partitions ?k :=
          add_all (in_parts (sy_index s) ! rk_partitions ?k) (filter (\<lambda>e. rk_seq ?k < ix_seq e) (rd_added r))],
        in_objects := (in_objects (sy_index s))[b := ?k\<lparr>rk_seq := rd_to r, rk_key := rd_key r, rk_at := rd_at r\<rparr>]\<rparr>"
        using c Some by (simp add: commit_read_def Let_def)
      then show ?thesis using fold_base_inv [OF inv r Some] True by simp
    next
      case False
      then have "ix' = sy_index s" using c Some by (auto simp: commit_read_def Let_def)
      then show ?thesis by (rule flag)
    qed
  qed
qed

lemma index_step_inv:
  assumes "index_step decode rootId s s'" and inv: "index_inv decode rootId s"
  shows "index_inv decode rootId s'"
  using assms(1)
proof cases
  case (appends e)
  have ok: "logs_ok (sy_logs s)" using inv by (simp add: index_inv_def)
  obtain ls evs where l: "sy_logs s = ls @ [evs]" using ok by (cases "sy_logs s" rule: rev_cases) (auto simp: logs_ok_def)
  show ?thesis unfolding appends(1)
    by (rule inv_logs [OF inv logs_ok_append [OF ok appends(2,3)]]) (auto simp: l nth_append less_Suc_eq)
next
  case rerecords
  have "logs_ok (sy_logs s @ [[]])" using inv by (simp add: index_inv_def logs_ok_new)
  then show ?thesis unfolding rerecords by (rule inv_logs [OF inv]) (auto simp: nth_append)
next
  case (begins base)
  show ?thesis unfolding begins(1) by (rule begins_inv [OF inv begins(2)])
next
  case (restarts current base mark)
  show ?thesis unfolding restarts(1) by (rule begun_inv [OF inv]) (use set_remove1_subset in fastforce)
next
  case (views current base mark r ix')
  have "begun_ok s (current, base, mark)" using inv views(2) by (auto simp: index_inv_def simp del: begun_ok.simps)
  note i = views_inv [OF inv this views(3,4)]
  have "index_inv decode rootId ((s\<lparr>sy_index := ix', sy_reads := (r, length (sy_logs s) - 1, True) # sy_reads s\<rparr>)
      \<lparr>sy_begun := remove1 (current, base, mark) (sy_begun s)\<rparr>)"
    by (rule begun_inv [OF i]) (use set_remove1_subset in fastforce)
  then show ?thesis unfolding views(1) .
next
  case (folds before r h after ix')
  show ?thesis unfolding folds(1) by (rule folds_inv [OF inv folds(2,3)])
qed

lemma index_inv_new: "index_inv decode rootId new_index_system"
  by (simp add: index_inv_def new_index_system_def new_index_def logs_ok_def log_ok_def refs_def)

lemma index_inv_reachable:
  assumes "(index_step decode rootId)\<^sup>*\<^sup>* new_index_system s"
  shows "index_inv decode rootId s"
  using assms by (induction rule: rtranclp_induct) (auto intro: index_inv_new index_step_inv)

section \<open>A view answers like a scan\<close>

definition answers_scan :: "index \<Rightarrow> checkpoint_view \<Rightarrow> index_entry list \<Rightarrow> bool" where
  "answers_scan ix view es \<longleftrightarrow>
    (\<forall>k. entries ix byRun view k = filter (\<lambda>e. checkpoint_run (ix_checkpoint e) = Some k) es) \<and>
    (\<forall>k. entries ix startsByChild view k = filter (\<lambda>e. start_child_key (ix_checkpoint e) = Some k) es) \<and>
    (\<forall>k. entries ix stagesByGroup view k = filter (\<lambda>e. group_key (ix_checkpoint e) = Some k) es) \<and>
    (\<forall>k. entries ix stagesByReplayKey view k = filter (\<lambda>e. replay_key (ix_checkpoint e) = Some k) es) \<and>
    (\<forall>k. entries ix boundariesByStageId view k = filter (\<lambda>e. boundary_stage_key (ix_checkpoint e) = Some k) es) \<and>
    (\<forall>k. entries ix boundariesByChild view k = filter (\<lambda>e. boundary_child_key (ix_checkpoint e) = Some k) es)"

lemma view_entries:
  assumes inv: "index_inv decode rootId s" and "(r, h, u) \<in> set (sy_reads s)" and sel: "partition_of sel key"
  shows "own_delta s r \<Longrightarrow> entries (sy_index s) sel (rd_view r) k =
      filter (\<lambda>e. key (ix_checkpoint e) = Some k) (span_entries decode (sy_logs s ! h) 0 (rd_to r))"
    and "aliased s r h f \<Longrightarrow> entries (sy_index s) sel (rd_view r) k =
      filter (\<lambda>e. key (ix_checkpoint e) = Some k) (span_entries decode (sy_logs s ! h) 0 (rk_seq (in_objects (sy_index s) ! f)))"
proof -
  let ?P = "\<lambda>e. key (ix_checkpoint e) = Some k" and ?from = "vw_from (rd_view r)"
  have ok: "read_ok decode s (r, h, u)" using inv assms(2) by (auto simp: index_inv_def simp del: read_ok.simps)
  have logs: "log_ok (sy_logs s ! h)" using inv ok by (auto simp: index_inv_def logs_ok_def)
  show "entries (sy_index s) sel (rd_view r) k = filter ?P (span_entries decode (sy_logs s ! h) 0 (rd_to r))" if own: "own_delta s r"
  proof -
    have delta: "map_get_or (sel (in_parts (sy_index s) ! vw_delta (rd_view r))) k [] = filter ?P (span_entries decode (sy_logs s ! h) ?from (rd_to r))"
      using own ok get_new [OF sel, of "rd_added r"] by (simp add: own_delta_def is_of_def)
    have split: "span_entries decode (sy_logs s ! h) 0 (rd_to r) = span_entries decode (sy_logs s ! h) 0 ?from @ span_entries decode (sy_logs s ! h) ?from (rd_to r)"
      using ok by (intro span_split) auto
    show ?thesis
    proof (cases "vw_base (rd_view r)")
      case None
      then have "?from = 0" using ok by (simp add: base_ok_def)
      then show ?thesis using None delta split by (simp add: entries_def span_entries_def)
    next
      case (Some b)
      let ?k = "in_objects (sy_index s) ! b"
      have b: "b < length (in_objects (sy_index s))" "sy_home s ! b = h" "?from \<le> rk_seq ?k" using ok Some by (auto simp: base_ok_def)
      then have "object_ok decode s b" using inv by (simp add: index_inv_def)
      then have "map_get_or (sel (in_parts (sy_index s) ! rk_partitions ?k)) k [] = filter ?P (span_entries decode (sy_logs s ! h) 0 (rk_seq ?k))"
        using b(2) get_new [OF sel] by (simp add: object_ok_def Let_def is_of_def)
      moreover have "filter (\<lambda>e. ix_seq e \<le> ?from) (filter ?P (span_entries decode (sy_logs s ! h) 0 (rk_seq ?k))) =
          filter ?P (span_entries decode (sy_logs s ! h) 0 ?from)"
        using span_upto [OF logs _ b(3), of decode] ok filter_filter [of ?P "\<lambda>e. ix_seq e \<le> ?from" "span_entries decode (sy_logs s ! h) 0 (rk_seq ?k)"]
          filter_filter [of "\<lambda>e. ix_seq e \<le> ?from" ?P "span_entries decode (sy_logs s ! h) 0 (rk_seq ?k)"] by (simp add: conj_commute)
      ultimately show ?thesis using Some delta split by (simp add: entries_def)
    qed
  qed
  show "entries (sy_index s) sel (rd_view r) k = filter ?P (span_entries decode (sy_logs s ! h) 0 (rk_seq (in_objects (sy_index s) ! f)))" if al: "aliased s r h f"
  proof -
    have "object_ok decode s f" using inv al by (auto simp: index_inv_def aliased_def)
    then show ?thesis using al get_new [OF sel] by (simp add: aliased_def object_ok_def Let_def entries_def is_of_def)
  qed
qed


section \<open>Reads inside a transaction\<close>

lemma pass_succeeds:
  assumes ok: "log_ok evs" and m: "\<forall>n k a. mark = Some (n, k, a) \<longrightarrow> 1 \<le> n \<and> n \<le> int (length evs) \<and> mark_of (evs ! (nat n - 1)) = (n, k, a)"
  shows "readEntries_pass decode ix current base mark (log_from evs) \<noteq> None"
proof (cases mark)
  case None
  then show ?thesis using read_stream_plain [of "log_from evs 1" None decode True None "[]"] by (simp add: readEntries_pass_def)
next
  case (Some w)
  obtain n k a where w: "w = (n, k, a)" by (cases w)
  have n: "1 \<le> n" "nat n - 1 < length evs" "mark_of (evs ! (nat n - 1)) = (n, k, a)" using m Some w by auto
  have "log_from evs n = drop (nat n - 1) evs" using log_from_drop [OF ok n(1)] n(1) by (simp add: nat_diff_distrib')
  then have st: "log_from evs n = evs ! (nat n - 1) # drop (nat n) evs" using Cons_nth_drop_Suc [OF n(2)] n(1) by (simp add: Suc_diff_Suc)
  have later: "map_option fst mark \<noteq> Some (je_seq e)" if e: "e \<in> set (drop (nat n) evs)" for e
  proof -
    obtain i where "nat n + i < length evs" "e = evs ! (nat n + i)" using e by (rule in_drop)
    then show ?thesis using log_ok_nth [OF ok, of "nat n + i"] Some w n by simp
  qed
  show ?thesis using n(3) Some w st read_stream_plain [of "drop (nat n) evs" mark decode True _ "[]", OF later]
    by (simp add: readEntries_pass_def mark_of_def split: prod.splits)
qed

lemma find_seq:
  assumes "log_ok evs" and "1 \<le> n"
  shows "find (\<lambda>e. je_seq e = n) evs = (if n \<le> int (length evs) then Some (evs ! (nat n - 1)) else None)"
proof (cases "n \<le> int (length evs)")
  case True
  let ?i = "nat n - 1"
  have i: "?i < length evs" using True assms(2) by linarith
  have "je_seq (evs ! ?i) = n" using log_ok_nth [OF assms(1) i] assms(2) by simp
  moreover have "je_seq (evs ! j) \<noteq> n" if "j < ?i" for j using log_ok_nth [OF assms(1), of j] i that by simp
  ultimately have "find (\<lambda>e. je_seq e = n) evs = Some (evs ! ?i)" unfolding find_Some_iff using i by blast
  then show ?thesis using True by simp
next
  case False
  then show ?thesis using log_ok_nth [OF assms(1)] by (auto simp: find_None_iff in_set_conv_nth)
qed

lemma tx_entries:
  assumes "log_ok evs" and "0 \<le> n"
  shows "indexed_entries decode (filter (\<lambda>e. n < je_seq e \<and> je_seq e \<le> int (length evs)) evs) = span_entries decode evs n (int (length evs))"
proof -
  have "je_seq e \<le> int (length evs)" if "e \<in> set evs" for e using that log_ok_nth [OF assms(1)] by (auto simp: in_set_conv_nth)
  then have "filter (\<lambda>e. n < je_seq e \<and> je_seq e \<le> int (length evs)) evs = log_from evs (n + 1)"
    unfolding log_from_def by (intro filter_cong) auto
  then show ?thesis using log_from_drop [OF assms(1), of "n + 1"] assms(2) by (simp add: span_entries_def)
qed

text \<open>The object of the root the read in the transaction takes as its base.\<close>

definition tx_base :: "string \<Rightarrow> index \<Rightarrow> journal_entry list \<Rightarrow> nat option" where
  "tx_base rootId ix evs = (case map_get (in_roots ix) rootId of
      None \<Rightarrow> None
    | Some b \<Rightarrow> let k = in_objects ix ! b in
        if rk_seq k \<le> int (length evs) \<and> mark_of (evs ! (nat (rk_seq k) - 1)) = (rk_seq k, rk_key k, rk_at k) then Some b else None)"

lemma read_in_tx_view:
  assumes ok: "log_ok evs" and ne: "evs \<noteq> []" and pos: "\<forall>b. map_get (in_roots ix) rootId = Some b \<longrightarrow> 1 \<le> rk_seq (in_objects ix ! b)"
  defines "base \<equiv> tx_base rootId ix evs"
  defines "start \<equiv> (case base of None \<Rightarrow> 0 | Some b \<Rightarrow> rk_seq (in_objects ix ! b))"
  shows "read_in_tx decode rootId ix evs = make_view ix (map_get (in_roots ix) rootId) base start (int (length evs))
    (Some (mark_of (last evs))) (span_entries decode evs start (int (length evs)))"
proof -
  have last: "je_seq (last evs) = int (length evs)"
    using ne log_ok_nth [OF ok, of "length evs - 1"] by (cases evs rule: rev_cases) auto
  have at: "(if je_seq (last evs) = n then Some (last evs) else find (\<lambda>e. je_seq e = n) evs) =
      (if n \<le> int (length evs) then Some (evs ! (nat n - 1)) else None)" if "1 \<le> n" for n
    using ne last find_seq [OF ok that] that by (auto simp: last_conv_nth)
  have seq: "je_seq (evs ! (nat n - 1)) = n" if "1 \<le> n" "n \<le> int (length evs)" for n
    using log_ok_nth [OF ok, of "nat n - 1"] that by simp
  have base: "(case map_get (in_roots ix) rootId of None \<Rightarrow> None | Some b \<Rightarrow> let known = in_objects ix ! b in
      if 0 < rk_seq known
      then let mark = (if map_option je_seq (Some (last evs)) = Some (rk_seq known) then Some (last evs) else find (\<lambda>e. je_seq e = rk_seq known) evs) in
        if map_option (\<lambda>e. (je_key e, je_at e)) mark = Some (rk_key known, rk_at known) then Some b else None
      else Some b) = base"
    using pos seq by (auto simp: base_def tx_base_def Let_def at mark_of_def split: option.splits)
  have start: "0 \<le> start" "start \<le> int (length evs)"
    using pos by (auto simp: start_def base_def tx_base_def Let_def split: option.splits if_splits dest: spec)
  have added: "(if start < int (length evs) then indexed_entries decode (filter (\<lambda>e. start < je_seq e \<and> je_seq e \<le> int (length evs)) evs) else []) =
      span_entries decode evs start (int (length evs))"
    using tx_entries [OF ok start(1)] start(2) by (auto simp: span_entries_def indexed_entries_def List.map_filter_def)
  have head: "(if evs = [] then None else Some (last evs)) = Some (last evs)" using ne by simp
  show ?thesis unfolding read_in_tx_def head Let_def
    unfolding base [unfolded Let_def] unfolding start_def [symmetric] option.case option.map last added ..
qed

text \<open>A read in the transaction is what the steps of a read of the journal's stream come to when nothing happens between them.\<close>

lemma pass_view:
  assumes "log_ok evs" and "evs \<noteq> []" and "\<forall>m. mark = Some m \<longrightarrow> 1 \<le> fst m"
    and "readEntries_pass decode ix current base mark (log_from evs) \<noteq> None"
  shows "readEntries_pass decode ix current base mark (log_from evs) = Some (make_view ix current base (case mark of None \<Rightarrow> 0 | Some m \<Rightarrow> fst m)
    (int (length evs)) (Some (mark_of (last evs))) (span_entries decode evs (case mark of None \<Rightarrow> 0 | Some m \<Rightarrow> fst m) (int (length evs))))"
proof -
  obtain r ix' where p: "readEntries_pass decode ix current base mark (log_from evs) = Some (r, ix')" using assms(4) by auto
  note e = pass_effect [OF assms(1-3) p]
  have "(r, ix') = make_view ix current base (case mark of None \<Rightarrow> 0 | Some m \<Rightarrow> fst m)
    (int (length evs)) (Some (mark_of (last evs))) (span_entries decode evs (case mark of None \<Rightarrow> 0 | Some m \<Rightarrow> fst m) (int (length evs)))"
    unfolding make_view_def using e(1-6) by (cases r) (auto simp: mark_of_def)
  then show ?thesis using p by simp
qed

lemma read_in_tx_steps:
  assumes inv: "index_inv decode rootId s" and ne: "last (sy_logs s) \<noteq> []"
    and tx: "read_in_tx decode rootId (sy_index s) (last (sy_logs s)) = (r, ix')"
  shows "(index_step decode rootId)\<^sup>*\<^sup>* s (s\<lparr>sy_index := ix', sy_reads := (r, length (sy_logs s) - 1, True) # sy_reads s\<rparr>)"
proof -
  let ?evs = "last (sy_logs s)" and ?ix = "sy_index s" and ?n = "length (sy_logs s) - 1"
  define cur where "cur = map_get (in_roots ?ix) rootId"
  define mark where "mark = base_mark ?ix cur"
  have ok: "log_ok ?evs" using inv by (auto simp: index_inv_def logs_ok_def)
  have pos: "1 \<le> rk_seq (in_objects ?ix ! b)" if "cur = Some b" for b
    using inv that by (auto simp: index_inv_def object_ok_def Let_def cur_def)
  have mark_cur: "mark = map_option (\<lambda>b. let k = in_objects ?ix ! b in (rk_seq k, rk_key k, rk_at k)) cur"
    using pos by (cases cur) (auto simp: mark_def base_mark_def Let_def dest: pos)
  have view: "readEntries_pass decode ?ix cur base m (log_from ?evs) = Some (r, ix')"
    if base: "base = tx_base rootId ?ix ?evs" and m: "m = (if base = None then None else mark)" for base m
  proof -
    have cond: "\<forall>n k a. m = Some (n, k, a) \<longrightarrow> 1 \<le> n \<and> n \<le> int (length ?evs) \<and> mark_of (?evs ! (nat n - 1)) = (n, k, a)"
      using base m mark_cur pos by (auto simp: tx_base_def cur_def Let_def split: option.splits if_splits)
    have first: "(case m of None \<Rightarrow> 0 | Some m \<Rightarrow> fst m) = (case base of None \<Rightarrow> 0 | Some b \<Rightarrow> rk_seq (in_objects ?ix ! b))"
      using base m mark_cur by (auto simp: tx_base_def cur_def Let_def split: option.splits if_splits)
    have "\<forall>b. map_get (in_roots ?ix) rootId = Some b \<longrightarrow> 1 \<le> rk_seq (in_objects ?ix ! b)" using pos by (simp add: cur_def)
    from read_in_tx_view [OF ok ne this, of decode]
    have "(r, ix') = make_view ?ix cur base (case m of None \<Rightarrow> 0 | Some m \<Rightarrow> fst m) (int (length ?evs)) (Some (mark_of (last ?evs)))
        (span_entries decode ?evs (case m of None \<Rightarrow> 0 | Some m \<Rightarrow> fst m) (int (length ?evs)))"
      unfolding first tx base [symmetric] cur_def [symmetric] .
    moreover have "\<forall>w. m = Some w \<longrightarrow> 1 \<le> fst w" using cond by auto
    ultimately show ?thesis using pass_view [OF ok ne _ pass_succeeds [OF ok cond]] by simp
  qed
  let ?s1 = "s\<lparr>sy_begun := (cur, cur, mark) # sy_begun s\<rparr>"
  have one: "index_step decode rootId s ?s1" using index_step.begins [of cur s rootId decode] by (simp add: cur_def mark_def)
  show ?thesis
  proof (cases "tx_base rootId ?ix ?evs = cur")
    case True
    have "readEntries_pass decode ?ix cur cur mark (log_from ?evs) = Some (r, ix')" 
      using view [of cur mark] True mark_cur by (cases cur) simp_all
    then have "index_step decode rootId ?s1 (s\<lparr>sy_index := ix', sy_reads := (r, ?n, True) # sy_reads s\<rparr>)"
      using index_step.views [of cur cur mark ?s1 decode r ix' rootId] ne by simp
    with one show ?thesis by (meson converse_rtranclp_into_rtranclp r_into_rtranclp)
  next
    case False
    then obtain b where b: "cur = Some b" and none: "tx_base rootId ?ix ?evs = None"
      by (auto simp: tx_base_def cur_def Let_def split: option.splits if_splits)
    have "readEntries_pass decode ?ix cur cur mark (log_from ?evs) = None"
    proof (rule ccontr)
      assume "readEntries_pass decode ?ix cur cur mark (log_from ?evs) \<noteq> None"
      then obtain r2 ix2 where p: "readEntries_pass decode ?ix cur cur mark (log_from ?evs) = Some (r2, ix2)" by auto
      have "\<forall>w. mark = Some w \<longrightarrow> 1 \<le> fst w" using mark_cur b pos by (auto simp: Let_def)
      from pass_effect(7) [OF ok ne this p] show False using mark_cur b none by (auto simp: tx_base_def cur_def Let_def split: if_splits)
    qed
    then have two: "index_step decode rootId ?s1 (s\<lparr>sy_begun := (cur, None, None) # sy_begun s\<rparr>)"
      using index_step.restarts [of cur cur mark ?s1 decode rootId] ne by simp
    let ?s2 = "s\<lparr>sy_begun := (cur, None, None) # sy_begun s\<rparr>"
    have "readEntries_pass decode ?ix cur None None (log_from ?evs) = Some (r, ix')" using view [of None None] none by simp
    then have "index_step decode rootId ?s2 (s\<lparr>sy_index := ix', sy_reads := (r, ?n, True) # sy_reads s\<rparr>)"
      using index_step.views [of cur None None ?s2 decode r ix' rootId] ne by simp
    with one two show ?thesis by (meson converse_rtranclp_into_rtranclp r_into_rtranclp)
  qed
qed
section \<open>A small history\<close>

text \<open>
  Two events of a root and two reads: the first reads one event and is folded in, the second, based on the first, reads the
  other and is folded in too.
\<close>

definition sample_stage :: stage_checkpoint where
  "sample_stage = \<lparr>sc_workflowId = ''r'', sc_checkpointId = ''s:1'', sc_name = ''n'', sc_replayKey = ''s:1'', sc_topology = None, sc_output = None,
    sc_sessionId = None, sc_sessionFile = None, sc_completedAt = 0\<rparr>"

definition sample_decode :: "json \<Rightarrow> checkpoint" where
  "sample_decode j = Stage sample_stage"

definition sample_event :: "int \<Rightarrow> journal_entry" where
  "sample_event n = \<lparr>je_runId = [114], je_seq = n, je_epoch = 1, je_key = None, je_event = RunEvent CheckpointRecorded JNull, je_at = n\<rparr>"

definition sample_entry :: "int \<Rightarrow> index_entry" where
  "sample_entry n = \<lparr>ix_seq = n, ix_order = [], ix_checkpoint = StageIx sample_stage\<rparr>"

definition sample_read1 :: checkpoint_read where
  "sample_read1 = \<lparr>rd_current = None, rd_view = \<lparr>vw_base = None, vw_from = 0, vw_delta = 0\<rparr>, rd_to = 1, rd_key = None, rd_at = 1,
    rd_added = [sample_entry 1]\<rparr>"

definition sample_read2 :: checkpoint_read where
  "sample_read2 = \<lparr>rd_current = Some 0, rd_view = \<lparr>vw_base = Some 0, vw_from = 1, vw_delta = 1\<rparr>, rd_to = 2, rd_key = None, rd_at = 2,
    rd_added = [sample_entry 2]\<rparr>"

definition sample_parts :: "index_entry list \<Rightarrow> partitions" where
  "sample_parts es = add_all new_partitions es"

definition sample_object :: "int \<Rightarrow> root_checkpoints" where
  "sample_object n = \<lparr>rk_seq = n, rk_key = None, rk_at = n, rk_partitions = 0\<rparr>"

abbreviation sample_index_step :: "index_system \<Rightarrow> index_system \<Rightarrow> bool" where
  "sample_index_step \<equiv> index_step sample_decode ''r''"

lemma sample_entry_of: "index_entry_of sample_decode (sample_event n) = Some (sample_entry n)"
  by (simp add: index_entry_of_def sample_event_def sample_decode_def sample_entry_def)

lemma sample_pass1: "readEntries_pass sample_decode new_index None None None (log_from [sample_event 1]) =
    Some (sample_read1, \<lparr>in_parts = [sample_parts [sample_entry 1]], in_objects = [], in_roots = []\<rparr>)"
  by (simp add: readEntries_pass_def make_view_def log_from_def new_index_def sample_read1_def sample_entry_of sample_parts_def mark_of_def
      sample_event_def [of 1] Let_def) (simp add: sample_entry_of [unfolded sample_event_def])

definition sample_seen :: index_system where
  "sample_seen = \<lparr>sy_logs = [[sample_event 1]], sy_index = \<lparr>in_parts = [sample_parts [sample_entry 1]], in_objects = [], in_roots = []\<rparr>,
    sy_begun = [], sy_reads = [(sample_read1, 0, True)], sy_home = []\<rparr>"

lemma sample_seen_reached: "sample_index_step\<^sup>*\<^sup>* new_index_system sample_seen"
proof -
  let ?s1 = "\<lparr>sy_logs = [[sample_event 1]], sy_index = new_index, sy_begun = [], sy_reads = [], sy_home = []\<rparr>"
  let ?s2 = "?s1\<lparr>sy_begun := [(None, None, None)]\<rparr>"
  have "sample_index_step new_index_system ?s1"
    using index_step.appends [of "sample_event 1" new_index_system sample_decode "''r''"] by (simp add: new_index_system_def sample_event_def)
  moreover have "sample_index_step ?s1 ?s2"
    using index_step.begins [of None ?s1 "''r''" sample_decode] by (simp add: new_index_def base_mark_def)
  moreover have "sample_index_step ?s2 sample_seen"
    using index_step.views [of None None None ?s2 sample_decode sample_read1 _ "''r''"] sample_pass1 by (simp add: sample_seen_def)
  ultimately show ?thesis by (meson converse_rtranclp_into_rtranclp rtranclp.rtrancl_refl)
qed

definition sample_later :: index_system where
  "sample_later = \<lparr>sy_logs = [[sample_event 1, sample_event 2]],
    sy_index = \<lparr>in_parts = [sample_parts [sample_entry 1, sample_entry 2], sample_parts [sample_entry 2]], in_objects = [sample_object 2], in_roots = [(''r'', 0)]\<rparr>,
    sy_begun = [], sy_reads = [(sample_read2, 0, False), (sample_read1, 0, False)], sy_home = [0]\<rparr>"

lemma sample_pass2: "readEntries_pass sample_decode \<lparr>in_parts = [sample_parts [sample_entry 1]], in_objects = [sample_object 1], in_roots = [(''r'', 0)]\<rparr>
    (Some 0) (Some 0) (Some (1, None, 1)) (log_from [sample_event 1, sample_event 2]) =
  Some (sample_read2, \<lparr>in_parts = [sample_parts [sample_entry 1], sample_parts [sample_entry 2]], in_objects = [sample_object 1], in_roots = [(''r'', 0)]\<rparr>)"
  using sample_entry_of [of 2]
  by (simp add: readEntries_pass_def make_view_def log_from_def sample_read2_def sample_parts_def mark_of_def sample_event_def Let_def)

lemma sample_later_reached: "sample_index_step\<^sup>*\<^sup>* sample_seen sample_later"
proof -
  let ?ix1 = "\<lparr>in_parts = [sample_parts [sample_entry 1]], in_objects = [sample_object 1], in_roots = [(''r'', 0)]\<rparr>"
  let ?ix2 = "\<lparr>in_parts = [sample_parts [sample_entry 1], sample_parts [sample_entry 2]], in_objects = [sample_object 1], in_roots = [(''r'', 0)]\<rparr>"
  let ?s1 = "\<lparr>sy_logs = [[sample_event 1]], sy_index = ?ix1, sy_begun = [], sy_reads = [(sample_read1, 0, False)], sy_home = [0]\<rparr>"
  let ?s2 = "?s1\<lparr>sy_logs := [[sample_event 1, sample_event 2]]\<rparr>"
  let ?s3 = "?s2\<lparr>sy_begun := [(Some 0, Some 0, Some (1, None, 1))]\<rparr>"
  let ?s4 = "?s2\<lparr>sy_index := ?ix2, sy_reads := [(sample_read2, 0, True), (sample_read1, 0, False)]\<rparr>"
  have "commit_read ''r'' (sy_index sample_seen) sample_read1 = ?ix1"
    by (simp add: commit_read_def sample_seen_def sample_read1_def sample_object_def)
  then have one: "sample_index_step sample_seen ?s1"
    using index_step.folds [of sample_seen "[]" sample_read1 0 "[]" "''r''" ?ix1 sample_decode] by (simp add: sample_seen_def)
  have two: "sample_index_step ?s1 ?s2"
    using index_step.appends [of "sample_event 2" ?s1 sample_decode "''r''"] by (simp add: sample_event_def)
  have three: "sample_index_step ?s2 ?s3"
    using index_step.begins [of "Some 0" ?s2 "''r''" sample_decode] by (simp add: base_mark_def sample_object_def map_get_def)
  have four: "sample_index_step ?s3 ?s4"
    using index_step.views [of "Some 0" "Some 0" "Some (1, None, 1)" ?s3 sample_decode sample_read2 ?ix2 "''r''"] sample_pass2 by simp
  have "filter (\<lambda>e. 1 < ix_seq e) [sample_entry 2] = [sample_entry 2]" by (simp add: sample_entry_def)
  then have "commit_read ''r'' ?ix2 sample_read2 = sy_index sample_later"
    by (simp add: commit_read_def sample_later_def sample_read2_def sample_object_def map_get_def sample_parts_def add_all_append Let_def)
  then have five: "sample_index_step ?s4 sample_later"
    using index_step.folds [of ?s4 "[]" sample_read2 0 "[(sample_read1, 0, False)]" "''r''" "sy_index sample_later" sample_decode] by (simp add: sample_later_def)
  show ?thesis using one two three four five by (meson converse_rtranclp_into_rtranclp rtranclp.rtrancl_refl)
qed

section \<open>Answers of a view\<close>

lemma view_scans:
  assumes "(index_step decode rootId)\<^sup>*\<^sup>* new_index_system s" and "(r, h, u) \<in> set (sy_reads s)"
  shows "\<exists>n. rd_to r \<le> n \<and> n \<le> int (length (sy_logs s ! h)) \<and> (u \<or> vw_base (rd_view r) \<noteq> None \<longrightarrow> n = rd_to r) \<and>
    answers_scan (sy_index s) (rd_view r) (indexed_entries decode (take (nat n) (sy_logs s ! h))) \<and> log_ok (sy_logs s ! h)"
proof -
  have inv: "index_inv decode rootId s" by (rule index_inv_reachable [OF assms(1)])
  have ok: "read_ok decode s (r, h, u)" using inv assms(2) by (auto simp: index_inv_def simp del: read_ok.simps)
  have "h < length (sy_logs s)" using ok by simp
  then have numbered: "log_ok (sy_logs s ! h)" using inv by (simp add: index_inv_def logs_ok_def)
  have span: "span_entries decode evs 0 n = indexed_entries decode (take (nat n) evs)" for evs n by (simp add: span_entries_def)
  note answer = view_entries [OF inv assms(2), unfolded span]
  show ?thesis
  proof (cases "own_delta s r")
    case True
    have "answers_scan (sy_index s) (rd_view r) (indexed_entries decode (take (nat (rd_to r)) (sy_logs s ! h)))"
      unfolding answers_scan_def by (intro conjI allI; rule answer(1) [OF _ True]; rule partitions_by_key)
    then show ?thesis using ok numbered by (intro exI [of _ "rd_to r"]) (simp add: is_of_def)
  next
    case False
    then obtain f where al: "aliased s r h f" and "\<not> u" using ok by auto
    let ?n = "rk_seq (in_objects (sy_index s) ! f)"
    have "object_ok decode s f" using inv al by (auto simp: index_inv_def aliased_def)
    then have "?n \<le> int (length (sy_logs s ! h))" "rd_to r \<le> ?n" "vw_base (rd_view r) = None"
      using al by (auto simp: object_ok_def Let_def aliased_def is_of_def)
    moreover have "answers_scan (sy_index s) (rd_view r) (indexed_entries decode (take (nat ?n) (sy_logs s ! h)))"
      unfolding answers_scan_def by (intro conjI allI; rule answer(2) [OF _ al]; rule partitions_by_key)
    ultimately show ?thesis using \<open>\<not> u\<close> numbered by (intro exI [of _ ?n]) simp
  qed
qed

text \<open>Later steps only add events to a history.\<close>

lemma history_kept:
  assumes "(index_step decode rootId)\<^sup>*\<^sup>* s s'" and "h < length (sy_logs s)"
  shows "h < length (sy_logs s') \<and> take (length (sy_logs s ! h)) (sy_logs s' ! h) = sy_logs s ! h"
  using assms(1)
proof (induction rule: rtranclp_induct)
  case (step s1 s2)
  have "h < length (sy_logs s2) \<and> (\<exists>more. sy_logs s2 ! h = sy_logs s1 ! h @ more)"
    using step.hyps(2)
  proof cases
    case (appends e)
    obtain ls evs where l: "sy_logs s1 = ls @ [evs]" using step.IH by (cases "sy_logs s1" rule: rev_cases) auto
    then show ?thesis unfolding appends(1) using step.IH by (auto simp: nth_append less_Suc_eq)
  qed (use step.IH in \<open>auto simp: nth_append\<close>)
  moreover have "length (sy_logs s ! h) \<le> length (sy_logs s1 ! h)" using step.IH by (metis length_take min.cobounded1)
  ultimately show ?case using step.IH by (metis append_take_drop_id take_append take_all_iff diff_is_0_eq take0 append_Nil2)
qed (use assms(2) in simp)

text \<open>
  A read that passed over the events of its root in the state \<open>s\<close>, and is not folded in, nor dropped, in the later state \<open>s'\<close>.
\<close>

definition pending_read :: "(json \<Rightarrow> checkpoint) \<Rightarrow> string \<Rightarrow> index_system \<Rightarrow> checkpoint_read \<Rightarrow> index_system \<Rightarrow> bool" where
  "pending_read decode rootId s r s' \<longleftrightarrow> (index_step decode rootId)\<^sup>*\<^sup>* new_index_system s \<and> last (sy_logs s) \<noteq> [] \<and>
    (\<exists>current base mark ix'. (current, base, mark) \<in> set (sy_begun s) \<and>
      readEntries_pass decode (sy_index s) current base mark (log_from (last (sy_logs s))) = Some (r, ix') \<and>
      (index_step decode rootId)\<^sup>*\<^sup>* (s\<lparr>sy_index := ix', sy_reads := (r, length (sy_logs s) - 1, True) # sy_reads s,
        sy_begun := remove1 (current, base, mark) (sy_begun s)\<rparr>) s') \<and>
    (r, length (sy_logs s) - 1, True) \<in> set (sy_reads s')"

lemma pending_read_scans:
  assumes "pending_read decode rootId s r s'"
  shows "answers_scan (sy_index s') (rd_view r) (indexed_entries decode (last (sy_logs s)))" and "log_ok (last (sy_logs s))"
proof -
  let ?h = "length (sy_logs s) - 1" and ?evs = "last (sy_logs s)"
  obtain current base mark ix' where begun: "(current, base, mark) \<in> set (sy_begun s)"
    and pass: "readEntries_pass decode (sy_index s) current base mark (log_from ?evs) = Some (r, ix')"
    and steps: "(index_step decode rootId)\<^sup>*\<^sup>* (s\<lparr>sy_index := ix', sy_reads := (r, ?h, True) # sy_reads s, sy_begun := remove1 (current, base, mark) (sy_begun s)\<rparr>) s'"
    using assms by (auto simp: pending_read_def)
  have reach: "(index_step decode rootId)\<^sup>*\<^sup>* new_index_system s" and ne: "?evs \<noteq> []" and there: "(r, ?h, True) \<in> set (sy_reads s')"
    using assms by (auto simp: pending_read_def)
  have inv: "index_inv decode rootId s" by (rule index_inv_reachable [OF reach])
  then have logs: "sy_logs s \<noteq> []" and ok: "log_ok ?evs" by (auto simp: index_inv_def logs_ok_def)
  have nth: "?h < length (sy_logs s)" "sy_logs s ! ?h = ?evs" using logs by (auto simp: last_conv_nth)
  have "begun_ok s (current, base, mark)" using inv begun by (auto simp: index_inv_def simp del: begun_ok.simps)
  then have "\<forall>m. mark = Some m \<longrightarrow> 1 \<le> fst m" by (auto split: option.splits)
  from pass_effect(4) [OF ok ne this pass] have seen: "nat (rd_to r) = length ?evs" by simp
  have "(index_step decode rootId)\<^sup>*\<^sup>* new_index_system s'"
    using rtranclp_trans [OF rtranclp.rtrancl_into_rtrancl [OF reach index_step.views [OF begun ne pass]] steps] .
  then obtain n where "n = rd_to r" "answers_scan (sy_index s') (rd_view r) (indexed_entries decode (take (nat n) (sy_logs s' ! ?h)))"
    using view_scans [OF _ there] by blast
  moreover have "take (length ?evs) (sy_logs s' ! ?h) = ?evs" using history_kept [OF steps, of ?h] nth by simp
  ultimately show "answers_scan (sy_index s') (rd_view r) (indexed_entries decode ?evs)" using seen by simp
  show "log_ok ?evs" by (rule ok)
qed

section \<open>Theorems\<close>

text \<open>
  Validation reads through the index what it would read from the journal: after any steps of appends, reads, folds and
  deletions of the root, each view answers every lookup with exactly the stage and tool checkpoints a scan of a prefix of one
  recorded history of the root would find under the key, in order. The prefix is what the read had seen, and it can only be
  a longer one after the fold of a view that had no base.
\<close>

theorem view_answers_scan:
  assumes "(index_step decode rootId)\<^sup>*\<^sup>* new_index_system s" and "(r, h, u) \<in> set (sy_reads s)"
  shows "\<exists>n. rd_to r \<le> n \<and> n \<le> int (length (sy_logs s ! h)) \<and> (u \<or> vw_base (rd_view r) \<noteq> None \<longrightarrow> n = rd_to r) \<and>
    answers_scan (sy_index s) (rd_view r) (indexed_entries decode (take (nat n) (sy_logs s ! h)))"
  using view_scans [OF assms] by blast

theorem view_answers_scan_witness:
  "answers_scan (sy_index sample_seen) (rd_view sample_read1) [sample_entry 1]"
proof -
  have "sample_index_step\<^sup>*\<^sup>* new_index_system sample_seen" by (rule sample_seen_reached)
  from view_answers_scan [OF this, of sample_read1 0 True]
  have "answers_scan (sy_index sample_seen) (rd_view sample_read1) (indexed_entries sample_decode [sample_event 1])"
    by (simp add: sample_seen_def sample_read1_def)
  then show ?thesis using sample_entry_of [of 1] by (simp add: indexed_entries_def List.map_filter_def)
qed

text \<open>A view read before an event and folded in answers with that event once a later read is folded in.\<close>

theorem folded_view_sees_later:
  "sample_index_step\<^sup>*\<^sup>* new_index_system sample_later" "rd_to sample_read1 = 1"
  "entries (sy_index sample_later) stagesByReplayKey (rd_view sample_read1) ''s:1'' = [sample_entry 1, sample_entry 2]"
proof -
  show "sample_index_step\<^sup>*\<^sup>* new_index_system sample_later" using sample_seen_reached sample_later_reached by (rule rtranclp_trans)
  show "rd_to sample_read1 = 1" by (simp add: sample_read1_def)
  show "entries (sy_index sample_later) stagesByReplayKey (rd_view sample_read1) ''s:1'' = [sample_entry 1, sample_entry 2]"
    using get_new [OF partitions_by_key(4), of "[sample_entry 1, sample_entry 2]" "''s:1''"]
    by (simp add: entries_def sample_later_def sample_read1_def sample_parts_def sample_entry_def sample_stage_def replay_key_def)
qed

end
