(* ===== verification/Pool_Validation.thy ===== *)
theory Pool_Validation
  imports Checkpoint_Index Pool_Queue
begin

text \<open>
  Validation of a pool worker's checkpoint (\<open>validatePoolMutation\<close> in \<^verbatim>\<open>workflows/src/durable/journal/pool-mutations.ts\<close>) against
  what the root has recorded, read through the index of theory \<open>Checkpoint_Index\<close>, with the topology and lifecycle checks of
  theory \<open>Stage_Topology\<close>. It consults only the recorded stages its checks can reach; the theory compares it with the
  validation that consults all of them.
\<close>

section \<open>Mutations\<close>

text \<open>
  A request to commit: the kind it names (a session's with the run and stage its header names, if any), its
  checkpoint, and whether the boundary of that, when it has one, arrived with a string for its fingerprint.
\<close>

datatype mutation_kind = PlainCheckpoint | SessionMutation "(string \<times> string) option" | OtherMutation

record mutation =
  mu_kind :: mutation_kind
  mu_checkpoint :: checkpoint
  mu_fingerprint :: bool

datatype validation_error =
    InvalidMutation
  | CheckpointScopeMismatch
  | MissingFingerprint
  | SessionsNeedIdentity
  | InvalidSessionMutation
  | SessionScopeMismatch
  | TopologyScopeMismatch
  | ToolTopologyMismatch
  | TopologyDivergence string string
  | OutputWithoutOwnership
  | BoundaryScope "string option"

record lookups =
  lk_byRun :: "string \<Rightarrow> index_entry list"
  lk_startsByChild :: "string \<Rightarrow> index_entry list"
  lk_stagesByGroup :: "string list \<Rightarrow> index_entry list"
  lk_stagesByReplayKey :: "string \<Rightarrow> index_entry list"
  lk_boundariesByStageId :: "string \<Rightarrow> index_entry list"
  lk_boundariesByChild :: "string \<Rightarrow> index_entry list"

definition view_lookups :: "index \<Rightarrow> checkpoint_view \<Rightarrow> lookups" where
  "view_lookups ix view = \<lparr>lk_byRun = entries ix byRun view, lk_startsByChild = entries ix startsByChild view,
    lk_stagesByGroup = entries ix stagesByGroup view, lk_stagesByReplayKey = entries ix stagesByReplayKey view,
    lk_boundariesByStageId = entries ix boundariesByStageId view, lk_boundariesByChild = entries ix boundariesByChild view\<rparr>"

fun checkpoint_workflow :: "checkpoint \<Rightarrow> string" where
  "checkpoint_workflow (Tool c) = tc_workflowId c"
| "checkpoint_workflow (Ui c) = ui_workflowId c"
| "checkpoint_workflow (Stage c) = sc_workflowId c"

fun checkpoint_id :: "checkpoint \<Rightarrow> string" where
  "checkpoint_id (Tool c) = tc_checkpointId c"
| "checkpoint_id (Ui c) = ui_checkpointId c"
| "checkpoint_id (Stage c) = sc_checkpointId c"

fun checkpoint_key :: "checkpoint \<Rightarrow> string" where
  "checkpoint_key (Tool c) = tc_argsHash c"
| "checkpoint_key (Ui c) = ui_promptHash c"
| "checkpoint_key (Stage c) = sc_replayKey c"

fun checkpoint_topology_run :: "checkpoint \<Rightarrow> run_topology option" where
  "checkpoint_topology_run (Tool c) = Option.bind (tc_topology c) tt_run"
| "checkpoint_topology_run (Ui c) = None"
| "checkpoint_topology_run (Stage c) = Option.bind (sc_topology c) t_run"

definition child_run :: "child_topology \<Rightarrow> run_topology" where
  "child_run c = \<lparr>rt_runId = ct_runId c, rt_runName = ct_runName c, rt_parentRunId = Some (ct_parentRunId c),
    rt_parentStageId = Some (ct_parentStageId c), rt_rootRunId = Some (ct_rootRunId c)\<rparr>"

definition stages_of :: "index_entry list \<Rightarrow> stage_checkpoint list" where
  "stages_of es = List.map_filter (\<lambda>e. stage_of (ix_checkpoint e)) es"

text \<open>Recorded stages in key order, without the one \<open>checkpoint\<close> records again.\<close>

definition stagesExcept :: "index_entry list \<Rightarrow> stage_checkpoint \<Rightarrow> stage_checkpoint list" where
  "stagesExcept es checkpoint = filter (\<lambda>s. sc_checkpointId s \<noteq> sc_checkpointId checkpoint) (stages_of (inKeyOrder es))"

section \<open>Tools\<close>

fun node_of :: "indexed \<Rightarrow> string" where
  "node_of (ToolIx c) = tt_nodeId (the (tc_topology c))"
| "node_of (StageIx c) = t_stageId (the (sc_topology c))"

definition DURABLE_TOOL_TOPOLOGY_VERSION :: int where
  "DURABLE_TOOL_TOPOLOGY_VERSION = 1"

definition tool_conflict :: "tool_checkpoint \<Rightarrow> tool_topology \<Rightarrow> indexed \<Rightarrow> bool" where
  "tool_conflict checkpoint tool peer = (case peer of
      ToolIx c \<Rightarrow>
        if tc_argsHash c = tc_argsHash checkpoint
        then node_of peer \<noteq> tt_nodeId tool \<or> \<not> sameStrings (tt_parentIds (the (tc_topology c))) (tt_parentIds tool)
        else node_of peer = tt_nodeId tool
    | StageIx _ \<Rightarrow> node_of peer = tt_nodeId tool)"

definition check_tool :: "tool_checkpoint \<Rightarrow> tool_topology \<Rightarrow> index_entry list \<Rightarrow> validation_error + unit" where
  "check_tool checkpoint tool runEntries =
    (let peers = map ix_checkpoint runEntries; ids = set_add_all [] (map node_of peers) in
     throw_if (tt_version tool \<noteq> DURABLE_TOOL_TOPOLOGY_VERSION \<or> tt_nodeId tool = [] \<or>
       list_ex (\<lambda>i. i = tt_nodeId tool \<or> \<not> set_has ids i) (tt_parentIds tool) \<or> list_ex (tool_conflict checkpoint tool) peers)
       ToolTopologyMismatch)"

section \<open>Stages\<close>

definition tool_nodes :: "index_entry list \<Rightarrow> string jset" where
  "tool_nodes runEntries = set_add_all [] (List.map_filter (\<lambda>e. case ix_checkpoint e of
    ToolIx c \<Rightarrow> Some (node_of (ToolIx c)) | StageIx _ \<Rightarrow> None) runEntries)"

definition is_start_of :: "stage_checkpoint \<Rightarrow> stage_checkpoint \<Rightarrow> bool" where
  "is_start_of checkpoint s \<longleftrightarrow> sc_replayKey s = sc_replayKey checkpoint \<and> map_option b_event (stage_boundary s) = Some BoundaryStart"

definition relevant_stages :: "lookups \<Rightarrow> run_topology \<Rightarrow> stage_checkpoint \<Rightarrow> index_entry list" where
  "relevant_stages lk run checkpoint =
    (let runStages = filter (\<lambda>e. stage_of (ix_checkpoint e) \<noteq> None) (lk_byRun lk (rt_runId run));
         groups = set_add_all [] (map durableStageGroupKey
           (filter (\<lambda>s. sc_checkpointId s \<noteq> sc_checkpointId checkpoint) (stages_of runStages) @ [checkpoint]));
         grouped = concat (map (lk_stagesByGroup lk) groups) in
     case stage_boundary checkpoint of
       None \<Rightarrow> runStages @ grouped
     | Some _ \<Rightarrow>
         let replayed = lk_stagesByReplayKey lk (sc_replayKey checkpoint) in
         runStages @ grouped @ replayed @
         (case find (is_start_of checkpoint) (stagesExcept replayed checkpoint @ [checkpoint]) of
            None \<Rightarrow> []
          | Some start \<Rightarrow>
              lk_boundariesByStageId lk (t_stageId (the (sc_topology start))) @
              lk_boundariesByChild lk (ct_runId (b_child (the (stage_boundary start))))))"

text \<open>
  The checks of a stage checkpoint against the recorded stages \<open>recorded\<close>, \<open>replayed\<close> those with its replay key.
\<close>

definition check_stage ::
  "string \<Rightarrow> pool_work \<Rightarrow> run_topology \<Rightarrow> boundary_topology \<Rightarrow> index_entry list \<Rightarrow> stage_checkpoint list \<Rightarrow> stage_checkpoint list \<Rightarrow>
    stage_checkpoint \<Rightarrow> validation_error + unit" where
  "check_stage rootId work run owner runEntries replayed recorded checkpoint =
    (let next_stages = recorded @ [checkpoint] in
     case directChildTopologyError next_stages (b_replayScope owner) run (tool_nodes runEntries) of
       Some e \<Rightarrow> Inl (TopologyDivergence (rt_runName run) e)
     | None \<Rightarrow> (case stage_boundary checkpoint of
         None \<Rightarrow> throw_if (parseWorkflowChildResult (sc_output checkpoint) \<noteq> None) OutputWithoutOwnership
       | Some boundary \<Rightarrow>
           let error = (case find (is_start_of checkpoint) (replayed @ [checkpoint]) of
             Some start \<Rightarrow> boundaryTransitionError start next_stages False
           | None \<Rightarrow> Some ''missing start'') in
           throw_if (\<not> starts_with (b_replayScope boundary) (b_replayScope owner @ '':'') \<or> ct_runId (b_child boundary) = rootId \<or>
             ct_runId (b_child boundary) = pd_childRunId (q_descriptor work) \<or> error \<noteq> None) (BoundaryScope error)))"

section \<open>Validation\<close>

text \<open>\<open>owners\<close> is the table of the sessions' owners.\<close>

definition validateCheckpointInvocationFingerprint :: "mutation \<Rightarrow> validation_error + unit" where
  "validateCheckpointInvocationFingerprint mutation = throw_if (\<not> mu_fingerprint mutation \<and> (case mu_checkpoint mutation of
    Stage c \<Rightarrow> stage_boundary c \<noteq> None | _ \<Rightarrow> False)) MissingFingerprint"

definition session_mismatch :: "(string, owner_row) jmap \<Rightarrow> pool_work \<Rightarrow> mutation \<Rightarrow> bool" where
  "session_mismatch owners work mutation \<longleftrightarrow> mu_kind mutation = PlainCheckpoint \<and> (case mu_checkpoint mutation of
      Stage c \<Rightarrow> (case sc_sessionId c of
          None \<Rightarrow> False
        | Some sid \<Rightarrow> sid \<noteq> [] \<and> map_get owners sid \<noteq> Some \<lparr>ow_work = q_id work, ow_replay_key = sc_replayKey c\<rparr>)
    | _ \<Rightarrow> False)"

definition validate_scope :: "(string, owner_row) jmap \<Rightarrow> string \<Rightarrow> pool_work \<Rightarrow> mutation \<Rightarrow> validation_error + unit" where
  "validate_scope owners rootId work mutation =
    (let prefix = pd_scope (q_descriptor work) @ '':''; checkpoint = mu_checkpoint mutation in
     try_bind (throw_if (mu_kind mutation = OtherMutation) InvalidMutation) (\<lambda>_.
     try_bind (throw_if (checkpoint_workflow checkpoint \<noteq> rootId \<or> \<not> starts_with (checkpoint_id checkpoint) prefix \<or>
       \<not> starts_with (checkpoint_key checkpoint) prefix) CheckpointScopeMismatch) (\<lambda>_.
     try_bind (validateCheckpointInvocationFingerprint mutation) (\<lambda>_.
     try_bind (throw_if (case checkpoint of Stage c \<Rightarrow> sc_sessionFile c \<noteq> None | _ \<Rightarrow> False) SessionsNeedIdentity) (\<lambda>_.
     try_bind (throw_if (mu_kind mutation \<noteq> PlainCheckpoint \<and> (case checkpoint of Stage _ \<Rightarrow> False | _ \<Rightarrow> True)) InvalidSessionMutation) (\<lambda>_.
     throw_if (session_mismatch owners work mutation) SessionScopeMismatch))))))"

definition owning_boundary :: "index_entry list \<Rightarrow> boundary_topology option" where
  "owning_boundary starts = (case stages_of (inKeyOrder starts) of [] \<Rightarrow> None | s # _ \<Rightarrow> stage_boundary s)"

definition owns :: "pool_work \<Rightarrow> run_topology \<Rightarrow> checkpoint \<Rightarrow> boundary_topology \<Rightarrow> bool" where
  "owns work run checkpoint owner \<longleftrightarrow> sameRun (Some run) (child_run (b_child owner)) \<and>
    starts_with (checkpoint_key checkpoint) (b_replayScope owner @ '':'') \<and>
    starts_with (checkpoint_id checkpoint) (b_replayScope owner @ '':'') \<and>
    (b_replayScope owner = pd_scope (q_descriptor work) \<or> starts_with (b_replayScope owner) (pd_scope (q_descriptor work) @ '':''))"

fun header_mismatch :: "mutation_kind \<Rightarrow> run_topology \<Rightarrow> checkpoint \<Rightarrow> bool" where
  "header_mismatch (SessionMutation (Some (runId, stageId))) run checkpoint \<longleftrightarrow> runId \<noteq> rt_runId run \<or>
    Some stageId \<noteq> (case checkpoint of Stage c \<Rightarrow> map_option t_stageId (sc_topology c) | _ \<Rightarrow> None)"
| "header_mismatch _ run checkpoint = False"

definition validate_with ::
  "(run_topology \<Rightarrow> stage_checkpoint \<Rightarrow> stage_checkpoint list \<times> stage_checkpoint list) \<Rightarrow> lookups \<Rightarrow> (string, owner_row) jmap \<Rightarrow> string \<Rightarrow>
    pool_work \<Rightarrow> mutation \<Rightarrow> validation_error + unit" where
  "validate_with recorded lk owners rootId work mutation =
    (let checkpoint = mu_checkpoint mutation in
     try_bind (validate_scope owners rootId work mutation) (\<lambda>_.
     case checkpoint of Ui _ \<Rightarrow> Inr () | _ \<Rightarrow>
      (case checkpoint_topology_run checkpoint of
         None \<Rightarrow> Inl TopologyScopeMismatch
       | Some run \<Rightarrow>
           try_bind (throw_if (rt_rootRunId run \<noteq> Some rootId \<or> rt_runId run = rootId) TopologyScopeMismatch) (\<lambda>_.
           case owning_boundary (lk_startsByChild lk (rt_runId run)) of
             None \<Rightarrow> Inl TopologyScopeMismatch
           | Some owner \<Rightarrow>
               try_bind (throw_if (\<not> owns work run checkpoint owner) TopologyScopeMismatch) (\<lambda>_.
               try_bind (throw_if (header_mismatch (mu_kind mutation) run checkpoint) SessionScopeMismatch) (\<lambda>_.
               case checkpoint of
                 Tool c \<Rightarrow> check_tool c (the (tc_topology c)) (lk_byRun lk (rt_runId run))
               | Stage c \<Rightarrow> (case recorded run c of (replayed, stages) \<Rightarrow>
                   check_stage rootId work run owner (lk_byRun lk (rt_runId run)) replayed stages c)
               | Ui _ \<Rightarrow> Inr ()))))))"

definition validatePoolMutation ::
  "lookups \<Rightarrow> (string, owner_row) jmap \<Rightarrow> string \<Rightarrow> pool_work \<Rightarrow> mutation \<Rightarrow> validation_error + unit" where
  "validatePoolMutation lk = validate_with (\<lambda>run c.
    (stagesExcept (lk_stagesByReplayKey lk (sc_replayKey c)) c, stagesExcept (relevant_stages lk run c) c)) lk"

section \<open>The reference: a scan of everything recorded\<close>

definition scan_lookups :: "index_entry list \<Rightarrow> lookups" where
  "scan_lookups es = \<lparr>lk_byRun = \<lambda>k. filter (\<lambda>e. checkpoint_run (ix_checkpoint e) = Some k) es,
    lk_startsByChild = \<lambda>k. filter (\<lambda>e. start_child_key (ix_checkpoint e) = Some k) es,
    lk_stagesByGroup = \<lambda>k. filter (\<lambda>e. group_key (ix_checkpoint e) = Some k) es,
    lk_stagesByReplayKey = \<lambda>k. filter (\<lambda>e. replay_key (ix_checkpoint e) = Some k) es,
    lk_boundariesByStageId = \<lambda>k. filter (\<lambda>e. boundary_stage_key (ix_checkpoint e) = Some k) es,
    lk_boundariesByChild = \<lambda>k. filter (\<lambda>e. boundary_child_key (ix_checkpoint e) = Some k) es\<rparr>"

definition validate_scanning ::
  "index_entry list \<Rightarrow> (string, owner_row) jmap \<Rightarrow> string \<Rightarrow> pool_work \<Rightarrow> mutation \<Rightarrow> validation_error + unit" where
  "validate_scanning es = validate_with (\<lambda>run c. (stagesExcept es c, stagesExcept es c)) (scan_lookups es)"


section \<open>What a partial read keeps\<close>

lemma sort_key_unique:
  assumes "distinct xs" and "distinct ys" and "set xs = set ys" and "inj_on f (set xs)"
  shows "sort_key f xs = sort_key f ys"
proof -
  have "map f (sort_key f xs) = map f (sort_key f ys)"
  proof (rule sorted_distinct_set_unique)
    show "distinct (map f (sort_key f xs))" "distinct (map f (sort_key f ys))" using assms by (simp_all add: distinct_map)
  qed (use assms in simp_all)
  moreover have "inj_on f (set (sort_key f xs) \<union> set (sort_key f ys))" using assms by simp
  ultimately show ?thesis by (rule map_inj_on)
qed

lemma inKeyOrder_filter:
  assumes "inj_on ix_seq (set es)" and "set part \<subseteq> set es" and "\<And>e. e \<in> set es \<Longrightarrow> Q e \<Longrightarrow> e \<in> set part"
  shows "filter Q (inKeyOrder part) = filter Q (inKeyOrder es)"
proof -
  have "inj_on (\<lambda>e. (ix_order e, ix_seq e)) (set es)" using assms(1) by (auto simp: inj_on_def)
  then have "inj_on (\<lambda>e. (ix_order e, ix_seq e)) (set (filter Q (set_add_all [] part)))"
    by (rule inj_on_subset) (use assms(2) in auto)
  moreover have "set (filter Q (set_add_all [] part)) = set (filter Q (set_add_all [] es))" using assms(2,3) by auto
  ultimately show ?thesis unfolding inKeyOrder_def filter_sort by (intro sort_key_unique) simp_all
qed

lemma filter_stages: "filter P (stages_of es) = stages_of (filter (\<lambda>e. \<exists>s. stage_of (ix_checkpoint e) = Some s \<and> P s) es)"
  by (induction es) (auto simp: stages_of_def List.map_filter_def)

text \<open>A part of the recorded entries that has every stage with \<open>P\<close> has the same stages with \<open>P\<close>, in the same order.\<close>

lemma stagesExcept_part:
  assumes "inj_on ix_seq (set es)" and "set part \<subseteq> set es"
    and "\<And>e s. e \<in> set es \<Longrightarrow> stage_of (ix_checkpoint e) = Some s \<Longrightarrow> P s \<Longrightarrow> sc_checkpointId s \<noteq> sc_checkpointId c \<Longrightarrow> e \<in> set part"
  shows "filter P (stagesExcept part c) = filter P (stagesExcept es c)"
  unfolding stagesExcept_def filter_filter filter_stages
  by (intro arg_cong [where f = stages_of] inKeyOrder_filter [OF assms(1,2)]) (use assms(3) in auto)

lemma directChildTopologyError_part:
  assumes "filter (claims_run run) xs = filter (claims_run run) ys"
    and "filter (\<lambda>s. durableStageGroupKey s \<in> durableStageGroupKey ` set (filter (claims_run run) ys)) xs =
      filter (\<lambda>s. durableStageGroupKey s \<in> durableStageGroupKey ` set (filter (claims_run run) ys)) ys"
  shows "directChildTopologyError xs scope run tools = directChildTopologyError ys scope run tools"
  using assms(2) unfolding directChildTopologyError_def assms(1) directChildTopologyErrorFromRecords_def by (simp add: Let_def)

lemma boundaryTransitionError_part:
  assumes "filter (boundary_related start) xs = filter (boundary_related start) ys"
    and "filter (\<lambda>s. sc_replayKey s = sc_replayKey start) xs = filter (\<lambda>s. sc_replayKey s = sc_replayKey start) ys"
  shows "boundaryTransitionError start xs requireTerminal = boundaryTransitionError start ys requireTerminal"
proof -
  have outputs: "filter (\<lambda>s. sc_replayKey s = sc_replayKey start \<and> sc_output s \<noteq> None) zs =
      filter (\<lambda>s. sc_output s \<noteq> None) (filter (\<lambda>s. sc_replayKey s = sc_replayKey start) zs)" for zs
    by (simp add: conj_commute)
  show ?thesis unfolding boundaryTransitionError_def resolveBoundaryLifecycle_def outputs assms ..
qed

lemma find_filter: "find P xs = (case filter P xs of [] \<Rightarrow> None | x # _ \<Rightarrow> Some x)"
  by (induction xs) auto

lemma find_part: "filter P xs = filter P ys \<Longrightarrow> find P xs = find P ys"
  by (simp add: find_filter)

section \<open>The stages a check consults\<close>

lemma in_scan_lookups:
  "e \<in> set (lk_byRun (scan_lookups es) k) \<longleftrightarrow> e \<in> set es \<and> checkpoint_run (ix_checkpoint e) = Some k"
  "e \<in> set (lk_stagesByGroup (scan_lookups es) g) \<longleftrightarrow> e \<in> set es \<and> group_key (ix_checkpoint e) = Some g"
  "e \<in> set (lk_stagesByReplayKey (scan_lookups es) k) \<longleftrightarrow> e \<in> set es \<and> replay_key (ix_checkpoint e) = Some k"
  "e \<in> set (lk_boundariesByStageId (scan_lookups es) k) \<longleftrightarrow> e \<in> set es \<and> boundary_stage_key (ix_checkpoint e) = Some k"
  "e \<in> set (lk_boundariesByChild (scan_lookups es) k) \<longleftrightarrow> e \<in> set es \<and> boundary_child_key (ix_checkpoint e) = Some k"
  by (auto simp: scan_lookups_def)

definition start_found :: "lookups \<Rightarrow> stage_checkpoint \<Rightarrow> stage_checkpoint option" where
  "start_found lk c = find (is_start_of c) (stagesExcept (lk_stagesByReplayKey lk (sc_replayKey c)) c @ [c])"

lemma set_stages_of: "s \<in> set (stages_of es) \<longleftrightarrow> (\<exists>e \<in> set es. stage_of (ix_checkpoint e) = Some s)"
  by (force simp: stages_of_def List.map_filter_def image_iff)

lemma set_stagesExcept:
  "s \<in> set (stagesExcept es c) \<longleftrightarrow> (\<exists>e \<in> set es. stage_of (ix_checkpoint e) = Some s) \<and> sc_checkpointId s \<noteq> sc_checkpointId c"
  by (auto simp: stagesExcept_def set_stages_of inKeyOrder_def)

lemma relevant_subset: "set (relevant_stages (scan_lookups es) run c) \<subseteq> set es"
  by (auto simp: relevant_stages_def Let_def in_scan_lookups split: option.splits)

lemma relevant_run:
  assumes "e \<in> set es" and "stage_of (ix_checkpoint e) = Some s" and "claims_run run s"
  shows "e \<in> set (relevant_stages (scan_lookups es) run c)"
proof -
  have "ix_checkpoint e = StageIx s" using assms(2) by (cases "ix_checkpoint e") auto
  then show ?thesis using assms by (auto simp: relevant_stages_def Let_def in_scan_lookups claims_run_def split: option.splits)
qed

lemma relevant_group:
  assumes "e \<in> set es" and "stage_of (ix_checkpoint e) = Some s" and "t \<in> set (stagesExcept es c @ [c])" and "claims_run run t"
    and "durableStageGroupKey s = durableStageGroupKey t"
  shows "e \<in> set (relevant_stages (scan_lookups es) run c)"
proof -
  have key: "group_key (ix_checkpoint e) = Some (durableStageGroupKey t)" using assms(2,5) by (simp add: group_key_def)
  have "t = c \<or> t \<in> set (filter (\<lambda>s. sc_checkpointId s \<noteq> sc_checkpointId c)
      (stages_of (filter (\<lambda>e. stage_of (ix_checkpoint e) \<noteq> None) (lk_byRun (scan_lookups es) (rt_runId run)))))"
  proof (cases "t = c")
    case False
    then obtain x where x: "x \<in> set es" "stage_of (ix_checkpoint x) = Some t" "sc_checkpointId t \<noteq> sc_checkpointId c"
      using assms(3) by (auto simp: set_stagesExcept)
    then have "ix_checkpoint x = StageIx t" by (cases "ix_checkpoint x") auto
    then show ?thesis using x assms(4) by (auto simp: set_stages_of in_scan_lookups claims_run_def intro!: bexI [of _ x])
  qed simp
  then show ?thesis using assms(1) key unfolding relevant_stages_def Let_def
    by (cases "stage_boundary c") (auto simp: in_scan_lookups)
qed

lemma relevant_replayed:
  assumes "e \<in> set es" and "stage_of (ix_checkpoint e) = Some s" and "sc_replayKey s = sc_replayKey c" and "stage_boundary c \<noteq> None"
  shows "e \<in> set (relevant_stages (scan_lookups es) run c)"
  using assms by (auto simp: relevant_stages_def Let_def in_scan_lookups replay_key_def)

lemma relevant_boundary:
  assumes "e \<in> set es" and "stage_of (ix_checkpoint e) = Some s" and "start_found (scan_lookups es) c = Some start"
    and "boundary_related start s" and "stage_boundary c \<noteq> None"
  shows "e \<in> set (relevant_stages (scan_lookups es) run c)"
proof -
  have start: "is_start_of c start" using assms(3) by (auto simp: start_found_def find_Some_iff)
  obtain b where b: "stage_boundary s = Some b" using assms(4) by (auto simp: boundary_related_def stage_boundary_def split: option.splits)
  obtain ts bs where ts: "sc_topology start = Some ts" "t_boundary ts = Some bs"
    using start by (auto simp: is_start_of_def stage_boundary_def bind_eq_Some_conv)
  obtain t where t: "sc_topology s = Some t" "t_boundary t = Some b" using b by (auto simp: stage_boundary_def bind_eq_Some_conv)
  have "sc_replayKey s = sc_replayKey c \<or> boundary_stage_key (ix_checkpoint e) = Some (t_stageId ts) \<or>
      boundary_child_key (ix_checkpoint e) = Some (ct_runId (b_child bs))"
    using assms(2,4) start b ts t by (auto simp: boundary_related_def is_start_of_def boundary_stage_key_def boundary_child_key_def)
  then show ?thesis
  proof (elim disjE)
    assume "sc_replayKey s = sc_replayKey c"
    then show ?thesis using relevant_replayed assms(1,2,5) by blast
  qed (use assms(1,3,5) ts in \<open>auto simp: relevant_stages_def Let_def in_scan_lookups start_found_def stage_boundary_def\<close>)
qed

lemma start_found_scan:
  assumes "inj_on ix_seq (set es)"
  shows "start_found (scan_lookups es) c = find (is_start_of c) (stagesExcept es c @ [c])"
proof -
  have "filter (is_start_of c) (stagesExcept (lk_stagesByReplayKey (scan_lookups es) (sc_replayKey c)) c) = filter (is_start_of c) (stagesExcept es c)"
    by (rule stagesExcept_part [OF assms]) (auto simp: in_scan_lookups is_start_of_def replay_key_def)
  then show ?thesis unfolding start_found_def by (intro find_part) simp
qed

text \<open>The checks of a stage give the same answer on the relevant stages and on all recorded ones.\<close>

lemma check_stage_relevant:
  assumes inj: "inj_on ix_seq (set es)"
  shows "check_stage rootId work run owner runEntries (stagesExcept (lk_stagesByReplayKey (scan_lookups es) (sc_replayKey c)) c)
      (stagesExcept (relevant_stages (scan_lookups es) run c) c) c =
    check_stage rootId work run owner runEntries (stagesExcept es c) (stagesExcept es c) c"
proof -
  let ?lk = "scan_lookups es" and ?part = "stagesExcept (relevant_stages (scan_lookups es) run c) c" and ?full = "stagesExcept es c"
  have part: "filter P ?part = filter P ?full"
    if "\<And>e s. e \<in> set es \<Longrightarrow> stage_of (ix_checkpoint e) = Some s \<Longrightarrow> P s \<Longrightarrow> e \<in> set (relevant_stages ?lk run c)" for P
    by (rule stagesExcept_part [OF inj relevant_subset]) (use that in blast)
  have "directChildTopologyError (?part @ [c]) scope run tools = directChildTopologyError (?full @ [c]) scope run tools" for scope tools
  proof (rule directChildTopologyError_part)
    show "filter (claims_run run) (?part @ [c]) = filter (claims_run run) (?full @ [c])"
      using part [of "claims_run run"] relevant_run by simp
    let ?P = "\<lambda>s. durableStageGroupKey s \<in> durableStageGroupKey ` set (filter (claims_run run) (?full @ [c]))"
    have "filter ?P ?part = filter ?P ?full"
    proof (rule part)
      fix e s assume e: "e \<in> set es" "stage_of (ix_checkpoint e) = Some s" "?P s"
      then obtain t where "t \<in> set (?full @ [c])" "claims_run run t" "durableStageGroupKey s = durableStageGroupKey t"
        unfolding image_iff set_filter by blast
      with e(1,2) show "e \<in> set (relevant_stages ?lk run c)" by (rule relevant_group)
    qed
    then show "filter ?P (?part @ [c]) = filter ?P (?full @ [c])" by simp
  qed
  moreover have "boundaryTransitionError start (?part @ [c]) False = boundaryTransitionError start (?full @ [c]) False"
    if found: "start_found ?lk c = Some start" and "stage_boundary c \<noteq> None" for start
  proof (rule boundaryTransitionError_part)
    show "filter (boundary_related start) (?part @ [c]) = filter (boundary_related start) (?full @ [c])"
      using part [of "boundary_related start"] relevant_boundary [OF _ _ found _ that(2)] by simp
    have "sc_replayKey start = sc_replayKey c" using found by (auto simp: start_found_def find_Some_iff is_start_of_def)
    then show "filter (\<lambda>s. sc_replayKey s = sc_replayKey start) (?part @ [c]) = filter (\<lambda>s. sc_replayKey s = sc_replayKey start) (?full @ [c])"
      using part [of "\<lambda>s. sc_replayKey s = sc_replayKey start"] relevant_replayed [OF _ _ _ that(2)] by simp
  qed
  ultimately show ?thesis
    unfolding check_stage_def Let_def start_found_scan [OF inj, symmetric] start_found_def [symmetric]
    by (auto split: option.splits)
qed

lemma validate_scan:
  assumes "inj_on ix_seq (set es)"
  shows "validatePoolMutation (scan_lookups es) = validate_scanning es"
  unfolding validatePoolMutation_def validate_scanning_def validate_with_def prod.case check_stage_relevant [OF assms] ..

section \<open>Validation through a view\<close>

lemma view_lookups_scan: "answers_scan ix view es \<Longrightarrow> view_lookups ix view = scan_lookups es"
  by (simp add: view_lookups_def scan_lookups_def answers_scan_def fun_eq_iff)

lemma indexed_seqs_inj:
  assumes "log_ok evs"
  shows "inj_on ix_seq (set (indexed_entries decode (take n evs)))"
proof (rule inj_onI)
  fix x y assume "x \<in> set (indexed_entries decode (take n evs))" "y \<in> set (indexed_entries decode (take n evs))" and same: "ix_seq x = ix_seq y"
  then obtain d e where d: "d \<in> set evs" "index_entry_of decode d = Some x" and e: "e \<in> set evs" "index_entry_of decode e = Some y"
    by (auto simp: indexed_entries_def List.map_filter_def dest!: in_set_takeD)
  have "je_seq d = je_seq e" using same d(2) e(2) by (simp add: index_entry_seq)
  then have "d = e" using d(1) e(1) assms by (auto simp: in_set_conv_nth log_ok_def)
  then show "x = y" using d(2) e(2) by simp
qed

lemma validate_view:
  assumes "pending_read decode rootId s r s'"
  shows "validatePoolMutation (view_lookups (sy_index s') (rd_view r)) = validate_scanning (indexed_entries decode (last (sy_logs s)))"
  using validate_scan [OF indexed_seqs_inj [OF pending_read_scans(2) [OF assms], of decode "length (last (sy_logs s))"]]
  by (simp add: view_lookups_scan [OF pending_read_scans(1) [OF assms]])

text \<open>The boundary start that owns the run, among the recorded stages.\<close>

definition owning_start :: "index_entry list \<Rightarrow> run_topology \<Rightarrow> stage_checkpoint \<Rightarrow> boundary_topology \<Rightarrow> bool" where
  "owning_start es run start owner \<longleftrightarrow> start \<in> set (stages_of es) \<and> stage_boundary start = Some owner \<and> b_event owner = BoundaryStart \<and>
    run = child_run (b_child owner)"

lemma owning_boundary_start:
  assumes "owning_boundary (lk_startsByChild (scan_lookups es) k) = Some owner" and "sameRun (Some run) (child_run (b_child owner))"
  shows "\<exists>start. owning_start es run start owner"
proof -
  obtain start rest where first: "stages_of (inKeyOrder (lk_startsByChild (scan_lookups es) k)) = start # rest" and b: "stage_boundary start = Some owner"
    using assms(1) by (auto simp: owning_boundary_def split: list.splits)
  have "start \<in> set (stages_of (inKeyOrder (lk_startsByChild (scan_lookups es) k)))" using first by simp
  then obtain e where "e \<in> set es" "start_child_key (ix_checkpoint e) = Some k" "stage_of (ix_checkpoint e) = Some start"
    by (auto simp: set_stages_of inKeyOrder_def scan_lookups_def)
  then show ?thesis using b assms(2)
    by (auto simp: owning_start_def set_stages_of start_child_key_def sameRun_eq split: if_splits intro!: exI [of _ start])
qed

text \<open>What a stage shows by itself to be of the work: \<open>scope\<close> prefixes its ids, it names no file, and a session it names is its own.\<close>

definition stage_of_work :: "(string, owner_row) jmap \<Rightarrow> string \<Rightarrow> pool_work \<Rightarrow> mutation \<Rightarrow> stage_checkpoint \<Rightarrow> bool" where
  "stage_of_work owners rootId work mutation c \<longleftrightarrow> mu_kind mutation \<noteq> OtherMutation \<and> sc_workflowId c = rootId \<and>
    starts_with (sc_checkpointId c) (pd_scope (q_descriptor work) @ '':'') \<and> starts_with (sc_replayKey c) (pd_scope (q_descriptor work) @ '':'') \<and>
    sc_sessionFile c = None \<and> (stage_boundary c \<noteq> None \<longrightarrow> mu_fingerprint mutation) \<and>
    (\<forall>sid. mu_kind mutation = PlainCheckpoint \<and> sc_sessionId c = Some sid \<and> sid \<noteq> [] \<longrightarrow>
      map_get owners sid = Some \<lparr>ow_work = q_id work, ow_replay_key = sc_replayKey c\<rparr>)"

lemma scope_accepted:
  assumes "validate_scope owners rootId work m = Inr ()" and "mu_checkpoint m = Stage c"
  shows "stage_of_work owners rootId work m c"
  using assms
  by (auto simp: validate_scope_def stage_of_work_def validateCheckpointInvocationFingerprint_def session_mismatch_def Let_def try_bind_Inr throw_if_def
    split: if_splits)

lemma accepted_stage:
  assumes "validate_scanning es owners rootId work m = Inr ()" and "mu_checkpoint m = Stage c"
  obtains run start owner where "stage_of_work owners rootId work m c" and "map_option t_run (sc_topology c) = Some (Some run)"
    and "rt_runId run \<noteq> rootId \<and> rt_rootRunId run = Some rootId" and "\<not> header_mismatch (mu_kind m) run (Stage c)" and "owning_start es run start owner"
    and "starts_with (sc_replayKey c) (b_replayScope owner @ '':'') \<and> starts_with (sc_checkpointId c) (b_replayScope owner @ '':'')"
    and "b_replayScope owner = pd_scope (q_descriptor work) \<or> starts_with (b_replayScope owner) (pd_scope (q_descriptor work) @ '':'')"
    and "check_stage rootId work run owner (lk_byRun (scan_lookups es) (rt_runId run)) (stagesExcept es c) (stagesExcept es c) c = Inr ()"
proof -
  have "validate_scope owners rootId work m = Inr ()"
    using assms(1) by (auto simp: validate_scanning_def validate_with_def Let_def try_bind_Inr)
  note scope = scope_accepted [OF this assms(2)]
  obtain run where run: "checkpoint_topology_run (Stage c) = Some run"
    using assms by (auto simp: validate_scanning_def validate_with_def Let_def try_bind_Inr split: option.splits)
  obtain owner where owner: "owning_boundary (lk_startsByChild (scan_lookups es) (rt_runId run)) = Some owner"
    using assms run by (auto simp: validate_scanning_def validate_with_def Let_def try_bind_Inr split: option.splits)
  have checks: "rt_runId run \<noteq> rootId \<and> rt_rootRunId run = Some rootId" "owns work run (Stage c) owner" "\<not> header_mismatch (mu_kind m) run (Stage c)"
    "check_stage rootId work run owner (lk_byRun (scan_lookups es) (rt_runId run)) (stagesExcept es c) (stagesExcept es c) c = Inr ()"
    using assms run owner by (auto simp: validate_scanning_def validate_with_def Let_def try_bind_Inr throw_if_def split: if_splits)
  obtain start where "owning_start es run start owner" using owning_boundary_start [OF owner] checks(2) by (auto simp: owns_def)
  then show thesis using checks scope run by (intro that [of run start owner]) (auto simp: owns_def bind_eq_Some_conv)
qed

lemma accepted_checks:
  assumes "check_stage rootId work run owner runEntries stages stages c = Inr ()"
  shows "directChildTopologyError (stages @ [c]) (b_replayScope owner) run (tool_nodes runEntries) = None"
    "stage_boundary c = Some b \<Longrightarrow> starts_with (b_replayScope b) (b_replayScope owner @ '':'') \<and> ct_runId (b_child b) \<noteq> rootId \<and>
      ct_runId (b_child b) \<noteq> pd_childRunId (q_descriptor work) \<and>
      (\<exists>start. is_start_of c start \<and> start \<in> set (stages @ [c]) \<and> boundaryTransitionError start (stages @ [c]) False = None)"
proof -
  show "directChildTopologyError (stages @ [c]) (b_replayScope owner) run (tool_nodes runEntries) = None"
    using assms by (auto simp: check_stage_def Let_def split: option.splits)
  assume b: "stage_boundary c = Some b"
  obtain start where "find (is_start_of c) (stages @ [c]) = Some start" "boundaryTransitionError start (stages @ [c]) False = None"
    using assms b by (cases "find (is_start_of c) (stages @ [c])") (auto simp: check_stage_def Let_def throw_if_def split: option.splits if_splits)
  moreover from this(1) have "is_start_of c start \<and> start \<in> set (stages @ [c])" by (metis find_Some_iff nth_mem)
  ultimately show "starts_with (b_replayScope b) (b_replayScope owner @ '':'') \<and> ct_runId (b_child b) \<noteq> rootId \<and>
      ct_runId (b_child b) \<noteq> pd_childRunId (q_descriptor work) \<and>
      (\<exists>start. is_start_of c start \<and> start \<in> set (stages @ [c]) \<and> boundaryTransitionError start (stages @ [c]) False = None)"
    using assms b by (auto simp: check_stage_def Let_def throw_if_def split: option.splits if_splits)
qed

section \<open>An example\<close>

lemma first_read:
  assumes "je_seq e = 1"
  shows "\<exists>s r s'. pending_read decode rootId s r s' \<and> sy_logs s = [[e]]"
proof -
  let ?s1 = "new_index_system\<lparr>sy_logs := [[e]]\<rparr>"
  let ?s2 = "?s1\<lparr>sy_begun := [(None, None, None)]\<rparr>"
  obtain r ix' where pass: "readEntries_pass decode new_index None None None (log_from [e]) = Some (r, ix')"
    using assms by (simp add: readEntries_pass_def make_view_def log_from_def mark_of_def Let_def)
  have "index_step decode rootId new_index_system ?s1"
    using index_step.appends [of e new_index_system decode rootId] assms by (simp add: new_index_system_def)
  moreover have "index_step decode rootId ?s1 ?s2"
    using index_step.begins [of None ?s1 rootId decode] by (simp add: new_index_system_def new_index_def base_mark_def)
  ultimately have "(index_step decode rootId)\<^sup>*\<^sup>* new_index_system ?s2" by (meson converse_rtranclp_into_rtranclp rtranclp.rtrancl_refl)
  then have "pending_read decode rootId ?s2 r (?s2\<lparr>sy_index := ix', sy_reads := [(r, 0, True)], sy_begun := []\<rparr>)"
    using pass by (auto simp: pending_read_def new_index_system_def)
  then show ?thesis by (intro exI [of _ ?s2] exI [of _ r] exI conjI) simp_all
qed

definition sample_child :: child_topology where
  "sample_child = \<lparr>ct_runId = ''k'', ct_runName = ''K'', ct_parentRunId = ''r'', ct_parentStageId = ''b'', ct_rootRunId = ''r''\<rparr>"

definition sample_owner :: boundary_topology where
  "sample_owner = \<lparr>b_version = 1, b_replayScope = ''s'', b_alias = ''al'', b_workflow = ''wf'', b_invocationFingerprint = ''f'',
    b_child = sample_child, b_workspace = None, b_event = BoundaryStart, b_status = Running\<rparr>"

definition sample_record :: "string \<Rightarrow> string \<Rightarrow> run_topology \<Rightarrow> boundary_topology option \<Rightarrow> stage_checkpoint" where
  "sample_record key node run boundary = \<lparr>sc_workflowId = ''r'', sc_checkpointId = key, sc_name = ''n'', sc_replayKey = key,
    sc_topology = Some \<lparr>t_version = 1, t_stageId = node, t_parentIds = [], t_intercomGroup = None, t_sourceOrder = Some 0,
      t_occurrenceKey = None, t_status = Some Running, t_order = None, t_run = Some run, t_boundary = boundary\<rparr>,
    sc_output = None, sc_sessionId = None, sc_sessionFile = None, sc_completedAt = 0\<rparr>"

definition sample_start :: stage_checkpoint where
  "sample_start = sample_record ''s'' ''b'' \<lparr>rt_runId = ''r'', rt_runName = ''R'', rt_parentRunId = None, rt_parentStageId = None,
    rt_rootRunId = Some ''r''\<rparr> (Some sample_owner)"

definition sample_mutation :: mutation where
  "sample_mutation = \<lparr>mu_kind = PlainCheckpoint, mu_checkpoint = Stage (sample_record ''s:1'' ''a'' (child_run sample_child) None), mu_fingerprint = True\<rparr>"

definition sample_pool_work :: pool_work where
  "sample_pool_work = \<lparr>q_descriptor = \<lparr>pd_boundaryId = ''b'', pd_childRunId = ''k'', pd_scope = ''s'', pd_definition = ''d'', pd_digest = ''g'',
      pd_inputs = JNull, pd_execution = []\<rparr>, q_id = ''w'', q_state = WLeased, q_generation = 1, q_worker = Some ''p'', q_epoch = 1,
    q_expiresAt = 10, q_renewedAt = 0\<rparr>"

definition sample_recorded :: "index_entry list" where
  "sample_recorded = [\<lparr>ix_seq = 1, ix_order = [], ix_checkpoint = StageIx sample_start\<rparr>]"

lemma sample_recorded_entries: "indexed_entries (\<lambda>_. Stage sample_start) [sample_event 1] = sample_recorded"
  by (simp add: indexed_entries_def List.map_filter_def index_entry_of_def sample_event_def sample_recorded_def)

lemma sample_accepted: "validate_scanning sample_recorded [] ''r'' sample_pool_work sample_mutation = Inr ()"
  by code_simp

section \<open>Theorems\<close>





end
