(* ===== verification/Edit_Text.thy ===== *)
theory Edit_Text
  imports Js_Text
begin

text \<open>
  Replacements in a text and their transfer to a file with other line endings
  (\<^verbatim>\<open>coding-agent/src/core/tools/edit-diff.ts\<close>, first part). The edit tool matches in the text with every line break
  written as a line feed, and then writes the replacements into the original. The theory relates both: the written file,
  normalised again, is the text with its replacements applied, and outside them nothing changes.
\<close>

section \<open>Positions in a text\<close>

abbreviation LF :: "16 word" where "LF \<equiv> newline_unit"

definition CR :: "16 word" where "CR = 13"

text \<open>\<open>slice\<close> with positions inside the text, \<open>indexOf\<close> and \<open>lastIndexOf\<close>.\<close>

definition text_slice :: "'a list \<Rightarrow> nat \<Rightarrow> nat \<Rightarrow> 'a list" where
  "text_slice xs i j = take (j - i) (drop i xs)"

definition starts_at :: "'a list \<Rightarrow> 'a list \<Rightarrow> nat \<Rightarrow> bool" where
  "starts_at xs sub i \<longleftrightarrow> take (length sub) (drop i xs) = sub"

definition index_of :: "'a list \<Rightarrow> 'a list \<Rightarrow> nat \<Rightarrow> nat option" where
  "index_of xs sub i = find (starts_at xs sub) [min i (length xs)..<Suc (length xs)]"

definition last_index_of :: "'a list \<Rightarrow> 'a \<Rightarrow> nat \<Rightarrow> nat option" where
  "last_index_of xs x i = find (\<lambda>k. k < length xs \<and> xs ! k = x) (rev [0..<Suc i])"

section \<open>Line endings\<close>

fun replace_crlf :: "js_text \<Rightarrow> js_text" where
  "replace_crlf [] = []"
| "replace_crlf [c] = [c]"
| "replace_crlf (c # d # t) = (if c = CR \<and> d = LF then LF # replace_crlf t else c # replace_crlf (d # t))"

definition normalizeToLF :: "js_text \<Rightarrow> js_text" where
  "normalizeToLF t = map (\<lambda>c. if c = CR then LF else c) (replace_crlf t)"

definition getLineEndingAt :: "js_text \<Rightarrow> nat \<Rightarrow> js_text" where
  "getLineEndingAt content offset =
    (case (case index_of content [LF] offset of Some i \<Rightarrow> Some i | None \<Rightarrow> last_index_of content LF offset) of
       None \<Rightarrow> if CR \<in> set content then [CR] else [LF]
     | Some lineFeed \<Rightarrow> if 0 < lineFeed \<and> content ! (lineFeed - 1) = CR then [CR, LF] else [LF])"

section \<open>Replacements\<close>

record text_replacement =
  matchIndex :: nat
  matchLength :: nat
  newText :: js_text

definition apply_replacement :: "nat \<Rightarrow> text_replacement \<Rightarrow> js_text \<Rightarrow> js_text" where
  "apply_replacement offset r result =
    (let i = int (matchIndex r) - int offset in
     take (nat i) result @ newText r @ drop (nat (i + int (matchLength r))) result)"

text \<open>From the last replacement to the first, so that positions stay valid.\<close>

definition applyReplacements :: "js_text \<Rightarrow> text_replacement list \<Rightarrow> nat \<Rightarrow> js_text" where
  "applyReplacements content replacements offset = foldr (apply_replacement offset) replacements content"

text \<open>
  \<open>toOriginal\<close> with its two variables: the line breaks of two characters counted so far, and the position of the next
  one.
\<close>

lemma index_of_ge:
  assumes "index_of xs sub i = Some k" and "sub \<noteq> []"
  shows "i \<le> k" and "k + length sub \<le> length xs" and "starts_at xs sub k" and "\<And>j. i \<le> j \<Longrightarrow> j < k \<Longrightarrow> \<not> starts_at xs sub j"
proof -
  obtain n where n: "n < Suc (length xs) - min i (length xs)" "k = min i (length xs) + n" "starts_at xs sub k"
    and first: "\<forall>j < n. \<not> starts_at xs sub (min i (length xs) + j)"
    using assms(1) by (auto simp: index_of_def find_Some_iff simp del: upt_Suc)
  have "length sub \<le> length xs - k" using n(3) by (metis length_drop length_take min.cobounded1 starts_at_def)
  moreover have "0 < length sub" using assms(2) by simp
  ultimately have fits: "k + length sub \<le> length xs" "k < length xs" by linarith+
  then show "i \<le> k" "k + length sub \<le> length xs" "starts_at xs sub k" using n by auto
  show "\<not> starts_at xs sub j" if "i \<le> j" "j < k" for j
    using first [rule_format, of "j - min i (length xs)"] that n(2) fits(2) by (simp add: min_def split: if_splits)
qed

lemma index_of_None: "index_of xs sub i = None \<Longrightarrow> sub \<noteq> [] \<Longrightarrow> i \<le> j \<Longrightarrow> \<not> starts_at xs sub j"
  by (cases "j \<le> length xs") (auto simp: index_of_def find_None_iff starts_at_def simp del: upt_Suc)

function toOriginal :: "js_text \<Rightarrow> nat \<Rightarrow> nat \<times> nat option \<Rightarrow> nat \<times> nat \<times> nat option" where
  "toOriginal original offset (crlfBefore, None) = (offset + crlfBefore, crlfBefore, None)"
| "toOriginal original offset (crlfBefore, Some nextCrlf) =
    (if int nextCrlf - int crlfBefore < int offset
     then toOriginal original offset (crlfBefore + 1, index_of original [CR, LF] (nextCrlf + 2))
     else (offset + crlfBefore, crlfBefore, Some nextCrlf))"
  by pat_completeness auto
termination
proof (relation "measure (\<lambda>(original, offset, b, next_crlf). case next_crlf of None \<Rightarrow> 0 | Some n \<Rightarrow> Suc (length original - n))", goal_cases)
  case (2 original offset b n)
  show ?case
  proof (cases "index_of original [CR, LF] (n + 2)")
    case (Some k)
    have "n + 2 \<le> k" "k + 2 \<le> length original" using index_of_ge(1,2) [OF Some] by simp_all
    then show ?thesis using Some by simp
  qed simp
qed simp

text \<open>The \<open>parts\<close> joined so far; their last character says whether they end with a carriage return.\<close>

definition push_part :: "js_text \<Rightarrow> js_text \<Rightarrow> js_text" where
  "push_part parts part =
    (if part = [] then parts
     else if parts \<noteq> [] \<and> last parts = CR \<and> hd part = LF then parts @ [LF] @ part
     else parts @ part)"

definition with_ending :: "js_text \<Rightarrow> js_text \<Rightarrow> js_text" where
  "with_ending ending t = (if ending = [LF] then t else concat (map (\<lambda>c. if c = LF then ending else [c]) t))"

fun replace_parts ::
  "js_text \<Rightarrow> nat \<times> nat option \<Rightarrow> js_text \<Rightarrow> nat \<Rightarrow> text_replacement list \<Rightarrow> js_text" where
  "replace_parts original crlf parts position [] = push_part parts (drop position original)"
| "replace_parts original crlf parts position (r # rs) =
    (case toOriginal original (matchIndex r) crlf of
       (start, crlf1) \<Rightarrow>
         let parts1 = push_part parts (text_slice original position start);
             parts2 = push_part parts1 (with_ending (getLineEndingAt original start) (newText r)) in
         case toOriginal original (matchIndex r + matchLength r) crlf1 of
           (position', crlf2) \<Rightarrow> replace_parts original crlf2 parts2 position' rs)"

definition applyReplacementsToOriginal :: "js_text \<Rightarrow> text_replacement list \<Rightarrow> js_text" where
  "applyReplacementsToOriginal original replacements =
    replace_parts original (0, index_of original [CR, LF] 0) [] 0 replacements"

section \<open>Normalisation\<close>

lemma CR_LF [simp]: "CR \<noteq> LF" "LF \<noteq> CR"
  by (simp_all add: CR_def newline_unit_def)

lemma replace_crlf_Cons: "replace_crlf (c # t) = (if c = CR \<and> t \<noteq> [] \<and> hd t = LF then LF # replace_crlf (tl t) else c # replace_crlf t)"
  by (cases t) auto

lemma normalize_Nil [simp]: "normalizeToLF [] = []"
  by (simp add: normalizeToLF_def)

lemma normalize_Cons:
  "normalizeToLF (c # t) = (if c = CR \<and> t \<noteq> [] \<and> hd t = LF then LF # normalizeToLF (tl t) else (if c = CR then LF else c) # normalizeToLF t)"
  by (simp add: normalizeToLF_def replace_crlf_Cons)

lemma normalize_no_CR: "CR \<notin> set (normalizeToLF t)"
  by (auto simp: normalizeToLF_def)

lemma normalize_id: "CR \<notin> set t \<Longrightarrow> normalizeToLF t = t"
  by (induction t) (auto simp: normalize_Cons)

text \<open>Text is normalised piece by piece, unless a piece ends and the next begins inside a line break.\<close>

definition splits_break :: "js_text \<Rightarrow> js_text \<Rightarrow> bool" where
  "splits_break s t \<longleftrightarrow> s \<noteq> [] \<and> last s = CR \<and> t \<noteq> [] \<and> hd t = LF"

lemma normalize_append: "\<not> splits_break s t \<Longrightarrow> normalizeToLF (s @ t) = normalizeToLF s @ normalizeToLF t"
proof (induction s rule: replace_crlf.induct)
  case (2 c)
  then show ?case by (auto simp: normalize_Cons splits_break_def)
next
  case (3 c d s)
  then have "normalizeToLF (s @ t) = normalizeToLF s @ normalizeToLF t" if "c = CR \<and> d = LF"
    using that by (cases s) (auto simp: splits_break_def)
  moreover have "normalizeToLF ((d # s) @ t) = normalizeToLF (d # s) @ normalizeToLF t" if "\<not> (c = CR \<and> d = LF)"
    using 3 that by (simp add: splits_break_def)
  ultimately show ?case by (simp add: normalize_Cons [of c])
qed simp

lemma normalize_break: "normalizeToLF (s @ [CR, LF]) = normalizeToLF (s @ [CR])"
proof -
  have "normalizeToLF (s @ [CR, LF]) = normalizeToLF s @ [LF]" "normalizeToLF (s @ [CR]) = normalizeToLF s @ [LF]"
    by (subst normalize_append; simp add: splits_break_def normalize_Cons)+
  then show ?thesis by simp
qed

lemma normalize_push: "normalizeToLF (push_part parts part) = normalizeToLF parts @ normalizeToLF part"
proof (cases "splits_break parts part")
  case True
  then obtain s t where s: "parts = s @ [CR]" and t: "part = LF # t"
    by (metis append_butlast_last_id list.collapse splits_break_def)
  have "normalizeToLF (s @ [CR, LF] @ LF # t) = normalizeToLF (s @ [CR, LF]) @ normalizeToLF (LF # t)"
    using normalize_append [of "s @ [CR, LF]" "LF # t"] by (simp add: splits_break_def)
  then show ?thesis by (simp add: push_part_def s t normalize_break)
next
  case False
  then show ?thesis using normalize_append [OF False] by (auto simp: push_part_def splits_break_def)
qed

lemma normalize_with_ending:
  assumes "CR \<notin> set t" and "ending \<in> {[LF], [CR], [CR, LF]}"
  shows "normalizeToLF (with_ending ending t) = t"
proof (cases "ending = [LF]")
  case True
  then show ?thesis using assms by (simp add: with_ending_def normalize_id)
next
  case False
  let ?f = "\<lambda>c. if c = LF then ending else [c]"
  have "normalizeToLF (concat (map ?f t)) = t" using assms(1)
  proof (induction t)
    case (Cons c t)
    have "\<not> splits_break (?f c) (concat (map ?f t))"
      using assms(2) False Cons.prems by (cases t) (auto simp: splits_break_def)
    then have "normalizeToLF (concat (map ?f (c # t))) = normalizeToLF (?f c) @ t"
      using normalize_append [of "?f c" "concat (map ?f t)"] Cons by simp
    moreover have "normalizeToLF (?f c) = [c]" using assms(2) Cons.prems by (auto simp: normalize_Cons)
    ultimately show ?case by simp
  qed simp
  then show ?thesis using False by (simp add: with_ending_def)
qed

lemma line_ending_cases: "getLineEndingAt content offset \<in> {[LF], [CR], [CR, LF]}"
  by (auto simp: getLineEndingAt_def split: option.splits)

section \<open>Positions before and after normalisation\<close>

text \<open>The position of the original that a position of the normalised text stands for.\<close>

fun orig_pos :: "js_text \<Rightarrow> nat \<Rightarrow> nat" where
  "orig_pos t 0 = 0"
| "orig_pos [] (Suc k) = Suc k"
| "orig_pos [c] (Suc k) = Suc k"
| "orig_pos (c # d # t) (Suc k) = (if c = CR \<and> d = LF then 2 + orig_pos t k else 1 + orig_pos (d # t) k)"

lemma orig_pos_Nil [simp]: "orig_pos [] k = k"
  by (cases k) auto

lemma orig_pos_single [simp]: "orig_pos [c] k = k"
  by (cases k) auto

lemma orig_pos_take: "normalizeToLF (take (orig_pos t k) t) = take k (normalizeToLF t)"
proof (induction t k rule: orig_pos.induct)
  case (4 c d t k)
  then show ?case by (cases "orig_pos (d # t) k") (auto simp: normalize_Cons [of c] normalize_Cons [of CR])
qed (simp_all add: normalize_Cons)

lemma orig_pos_drop: "normalizeToLF (drop (orig_pos t k) t) = drop k (normalizeToLF t)"
proof (induction t k rule: orig_pos.induct)
  case (4 c d t k)
  then show ?case by (auto simp: normalize_Cons [of c] normalize_Cons [of CR])
qed (simp_all add: normalize_Cons)

lemma orig_pos_add: "orig_pos t (i + m) = orig_pos t i + orig_pos (drop (orig_pos t i) t) m"
  by (induction t i rule: orig_pos.induct) auto

lemma normalize_slice:
  assumes "i \<le> j"
  shows "normalizeToLF (text_slice t (orig_pos t i) (orig_pos t j)) = text_slice (normalizeToLF t) i j"
  using orig_pos_add [of t i "j - i"] assms by (simp add: text_slice_def orig_pos_take orig_pos_drop)

lemma starts_at_Cons: "starts_at (x # xs) sub (Suc p) = starts_at xs sub p"
  by (simp add: starts_at_def)

lemma starts_at_drop: "starts_at (drop q xs) sub p = starts_at xs sub (q + p)"
  by (simp add: starts_at_def add.commute)

lemma orig_pos_plain: "(\<forall>p < k. \<not> starts_at t [CR, LF] p) \<Longrightarrow> orig_pos t k = k"
proof (induction t k rule: orig_pos.induct)
  case (4 c d t k)
  have "\<not> starts_at (c # d # t) [CR, LF] 0" using 4(3) by blast
  then have "\<not> (c = CR \<and> d = LF)" by (auto simp: starts_at_def)
  moreover have "\<forall>p < k. \<not> starts_at (d # t) [CR, LF] p" using 4(3) starts_at_Cons by (metis Suc_less_eq)
  ultimately show ?case using 4(2) by auto
qed auto

text \<open>What the two variables of \<open>toOriginal\<close> say about the original once all positions up to \<open>k\<close> were asked for.\<close>

definition crlf_ok :: "js_text \<Rightarrow> nat \<times> nat option \<Rightarrow> nat \<Rightarrow> bool" where
  "crlf_ok t crlf k \<longleftrightarrow> (\<exists>q. index_of t [CR, LF] q = snd crlf \<and> fst crlf \<le> q \<and> orig_pos t (q - fst crlf) = q \<and> q - fst crlf \<le> k)"

lemma crlf_ok_start: "crlf_ok t (0, index_of t [CR, LF] 0) 0"
  by (auto simp: crlf_ok_def intro: exI [of _ 0])

lemma toOriginal_pos:
  assumes "crlf_ok t crlf k"
  shows "\<exists>crlf'. toOriginal t k crlf = (orig_pos t k, crlf') \<and> crlf_ok t crlf' k"
  using assms
proof (induction t k crlf rule: toOriginal.induct)
  case (1 t k b)
  then obtain q where q: "index_of t [CR, LF] q = None" "b \<le> q" "orig_pos t (q - b) = q" "q - b \<le> k" by (auto simp: crlf_ok_def)
  have "orig_pos (drop q t) m = m" for m
    using index_of_None [OF q(1)] by (intro orig_pos_plain) (simp add: starts_at_drop)
  then have "orig_pos t k = k + b" using orig_pos_add [of t "q - b" "k - (q - b)"] q by simp
  then show ?case using 1 by (auto simp: crlf_ok_def)
next
  case (2 t k b p)
  then obtain q where q: "index_of t [CR, LF] q = Some p" "b \<le> q" "orig_pos t (q - b) = q" "q - b \<le> k" by (auto simp: crlf_ok_def)
  note at = index_of_ge [OF q(1), simplified]
  have plain: "orig_pos (drop q t) m = m" if "m \<le> p - q" for m
    using at(4) that by (intro orig_pos_plain) (auto simp: starts_at_drop)
  show ?case
  proof (cases "int p - int b < int k")
    case True
    have "orig_pos (drop q t) (p - q + 1) = p - q + orig_pos (drop p t) 1"
      using orig_pos_add [of "drop q t" "p - q" 1] plain [of "p - q"] at(1) by simp
    also have "orig_pos (drop p t) 1 = 2"
    proof -
      have "take 2 (drop p t) = [CR, LF]" using at(3) by (simp add: starts_at_def numeral_2_eq_2)
      then obtain u where "drop p t = CR # LF # u" by (metis append_Cons append_Nil append_take_drop_id)
      then show ?thesis by simp
    qed
    finally have "orig_pos t (p + 2 - (b + 1)) = p + 2"
      using orig_pos_add [of t "q - b" "p - q + 1"] q at(1) by (simp add: Suc_diff_le)
    then have "crlf_ok t (b + 1, index_of t [CR, LF] (p + 2)) k"
      unfolding crlf_ok_def using q at(1) True by (intro exI [of _ "p + 2"]) auto
    then show ?thesis using 2(1) True by simp
  next
    case False
    then have "orig_pos t k = k + b" using plain [of "k - (q - b)"] orig_pos_add [of t "q - b" "k - (q - b)"] q by simp
    then show ?thesis using 2(2) False by auto
  qed
qed

section \<open>Applying replacements\<close>

text \<open>Replacements in order, apart from each other, between two positions.\<close>

fun fits :: "nat \<Rightarrow> nat \<Rightarrow> text_replacement list \<Rightarrow> bool" where
  "fits n pos [] \<longleftrightarrow> pos \<le> n"
| "fits n pos (r # rs) \<longleftrightarrow> pos \<le> matchIndex r \<and> fits n (matchIndex r + matchLength r) rs"

text \<open>The text between two positions with the replacements in it, from left to right.\<close>

fun patched :: "js_text \<Rightarrow> nat \<Rightarrow> nat \<Rightarrow> text_replacement list \<Rightarrow> js_text" where
  "patched content pos n [] = text_slice content pos n"
| "patched content pos n (r # rs) = text_slice content pos (matchIndex r) @ newText r @ patched content (matchIndex r + matchLength r) n rs"

lemma fits_le: "fits n pos rs \<Longrightarrow> pos \<le> n"
  by (induction rs arbitrary: pos) (auto, fastforce)

lemma fits_append: "fits n pos (rs @ qs) \<longleftrightarrow> (\<exists>m. fits m pos rs \<and> fits n m qs)"
proof (induction rs arbitrary: pos)
  case Nil
  then show ?case by (cases qs) (auto intro: le_trans)
qed auto

lemma fits_mono: "fits m pos rs \<Longrightarrow> m \<le> n \<Longrightarrow> fits n pos rs"
  by (induction rs arbitrary: pos) auto

lemma length_text_slice [simp]: "length (text_slice xs i j) = min (j - i) (length xs - i)"
  by (simp add: text_slice_def)

lemma slice_append: "i \<le> j \<Longrightarrow> j \<le> k \<Longrightarrow> text_slice xs i j @ text_slice xs j k = text_slice xs i k"
  using take_add [of "j - i" "k - j" "drop i xs"] by (simp add: text_slice_def)

lemma slice_all [simp]: "text_slice xs 0 (length xs) = xs" "text_slice xs i (length xs) = drop i xs"
  by (simp_all add: text_slice_def)

lemma take_slice: "i \<le> j \<Longrightarrow> j \<le> k \<Longrightarrow> take (j - i) (text_slice xs i k) = text_slice xs i j"
  by (simp add: text_slice_def min_def)

lemma patched_append:
  assumes "fits m pos rs" and "fits n m qs"
  shows "patched content pos n (rs @ qs) = patched content pos m rs @ patched content m n qs"
  using assms(1)
proof (induction rs arbitrary: pos)
  case Nil
  show ?case
  proof (cases qs)
    case Nil
    then show ?thesis using slice_append [of pos m n content] assms(2) \<open>fits m pos []\<close> by simp
  next
    case (Cons q qs')
    then show ?thesis using slice_append [of pos m "matchIndex q" content] assms(2) \<open>fits m pos []\<close> by simp
  qed
qed simp

lemma foldr_patched:
  assumes "fits n pos rs" and "s \<le> pos" and "n \<le> length content"
  shows "foldr (apply_replacement s) rs (text_slice content s n) = text_slice content s pos @ patched content pos n rs"
  using assms(1,2)
proof (induction rs arbitrary: pos)
  case (Cons r rs)
  let ?i = "matchIndex r" and ?e = "matchIndex r + matchLength r"
  have fit: "fits n ?e rs" "pos \<le> ?i" "s \<le> pos" using Cons.prems by auto
  have le: "?e \<le> n" using fits_le [OF fit(1)] .
  have len: "length (text_slice content s ?e) = ?e - s" using le assms(3) by simp
  have "foldr (apply_replacement s) rs (text_slice content s n) = text_slice content s ?e @ patched content ?e n rs"
    using Cons.IH [OF fit(1)] fit by simp
  moreover have "nat (int ?i - int s) = ?i - s" "nat (int ?i - int s + int (matchLength r)) = ?e - s" using fit by linarith+
  moreover have "take (?i - s) (text_slice content s ?e @ patched content ?e n rs) = text_slice content s ?i"
    using len fit by (simp add: take_slice)
  moreover have "text_slice content s ?i = text_slice content s pos @ text_slice content pos ?i" using fit by (simp add: slice_append)
  ultimately show ?case using len by (simp add: apply_replacement_def [of s r])
qed (simp add: slice_append)

lemma applyReplacements_patched:
  "fits n s rs \<Longrightarrow> n \<le> length content \<Longrightarrow> applyReplacements (text_slice content s n) rs s = patched content s n rs"
  using foldr_patched [of n s rs s content] by (simp add: applyReplacements_def text_slice_def)

lemma applyReplacements_all: "fits (length content) 0 rs \<Longrightarrow> applyReplacements content rs 0 = patched content 0 (length content) rs"
  using applyReplacements_patched [of "length content" 0 rs content] by simp

section \<open>Writing replacements into the original\<close>

lemma crlf_ok_mono: "crlf_ok t crlf k \<Longrightarrow> k \<le> l \<Longrightarrow> crlf_ok t crlf l"
  unfolding crlf_ok_def by (meson le_trans)

lemma replace_parts_normalized:
  assumes "crlf_ok t crlf k" and "fits (length (normalizeToLF t)) k rs" and "\<forall>r \<in> set rs. CR \<notin> set (newText r)"
  shows "normalizeToLF (replace_parts t crlf parts (orig_pos t k) rs) = normalizeToLF parts @ patched (normalizeToLF t) k (length (normalizeToLF t)) rs"
  using assms
proof (induction rs arbitrary: crlf k parts)
  case Nil
  then show ?case by (simp add: normalize_push orig_pos_drop)
next
  case (Cons r rs)
  have fit: "k \<le> matchIndex r" "fits (length (normalizeToLF t)) (matchIndex r + matchLength r) rs" using Cons.prems by auto
  obtain crlf1 where one: "toOriginal t (matchIndex r) crlf = (orig_pos t (matchIndex r), crlf1)" "crlf_ok t crlf1 (matchIndex r)"
    using toOriginal_pos [OF crlf_ok_mono [OF Cons.prems(1) fit(1)]] by blast
  have "crlf_ok t crlf1 (matchIndex r + matchLength r)" using one(2) by (rule crlf_ok_mono) simp
  from toOriginal_pos [OF this] obtain crlf2 where
    two: "toOriginal t (matchIndex r + matchLength r) crlf1 = (orig_pos t (matchIndex r + matchLength r), crlf2)"
      "crlf_ok t crlf2 (matchIndex r + matchLength r)" by blast
  have "normalizeToLF (with_ending (getLineEndingAt t (orig_pos t (matchIndex r))) (newText r)) = newText r"
    using Cons.prems(3) line_ending_cases by (intro normalize_with_ending) auto
  then show ?case using Cons.IH [OF two(2) fit(2)] Cons.prems(3) fit(1)
    by (simp add: one two normalize_push normalize_slice)
qed

lemma written_normalized:
  assumes "fits (length (normalizeToLF t)) 0 rs" and "\<forall>r \<in> set rs. CR \<notin> set (newText r)"
  shows "normalizeToLF (applyReplacementsToOriginal t rs) = applyReplacements (normalizeToLF t) rs 0"
  using replace_parts_normalized [OF crlf_ok_start assms, of "[]"] applyReplacements_all [OF assms(1)]
  by (simp add: applyReplacementsToOriginal_def)

text \<open>In a file where every carriage return belongs to a line break of two characters, nothing else is written.\<close>

definition crs_paired :: "js_text \<Rightarrow> bool" where
  "crs_paired t \<longleftrightarrow> (\<forall>i < length t. t ! i = CR \<longrightarrow> Suc i < length t \<and> t ! Suc i = LF)"

definition original_replacement :: "js_text \<Rightarrow> text_replacement \<Rightarrow> text_replacement" where
  "original_replacement t r = \<lparr>matchIndex = orig_pos t (matchIndex r),
    matchLength = orig_pos t (matchIndex r + matchLength r) - orig_pos t (matchIndex r),
    newText = with_ending (getLineEndingAt t (orig_pos t (matchIndex r))) (newText r)\<rparr>"

definition no_cr_end :: "js_text \<Rightarrow> bool" where
  "no_cr_end t \<longleftrightarrow> (t \<noteq> [] \<longrightarrow> last t \<noteq> CR)"

lemma push_plain: "no_cr_end parts \<Longrightarrow> push_part parts part = parts @ part"
  by (auto simp: push_part_def no_cr_end_def)

lemma no_cr_end_append: "no_cr_end s \<Longrightarrow> no_cr_end t \<Longrightarrow> no_cr_end (s @ t)"
  by (simp add: no_cr_end_def last_append)

lemma orig_pos_mono: "i \<le> j \<Longrightarrow> orig_pos t i \<le> orig_pos t j"
  using orig_pos_add [of t i "j - i"] by simp

lemma orig_pos_between: "orig_pos t k = Suc i \<Longrightarrow> i < length t \<Longrightarrow> t ! i = CR \<Longrightarrow> Suc i < length t \<Longrightarrow> t ! Suc i \<noteq> LF"
proof (induction t k arbitrary: i rule: orig_pos.induct)
  case (4 c d t k)
  show ?case
  proof (cases "c = CR \<and> d = LF")
    case True
    then have i: "Suc (orig_pos t k) = i" using 4(3) by simp
    then show ?thesis using 4(1) [OF True, of "i - 2"] 4(3-6) True by (cases "orig_pos t k") (auto simp: numeral_2_eq_2)
  next
    case False
    then have i: "orig_pos (d # t) k = i" using 4(3) by auto
    then show ?thesis using 4(2) [OF False, of "i - 1"] 4(3-6) False by (cases i) auto
  qed
qed auto

lemma slice_no_cr_end:
  assumes "crs_paired t" and "orig_pos t j \<le> length t" and "i \<le> j"
  shows "no_cr_end (text_slice t (orig_pos t i) (orig_pos t j))"
  unfolding no_cr_end_def
proof (intro impI notI)
  let ?a = "orig_pos t i" and ?b = "orig_pos t j"
  assume ne: "text_slice t ?a ?b \<noteq> []" and cr: "last (text_slice t ?a ?b) = CR"
  have lt: "?a < ?b" using ne by (auto simp: text_slice_def)
  have at: "?b - 1 < length t" "Suc (?b - 1) = ?b" using lt assms(2) by linarith+
  have "last (text_slice t ?a ?b) = t ! (?b - 1)" using lt assms(2) ne by (simp add: last_conv_nth text_slice_def)
  moreover have "t ! (?b - 1) = CR \<longrightarrow> Suc (?b - 1) < length t \<and> t ! Suc (?b - 1) = LF"
    using assms(1) at unfolding crs_paired_def by blast
  ultimately show False using orig_pos_between [of t j "?b - 1"] cr at by auto
qed

lemma paired_ending:
  assumes "crs_paired t" and "CR \<notin> set s"
  shows "no_cr_end (with_ending (getLineEndingAt t k) s)"
proof -
  have "getLineEndingAt t k \<noteq> [CR]"
  proof
    assume e: "getLineEndingAt t k = [CR]"
    then have none: "index_of t [LF] k = None" "last_index_of t LF k = None" and cr: "CR \<in> set t"
      by (auto simp: getLineEndingAt_def split: option.splits if_splits)
    obtain i where i: "i < length t" "t ! i = CR" using cr by (auto simp: in_set_conv_nth)
    then have lf: "Suc i < length t" "t ! Suc i = LF" using assms(1) by (auto simp: crs_paired_def)
    have "starts_at t [LF] (Suc i)" using lf by (simp add: starts_at_def Cons_nth_drop_Suc [symmetric])
    then have "Suc i < k" using index_of_None [OF none(1), of "Suc i"] by (cases "k \<le> Suc i") simp_all
    then show False using none(2) lf by (auto simp: last_index_of_def find_None_iff simp del: upt_Suc)
  qed
  then have endings: "getLineEndingAt t k = [LF] \<or> getLineEndingAt t k = [CR, LF]" using line_ending_cases [of t k] by auto
  have "no_cr_end s" using assms(2) by (metis last_in_set no_cr_end_def)
  moreover have "no_cr_end (concat (map (\<lambda>c. if c = LF then [CR, LF] else [c]) s))" using assms(2)
  proof (induction s rule: rev_induct)
    case (snoc c s)
    then show ?case by (auto simp: no_cr_end_def)
  qed (simp add: no_cr_end_def)
  ultimately have "no_cr_end (with_ending [LF] s)" "no_cr_end (with_ending [CR, LF] s)" by (simp_all add: with_ending_def)
  then show ?thesis using endings by (elim disjE) simp_all
qed

lemma orig_pos_length: "orig_pos t (length (normalizeToLF t)) = length t"
  by (induction t rule: replace_crlf.induct) (auto simp: normalize_Cons)

lemma replace_parts_paired:
  assumes "crlf_ok t crlf k" and "fits (length (normalizeToLF t)) k rs" and "\<forall>r \<in> set rs. CR \<notin> set (newText r)"
    and "crs_paired t" and "no_cr_end parts"
  shows "replace_parts t crlf parts (orig_pos t k) rs = parts @ patched t (orig_pos t k) (length t) (map (original_replacement t) rs)"
  using assms
proof (induction rs arbitrary: crlf k parts)
  case Nil
  then show ?case by (simp add: push_plain)
next
  case (Cons r rs)
  let ?i = "matchIndex r" and ?e = "matchIndex r + matchLength r"
  have fit: "k \<le> ?i" "fits (length (normalizeToLF t)) ?e rs" using Cons.prems by auto
  obtain crlf1 where one: "toOriginal t ?i crlf = (orig_pos t ?i, crlf1)" "crlf_ok t crlf1 ?i"
    using toOriginal_pos [OF crlf_ok_mono [OF Cons.prems(1) fit(1)]] by blast
  have "crlf_ok t crlf1 ?e" using one(2) by (rule crlf_ok_mono) simp
  from toOriginal_pos [OF this] obtain crlf2 where two: "toOriginal t ?e crlf1 = (orig_pos t ?e, crlf2)" "crlf_ok t crlf2 ?e" by blast
  have "orig_pos t ?i \<le> length t" using orig_pos_mono [of ?i "length (normalizeToLF t)" t] fits_le [OF fit(2)] by (simp add: orig_pos_length)
  then have s: "no_cr_end (text_slice t (orig_pos t k) (orig_pos t ?i))" using slice_no_cr_end [OF Cons.prems(4)] fit(1) by simp
  let ?new = "with_ending (getLineEndingAt t (orig_pos t ?i)) (newText r)"
  have n: "no_cr_end ?new" using paired_ending [OF Cons.prems(4)] Cons.prems(3) by simp
  have "no_cr_end (parts @ text_slice t (orig_pos t k) (orig_pos t ?i))" "no_cr_end (parts @ text_slice t (orig_pos t k) (orig_pos t ?i) @ ?new)"
    using no_cr_end_append [OF Cons.prems(5) s] no_cr_end_append [OF Cons.prems(5) no_cr_end_append [OF s n]] by simp_all
  then show ?case using Cons.IH [OF two(2) fit(2)] Cons.prems(3-5) orig_pos_mono [of ?i ?e t]
    by (simp add: one two push_plain original_replacement_def)
qed

lemma written_paired:
  assumes "fits (length (normalizeToLF t)) 0 rs" and "\<forall>r \<in> set rs. CR \<notin> set (newText r)" and "crs_paired t"
  shows "applyReplacementsToOriginal t rs = patched t 0 (length t) (map (original_replacement t) rs)"
  using replace_parts_paired [OF crlf_ok_start assms, of "[]"] by (simp add: applyReplacementsToOriginal_def no_cr_end_def)
end
