(* ===== verification/Edit_Match.thy ===== *)
theory Edit_Match
  imports Edit_Text "HOL-Library.Multiset"
begin

text \<open>
  Finding the texts of an edit and applying it (\<^verbatim>\<open>coding-agent/src/core/tools/edit-diff.ts\<close>, second part, and the content
  the tool of \<^verbatim>\<open>edit.ts\<close> writes). A text is searched as it is and, failing that, in a form of the content where trailing
  white space, quotes, dashes and spaces are made alike; then only the lines the edit touches are taken from that form.
  \<open>nfkc\<close> stands for \<open>String.prototype.normalize("NFKC")\<close>.
\<close>

section \<open>The form for loose matching\<close>

definition js_white :: "16 word \<Rightarrow> bool" where
  "js_white c \<longleftrightarrow> c \<in> {9, 10, 11, 12, 13, 0x20, 0xA0, 0x1680, 0x2028, 0x2029, 0x202F, 0x205F, 0x3000, 0xFEFF} \<or> 0x2000 \<le> c \<and> c \<le> 0x200A"

definition trim_end :: "js_text \<Rightarrow> js_text" where
  "trim_end t = rev (dropWhile js_white (rev t))"

definition replace_units :: "(16 word \<Rightarrow> bool) \<Rightarrow> 16 word \<Rightarrow> js_text \<Rightarrow> js_text" where
  "replace_units P u t = map (\<lambda>c. if P c then u else c) t"

definition normalizeForFuzzyMatch :: "(js_text \<Rightarrow> js_text) \<Rightarrow> js_text \<Rightarrow> js_text" where
  "normalizeForFuzzyMatch nfkc t =
    replace_units (\<lambda>c. c \<in> {0xA0, 0x202F, 0x205F, 0x3000} \<or> 0x2002 \<le> c \<and> c \<le> 0x200A) 0x20
      (replace_units (\<lambda>c. c \<in> {0x2010, 0x2011, 0x2012, 0x2013, 0x2014, 0x2015, 0x2212}) 0x2D
        (replace_units (\<lambda>c. c \<in> {0x201C, 0x201D, 0x201E, 0x201F}) 0x22
          (replace_units (\<lambda>c. c \<in> {0x2018, 0x2019, 0x201A, 0x201B}) 0x27
            (join_on LF (map trim_end (split_on LF (nfkc t)))))))"

section \<open>Lines\<close>

text \<open>The matches of \<open>[^\n]*\n|[^\n]+\<close>; \<open>cur\<close> is the match so far.\<close>

fun split_lines :: "js_text \<Rightarrow> js_text \<Rightarrow> js_text list" where
  "split_lines cur [] = (if cur = [] then [] else [cur])"
| "split_lines cur (c # t) = (if c = LF then (cur @ [c]) # split_lines [] t else split_lines (cur @ [c]) t)"

definition splitLinesWithEndings :: "js_text \<Rightarrow> js_text list" where
  "splitLinesWithEndings content = split_lines [] content"

record line_span =
  ls_start :: nat
  ls_end :: nat

fun line_spans :: "nat \<Rightarrow> js_text list \<Rightarrow> line_span list" where
  "line_spans offset [] = []"
| "line_spans offset (l # ls) = \<lparr>ls_start = offset, ls_end = offset + length l\<rparr> # line_spans (offset + length l) ls"

definition getLineSpans :: "js_text \<Rightarrow> line_span list" where
  "getLineSpans content = line_spans 0 (splitLinesWithEndings content)"

datatype edit_error =
    OldTextEmpty nat nat
  | TextNotFound nat nat
  | TextNotUnique nat nat int
  | EditsOverlap nat nat nat
  | NoChange nat
  | LineCountDiffers
  | OutsideBase

definition getReplacementLineRange :: "line_span list \<Rightarrow> text_replacement \<Rightarrow> edit_error + nat \<times> nat" where
  "getReplacementLineRange lines r =
    (let stop = matchIndex r + matchLength r in
     case find (\<lambda>i. ls_start (lines ! i) \<le> matchIndex r \<and> matchIndex r < ls_end (lines ! i)) [0..<length lines] of
       None \<Rightarrow> Inl OutsideBase
     | Some startLine \<Rightarrow>
         (case find (\<lambda>i. \<not> ls_end (lines ! i) < stop) [startLine..<length lines] of
            None \<Rightarrow> Inl OutsideBase
          | Some endLine \<Rightarrow> Inr (startLine, endLine + 1)))"

record line_group =
  lg_startLine :: nat
  lg_endLine :: nat
  lg_replacements :: "text_replacement list"

text \<open>The loop of \<open>widenReplacementsToLines\<close>; the groups so far are in reverse, the current one first.\<close>

fun line_groups :: "line_span list \<Rightarrow> line_group list \<Rightarrow> text_replacement list \<Rightarrow> edit_error + line_group list" where
  "line_groups lines groups [] = Inr (rev groups)"
| "line_groups lines groups (r # rs) =
    try_bind (getReplacementLineRange lines r) (\<lambda>(startLine, endLine).
      case groups of
        [] \<Rightarrow> line_groups lines [\<lparr>lg_startLine = startLine, lg_endLine = endLine, lg_replacements = [r]\<rparr>] rs
      | current # before \<Rightarrow>
          if startLine < lg_endLine current
          then line_groups lines (current\<lparr>lg_endLine := max (lg_endLine current) endLine,
            lg_replacements := lg_replacements current @ [r]\<rparr> # before) rs
          else line_groups lines (\<lparr>lg_startLine = startLine, lg_endLine = endLine, lg_replacements = [r]\<rparr> # groups) rs)"

definition widen_group :: "line_span list \<Rightarrow> line_span list \<Rightarrow> js_text \<Rightarrow> line_group \<Rightarrow> text_replacement" where
  "widen_group originalLines baseLines base g =
    (let groupStartOffset = ls_start (baseLines ! lg_startLine g);
         groupEndOffset = ls_end (baseLines ! (lg_endLine g - 1));
         originalStart = ls_start (originalLines ! lg_startLine g) in
     \<lparr>matchIndex = originalStart, matchLength = ls_end (originalLines ! (lg_endLine g - 1)) - originalStart,
      newText = applyReplacements (text_slice base groupStartOffset groupEndOffset) (lg_replacements g) groupStartOffset\<rparr>)"

definition widenReplacementsToLines :: "js_text \<Rightarrow> js_text \<Rightarrow> text_replacement list \<Rightarrow> edit_error + text_replacement list" where
  "widenReplacementsToLines original base replacements =
    (let originalLines = getLineSpans original; baseLines = getLineSpans base in
     try_bind (throw_if (length originalLines \<noteq> length baseLines) LineCountDiffers) (\<lambda>_.
     try_bind (line_groups baseLines [] (sort_key matchIndex replacements)) (\<lambda>groups.
     Inr (map (widen_group originalLines baseLines base) groups))))"

section \<open>Matches\<close>

record fuzzy_match =
  fm_found :: bool
  fm_index :: int
  fm_matchLength :: nat
  fm_usedFuzzyMatch :: bool
  fm_contentForReplacement :: js_text

definition fuzzyFindText :: "(js_text \<Rightarrow> js_text) \<Rightarrow> js_text \<Rightarrow> js_text \<Rightarrow> fuzzy_match" where
  "fuzzyFindText nfkc content oldText =
    (case index_of content oldText 0 of
       Some i \<Rightarrow> \<lparr>fm_found = True, fm_index = int i, fm_matchLength = length oldText, fm_usedFuzzyMatch = False, fm_contentForReplacement = content\<rparr>
     | None \<Rightarrow>
         let fuzzyContent = normalizeForFuzzyMatch nfkc content; fuzzyOldText = normalizeForFuzzyMatch nfkc oldText in
         (case index_of fuzzyContent fuzzyOldText 0 of
            None \<Rightarrow> \<lparr>fm_found = False, fm_index = -1, fm_matchLength = 0, fm_usedFuzzyMatch = False, fm_contentForReplacement = content\<rparr>
          | Some i \<Rightarrow> \<lparr>fm_found = True, fm_index = int i, fm_matchLength = length fuzzyOldText, fm_usedFuzzyMatch = True,
              fm_contentForReplacement = fuzzyContent\<rparr>))"

text \<open>The number of parts of \<open>content.split(sub)\<close>: matches do not overlap, and the empty text splits between all units.\<close>

function split_parts :: "'a list \<Rightarrow> 'a list \<Rightarrow> nat" where
  "split_parts [] sub = 1"
| "split_parts (x # xs) sub =
    (if sub \<noteq> [] \<and> take (length sub) (x # xs) = sub then Suc (split_parts (drop (length sub) (x # xs)) sub) else split_parts xs sub)"
  by pat_completeness auto
termination
  by (relation "measure (\<lambda>(xs, sub). length xs)") (auto simp: neq_Nil_conv)

definition countOccurrences :: "(js_text \<Rightarrow> js_text) \<Rightarrow> js_text \<Rightarrow> js_text \<Rightarrow> int" where
  "countOccurrences nfkc content oldText =
    (let fuzzyContent = normalizeForFuzzyMatch nfkc content; fuzzyOldText = normalizeForFuzzyMatch nfkc oldText in
     (if fuzzyOldText = [] then int (length fuzzyContent) else int (split_parts fuzzyContent fuzzyOldText)) - 1)"

section \<open>Edits\<close>

record edit =
  ed_oldText :: js_text
  ed_newText :: js_text

text \<open>A matched edit is its position in the list with its replacement.\<close>

definition matched_replacement :: "(js_text \<Rightarrow> js_text) \<Rightarrow> js_text \<Rightarrow> edit \<Rightarrow> text_replacement" where
  "matched_replacement nfkc base edit =
    (let matchResult = fuzzyFindText nfkc base (ed_oldText edit) in
     \<lparr>matchIndex = nat (fm_index matchResult), matchLength = fm_matchLength matchResult, newText = ed_newText edit\<rparr>)"

fun match_edits :: "(js_text \<Rightarrow> js_text) \<Rightarrow> js_text \<Rightarrow> nat \<Rightarrow> nat \<Rightarrow> edit list \<Rightarrow> edit_error + (nat \<times> text_replacement) list" where
  "match_edits nfkc base totalEdits i [] = Inr []"
| "match_edits nfkc base totalEdits i (edit # edits) =
    (let occurrences = countOccurrences nfkc base (ed_oldText edit) in
     if \<not> fm_found (fuzzyFindText nfkc base (ed_oldText edit)) then Inl (TextNotFound i totalEdits)
     else if 1 < occurrences then Inl (TextNotUnique i totalEdits occurrences)
     else try_bind (match_edits nfkc base totalEdits (i + 1) edits) (\<lambda>rest.
       Inr ((i, matched_replacement nfkc base edit) # rest)))"

fun check_overlap :: "nat \<Rightarrow> (nat \<times> text_replacement) list \<Rightarrow> edit_error + unit" where
  "check_overlap totalEdits ((i, previous) # (j, current) # rest) =
    (if matchIndex current < matchIndex previous + matchLength previous then Inl (EditsOverlap i j totalEdits)
     else check_overlap totalEdits ((j, current) # rest))"
| "check_overlap totalEdits _ = Inr ()"

definition normalized_edits :: "edit list \<Rightarrow> edit list" where
  "normalized_edits edits = map (\<lambda>e. \<lparr>ed_oldText = normalizeToLF (ed_oldText e), ed_newText = normalizeToLF (ed_newText e)\<rparr>) edits"

definition needs_fuzzy :: "(js_text \<Rightarrow> js_text) \<Rightarrow> js_text \<Rightarrow> edit list \<Rightarrow> bool" where
  "needs_fuzzy nfkc content edits = list_ex (\<lambda>e. fm_usedFuzzyMatch (fuzzyFindText nfkc content (ed_oldText e))) edits"

definition applyEditsToNormalizedContent ::
  "(js_text \<Rightarrow> js_text) \<Rightarrow> js_text \<Rightarrow> edit list \<Rightarrow> edit_error + js_text \<times> text_replacement list" where
  "applyEditsToNormalizedContent nfkc content edits =
    (let es = normalized_edits edits; totalEdits = length es in
     case find (\<lambda>i. ed_oldText (es ! i) = []) [0..<totalEdits] of
       Some i \<Rightarrow> Inl (OldTextEmpty i totalEdits)
     | None \<Rightarrow>
         let usedFuzzyMatch = needs_fuzzy nfkc content es;
             base = (if usedFuzzyMatch then normalizeForFuzzyMatch nfkc content else content) in
         try_bind (match_edits nfkc base totalEdits 0 es) (\<lambda>matched.
         let sorted = sort_key (\<lambda>m. matchIndex (snd m)) matched in
         try_bind (check_overlap totalEdits sorted) (\<lambda>_.
         try_bind (if usedFuzzyMatch then widenReplacementsToLines content base (map snd sorted) else Inr (map snd sorted)) (\<lambda>replacements.
         let new = applyReplacements content replacements 0 in
         if content = new then Inl (NoChange totalEdits) else Inr (new, replacements)))))"

definition BOM :: "16 word" where "BOM = 0xFEFF"

definition splitBom :: "js_text \<Rightarrow> js_text \<times> js_text" where
  "splitBom content = (if content \<noteq> [] \<and> hd content = BOM then ([BOM], tl content) else ([], content))"

text \<open>What the tool writes for a file that holds \<open>raw\<close>.\<close>

definition edit_file :: "(js_text \<Rightarrow> js_text) \<Rightarrow> js_text \<Rightarrow> edit list \<Rightarrow> edit_error + js_text" where
  "edit_file nfkc raw edits =
    (case splitBom raw of (bom, content) \<Rightarrow>
       let normalizedContent = normalizeToLF content in
       try_bind (applyEditsToNormalizedContent nfkc normalizedContent edits) (\<lambda>(newContent, replacements).
       Inr (bom @ (if content = normalizedContent then newContent else applyReplacementsToOriginal content replacements))))"

section \<open>Lines of a text\<close>

lemma split_lines_concat: "concat (split_lines cur t) = cur @ t"
  by (induction t arbitrary: cur) auto

lemma split_lines_nonempty: "l \<in> set (split_lines cur t) \<Longrightarrow> l \<noteq> []"
  by (induction t arbitrary: cur) (auto split: if_splits)

lemma lines_concat [simp]: "concat (splitLinesWithEndings t) = t"
  by (simp add: splitLinesWithEndings_def split_lines_concat)

text \<open>Where a line begins.\<close>

definition line_offset :: "js_text list \<Rightarrow> nat \<Rightarrow> nat" where
  "line_offset ls i = length (concat (take i ls))"

lemma length_line_spans [simp]: "length (line_spans o' ls) = length ls"
  by (induction ls arbitrary: o') auto

lemma line_spans_nth: "i < length ls \<Longrightarrow> line_spans o' ls ! i = \<lparr>ls_start = o' + line_offset ls i, ls_end = o' + line_offset ls (Suc i)\<rparr>"
  by (induction ls arbitrary: o' i) (auto simp: line_offset_def nth_Cons split: nat.splits)

lemma getLineSpans_nth:
  "i < length (splitLinesWithEndings t) \<Longrightarrow> getLineSpans t ! i =
    \<lparr>ls_start = line_offset (splitLinesWithEndings t) i, ls_end = line_offset (splitLinesWithEndings t) (Suc i)\<rparr>"
  by (simp add: getLineSpans_def line_spans_nth)

lemma length_getLineSpans [simp]: "length (getLineSpans t) = length (splitLinesWithEndings t)"
  by (simp add: getLineSpans_def)

lemma line_offset_mono: "i \<le> j \<Longrightarrow> line_offset ls i \<le> line_offset ls j"
  by (metis append_take_drop_id concat_append le_add1 length_append line_offset_def min.absorb1 take_take)

lemma line_offset_all: "length (splitLinesWithEndings t) \<le> i \<Longrightarrow> line_offset (splitLinesWithEndings t) i = length t"
  by (simp add: line_offset_def)

lemma slice_lines:
  assumes "i \<le> j" and "j \<le> length ls"
  shows "text_slice (concat ls) (line_offset ls i) (line_offset ls j) = concat (text_slice ls i j)"
proof -
  have parts: "ls = take i ls @ text_slice ls i j @ drop j ls"
    using append_take_drop_id [of i ls] append_take_drop_id [of "j - i" "drop i ls"] assms(1) by (simp add: text_slice_def)
  have "take j ls = take i ls @ text_slice ls i j" using slice_append [of 0 i j ls] assms by (simp add: text_slice_def)
  then have "line_offset ls j = line_offset ls i + length (concat (text_slice ls i j))" by (simp add: line_offset_def)
  moreover have "drop (line_offset ls i) (concat ls) = concat (text_slice ls i j) @ concat (drop j ls)"
    using arg_cong [OF parts, of concat] by (simp add: line_offset_def)
  ultimately show ?thesis by (simp add: text_slice_def)
qed

section \<open>Groups of lines\<close>

fun line_order :: "nat \<Rightarrow> nat \<Rightarrow> line_group list \<Rightarrow> bool" where
  "line_order n pos [] \<longleftrightarrow> pos \<le> n"
| "line_order n pos (g # gs) \<longleftrightarrow> pos \<le> lg_startLine g \<and> lg_startLine g < lg_endLine g \<and> line_order n (lg_endLine g) gs"

lemma line_order_le: "line_order n pos gs \<Longrightarrow> pos \<le> n"
  by (induction gs arbitrary: pos) (auto, fastforce)

lemma line_order_append: "line_order n pos (gs @ hs) \<longleftrightarrow> (\<exists>m. line_order m pos gs \<and> line_order n m hs)"
proof (induction gs arbitrary: pos)
  case Nil
  then show ?case by (cases hs) (auto intro: le_trans)
qed auto

lemma line_order_mono: "line_order m pos gs \<Longrightarrow> m \<le> n \<Longrightarrow> line_order n pos gs"
  by (induction gs arbitrary: pos) auto

lemma line_range:
  assumes "getReplacementLineRange (getLineSpans t) r = Inr (s, e)"
  defines "ls \<equiv> splitLinesWithEndings t"
  shows "s < e" "e \<le> length ls" "line_offset ls s \<le> matchIndex r" "matchIndex r + matchLength r \<le> line_offset ls e"
proof -
  have s: "s < length ls" "line_offset ls s \<le> matchIndex r" and e: "\<exists>k. s \<le> k \<and> k < length ls \<and> \<not> ls_end (getLineSpans t ! k) < matchIndex r + matchLength r \<and> e = k + 1"
    using assms(1) by (auto simp: getReplacementLineRange_def Let_def find_Some_iff ls_def getLineSpans_nth split: option.splits)
  then show "s < e" "e \<le> length ls" "line_offset ls s \<le> matchIndex r" "matchIndex r + matchLength r \<le> line_offset ls e"
    by (auto simp: ls_def getLineSpans_nth)
qed

lemma line_groups_order:
  assumes "line_groups (getLineSpans t) acc rs = Inr gs" and "line_order (length (splitLinesWithEndings t)) 0 (rev acc)"
  shows "line_order (length (splitLinesWithEndings t)) 0 gs"
  using assms
proof (induction rs arbitrary: acc)
  case (Cons r rs)
  let ?n = "length (splitLinesWithEndings t)"
  obtain s e where r: "getReplacementLineRange (getLineSpans t) r = Inr (s, e)" using Cons.prems(1) by (auto simp: try_bind_Inr)
  note range = line_range(1,2) [OF r]
  show ?case
  proof (cases acc)
    case Nil
    then show ?thesis using Cons.IH Cons.prems(1) r range by simp
  next
    case acc: (Cons g before)
    obtain m where m: "line_order m 0 (rev before)" "m \<le> lg_startLine g" "lg_startLine g < lg_endLine g" "lg_endLine g \<le> ?n"
      using Cons.prems(2) by (auto simp: acc line_order_append)
    show ?thesis
    proof (cases "s < lg_endLine g")
      case True
      have "line_order ?n 0 (rev (g\<lparr>lg_endLine := max (lg_endLine g) e, lg_replacements := lg_replacements g @ [r]\<rparr> # before))"
        using m range by (auto simp: line_order_append)
      then show ?thesis using Cons.IH Cons.prems(1) r True by (simp add: acc)
    next
      case False
      have "line_order ?n 0 (rev (\<lparr>lg_startLine = s, lg_endLine = e, lg_replacements = [r]\<rparr> # acc))"
      proof -
        have "line_order (lg_endLine g) 0 (rev acc)" using m by (auto simp: acc line_order_append)
        then have "line_order ?n 0 (rev acc @ [\<lparr>lg_startLine = s, lg_endLine = e, lg_replacements = [r]\<rparr>])"
          unfolding line_order_append using range False by (intro exI [of _ "lg_endLine g"]) auto
        then show ?thesis by simp
      qed
      then show ?thesis using Cons.IH Cons.prems(1) r False by (simp add: acc)
    qed
  qed
qed simp

lemma line_groups_replacements:
  "line_groups lines acc rs = Inr gs \<Longrightarrow> concat (map lg_replacements gs) = concat (map lg_replacements (rev acc)) @ rs"
proof (induction rs arbitrary: acc)
  case (Cons r rs)
  obtain s e where r: "getReplacementLineRange lines r = Inr (s, e)" using Cons.prems by (auto simp: try_bind_Inr)
  show ?case using Cons.prems Cons.IH r by (cases acc) (auto split: if_splits)
qed simp

text \<open>A replacement touches the line that holds its first unit, and those that begin inside it.\<close>

definition touches :: "js_text list \<Rightarrow> text_replacement \<Rightarrow> nat \<Rightarrow> bool" where
  "touches ls r k \<longleftrightarrow> line_offset ls k \<le> matchIndex r \<and> matchIndex r < line_offset ls (Suc k) \<or>
    matchIndex r < line_offset ls k \<and> line_offset ls k < matchIndex r + matchLength r"

definition group_lines :: "line_group list \<Rightarrow> nat set" where
  "group_lines gs = (\<Union>g \<in> set gs. {lg_startLine g..<lg_endLine g})"

lemma line_offset_less: "line_offset ls i < line_offset ls j \<Longrightarrow> i < j"
  by (meson line_offset_mono not_le)

lemma range_touches:
  assumes "getReplacementLineRange (getLineSpans t) r = Inr (s, e)"
  defines "ls \<equiv> splitLinesWithEndings t"
  shows "{k. k < length ls \<and> touches ls r k} = {s..<e}" and "matchIndex r < line_offset ls (Suc s)"
proof -
  obtain j where s: "s < length ls" "line_offset ls s \<le> matchIndex r" "matchIndex r < line_offset ls (Suc s)"
    and j: "find (\<lambda>i. \<not> ls_end (getLineSpans t ! i) < matchIndex r + matchLength r) [s..<length ls] = Some j" "e = j + 1"
    using assms(1) by (auto simp: getReplacementLineRange_def Let_def find_Some_iff ls_def getLineSpans_nth split: option.splits)
  show "matchIndex r < line_offset ls (Suc s)" by (rule s(3))
  note range = line_range [OF assms(1), folded ls_def]
  have inside: "line_offset ls k < matchIndex r + matchLength r" if "s < k" "k < e" for k
  proof -
    obtain n where n: "n < length ls - s" "j = s + n" "\<And>i. i < n \<Longrightarrow> ls_end (getLineSpans t ! (s + i)) < matchIndex r + matchLength r"
      using j(1) by (auto simp: find_Some_iff)
    have "k - 1 - s < n" "s + (k - 1 - s) = k - 1" using that j(2) n(2) by auto
    then have "ls_end (getLineSpans t ! (k - 1)) < matchIndex r + matchLength r" using n(3) by metis
    moreover have "k - 1 < length ls" using that range(2) by simp
    ultimately show ?thesis using that(1) by (simp add: getLineSpans_nth ls_def)
  qed
  have "touches ls r k \<longleftrightarrow> s \<le> k \<and> k < e" if "k < length ls" for k
  proof
    assume "touches ls r k"
    then show "s \<le> k \<and> k < e" unfolding touches_def
    proof
      assume k: "line_offset ls k \<le> matchIndex r \<and> matchIndex r < line_offset ls (Suc k)"
      have "line_offset ls s < line_offset ls (Suc k)" "line_offset ls k < line_offset ls (Suc s)" using k s(2,3) by auto
      then have "s < Suc k" "k < Suc s" by (simp_all only: line_offset_less)
      then show ?thesis using range(1) by simp
    next
      assume k: "matchIndex r < line_offset ls k \<and> line_offset ls k < matchIndex r + matchLength r"
      have "line_offset ls s < line_offset ls k" "line_offset ls k < line_offset ls e" using k s(2) range(4) by auto
      then have "s < k" "k < e" by (simp_all only: line_offset_less)
      then show ?thesis by simp
    qed
  next
    assume k: "s \<le> k \<and> k < e"
    show "touches ls r k"
    proof (cases "k = s")
      case True
      then show ?thesis using s(2,3) by (simp add: touches_def)
    next
      case False
      then have "line_offset ls (Suc s) \<le> line_offset ls k" using k by (intro line_offset_mono) simp
      then show ?thesis using inside [of k] k False s(3) by (simp add: touches_def)
    qed
  qed
  then show "{k. k < length ls \<and> touches ls r k} = {s..<e}" using range(2) by auto
qed

lemma line_groups_ranges: "line_groups lines acc rs = Inr gs \<Longrightarrow> r \<in> set rs \<Longrightarrow> \<exists>s e. getReplacementLineRange lines r = Inr (s, e)"
proof (induction rs arbitrary: acc)
  case (Cons q rs)
  obtain s e where q: "getReplacementLineRange lines q = Inr (s, e)" using Cons.prems(1) by (auto simp: try_bind_Inr)
  obtain acc' where "line_groups lines acc' rs = Inr gs" using Cons.prems(1) q by (cases acc) (auto split: if_splits)
  then show ?case using Cons.IH Cons.prems(2) q by auto
qed simp

lemma line_groups_nonempty:
  "line_groups lines acc rs = Inr gs \<Longrightarrow> \<forall>g \<in> set acc. lg_replacements g \<noteq> [] \<Longrightarrow> \<forall>g \<in> set gs. lg_replacements g \<noteq> []"
proof (induction rs arbitrary: acc)
  case (Cons r rs)
  obtain s e where r: "getReplacementLineRange lines r = Inr (s, e)" using Cons.prems(1) by (auto simp: try_bind_Inr)
  obtain acc' where "line_groups lines acc' rs = Inr gs" "\<forall>g \<in> set acc'. lg_replacements g \<noteq> []"
    using Cons.prems r by (cases acc) (auto split: if_splits)
  then show ?case by (rule Cons.IH)
qed auto

text \<open>The groups are made of the touched lines, and of no others.\<close>

lemma line_groups_cover:
  assumes "line_groups (getLineSpans t) acc rs = Inr gs" and "sorted (map matchIndex rs)"
    and "acc \<noteq> [] \<Longrightarrow> lg_startLine (hd acc) < lg_endLine (hd acc) \<and> (\<forall>r \<in> set rs. line_offset (splitLinesWithEndings t) (lg_startLine (hd acc)) \<le> matchIndex r)"
  shows "group_lines gs = group_lines acc \<union> {k. k < length (splitLinesWithEndings t) \<and> (\<exists>r \<in> set rs. touches (splitLinesWithEndings t) r k)}"
  using assms
proof (induction rs arbitrary: acc)
  case Nil
  then have "gs = rev acc" by simp
  then show ?case by (simp add: group_lines_def)
next
  case (Cons r rs)
  let ?ls = "splitLinesWithEndings t"
  obtain s e where r: "getReplacementLineRange (getLineSpans t) r = Inr (s, e)" using Cons.prems(1) by (auto simp: try_bind_Inr)
  note range = line_range(1,3) [OF r] and touched = range_touches [OF r]
  have later: "\<forall>q \<in> set rs. line_offset ?ls s \<le> matchIndex q" using Cons.prems(2) range(2) by fastforce
  have step: "group_lines gs = group_lines acc' \<union> {k. k < length ?ls \<and> (\<exists>q \<in> set rs. touches ?ls q k)}"
    if "line_groups (getLineSpans t) acc' rs = Inr gs" "acc' \<noteq> [] \<Longrightarrow> lg_startLine (hd acc') < lg_endLine (hd acc') \<and>
      (\<forall>q \<in> set rs. line_offset ?ls (lg_startLine (hd acc')) \<le> matchIndex q)" for acc'
    using Cons.IH [OF that(1) _ that(2)] Cons.prems(2) by simp
  have split: "{k. k < length ?ls \<and> (\<exists>q \<in> set (r # rs). touches ?ls q k)} = {s..<e} \<union> {k. k < length ?ls \<and> (\<exists>q \<in> set rs. touches ?ls q k)}"
    using touched(1) by auto
  consider (fresh) "acc = [] \<or> \<not> s < lg_endLine (hd acc)" | (joins) g before where "acc = g # before" "s < lg_endLine g"
    by (cases acc) auto
  then show ?case
  proof cases
    case fresh
    let ?new = "\<lparr>lg_startLine = s, lg_endLine = e, lg_replacements = [r]\<rparr> # acc"
    have "line_groups (getLineSpans t) ?new rs = Inr gs" using Cons.prems(1) r fresh by (cases acc) auto
    then have "group_lines gs = group_lines ?new \<union> {k. k < length ?ls \<and> (\<exists>q \<in> set rs. touches ?ls q k)}" by (rule step) (use range later in simp)
    then show ?thesis unfolding split by (simp add: group_lines_def Un_ac)
  next
    case joins
    let ?new = "g\<lparr>lg_endLine := max (lg_endLine g) e, lg_replacements := lg_replacements g @ [r]\<rparr> # before"
    have g: "lg_startLine g < lg_endLine g" "line_offset ?ls (lg_startLine g) \<le> matchIndex r" using Cons.prems(3) joins by auto
    have "lg_startLine g \<le> s" using line_offset_less [of ?ls "lg_startLine g" "Suc s"] g(2) touched(2) by simp
    then have merged: "{lg_startLine g..<max (lg_endLine g) e} = {lg_startLine g..<lg_endLine g} \<union> {s..<e}" using joins(2) g(1) by auto
    have "line_groups (getLineSpans t) ?new rs = Inr gs" using Cons.prems(1) r joins by simp
    then have "group_lines gs = group_lines ?new \<union> {k. k < length ?ls \<and> (\<exists>q \<in> set rs. touches ?ls q k)}"
      by (rule step) (use g(1) joins Cons.prems(3) in auto)
    then show ?thesis unfolding split using merged by (simp add: group_lines_def joins(1) Un_ac)
  qed
qed

text \<open>The replacements of a group lie between the beginning of its first line and the end of its last.\<close>

definition group_fits :: "js_text list \<Rightarrow> line_group \<Rightarrow> bool" where
  "group_fits ls g \<longleftrightarrow> fits (line_offset ls (lg_endLine g)) (line_offset ls (lg_startLine g)) (lg_replacements g)"

definition groups_upto :: "js_text list \<Rightarrow> nat \<Rightarrow> line_group list \<Rightarrow> bool" where
  "groups_upto ls p acc \<longleftrightarrow> (case acc of
      [] \<Rightarrow> True
    | g # before \<Rightarrow> fits p (line_offset ls (lg_startLine g)) (lg_replacements g) \<and> p \<le> line_offset ls (lg_endLine g) \<and>
        (\<forall>b \<in> set before. group_fits ls b))"

lemma groups_upto_fits: "groups_upto ls p acc \<Longrightarrow> g \<in> set acc \<Longrightarrow> group_fits ls g"
  by (auto simp: groups_upto_def group_fits_def intro: fits_mono split: list.splits)

lemma line_groups_fit:
  assumes "line_groups (getLineSpans t) acc rs = Inr gs" and "fits n p rs" and "groups_upto (splitLinesWithEndings t) p acc"
  shows "\<forall>g \<in> set gs. group_fits (splitLinesWithEndings t) g"
  using assms
proof (induction rs arbitrary: acc p)
  case Nil
  then show ?case using groups_upto_fits by auto
next
  case (Cons r rs)
  let ?ls = "splitLinesWithEndings t" and ?p = "matchIndex r + matchLength r"
  obtain s e where r: "getReplacementLineRange (getLineSpans t) r = Inr (s, e)" using Cons.prems by (auto simp: try_bind_Inr)
  note range = line_range(3,4) [OF r]
  have rest: "fits n ?p rs" "p \<le> matchIndex r" using Cons.prems(2) by auto
  have new: "groups_upto ?ls ?p (\<lparr>lg_startLine = s, lg_endLine = e, lg_replacements = [r]\<rparr> # acc)"
    using groups_upto_fits [OF Cons.prems(3)] range by (simp add: groups_upto_def)
  show ?case
  proof (cases acc)
    case Nil
    then show ?thesis using Cons.IH [OF _ rest(1) new] Cons.prems(1) r by simp
  next
    case acc: (Cons g before)
    show ?thesis
    proof (cases "s < lg_endLine g")
      case True
      have "fits ?p (line_offset ?ls (lg_startLine g)) (lg_replacements g @ [r])"
        using Cons.prems(3) rest(2) fits_append [of ?p _ _ "[r]"] by (auto simp: acc groups_upto_def)
      moreover have "?p \<le> line_offset ?ls (max (lg_endLine g) e)"
        using range(2) line_offset_mono [of e "max (lg_endLine g) e" ?ls] by linarith
      ultimately have "groups_upto ?ls ?p (g\<lparr>lg_endLine := max (lg_endLine g) e, lg_replacements := lg_replacements g @ [r]\<rparr> # before)"
        using Cons.prems(3) by (simp add: acc groups_upto_def)
      from Cons.IH [OF _ rest(1) this] show ?thesis using Cons.prems(1) r True by (simp add: acc)
    next
      case False
      then show ?thesis using Cons.IH [OF _ rest(1) new] Cons.prems(1) r by (simp add: acc)
    qed
  qed
qed

text \<open>
  The lines \<open>ls\<close> from number \<open>l\<close> on, with the lines of each group as the group's replacements leave them in \<open>base\<close>.
\<close>

fun with_groups :: "js_text list \<Rightarrow> js_text \<Rightarrow> nat \<Rightarrow> line_group list \<Rightarrow> js_text" where
  "with_groups ls base l [] = concat (drop l ls)"
| "with_groups ls base l (g # gs) = concat (text_slice ls l (lg_startLine g)) @
    patched base (line_offset (splitLinesWithEndings base) (lg_startLine g)) (line_offset (splitLinesWithEndings base) (lg_endLine g)) (lg_replacements g) @
    with_groups ls base (lg_endLine g) gs"

definition group_replacement :: "js_text list \<Rightarrow> js_text \<Rightarrow> line_group \<Rightarrow> text_replacement" where
  "group_replacement ls base g = \<lparr>matchIndex = line_offset ls (lg_startLine g), matchLength = line_offset ls (lg_endLine g) - line_offset ls (lg_startLine g),
    newText = patched base (line_offset (splitLinesWithEndings base) (lg_startLine g)) (line_offset (splitLinesWithEndings base) (lg_endLine g)) (lg_replacements g)\<rparr>"

lemma group_replacement_sel [simp]:
  "matchIndex (group_replacement ls base g) = line_offset ls (lg_startLine g)"
  "newText (group_replacement ls base g) = patched base (line_offset (splitLinesWithEndings base) (lg_startLine g))
    (line_offset (splitLinesWithEndings base) (lg_endLine g)) (lg_replacements g)"
  by (simp_all add: group_replacement_def)

lemma group_replacement_end:
  "lg_startLine g < lg_endLine g \<Longrightarrow> line_offset ls (lg_startLine g) + matchLength (group_replacement ls base g) = line_offset ls (lg_endLine g)"
  using line_offset_mono [of "lg_startLine g" "lg_endLine g" ls] by (simp add: group_replacement_def)

lemma group_replacements_fit:
  "line_order (length ls) l gs \<Longrightarrow> fits (line_offset ls (length ls)) (line_offset ls l) (map (group_replacement ls base) gs)"
  by (induction gs arbitrary: l) (simp_all add: line_offset_mono group_replacement_end)

lemma patched_groups:
  assumes "line_order (length ls) l gs"
  shows "patched (concat ls) (line_offset ls l) (length (concat ls)) (map (group_replacement ls base) gs) = with_groups ls base l gs"
  using assms
proof (induction gs arbitrary: l)
  case Nil
  then show ?case using slice_lines [of l "length ls" ls] by (simp add: line_offset_def)
next
  case (Cons g gs)
  have "lg_startLine g \<le> length ls" using Cons.prems line_order_le by fastforce
  then show ?case using Cons slice_lines [of l "lg_startLine g" ls] by (simp add: group_replacement_end)
qed

lemma patched_from:
  assumes "pos \<le> s" and "fits n s rs"
  shows "patched c pos n rs = text_slice c pos s @ patched c s n rs" and "fits n pos rs"
  using assms slice_append [of pos s n c] slice_append [of pos s _ c] fits_le [OF assms(2)] by (cases rs; simp)+

lemma patched_replacements:
  assumes "line_order (length (splitLinesWithEndings base)) l gs" and "\<forall>g \<in> set gs. group_fits (splitLinesWithEndings base) g"
  defines "ls \<equiv> splitLinesWithEndings base"
  shows "fits (length base) (line_offset ls l) (concat (map lg_replacements gs)) \<and>
    patched base (line_offset ls l) (length base) (concat (map lg_replacements gs)) = with_groups ls base l gs"
  using assms(1,2)
proof (induction gs arbitrary: l)
  case Nil
  have "line_offset ls (length ls) = length base" by (simp add: ls_def line_offset_all)
  then show ?case using slice_lines [of l "length ls" ls] line_offset_mono [of l "length ls" ls] Nil by (simp add: ls_def)
next
  case (Cons g gs)
  let ?s = "line_offset ls (lg_startLine g)" and ?e = "line_offset ls (lg_endLine g)"
  have rest: "fits (length base) ?e (concat (map lg_replacements gs))"
    "patched base ?e (length base) (concat (map lg_replacements gs)) = with_groups ls base (lg_endLine g) gs"
    using Cons.IH [of "lg_endLine g"] Cons.prems by simp_all
  have g: "fits ?e ?s (lg_replacements g)" using Cons.prems(2) by (simp add: group_fits_def ls_def)
  have pos: "line_offset ls l \<le> ?s" using Cons.prems(1) line_offset_mono by simp
  have "lg_startLine g \<le> length ls" "l \<le> lg_startLine g" using Cons.prems(1) line_order_le ls_def by fastforce+
  then have "text_slice base (line_offset ls l) ?s = concat (text_slice ls l (lg_startLine g))"
    using slice_lines [of l "lg_startLine g" ls] by (simp add: ls_def)
  then show ?case using patched_append [OF patched_from(2) [OF pos g] rest(1)] patched_from(1) [OF pos g] rest
      fits_append [of "length base" "line_offset ls l" "lg_replacements g"] patched_from(2) [OF pos g]
    by (auto simp: ls_def)
qed

lemma widen_group_position:
  assumes "lg_startLine g < lg_endLine g" and "lg_endLine g \<le> length (splitLinesWithEndings original)"
  shows "matchIndex (widen_group (getLineSpans original) bs base g) = line_offset (splitLinesWithEndings original) (lg_startLine g)"
    and "matchLength (widen_group (getLineSpans original) bs base g) =
      line_offset (splitLinesWithEndings original) (lg_endLine g) - line_offset (splitLinesWithEndings original) (lg_startLine g)"
  using assms by (simp_all add: widen_group_def Let_def getLineSpans_nth)

lemma widen_group_eq:
  assumes "lg_startLine g < lg_endLine g" and "lg_endLine g \<le> length (splitLinesWithEndings base)"
    and "length (splitLinesWithEndings original) = length (splitLinesWithEndings base)" and "group_fits (splitLinesWithEndings base) g"
  shows "widen_group (getLineSpans original) (getLineSpans base) base g = group_replacement (splitLinesWithEndings original) base g"
proof -
  let ?ls = "splitLinesWithEndings base"
  have "line_offset ?ls (lg_endLine g) \<le> length base"
    using line_offset_mono [of "lg_endLine g" "length ?ls" ?ls] assms(2) by (simp add: line_offset_all)
  then show ?thesis using applyReplacements_patched [of _ _ "lg_replacements g" base] assms
    by (simp add: widen_group_def group_replacement_def Let_def getLineSpans_nth group_fits_def)
qed

lemma line_order_in: "line_order n pos gs \<Longrightarrow> g \<in> set gs \<Longrightarrow> lg_startLine g < lg_endLine g \<and> lg_endLine g \<le> n"
  by (induction gs arbitrary: pos) (auto dest: line_order_le)

lemma widen_Inr:
  assumes "widenReplacementsToLines original base rs = Inr ws"
  obtains gs where "line_groups (getLineSpans base) [] (sort_key matchIndex rs) = Inr gs"
    and "length (splitLinesWithEndings original) = length (splitLinesWithEndings base)"
    and "line_order (length (splitLinesWithEndings base)) 0 gs" and "concat (map lg_replacements gs) = sort_key matchIndex rs"
    and "ws = map (widen_group (getLineSpans original) (getLineSpans base) base) gs"
proof -
  obtain gs where gs: "line_groups (getLineSpans base) [] (sort_key matchIndex rs) = Inr gs"
    and n: "length (splitLinesWithEndings original) = length (splitLinesWithEndings base)"
    and ws: "ws = map (widen_group (getLineSpans original) (getLineSpans base) base) gs"
    using assms by (auto simp: widenReplacementsToLines_def Let_def try_bind_Inr)
  show thesis using that [OF gs n _ _ ws] line_groups_order [OF gs] line_groups_replacements [OF gs] by simp
qed

section \<open>What edits come to\<close>

lemma match_edits_Inr:
  "match_edits nfkc base n i es = Inr ms \<Longrightarrow>
    map snd ms = map (matched_replacement nfkc base) es \<and>
    (\<forall>e \<in> set es. fm_found (fuzzyFindText nfkc base (ed_oldText e)) \<and> countOccurrences nfkc base (ed_oldText e) \<le> 1)"
  by (induction es arbitrary: i ms) (auto simp: Let_def try_bind_Inr split: if_splits)

lemma check_overlap_fits:
  assumes "check_overlap n ms = Inr ()" and "\<forall>m \<in> set ms. matchIndex (snd m) + matchLength (snd m) \<le> k"
    and "ms \<noteq> [] \<longrightarrow> p \<le> matchIndex (snd (hd ms))" and "p \<le> k"
  shows "fits k p (map snd ms)"
  using assms by (induction n ms arbitrary: p rule: check_overlap.induct) (auto split: if_splits)

lemma edits_Inr:
  assumes "applyEditsToNormalizedContent nfkc content edits = Inr (new, rs)"
  defines "es \<equiv> normalized_edits edits"
  defines "base \<equiv> (if needs_fuzzy nfkc content es then normalizeForFuzzyMatch nfkc content else content)"
  obtains ms where "\<forall>e \<in> set es. ed_oldText e \<noteq> []" and "match_edits nfkc base (length es) 0 es = Inr ms"
    and "check_overlap (length es) (sort_key (\<lambda>m. matchIndex (snd m)) ms) = Inr ()"
    and "(if needs_fuzzy nfkc content es then widenReplacementsToLines content base (map snd (sort_key (\<lambda>m. matchIndex (snd m)) ms))
      else Inr (map snd (sort_key (\<lambda>m. matchIndex (snd m)) ms))) = Inr rs"
    and "new = applyReplacements content rs 0" and "new \<noteq> content"
proof -
  have none: "find (\<lambda>i. ed_oldText (es ! i) = []) [0..<length es] = None"
    using assms(1) by (auto simp: applyEditsToNormalizedContent_def Let_def es_def split: option.splits)
  let ?sorted = "sort_key (\<lambda>m. matchIndex (snd m))"
  have eq: "applyEditsToNormalizedContent nfkc content edits = try_bind (match_edits nfkc base (length es) 0 es) (\<lambda>matched.
      try_bind (check_overlap (length es) (?sorted matched)) (\<lambda>_.
      try_bind (if needs_fuzzy nfkc content es then widenReplacementsToLines content base (map snd (?sorted matched)) else Inr (map snd (?sorted matched)))
        (\<lambda>replacements. if content = applyReplacements content replacements 0 then Inl (NoChange (length es))
          else Inr (applyReplacements content replacements 0, replacements))))"
    unfolding applyEditsToNormalizedContent_def Let_def es_def [symmetric] none option.case base_def ..
  from assms(1) [unfolded eq try_bind_Inr [of "match_edits nfkc base (length es) 0 es"]]
  obtain ms where ms: "match_edits nfkc base (length es) 0 es = Inr ms"
    and checked: "try_bind (check_overlap (length es) (?sorted ms)) (\<lambda>_.
      try_bind (if needs_fuzzy nfkc content es then widenReplacementsToLines content base (map snd (?sorted ms)) else Inr (map snd (?sorted ms)))
        (\<lambda>replacements. if content = applyReplacements content replacements 0 then Inl (NoChange (length es))
          else Inr (applyReplacements content replacements 0, replacements))) = Inr (new, rs)" by blast
  have ok: "check_overlap (length es) (?sorted ms) = Inr ()" using checked by (cases "check_overlap (length es) (?sorted ms)") simp_all
  then have rest: "try_bind (if needs_fuzzy nfkc content es then widenReplacementsToLines content base (map snd (?sorted ms)) else Inr (map snd (?sorted ms)))
        (\<lambda>replacements. if content = applyReplacements content replacements 0 then Inl (NoChange (length es))
          else Inr (applyReplacements content replacements 0, replacements)) = Inr (new, rs)" using checked by simp
  have "\<forall>e \<in> set es. ed_oldText e \<noteq> []" using none by (auto simp: find_None_iff in_set_conv_nth)
  moreover have "(if needs_fuzzy nfkc content es then widenReplacementsToLines content base (map snd (?sorted ms)) else Inr (map snd (?sorted ms))) = Inr rs"
      "new = applyReplacements content rs 0" "new \<noteq> content"
    using rest unfolding try_bind_Inr by (auto split: if_splits)
  ultimately show thesis using that ms ok by blast
qed

text \<open>When every text is found as it is, the replacements are exactly those texts, each once.\<close>

lemma exact_match:
  assumes "fm_found (fuzzyFindText nfkc content old)" and "\<not> fm_usedFuzzyMatch (fuzzyFindText nfkc content old)" and "old \<noteq> []"
  obtains i where "index_of content old 0 = Some i" and "fm_index (fuzzyFindText nfkc content old) = int i"
    and "fm_matchLength (fuzzyFindText nfkc content old) = length old" and "i + length old \<le> length content"
    and "text_slice content i (i + length old) = old"
proof -
  obtain i where i: "index_of content old 0 = Some i" using assms(1,2) by (auto simp: fuzzyFindText_def Let_def split: option.splits)
  note at = index_of_ge(2,3) [OF i assms(3)]
  show thesis using that [OF i] i at by (simp add: fuzzyFindText_def text_slice_def starts_at_def)
qed


section \<open>Characters of the results\<close>

lemma set_applyReplacements: "set (applyReplacements content rs k) \<subseteq> set content \<union> (\<Union>r \<in> set rs. set (newText r))"
proof (induction rs)
  case (Cons r rs)
  have "set (apply_replacement k r t) \<subseteq> set t \<union> set (newText r)" for t
    by (auto simp: apply_replacement_def Let_def dest: in_set_takeD in_set_dropD)
  then show ?case using Cons by (fastforce simp: applyReplacements_def)
qed (simp add: applyReplacements_def)

lemma set_join_on: "set (join_on c ls) \<subseteq> insert c (\<Union>(set ` set ls))"
  by (induction c ls rule: join_on.induct) auto

lemma set_split_on: "l \<in> set (split_on c s) \<Longrightarrow> set l \<subseteq> set s"
  by (induction s arbitrary: l) (auto split: if_splits list.splits, blast)

lemma set_trim_end: "set (trim_end t) \<subseteq> set t"
  by (auto simp: trim_end_def dest: set_dropWhileD)

lemma replace_units_CR: "CR \<notin> set t \<Longrightarrow> u \<noteq> CR \<Longrightarrow> CR \<notin> set (replace_units P u t)"
  by (auto simp: replace_units_def)

lemma fuzzy_no_CR:
  assumes "CR \<notin> set (nfkc t)"
  shows "CR \<notin> set (normalizeForFuzzyMatch nfkc t)"
proof -
  have "CR \<notin> set (join_on LF (map trim_end (split_on LF (nfkc t))))"
  proof
    assume "CR \<in> set (join_on LF (map trim_end (split_on LF (nfkc t))))"
    moreover have "CR \<noteq> LF" by (simp add: CR_def newline_unit_def)
    ultimately obtain l where l: "l \<in> set (split_on LF (nfkc t))" "CR \<in> set (trim_end l)"
      using subsetD [OF set_join_on] by fastforce
    then show False using assms set_trim_end set_split_on [OF l(1)] by blast
  qed
  then show ?thesis unfolding normalizeForFuzzyMatch_def by (intro replace_units_CR) (simp_all add: CR_def)
qed

lemma widened_fit:
  assumes "line_order (length (splitLinesWithEndings original)) l gs"
  shows "fits (length original) (line_offset (splitLinesWithEndings original) l) (map (widen_group (getLineSpans original) bs base) gs)"
  using assms
proof (induction gs arbitrary: l)
  case Nil
  then show ?case using line_offset_mono [of l "length (splitLinesWithEndings original)" "splitLinesWithEndings original"] by (simp add: line_offset_all)
next
  case (Cons g gs)
  have g: "lg_startLine g < lg_endLine g" "lg_endLine g \<le> length (splitLinesWithEndings original)" using line_order_in [OF Cons.prems] by auto
  have "line_offset (splitLinesWithEndings original) (lg_startLine g) \<le> line_offset (splitLinesWithEndings original) (lg_endLine g)"
    using g by (intro line_offset_mono) simp
  then show ?case using Cons line_offset_mono [of l "lg_startLine g" "splitLinesWithEndings original"] by (simp add: widen_group_position [OF g])
qed

lemma exact_replacements:
  assumes "applyEditsToNormalizedContent nfkc content edits = Inr (new, rs)" and "\<not> needs_fuzzy nfkc content (normalized_edits edits)"
  shows "fits (length content) 0 rs" and "mset rs = mset (map (matched_replacement nfkc content) (normalized_edits edits))"
    and "\<forall>e \<in> set (normalized_edits edits). \<exists>i.
      matched_replacement nfkc content e = \<lparr>matchIndex = i, matchLength = length (ed_oldText e), newText = ed_newText e\<rparr> \<and>
      index_of content (ed_oldText e) 0 = Some i \<and> i + length (ed_oldText e) \<le> length content \<and>
      text_slice content i (i + length (ed_oldText e)) = ed_oldText e \<and> ed_oldText e \<noteq> []"
    and "new = applyReplacements content rs 0"
proof -
  let ?es = "normalized_edits edits" and ?sorted = "sort_key (\<lambda>m. matchIndex (snd m))"
  let ?base = "if needs_fuzzy nfkc content ?es then normalizeForFuzzyMatch nfkc content else content"
  obtain ms where old: "\<forall>e \<in> set ?es. ed_oldText e \<noteq> []" and ms': "match_edits nfkc ?base (length ?es) 0 ?es = Inr ms"
    and apart: "check_overlap (length ?es) (?sorted ms) = Inr ()"
    and rs': "(if needs_fuzzy nfkc content ?es then widenReplacementsToLines content ?base (map snd (?sorted ms)) else Inr (map snd (?sorted ms))) = Inr rs"
    and new: "new = applyReplacements content rs 0"
    using edits_Inr [OF assms(1)] by metis
  have ms: "match_edits nfkc content (length ?es) 0 ?es = Inr ms" and rs: "rs = map snd (?sorted ms)" using ms' rs' assms(2) by simp_all
  note matched = match_edits_Inr [OF ms]
  have "mset rs = mset (map snd ms)" by (simp add: rs)
  then show perm: "mset rs = mset (map (matched_replacement nfkc content) ?es)" using matched by simp
  have each: "\<exists>i. matched_replacement nfkc content e = \<lparr>matchIndex = i, matchLength = length (ed_oldText e), newText = ed_newText e\<rparr> \<and>
      index_of content (ed_oldText e) 0 = Some i \<and> i + length (ed_oldText e) \<le> length content \<and>
      text_slice content i (i + length (ed_oldText e)) = ed_oldText e \<and> ed_oldText e \<noteq> []"
    if e: "e \<in> set ?es" for e
  proof -
    have "fm_found (fuzzyFindText nfkc content (ed_oldText e))" using matched e by simp
    moreover have "\<not> fm_usedFuzzyMatch (fuzzyFindText nfkc content (ed_oldText e))" using assms(2) e by (auto simp: needs_fuzzy_def list_ex_iff)
    ultimately obtain i where "index_of content (ed_oldText e) 0 = Some i" "fm_index (fuzzyFindText nfkc content (ed_oldText e)) = int i"
        "fm_matchLength (fuzzyFindText nfkc content (ed_oldText e)) = length (ed_oldText e)" "i + length (ed_oldText e) \<le> length content"
        "text_slice content i (i + length (ed_oldText e)) = ed_oldText e"
      using exact_match [of nfkc content "ed_oldText e"] old e by blast
    then show ?thesis using old e by (intro exI [of _ i]) (simp add: matched_replacement_def)
  qed
  then show "\<forall>e \<in> set ?es. \<exists>i.
      matched_replacement nfkc content e = \<lparr>matchIndex = i, matchLength = length (ed_oldText e), newText = ed_newText e\<rparr> \<and>
      index_of content (ed_oldText e) 0 = Some i \<and> i + length (ed_oldText e) \<le> length content \<and>
      text_slice content i (i + length (ed_oldText e)) = ed_oldText e \<and> ed_oldText e \<noteq> []" by blast
  have "matchIndex (snd m) + matchLength (snd m) \<le> length content" if m: "m \<in> set (?sorted ms)" for m
  proof -
    have "snd m \<in> set rs" using m by (simp add: rs)
    then have "snd m \<in> set (map (matched_replacement nfkc content) ?es)" using perm by (metis set_mset_mset)
    then obtain e where "e \<in> set ?es" "snd m = matched_replacement nfkc content e" by auto
    then show ?thesis using each by fastforce
  qed
  then show "fits (length content) 0 rs" unfolding rs using check_overlap_fits [OF apart, of "length content" 0] by simp
  show "new = applyReplacements content rs 0" by (rule new)
qed

text \<open>Replacements of an accepted edit are in order and inside the content, and bring in no carriage return.\<close>

lemma accepted_replacements:
  assumes "applyEditsToNormalizedContent nfkc content edits = Inr (new, rs)" and "CR \<notin> set content" and "CR \<notin> set (nfkc content)"
  shows "fits (length content) 0 rs" and "\<forall>r \<in> set rs. CR \<notin> set (newText r)" and "new = applyReplacements content rs 0"
proof -
  let ?es = "normalized_edits edits" and ?sorted = "sort_key (\<lambda>m. matchIndex (snd m))"
  let ?base = "if needs_fuzzy nfkc content ?es then normalizeForFuzzyMatch nfkc content else content"
  obtain ms where old: "\<forall>e \<in> set ?es. ed_oldText e \<noteq> []" and ms: "match_edits nfkc ?base (length ?es) 0 ?es = Inr ms"
    and apart: "check_overlap (length ?es) (?sorted ms) = Inr ()"
    and rs: "(if needs_fuzzy nfkc content ?es then widenReplacementsToLines content ?base (map snd (?sorted ms)) else Inr (map snd (?sorted ms))) = Inr rs"
    and new: "new = applyReplacements content rs 0"
    using edits_Inr [OF assms(1)] by metis
  show "new = applyReplacements content rs 0" by (rule new)
  note matched = match_edits_Inr [OF ms]
  have origin: "set (map snd (?sorted ms)) = matched_replacement nfkc ?base ` set ?es" using matched by (metis set_map set_sort)
  have no_cr: "CR \<notin> set (newText r)" if "r \<in> set (map snd (?sorted ms))" for r
    using that unfolding origin by (auto simp: matched_replacement_def Let_def normalized_edits_def normalize_no_CR)
  have "fits (length content) 0 rs \<and> (\<forall>r \<in> set rs. CR \<notin> set (newText r))"
  proof (cases "needs_fuzzy nfkc content ?es")
    case True
    let ?f = "normalizeForFuzzyMatch nfkc content"
    have "widenReplacementsToLines content ?f (map snd (?sorted ms)) = Inr rs" using rs True by simp
    then obtain gs where gs: "length (splitLinesWithEndings content) = length (splitLinesWithEndings ?f)"
        "line_order (length (splitLinesWithEndings ?f)) 0 gs"
        "concat (map lg_replacements gs) = sort_key matchIndex (map snd (?sorted ms))"
        "rs = map (widen_group (getLineSpans content) (getLineSpans ?f) ?f) gs"
      by (rule widen_Inr)
    have "CR \<notin> set (newText (widen_group (getLineSpans content) (getLineSpans ?f) ?f g))" if g: "g \<in> set gs" for g
    proof -
      have "set (lg_replacements g) \<subseteq> set (map snd (?sorted ms))" using g gs(3) by (metis (no_types, lifting) UN_upper image_eqI list.set_map set_concat set_sort)
      then have "\<forall>r \<in> set (lg_replacements g). CR \<notin> set (newText r)" using no_cr by blast
      moreover have "CR \<notin> set (text_slice ?f i j)" for i j
        using fuzzy_no_CR [of nfkc content] assms(3) by (auto simp: text_slice_def dest: in_set_takeD in_set_dropD)
      ultimately show ?thesis using set_applyReplacements by (fastforce simp: widen_group_def Let_def)
    qed
    moreover have "fits (length content) 0 rs" using widened_fit [of content 0 gs] gs by (simp add: line_offset_def)
    ultimately show ?thesis using gs(4) by auto
  next
    case False
    then show ?thesis using exact_replacements(1) [OF assms(1) False] rs no_cr by auto
  qed
  then show "fits (length content) 0 rs" "\<forall>r \<in> set rs. CR \<notin> set (newText r)" by simp_all
qed

lemma last_index_of_less: "last_index_of t c k = Some i \<Longrightarrow> i < length t"
  by (auto simp: last_index_of_def find_Some_iff simp del: upt_Suc)

lemma line_ending_plain:
  assumes "CR \<notin> set t"
  shows "getLineEndingAt t k = [LF]"
proof -
  have "t ! (i - 1) \<noteq> CR" if "index_of t [LF] k = Some i \<or> last_index_of t LF k = Some i" for i
  proof -
    have "i < length t" using that index_of_ge(2) [of t "[LF]" k i] last_index_of_less [of t LF k i] by auto
    then show ?thesis using assms by (metis less_imp_diff_less nth_mem)
  qed
  then show ?thesis using assms by (auto simp: getLineEndingAt_def split: option.splits)
qed

lemma original_replacement_plain:
  assumes "CR \<notin> set t"
  shows "original_replacement t r = r"
proof -
  have "\<not> starts_at t [CR, LF] p" for p
    using assms by (auto simp: starts_at_def dest: in_set_dropD in_set_takeD) (metis in_set_dropD in_set_takeD list.set_intros(1))
  then have "orig_pos t k = k" for k by (simp add: orig_pos_plain)
  then show ?thesis using line_ending_plain [OF assms] by (simp add: original_replacement_def with_ending_def)
qed

lemma widened_content:
  assumes "widenReplacementsToLines original base rs = Inr ws" and "fits (length base) 0 (sort_key matchIndex rs)"
    and "line_groups (getLineSpans base) [] (sort_key matchIndex rs) = Inr gs"
  shows "applyReplacements original ws 0 = with_groups (splitLinesWithEndings original) base 0 gs"
proof -
  let ?ol = "splitLinesWithEndings original" and ?bl = "splitLinesWithEndings base"
  have gs: "length ?ol = length ?bl" "line_order (length ?bl) 0 gs" "ws = map (widen_group (getLineSpans original) (getLineSpans base) base) gs"
    using widen_Inr [OF assms(1)] assms(3) by auto
  have fit: "\<forall>g \<in> set gs. group_fits ?bl g" using line_groups_fit [OF assms(3,2)] by (simp add: groups_upto_def)
  have "ws = map (group_replacement ?ol base) gs"
    unfolding gs(3) using line_order_in [OF gs(2)] gs(1) fit by (intro map_cong refl widen_group_eq) auto
  moreover have "fits (length original) 0 ws" using widened_fit [of original 0 gs] gs by (simp add: line_offset_def)
  ultimately show ?thesis
    using patched_groups [of ?ol 0 gs base] gs(1,2) applyReplacements_all [of original ws] by (simp add: line_offset_def)
qed

section \<open>Theorems\<close>


definition sample_units :: "string \<Rightarrow> js_text" where
  "sample_units s = map (\<lambda>c. of_nat (of_char c)) s"

definition sample_file :: js_text where
  "sample_file = BOM # sample_units ''ab'' @ [CR, LF] @ sample_units ''cd'' @ [CR, LF]"

definition sample_edits :: "edit list" where
  "sample_edits = [\<lparr>ed_oldText = sample_units ''c'', ed_newText = sample_units ''x'' @ [LF] @ sample_units ''y''\<rparr>]"

lemma sample_edit: "edit_file (\<lambda>t. t) sample_file sample_edits =
    Inr (BOM # sample_units ''ab'' @ [CR, LF] @ sample_units ''x'' @ [CR, LF] @ sample_units ''yd'' @ [CR, LF])"
  by code_simp


text \<open>
  C25. Edits whose texts occur as they are replace exactly those texts, at their first occurrences, which do not overlap, and
  nothing else.
\<close>

theorem exact_edits_replace_texts:
  assumes "applyEditsToNormalizedContent nfkc content edits = Inr (new, rs)" and "\<not> needs_fuzzy nfkc content (normalized_edits edits)"
  shows "fits (length content) 0 rs \<and> new = patched content 0 (length content) rs \<and>
    mset (map (\<lambda>r. (text_slice content (matchIndex r) (matchIndex r + matchLength r), newText r)) rs) =
      mset (map (\<lambda>e. (normalizeToLF (ed_oldText e), normalizeToLF (ed_newText e))) edits) \<and>
    (\<forall>r \<in> set rs. 0 < matchLength r \<and>
      index_of content (text_slice content (matchIndex r) (matchIndex r + matchLength r)) 0 = Some (matchIndex r))"
proof -
  let ?f = "\<lambda>r. (text_slice content (matchIndex r) (matchIndex r + matchLength r), newText r)" and ?es = "normalized_edits edits"
  note exact = exact_replacements [OF assms]
  have "mset (map ?f rs) = image_mset ?f (mset (map (matched_replacement nfkc content) ?es))" using exact(2) by simp
  also have "\<dots> = mset (map (\<lambda>e. ?f (matched_replacement nfkc content e)) ?es)" by (simp add: image_mset.compositionality comp_def)
  also have "map (\<lambda>e. ?f (matched_replacement nfkc content e)) ?es = map (\<lambda>e. (ed_oldText e, ed_newText e)) ?es"
    using exact(3) by (intro map_cong) fastforce+
  finally have texts: "mset (map ?f rs) = mset (map (\<lambda>e. (normalizeToLF (ed_oldText e), normalizeToLF (ed_newText e))) edits)"
    by (simp add: normalized_edits_def comp_def)
  have "0 < matchLength r \<and> index_of content (text_slice content (matchIndex r) (matchIndex r + matchLength r)) 0 = Some (matchIndex r)"
    if r: "r \<in> set rs" for r
  proof -
    have "r \<in> set (map (matched_replacement nfkc content) ?es)" using r exact(2) by (metis set_mset_mset)
    then obtain e where "e \<in> set ?es" "r = matched_replacement nfkc content e" by auto
    then show ?thesis using exact(3) by fastforce
  qed
  then show ?thesis using exact(1,4) texts applyReplacements_all by auto
qed

theorem exact_edits_replace_texts_witness:
  "\<exists>rs. applyEditsToNormalizedContent (\<lambda>t. t) (sample_units ''abcd'') sample_edits = Inr (sample_units ''abx'' @ [LF] @ sample_units ''yd'', rs) \<and>
    mset (map (\<lambda>r. text_slice (sample_units ''abcd'') (matchIndex r) (matchIndex r + matchLength r)) rs) = {#sample_units ''c''#}"
proof -
  let ?rs = "[\<lparr>matchIndex = 2, matchLength = 1, newText = sample_units ''x'' @ [LF] @ sample_units ''y''\<rparr>]"
  have r: "applyEditsToNormalizedContent (\<lambda>t. t) (sample_units ''abcd'') sample_edits = Inr (sample_units ''abx'' @ [LF] @ sample_units ''yd'', ?rs)"
    by code_simp
  have f: "\<not> needs_fuzzy (\<lambda>t. t) (sample_units ''abcd'') (normalized_edits sample_edits)" by code_simp
  have n: "normalizeToLF (sample_units ''c'') = sample_units ''c''" by code_simp
  have "mset (map (\<lambda>r. (text_slice (sample_units ''abcd'') (matchIndex r) (matchIndex r + matchLength r), newText r)) ?rs) =
      mset (map (\<lambda>e. (normalizeToLF (ed_oldText e), normalizeToLF (ed_newText e))) sample_edits)"
    using exact_edits_replace_texts [OF r f] by blast
  then show ?thesis using r n by (intro exI [of _ ?rs]) (simp add: sample_edits_def)
qed

text \<open>
  C26. An accepted edit that needs loose matching changes only the lines it touches. Its edits are matched in the normalised content,
  in order, apart and inside it, and the normalised content has as many lines as the original. The lines are divided into groups
  of consecutive lines, in order and apart: a line is in a group exactly if a match touches it (holds its first character, or
  begins inside it), and each match lies in the group that has it. The new content has the original's lines outside the groups, and
  in each group what its replacements make of the normalised text there, as they would in the normalised content.
\<close>

theorem loose_edit_keeps_other_lines:
  assumes "applyEditsToNormalizedContent nfkc content edits = Inr (new, ws)" and "needs_fuzzy nfkc content (normalized_edits edits)"
  shows "\<exists>rs gs. let base = normalizeForFuzzyMatch nfkc content; lines = splitLinesWithEndings content; baseLines = splitLinesWithEndings base in
    mset rs = mset (map (matched_replacement nfkc base) (normalized_edits edits)) \<and> fits (length base) 0 rs \<and> length baseLines = length lines \<and>
    line_order (length lines) 0 gs \<and> concat (map lg_replacements gs) = rs \<and>
    (\<forall>g \<in> set gs. lg_replacements g \<noteq> [] \<and> group_fits baseLines g) \<and>
    (\<forall>k < length lines. (\<exists>g \<in> set gs. lg_startLine g \<le> k \<and> k < lg_endLine g) \<longleftrightarrow> (\<exists>r \<in> set rs. touches baseLines r k)) \<and>
    new = with_groups lines base 0 gs \<and> applyReplacements base rs 0 = with_groups baseLines base 0 gs"
proof -
  let ?es = "normalized_edits edits" and ?base = "normalizeForFuzzyMatch nfkc content" and ?sorted = "sort_key (\<lambda>m. matchIndex (snd m))"
  let ?lines = "splitLinesWithEndings content" and ?bl = "splitLinesWithEndings ?base"
  let ?b = "if needs_fuzzy nfkc content ?es then ?base else content"
  obtain ms where ms': "match_edits nfkc ?b (length ?es) 0 ?es = Inr ms" and apart: "check_overlap (length ?es) (?sorted ms) = Inr ()"
    and ws': "(if needs_fuzzy nfkc content ?es then widenReplacementsToLines content ?b (map snd (?sorted ms)) else Inr (map snd (?sorted ms))) = Inr ws"
    and new: "new = applyReplacements content ws 0" using edits_Inr [OF assms(1)] by metis
  define rs where "rs = map snd (?sorted ms)"
  have ms: "match_edits nfkc ?base (length ?es) 0 ?es = Inr ms" and ws: "widenReplacementsToLines content ?base rs = Inr ws"
    using ms' ws' assms(2) by (simp_all add: rs_def)
  have "mset rs = mset (map snd ms)" by (simp add: rs_def)
  then have perm: "mset rs = mset (map (matched_replacement nfkc ?base) ?es)" using match_edits_Inr [OF ms] by simp
  have sorted: "sorted (map matchIndex rs)" using sorted_sort_key [of "\<lambda>m. matchIndex (snd m)" ms] by (simp add: rs_def comp_def)
  then have id: "sort_key matchIndex rs = rs" by (rule sort_key_id_if_sorted)
  obtain gs where gs: "line_groups (getLineSpans ?base) [] rs = Inr gs" "length ?lines = length ?bl" "line_order (length ?bl) 0 gs"
      "concat (map lg_replacements gs) = rs" using ws [unfolded widenReplacementsToLines_def id] widen_Inr [OF ws] id by metis
  have inside: "matchIndex r + matchLength r \<le> length ?base" if "r \<in> set rs" for r
  proof -
    obtain s e where range: "getReplacementLineRange (getLineSpans ?base) r = Inr (s, e)" using line_groups_ranges [OF gs(1)] \<open>r \<in> set rs\<close> by blast
    from line_range(4) [OF range] line_range(2) [OF range] show ?thesis
      using line_offset_mono [of e "length ?bl" ?bl] by (simp add: line_offset_all)
  qed
  then have fit: "fits (length ?base) 0 rs" unfolding rs_def using check_overlap_fits [OF apart, of "length ?base" 0] by (simp add: rs_def)
  have groups: "\<forall>g \<in> set gs. group_fits ?bl g" using line_groups_fit [OF gs(1) fit] by (simp add: groups_upto_def)
  have "new = with_groups ?lines ?base 0 gs"
    unfolding new by (rule widened_content [OF ws]) (use fit gs(1) in \<open>simp_all add: id\<close>)
  moreover have "\<forall>k < length ?lines. (\<exists>g \<in> set gs. lg_startLine g \<le> k \<and> k < lg_endLine g) \<longleftrightarrow> (\<exists>r \<in> set rs. touches ?bl r k)"
    using line_groups_cover [OF gs(1) sorted] gs(2) by (auto simp: group_lines_def set_eq_iff)
  moreover have "\<forall>g \<in> set gs. lg_replacements g \<noteq> []" using line_groups_nonempty [OF gs(1)] by simp
  moreover have "applyReplacements ?base rs 0 = with_groups ?bl ?base 0 gs"
    using patched_replacements [OF gs(3) groups] applyReplacements_all [OF fit] by (simp add: line_offset_def gs(4))
  ultimately show ?thesis unfolding Let_def using perm fit gs(2-4) groups by (intro exI [of _ rs] exI [of _ gs]) simp
qed

theorem loose_edit_keeps_other_lines_witness:
  "\<exists>gs. applyEditsToNormalizedContent (\<lambda>t. t) (sample_units ''ab '' @ [LF] @ sample_units ''cd '' @ [LF] @ sample_units ''ef'')
      [\<lparr>ed_oldText = sample_units ''d'' @ [LF], ed_newText = sample_units ''x'' @ [LF]\<rparr>] =
      Inr (sample_units ''ab '' @ [LF] @ sample_units ''cx'' @ [LF] @ sample_units ''ef'',
        [\<lparr>matchIndex = 4, matchLength = 4, newText = sample_units ''cx'' @ [LF]\<rparr>]) \<and>
    line_order 3 0 gs \<and> (\<exists>g \<in> set gs. lg_startLine g \<le> 1 \<and> 1 < lg_endLine g) \<and> \<not> (\<exists>g \<in> set gs. lg_startLine g \<le> 0 \<and> 0 < lg_endLine g)"
proof -
  let ?o = "sample_units ''ab '' @ [LF] @ sample_units ''cd '' @ [LF] @ sample_units ''ef''"
  let ?es = "[\<lparr>ed_oldText = sample_units ''d'' @ [LF], ed_newText = sample_units ''x'' @ [LF]\<rparr>]"
  let ?r = "\<lparr>matchIndex = 4, matchLength = 2, newText = sample_units ''x'' @ [LF]\<rparr>"
  let ?bl = "splitLinesWithEndings (normalizeForFuzzyMatch (\<lambda>t. t) ?o)"
  have a: "applyEditsToNormalizedContent (\<lambda>t. t) ?o ?es = Inr (sample_units ''ab '' @ [LF] @ sample_units ''cx'' @ [LF] @ sample_units ''ef'',
      [\<lparr>matchIndex = 4, matchLength = 4, newText = sample_units ''cx'' @ [LF]\<rparr>])" by code_simp
  have f: "needs_fuzzy (\<lambda>t. t) ?o (normalized_edits ?es)" by code_simp
  have n: "length (splitLinesWithEndings ?o) = 3" by code_simp
  have m: "map (matched_replacement (\<lambda>t. t) (normalizeForFuzzyMatch (\<lambda>t. t) ?o)) (normalized_edits ?es) = [?r]" by code_simp
  have t: "touches ?bl ?r 1" "\<not> touches ?bl ?r 0" by code_simp+
  obtain rs gs where rs: "mset rs = mset [?r]" and gs: "line_order 3 0 gs"
    "\<forall>k < 3. (\<exists>g \<in> set gs. lg_startLine g \<le> k \<and> k < lg_endLine g) \<longleftrightarrow> (\<exists>r \<in> set rs. touches ?bl r k)"
    using loose_edit_keeps_other_lines [OF a f] unfolding Let_def n m by metis
  have "set rs = {?r}" using rs by (metis list.set(1) list.simps(15) set_mset_mset)
  then have "(\<exists>g \<in> set gs. lg_startLine g \<le> 1 \<and> 1 < lg_endLine g) \<and> \<not> (\<exists>g \<in> set gs. lg_startLine g \<le> 0 \<and> 0 < lg_endLine g)"
    using gs(2) [rule_format, of 0] gs(2) [rule_format, of 1] t by simp
  then show ?thesis using a gs(1) by blast
qed

text \<open>Matches are counted without overlap, so a text with two occurrences may be taken for a unique one.\<close>

theorem overlapping_occurrence_accepted:
  "applyEditsToNormalizedContent (\<lambda>t. t) (sample_units ''aaa'') [\<lparr>ed_oldText = sample_units ''aa'', ed_newText = []\<rparr>] =
    Inr (sample_units ''a'', [\<lparr>matchIndex = 0, matchLength = 2, newText = []\<rparr>])"
  by code_simp

text \<open>
  An old text of white space that is not in the content normalises to the empty text, which is found at the start; a content
  of two characters then counts one occurrence, and the new text is put in front.
\<close>

theorem absent_blank_text_accepted:
  "index_of (sample_units ''ab'') [9] 0 = None \<and>
    (case applyEditsToNormalizedContent (\<lambda>t. t) (sample_units ''ab'') [\<lparr>ed_oldText = [9], ed_newText = sample_units ''x''\<rparr>] of
       Inl e \<Rightarrow> False | Inr (new, rs) \<Rightarrow> new = sample_units ''xab'')"
  by code_simp
end
