(* ===== verification/Edit_Diff.thy ===== *)
theory Edit_Diff
  imports Edit_Match "HOL-Library.Sublist"
begin

text \<open>
  The diff an edit shows (\<^verbatim>\<open>coding-agent/src/core/tools/edit-diff.ts\<close>, last part). Only windows of lines around the
  replacements are compared, by the line diff of the package \<open>diff\<close>, which is an argument here, and every line shown
  carries its number in the whole file. The theory shows that nothing changes outside the windows and that the numbers
  are right.
\<close>

section \<open>Windows\<close>

text \<open>The loop over the positions of line feeds; \<open>index\<close> is the next one.\<close>

function count_from :: "js_text \<Rightarrow> nat \<Rightarrow> nat option \<Rightarrow> nat" where
  "count_from t stop None = 0"
| "count_from t stop (Some index) = (if index < stop then Suc (count_from t stop (index_of t [LF] (index + 1))) else 0)"
  by pat_completeness auto
termination
proof (relation "measure (\<lambda>(t, stop, index). case index of None \<Rightarrow> 0 | Some i \<Rightarrow> Suc (length t - i))", goal_cases)
  case (2 t stop i)
  show ?case
  proof (cases "index_of t [LF] (i + 1)")
    case (Some k)
    have "i + 1 \<le> k" "k + 1 \<le> length t" using index_of_ge(1,2) [OF Some] by simp_all
    then show ?thesis using Some by simp
  qed simp
qed simp

definition countLineFeeds :: "js_text \<Rightarrow> nat \<Rightarrow> nat \<Rightarrow> nat" where
  "countLineFeeds t start stop = count_from t stop (index_of t [LF] start)"

definition countLines :: "js_text \<Rightarrow> nat" where
  "countLines t = countLineFeeds t 0 (length t) + 1"

definition lineStartBefore :: "js_text \<Rightarrow> nat \<Rightarrow> nat" where
  "lineStartBefore t offset = (if offset = 0 then 0 else case last_index_of t LF (offset - 1) of None \<Rightarrow> 0 | Some i \<Rightarrow> i + 1)"

record diff_window =
  oldStart :: nat
  oldEnd :: nat
  oldLine :: nat
  newStart :: int
  newEnd :: int
  newLine :: int

definition DIFF_WINDOW_MARGIN_LINES :: nat where "DIFF_WINDOW_MARGIN_LINES = 32"

fun margin_start :: "js_text \<Rightarrow> nat \<Rightarrow> nat \<Rightarrow> nat" where
  "margin_start base 0 start = start"
| "margin_start base (Suc n) start = (if 0 < start then margin_start base n (lineStartBefore base (start - 1)) else start)"

definition line_end_from :: "js_text \<Rightarrow> nat \<Rightarrow> nat" where
  "line_end_from base i = (case index_of base [LF] i of None \<Rightarrow> length base | Some lineFeed \<Rightarrow> lineFeed + 1)"

fun margin_end :: "js_text \<Rightarrow> nat \<Rightarrow> nat \<Rightarrow> nat" where
  "margin_end base 0 stop = stop"
| "margin_end base (Suc n) stop = (if stop < length base then margin_end base n (line_end_from base stop) else stop)"

definition window_start :: "js_text \<Rightarrow> text_replacement \<Rightarrow> nat" where
  "window_start base r = margin_start base DIFF_WINDOW_MARGIN_LINES (lineStartBefore base (matchIndex r))"

text \<open>The first of the 33 rounds looks from the last replaced character on.\<close>

definition window_end :: "js_text \<Rightarrow> text_replacement \<Rightarrow> nat" where
  "window_end base r =
    (let matchEnd = matchIndex r + matchLength r in
     if matchEnd < length base
     then margin_end base DIFF_WINDOW_MARGIN_LINES (line_end_from base (max (matchEnd - 1) (matchIndex r)))
     else matchEnd)"

definition offset_delta :: "text_replacement \<Rightarrow> int" where
  "offset_delta r = int (length (newText r)) - int (matchLength r)"

definition line_delta :: "js_text \<Rightarrow> text_replacement \<Rightarrow> int" where
  "line_delta base r = int (countLineFeeds (newText r) 0 (length (newText r))) -
    int (countLineFeeds base (matchIndex r) (matchIndex r + matchLength r))"

text \<open>The loop of \<open>getDiffWindows\<close>; the windows so far are in reverse.\<close>

fun diff_windows ::
  "js_text \<Rightarrow> diff_window list \<Rightarrow> int \<Rightarrow> int \<Rightarrow> nat \<Rightarrow> nat \<Rightarrow> text_replacement list \<Rightarrow> diff_window list" where
  "diff_windows base windows offsetDelta lineDelta cursorOffset cursorLine [] = rev windows"
| "diff_windows base windows offsetDelta lineDelta cursorOffset cursorLine (r # rs) =
    (let start = window_start base r; stop = window_end base r;
         line = cursorLine + countLineFeeds base cursorOffset start;
         fresh = \<lparr>oldStart = start, oldEnd = stop, oldLine = line, newStart = int start + offsetDelta,
           newEnd = int stop + offsetDelta + offset_delta r, newLine = int line + lineDelta\<rparr>;
         offsetDelta' = offsetDelta + offset_delta r; lineDelta' = lineDelta + line_delta base r in
     case windows of
       [] \<Rightarrow> diff_windows base [fresh] offsetDelta' lineDelta' start line rs
     | previous # before \<Rightarrow>
         if start \<le> oldEnd previous
         then let e = max (oldEnd previous) stop in
           diff_windows base (previous\<lparr>oldEnd := e, newEnd := int e + offsetDelta + offset_delta r\<rparr> # before) offsetDelta' lineDelta'
             cursorOffset cursorLine rs
         else diff_windows base (fresh # windows) offsetDelta' lineDelta' start line rs)"

definition getDiffWindows :: "js_text \<Rightarrow> text_replacement list \<Rightarrow> diff_window list" where
  "getDiffWindows base replacements = diff_windows base [] 0 0 0 0 replacements"

section \<open>The lines shown\<close>

text \<open>A part of a line diff; the code never sees one both added and removed.\<close>

datatype part_kind = Added | Removed | Kept

record diff_part =
  dp_kind :: part_kind
  dp_value :: js_text

text \<open>A line of the display: its sign, its number and its text; or the mark of skipped lines.\<close>

datatype display_line = Shown part_kind nat js_text | Skipped

definition part_lines :: "js_text \<Rightarrow> js_text list" where
  "part_lines t = (let raw = split_on LF t in if last raw = [] then butlast raw else raw)"

fun numbered :: "part_kind \<Rightarrow> nat \<Rightarrow> js_text list \<Rightarrow> display_line list" where
  "numbered kind n [] = []"
| "numbered kind n (l # ls) = Shown kind n l # numbered kind (n + 1) ls"

definition is_change :: "diff_part \<Rightarrow> bool" where
  "is_change p \<longleftrightarrow> dp_kind p \<noteq> Kept"

text \<open>The lines shown of a part that is kept, the first of them being number \<open>n\<close> of the old file.\<close>

definition context_shown :: "bool \<Rightarrow> bool \<Rightarrow> nat \<Rightarrow> nat \<Rightarrow> js_text list \<Rightarrow> display_line list" where
  "context_shown hasLeadingChange hasTrailingChange contextLines n raw =
    (if hasLeadingChange \<and> hasTrailingChange
     then if length raw \<le> contextLines * 2 then numbered Kept n raw
       else numbered Kept n (take contextLines raw) @ [Skipped] @
         numbered Kept (n + (length raw - contextLines)) (drop (length raw - contextLines) raw)
     else if hasLeadingChange
     then numbered Kept n (take contextLines raw) @ (if 0 < length raw - contextLines then [Skipped] else [])
     else if hasTrailingChange
     then (if 0 < length raw - contextLines then [Skipped] else []) @
       numbered Kept (n + (length raw - contextLines)) (drop (length raw - contextLines) raw)
     else [])"

fun display_parts :: "nat \<Rightarrow> nat \<Rightarrow> nat \<Rightarrow> bool \<Rightarrow> nat option \<Rightarrow> diff_part list \<Rightarrow> display_line list \<times> nat option" where
  "display_parts contextLines oldNum newNum lastWasChange first [] = ([], first)"
| "display_parts contextLines oldNum newNum lastWasChange first (p # ps) =
    (let raw = part_lines (dp_value p) in
     case dp_kind p of
       Added \<Rightarrow> (case display_parts contextLines oldNum (newNum + length raw) True (Some (or_else first newNum)) ps of
         (out, f) \<Rightarrow> (numbered Added newNum raw @ out, f))
     | Removed \<Rightarrow> (case display_parts contextLines (oldNum + length raw) newNum True (Some (or_else first newNum)) ps of
         (out, f) \<Rightarrow> (numbered Removed oldNum raw @ out, f))
     | Kept \<Rightarrow> (case display_parts contextLines (oldNum + length raw) (newNum + length raw) False first ps of
         (out, f) \<Rightarrow> (context_shown lastWasChange (ps \<noteq> [] \<and> is_change (hd ps)) contextLines oldNum raw @ out, f)))"

definition formatDisplayDiff :: "diff_part list \<Rightarrow> nat \<Rightarrow> nat \<Rightarrow> nat \<Rightarrow> display_line list \<times> nat option" where
  "formatDisplayDiff parts oldStartLine newStartLine contextLines = display_parts contextLines oldStartLine newStartLine False None parts"

text \<open>A number right-aligned in \<open>width\<close>, and a line as it is printed.\<close>

definition units :: "string \<Rightarrow> js_text" where
  "units s = map (\<lambda>c. of_nat (of_char c)) s"

definition padStart :: "nat \<Rightarrow> string \<Rightarrow> js_text" where
  "padStart width s = replicate (width - length s) 0x20 @ units s"

fun sign :: "part_kind \<Rightarrow> 16 word" where
  "sign Added = 0x2B"
| "sign Removed = 0x2D"
| "sign Kept = 0x20"

fun print_line :: "nat \<Rightarrow> display_line \<Rightarrow> js_text" where
  "print_line width (Shown kind n l) = sign kind # padStart width (nat_dec n) @ [0x20] @ l"
| "print_line width Skipped = 0x20 # padStart width [] @ units '' ...''"

section \<open>The diff of an edit\<close>

definition window_old :: "js_text \<Rightarrow> diff_window \<Rightarrow> js_text" where
  "window_old base w = text_slice base (oldStart w) (oldEnd w)"

definition window_new :: "js_text \<Rightarrow> diff_window \<Rightarrow> js_text" where
  "window_new new w = text_slice new (nat (newStart w)) (nat (newEnd w))"

text \<open>Two marks of skipped lines in a row become one.\<close>

definition join_shown :: "display_line list \<Rightarrow> display_line list \<Rightarrow> display_line list" where
  "join_shown output shown =
    output @ (if output \<noteq> [] \<and> last output = Skipped \<and> shown \<noteq> [] \<and> hd shown = Skipped then tl shown else shown)"

fun window_diffs ::
  "(js_text \<Rightarrow> js_text \<Rightarrow> diff_part list) \<Rightarrow> js_text \<Rightarrow> js_text \<Rightarrow> nat \<Rightarrow> display_line list \<Rightarrow> nat option \<Rightarrow> diff_window list \<Rightarrow>
    display_line list \<times> nat option" where
  "window_diffs diffLines base new contextLines output first [] = (output, first)"
| "window_diffs diffLines base new contextLines output first (w # ws) =
    (case formatDisplayDiff (diffLines (window_old base w) (window_new new w)) (oldLine w + 1) (nat (newLine w) + 1) contextLines of
       (shown, f) \<Rightarrow> window_diffs diffLines base new contextLines (join_shown output shown)
         (case first of None \<Rightarrow> f | Some n \<Rightarrow> Some n) ws)"

definition edit_diff_lines ::
  "(js_text \<Rightarrow> js_text \<Rightarrow> diff_part list) \<Rightarrow> js_text \<Rightarrow> js_text \<Rightarrow> text_replacement list \<Rightarrow> nat \<Rightarrow> display_line list \<times> nat option" where
  "edit_diff_lines diffLines base new replacements contextLines =
    window_diffs diffLines base new contextLines [] None (getDiffWindows base replacements)"

text \<open>Hunks of a structured patch; those of a window are moved to their place in the files.\<close>

record patch_hunk =
  h_oldStart :: nat
  h_oldLines :: nat
  h_newStart :: nat
  h_newLines :: nat
  h_lines :: "js_text list"

definition shift_hunk :: "diff_window \<Rightarrow> patch_hunk \<Rightarrow> patch_hunk" where
  "shift_hunk w h = h\<lparr>h_oldStart := h_oldStart h + oldLine w, h_newStart := h_newStart h + nat (newLine w)\<rparr>"

definition edit_hunks :: "(js_text \<Rightarrow> js_text \<Rightarrow> patch_hunk list) \<Rightarrow> js_text \<Rightarrow> js_text \<Rightarrow> text_replacement list \<Rightarrow> patch_hunk list" where
  "edit_hunks structuredPatch base new replacements =
    concat (map (\<lambda>w. map (shift_hunk w) (structuredPatch (window_old base w) (window_new new w))) (getDiffWindows base replacements))"

text \<open>The text of the diff, the first changed line, and the patch as the package prints the hunks.\<close>

record edit_diff =
  diff_text :: js_text
  diff_patch :: js_text
  firstChangedLine :: "nat option"

definition line_width :: "js_text \<Rightarrow> js_text \<Rightarrow> nat" where
  "line_width base new = length (nat_dec (max (countLines base) (countLines new)))"

definition generateEditDiff ::
  "(js_text \<Rightarrow> js_text \<Rightarrow> diff_part list) \<Rightarrow> (js_text \<Rightarrow> js_text \<Rightarrow> patch_hunk list) \<Rightarrow> (patch_hunk list \<Rightarrow> js_text) \<Rightarrow>
    js_text \<Rightarrow> js_text \<Rightarrow> text_replacement list \<Rightarrow> nat \<Rightarrow> edit_diff" where
  "generateEditDiff diffLines structuredPatch formatPatch base new replacements contextLines =
    (case edit_diff_lines diffLines base new replacements contextLines of
       (output, first) \<Rightarrow> \<lparr>diff_text = join_on LF (map (print_line (line_width base new)) output),
         diff_patch = formatPatch (edit_hunks structuredPatch base new replacements), firstChangedLine = first\<rparr>)"

text \<open>The diff of two whole files, without windows.\<close>

definition generateDiffString :: "(js_text \<Rightarrow> js_text \<Rightarrow> diff_part list) \<Rightarrow> js_text \<Rightarrow> js_text \<Rightarrow> nat \<Rightarrow> js_text \<times> nat option" where
  "generateDiffString diffLines oldContent newContent contextLines =
    (case formatDisplayDiff (diffLines oldContent newContent) 1 1 contextLines of
       (output, first) \<Rightarrow> (join_on LF (map (print_line (line_width oldContent newContent)) output), first))"

text \<open>The preview of an edit of a file that holds \<open>raw\<close>, with four lines of context.\<close>

definition computeEditsDiff ::
  "(js_text \<Rightarrow> js_text) \<Rightarrow> (js_text \<Rightarrow> js_text \<Rightarrow> diff_part list) \<Rightarrow> (js_text \<Rightarrow> js_text \<Rightarrow> patch_hunk list) \<Rightarrow>
    (patch_hunk list \<Rightarrow> js_text) \<Rightarrow> js_text \<Rightarrow> edit list \<Rightarrow> edit_error + js_text \<times> nat option" where
  "computeEditsDiff nfkc diffLines structuredPatch formatPatch raw edits =
    (let normalizedContent = normalizeToLF (snd (splitBom raw)) in
     try_bind (applyEditsToNormalizedContent nfkc normalizedContent edits) (\<lambda>(newContent, replacements).
     let d = generateEditDiff diffLines structuredPatch formatPatch normalizedContent newContent replacements 4 in
     Inr (diff_text d, firstChangedLine d)))"


section \<open>Line feeds\<close>

definition line_feeds :: "js_text \<Rightarrow> nat" where
  "line_feeds t = length (filter (\<lambda>c. c = LF) t)"

lemma line_feeds_simps [simp]:
  "line_feeds [] = 0" "line_feeds (c # t) = (if c = LF then 1 else 0) + line_feeds t" "line_feeds (s @ t) = line_feeds s + line_feeds t"
  by (simp_all add: line_feeds_def)

lemma starts_at_unit: "starts_at t [c] i \<longleftrightarrow> i < length t \<and> t ! i = c"
  by (cases "i < length t") (auto simp: starts_at_def Cons_nth_drop_Suc [symmetric])

lemma line_feeds_none: "(\<And>i. s \<le> i \<Longrightarrow> i < e \<Longrightarrow> i < length t \<Longrightarrow> t ! i \<noteq> LF) \<Longrightarrow> line_feeds (text_slice t s e) = 0"
  by (auto simp: line_feeds_def filter_empty_conv text_slice_def in_set_conv_nth)

lemma slice_at: "s \<le> k \<Longrightarrow> k < e \<Longrightarrow> k < length t \<Longrightarrow> text_slice t s e = text_slice t s k @ t ! k # text_slice t (Suc k) e"
  using slice_append [of s k e t] by (simp add: text_slice_def Cons_nth_drop_Suc [symmetric] Suc_diff_Suc [symmetric])

lemma countLineFeeds_slice: "countLineFeeds t s e = line_feeds (text_slice t s e)"
proof (induction "length t - s" arbitrary: s rule: less_induct)
  case less
  show ?case
  proof (cases "index_of t [LF] s")
    case None
    have "line_feeds (text_slice t s e) = 0"
      using index_of_None [OF None] by (intro line_feeds_none) (simp add: starts_at_unit)
    then show ?thesis using None by (simp add: countLineFeeds_def)
  next
    case (Some k)
    note k = index_of_ge [OF Some, simplified]
    have lf: "k < length t" "t ! k = LF" using k(3) by (simp_all add: starts_at_unit)
    have clear: "line_feeds (text_slice t s j) = 0" if "j \<le> k" for j
      using k(4) that by (intro line_feeds_none) (simp add: starts_at_unit)
    have next_lf: "countLineFeeds t (Suc k) e = line_feeds (text_slice t (Suc k) e)" using less [of "Suc k"] k(1) lf(1) by simp
    show ?thesis
    proof (cases "k < e")
      case True
      then show ?thesis using Some next_lf slice_at [OF k(1) True lf(1)] clear [of k] lf(2) by (simp add: countLineFeeds_def)
    next
      case False
      then show ?thesis using Some clear [of e] by (simp add: countLineFeeds_def)
    qed
  qed
qed

section \<open>Whole lines\<close>

definition line_start :: "js_text \<Rightarrow> nat \<Rightarrow> bool" where
  "line_start t i \<longleftrightarrow> i = 0 \<or> i \<le> length t \<and> t ! (i - 1) = LF"

lemma lineStartBefore_start: "lineStartBefore t i \<le> i" "line_start t (lineStartBefore t i)"
  by (auto simp: lineStartBefore_def line_start_def last_index_of_def find_Some_iff rev_nth simp del: upt_Suc split: option.splits)

lemma margin_start_start: "line_start t s \<Longrightarrow> margin_start t n s \<le> s \<and> line_start t (margin_start t n s)"
proof (induction n arbitrary: s)
  case (Suc n)
  show ?case
  proof (cases "0 < s")
    case True
    have "margin_start t n (lineStartBefore t (s - 1)) \<le> lineStartBefore t (s - 1) \<and> line_start t (margin_start t n (lineStartBefore t (s - 1)))"
      using Suc.IH lineStartBefore_start by blast
    then show ?thesis using True lineStartBefore_start(1) [of t "s - 1"] by auto
  qed (use Suc in simp)
qed simp

lemma window_start_ok: "window_start t r \<le> matchIndex r" "line_start t (window_start t r)"
  using margin_start_start [of t "lineStartBefore t (matchIndex r)" DIFF_WINDOW_MARGIN_LINES] lineStartBefore_start [of t "matchIndex r"]
  by (auto simp: window_start_def)

definition line_end :: "js_text \<Rightarrow> nat \<Rightarrow> bool" where
  "line_end t i \<longleftrightarrow> i = length t \<or> 0 < i \<and> i \<le> length t \<and> t ! (i - 1) = LF"

lemma line_end_from_end: "i \<le> length t \<Longrightarrow> i \<le> line_end_from t i \<and> line_end_from t i \<le> length t \<and> line_end t (line_end_from t i) \<and>
    (i < length t \<longrightarrow> i < line_end_from t i)"
proof (cases "index_of t [LF] i")
  case (Some k)
  then show ?thesis using index_of_ge(1,3) [OF Some] by (auto simp: line_end_from_def line_end_def starts_at_unit)
qed (simp add: line_end_from_def line_end_def)

lemma margin_end_end: "e \<le> length t \<Longrightarrow> line_end t e \<Longrightarrow> e \<le> margin_end t n e \<and> margin_end t n e \<le> length t \<and> line_end t (margin_end t n e)"
proof (induction n arbitrary: e)
  case (Suc n)
  have l: "e \<le> line_end_from t e" "line_end_from t e \<le> length t" "line_end t (line_end_from t e)" using line_end_from_end [OF Suc.prems(1)] by auto
  show ?case using Suc.IH [OF l(2,3)] l(1) Suc.prems le_trans by (cases "e < length t") auto
qed simp

lemma window_end_ok:
  assumes "matchIndex r + matchLength r \<le> length t"
  shows "matchIndex r + matchLength r \<le> window_end t r" "window_end t r \<le> length t" "line_end t (window_end t r)"
proof -
  let ?e = "matchIndex r + matchLength r" and ?i = "max (matchIndex r + matchLength r - 1) (matchIndex r)"
  have "?e \<le> window_end t r \<and> window_end t r \<le> length t \<and> line_end t (window_end t r)"
  proof (cases "?e < length t")
    case True
    have i: "?i < length t" "?e \<le> Suc ?i" using True by auto
    note l = line_end_from_end [of ?i t]
    have "line_end_from t ?i \<le> margin_end t DIFF_WINDOW_MARGIN_LINES (line_end_from t ?i) \<and>
        margin_end t DIFF_WINDOW_MARGIN_LINES (line_end_from t ?i) \<le> length t \<and> line_end t (margin_end t DIFF_WINDOW_MARGIN_LINES (line_end_from t ?i))"
      using margin_end_end l i by auto
    moreover have "?e \<le> line_end_from t ?i" using l i by linarith
    moreover have "window_end t r = margin_end t DIFF_WINDOW_MARGIN_LINES (line_end_from t ?i)" using True by (simp add: window_end_def)
    ultimately show ?thesis by (metis le_trans)
  next
    case False
    then show ?thesis using assms by (auto simp: window_end_def line_end_def)
  qed
  then show "?e \<le> window_end t r" "window_end t r \<le> length t" "line_end t (window_end t r)" by auto
qed

lemma window_end_strict:
  assumes "matchIndex r + matchLength r \<le> length t"
  shows "window_end t r = length t \<or> matchIndex r + matchLength r < window_end t r"
proof (cases "matchIndex r + matchLength r < length t")
  case True
  let ?i = "max (matchIndex r + matchLength r - 1) (matchIndex r)"
  let ?l = "line_end_from t ?i"
  have i: "?i < length t" "matchIndex r + matchLength r \<le> Suc ?i" using True by auto
  have l: "?l \<le> length t" "line_end t ?l" "?i < ?l" using line_end_from_end [of ?i t] i(1) by auto
  have end_le: "matchIndex r + matchLength r \<le> ?l" using l(3) i(2) by linarith
  have e: "window_end t r = margin_end t (Suc 31) ?l" using True by (simp add: window_end_def DIFF_WINDOW_MARGIN_LINES_def)
  show ?thesis
  proof (cases "?l < length t")
    case True
    have n: "?l < line_end_from t ?l" "line_end_from t ?l \<le> length t" "line_end t (line_end_from t ?l)" using line_end_from_end [of ?l t] True by auto
    have "line_end_from t ?l \<le> margin_end t 31 (line_end_from t ?l)" using margin_end_end [OF n(2,3), of 31] by simp
    moreover have "window_end t r = margin_end t 31 (line_end_from t ?l)" unfolding e margin_end.simps using True by (simp only: if_True)
    ultimately show ?thesis using n(1) end_le by linarith
  next
    case False
    then have "?l = length t" using l(1) by simp
    then show ?thesis unfolding e margin_end.simps by simp
  qed
next
  case False
  then show ?thesis using assms by (simp add: window_end_def)
qed

section \<open>Windows around replacements\<close>

definition offset_deltas :: "text_replacement list \<Rightarrow> int" where
  "offset_deltas rs = sum_list (map offset_delta rs)"

definition line_deltas :: "js_text \<Rightarrow> text_replacement list \<Rightarrow> int" where
  "line_deltas base rs = sum_list (map (line_delta base) rs)"

lemma deltas_simps [simp]:
  "offset_deltas [] = 0" "offset_deltas (r # rs) = offset_delta r + offset_deltas rs" "offset_deltas (rs @ qs) = offset_deltas rs + offset_deltas qs"
  "line_deltas base [] = 0" "line_deltas base (r # rs) = line_delta base r + line_deltas base rs"
  "line_deltas base (rs @ qs) = line_deltas base rs + line_deltas base qs"
  by (simp_all add: offset_deltas_def line_deltas_def)

lemma length_patched:
  "fits n pos rs \<Longrightarrow> n \<le> length base \<Longrightarrow> int (length (patched base pos n rs)) = int n - int pos + offset_deltas rs"
proof (induction rs arbitrary: pos)
  case (Cons r rs)
  then show ?case using fits_le [of n "matchIndex r + matchLength r" rs] by (simp add: offset_delta_def)
qed simp

lemma line_feeds_patched:
  "fits n pos rs \<Longrightarrow> n \<le> length base \<Longrightarrow> int (line_feeds (patched base pos n rs)) = int (line_feeds (text_slice base pos n)) + line_deltas base rs"
proof (induction rs arbitrary: pos)
  case (Cons r rs)
  let ?i = "matchIndex r" and ?e = "matchIndex r + matchLength r"
  have le: "pos \<le> ?i" "?e \<le> n" using Cons.prems fits_le by auto
  have "text_slice base pos n = text_slice base pos ?i @ text_slice base ?i ?e @ text_slice base ?e n"
    using le by (simp add: slice_append)
  moreover have "int (line_feeds (patched base ?e n rs)) = int (line_feeds (text_slice base ?e n)) + line_deltas base rs" using Cons by simp
  ultimately show ?case by (simp add: line_delta_def countLineFeeds_slice)
qed simp

text \<open>What holds of a window with the replacements in it and those before it.\<close>

definition window_ok :: "js_text \<Rightarrow> text_replacement list \<Rightarrow> text_replacement list \<Rightarrow> diff_window \<Rightarrow> bool" where
  "window_ok base before own w \<longleftrightarrow> own \<noteq> [] \<and> fits (oldEnd w) (oldStart w) own \<and> oldEnd w \<le> length base \<and>
    (before = [] \<or> 0 < oldStart w \<and> fits (oldStart w - 1) 0 before) \<and> (oldEnd w = length base \<or> 0 < oldEnd w \<and> fits (oldEnd w - 1) (oldStart w) own) \<and>
    line_start base (oldStart w) \<and> line_end base (oldEnd w) \<and> oldLine w = line_feeds (take (oldStart w) base) \<and>
    newStart w = int (oldStart w) + offset_deltas before \<and> newEnd w = int (oldEnd w) + offset_deltas (before @ own) \<and>
    newLine w = int (oldLine w) + line_deltas base before"

lemma window_ok_before: "window_ok base before own w \<Longrightarrow> fits (oldStart w) 0 before"
  by (auto simp: window_ok_def intro: fits_mono)

fun windows_ok :: "js_text \<Rightarrow> diff_window list \<Rightarrow> text_replacement list list \<Rightarrow> bool" where
  "windows_ok base [] gs \<longleftrightarrow> gs = []"
| "windows_ok base (w # ws) [] \<longleftrightarrow> False"
| "windows_ok base (w # ws) (g # gs) \<longleftrightarrow> window_ok base (concat (rev gs)) g w \<and> (ws \<noteq> [] \<longrightarrow> oldEnd (hd ws) < oldStart w) \<and> windows_ok base ws gs"

lemma slice_take: "text_slice t 0 e = take e t"
  by (simp add: text_slice_def)

lemma line_feeds_take: "s \<le> e \<Longrightarrow> line_feeds (take e t) = line_feeds (take s t) + line_feeds (text_slice t s e)"
  using slice_append [of 0 s e t] by (metis le0 line_feeds_simps(3) slice_take)

text \<open>A new window, and the last window widened by one more replacement.\<close>

lemma window_ok_fresh:
  assumes "before = [] \<or> 0 < window_start base r \<and> fits (window_start base r - 1) 0 before" and "cursor \<le> window_start base r" and "matchIndex r + matchLength r \<le> length base"
    and "line = line_feeds (take cursor base) + countLineFeeds base cursor (window_start base r)"
  shows "window_ok base before [r] \<lparr>oldStart = window_start base r, oldEnd = window_end base r, oldLine = line,
    newStart = int (window_start base r) + offset_deltas before, newEnd = int (window_end base r) + offset_deltas before + offset_delta r,
    newLine = int line + line_deltas base before\<rparr>"
  using assms window_start_ok [of base r] window_end_ok [OF assms(3)] window_end_strict [OF assms(3)] line_feeds_take [OF assms(2), of base]
  by (auto simp: window_ok_def countLineFeeds_slice)

lemma window_ok_widened:
  assumes "window_ok base before own w" and "fits p (oldStart w) own" and "p \<le> matchIndex r" and "matchIndex r + matchLength r \<le> length base"
    and "e = max (oldEnd w) (window_end base r)"
  shows "window_ok base before (own @ [r]) (w\<lparr>oldEnd := e, newEnd := int e + offset_deltas (before @ own) + offset_delta r\<rparr>)"
proof -
  have fit: "fits (matchIndex r + matchLength r) (oldStart w) (own @ [r])" using assms(2,3) fits_append [of _ "oldStart w" own "[r]"] by auto
  moreover have "matchIndex r + matchLength r \<le> e" using window_end_ok(1) [OF assms(4)] assms(5) by simp
  ultimately have "fits e (oldStart w) (own @ [r])" using fits_mono by blast
  moreover have "e \<le> length base" "line_end base e" using assms(1,5) window_end_ok [OF assms(4)] by (auto simp: window_ok_def max_def)
  moreover have "e = length base \<or> 0 < e \<and> fits (e - 1) (oldStart w) (own @ [r])"
  proof (cases "matchIndex r + matchLength r < e")
    case True
    then show ?thesis using fits_mono [OF fit, of "e - 1"] by simp
  next
    case False
    then have "e = window_end base r \<or> e = oldEnd w" "window_end base r = length base" "e \<le> length base"
      using window_end_strict [OF assms(4)] assms(1,5) window_end_ok(2) [OF assms(4)] by (auto simp: max_def window_ok_def split: if_splits)
    then show ?thesis using assms(5) by (auto simp: max_def split: if_splits)
  qed
  ultimately show ?thesis using assms(1) by (auto simp: window_ok_def)
qed

lemma diff_windows_ok:
  assumes "fits (length base) p rs" and "windows_ok base ws gs"
    and "ws = [] \<longrightarrow> p = 0 \<and> cursor = 0" and "ws \<noteq> [] \<longrightarrow> fits p (oldStart (hd ws)) (hd gs) \<and> p \<le> oldEnd (hd ws) \<and> cursor = oldStart (hd ws)"
    and "od = offset_deltas (concat (rev gs))" and "ld = line_deltas base (concat (rev gs))" and "line = line_feeds (take cursor base)"
  shows "\<exists>gs'. windows_ok base (rev (diff_windows base ws od ld cursor line rs)) gs' \<and> concat (rev gs') = concat (rev gs) @ rs"
  using assms
proof (induction rs arbitrary: p ws gs od ld cursor line)
  case Nil
  then show ?case by (intro exI [of _ gs]) simp
next
  case (Cons r rs)
  let ?s = "window_start base r" and ?e = "window_end base r" and ?p = "matchIndex r + matchLength r"
  let ?line = "line + countLineFeeds base cursor ?s"
  let ?fresh = "\<lparr>oldStart = ?s, oldEnd = ?e, oldLine = ?line, newStart = int ?s + od, newEnd = int ?e + od + offset_delta r, newLine = int ?line + ld\<rparr>"
  have rest: "fits (length base) ?p rs" "p \<le> matchIndex r" "?p \<le> length base" using Cons.prems(1) fits_le by auto
  have new: "\<exists>gs'. windows_ok base (rev (diff_windows base (?fresh # ws) (od + offset_delta r) (ld + line_delta base r) ?s ?line rs)) gs' \<and>
      concat (rev gs') = concat (rev gs) @ r # rs"
    if before: "concat (rev gs) = [] \<or> 0 < ?s \<and> fits (?s - 1) 0 (concat (rev gs))" and cursor: "cursor \<le> ?s" and apart: "ws \<noteq> [] \<longrightarrow> oldEnd (hd ws) < ?s"
  proof -
    have "window_ok base (concat (rev gs)) [r] ?fresh"
      using window_ok_fresh [OF before cursor rest(3)] Cons.prems(5,6,7) by simp
    then have "windows_ok base (?fresh # ws) ([r] # gs)" using Cons.prems(2) apart by simp
    moreover have "?line = line_feeds (take ?s base)" using Cons.prems(7) line_feeds_take [OF cursor, of base] by (simp add: countLineFeeds_slice)
    moreover have "fits ?p ?s [r]" "?p \<le> ?e" using window_start_ok(1) window_end_ok(1) [OF rest(3)] by simp_all
    ultimately show ?thesis
      using Cons.IH [OF rest(1), of "?fresh # ws" "[r] # gs" ?s "od + offset_delta r" "ld + line_delta base r" ?line] Cons.prems(5,6) by simp
  qed
  show ?case
  proof (cases ws)
    case Nil
    then have "gs = []" using Cons.prems(2) by simp
    then show ?thesis using new Nil Cons.prems(3) by (simp add: Let_def)
  next
    case ws: (Cons w ws')
    then obtain g gs' where gs: "gs = g # gs'" using Cons.prems(2) by (cases gs) auto
    have w: "window_ok base (concat (rev gs')) g w" "fits p (oldStart w) g" "p \<le> oldEnd w" "cursor = oldStart w" "windows_ok base ws' gs'"
        "ws' \<noteq> [] \<longrightarrow> oldEnd (hd ws') < oldStart w"
      using Cons.prems(2,4) by (auto simp: ws gs)
    show ?thesis
    proof (cases "?s \<le> oldEnd w")
      case True
      let ?m = "max (oldEnd w) ?e"
      let ?w = "w\<lparr>oldEnd := ?m, newEnd := int ?m + od + offset_delta r\<rparr>"
      have od: "od = offset_deltas (concat (rev gs') @ g)" using Cons.prems(5) by (simp add: gs)
      have "window_ok base (concat (rev gs')) (g @ [r]) ?w" using window_ok_widened [OF w(1,2) rest(2,3) refl] by (simp add: od)
      then have "windows_ok base (?w # ws') ((g @ [r]) # gs')" using w(5,6) by simp
      moreover have "fits ?p (oldStart w) (g @ [r])" using w(2) rest(2) fits_append [of _ "oldStart w" g "[r]"] by auto
      moreover have "?p \<le> ?m" using window_end_ok(1) [OF rest(3)] by simp
      ultimately show ?thesis
        using Cons.IH [OF rest(1), of "?w # ws'" "(g @ [r]) # gs'" cursor "od + offset_delta r" "ld + line_delta base r" line] Cons.prems(5,6,7) w(4) True
        by (simp add: ws gs Let_def)
    next
      case False
      have "fits (oldStart w) 0 (concat (rev gs'))" using w(1) by (rule window_ok_before)
      then have "fits p 0 (concat (rev gs))" using w(2) fits_append [of p 0 "concat (rev gs')" g] by (auto simp: gs)
      then have "fits (?s - 1) 0 (concat (rev gs))" by (rule fits_mono) (use w(3) False in simp)
      moreover have "cursor \<le> ?s" using w(1,4) False fits_le [of "oldEnd w" "oldStart w" g] by (simp add: window_ok_def)
      ultimately show ?thesis using new False by (simp add: ws Let_def)
    qed
  qed
qed

section \<open>Windows and the new content\<close>

lemma window_new_content:
  assumes w: "window_ok base before own w" and after: "fits (length base) (oldEnd w) after"
    and new: "new = patched base 0 (length base) (before @ own @ after)"
  shows "new = take (nat (newStart w)) new @ window_new new w @ drop (nat (newEnd w)) new"
    and "take (nat (newStart w)) new = patched base 0 (oldStart w) before" and "window_new new w = patched base (oldStart w) (oldEnd w) own"
    and "drop (nat (newEnd w)) new = patched base (oldEnd w) (length base) after"
    and "newLine w = int (line_feeds (take (nat (newStart w)) new))"
proof -
  let ?s = "oldStart w" and ?e = "oldEnd w" and ?a = "patched base 0 (oldStart w) before" and ?b = "patched base (oldStart w) (oldEnd w) own"
  have fit: "fits ?s 0 before" "fits ?e ?s own" "?e \<le> length base" using w window_ok_before by (auto simp: window_ok_def)
  have se: "?s \<le> ?e" using fits_le [OF fit(2)] .
  have "fits (length base) ?s (own @ after)" using fit(2) after fits_append by blast
  then have split: "new = ?a @ ?b @ patched base ?e (length base) after"
    using new patched_append [OF fit(1), of "length base" "own @ after" base] patched_append [OF fit(2) after, of base] by simp
  have la: "int (length ?a) = newStart w" using length_patched [OF fit(1), of base] se fit(3) w by (simp add: window_ok_def)
  have "int (length ?b) = newEnd w - newStart w" using length_patched [OF fit(2,3)] w by (simp add: window_ok_def)
  then have lb: "nat (newStart w) = length ?a" "nat (newEnd w) = length ?a + length ?b" using la by linarith+
  show a: "take (nat (newStart w)) new = ?a" using split lb by simp
  show b: "window_new new w = ?b" using split lb by (simp add: window_new_def text_slice_def)
  show c: "drop (nat (newEnd w)) new = patched base ?e (length base) after" using split lb by simp
  show "new = take (nat (newStart w)) new @ window_new new w @ drop (nat (newEnd w)) new" unfolding a b c by (rule split)
  show "newLine w = int (line_feeds (take (nat (newStart w)) new))"
    using line_feeds_patched [OF fit(1), of base] se fit(3) w a by (simp add: window_ok_def slice_take)
qed

definition window_replacement :: "js_text \<Rightarrow> diff_window \<Rightarrow> text_replacement" where
  "window_replacement new w = \<lparr>matchIndex = oldStart w, matchLength = oldEnd w - oldStart w, newText = window_new new w\<rparr>"

text \<open>What holds of each window within the whole contents.\<close>

definition whole_lines_window :: "js_text \<Rightarrow> js_text \<Rightarrow> diff_window \<Rightarrow> bool" where
  "whole_lines_window base new w \<longleftrightarrow> oldStart w \<le> oldEnd w \<and> oldEnd w \<le> length base \<and> line_start base (oldStart w) \<and> line_end base (oldEnd w) \<and>
    0 \<le> newStart w \<and> newStart w \<le> newEnd w \<and> newEnd w \<le> int (length new) \<and>
    line_start new (nat (newStart w)) \<and> line_end new (nat (newEnd w)) \<and>
    oldLine w = line_feeds (take (oldStart w) base) \<and> newLine w = int (line_feeds (take (nat (newStart w)) new))"

lemma patched_last:
  assumes "fits (n - 1) pos rs" and "0 < n" and "n \<le> length base"
  shows "last (patched base pos n rs) = base ! (n - 1)" and "patched base pos n rs \<noteq> []"
proof -
  have "patched base pos n rs = patched base pos (n - 1) rs @ text_slice base (n - 1) n"
    using patched_append [OF assms(1), of n "[]" base] by simp
  moreover have "text_slice base (n - 1) n = [base ! (n - 1)]"
    using assms(2,3) by (simp add: text_slice_def Cons_nth_drop_Suc [symmetric] take_Suc_Cons)
  ultimately show "last (patched base pos n rs) = base ! (n - 1)" "patched base pos n rs \<noteq> []" by simp_all
qed

lemma last_take: "k \<le> length t \<Longrightarrow> take k t \<noteq> [] \<Longrightarrow> last (take k t) = t ! (k - 1) \<and> 0 < k"
  by (auto simp: last_conv_nth min_def)

lemma window_whole_lines:
  assumes w: "window_ok base before own w" and after: "fits (length base) (oldEnd w) after" "oldEnd w = length base \<longrightarrow> after = []"
    and new: "new = patched base 0 (length base) (before @ own @ after)"
  shows "whole_lines_window base new w"
proof -
  note c = window_new_content [OF w after(1) new]
  have fit: "fits (oldStart w) 0 before" "fits (oldEnd w) (oldStart w) own" "oldEnd w \<le> length base" using w window_ok_before by (auto simp: window_ok_def)
  have se: "oldStart w \<le> oldEnd w" using fits_le [OF fit(2)] .
  have len: "newStart w = int (length (patched base 0 (oldStart w) before))" "newEnd w - newStart w = int (length (patched base (oldStart w) (oldEnd w) own))"
    using length_patched [OF fit(1), of base] length_patched [OF fit(2,3)] se fit(3) w by (auto simp: window_ok_def)
  have ends: "0 \<le> newStart w" "newStart w \<le> newEnd w" using len by linarith+
  have split: "new = patched base 0 (oldStart w) before @ patched base (oldStart w) (oldEnd w) own @ patched base (oldEnd w) (length base) after"
    using c(1) unfolding c(2-4) .
  then have "length (patched base 0 (oldStart w) before) + length (patched base (oldStart w) (oldEnd w) own) \<le> length new" by (metis append_assoc le_add1 length_append)
  then have upto: "newEnd w \<le> int (length new)" using len by linarith
  have "line_start new (nat (newStart w))"
  proof (cases "before = [] \<and> oldStart w = 0")
    case True
    then have "newStart w = 0" using w by (simp add: window_ok_def)
    then show ?thesis by (simp add: line_start_def)
  next
    case False
    then have before: "0 < oldStart w" "fits (oldStart w - 1) 0 before" using w by (auto simp: window_ok_def)
    note last = patched_last [OF before(2,1), of base]
    have "last (take (nat (newStart w)) new) = LF" using last(1) c(2) w before(1) se fit(3) by (simp add: window_ok_def line_start_def)
    moreover have "take (nat (newStart w)) new \<noteq> []" using last(2) c(2) se fit(3) by simp
    ultimately show ?thesis using last_take [of "nat (newStart w)" new] upto ends by (simp add: line_start_def)
  qed
  moreover have "line_end new (nat (newEnd w))"
  proof (cases "oldEnd w = length base")
    case True
    then have "drop (nat (newEnd w)) new = []" using c(4) after(2) by (simp add: text_slice_def)
    then have "length new \<le> nat (newEnd w)" by simp
    then have "nat (newEnd w) = length new" using upto by linarith
    then show ?thesis by (simp add: line_end_def)
  next
    case False
    then have own: "0 < oldEnd w" "fits (oldEnd w - 1) (oldStart w) own" using w by (auto simp: window_ok_def)
    note last = patched_last [OF own(2,1) fit(3)]
    have "base ! (oldEnd w - 1) = LF" using w False by (simp add: window_ok_def line_end_def)
    then have lf: "last (patched base (oldStart w) (oldEnd w) own) = LF" "patched base (oldStart w) (oldEnd w) own \<noteq> []" using last by simp_all
    have "nat (newEnd w) = length (patched base 0 (oldStart w) before) + length (patched base (oldStart w) (oldEnd w) own)" using len by linarith
    then have "take (nat (newEnd w)) new = patched base 0 (oldStart w) before @ patched base (oldStart w) (oldEnd w) own" by (subst split) simp
    then have "last (take (nat (newEnd w)) new) = LF" "take (nat (newEnd w)) new \<noteq> []" using lf by simp_all
    moreover have "nat (newEnd w) \<le> length new" using upto by linarith
    ultimately show ?thesis using last_take [of "nat (newEnd w)" new] by (simp add: line_end_def)
  qed
  ultimately show ?thesis using w se fit(3) ends upto c(5) by (simp add: whole_lines_window_def window_ok_def)
qed

lemma windows_whole_lines:
  assumes "windows_ok base ws gs" and "ws \<noteq> [] \<longrightarrow> fits (length base) (oldEnd (hd ws)) after \<and> (oldEnd (hd ws) = length base \<longrightarrow> after = [])"
    and "new = patched base 0 (length base) (concat (rev gs) @ after)" and "w \<in> set ws"
  shows "whole_lines_window base new w"
  using assms
proof (induction base ws gs arbitrary: after rule: windows_ok.induct)
  case (3 base v ws g gs)
  have v: "window_ok base (concat (rev gs)) g v" using 3(2) by simp
  show ?case
  proof (cases "w = v")
    case True
    then show ?thesis using window_whole_lines [OF v, of after new] 3(3,4) by simp
  next
    case False
    then have w: "w \<in> set ws" "ws \<noteq> []" using 3(5) by auto
    have lt: "oldEnd (hd ws) < oldStart v" using 3(2) w(2) by simp
    have "fits (length base) (oldStart v) (g @ after)" using v 3(3) fits_append by (auto simp: window_ok_def)
    then have "fits (length base) (oldEnd (hd ws)) (g @ after)" using patched_from(2) lt by (meson less_imp_le)
    moreover have "oldEnd (hd ws) \<noteq> length base" using lt v fits_le [of "oldEnd v" "oldStart v" g] by (auto simp: window_ok_def)
    ultimately show ?thesis using 3(1) [of "g @ after"] 3(2,4) w by simp
  qed
qed simp_all

lemma windows_texts:
  assumes "windows_ok base ws gs" and "ws \<noteq> [] \<longrightarrow> fits (length base) (oldEnd (hd ws)) after"
    and "new = patched base 0 (length base) (concat (rev gs) @ after)"
  shows "map (window_new new) ws = map2 (\<lambda>w g. patched base (oldStart w) (oldEnd w) g) ws gs"
  using assms
proof (induction base ws gs arbitrary: after rule: windows_ok.induct)
  case (3 base v ws g gs)
  have v: "window_ok base (concat (rev gs)) g v" using 3(2) by simp
  have "fits (length base) (oldStart v) (g @ after)" using v 3(3) fits_append by (auto simp: window_ok_def)
  then have "fits (length base) (oldEnd (hd ws)) (g @ after)" if "ws \<noteq> []" using patched_from(2) 3(2) that by (metis less_imp_le windows_ok.simps(3))
  then have "map (window_new new) ws = map2 (\<lambda>w g. patched base (oldStart w) (oldEnd w) g) ws gs" using 3(1) [of "g @ after"] 3(2,4) by simp
  moreover have "window_new new v = patched base (oldStart v) (oldEnd v) g" using window_new_content(3) [OF v, of after new] 3(3,4) by simp
  ultimately show ?case by simp
qed simp_all

lemma windows_patched:
  assumes "windows_ok base ws gs" and "map (window_new new) ws = map2 (\<lambda>w g. patched base (oldStart w) (oldEnd w) g) ws gs"
    and "ws \<noteq> [] \<longrightarrow> oldEnd (hd ws) \<le> e" and "e \<le> length base"
  shows "fits e 0 (map (window_replacement new) (rev ws)) \<and> fits e 0 (concat (rev gs)) \<and>
    patched base 0 e (map (window_replacement new) (rev ws)) = patched base 0 e (concat (rev gs))"
  using assms
proof (induction base ws gs arbitrary: e rule: windows_ok.induct)
  case (3 base v ws g gs)
  have v: "window_ok base (concat (rev gs)) g v" using 3(2) by simp
  let ?s = "oldStart v" and ?e = "oldEnd v" and ?X = "map (window_replacement new) (rev ws)" and ?B = "concat (rev gs)"
  have g: "fits ?e ?s g" "?e \<le> e" using v 3(4) by (auto simp: window_ok_def)
  have se: "?s \<le> ?e" using fits_le [OF g(1)] .
  have ih: "fits ?s 0 ?X" "fits ?s 0 ?B" "patched base 0 ?s ?X = patched base 0 ?s ?B"
    using 3(1) [of ?s] 3(2,3,5) se g(2) by (auto intro: less_imp_le)
  have fg: "fits e ?s g" using fits_mono [OF g] .
  have fw: "fits e ?s [window_replacement new v]" using se g(2) by (simp add: window_replacement_def)
  have "patched base ?s e g = patched base ?s ?e g @ text_slice base ?e e" using patched_append [OF g(1), of e "[]" base] g(2) by simp
  moreover have "window_new new v = patched base ?s ?e g" using 3(3) by simp
  ultimately have "patched base ?s e [window_replacement new v] = patched base ?s e g" using se by (simp add: window_replacement_def text_slice_def)
  then show ?case
    using patched_append [OF ih(1) fw, of base] patched_append [OF ih(2) fg, of base] ih fg fw fits_append by auto
qed simp_all

lemma diff_windows_partition:
  assumes "fits (length base) 0 rs"
  obtains gs where "windows_ok base (rev (getDiffWindows base rs)) gs" and "concat (rev gs) = rs"
  using diff_windows_ok [OF assms, of "[]" "[]" 0 0 0 0] by (auto simp: getDiffWindows_def)

lemma windows_cover:
  "windows_ok base ws gs \<Longrightarrow> r \<in> set (concat gs) \<Longrightarrow> \<exists>w \<in> set ws. oldStart w \<le> matchIndex r \<and> matchIndex r + matchLength r \<le> oldEnd w"
proof (induction base ws gs rule: windows_ok.induct)
  case (3 base v ws g gs)
  have inside: "oldStart v \<le> matchIndex r \<and> matchIndex r + matchLength r \<le> oldEnd v" if r: "r \<in> set g"
  proof -
    obtain xs ys where "g = xs @ r # ys" using split_list [OF r] by blast
    moreover have "fits (oldEnd v) (oldStart v) g" using 3(2) by (simp add: window_ok_def)
    ultimately obtain m where "fits m (oldStart v) xs" "fits (oldEnd v) m (r # ys)" using fits_append by blast
    then show ?thesis using fits_le [of m "oldStart v" xs] fits_le [of "oldEnd v" "matchIndex r + matchLength r" ys] by auto
  qed
  then show ?case using 3 by auto
qed simp_all

section \<open>Lines shown\<close>

text \<open>Every line of the parts with its number.\<close>

fun annotated :: "nat \<Rightarrow> nat \<Rightarrow> diff_part list \<Rightarrow> display_line list" where
  "annotated oldNum newNum [] = []"
| "annotated oldNum newNum (p # ps) =
    (let raw = part_lines (dp_value p) in
     case dp_kind p of
       Added \<Rightarrow> numbered Added newNum raw @ annotated oldNum (newNum + length raw) ps
     | Removed \<Rightarrow> numbered Removed oldNum raw @ annotated (oldNum + length raw) newNum ps
     | Kept \<Rightarrow> numbered Kept oldNum raw @ annotated (oldNum + length raw) (newNum + length raw) ps)"

fun shows_change :: "display_line \<Rightarrow> bool" where
  "shows_change (Shown kind n l) \<longleftrightarrow> kind \<noteq> Kept"
| "shows_change Skipped \<longleftrightarrow> False"

lemma numbered_take: "numbered k n (take i ls) = take i (numbered k n ls)"
  by (induction ls arbitrary: n i) (auto simp: take_Cons split: nat.splits)

lemma numbered_drop: "numbered k (n + i) (drop i ls) = drop i (numbered k n ls)"
  by (induction ls arbitrary: n i) (auto simp: drop_Cons split: nat.splits, metis add_Suc_right add_Suc)

lemma length_numbered [simp]: "length (numbered k n ls) = length ls"
  by (induction ls arbitrary: n) auto

lemma numbered_nth: "i < length ls \<Longrightarrow> numbered k n ls ! i = Shown k (n + i) (ls ! i)"
  by (induction ls arbitrary: n i) (auto simp: nth_Cons split: nat.splits)

lemma numbered_kind: "x \<in> set (numbered k n ls) \<Longrightarrow> x \<noteq> Skipped \<and> (shows_change x \<longleftrightarrow> k \<noteq> Kept)"
  by (induction ls arbitrary: n) auto

lemma filter_numbered [simp]:
  "filter (\<lambda>x. x \<noteq> Skipped) (numbered k n ls) = numbered k n ls"
  "filter shows_change (numbered k n ls) = (if k = Kept then [] else numbered k n ls)"
  by (auto simp: filter_id_conv filter_empty_conv dest: numbered_kind)

lemma context_lines:
  "subseq (filter (\<lambda>x. x \<noteq> Skipped) (context_shown lead trail c n raw)) (numbered Kept n raw)" "filter shows_change (context_shown lead trail c n raw) = []"
proof -
  let ?ys = "numbered Kept n raw"
  have part: "subseq (take i xs) xs" "subseq (drop i xs) xs" for i and xs :: "display_line list"
    by (simp_all add: prefix_imp_subseq take_is_prefix suffix_imp_subseq suffix_drop)
  have two: "subseq (take c ?ys @ drop (length raw - c) ?ys) ?ys" if "\<not> length raw \<le> c * 2"
  proof -
    have "drop (length raw - c) ?ys = drop (length raw - 2 * c) (drop c ?ys)" using that by simp
    then have "subseq (take c ?ys @ drop (length raw - c) ?ys) (take c ?ys @ drop c ?ys)"
      using list_emb_append_mono [OF subseq_order.order_refl part(2)] by metis
    then show ?thesis by simp
  qed
  have "subseq (take c ?ys) ?ys" "subseq (drop (length raw - c) ?ys) ?ys" by (rule part)+
  then show "subseq (filter (\<lambda>x. x \<noteq> Skipped) (context_shown lead trail c n raw)) ?ys"
    using two by (auto simp: context_shown_def numbered_take [symmetric] numbered_drop [symmetric])
  show "filter shows_change (context_shown lead trail c n raw) = []" by (auto simp: context_shown_def)
qed

lemma subseq_filter_append:
  "subseq (filter P xs) ys \<Longrightarrow> subseq (filter P xs') ys' \<Longrightarrow> subseq (filter P (xs @ xs')) (ys @ ys')"
  by (simp add: list_emb_append_mono)

text \<open>The lines shown are lines of the parts in their order, with every changed one.\<close>

lemma display_parts_lines:
  "display_parts c oldNum newNum lead first ps = (out, f) \<Longrightarrow>
    subseq (filter (\<lambda>x. x \<noteq> Skipped) out) (annotated oldNum newNum ps) \<and> filter shows_change out = filter shows_change (annotated oldNum newNum ps)"
proof (induction ps arbitrary: oldNum newNum lead first out f)
  case (Cons p ps)
  let ?raw = "part_lines (dp_value p)"
  show ?case
  proof (cases "dp_kind p")
    case Added
    obtain out' f' where d: "display_parts c oldNum (newNum + length ?raw) True (Some (or_else first newNum)) ps = (out', f')" by force
    then show ?thesis using Cons.IH [OF d] Cons.prems Added by (auto simp: Let_def intro!: list_emb_append_mono)
  next
    case Removed
    obtain out' f' where d: "display_parts c (oldNum + length ?raw) newNum True (Some (or_else first newNum)) ps = (out', f')" by force
    then show ?thesis using Cons.IH [OF d] Cons.prems Removed by (auto simp: Let_def intro!: list_emb_append_mono)
  next
    case Kept
    obtain out' f' where d: "display_parts c (oldNum + length ?raw) (newNum + length ?raw) False first ps = (out', f')" by force
    then have out: "out = context_shown lead (ps \<noteq> [] \<and> is_change (hd ps)) c oldNum ?raw @ out'" using Cons.prems Kept by (simp add: Let_def)
    show ?thesis
      using Cons.IH [OF d] subseq_filter_append [OF context_lines(1)] context_lines(2) Kept by (auto simp: out Let_def)
  qed
qed simp

section \<open>Numbers of lines\<close>

definition old_side :: "diff_part list \<Rightarrow> js_text list" where
  "old_side ps = map dp_value (filter (\<lambda>p. dp_kind p \<noteq> Added) ps)"

definition new_side :: "diff_part list \<Rightarrow> js_text list" where
  "new_side ps = map dp_value (filter (\<lambda>p. dp_kind p \<noteq> Removed) ps)"

lemma in_numbered: "Shown k i l \<in> set (numbered k' n ls) \<Longrightarrow> k = k' \<and> n \<le> i \<and> i - n < length ls \<and> ls ! (i - n) = l"
  by (auto simp: in_set_conv_nth numbered_nth)

text \<open>An entry of the numbered lines names a line of the side it numbers.\<close>

definition names_line :: "js_text list \<Rightarrow> nat \<Rightarrow> nat \<Rightarrow> js_text \<Rightarrow> bool" where
  "names_line ls n i l \<longleftrightarrow> n \<le> i \<and> i - n < length ls \<and> ls ! (i - n) = l"

lemma names_line_append: "names_line ls n i l \<Longrightarrow> names_line (ls @ ms) n i l" "names_line ms (n + length ls) i l \<Longrightarrow> names_line (ls @ ms) n i l"
  by (auto simp: names_line_def nth_append)

lemma annotated_lines:
  "Shown k i l \<in> set (annotated oldNum newNum ps) \<Longrightarrow>
    (if k = Added then names_line (concat (map part_lines (new_side ps))) newNum i l else names_line (concat (map part_lines (old_side ps))) oldNum i l)"
proof (induction ps arbitrary: oldNum newNum)
  case (Cons p ps)
  let ?raw = "part_lines (dp_value p)"
  have here: "k = k' \<and> names_line ?raw n i l" if "Shown k i l \<in> set (numbered k' n ?raw)" for k' n
    using in_numbered [OF that] by (simp add: names_line_def)
  show ?case
    using Cons.prems Cons.IH here names_line_append
    by (cases "dp_kind p") (fastforce simp: Let_def old_side_def new_side_def split: if_splits)+
qed simp

lemma split_on_parts: "split_on c (s @ c # t) = split_on c s @ split_on c t"
  by (induction s) (auto split: list.splits)

lemma length_split_LF: "length (split_on LF t) = Suc (line_feeds t)"
  by (induction t) (auto split: list.splits)

lemma ends_LF: "t \<noteq> [] \<Longrightarrow> last t = LF \<Longrightarrow> \<exists>s. t = s @ [LF]"
  by (metis append_butlast_last_id)

lemma part_lines_snoc: "part_lines (s @ [LF]) = split_on LF s"
  by (simp add: part_lines_def split_on_snoc)

lemma part_lines_append:
  assumes "t \<noteq> []" and "last t = LF"
  shows "part_lines (t @ u) = part_lines t @ part_lines u"
proof -
  obtain s where s: "t = s @ [LF]" using ends_LF [OF assms] by blast
  have eq: "split_on LF (t @ u) = split_on LF s @ split_on LF u" using split_on_parts [of LF s u] by (simp add: s)
  have "part_lines (t @ u) = split_on LF s @ part_lines u"
    unfolding part_lines_def [of "t @ u"] part_lines_def [of u] eq using split_on_nonempty by (simp add: butlast_append Let_def)
  then show ?thesis by (simp add: s part_lines_snoc)
qed

text \<open>Values of which all but the last end a line.\<close>

definition whole_values :: "js_text list \<Rightarrow> bool" where
  "whole_values vs \<longleftrightarrow> (\<forall>v \<in> set (butlast vs). v \<noteq> [] \<and> last v = LF)"

lemma part_lines_concat: "whole_values vs \<Longrightarrow> concat (map part_lines vs) = part_lines (concat vs)"
proof (induction vs)
  case (Cons v vs)
  show ?case
  proof (cases "vs = []")
    case False
    then have "v \<noteq> []" "last v = LF" "whole_values vs" using Cons.prems by (auto simp: whole_values_def)
    then show ?thesis using Cons.IH part_lines_append by simp
  qed simp
qed (simp add: part_lines_def)

lemma part_line_in_file:
  assumes "t = a @ w @ b" and "a = [] \<or> last a = LF" and "b = [] \<or> w = [] \<or> last w = LF" and "names_line (part_lines w) (line_feeds a + 1) i l"
  shows "names_line (split_on LF t) 1 i l"
proof -
  have w: "w \<noteq> []" using assms(4) by (auto simp: names_line_def part_lines_def)
  have "\<exists>rest. split_on LF (w @ b) = part_lines w @ rest"
  proof (cases "last w = LF")
    case True
    then obtain s where "w = s @ [LF]" using ends_LF [OF w] by blast
    then show ?thesis using split_on_parts [of LF s b] by (simp add: part_lines_snoc)
  next
    case False
    have "split_on LF w = butlast (split_on LF w) @ [last (split_on LF w)]" using split_on_nonempty by simp
    then have "split_on LF w = part_lines w @ (if last (split_on LF w) = [] then [[]] else [])"
      by (cases "last (split_on LF w) = []") (simp_all add: part_lines_def Let_def)
    moreover have "b = []" using False assms(3) w by simp
    ultimately show ?thesis by auto
  qed
  moreover have "\<exists>before. split_on LF t = before @ split_on LF (w @ b) \<and> length before = line_feeds a"
  proof (cases "a = []")
    case False
    then obtain s where s: "a = s @ [LF]" using ends_LF assms(2) by blast
    then have "split_on LF t = split_on LF s @ split_on LF (w @ b)" using split_on_parts [of LF s "w @ b"] assms(1) by simp
    then show ?thesis using length_split_LF [of s] s by auto
  qed (simp add: assms(1))
  ultimately obtain before rest where "split_on LF t = before @ part_lines w @ rest" "length before = line_feeds a" by auto
  then show ?thesis using assms(4) by (auto simp: names_line_def nth_append)
qed

section \<open>Lines of the diff\<close>

text \<open>What the line diff of the package is documented to return: both texts in parts of whole lines.\<close>

definition line_diff :: "(js_text \<Rightarrow> js_text \<Rightarrow> diff_part list) \<Rightarrow> bool" where
  "line_diff diffLines \<longleftrightarrow> (\<forall>a b. concat (old_side (diffLines a b)) = a \<and> concat (new_side (diffLines a b)) = b \<and>
    whole_values (old_side (diffLines a b)) \<and> whole_values (new_side (diffLines a b)))"

definition window_lines :: "(js_text \<Rightarrow> js_text \<Rightarrow> diff_part list) \<Rightarrow> js_text \<Rightarrow> js_text \<Rightarrow> diff_window \<Rightarrow> display_line list" where
  "window_lines diffLines base new w = annotated (oldLine w + 1) (nat (newLine w) + 1) (diffLines (window_old base w) (window_new new w))"

lemma join_shown_lines:
  "x \<noteq> Skipped \<Longrightarrow> x \<in> set (join_shown output shown) \<longleftrightarrow> x \<in> set output \<or> x \<in> set shown"
  "filter shows_change (join_shown output shown) = filter shows_change output @ filter shows_change shown"
  by (cases shown; auto simp: join_shown_def)+

lemma window_diffs_lines:
  "window_diffs diffLines base new c acc seen ws = (out, f) \<Longrightarrow>
    (\<forall>k i l. Shown k i l \<in> set out \<longrightarrow> Shown k i l \<in> set acc \<or> (\<exists>w \<in> set ws. Shown k i l \<in> set (window_lines diffLines base new w))) \<and>
    filter shows_change out = filter shows_change acc @ concat (map (\<lambda>w. filter shows_change (window_lines diffLines base new w)) ws)"
proof (induction ws arbitrary: acc seen)
  case (Cons w ws)
  obtain shown g where d: "formatDisplayDiff (diffLines (window_old base w) (window_new new w)) (oldLine w + 1) (nat (newLine w) + 1) c = (shown, g)" by force
  note lines = display_parts_lines [OF d [unfolded formatDisplayDiff_def], folded window_lines_def]
  have "set (filter (\<lambda>x. x \<noteq> Skipped) shown) \<subseteq> set (window_lines diffLines base new w)"
    using list_emb_set [OF conjunct1 [OF lines]] by blast
  then have sub: "Shown k i l \<in> set (window_lines diffLines base new w)" if "Shown k i l \<in> set shown" for k i l using that by auto
  show ?case using Cons.IH [of "join_shown acc shown"] Cons.prems d lines sub by (fastforce simp: join_shown_lines)
qed auto

lemma window_line_in_file:
  assumes "line_diff diffLines" and "whole_lines_window base new w" and "Shown k i l \<in> set (window_lines diffLines base new w)"
  shows "names_line (split_on LF (if k = Added then new else base)) 1 i l"
proof -
  let ?ps = "diffLines (window_old base w) (window_new new w)"
  have side: "if k = Added then names_line (part_lines (window_new new w)) (nat (newLine w) + 1) i l
      else names_line (part_lines (window_old base w)) (oldLine w + 1) i l"
  proof -
    have "concat (map part_lines (old_side ?ps)) = part_lines (window_old base w)" "concat (map part_lines (new_side ?ps)) = part_lines (window_new new w)"
      using assms(1) part_lines_concat [of "old_side ?ps"] part_lines_concat [of "new_side ?ps"] by (simp_all add: line_diff_def)
    then show ?thesis using annotated_lines [OF assms(3) [unfolded window_lines_def]] by (cases "k = Added") simp_all
  qed
  have cut: "t = take s t @ text_slice t s e @ drop e t" if "s \<le> e" "e \<le> length t" for s e and t :: js_text
  proof -
    have "take s t @ text_slice t s e = take e t" using slice_append [of 0 s e t] that by (simp add: slice_take)
    then show ?thesis by (metis append_assoc append_take_drop_id)
  qed
  have start: "take s t = [] \<or> last (take s t) = LF" if "line_start t s" for s and t :: js_text
    using that by (cases "take s t = []") (auto simp: line_start_def last_conv_nth min_def)
  have stop: "drop e t = [] \<or> text_slice t s e = [] \<or> last (text_slice t s e) = LF" if "line_end t e" "s \<le> e" for s e and t :: js_text
  proof (cases "drop e t = [] \<or> text_slice t s e = []")
    case False
    then have e: "e < length t" "0 < e" "t ! (e - 1) = LF" using that by (auto simp: line_end_def)
    have "last (take e t) = last (text_slice t s e)" using slice_append [of 0 s e t] that False by (simp add: slice_take) (metis last_appendR)
    moreover have "last (take e t) = LF" using e by (subst last_conv_nth) auto
    ultimately show ?thesis by simp
  qed auto
  note w = assms(2) [unfolded whole_lines_window_def]
  show ?thesis
  proof (cases "k = Added")
    case True
    have n: "nat (newStart w) \<le> nat (newEnd w)" "nat (newEnd w) \<le> length new" using w by auto
    have "names_line (part_lines (window_new new w)) (line_feeds (take (nat (newStart w)) new) + 1) i l" using side True w by simp
    then have "names_line (split_on LF new) 1 i l"
      unfolding window_new_def using w by (intro part_line_in_file [OF cut [OF n]] start stop n(1)) auto
    then show ?thesis using True by simp
  next
    case False
    have "names_line (part_lines (window_old base w)) (line_feeds (take (oldStart w) base) + 1) i l" using side False w by simp
    then have "names_line (split_on LF base) 1 i l"
      unfolding window_old_def using w by (intro part_line_in_file [OF cut [of "oldStart w" "oldEnd w" base]] start stop) auto
    then show ?thesis using False by simp
  qed
qed

section \<open>Properties\<close>

lemma windows_bound: "windows_ok base ws gs \<Longrightarrow> ws \<noteq> [] \<Longrightarrow> oldEnd (hd ws) \<le> length base"
  by (cases ws; cases gs) (auto simp: window_ok_def)

lemma edit_windows:
  assumes "fits (length base) 0 rs" and "new = applyReplacements base rs 0"
  shows "fits (length base) 0 (map (window_replacement new) (getDiffWindows base rs))"
    and "applyReplacements base (map (window_replacement new) (getDiffWindows base rs)) 0 = new"
    and "\<forall>w \<in> set (getDiffWindows base rs). whole_lines_window base new w"
    and "\<forall>r \<in> set rs. \<exists>w \<in> set (getDiffWindows base rs). oldStart w \<le> matchIndex r \<and> matchIndex r + matchLength r \<le> oldEnd w"
proof -
  let ?ws = "rev (getDiffWindows base rs)"
  obtain gs where gs: "windows_ok base ?ws gs" "concat (rev gs) = rs" using diff_windows_partition [OF assms(1)] .
  have new: "new = patched base 0 (length base) (concat (rev gs) @ [])" using applyReplacements_all [OF assms(1)] assms(2) gs(2) by simp
  have bound: "?ws \<noteq> [] \<longrightarrow> fits (length base) (oldEnd (hd ?ws)) []" using windows_bound [OF gs(1)] by simp
  have texts: "map (window_new new) ?ws = map2 (\<lambda>w g. patched base (oldStart w) (oldEnd w) g) ?ws gs" using windows_texts [OF gs(1) bound new] .
  have all: "fits (length base) 0 (map (window_replacement new) (rev ?ws))"
      "patched base 0 (length base) (map (window_replacement new) (rev ?ws)) = patched base 0 (length base) (concat (rev gs))"
    using windows_patched [OF gs(1) texts, of "length base"] windows_bound [OF gs(1)] by blast+
  show fit: "fits (length base) 0 (map (window_replacement new) (getDiffWindows base rs))" using all(1) by simp
  show "applyReplacements base (map (window_replacement new) (getDiffWindows base rs)) 0 = new"
    using applyReplacements_all [OF fit] all(2) new by simp
  show "\<forall>w \<in> set (getDiffWindows base rs). whole_lines_window base new w"
    using windows_whole_lines [OF gs(1) _ new] bound by auto
  have "set (concat gs) = set rs" using gs(2) by (metis set_concat set_rev)
  then show "\<forall>r \<in> set rs. \<exists>w \<in> set (getDiffWindows base rs). oldStart w \<le> matchIndex r \<and> matchIndex r + matchLength r \<le> oldEnd w"
    using windows_cover [OF gs(1)] by simp
qed

definition diff_sample :: js_text where
  "diff_sample = units ''a'' @ [LF] @ units ''b'' @ [LF] @ units ''c''"

definition diff_sample_edits :: "text_replacement list" where
  "diff_sample_edits = [\<lparr>matchIndex = 2, matchLength = 1, newText = units ''x'' @ [LF] @ units ''y''\<rparr>]"

text \<open>
  C27. The windows an edit compares hold everything it changes. Taken with the text of the new file, the windows are
  replacements of the old file that are in order and apart, and applying them gives the new file; every window starts
  and ends at a line boundary of both files and carries the number of its first line in each; and every replacement
  lies inside a window.
\<close>

theorem diff_windows_hold_changes:
  assumes "fits (length base) 0 rs" and "new = applyReplacements base rs 0"
  shows "fits (length base) 0 (map (window_replacement new) (getDiffWindows base rs)) \<and>
    applyReplacements base (map (window_replacement new) (getDiffWindows base rs)) 0 = new \<and>
    (\<forall>w \<in> set (getDiffWindows base rs). whole_lines_window base new w) \<and>
    (\<forall>r \<in> set rs. \<exists>w \<in> set (getDiffWindows base rs). oldStart w \<le> matchIndex r \<and> matchIndex r + matchLength r \<le> oldEnd w)"
  using edit_windows [OF assms] by blast

theorem diff_windows_hold_changes_witness:
  "fits (length diff_sample) 0 diff_sample_edits \<and>
    applyReplacements diff_sample (map (window_replacement (applyReplacements diff_sample diff_sample_edits 0)) (getDiffWindows diff_sample diff_sample_edits)) 0 =
      applyReplacements diff_sample diff_sample_edits 0"
proof -
  have "fits (length diff_sample) 0 diff_sample_edits" by code_simp
  then show ?thesis using diff_windows_hold_changes by blast
qed

text \<open>
  C28. The lines of an accepted edit's diff are lines of the files under their numbers. With a line diff that returns both texts
  in parts of whole lines, every added line shown is the line of the new content with that number and every removed or
  unchanged line shown is the line of the old content with that number; and every line the line diff reports as changed
  in some window is shown, in order, whatever the number of context lines. (The content has its line breaks normalised, and
  normalisation to NFKC brings in no carriage return.)
\<close>

theorem shown_numbers_are_file_lines:
  assumes "applyEditsToNormalizedContent nfkc base edits = Inr (new, rs)" and "CR \<notin> set base" and "CR \<notin> set (nfkc base)"
    and "line_diff diffLines" and "edit_diff_lines diffLines base new rs contextLines = (out, f)"
  shows "(\<forall>k i l. Shown k i l \<in> set out \<longrightarrow> names_line (split_on LF (if k = Added then new else base)) 1 i l) \<and>
    filter shows_change out = concat (map (\<lambda>w. filter shows_change (window_lines diffLines base new w)) (getDiffWindows base rs))"
proof -
  note lines = window_diffs_lines [OF assms(5) [unfolded edit_diff_lines_def]]
  note accepted = accepted_replacements [OF assms(1-3)]
  have "names_line (split_on LF (if k = Added then new else base)) 1 i l" if shown: "Shown k i l \<in> set out" for k i l
  proof -
    obtain w where w: "w \<in> set (getDiffWindows base rs)" "Shown k i l \<in> set (window_lines diffLines base new w)"
      using conjunct1 [OF lines] shown by (metis empty_iff list.set(1))
    then have "whole_lines_window base new w" using edit_windows(3) [OF accepted(1,3)] by blast
    then show ?thesis using window_line_in_file [OF assms(4) _ w(2)] by blast
  qed
  then show ?thesis using lines by simp
qed

definition replaced_lines :: "js_text \<Rightarrow> js_text \<Rightarrow> diff_part list" where
  "replaced_lines a b = [\<lparr>dp_kind = Removed, dp_value = a\<rparr>, \<lparr>dp_kind = Added, dp_value = b\<rparr>]"

lemma replaced_lines_diff: "line_diff replaced_lines"
  by (simp add: line_diff_def replaced_lines_def old_side_def new_side_def whole_values_def)

theorem shown_numbers_are_file_lines_witness:
  "\<exists>new rs out f. applyEditsToNormalizedContent (\<lambda>t. t) diff_sample [\<lparr>ed_oldText = units ''b'', ed_newText = units ''x'' @ [LF] @ units ''y''\<rparr>] = Inr (new, rs) \<and>
    edit_diff_lines replaced_lines diff_sample new rs 4 = (out, f) \<and>
    Shown Added 3 (units ''y'') \<in> set out \<and> names_line (split_on LF new) 1 3 (units ''y'')"
proof -
  let ?new = "units ''a'' @ [LF] @ units ''x'' @ [LF] @ units ''y'' @ [LF] @ units ''c''"
  have r: "applyEditsToNormalizedContent (\<lambda>t. t) diff_sample [\<lparr>ed_oldText = units ''b'', ed_newText = units ''x'' @ [LF] @ units ''y''\<rparr>] = Inr (?new, diff_sample_edits)"
    by code_simp
  have no_cr: "CR \<notin> set diff_sample" by code_simp
  obtain out f where d: "edit_diff_lines replaced_lines diff_sample ?new diff_sample_edits 4 = (out, f)" by force
  have "Shown Added 3 (units ''y'') \<in> set (fst (edit_diff_lines replaced_lines diff_sample ?new diff_sample_edits 4))" by code_simp
  then have shown: "Shown Added 3 (units ''y'') \<in> set out" using d by simp
  then have "names_line (split_on LF ?new) 1 3 (units ''y'')"
    using shown_numbers_are_file_lines [OF r no_cr no_cr replaced_lines_diff d] by fastforce
  then show ?thesis using r d shown by blast
qed
end
