(* ===== verification/Wire_Framing.thy ===== *)
theory Wire_Framing
  imports Js_Text
begin

text \<open>
  The framing of intercom messages on a socket (\<^verbatim>\<open>intercom/broker/framing.ts\<close>): a length of four bytes and the UTF-8 bytes
  of a JSON text. The socket delivers bytes in chunks of any size, so the reader keeps what is not yet a whole frame. The
  theory shows that the chunks do not matter. \<open>stringify\<close> and \<open>parse\<close> stand for the methods of \<open>JSON\<close>; a message is any
  value they exchange.
\<close>

section \<open>Writing\<close>

definition writeUInt32BE :: "nat \<Rightarrow> nat list" where
  "writeUInt32BE n = [n div 16777216 mod 256, n div 65536 mod 256, n div 256 mod 256, n mod 256]"

text \<open>The bytes written for a message; a payload whose length does not fit raises a range error.\<close>

definition writeMessage :: "('m \<Rightarrow> js_text) \<Rightarrow> 'm \<Rightarrow> nat list option" where
  "writeMessage stringify msg =
    (let payload = utf8_bytes (stringify msg) in
     if length payload < 2 ^ 32 then Some (writeUInt32BE (length payload) @ payload) else None)"

section \<open>Reading\<close>

definition readUInt32BE :: "nat list \<Rightarrow> nat" where
  "readUInt32BE bs = ((bs ! 0 * 256 + bs ! 1) * 256 + bs ! 2) * 256 + bs ! 3"

record reader =
  rd_buffer :: "nat list"
  rd_pending :: "nat list list"
  rd_pendingLength :: nat
  rd_awaitedLength :: nat

definition new_reader :: reader where
  "new_reader = \<lparr>rd_buffer = [], rd_pending = [], rd_pendingLength = 0, rd_awaitedLength = 0\<rparr>"

text \<open>What the reader calls: \<open>onMessage\<close>, and \<open>onError\<close> for a payload that is no JSON or a handler that throws.\<close>

datatype 'm read_event = Received 'm | ParseError | HandlerError

fun is_error :: "'m read_event \<Rightarrow> bool" where
  "is_error (Received m) \<longleftrightarrow> False"
| "is_error ParseError \<longleftrightarrow> True"
| "is_error HandlerError \<longleftrightarrow> True"

text \<open>
  The loop over the complete frames of the buffer. Whether the handler throws may depend on all messages it has received,
  the new one last.
\<close>

function read_frames :: "(js_text \<Rightarrow> 'm option) \<Rightarrow> ('m list \<Rightarrow> bool) \<Rightarrow> 'm list \<Rightarrow> nat list \<Rightarrow> 'm read_event list \<times> reader" where
  "read_frames parse throws received buffer =
    (if length buffer < 4 then ([], new_reader\<lparr>rd_buffer := buffer\<rparr>)
     else let n = readUInt32BE buffer in
       if length buffer < 4 + n
       then ([], \<lparr>rd_buffer = [], rd_pending = [buffer], rd_pendingLength = length buffer, rd_awaitedLength = 4 + n\<rparr>)
       else let payload = take n (drop 4 buffer); rest = drop (4 + n) buffer in
         case parse (decode_utf8 payload) of
           None \<Rightarrow> ([ParseError], new_reader\<lparr>rd_buffer := rest\<rparr>)
         | Some msg \<Rightarrow>
             if throws (received @ [msg]) then ([Received msg, HandlerError], new_reader\<lparr>rd_buffer := rest\<rparr>)
             else case read_frames parse throws (received @ [msg]) rest of (es, r) \<Rightarrow> (Received msg # es, r))"
  by pat_completeness auto
termination
  by (relation "measure (\<lambda>(parse, throws, received, buffer). length buffer)") auto

definition on_data :: "(js_text \<Rightarrow> 'm option) \<Rightarrow> ('m list \<Rightarrow> bool) \<Rightarrow> 'm list \<Rightarrow> reader \<Rightarrow> nat list \<Rightarrow> 'm read_event list \<times> reader" where
  "on_data parse throws received r data =
    (if rd_pendingLength r + length data < rd_awaitedLength r
     then ([], r\<lparr>rd_pending := rd_pending r @ [data], rd_pendingLength := rd_pendingLength r + length data\<rparr>)
     else read_frames parse throws received
       (if rd_pending r = [] then rd_buffer r @ data else concat (rd_pending r @ [data])))"

text \<open>A socket's chunks in turn.\<close>

fun received_of :: "'m read_event list \<Rightarrow> 'm list" where
  "received_of [] = []"
| "received_of (Received m # es) = m # received_of es"
| "received_of (_ # es) = received_of es"

definition feed ::
  "(js_text \<Rightarrow> 'm option) \<Rightarrow> ('m list \<Rightarrow> bool) \<Rightarrow> 'm read_event list \<times> reader \<Rightarrow> nat list \<Rightarrow> 'm read_event list \<times> reader" where
  "feed parse throws s data =
    (case on_data parse throws (received_of (fst s)) (snd s) data of (new, r) \<Rightarrow> (fst s @ new, r))"

definition read_chunks :: "(js_text \<Rightarrow> 'm option) \<Rightarrow> ('m list \<Rightarrow> bool) \<Rightarrow> nat list list \<Rightarrow> 'm read_event list \<times> reader" where
  "read_chunks parse throws chunks = foldl (feed parse throws) ([], new_reader) chunks"

section \<open>Frames of a stream\<close>

text \<open>The payloads of the complete frames of a stream, and the bytes after them.\<close>

function split_frames :: "nat list \<Rightarrow> nat list list \<times> nat list" where
  "split_frames bs =
    (if length bs < 4 \<or> length bs < 4 + readUInt32BE bs then ([], bs)
     else let n = readUInt32BE bs in
       case split_frames (drop (4 + n) bs) of (ps, rest) \<Rightarrow> (take n (drop 4 bs) # ps, rest))"
  by pat_completeness auto
termination
  by (relation "measure length") auto

declare read_frames.simps [simp del] split_frames.simps [simp del]

text \<open>What the payloads give, up to the first error.\<close>

fun events_of :: "(js_text \<Rightarrow> 'm option) \<Rightarrow> ('m list \<Rightarrow> bool) \<Rightarrow> 'm list \<Rightarrow> nat list list \<Rightarrow> 'm read_event list" where
  "events_of parse throws received [] = []"
| "events_of parse throws received (p # ps) =
    (case parse (decode_utf8 p) of
       None \<Rightarrow> [ParseError]
     | Some msg \<Rightarrow>
         if throws (received @ [msg]) then [Received msg, HandlerError]
         else Received msg # events_of parse throws (received @ [msg]) ps)"

fun until_error :: "'m read_event list \<Rightarrow> 'm read_event list" where
  "until_error [] = []"
| "until_error (e # es) = (if is_error e then [e] else e # until_error es)"

definition failed :: "'m read_event list \<Rightarrow> bool" where
  "failed es \<longleftrightarrow> list_ex is_error es"

lemma failed_simps [simp]: "\<not> failed []" "failed (e # es) \<longleftrightarrow> is_error e \<or> failed es" "failed (es @ fs) \<longleftrightarrow> failed es \<or> failed fs"
  by (simp_all add: failed_def)

lemma until_error_ok: "\<not> failed es \<Longrightarrow> until_error es = es"
  by (induction es) auto

lemma until_error_append: "until_error (es @ fs) = (if failed es then until_error es else es @ until_error fs)"
  by (induction es) auto

lemma failed_until_error: "failed (until_error es) \<longleftrightarrow> failed es"
  by (induction es) auto

lemma received_of_append [simp]: "received_of (es @ fs) = received_of es @ received_of fs"
  by (induction es rule: received_of.induct) auto

lemma events_of_append:
  "events_of parse throws received (ps @ qs) =
    (let es = events_of parse throws received ps in
     if failed es then es else es @ events_of parse throws (received @ received_of es) qs)"
  by (induction ps arbitrary: received) (auto simp: Let_def split: option.splits)

lemma until_events_of: "until_error (events_of parse throws received ps) = events_of parse throws received ps"
  by (induction ps arbitrary: received) (auto split: option.splits)

lemma read_header_append: "4 \<le> length a \<Longrightarrow> readUInt32BE (a @ b) = readUInt32BE a"
  by (auto simp: readUInt32BE_def nth_append)

lemma split_frames_append:
  "split_frames (a @ b) =
    (case split_frames a of (ps, rest) \<Rightarrow> case split_frames (rest @ b) of (qs, rest') \<Rightarrow> (ps @ qs, rest'))"
proof (induction a rule: split_frames.induct)
  case (1 a)
  let ?n = "readUInt32BE a"
  show ?case
  proof (cases "length a < 4 \<or> length a < 4 + ?n")
    case True
    then have "split_frames a = ([], a)" by (subst split_frames.simps) simp
    then show ?thesis by (simp split: prod.splits)
  next
    case False
    then have h: "readUInt32BE (a @ b) = ?n" by (intro read_header_append) simp
    have a: "split_frames a = (case split_frames (drop (4 + ?n) a) of (ps, rest) \<Rightarrow> (take ?n (drop 4 a) # ps, rest))"
      using False by (subst split_frames.simps) (simp add: Let_def)
    have ab: "split_frames (a @ b) = (case split_frames (drop (4 + ?n) a @ b) of (ps, rest) \<Rightarrow> (take ?n (drop 4 a) # ps, rest))"
      using False h by (subst split_frames.simps) (simp add: Let_def)
    show ?thesis using 1 [OF False refl] by (simp add: a ab split: prod.splits)
  qed
qed

section \<open>The reader\<close>

text \<open>The bytes the reader holds, and its invariant while no error has occurred.\<close>

definition held :: "reader \<Rightarrow> nat list" where
  "held r = concat (rd_pending r) @ rd_buffer r"

definition reader_ok :: "reader \<Rightarrow> bool" where
  "reader_ok r \<longleftrightarrow> split_frames (held r) = ([], held r) \<and>
    (if rd_pending r = [] then rd_pendingLength r = 0 \<and> rd_awaitedLength r = 0
     else rd_buffer r = [] \<and> rd_pendingLength r = length (held r) \<and> 4 \<le> length (held r) \<and>
       rd_awaitedLength r = 4 + readUInt32BE (held r))"

lemma read_frames_spec:
  assumes "read_frames parse throws received buffer = (es, r)"
  shows "es = events_of parse throws received (fst (split_frames buffer)) \<and>
    (\<not> failed es \<longrightarrow> reader_ok r \<and> held r = snd (split_frames buffer))"
  using assms
proof (induction parse throws received buffer arbitrary: es r rule: read_frames.induct)
  case (1 parse throws received buffer)
  let ?n = "readUInt32BE buffer"
  consider (short) "length buffer < 4" | (partial) "4 \<le> length buffer" "length buffer < 4 + ?n" | (frame) "4 \<le> length buffer" "4 + ?n \<le> length buffer"
    by linarith
  then show ?case
  proof cases
    case short
    then have "split_frames buffer = ([], buffer)" by (subst split_frames.simps) simp
    then show ?thesis using short 1(2) by (subst (asm) read_frames.simps) (auto simp: reader_ok_def held_def new_reader_def)
  next
    case partial
    then have "split_frames buffer = ([], buffer)" by (subst split_frames.simps) simp
    then show ?thesis using partial 1(2) by (subst (asm) read_frames.simps) (auto simp: reader_ok_def held_def)
  next
    case frame
    let ?p = "take ?n (drop 4 buffer)" and ?rest = "drop (4 + ?n) buffer"
    have s: "split_frames buffer = (?p # fst (split_frames ?rest), snd (split_frames ?rest))"
      using frame by (subst split_frames.simps) (simp add: Let_def split: prod.splits)
    have r: "read_frames parse throws received buffer =
      (case parse (decode_utf8 ?p) of
         None \<Rightarrow> ([ParseError], new_reader\<lparr>rd_buffer := ?rest\<rparr>)
       | Some msg \<Rightarrow> if throws (received @ [msg]) then ([Received msg, HandlerError], new_reader\<lparr>rd_buffer := ?rest\<rparr>)
           else case read_frames parse throws (received @ [msg]) ?rest of (es, r) \<Rightarrow> (Received msg # es, r))"
      using frame by (subst read_frames.simps) (simp add: Let_def)
    show ?thesis
    proof (cases "parse (decode_utf8 ?p)")
      case None
      then show ?thesis using 1(2) s r by auto
    next
      case (Some msg)
      show ?thesis
      proof (cases "throws (received @ [msg])")
        case True
        then show ?thesis using 1(2) s r Some by auto
      next
        case False
        obtain es' r' where d: "read_frames parse throws (received @ [msg]) ?rest = (es', r')" by force
        have "\<not> length buffer < 4" "\<not> length buffer < 4 + ?n" using frame by auto
        note ih = 1(1) [OF this(1) refl this(2) refl refl Some False d]
        show ?thesis using 1(2) s r Some False d ih by auto
      qed
    qed
  qed
qed

lemma on_data_spec:
  assumes "reader_ok r" and "on_data parse throws received r data = (es, r')"
  shows "es = events_of parse throws received (fst (split_frames (held r @ data))) \<and>
    (\<not> failed es \<longrightarrow> reader_ok r' \<and> held r' = snd (split_frames (held r @ data)))"
proof (cases "rd_pendingLength r + length data < rd_awaitedLength r")
  case True
  then have p: "rd_pending r \<noteq> []" "rd_buffer r = []" "4 \<le> length (held r)" "rd_pendingLength r = length (held r)"
      "rd_awaitedLength r = 4 + readUInt32BE (held r)"
    using assms(1) by (auto simp: reader_ok_def split: if_splits)
  have h: "readUInt32BE (held r @ data) = readUInt32BE (held r)" using p(3) by (rule read_header_append)
  have none: "split_frames (held r @ data) = ([], held r @ data)" using True p h by (subst split_frames.simps) simp
  have r': "es = []" "r' = r\<lparr>rd_pending := rd_pending r @ [data], rd_pendingLength := rd_pendingLength r + length data\<rparr>"
    using assms(2) True by (simp_all add: on_data_def)
  have held: "held r' = held r @ data" using p(2) by (simp add: r'(2) held_def)
  show ?thesis using p none h held r' by (simp add: reader_ok_def)
next
  case False
  have "(if rd_pending r = [] then rd_buffer r @ data else concat (rd_pending r @ [data])) = held r @ data"
    using assms(1) by (auto simp: held_def reader_ok_def)
  then have "read_frames parse throws received (held r @ data) = (es, r')" using assms(2) False by (simp add: on_data_def)
  then show ?thesis by (rule read_frames_spec)
qed

lemma read_chunks_spec:
  "until_error (fst (read_chunks parse throws cs)) = events_of parse throws [] (fst (split_frames (concat cs))) \<and>
    (\<not> failed (fst (read_chunks parse throws cs)) \<longrightarrow>
      reader_ok (snd (read_chunks parse throws cs)) \<and> held (snd (read_chunks parse throws cs)) = snd (split_frames (concat cs)))"
proof (induction cs rule: rev_induct)
  case Nil
  have "split_frames [] = ([], [])" by (subst split_frames.simps) simp
  then show ?case by (simp add: read_chunks_def reader_ok_def held_def new_reader_def)
next
  case (snoc c cs)
  obtain es r where s: "read_chunks parse throws cs = (es, r)" by force
  obtain fs r' where d: "on_data parse throws (received_of es) r c = (fs, r')" by force
  have s': "read_chunks parse throws (cs @ [c]) = (es @ fs, r')" using s d by (simp add: read_chunks_def feed_def)
  have all: "split_frames (concat (cs @ [c])) =
      (fst (split_frames (concat cs)) @ fst (split_frames (snd (split_frames (concat cs)) @ c)), snd (split_frames (snd (split_frames (concat cs)) @ c)))"
    using split_frames_append [of "concat cs" c] by (simp split: prod.splits)
  show ?case
  proof (cases "failed es")
    case True
    then show ?thesis using snoc s s' all failed_until_error [of es] by (simp add: until_error_append events_of_append Let_def)
  next
    case False
    then have ok: "reader_ok r" "held r = snd (split_frames (concat cs))" "es = events_of parse throws [] (fst (split_frames (concat cs)))"
      using snoc s until_error_ok [OF False] by auto
    note new = on_data_spec [OF ok(1) d, unfolded ok(2)]
    have "until_error fs = fs" using conjunct1 [OF new] until_events_of by metis
    then show ?thesis using new False ok(3) s' all by (simp add: until_error_append events_of_append Let_def)
  qed
qed

section \<open>Properties\<close>

text \<open>
  How the socket cuts the stream into chunks does not matter: up to the first error, after which the caller closes the
  socket, the reader calls its handlers as if all complete frames of the bytes so far had been read one after the other.
\<close>

theorem chunks_do_not_matter:
  "until_error (fst (read_chunks parse throws chunks)) = events_of parse throws [] (fst (split_frames (concat chunks)))"
  using read_chunks_spec by blast

lemma header_round_trip: "n < 2 ^ 32 \<Longrightarrow> readUInt32BE (writeUInt32BE n @ bs) = n"
proof -
  assume n: "n < 2 ^ 32"
  let ?q1 = "n div 256" and ?q2 = "n div 256 div 256" and ?q3 = "n div 256 div 256 div 256"
  have q: "n div 65536 = ?q2" "n div 16777216 = ?q3" by (simp_all add: div_mult2_eq [symmetric])
  have "?q3 < 256" using n by (simp add: q(2) [symmetric])
  then have "readUInt32BE (writeUInt32BE n @ bs) = ((?q3 * 256 + ?q2 mod 256) * 256 + ?q1 mod 256) * 256 + n mod 256"
    by (simp add: readUInt32BE_def writeUInt32BE_def q)
  also have "\<dots> = n" by (simp only: div_mult_mod_eq)
  finally show ?thesis .
qed

lemma written_frames:
  assumes "\<forall>m \<in> set ms. \<exists>bs. writeMessage stringify m = Some bs"
  shows "split_frames (concat (map (the \<circ> writeMessage stringify) ms)) = (map (utf8_bytes \<circ> stringify) ms, [])"
  using assms
proof (induction ms)
  case Nil
  show ?case by (subst split_frames.simps) simp
next
  case (Cons m ms)
  let ?p = "utf8_bytes (stringify m)" and ?rest = "concat (map (the \<circ> writeMessage stringify) ms)"
  have p: "length ?p < 2 ^ 32" "writeMessage stringify m = Some (writeUInt32BE (length ?p) @ ?p)"
    using Cons.prems by (auto simp: writeMessage_def Let_def split: if_splits)
  have h: "readUInt32BE (writeUInt32BE (length ?p) @ ?p @ ?rest) = length ?p" using p(1) by (rule header_round_trip)
  have len: "length (writeUInt32BE (length ?p)) = 4" by (simp add: writeUInt32BE_def)
  have "split_frames (writeUInt32BE (length ?p) @ ?p @ ?rest) = (?p # fst (split_frames ?rest), snd (split_frames ?rest))"
    by (subst split_frames.simps) (simp add: h len Let_def split: prod.splits)
  then show ?case using Cons p(2) by (simp add: comp_def)
qed

lemma utf8_round_trip: "well_formed t \<Longrightarrow> decode_utf8 (utf8_bytes t) = t"
proof -
  assume "well_formed t"
  then have "list_all scalar_point (code_points t)"
    using code_points_bound by (auto simp: well_formed_def scalar_point_def list_all_iff list_ex_iff)
  then show ?thesis by (simp add: utf8_bytes_points decode_encode points_text_code_points)
qed

lemma events_of_texts:
  assumes "\<forall>m \<in> set ms. parse (stringify m) = Some m \<and> well_formed (stringify m)" and "\<forall>k. \<not> throws (received @ take k ms) \<or> k = 0"
  shows "events_of parse throws received (map (utf8_bytes \<circ> stringify) ms) = map Received ms"
  using assms
proof (induction ms arbitrary: received)
  case (Cons m ms)
  have "\<not> throws (received @ [m])" using spec [OF Cons.prems(2), of 1] by simp
  moreover have "\<forall>k. \<not> throws ((received @ [m]) @ take k ms) \<or> k = 0" using spec [OF Cons.prems(2), of "Suc k" for k] by simp
  ultimately show ?case using Cons by (simp add: utf8_round_trip)
qed simp

text \<open>
  C13. Messages survive the wire. Whatever the chunks in which the bytes of a sequence of written messages arrive, the reader hands
  exactly these messages to its handler, in order and without an error, and is left with no byte; so long as \<open>JSON\<close>
  gives back what it wrote and its texts are well formed, and the handler does not throw on any of them.
\<close>

theorem messages_survive_the_wire:
  assumes "\<forall>m \<in> set ms. parse (stringify m) = Some m \<and> well_formed (stringify m)"
    and "\<forall>m \<in> set ms. \<exists>bs. writeMessage stringify m = Some bs"
    and "concat chunks = concat (map (the \<circ> writeMessage stringify) ms)" and "\<forall>k. \<not> throws (take k ms) \<or> k = 0"
  shows "fst (read_chunks parse throws chunks) = map Received ms \<and> held (snd (read_chunks parse throws chunks)) = []"
proof -
  have "until_error (fst (read_chunks parse throws chunks)) = map Received ms"
    using read_chunks_spec [of parse throws chunks] written_frames [OF assms(2)] events_of_texts [OF assms(1), of throws "[]"] assms(3,4) by simp
  moreover have "\<not> failed (map Received ms)" by (auto simp: failed_def list_ex_iff)
  ultimately have ok: "\<not> failed (fst (read_chunks parse throws chunks))" "fst (read_chunks parse throws chunks) = map Received ms"
    using failed_until_error until_error_ok by metis+
  then show ?thesis using read_chunks_spec [of parse throws chunks] written_frames [OF assms(2)] assms(3) by simp
qed

definition sample_stringify :: "bool \<Rightarrow> js_text" where
  "sample_stringify b = (if b then [116, 114, 117, 101] else [102, 97, 108, 115, 101])"

definition sample_parse :: "js_text \<Rightarrow> bool option" where
  "sample_parse t = (if t = [116, 114, 117, 101] then Some True else if t = [102, 97, 108, 115, 101] then Some False else None)"

theorem messages_survive_the_wire_witness:
  "fst (read_chunks sample_parse (\<lambda>_. False) [[0, 0], [0, 4, 116, 114, 117], [101, 0, 0, 0, 5, 102, 97], [], [108, 115, 101]]) = map Received [True, False]"
proof -
  let ?ms = "[True, False]" and ?cs = "[[0, 0], [0, 4, 116, 114, 117], [101, 0, 0, 0, 5, 102, 97], [], [108, 115, 101]] :: nat list list"
  have a: "\<forall>m \<in> set ?ms. sample_parse (sample_stringify m) = Some m \<and> well_formed (sample_stringify m)"
    by (simp add: sample_parse_def sample_stringify_def well_formed_def code_points_plain surrogate_units is_surrogate_point_def)
  have u: "utf8_bytes (sample_stringify True) = [116, 114, 117, 101]" "utf8_bytes (sample_stringify False) = [102, 97, 108, 115, 101]"
    by (simp_all add: utf8_bytes_def sample_stringify_def code_points_plain surrogate_units utf8_point_def is_surrogate_point_def)
  have b: "writeMessage sample_stringify True = Some [0, 0, 0, 4, 116, 114, 117, 101]"
      "writeMessage sample_stringify False = Some [0, 0, 0, 5, 102, 97, 108, 115, 101]"
    by (simp_all add: writeMessage_def u writeUInt32BE_def)
  have c: "concat ?cs = concat (map (the \<circ> writeMessage sample_stringify) ?ms)" by (simp add: b)
  show ?thesis using messages_survive_the_wire [OF a _ c, of "\<lambda>_. False"] b by simp
qed

end
