(* ===== verification/Pending_Questions.thy ===== *)
theory Pending_Questions
  imports Intercom_Inbox "HOL-Library.Multiset"
begin

text \<open>
  The questions the intercom broker has delivered and that wait for their reply (\<^verbatim>\<open>intercom/broker/pending-question-index.ts\<close>),
  with the refusals sent when a child ends (\<^verbatim>\<open>terminal-questions.ts\<close>). A question is live until its reply or until one of
  its sides leaves; those of a child that may come back are parked under its name. The theory compares the two maps of the
  index with two bags of questions and shows that no question gets lost and none is answered twice.
\<close>

section \<open>The index\<close>

record question =
  q_sender :: string
  q_target :: string
  q_message :: string

record parked =
  pk_owner :: string
  pk_questions :: "question list"

record question_index =
  qi_questions :: "(string, question list) jmap"
  qi_parked :: "(string \<times> string, parked) jmap"

definition new_question_index :: question_index where
  "new_question_index = \<lparr>qi_questions = [], qi_parked = []\<rparr>"

text \<open>The key is the JSON text of the pair.\<close>

definition parked_key :: "string \<Rightarrow> string \<Rightarrow> string \<times> string" where
  "parked_key childName ownerSessionId = (ownerSessionId, toLowerCase (trim childName))"

text \<open>
  The loop that moves the questions with \<open>P\<close> out of a map; entries left without questions go. \<open>qs\<close> reads the questions of
  an entry and \<open>put\<close> stores those that remain.
\<close>

fun take_entries :: "(question \<Rightarrow> bool) \<Rightarrow> ('v \<Rightarrow> question list) \<Rightarrow> ('v \<Rightarrow> question list \<Rightarrow> 'v) \<Rightarrow> ('k, 'v) jmap \<Rightarrow> question list \<times> ('k, 'v) jmap" where
  "take_entries P qs put [] = ([], [])"
| "take_entries P qs put ((k, v) # m) =
    (let remaining = filter (\<lambda>q. \<not> P q) (qs v) in
     case take_entries P qs put m of (pending, kept) \<Rightarrow>
       (filter P (qs v) @ pending, if remaining = [] then kept else (k, put v remaining) # kept))"

definition take_live :: "(question \<Rightarrow> bool) \<Rightarrow> question_index \<Rightarrow> question list \<times> question_index" where
  "take_live P idx =
    (case take_entries P (\<lambda>routes. routes) (\<lambda>_ remaining. remaining) (qi_questions idx) of
       (pending, kept) \<Rightarrow> (pending, idx\<lparr>qi_questions := kept\<rparr>))"

definition takeForTarget :: "string \<Rightarrow> question_index \<Rightarrow> question list \<times> question_index" where
  "takeForTarget targetSessionId idx = take_live (\<lambda>q. q_target q = targetSessionId) idx"

definition takeForSender :: "string \<Rightarrow> question_index \<Rightarrow> question list \<times> question_index" where
  "takeForSender senderSessionId idx =
    (let P = (\<lambda>q. q_sender q = senderSessionId) in
     case take_live P idx of (pending, idx1) \<Rightarrow>
     case take_entries P pk_questions (\<lambda>p remaining. p\<lparr>pk_questions := remaining\<rparr>) (qi_parked idx1) of
       (parked, kept) \<Rightarrow> (pending @ parked, idx1\<lparr>qi_parked := kept\<rparr>))"

definition pruneSender :: "string \<Rightarrow> question_index \<Rightarrow> question_index" where
  "pruneSender senderSessionId idx = snd (takeForSender senderSessionId idx)"

definition parkTarget :: "string \<Rightarrow> string \<Rightarrow> string \<Rightarrow> question_index \<Rightarrow> question_index" where
  "parkTarget targetSessionId childName ownerSessionId idx =
    (case takeForTarget targetSessionId idx of (questions, idx1) \<Rightarrow>
       if questions = [] then idx1
       else let key = parked_key childName ownerSessionId in
         case map_get (qi_parked idx1) key of
           Some previous \<Rightarrow> idx1\<lparr>qi_parked := map_set (qi_parked idx1) key (previous\<lparr>pk_questions := pk_questions previous @ questions\<rparr>)\<rparr>
         | None \<Rightarrow> idx1\<lparr>qi_parked := map_set (qi_parked idx1) key \<lparr>pk_owner = ownerSessionId, pk_questions = questions\<rparr>\<rparr>)"

definition takeParked :: "string \<Rightarrow> string \<Rightarrow> question_index \<Rightarrow> question list \<times> question_index" where
  "takeParked childName ownerSessionId idx =
    (let key = parked_key childName ownerSessionId in
     case map_get (qi_parked idx) key of
       None \<Rightarrow> ([], idx)
     | Some parked \<Rightarrow> (pk_questions parked, idx\<lparr>qi_parked := map_delete (qi_parked idx) key\<rparr>))"

definition takeParkedForOwner :: "string \<Rightarrow> question_index \<Rightarrow> question list \<times> question_index" where
  "takeParkedForOwner ownerSessionId idx =
    (let own = (\<lambda>e. pk_owner (snd e) = ownerSessionId) in
     (concat (map (\<lambda>e. pk_questions (snd e)) (filter own (qi_parked idx))),
      idx\<lparr>qi_parked := filter (\<lambda>e. \<not> own e) (qi_parked idx)\<rparr>))"

definition record_question :: "string \<Rightarrow> string \<Rightarrow> string \<Rightarrow> question_index \<Rightarrow> question_index" where
  "record_question senderSessionId targetSessionId messageId idx =
    (let routes = map_get_or (qi_questions idx) messageId [] in
     if list_ex (\<lambda>q. q_sender q = senderSessionId \<and> q_target q = targetSessionId) routes then idx
     else idx\<lparr>qi_questions := map_set (qi_questions idx) messageId
       (routes @ [\<lparr>q_sender = senderSessionId, q_target = targetSessionId, q_message = messageId\<rparr>])\<rparr>)"

definition matchesReply :: "string \<Rightarrow> string \<Rightarrow> string \<Rightarrow> question_index \<Rightarrow> bool" where
  "matchesReply senderSessionId targetSessionId replyTo idx =
    (case map_get (qi_questions idx) replyTo of
       None \<Rightarrow> False
     | Some routes \<Rightarrow> list_ex (\<lambda>q. q_target q = senderSessionId \<and> q_sender q = targetSessionId) routes)"

text \<open>\<open>findIndex\<close> and \<open>splice\<close> remove the first match.\<close>

fun remove_first :: "('a \<Rightarrow> bool) \<Rightarrow> 'a list \<Rightarrow> 'a list" where
  "remove_first P [] = []"
| "remove_first P (x # xs) = (if P x then xs else x # remove_first P xs)"

definition clearReply :: "string \<Rightarrow> string \<Rightarrow> string \<Rightarrow> question_index \<Rightarrow> bool \<times> question_index" where
  "clearReply senderSessionId targetSessionId replyTo idx =
    (let P = (\<lambda>q. q_target q = senderSessionId \<and> q_sender q = targetSessionId) in
     case map_get (qi_questions idx) replyTo of
       None \<Rightarrow> (False, idx)
     | Some routes \<Rightarrow>
         if \<not> list_ex P routes then (False, idx)
         else let remaining = remove_first P routes in
           (True, idx\<lparr>qi_questions := (if remaining = [] then map_delete (qi_questions idx) replyTo
             else map_set (qi_questions idx) replyTo remaining)\<rparr>))"

text \<open>The refusals written when a child ends: one per question whose sender is connected.\<close>

record refusal =
  rf_to :: string
  rf_id :: string
  rf_replyTo :: string

definition failTerminalQuestions :: "string \<Rightarrow> string set \<Rightarrow> question_index \<Rightarrow> refusal list \<times> question_index" where
  "failTerminalQuestions target sessions idx =
    (case takeForTarget target idx of (questions, idx1) \<Rightarrow>
       (map (\<lambda>q. \<lparr>rf_to = q_sender q, rf_id = ''terminal:'' @ q_message q, rf_replyTo = q_message q\<rparr>)
          (filter (\<lambda>q. q_sender q \<in> sessions) questions), idx1))"

section \<open>Histories\<close>

datatype question_op =
    Record string string string
  | ClearReply string string string
  | ParkTarget string string string
  | TakeParked string string
  | TakeParkedForOwner string
  | TakeForSender string
  | TakeForTarget string

text \<open>An operation with the questions it takes out of the index.\<close>

fun question_step :: "question_op \<Rightarrow> question_index \<Rightarrow> question list \<times> question_index" where
  "question_step (Record s t m) idx = ([], record_question s t m idx)"
| "question_step (ClearReply s t r) idx =
    (case clearReply s t r idx of (cleared, idx1) \<Rightarrow> (if cleared then [\<lparr>q_sender = t, q_target = s, q_message = r\<rparr>] else [], idx1))"
| "question_step (ParkTarget t name owner) idx = ([], parkTarget t name owner idx)"
| "question_step (TakeParked name owner) idx = takeParked name owner idx"
| "question_step (TakeParkedForOwner owner) idx = takeParkedForOwner owner idx"
| "question_step (TakeForSender s) idx = takeForSender s idx"
| "question_step (TakeForTarget t) idx = takeForTarget t idx"

section \<open>Two bags of questions\<close>

type_synonym question_bags = "question multiset \<times> ((string \<times> string) \<times> question) multiset"

fun bags_step :: "question_op \<Rightarrow> question_bags \<Rightarrow> question multiset \<times> question_bags" where
  "bags_step (Record s t m) (live, parked) =
    (let q = \<lparr>q_sender = s, q_target = t, q_message = m\<rparr> in ({#}, if q \<in># live then live else add_mset q live, parked))"
| "bags_step (ClearReply s t r) (live, parked) =
    (let q = \<lparr>q_sender = t, q_target = s, q_message = r\<rparr> in (if q \<in># live then {#q#} else {#}, live - {#q#}, parked))"
| "bags_step (ParkTarget t name owner) (live, parked) =
    ({#}, {#q \<in># live. q_target q \<noteq> t#}, parked + {#(parked_key name owner, q). q \<in># {#q \<in># live. q_target q = t#}#})"
| "bags_step (TakeParked name owner) (live, parked) =
    (image_mset snd {#e \<in># parked. fst e = parked_key name owner#}, live, {#e \<in># parked. fst e \<noteq> parked_key name owner#})"
| "bags_step (TakeParkedForOwner owner) (live, parked) =
    (image_mset snd {#e \<in># parked. fst (fst e) = owner#}, live, {#e \<in># parked. fst (fst e) \<noteq> owner#})"
| "bags_step (TakeForSender s) (live, parked) =
    ({#q \<in># live. q_sender q = s#} + image_mset snd {#e \<in># parked. q_sender (snd e) = s#},
     {#q \<in># live. q_sender q \<noteq> s#}, {#e \<in># parked. q_sender (snd e) \<noteq> s#})"
| "bags_step (TakeForTarget t) (live, parked) = ({#q \<in># live. q_target q = t#}, {#q \<in># live. q_target q \<noteq> t#}, parked)"

text \<open>The questions of a map with their keys.\<close>

definition entry_bag :: "('v \<Rightarrow> question list) \<Rightarrow> ('k, 'v) jmap \<Rightarrow> ('k \<times> question) multiset" where
  "entry_bag qs m = mset (concat (map (\<lambda>(k, v). map (Pair k) (qs v)) m))"

definition live_bag :: "question_index \<Rightarrow> question multiset" where
  "live_bag idx = image_mset snd (entry_bag (\<lambda>routes. routes) (qi_questions idx))"

definition parked_bag :: "question_index \<Rightarrow> ((string \<times> string) \<times> question) multiset" where
  "parked_bag idx = entry_bag pk_questions (qi_parked idx)"

definition live_entry :: "string \<times> question list \<Rightarrow> bool" where
  "live_entry e \<longleftrightarrow> snd e \<noteq> [] \<and> distinct (snd e) \<and> (\<forall>q \<in> set (snd e). q_message q = fst e)"

definition parked_entry :: "(string \<times> string) \<times> parked \<Rightarrow> bool" where
  "parked_entry e \<longleftrightarrow> pk_questions (snd e) \<noteq> [] \<and> pk_owner (snd e) = fst (fst e)"

definition index_ok :: "question_index \<Rightarrow> bool" where
  "index_ok idx \<longleftrightarrow> wf_map (qi_questions idx) \<and> wf_map (qi_parked idx) \<and>
    (\<forall>e \<in> set (qi_questions idx). live_entry e) \<and> (\<forall>e \<in> set (qi_parked idx). parked_entry e)"

section \<open>Bags of a map\<close>

lemma entry_bag_simps [simp]:
  "entry_bag qs [] = {#}" "entry_bag qs ((k, v) # m) = {#(k, q). q \<in># mset (qs v)#} + entry_bag qs m"
  by (simp_all add: entry_bag_def)

lemma in_entry_bag: "(k, q) \<in># entry_bag qs m \<longleftrightarrow> (\<exists>v. (k, v) \<in> set m \<and> q \<in> set (qs v))"
  by (induction m) auto

lemma entry_bag_filter: "entry_bag qs (filter (\<lambda>e. P (fst e)) m) = {#e \<in># entry_bag qs m. P (fst e)#}"
  by (induction m) (auto simp: filter_mset_image_mset)

lemma entry_bag_delete: "entry_bag qs (map_delete m k) = {#e \<in># entry_bag qs m. fst e \<noteq> k#}"
  unfolding map_delete_def by (rule entry_bag_filter)

lemma entry_bag_none:
  assumes "k \<notin> fst ` set m"
  shows "{#e \<in># entry_bag qs m. fst e = k#} = {#}" and "{#e \<in># entry_bag qs m. fst e \<noteq> k#} = entry_bag qs m"
proof -
  have no: "fst e \<noteq> k" if "e \<in># entry_bag qs m" for e using assms that in_entry_bag [of "fst e" "snd e" qs m] by force
  show none: "{#e \<in># entry_bag qs m. fst e = k#} = {#}" using no by (simp add: filter_mset_eq_mempty_iff)
  show "{#e \<in># entry_bag qs m. fst e \<noteq> k#} = entry_bag qs m" using multiset_partition [of "entry_bag qs m" "\<lambda>e. fst e \<noteq> k"] none by simp
qed

lemma entry_bag_at:
  "wf_map m \<Longrightarrow> {#e \<in># entry_bag qs m. fst e = k#} = (case map_get m k of None \<Rightarrow> {#} | Some v \<Rightarrow> {#(k, q). q \<in># mset (qs v)#})"
proof (induction m)
  case (Cons e m)
  obtain k' v where e: "e = (k', v)" by force
  have m: "k' \<notin> fst ` set m" "wf_map m" using Cons.prems by (simp_all add: e wf_map_def)
  show ?case
  proof (cases "k' = k")
    case True
    then show ?thesis using entry_bag_none(1) [of k m qs] m by (simp add: e map_get_def filter_mset_image_mset)
  next
    case False
    then show ?thesis using Cons.IH [OF m(2)] by (simp add: e map_get_def filter_mset_image_mset)
  qed
qed simp

lemma entry_bag_set: "wf_map m \<Longrightarrow> entry_bag qs (map_set m k v) = {#e \<in># entry_bag qs m. fst e \<noteq> k#} + {#(k, q). q \<in># mset (qs v)#}"
proof (induction m)
  case (Cons e m)
  obtain k' v' where e: "e = (k', v')" by force
  have m: "k' \<notin> fst ` set m" "wf_map m" using Cons.prems by (simp_all add: e wf_map_def)
  show ?case
  proof (cases "k' = k")
    case True
    then show ?thesis using entry_bag_none(2) [of k m qs] m by (simp add: e filter_mset_image_mset)
  next
    case False
    then show ?thesis using Cons.IH [OF m(2)] by (simp add: e filter_mset_image_mset)
  qed
qed simp

lemma entry_bag_split: "entry_bag qs m = {#e \<in># entry_bag qs m. fst e \<noteq> k#} + {#e \<in># entry_bag qs m. fst e = k#}"
  using multiset_partition [of "entry_bag qs m" "\<lambda>e. fst e \<noteq> k"] by simp

lemma take_entries_spec:
  assumes "take_entries P qs put m = (pending, kept)" and put: "\<And>v r. qs (put v r) = r"
  shows "mset pending = image_mset snd {#e \<in># entry_bag qs m. P (snd e)#}"
    and "entry_bag qs kept = {#e \<in># entry_bag qs m. \<not> P (snd e)#}"
    and "kept = concat (map (\<lambda>(k, u). let r = filter (\<lambda>q. \<not> P q) (qs u) in if r = [] then [] else [(k, put u r)]) m)"
    and "wf_map m \<Longrightarrow> wf_map kept"
proof -
  have "mset pending = image_mset snd {#e \<in># entry_bag qs m. P (snd e)#} \<and> entry_bag qs kept = {#e \<in># entry_bag qs m. \<not> P (snd e)#} \<and>
    kept = concat (map (\<lambda>(k, u). let r = filter (\<lambda>q. \<not> P q) (qs u) in if r = [] then [] else [(k, put u r)]) m)"
    using assms(1)
  proof (induction m arbitrary: pending kept)
    case (Cons e m)
    obtain k v where e: "e = (k, v)" by force
    obtain p' k' where d: "take_entries P qs put m = (p', k')" by force
    let ?r = "filter (\<lambda>q. \<not> P q) (qs v)"
    have pk: "pending = filter P (qs v) @ p'" "kept = (if ?r = [] then k' else (k, put v ?r) # k')"
      using Cons.prems by (simp_all add: e d Let_def split: if_splits)
    note ih = Cons.IH [OF d]
    have bag: "{#(k, q). q \<in># mset ?r#} = {#e \<in># {#(k, q). q \<in># mset (qs v)#}. \<not> P (snd e)#}" by (simp add: filter_mset_image_mset)
    have "entry_bag qs kept = {#(k, q). q \<in># mset ?r#} + entry_bag qs k'" unfolding pk by (cases "?r = []") (simp_all add: put)
    also have "\<dots> = {#e \<in># entry_bag qs ((k, v) # m). \<not> P (snd e)#}" using conjunct1 [OF conjunct2 [OF ih]] unfolding bag by simp
    finally have kept: "entry_bag qs kept = {#e \<in># entry_bag qs ((k, v) # m). \<not> P (snd e)#}" .
    have "mset pending = image_mset snd {#e \<in># entry_bag qs ((k, v) # m). P (snd e)#}"
      using conjunct1 [OF ih] by (simp add: pk filter_mset_image_mset image_mset.compositionality comp_def)
    moreover have "kept = concat (map (\<lambda>(k, u). let r = filter (\<lambda>q. \<not> P q) (qs u) in if r = [] then [] else [(k, put u r)]) ((k, v) # m))"
      using conjunct2 [OF conjunct2 [OF ih]] by (simp add: pk Let_def)
    ultimately show ?case using kept unfolding e by blast
  qed simp
  then show "mset pending = image_mset snd {#e \<in># entry_bag qs m. P (snd e)#}" and "entry_bag qs kept = {#e \<in># entry_bag qs m. \<not> P (snd e)#}"
    and kept: "kept = concat (map (\<lambda>(k, u). let r = filter (\<lambda>q. \<not> P q) (qs u) in if r = [] then [] else [(k, put u r)]) m)"
    by blast+
  have keys: "set (map fst (concat (map (\<lambda>(k, u). let r = f u in if r = [] then [] else [(k, put u r)]) m))) \<subseteq> set (map fst m)" for f m
    by (force simp: Let_def split: if_splits)
  have wf: "wf_map m \<Longrightarrow> wf_map (concat (map (\<lambda>(k, u). let r = f u in if r = [] then [] else [(k, put u r)]) m))" for f m
  proof (induction m)
    case (Cons e m)
    obtain k v where e: "e = (k, v)" by force
    have "k \<notin> set (map fst m)" "wf_map m" using Cons.prems by (simp_all add: e wf_map_def)
    moreover have "k \<notin> set (map fst (concat (map (\<lambda>(k, u). let r = f u in if r = [] then [] else [(k, put u r)]) m)))"
      using keys [of f m] calculation(1) by blast
    ultimately show ?case using Cons.IH unfolding e by (cases "f v = []") (simp_all add: wf_map_def Let_def)
  qed simp
  show "wf_map kept" if "wf_map m" unfolding kept using that by (rule wf)
qed

lemma entry_bag_put:
  "wf_map m \<Longrightarrow> entry_bag qs (map_set m k v) + (case map_get m k of None \<Rightarrow> {#} | Some u \<Rightarrow> {#(k, q). q \<in># mset (qs u)#}) =
    entry_bag qs m + {#(k, q). q \<in># mset (qs v)#}"
proof -
  assume m: "wf_map m"
  let ?A = "{#e \<in># entry_bag qs m. fst e \<noteq> k#}" and ?E = "{#e \<in># entry_bag qs m. fst e = k#}" and ?V = "{#(k, q). q \<in># mset (qs v)#}"
  have "entry_bag qs (map_set m k v) + ?E = ?A + ?V + ?E" using entry_bag_set [OF m] by simp
  also have "\<dots> = (?A + ?E) + ?V" by (simp only: ac_simps)
  also have "\<dots> = entry_bag qs m + ?V" using entry_bag_split [of qs m k] by simp
  finally show ?thesis using entry_bag_at [OF m, of k qs] by simp
qed

lemma entry_bag_concat: "mset (concat (map (\<lambda>e. qs (snd e)) m)) = image_mset snd (entry_bag qs m)"
  by (induction m) (auto simp: image_mset.compositionality comp_def)

section \<open>The operations on the bags\<close>

lemma index_okD:
  assumes "index_ok idx"
  shows "wf_map (qi_questions idx)" "wf_map (qi_parked idx)"
    "(m, routes) \<in> set (qi_questions idx) \<Longrightarrow> routes \<noteq> []" "(m, routes) \<in> set (qi_questions idx) \<Longrightarrow> distinct routes"
    "(m, routes) \<in> set (qi_questions idx) \<Longrightarrow> q \<in> set routes \<Longrightarrow> q_message q = m"
    "(k, p) \<in> set (qi_parked idx) \<Longrightarrow> pk_questions p \<noteq> []" "(k, p) \<in> set (qi_parked idx) \<Longrightarrow> pk_owner p = fst k"
  using assms by (auto simp: index_ok_def live_entry_def parked_entry_def)

lemma in_live:
  assumes "index_ok idx"
  shows "q \<in># live_bag idx \<longleftrightarrow> q \<in> set (map_get_or (qi_questions idx) (q_message q) [])"
proof -
  have "q \<in># live_bag idx \<longleftrightarrow> (\<exists>m routes. (m, routes) \<in> set (qi_questions idx) \<and> q \<in> set routes)"
    unfolding live_bag_def set_image_mset by (auto simp: image_iff in_entry_bag Bex_def)
  also have "\<dots> \<longleftrightarrow> (\<exists>routes. map_get (qi_questions idx) (q_message q) = Some routes \<and> q \<in> set routes)"
    using index_okD(1,5) [OF assms] by (metis map_get_eq_in_set)
  finally show ?thesis by (auto simp: map_get_or_def split: option.splits)
qed

text \<open>The routes of one message: the condition of the code singles out one question.\<close>

lemma route_of:
  assumes "index_ok idx"
  shows "list_ex (\<lambda>q. q_sender q = s \<and> q_target q = t) (map_get_or (qi_questions idx) m []) \<longleftrightarrow>
    \<lparr>q_sender = s, q_target = t, q_message = m\<rparr> \<in># live_bag idx"
    and "q \<in> set (map_get_or (qi_questions idx) m []) \<Longrightarrow> q_sender q = s \<and> q_target q = t \<longleftrightarrow> q = \<lparr>q_sender = s, q_target = t, q_message = m\<rparr>"
proof -
  have m: "q_message q = m" if "q \<in> set (map_get_or (qi_questions idx) m [])" for q
    using that index_okD(5) [OF assms map_get_Some_in_set] by (cases "map_get (qi_questions idx) m") (auto simp: map_get_or_def)
  show one: "q_sender q = s \<and> q_target q = t \<longleftrightarrow> q = \<lparr>q_sender = s, q_target = t, q_message = m\<rparr>"
    if "q \<in> set (map_get_or (qi_questions idx) m [])" for q
    using m [OF that] by (cases q) auto
  show "list_ex (\<lambda>q. q_sender q = s \<and> q_target q = t) (map_get_or (qi_questions idx) m []) \<longleftrightarrow>
    \<lparr>q_sender = s, q_target = t, q_message = m\<rparr> \<in># live_bag idx"
    unfolding in_live [OF assms] list_ex_iff using one by auto
qed

lemma live_set:
  assumes "wf_map (qi_questions idx)"
  shows "live_bag (idx\<lparr>qi_questions := map_set (qi_questions idx) k routes\<rparr>) + mset (map_get_or (qi_questions idx) k []) =
    live_bag idx + mset routes"
    and "live_bag (idx\<lparr>qi_questions := map_delete (qi_questions idx) k\<rparr>) + mset (map_get_or (qi_questions idx) k []) = live_bag idx"
proof -
  let ?m = "qi_questions idx" and ?id = "\<lambda>r :: question list. r"
  have at: "image_mset snd (case map_get ?m k of None \<Rightarrow> {#} | Some u \<Rightarrow> {#(k, q). q \<in># mset u#}) = mset (map_get_or ?m k [])"
    by (auto simp: map_get_or_def image_mset.compositionality comp_def split: option.splits)
  have "image_mset snd (entry_bag ?id (map_set ?m k routes)) + mset (map_get_or ?m k []) = image_mset snd (entry_bag ?id ?m) + mset routes"
    using arg_cong [OF entry_bag_put [OF assms, of ?id k routes], of "image_mset snd"] at by (simp add: image_mset.compositionality comp_def)
  then show "live_bag (idx\<lparr>qi_questions := map_set (qi_questions idx) k routes\<rparr>) + mset (map_get_or (qi_questions idx) k []) = live_bag idx + mset routes"
    by (simp add: live_bag_def)
  have "image_mset snd (entry_bag ?id (map_delete ?m k)) + mset (map_get_or ?m k []) = image_mset snd (entry_bag ?id ?m)"
    using arg_cong [OF entry_bag_split [of ?id ?m k], of "image_mset snd"] at entry_bag_at [OF assms, of k ?id] by (simp add: entry_bag_delete)
  then show "live_bag (idx\<lparr>qi_questions := map_delete (qi_questions idx) k\<rparr>) + mset (map_get_or (qi_questions idx) k []) = live_bag idx"
    by (simp add: live_bag_def)
qed

lemma index_ok_routes:
  assumes "index_ok idx" and "routes \<noteq> []" and "distinct routes" and "\<forall>q \<in> set routes. q_message q = k"
  shows "index_ok (idx\<lparr>qi_questions := map_set (qi_questions idx) k routes\<rparr>)"
proof -
  have "live_entry (k, routes)" using assms(2-4) by (simp add: live_entry_def)
  then show ?thesis using assms(1) set_map_set_subset [of "qi_questions idx" k routes] unfolding index_ok_def by auto
qed

lemma index_ok_delete: "index_ok idx \<Longrightarrow> index_ok (idx\<lparr>qi_questions := map_delete (qi_questions idx) k\<rparr>)"
  unfolding index_ok_def by (auto simp: in_set_map_delete)

lemma routes_ok:
  assumes "index_ok idx"
  shows "distinct (map_get_or (qi_questions idx) m [])" and "\<forall>q \<in> set (map_get_or (qi_questions idx) m []). q_message q = m"
  using index_okD(4,5) [OF assms map_get_Some_in_set, of m] by (cases "map_get (qi_questions idx) m"; simp add: map_get_or_def)+

lemma record_bags:
  assumes "index_ok idx"
  shows "index_ok (record_question s t m idx)" and "parked_bag (record_question s t m idx) = parked_bag idx"
    and "live_bag (record_question s t m idx) = (let q = \<lparr>q_sender = s, q_target = t, q_message = m\<rparr> in if q \<in># live_bag idx then live_bag idx else add_mset q (live_bag idx))"
proof -
  let ?q = "\<lparr>q_sender = s, q_target = t, q_message = m\<rparr>" and ?routes = "map_get_or (qi_questions idx) m []"
  have "index_ok (record_question s t m idx) \<and> parked_bag (record_question s t m idx) = parked_bag idx \<and>
    live_bag (record_question s t m idx) = (if ?q \<in># live_bag idx then live_bag idx else add_mset ?q (live_bag idx))"
  proof (cases "?q \<in># live_bag idx")
    case True
    then show ?thesis using assms route_of(1) [OF assms] by (simp add: record_question_def)
  next
    case False
    then have r: "record_question s t m idx = idx\<lparr>qi_questions := map_set (qi_questions idx) m (?routes @ [?q])\<rparr>"
      using route_of(1) [OF assms] by (simp add: record_question_def Let_def)
    have "?q \<notin> set ?routes" using False in_live [OF assms, of ?q] by simp
    then have "index_ok (record_question s t m idx)" unfolding r using routes_ok [OF assms, of m] by (intro index_ok_routes [OF assms]) auto
    moreover have "live_bag (record_question s t m idx) = add_mset ?q (live_bag idx)"
      using live_set(1) [OF index_okD(1) [OF assms], of m "?routes @ [?q]"] unfolding r by simp
    ultimately show ?thesis using False by (simp add: r parked_bag_def)
  qed
  then show "index_ok (record_question s t m idx)" "parked_bag (record_question s t m idx) = parked_bag idx"
    "live_bag (record_question s t m idx) = (let q = \<lparr>q_sender = s, q_target = t, q_message = m\<rparr> in if q \<in># live_bag idx then live_bag idx else add_mset q (live_bag idx))"
    by simp_all
qed

lemma remove_first_mset:
  "x \<in> set xs \<Longrightarrow> (\<And>y. y \<in> set xs \<Longrightarrow> P y \<longleftrightarrow> y = x) \<Longrightarrow> mset (remove_first P xs) = mset xs - {#x#} \<and> set (remove_first P xs) \<subseteq> set xs \<and>
    (distinct xs \<longrightarrow> distinct (remove_first P xs))"
proof (induction xs)
  case (Cons y xs)
  show ?case
  proof (cases "y = x")
    case False
    then have "x \<in> set xs" "\<not> P y" using Cons.prems by auto
    moreover have "mset (remove_first P xs) = mset xs - {#x#} \<and> set (remove_first P xs) \<subseteq> set xs \<and> (distinct xs \<longrightarrow> distinct (remove_first P xs))"
      using Cons.IH [OF calculation(1)] Cons.prems(2) by simp
    ultimately show ?thesis using False by auto
  qed (use Cons.prems(2) in auto)
qed simp

lemma clear_bags:
  assumes "index_ok idx" and "clearReply s t r idx = (cleared, idx')"
  shows "cleared \<longleftrightarrow> \<lparr>q_sender = t, q_target = s, q_message = r\<rparr> \<in># live_bag idx" and "index_ok idx'" and "parked_bag idx' = parked_bag idx"
    and "live_bag idx' = live_bag idx - {#\<lparr>q_sender = t, q_target = s, q_message = r\<rparr>#}"
proof -
  let ?q = "\<lparr>q_sender = t, q_target = s, q_message = r\<rparr>" and ?routes = "map_get_or (qi_questions idx) r []"
  let ?P = "\<lambda>q. q_target q = s \<and> q_sender q = t" and ?m = "qi_questions idx"
  have P: "?P q \<longleftrightarrow> q = ?q" if "q \<in> set ?routes" for q using route_of(2) [OF assms(1) that, of t s] by blast
  have ex: "list_ex ?P ?routes \<longleftrightarrow> ?q \<in># live_bag idx" using route_of(1) [OF assms(1), of t s r] by (simp add: conj_commute)
  have c: "clearReply s t r idx = (if \<not> list_ex ?P ?routes then (False, idx)
      else (True, idx\<lparr>qi_questions := (if remove_first ?P ?routes = [] then map_delete ?m r else map_set ?m r (remove_first ?P ?routes))\<rparr>))"
    by (cases "map_get ?m r") (simp_all add: clearReply_def map_get_or_def Let_def)
  have "(cleared \<longleftrightarrow> ?q \<in># live_bag idx) \<and> index_ok idx' \<and> parked_bag idx' = parked_bag idx \<and> live_bag idx' = live_bag idx - {#?q#}"
  proof (cases "?q \<in># live_bag idx")
    case False
    then show ?thesis using assms c ex by (simp add: diff_single_trivial)
  next
    case True
    then have q: "?q \<in> set ?routes" using in_live [OF assms(1), of ?q] by simp
    let ?rest = "remove_first ?P ?routes"
    have rest: "mset ?rest = mset ?routes - {#?q#}" "set ?rest \<subseteq> set ?routes" "distinct ?rest"
      using remove_first_mset [OF q P] routes_ok(1) [OF assms(1), of r] by auto
    have idx': "cleared" "idx' = idx\<lparr>qi_questions := (if ?rest = [] then map_delete ?m r else map_set ?m r ?rest)\<rparr>"
      using assms(2) c ex True by auto
    have ok: "index_ok idx'"
      unfolding idx'(2) using index_ok_delete [OF assms(1)] index_ok_routes [OF assms(1) _ rest(3), of r] rest(2) routes_ok(2) [OF assms(1), of r] by auto
    have "live_bag idx' + mset ?routes = live_bag idx + mset ?rest"
      using live_set [OF index_okD(1) [OF assms(1)], of r] by (cases "?rest = []") (simp_all add: idx'(2))
    then have "live_bag idx' + mset ?routes = live_bag idx + (mset ?routes - {#?q#})" using rest(1) by simp
    moreover have "live_bag idx + (mset ?routes - {#?q#}) = (live_bag idx - {#?q#}) + mset ?routes" using True q by simp
    ultimately have "live_bag idx' = live_bag idx - {#?q#}" by simp
    then show ?thesis using ok idx' True by (simp add: parked_bag_def)
  qed
  then show "cleared \<longleftrightarrow> ?q \<in># live_bag idx" "index_ok idx'" "parked_bag idx' = parked_bag idx" "live_bag idx' = live_bag idx - {#?q#}" by blast+
qed

lemma snd_filter: "image_mset snd {#e \<in># B. P (snd e)#} = {#q \<in># image_mset snd B. P q#}"
  by (simp add: filter_mset_image_mset)

lemma take_live_bags:
  assumes "index_ok idx" and "take_live P idx = (pending, idx')"
  shows "mset pending = {#q \<in># live_bag idx. P q#}" and "live_bag idx' = {#q \<in># live_bag idx. \<not> P q#}"
    and "qi_parked idx' = qi_parked idx" and "index_ok idx'"
proof -
  obtain kept where d: "take_entries P (\<lambda>routes. routes) (\<lambda>_ remaining. remaining) (qi_questions idx) = (pending, kept)"
      and idx': "idx' = idx\<lparr>qi_questions := kept\<rparr>"
    using assms(2) by (auto simp: take_live_def split: prod.splits)
  note t = take_entries_spec [OF d refl]
  show "mset pending = {#q \<in># live_bag idx. P q#}" using t(1) snd_filter [of P] by (simp add: live_bag_def)
  show "live_bag idx' = {#q \<in># live_bag idx. \<not> P q#}" using t(2) snd_filter [of "\<lambda>q. \<not> P q"] by (simp add: live_bag_def idx')
  show "qi_parked idx' = qi_parked idx" by (simp add: idx')
  have "live_entry e" if e: "e \<in> set kept" for e
  proof -
    obtain k u where ku: "(k, u) \<in> set (qi_questions idx)" "filter (\<lambda>q. \<not> P q) u \<noteq> []" "e = (k, filter (\<lambda>q. \<not> P q) u)"
      using e unfolding t(3) by (auto simp: Let_def split: if_splits)
    then show ?thesis using index_okD(4,5) [OF assms(1) ku(1)] by (auto simp: live_entry_def)
  qed
  then show "index_ok idx'" using assms(1) t(4) by (simp add: index_ok_def idx')
qed

lemma take_sender_bags:
  assumes "index_ok idx" and "takeForSender s idx = (out, idx')"
  shows "mset out = {#q \<in># live_bag idx. q_sender q = s#} + image_mset snd {#e \<in># parked_bag idx. q_sender (snd e) = s#}"
    and "live_bag idx' = {#q \<in># live_bag idx. q_sender q \<noteq> s#}" and "parked_bag idx' = {#e \<in># parked_bag idx. q_sender (snd e) \<noteq> s#}" and "index_ok idx'"
proof -
  let ?P = "\<lambda>q. q_sender q = s"
  obtain pending idx1 where d: "take_live ?P idx = (pending, idx1)" by force
  note live = take_live_bags [OF assms(1) d]
  obtain parked kept where e: "take_entries ?P pk_questions (\<lambda>p remaining. p\<lparr>pk_questions := remaining\<rparr>) (qi_parked idx) = (parked, kept)" by force
  have out: "out = pending @ parked" "idx' = idx1\<lparr>qi_parked := kept\<rparr>" using assms(2) d e live(3) by (simp_all add: takeForSender_def)
  have put: "pk_questions (p\<lparr>pk_questions := r\<rparr>) = r" for p r by simp
  note t = take_entries_spec [OF e put]
  show "mset out = {#q \<in># live_bag idx. q_sender q = s#} + image_mset snd {#e \<in># parked_bag idx. q_sender (snd e) = s#}"
    using live(1) t(1) by (simp add: out parked_bag_def)
  show "live_bag idx' = {#q \<in># live_bag idx. q_sender q \<noteq> s#}" using live(2) by (simp add: out live_bag_def)
  show "parked_bag idx' = {#e \<in># parked_bag idx. q_sender (snd e) \<noteq> s#}" using t(2) by (simp add: out parked_bag_def)
  have "parked_entry x" if x: "x \<in> set kept" for x
  proof -
    obtain k u where "(k, u) \<in> set (qi_parked idx)" "filter (\<lambda>q. \<not> ?P q) (pk_questions u) \<noteq> []"
        "x = (k, u\<lparr>pk_questions := filter (\<lambda>q. \<not> ?P q) (pk_questions u)\<rparr>)"
      using x unfolding t(3) by (auto simp: Let_def split: if_splits)
    then show ?thesis using index_okD(7) [OF assms(1)] by (simp add: parked_entry_def)
  qed
  then show "index_ok idx'" using live(4) t(4) live(3) by (simp add: index_ok_def out)
qed

lemma park_bags:
  assumes "index_ok idx"
  shows "live_bag (parkTarget t name owner idx) = {#q \<in># live_bag idx. q_target q \<noteq> t#}" and "index_ok (parkTarget t name owner idx)"
    and "parked_bag (parkTarget t name owner idx) = parked_bag idx + {#(parked_key name owner, q). q \<in># {#q \<in># live_bag idx. q_target q = t#}#}"
proof -
  let ?key = "parked_key name owner"
  obtain qs idx1 where d: "takeForTarget t idx = (qs, idx1)" by force
  note live = take_live_bags [OF assms d [unfolded takeForTarget_def]]
  have wf: "wf_map (qi_parked idx1)" using index_okD(2) [OF live(4)] .
  define v where "v = (case map_get (qi_parked idx1) ?key of Some p \<Rightarrow> p\<lparr>pk_questions := pk_questions p @ qs\<rparr> | None \<Rightarrow> \<lparr>pk_owner = owner, pk_questions = qs\<rparr>)"
  have idx': "parkTarget t name owner idx = (if qs = [] then idx1 else idx1\<lparr>qi_parked := map_set (qi_parked idx1) ?key v\<rparr>)"
    by (simp add: parkTarget_def d v_def Let_def split: option.splits)
  show "live_bag (parkTarget t name owner idx) = {#q \<in># live_bag idx. q_target q \<noteq> t#}" using live(2) by (simp add: idx' live_bag_def)
  have "parked_entry (?key, v)" if "qs \<noteq> []"
    using that index_okD(7) [OF live(4) map_get_Some_in_set] by (auto simp: parked_entry_def v_def parked_key_def split: option.splits)
  then show "index_ok (parkTarget t name owner idx)"
    using live(4) set_map_set_subset [of "qi_parked idx1" ?key v] by (auto simp: index_ok_def idx')
  have "entry_bag pk_questions (map_set (qi_parked idx1) ?key v) = entry_bag pk_questions (qi_parked idx1) + {#(?key, q). q \<in># mset qs#}"
    using entry_bag_put [OF wf, of pk_questions ?key v] by (cases "map_get (qi_parked idx1) ?key") (simp_all add: v_def)
  then show "parked_bag (parkTarget t name owner idx) = parked_bag idx + {#(?key, q). q \<in># {#q \<in># live_bag idx. q_target q = t#}#}"
    using live(1,3) by (cases "qs = []") (simp_all add: idx' parked_bag_def)
qed

lemma parked_bags:
  assumes "index_ok idx"
  shows "takeParked name owner idx = (out, idx') \<Longrightarrow> mset out = image_mset snd {#e \<in># parked_bag idx. fst e = parked_key name owner#} \<and>
      live_bag idx' = live_bag idx \<and> parked_bag idx' = {#e \<in># parked_bag idx. fst e \<noteq> parked_key name owner#} \<and> index_ok idx'"
    and "takeParkedForOwner owner idx = (out, idx') \<Longrightarrow> mset out = image_mset snd {#e \<in># parked_bag idx. fst (fst e) = owner#} \<and>
      live_bag idx' = live_bag idx \<and> parked_bag idx' = {#e \<in># parked_bag idx. fst (fst e) \<noteq> owner#} \<and> index_ok idx'"
proof -
  let ?m = "qi_parked idx" and ?key = "parked_key name owner"
  have wf: "wf_map ?m" using index_okD(2) [OF assms] .
  show "mset out = image_mset snd {#e \<in># parked_bag idx. fst e = ?key#} \<and>
      live_bag idx' = live_bag idx \<and> parked_bag idx' = {#e \<in># parked_bag idx. fst e \<noteq> ?key#} \<and> index_ok idx'"
    if t: "takeParked name owner idx = (out, idx')"
  proof (cases "map_get ?m ?key")
    case None
    then have "?key \<notin> fst ` set ?m" by (simp add: map_get_None_iff)
    then show ?thesis using t None assms entry_bag_none [of ?key ?m pk_questions] by (auto simp: takeParked_def parked_bag_def)
  next
    case (Some p)
    have "index_ok (idx\<lparr>qi_parked := map_delete ?m ?key\<rparr>)" using assms by (auto simp: index_ok_def in_set_map_delete)
    then show ?thesis using t Some entry_bag_at [OF wf, of ?key pk_questions] entry_bag_delete [of pk_questions ?m ?key]
      by (auto simp: takeParked_def parked_bag_def live_bag_def image_mset.compositionality comp_def)
  qed
  show "mset out = image_mset snd {#e \<in># parked_bag idx. fst (fst e) = owner#} \<and>
      live_bag idx' = live_bag idx \<and> parked_bag idx' = {#e \<in># parked_bag idx. fst (fst e) \<noteq> owner#} \<and> index_ok idx'"
    if t: "takeParkedForOwner owner idx = (out, idx')"
  proof -
    have own: "pk_owner (snd e) = fst (fst e)" if "e \<in> set ?m" for e using assms that by (simp add: index_ok_def parked_entry_def)
    have f: "filter (\<lambda>e. pk_owner (snd e) = owner) ?m = filter (\<lambda>e. fst (fst e) = owner) ?m"
        "filter (\<lambda>e. pk_owner (snd e) \<noteq> owner) ?m = filter (\<lambda>e. fst (fst e) \<noteq> owner) ?m"
      using own by (auto intro!: filter_cong)
    have out: "out = concat (map (\<lambda>e. pk_questions (snd e)) (filter (\<lambda>e. fst (fst e) = owner) ?m))"
        "idx' = idx\<lparr>qi_parked := filter (\<lambda>e. fst (fst e) \<noteq> owner) ?m\<rparr>"
      using t by (simp_all add: takeParkedForOwner_def f)
    have "wf_map (filter (\<lambda>e. fst (fst e) \<noteq> owner) ?m)" using wf by (simp add: wf_map_def distinct_map_filter)
    then have "index_ok idx'" using assms by (auto simp: index_ok_def out)
    then show ?thesis
      using entry_bag_concat [of pk_questions "filter (\<lambda>e. fst (fst e) = owner) ?m"]
        entry_bag_filter [of pk_questions "\<lambda>k. fst k = owner" ?m] entry_bag_filter [of pk_questions "\<lambda>k. fst k \<noteq> owner" ?m]
      by (simp add: out parked_bag_def live_bag_def)
  qed
qed

section \<open>Properties\<close>

lemma question_step_bags:
  assumes "index_ok idx" and "question_step op idx = (out, idx')"
  shows "index_ok idx' \<and> bags_step op (live_bag idx, parked_bag idx) = (mset out, live_bag idx', parked_bag idx')"
proof (cases op)
  case (Record s t m)
  then show ?thesis using assms record_bags [OF assms(1), of s t m] by (auto simp: Let_def)
next
  case (ClearReply s t r)
  obtain cleared idx1 where d: "clearReply s t r idx = (cleared, idx1)" by force
  then show ?thesis using assms ClearReply clear_bags [OF assms(1) d] by (auto simp: Let_def)
next
  case (ParkTarget t name owner)
  then show ?thesis using assms park_bags [OF assms(1), of t name owner] by auto
next
  case (TakeParked name owner)
  then show ?thesis using assms parked_bags(1) [OF assms(1)] by auto
next
  case (TakeParkedForOwner owner)
  then show ?thesis using assms parked_bags(2) [OF assms(1)] by auto
next
  case (TakeForSender s)
  then show ?thesis using assms take_sender_bags [OF assms(1)] by auto
next
  case (TakeForTarget t)
  then have "take_live (\<lambda>q. q_target q = t) idx = (out, idx')" using assms(2) by (simp add: takeForTarget_def)
  then show ?thesis using TakeForTarget take_live_bags [OF assms(1)] by (simp add: parked_bag_def)
qed

text \<open>A history: the questions admitted, those taken out, and the index. A question is admitted when it is not live.\<close>

fun admitted :: "question_op \<Rightarrow> question_index \<Rightarrow> question list" where
  "admitted (Record s t m) idx = (if matchesReply t s m idx then [] else [\<lparr>q_sender = s, q_target = t, q_message = m\<rparr>])"
| "admitted _ idx = []"

definition history_step :: "question list \<times> question list \<times> question_index \<Rightarrow> question_op \<Rightarrow> question list \<times> question list \<times> question_index" where
  "history_step h op = (case h of (asked, taken, idx) \<Rightarrow> case question_step op idx of (out, idx1) \<Rightarrow> (asked @ admitted op idx, taken @ out, idx1))"

definition new_history :: "question list \<times> question list \<times> question_index" where
  "new_history = ([], [], new_question_index)"

definition history_ok :: "question list \<times> question list \<times> question_index \<Rightarrow> bool" where
  "history_ok h \<longleftrightarrow> (case h of (asked, taken, idx) \<Rightarrow>
    index_ok idx \<and> mset asked = mset taken + live_bag idx + image_mset snd (parked_bag idx))"

lemma matches_live:
  assumes "index_ok idx"
  shows "matchesReply s t r idx \<longleftrightarrow> \<lparr>q_sender = t, q_target = s, q_message = r\<rparr> \<in># live_bag idx"
  using route_of(1) [OF assms, of t s r] by (cases "map_get (qi_questions idx) r") (simp_all add: matchesReply_def map_get_or_def conj_commute)

lemma partition_bag: "{#q \<in># A. P q#} + {#q \<in># A. \<not> P q#} = A" for A :: "'a multiset"
  using multiset_partition [of A P] by simp

text \<open>What an operation takes out and what it leaves are what there was, and what it admits.\<close>

lemma question_step_balance:
  assumes ok: "index_ok idx" and step: "question_step op idx = (out, idx')"
  shows "mset out + live_bag idx' + image_mset snd (parked_bag idx') = mset (admitted op idx) + live_bag idx + image_mset snd (parked_bag idx)"
proof -
  note b = conjunct2 [OF question_step_bags [OF assms]]
  have halves: "image_mset snd {#e \<in># parked_bag idx. P e#} + image_mset snd {#e \<in># parked_bag idx. \<not> P e#} = image_mset snd (parked_bag idx)" for P
    by (simp only: image_mset_union [symmetric] partition_bag)
  show ?thesis
  proof (cases op)
    case (Record s t m)
    then show ?thesis using b matches_live [OF ok, of t s m] by (auto simp: Let_def split: if_splits)
  next
    case (ClearReply s t r)
    then show ?thesis using b insert_DiffM [of _ "live_bag idx"] by (fastforce simp: Let_def diff_single_trivial split: if_splits)
  next
    case (ParkTarget t name owner)
    let ?L = "{#q \<in># live_bag idx. q_target q = t#}" and ?R = "{#q \<in># live_bag idx. \<not> q_target q = t#}"
    have e: "mset out = {#}" "live_bag idx' = ?R" "parked_bag idx' = parked_bag idx + {#(parked_key name owner, q). q \<in># ?L#}"
      using b by (simp_all add: ParkTarget)
    have "mset out + live_bag idx' + image_mset snd (parked_bag idx') = (?L + ?R) + image_mset snd (parked_bag idx)"
      unfolding e by (simp add: image_mset.compositionality comp_def del: multiset_partition)
    then show ?thesis unfolding partition_bag by (simp add: ParkTarget)
  next
    case (TakeParked name owner)
    then show ?thesis using b halves [of "\<lambda>e. fst e = parked_key name owner"] by (auto simp: ac_simps)
  next
    case (TakeParkedForOwner owner)
    then show ?thesis using b halves [of "\<lambda>e. fst (fst e) = owner"] by (auto simp: ac_simps)
  next
    case (TakeForSender s)
    let ?L = "{#q \<in># live_bag idx. q_sender q = s#}" and ?R = "{#q \<in># live_bag idx. \<not> q_sender q = s#}"
    let ?K = "{#e \<in># parked_bag idx. q_sender (snd e) = s#}" and ?M = "{#e \<in># parked_bag idx. \<not> q_sender (snd e) = s#}"
    have "mset out = ?L + image_mset snd ?K" "live_bag idx' = ?R" "parked_bag idx' = ?M" using b by (simp_all add: TakeForSender)
    then have "mset out + live_bag idx' + image_mset snd (parked_bag idx') = (?L + ?R) + (image_mset snd ?K + image_mset snd ?M)" by (simp only: ac_simps)
    then show ?thesis unfolding partition_bag halves by (simp add: TakeForSender)
  next
    case (TakeForTarget t)
    then show ?thesis using b partition_bag [of "\<lambda>q. q_target q = t" "live_bag idx"] by (auto simp: ac_simps)
  qed
qed

interpretation question_history: step_system history_step new_history history_ok
proof
  show "history_ok new_history" by (simp add: history_ok_def new_history_def index_ok_def new_question_index_def live_bag_def parked_bag_def)
next
  fix h op
  assume h: "history_ok h"
  obtain asked taken idx where e: "h = (asked, taken, idx)" by (cases h)
  obtain out idx1 where d: "question_step op idx = (out, idx1)" by force
  have ok: "index_ok idx" "mset asked = mset taken + live_bag idx + image_mset snd (parked_bag idx)" using h by (simp_all add: history_ok_def e)
  have "mset (asked @ admitted op idx) = mset (taken @ out) + live_bag idx1 + image_mset snd (parked_bag idx1)"
    using ok(2) question_step_balance [OF ok(1) d] by (simp add: ac_simps)
  then show "history_ok (history_step h op)" using question_step_bags [OF ok(1) d] by (simp add: history_ok_def history_step_def e d)
qed

lemma live_once:
  assumes "index_ok idx"
  shows "count (live_bag idx) q \<le> 1"
proof -
  have "count (image_mset snd (entry_bag (\<lambda>r. r) m)) q \<le> 1" if "wf_map m" "\<forall>e \<in> set m. live_entry e" for m
    using that
  proof (induction m)
    case (Cons e m)
    obtain k r where e: "e = (k, r)" by force
    have "live_entry (k, r)" "wf_map m" "k \<notin> fst ` set m" using Cons.prems by (simp_all add: e wf_map_def)
    then have r: "count (mset r) q \<le> 1" "q \<in> set r \<Longrightarrow> q_message q = k" by (auto simp: live_entry_def distinct_count_atmost_1)
    have "count (image_mset snd (entry_bag (\<lambda>r. r) m)) q = 0" if q: "q \<in> set r"
    proof -
      have "q \<notin># image_mset snd (entry_bag (\<lambda>r. r) m)"
      proof
        assume "q \<in># image_mset snd (entry_bag (\<lambda>r. r) m)"
        then obtain k' r' where "(k', r') \<in> set m" "q \<in> set r'" by (auto simp: in_entry_bag)
        moreover have "q_message q = k'" using calculation Cons.prems(2) by (auto simp: live_entry_def)
        ultimately show False using r(2) [OF q] \<open>k \<notin> fst ` set m\<close> by force
      qed
      then show ?thesis by (simp only: not_in_iff)
    qed
    moreover have "count (mset r) q = 0" if "q \<notin> set r" using that by (metis not_in_iff set_mset_mset)
    moreover have "count (image_mset snd (entry_bag (\<lambda>r. r) m)) q \<le> 1" using Cons.IH Cons.prems(2) \<open>wf_map m\<close> by simp
    ultimately have "count (mset r) q + count (image_mset snd (entry_bag (\<lambda>r. r) m)) q \<le> 1" using r(1) by linarith
    then show ?case by (simp add: e image_mset.compositionality comp_def)
  qed simp
  then show ?thesis using assms by (simp add: index_ok_def live_bag_def)
qed

text \<open>
  Each operation of the index is the operation on two bags, one of live and one of parked questions: it takes out the same
  questions and leaves the same bags, and keeps the index well formed.
\<close>

theorem question_index_refines_bags:
  assumes "index_ok idx" and "question_step op idx = (out, idx')"
  shows "index_ok idx' \<and> bags_step op (live_bag idx, parked_bag idx) = (mset out, live_bag idx', parked_bag idx')"
  using question_step_bags [OF assms] .

theorem question_index_refines_bags_witness:
  "bags_step (TakeForSender ''a'') (live_bag (record_question ''a'' ''b'' ''m'' new_question_index), parked_bag (record_question ''a'' ''b'' ''m'' new_question_index)) =
    (mset [\<lparr>q_sender = ''a'', q_target = ''b'', q_message = ''m''\<rparr>], live_bag new_question_index, parked_bag new_question_index)"
proof -
  have "index_ok new_question_index" by (simp add: index_ok_def new_question_index_def)
  then have ok: "index_ok (record_question ''a'' ''b'' ''m'' new_question_index)" by (rule record_bags)
  have "question_step (TakeForSender ''a'') (record_question ''a'' ''b'' ''m'' new_question_index) = ([\<lparr>q_sender = ''a'', q_target = ''b'', q_message = ''m''\<rparr>], new_question_index)"
    by code_simp
  then show ?thesis using question_index_refines_bags [OF ok] by blast
qed

text \<open>
  C14. No question gets lost and none is answered twice. After any history of operations, the questions admitted are exactly those
  taken out by replies, departures and returns, those live and those parked; a reply is authorised just for the reverse of a
  live question, which is live once.
\<close>

theorem questions_accounted:
  "case foldl history_step new_history ops of (asked, taken, idx) \<Rightarrow>
    mset asked = mset taken + live_bag idx + image_mset snd (parked_bag idx) \<and>
    (\<forall>s t r. matchesReply s t r idx \<longleftrightarrow> \<lparr>q_sender = t, q_target = s, q_message = r\<rparr> \<in># live_bag idx) \<and>
    (\<forall>q. count (live_bag idx) q \<le> 1)"
proof -
  obtain asked taken idx where e: "foldl history_step new_history ops = (asked, taken, idx)" by (rule prod_cases3)
  have "history_ok (asked, taken, idx)" using question_history.inv_run [of ops] e by simp
  then show ?thesis using matches_live live_once by (simp add: e history_ok_def)
qed

end
