(* ===== verification/Pending_Sends.thy ===== *)
theory Pending_Sends
  imports Prelude
begin

text \<open>
  The sends an intercom client waits for (\<^verbatim>\<open>intercom/broker/pending-send-registry.ts\<close>). A send with the id of a pending one
  joins it; an attempt ends by the acknowledgement of the broker, by its timer or by a rejection. Acknowledgements of old
  brokers do not name the attempt, so they count only for an attempt of generation 1: one for whose id the registry, which
  remembers for a while how many attempts an id has had, remembered none. Attempts are objects the code shares by reference: here positions in a list.
  The clock, the random ids of attempts and the firing of timers are arguments.
\<close>

section \<open>The registry\<close>

datatype 'r outcome = Resolved 'r | SendTimeout | RejectedWith string

record 'r send_attempt =
  sa_messageId :: string
  sa_attemptId :: string
  sa_signature :: string
  sa_legacyEligible :: bool
  sa_generation :: nat
  sa_timer :: "nat option"
  sa_timedOut :: bool
  sa_outcome :: "'r outcome option"

record send_generation =
  sg_generation :: nat
  sg_touchedAt :: int

text \<open>\<open>timers\<close> holds the timers that have neither fired nor been cleared, each with the attempt it expires.\<close>

record 'r registry =
  sr_attempts :: "(string, nat) jmap"
  sr_generations :: "(string, send_generation) jmap"
  sr_objects :: "'r send_attempt list"
  sr_timers :: "(nat \<times> nat) list"
  sr_nextTimer :: nat

record send_limits =
  generationTtlMs :: int
  maxGenerations :: int

definition new_registry :: "'r registry" where
  "new_registry = \<lparr>sr_attempts = [], sr_generations = [], sr_objects = [], sr_timers = [], sr_nextTimer = 0\<rparr>"

definition update_object :: "nat \<Rightarrow> ('r send_attempt \<Rightarrow> 'r send_attempt) \<Rightarrow> 'r registry \<Rightarrow> 'r registry" where
  "update_object i f s = s\<lparr>sr_objects := (sr_objects s)[i := f (sr_objects s ! i)]\<rparr>"

text \<open>A promise keeps its first outcome.\<close>

definition settle :: "'r outcome \<Rightarrow> 'r send_attempt \<Rightarrow> 'r send_attempt" where
  "settle out a = (case sa_outcome a of None \<Rightarrow> a\<lparr>sa_outcome := Some out\<rparr> | Some _ \<Rightarrow> a)"

definition clear_timer :: "nat option \<Rightarrow> 'r registry \<Rightarrow> 'r registry" where
  "clear_timer t s = (case t of None \<Rightarrow> s | Some h \<Rightarrow> s\<lparr>sr_timers := filter (\<lambda>x. fst x \<noteq> h) (sr_timers s)\<rparr>)"

definition start_timer :: "nat \<Rightarrow> 'r registry \<Rightarrow> 'r registry" where
  "start_timer i s =
    (update_object i (\<lambda>a. a\<lparr>sa_timer := Some (sr_nextTimer s)\<rparr>) s)\<lparr>sr_timers := sr_timers s @ [(sr_nextTimer s, i)], sr_nextTimer := sr_nextTimer s + 1\<rparr>"

section \<open>Generations\<close>

definition stale :: "send_limits \<Rightarrow> int \<Rightarrow> send_generation \<Rightarrow> bool" where
  "stale limits now g \<longleftrightarrow> \<not> now - sg_touchedAt g \<le> generationTtlMs limits"

fun evict_oldest :: "send_limits \<Rightarrow> (string, send_generation) jmap \<Rightarrow> (string, send_generation) jmap" where
  "evict_oldest limits [] = []"
| "evict_oldest limits (g # gs) = (if int (length (g # gs)) > max 1 (maxGenerations limits) then evict_oldest limits gs else g # gs)"

definition nextGeneration :: "send_limits \<Rightarrow> int \<Rightarrow> string \<Rightarrow> (string, send_generation) jmap \<Rightarrow> nat \<times> (string, send_generation) jmap" where
  "nextGeneration limits now messageId generations =
    (let kept = dropWhile (\<lambda>e. stale limits now (snd e)) generations;
         generation = (case map_get kept messageId of None \<Rightarrow> 1 | Some previous \<Rightarrow> if stale limits now previous then 1 else sg_generation previous + 1) in
     (generation, evict_oldest limits (map_set (map_delete kept messageId) messageId \<lparr>sg_generation = generation, sg_touchedAt = now\<rparr>)))"

definition touchGeneration :: "send_limits \<Rightarrow> int \<Rightarrow> 'r send_attempt \<Rightarrow> (string, send_generation) jmap \<Rightarrow> (string, send_generation) jmap" where
  "touchGeneration limits now a generations =
    evict_oldest limits (map_set (map_delete generations (sa_messageId a)) (sa_messageId a) \<lparr>sg_generation = sa_generation a, sg_touchedAt = now\<rparr>)"

section \<open>Operations\<close>

text \<open>The attempt that waits for the id, and whether the caller owns it; or the id is pending with another payload.\<close>

definition acquire :: "send_limits \<Rightarrow> string \<Rightarrow> string \<Rightarrow> string \<Rightarrow> int \<Rightarrow> 'r registry \<Rightarrow> (unit + nat \<times> bool) \<times> 'r registry" where
  "acquire limits uuid messageId signature now s =
    (case map_get (sr_attempts s) messageId of
       Some i \<Rightarrow> (if sa_signature (sr_objects s ! i) \<noteq> signature then Inl () else Inr (i, False), s)
     | None \<Rightarrow>
         case nextGeneration limits now messageId (sr_generations s) of (generation, generations) \<Rightarrow>
           let i = length (sr_objects s);
               attempt = \<lparr>sa_messageId = messageId, sa_attemptId = uuid, sa_signature = signature, sa_legacyEligible = (generation = 1),
                 sa_generation = generation, sa_timer = None, sa_timedOut = False, sa_outcome = None\<rparr>;
               s1 = start_timer i (s\<lparr>sr_objects := sr_objects s @ [attempt], sr_generations := generations\<rparr>) in
           (Inr (i, True), s1\<lparr>sr_attempts := map_set (sr_attempts s1) messageId i\<rparr>))"

text \<open>What \<open>resolve\<close> and \<open>reject\<close> share: the attempt leaves the map, its timer is cleared, its generation touched, its promise settled.\<close>

definition finish :: "send_limits \<Rightarrow> int \<Rightarrow> nat \<Rightarrow> 'r outcome \<Rightarrow> 'r registry \<Rightarrow> 'r registry" where
  "finish limits now i out s =
    (let a = sr_objects s ! i; s1 = clear_timer (sa_timer a) (s\<lparr>sr_attempts := map_delete (sr_attempts s) (sa_messageId a)\<rparr>) in
     update_object i (settle out) (s1\<lparr>sr_generations := touchGeneration limits now a (sr_generations s1)\<rparr>))"

definition resolve :: "send_limits \<Rightarrow> string \<Rightarrow> string \<Rightarrow> 'r \<Rightarrow> int \<Rightarrow> 'r registry \<Rightarrow> bool \<times> 'r registry" where
  "resolve limits messageId attemptId result now s =
    (case map_get (sr_attempts s) messageId of
       None \<Rightarrow> (False, s)
     | Some i \<Rightarrow>
         let a = sr_objects s ! i in
         if sa_timedOut a \<or> sa_attemptId a \<noteq> attemptId then (False, s) else (True, finish limits now i (Resolved result) s))"

definition extend :: "string \<Rightarrow> string option \<Rightarrow> 'r registry \<Rightarrow> bool \<times> 'r registry" where
  "extend messageId attemptId s =
    (case map_get (sr_attempts s) messageId of
       None \<Rightarrow> (False, s)
     | Some i \<Rightarrow>
         let a = sr_objects s ! i in
         if sa_timedOut a \<or> (case attemptId of None \<Rightarrow> \<not> sa_legacyEligible a | Some aid \<Rightarrow> sa_attemptId a \<noteq> aid) then (False, s)
         else (True, start_timer i (clear_timer (sa_timer a) s)))"

definition resolveLegacy :: "send_limits \<Rightarrow> string \<Rightarrow> 'r \<Rightarrow> int \<Rightarrow> 'r registry \<Rightarrow> bool \<times> 'r registry" where
  "resolveLegacy limits messageId result now s =
    (case map_get (sr_attempts s) messageId of
       None \<Rightarrow> (False, s)
     | Some i \<Rightarrow>
         let a = sr_objects s ! i in
         if \<not> sa_legacyEligible a \<or> sa_timedOut a then (False, s) else resolve limits messageId (sa_attemptId a) result now s)"

definition expire :: "nat \<Rightarrow> 'r registry \<Rightarrow> 'r registry" where
  "expire i s =
    (if map_get (sr_attempts s) (sa_messageId (sr_objects s ! i)) \<noteq> Some i then s
     else update_object i (\<lambda>a. settle SendTimeout (a\<lparr>sa_timedOut := True, sa_timer := None\<rparr>)) s)"

definition fire :: "nat \<Rightarrow> 'r registry \<Rightarrow> 'r registry" where
  "fire h s = (case map_of (sr_timers s) h of None \<Rightarrow> s | Some i \<Rightarrow> expire i (clear_timer (Some h) s))"

definition release :: "send_limits \<Rightarrow> nat \<Rightarrow> int \<Rightarrow> 'r registry \<Rightarrow> bool \<times> 'r registry" where
  "release limits i now s =
    (let a = sr_objects s ! i in
     if map_get (sr_attempts s) (sa_messageId a) \<noteq> Some i \<or> \<not> sa_timedOut a then (False, s)
     else (True, s\<lparr>sr_attempts := map_delete (sr_attempts s) (sa_messageId a), sr_generations := touchGeneration limits now a (sr_generations s)\<rparr>))"

definition reject :: "send_limits \<Rightarrow> nat \<Rightarrow> string \<Rightarrow> int \<Rightarrow> 'r registry \<Rightarrow> bool \<times> 'r registry" where
  "reject limits i error now s =
    (if map_get (sr_attempts s) (sa_messageId (sr_objects s ! i)) \<noteq> Some i then (False, s)
     else (True, finish limits now i (RejectedWith error) s))"

definition rejectAll :: "send_limits \<Rightarrow> string \<Rightarrow> int \<Rightarrow> 'r registry \<Rightarrow> 'r registry" where
  "rejectAll limits error now s = foldl (\<lambda>s i. snd (reject limits i error now s)) s (map_values (sr_attempts s))"

section \<open>Steps\<close>

datatype 'r send_op =
    Acquire string string string
  | Resolve string string 'r
  | Extend string "string option"
  | ResolveLegacy string 'r
  | Fire nat
  | Release nat
  | Reject nat string
  | RejectAll string

text \<open>A reference is always one the registry gave out.\<close>

fun send_step :: "send_limits \<Rightarrow> 'r registry \<Rightarrow> 'r send_op \<times> int \<Rightarrow> 'r registry" where
  "send_step limits s (Acquire uuid m sig, now) = snd (acquire limits uuid m sig now s)"
| "send_step limits s (Resolve m aid r, now) = snd (resolve limits m aid r now s)"
| "send_step limits s (Extend m aid, now) = snd (extend m aid s)"
| "send_step limits s (ResolveLegacy m r, now) = snd (resolveLegacy limits m r now s)"
| "send_step limits s (Fire h, now) = fire h s"
| "send_step limits s (Release i, now) = (if i < length (sr_objects s) then snd (release limits i now s) else s)"
| "send_step limits s (Reject i e, now) = (if i < length (sr_objects s) then snd (reject limits i e now s) else s)"
| "send_step limits s (RejectAll e, now) = rejectAll limits e now s"

section \<open>Invariant\<close>

text \<open>An attempt is pending when it is the one its id is mapped to and has not timed out; then its timer runs.\<close>

definition object_ok :: "'r registry \<Rightarrow> nat \<Rightarrow> bool" where
  "object_ok s i \<longleftrightarrow> (let a = sr_objects s ! i in
    (sa_outcome a = None \<longleftrightarrow> map_get (sr_attempts s) (sa_messageId a) = Some i \<and> \<not> sa_timedOut a) \<and>
    (sa_timedOut a \<longrightarrow> sa_timer a = None) \<and> (sa_outcome a = None \<longrightarrow> sa_timer a \<noteq> None) \<and>
    (\<forall>h. (h, i) \<in> set (sr_timers s) \<longleftrightarrow> sa_outcome a = None \<and> sa_timer a = Some h) \<and>
    1 \<le> sa_generation a \<and> (sa_legacyEligible a \<longleftrightarrow> sa_generation a = 1))"

definition core_ok :: "'r registry \<Rightarrow> bool" where
  "core_ok s \<longleftrightarrow> wf_map (sr_attempts s) \<and>
    (\<forall>m i. map_get (sr_attempts s) m = Some i \<longrightarrow> i < length (sr_objects s) \<and> sa_messageId (sr_objects s ! i) = m) \<and>
    (\<forall>i < length (sr_objects s). object_ok s i) \<and>
    distinct (map fst (sr_timers s)) \<and> (\<forall>(h, i) \<in> set (sr_timers s). h < sr_nextTimer s \<and> i < length (sr_objects s))"

definition generations_ok :: "send_limits \<Rightarrow> (string, send_generation) jmap \<Rightarrow> bool" where
  "generations_ok limits gs \<longleftrightarrow> wf_map gs \<and> int (length gs) \<le> max 1 (maxGenerations limits) \<and> (\<forall>e \<in> set gs. 1 \<le> sg_generation (snd e))"

definition registry_ok :: "send_limits \<Rightarrow> 'r registry \<Rightarrow> bool" where
  "registry_ok limits s \<longleftrightarrow> core_ok s \<and> generations_ok limits (sr_generations s)"

section \<open>Generations keep\<close>

lemma evict_suffix: "\<exists>gone. gs = gone @ evict_oldest limits gs"
proof (induction gs)
  case (Cons g gs)
  then obtain gone where "gs = gone @ evict_oldest limits gs" by blast
  then have "g # gs = (g # gone) @ evict_oldest limits gs" by simp
  then show ?case by (metis append_Nil evict_oldest.simps(2))
qed simp

lemma evict_length: "int (length (evict_oldest limits gs)) \<le> max 1 (maxGenerations limits)"
  by (induction gs) auto

lemma generations_evict:
  assumes "wf_map gs" and "\<forall>e \<in> set gs. 1 \<le> sg_generation (snd e)"
  shows "generations_ok limits (evict_oldest limits gs)"
proof -
  obtain gone where "gs = gone @ evict_oldest limits gs" using evict_suffix by blast
  then have "set (evict_oldest limits gs) \<subseteq> set gs" "wf_map (evict_oldest limits gs)" using assms(1)
    by (metis Un_iff set_append subsetI, metis distinct_append map_append wf_map_def)
  then show ?thesis using assms(2) evict_length by (auto simp: generations_ok_def)
qed

lemma generations_put:
  assumes "wf_map gs" and "\<forall>e \<in> set gs. 1 \<le> sg_generation (snd e)" and "1 \<le> sg_generation g"
  shows "generations_ok limits (evict_oldest limits (map_set (map_delete gs m) m g))"
proof (rule generations_evict)
  show "wf_map (map_set (map_delete gs m) m g)" using assms(1) by blast
  show "\<forall>e \<in> set (map_set (map_delete gs m) m g). 1 \<le> sg_generation (snd e)"
    using assms(2,3) set_map_set_subset [of "map_delete gs m" m g] by (fastforce simp: in_set_map_delete)
qed

lemma generations_touch: "generations_ok limits gs \<Longrightarrow> 1 \<le> sa_generation a \<Longrightarrow> generations_ok limits (touchGeneration limits now a gs)"
  unfolding touchGeneration_def by (rule generations_put) (auto simp: generations_ok_def)

lemma generations_next:
  assumes "generations_ok limits gs" and "nextGeneration limits now m gs = (g, gs')"
  shows "generations_ok limits gs'" and "1 \<le> g"
proof -
  let ?kept = "dropWhile (\<lambda>e. stale limits now (snd e)) gs"
  have gone: "gs = takeWhile (\<lambda>e. stale limits now (snd e)) gs @ ?kept" by simp
  have kept: "wf_map ?kept" "\<forall>e \<in> set ?kept. 1 \<le> sg_generation (snd e)"
    using assms(1) unfolding generations_ok_def wf_map_def by (metis distinct_append gone map_append, metis set_dropWhileD)
  have eq: "g = (case map_get ?kept m of None \<Rightarrow> 1 | Some previous \<Rightarrow> if stale limits now previous then 1 else sg_generation previous + 1)"
      "gs' = evict_oldest limits (map_set (map_delete ?kept m) m \<lparr>sg_generation = g, sg_touchedAt = now\<rparr>)"
    using assms(2) by (auto simp: nextGeneration_def Let_def)
  show "1 \<le> g" by (simp add: eq(1) split: option.splits)
  then show "generations_ok limits gs'" unfolding eq(2) using kept by (intro generations_put) auto
qed

text \<open>A generation the registry remembers is not given out again before it is stale.\<close>

lemma next_after:
  assumes "wf_map gs" and "map_get gs m = Some previous" and "\<not> stale limits now previous"
  shows "fst (nextGeneration limits now m gs) = sg_generation previous + 1"
proof -
  let ?kept = "dropWhile (\<lambda>e. stale limits now (snd e)) gs"
  have "(m, previous) \<in> set gs" using assms(2) by (rule map_get_Some_in_set)
  moreover have "(m, previous) \<notin> set (takeWhile (\<lambda>e. stale limits now (snd e)) gs)" using assms(3) set_takeWhileD by fastforce
  ultimately have "(m, previous) \<in> set ?kept" by (metis Un_iff set_append takeWhile_dropWhile_id)
  moreover have "wf_map ?kept" using assms(1) unfolding wf_map_def by (metis distinct_append map_append takeWhile_dropWhile_id)
  ultimately have "map_get ?kept m = Some previous" by (simp add: map_get_eq_in_set)
  then show ?thesis using assms(3) by (simp add: nextGeneration_def Let_def)
qed

lemma next_generation:
  assumes "wf_map gs"
  shows "fst (nextGeneration limits now m gs) = (case map_get gs m of None \<Rightarrow> 1
    | Some g \<Rightarrow> if now - sg_touchedAt g \<le> generationTtlMs limits then sg_generation g + 1 else 1)"
proof (cases "\<exists>g. map_get gs m = Some g \<and> \<not> stale limits now g")
  case True
  then obtain g where g: "map_get gs m = Some g" "\<not> stale limits now g" by blast
  then show ?thesis using next_after [OF assms g] by (simp add: stale_def)
next
  case False
  let ?kept = "dropWhile (\<lambda>e. stale limits now (snd e)) gs"
  have old: "stale limits now g" if "map_get ?kept m = Some g" for g
  proof -
    have "(m, g) \<in> set gs" using map_get_Some_in_set [OF that] by (rule set_dropWhileD)
    then show ?thesis using False assms by (simp add: map_get_eq_in_set)
  qed
  have "fst (nextGeneration limits now m gs) = 1"
  proof (cases "map_get ?kept m")
    case None
    then show ?thesis by (simp add: nextGeneration_def Let_def)
  next
    case (Some g)
    then show ?thesis using old [OF Some] by (simp add: nextGeneration_def Let_def)
  qed
  then show ?thesis using False by (cases "map_get gs m") (simp_all add: stale_def)
qed

section \<open>Attempts keep\<close>

lemma settle_simps [simp]:
  "sa_messageId (settle out a) = sa_messageId a" "sa_attemptId (settle out a) = sa_attemptId a" "sa_timer (settle out a) = sa_timer a"
  "sa_timedOut (settle out a) = sa_timedOut a" "sa_generation (settle out a) = sa_generation a" "sa_legacyEligible (settle out a) = sa_legacyEligible a"
  "sa_outcome (settle out a) = (case sa_outcome a of None \<Rightarrow> Some out | Some x \<Rightarrow> Some x)"
  by (simp_all add: settle_def split: option.splits)

lemma core_okD:
  assumes "core_ok s"
  shows "wf_map (sr_attempts s)" "map_get (sr_attempts s) m = Some i \<Longrightarrow> i < length (sr_objects s)"
    "map_get (sr_attempts s) m = Some i \<Longrightarrow> sa_messageId (sr_objects s ! i) = m"
    "i < length (sr_objects s) \<Longrightarrow> object_ok s i" "distinct (map fst (sr_timers s))"
    "(h, i) \<in> set (sr_timers s) \<Longrightarrow> h < sr_nextTimer s" "(h, i) \<in> set (sr_timers s) \<Longrightarrow> i < length (sr_objects s)"
  using assms by (auto simp: core_ok_def)

lemma object_okD:
  assumes "object_ok s i"
  shows "sa_outcome (sr_objects s ! i) = None \<longleftrightarrow> map_get (sr_attempts s) (sa_messageId (sr_objects s ! i)) = Some i \<and> \<not> sa_timedOut (sr_objects s ! i)"
    "sa_timedOut (sr_objects s ! i) \<Longrightarrow> sa_timer (sr_objects s ! i) = None" "sa_outcome (sr_objects s ! i) = None \<Longrightarrow> sa_timer (sr_objects s ! i) \<noteq> None"
    "(h, i) \<in> set (sr_timers s) \<longleftrightarrow> sa_outcome (sr_objects s ! i) = None \<and> sa_timer (sr_objects s ! i) = Some h"
    "1 \<le> sa_generation (sr_objects s ! i)" "sa_legacyEligible (sr_objects s ! i) \<longleftrightarrow> sa_generation (sr_objects s ! i) = 1"
  using assms by (simp_all add: object_ok_def Let_def)

text \<open>A change of one attempt that is in the map.\<close>

lemma core_change:
  assumes ok: "core_ok s" and at: "map_get (sr_attempts s) m = Some i"
    and attempts: "sr_attempts s' = sr_attempts s \<or> sr_attempts s' = map_delete (sr_attempts s) m"
    and objects: "sr_objects s' = (sr_objects s)[i := a]" "sa_messageId a = m"
    and timers: "distinct (map fst (sr_timers s'))" "\<And>h j. j \<noteq> i \<Longrightarrow> (h, j) \<in> set (sr_timers s') \<longleftrightarrow> (h, j) \<in> set (sr_timers s)"
      "\<And>h. (h, i) \<in> set (sr_timers s') \<Longrightarrow> h < sr_nextTimer s'" "sr_nextTimer s \<le> sr_nextTimer s'"
    and own: "object_ok s' i"
  shows "core_ok s'"
proof -
  have i: "i < length (sr_objects s)" using core_okD(2) [OF ok at] .
  have "object_ok s' j" if j: "j < length (sr_objects s)" "j \<noteq> i" for j
  proof -
    have obj: "sr_objects s' ! j = sr_objects s ! j" using j(2) by (simp add: objects)
    have "map_get (sr_attempts s') m' = Some j \<longleftrightarrow> map_get (sr_attempts s) m' = Some j" for m' using attempts at j(2) by (auto split: if_splits)
    then show ?thesis using core_okD(4) [OF ok j(1)] timers(2) [OF j(2)] by (simp add: object_ok_def obj)
  qed
  then have "\<forall>j < length (sr_objects s'). object_ok s' j" using own by (auto simp: objects)
  moreover have "j < length (sr_objects s') \<and> sa_messageId (sr_objects s' ! j) = m'" if "map_get (sr_attempts s') m' = Some j" for m' j
  proof -
    have "map_get (sr_attempts s) m' = Some j" using that attempts by (auto split: if_splits)
    moreover have "m' = m" if "j = i" using core_okD(3) [OF ok calculation] core_okD(3) [OF ok at] that by simp
    ultimately show ?thesis using core_okD(2,3) [OF ok] objects i by (cases "j = i") auto
  qed
  moreover have "wf_map (sr_attempts s')" using attempts core_okD(1) [OF ok] by auto
  moreover have "h < sr_nextTimer s' \<and> j < length (sr_objects s')" if "(h, j) \<in> set (sr_timers s')" for h j
    using that timers(2-4) core_okD(6,7) [OF ok] i objects(1) by (cases "j = i") (force simp: objects)+
  ultimately show ?thesis using timers(1) by (auto simp: core_ok_def)
qed

lemma cleared_timers:
  assumes ok: "core_ok s" and i: "i < length (sr_objects s)" and at: "map_get (sr_attempts s) (sa_messageId (sr_objects s ! i)) = Some i"
  shows "(h, j) \<in> set (sr_timers (clear_timer (sa_timer (sr_objects s ! i)) s)) \<longleftrightarrow> (h, j) \<in> set (sr_timers s) \<and> j \<noteq> i"
proof (cases "sa_timer (sr_objects s ! i)")
  case None
  then have "(h, i) \<notin> set (sr_timers s)" using object_okD(4) [OF core_okD(4) [OF ok i]] by simp
  then show ?thesis using None by (auto simp: clear_timer_def)
next
  case (Some h')
  note obj = object_okD [OF core_okD(4) [OF ok i]]
  have "(h', i) \<in> set (sr_timers s)" using obj(1,2,4) Some at by auto
  moreover have "j = i" if "(h', j) \<in> set (sr_timers s)" for j using eq_key_imp_eq_value [OF core_okD(5) [OF ok] that calculation] .
  ultimately show ?thesis using Some obj(4) by (auto simp: clear_timer_def)
qed

lemma clear_timer_simps [simp]:
  "sr_objects (clear_timer t s) = sr_objects s" "sr_attempts (clear_timer t s) = sr_attempts s" "sr_nextTimer (clear_timer t s) = sr_nextTimer s"
  "sr_generations (clear_timer t s) = sr_generations s" "distinct (map fst (sr_timers s)) \<Longrightarrow> distinct (map fst (sr_timers (clear_timer t s)))"
  by (simp_all add: clear_timer_def distinct_map_filter split: option.splits)

lemma clear_timer_attempts [simp]: "sr_timers (clear_timer t (s\<lparr>sr_attempts := m\<rparr>)) = sr_timers (clear_timer t s)"
  by (simp add: clear_timer_def split: option.splits)

lemma core_finish:
  assumes ok: "core_ok s" and at: "map_get (sr_attempts s) (sa_messageId (sr_objects s ! i)) = Some i"
  shows "core_ok (finish limits now i out s)"
proof -
  let ?a = "sr_objects s ! i" and ?s = "finish limits now i out s"
  have i: "i < length (sr_objects s)" using core_okD(2) [OF ok at] .
  have f: "sr_attempts ?s = map_delete (sr_attempts s) (sa_messageId ?a)" "sr_objects ?s = (sr_objects s)[i := settle out ?a]"
      "sr_timers ?s = sr_timers (clear_timer (sa_timer ?a) s)" "sr_nextTimer ?s = sr_nextTimer s"
    by (simp_all add: finish_def update_object_def Let_def)
  have timers: "(h, j) \<in> set (sr_timers ?s) \<longleftrightarrow> (h, j) \<in> set (sr_timers s) \<and> j \<noteq> i" for h j using cleared_timers [OF ok i at, of h j] by (auto simp: f)
  have "object_ok ?s i" using object_okD [OF core_okD(4) [OF ok i]] timers i by (auto simp: object_ok_def Let_def f split: option.splits)
  then show ?thesis using core_change [OF ok at, of ?s "settle out ?a"] timers f core_okD(5) [OF ok] by (auto simp: f)
qed

lemma core_release:
  assumes ok: "core_ok s" and at: "map_get (sr_attempts s) (sa_messageId (sr_objects s ! i)) = Some i" and out: "sa_timedOut (sr_objects s ! i)"
  shows "core_ok (s\<lparr>sr_attempts := map_delete (sr_attempts s) (sa_messageId (sr_objects s ! i)), sr_generations := gs\<rparr>)" (is "core_ok ?s")
proof -
  have i: "i < length (sr_objects s)" using core_okD(2) [OF ok at] .
  have "object_ok ?s i" using object_okD [OF core_okD(4) [OF ok i]] out by (auto simp: object_ok_def Let_def)
  then show ?thesis using core_change [OF ok at, of ?s "sr_objects s ! i"] core_okD(5,6) [OF ok] by auto
qed

lemma core_extend:
  assumes ok: "core_ok s" and at: "map_get (sr_attempts s) (sa_messageId (sr_objects s ! i)) = Some i" and out: "\<not> sa_timedOut (sr_objects s ! i)"
  shows "core_ok (start_timer i (clear_timer (sa_timer (sr_objects s ! i)) s))" (is "core_ok ?s")
proof -
  let ?a = "sr_objects s ! i" and ?h = "sr_nextTimer s"
  have i: "i < length (sr_objects s)" using core_okD(2) [OF ok at] .
  have f: "sr_attempts ?s = sr_attempts s" "sr_objects ?s = (sr_objects s)[i := ?a\<lparr>sa_timer := Some ?h\<rparr>]"
      "sr_timers ?s = sr_timers (clear_timer (sa_timer ?a) s) @ [(?h, i)]" "sr_nextTimer ?s = ?h + 1"
    by (simp_all add: start_timer_def update_object_def)
  have timers: "(h, j) \<in> set (sr_timers ?s) \<longleftrightarrow> (h, j) \<in> set (sr_timers s) \<and> j \<noteq> i \<or> h = ?h \<and> j = i" for h j
    using cleared_timers [OF ok i at, of h j] by (auto simp: f)
  have "?h \<notin> fst ` set (sr_timers (clear_timer (sa_timer ?a) s))" using cleared_timers [OF ok i at] core_okD(6) [OF ok] by fastforce
  then have "distinct (map fst (sr_timers ?s))" using core_okD(5) [OF ok] by (simp add: f)
  moreover have "object_ok ?s i" using object_okD [OF core_okD(4) [OF ok i]] timers [of _ i] at out i by (auto simp: object_ok_def Let_def f(1,2))
  ultimately show ?thesis using core_change [OF ok at, of ?s "?a\<lparr>sa_timer := Some ?h\<rparr>"] timers by (auto simp: f(1,2,4))
qed

lemma core_fire:
  assumes ok: "core_ok s"
  shows "core_ok (fire h s)"
proof (cases "map_of (sr_timers s) h")
  case None
  then show ?thesis using ok by (simp add: fire_def)
next
  case (Some i)
  let ?a = "sr_objects s ! i" and ?s = "fire h s"
  have hi: "(h, i) \<in> set (sr_timers s)" using Some by (rule map_of_SomeD)
  have i: "i < length (sr_objects s)" using core_okD(7) [OF ok hi] .
  note obj = object_okD [OF core_okD(4) [OF ok i]]
  have p: "sa_timer ?a = Some h" "sa_outcome ?a = None" "map_get (sr_attempts s) (sa_messageId ?a) = Some i" using obj(1,4) hi by auto
  have f: "sr_attempts ?s = sr_attempts s" "sr_objects ?s = (sr_objects s)[i := settle SendTimeout (?a\<lparr>sa_timedOut := True, sa_timer := None\<rparr>)]"
      "sr_timers ?s = sr_timers (clear_timer (sa_timer ?a) s)" "sr_nextTimer ?s = sr_nextTimer s"
    by (simp_all add: fire_def Some expire_def update_object_def p)
  have timers: "(h, j) \<in> set (sr_timers ?s) \<longleftrightarrow> (h, j) \<in> set (sr_timers s) \<and> j \<noteq> i" for h j using cleared_timers [OF ok i p(3), of h j] by (auto simp: f)
  have "object_ok ?s i" using obj timers i p by (auto simp: object_ok_def Let_def f)
  then show ?thesis using core_change [OF ok p(3), of ?s "settle SendTimeout (?a\<lparr>sa_timedOut := True, sa_timer := None\<rparr>)"] timers core_okD(5) [OF ok] by (auto simp: f)
qed

lemma core_acquire:
  assumes ok: "core_ok s" and fresh: "map_get (sr_attempts s) m = None" and g: "1 \<le> g"
    and a: "a = \<lparr>sa_messageId = m, sa_attemptId = uuid, sa_signature = sig, sa_legacyEligible = (g = 1), sa_generation = g, sa_timer = Some (sr_nextTimer s),
      sa_timedOut = False, sa_outcome = None\<rparr>"
    and s': "sr_attempts s' = map_set (sr_attempts s) m (length (sr_objects s))" "sr_objects s' = sr_objects s @ [a]"
      "sr_timers s' = sr_timers s @ [(sr_nextTimer s, length (sr_objects s))]" "sr_nextTimer s' = sr_nextTimer s + 1"
  shows "core_ok s'"
proof -
  let ?n = "length (sr_objects s)" and ?h = "sr_nextTimer s"
  have timers: "(h, j) \<in> set (sr_timers s') \<longleftrightarrow> (h, j) \<in> set (sr_timers s) \<or> h = ?h \<and> j = ?n" for h j by (auto simp: s'(3))
  have "object_ok s' j" if j: "j < ?n" for j
  proof -
    have "map_get (sr_attempts s') (sa_messageId (sr_objects s ! j)) = Some j \<longleftrightarrow> map_get (sr_attempts s) (sa_messageId (sr_objects s ! j)) = Some j"
      using j fresh by (auto simp: s'(1))
    then show ?thesis using core_okD(4) [OF ok j] j timers [of _ j] by (simp add: object_ok_def s'(2) nth_append)
  qed
  moreover have "(h, ?n) \<notin> set (sr_timers s)" for h using core_okD(7) [OF ok] by blast
  then have "object_ok s' ?n" using g timers [of _ ?n] by (auto simp: object_ok_def Let_def s'(1,2) a)
  ultimately have "\<forall>j < length (sr_objects s'). object_ok s' j" by (auto simp: s'(2) less_Suc_eq)
  moreover have "?h \<notin> fst ` set (sr_timers s)" using core_okD(6) [OF ok] by fastforce
  then have "distinct (map fst (sr_timers s'))" using core_okD(5) [OF ok] by (simp add: s'(3))
  moreover have "h < sr_nextTimer s' \<and> j < length (sr_objects s')" if "(h, j) \<in> set (sr_timers s')" for h j
    using that core_okD(6,7) [OF ok, of h j] by (auto simp: timers s'(2,4))
  moreover have "j < length (sr_objects s') \<and> sa_messageId (sr_objects s' ! j) = m'" if "map_get (sr_attempts s') m' = Some j" for m' j
    using that core_okD(2,3) [OF ok, of m' j] by (auto simp: s'(1,2) a nth_append split: if_splits)
  ultimately show ?thesis using core_okD(1) [OF ok] by (auto simp: core_ok_def s'(1))
qed

lemma new_attempt:
  assumes "map_get (sr_attempts s) m = None" and "nextGeneration limits now m (sr_generations s) = (g, gs)"
  shows "sr_objects (snd (acquire limits uuid m sig now s)) = sr_objects s @ [\<lparr>sa_messageId = m, sa_attemptId = uuid, sa_signature = sig,
      sa_legacyEligible = (g = 1), sa_generation = g, sa_timer = Some (sr_nextTimer s), sa_timedOut = False, sa_outcome = None\<rparr>]"
    and "sr_attempts (snd (acquire limits uuid m sig now s)) = map_set (sr_attempts s) m (length (sr_objects s))"
    and "sr_timers (snd (acquire limits uuid m sig now s)) = sr_timers s @ [(sr_nextTimer s, length (sr_objects s))]"
    and "sr_nextTimer (snd (acquire limits uuid m sig now s)) = sr_nextTimer s + 1" and "sr_generations (snd (acquire limits uuid m sig now s)) = gs"
  using assms by (simp_all add: acquire_def start_timer_def update_object_def Let_def)

section \<open>Steps keep\<close>

lemma finish_generations [simp]: "sr_generations (finish limits now i out s) = touchGeneration limits now (sr_objects s ! i) (sr_generations s)"
  by (simp add: finish_def update_object_def Let_def)

lemma ok_finish:
  assumes "registry_ok limits s" and "map_get (sr_attempts s) (sa_messageId (sr_objects s ! i)) = Some i"
  shows "registry_ok limits (finish limits now i out s)"
proof -
  have ok: "core_ok s" using assms(1) by (simp add: registry_ok_def)
  have "1 \<le> sa_generation (sr_objects s ! i)" using object_okD(5) [OF core_okD(4) [OF ok core_okD(2) [OF ok assms(2)]]] .
  then show ?thesis using assms core_finish [OF ok assms(2)] generations_touch by (auto simp: registry_ok_def)
qed

lemma ok_reject: "registry_ok limits s \<Longrightarrow> registry_ok limits (snd (reject limits i e now s))"
  using ok_finish by (auto simp: reject_def)

lemma ok_resolve:
  assumes "registry_ok limits s"
  shows "registry_ok limits (snd (resolve limits m aid r now s))"
proof (cases "map_get (sr_attempts s) m")
  case (Some i)
  have "sa_messageId (sr_objects s ! i) = m" using core_okD(3) [OF _ Some] assms by (simp add: registry_ok_def)
  then show ?thesis using assms ok_finish [OF assms, of i] Some by (simp add: resolve_def Let_def)
qed (simp add: resolve_def assms)

lemma ok_acquire:
  assumes "registry_ok limits s"
  shows "registry_ok limits (snd (acquire limits uuid m sig now s))"
proof (cases "map_get (sr_attempts s) m")
  case None
  obtain g gs where g: "nextGeneration limits now m (sr_generations s) = (g, gs)" by force
  note new = new_attempt [OF None g, of uuid sig] and gen = generations_next [OF _ g]
  have ok: "core_ok s" "generations_ok limits (sr_generations s)" using assms by (simp_all add: registry_ok_def)
  show ?thesis using core_acquire [OF ok(1) None gen(2) [OF ok(2)] refl new(2,1,3,4)] gen(1) [OF ok(2)] by (simp add: registry_ok_def new(5))
qed (simp add: acquire_def assms)

lemma ok_others:
  assumes "registry_ok limits s"
  shows "registry_ok limits (snd (extend m aid s))" and "registry_ok limits (fire h s)" and "registry_ok limits (snd (release limits i now s))"
proof -
  have ok: "core_ok s" "generations_ok limits (sr_generations s)" using assms by (simp_all add: registry_ok_def)
  have "sr_generations (fire h s) = sr_generations s" by (simp add: fire_def expire_def update_object_def split: option.splits)
  then show "registry_ok limits (fire h s)" using core_fire [OF ok(1)] ok(2) by (simp add: registry_ok_def)
  show "registry_ok limits (snd (extend m aid s))"
  proof (cases "map_get (sr_attempts s) m")
    case (Some i)
    have at: "map_get (sr_attempts s) (sa_messageId (sr_objects s ! i)) = Some i" using core_okD(3) [OF ok(1) Some] Some by simp
    have "sr_generations (start_timer i (clear_timer t s)) = sr_generations s" for t by (simp add: start_timer_def update_object_def)
    then show ?thesis using core_extend [OF ok(1) at] assms Some by (simp add: extend_def Let_def registry_ok_def)
  qed (simp add: extend_def assms)
  show "registry_ok limits (snd (release limits i now s))"
  proof (cases "map_get (sr_attempts s) (sa_messageId (sr_objects s ! i)) = Some i \<and> sa_timedOut (sr_objects s ! i)")
    case True
    then have "1 \<le> sa_generation (sr_objects s ! i)" using object_okD(5) [OF core_okD(4) [OF ok(1) core_okD(2) [OF ok(1)]]] by blast
    then have "generations_ok limits (touchGeneration limits now (sr_objects s ! i) (sr_generations s))" using generations_touch [OF ok(2)] by blast
    then show ?thesis using True core_release [OF ok(1)] by (simp add: release_def registry_ok_def Let_def)
  qed (auto simp: release_def Let_def assms)
qed

lemma ok_rejectAll: "registry_ok limits s \<Longrightarrow> registry_ok limits (foldl (\<lambda>s i. snd (reject limits i e now s)) s is)"
  by (induction "is" arbitrary: s) (simp_all add: ok_reject)

lemma ok_step: "registry_ok limits s \<Longrightarrow> registry_ok limits (send_step limits s (op, now))"
  by (cases op) (simp_all add: ok_acquire ok_resolve ok_others ok_reject rejectAll_def ok_rejectAll resolveLegacy_def Let_def split: option.splits)

interpretation sends: step_system "send_step limits" new_registry "registry_ok limits" for limits
proof
  show "registry_ok limits new_registry" by (simp add: registry_ok_def core_ok_def generations_ok_def new_registry_def)
  show "registry_ok limits (send_step limits s a)" if "registry_ok limits s" for s :: "'r registry" and a
    using ok_step [OF that] by (cases a) simp
qed

section \<open>Outcomes\<close>

text \<open>What a step may do to the attempts there are: the outcome of \<open>i\<close> is set, if it was open, and never changed.\<close>

definition same_attempt :: "'r send_attempt \<Rightarrow> 'r send_attempt \<Rightarrow> bool" where
  "same_attempt a b \<longleftrightarrow> sa_messageId b = sa_messageId a \<and> sa_attemptId b = sa_attemptId a \<and> sa_generation b = sa_generation a \<and>
    (\<forall>x. sa_outcome a = Some x \<longrightarrow> sa_outcome b = Some x)"

definition changes :: "('r send_attempt \<Rightarrow> 'r outcome \<Rightarrow> bool) \<Rightarrow> 'r registry \<Rightarrow> 'r registry \<Rightarrow> bool" where
  "changes why s s' \<longleftrightarrow> length (sr_objects s) \<le> length (sr_objects s') \<and>
    (\<forall>i < length (sr_objects s). same_attempt (sr_objects s ! i) (sr_objects s' ! i) \<and>
      (\<forall>x. sa_outcome (sr_objects s ! i) = None \<longrightarrow> sa_outcome (sr_objects s' ! i) = Some x \<longrightarrow> why (sr_objects s ! i) x))"

lemma same_attempt_refl [simp]: "same_attempt a a"
  by (simp add: same_attempt_def)

lemma changes_refl [simp]: "changes why s s"
  by (simp add: changes_def)

lemma changes_objects: "sr_objects s' = sr_objects s \<Longrightarrow> changes why s s'"
  by (simp add: changes_def)

lemma changes_one:
  assumes "sr_objects s' = (sr_objects s)[i := b]" and "same_attempt (sr_objects s ! i) b"
    and "\<And>x. sa_outcome (sr_objects s ! i) = None \<Longrightarrow> sa_outcome b = Some x \<Longrightarrow> why (sr_objects s ! i) x"
  shows "changes why s s'"
  unfolding changes_def
proof (intro conjI allI impI)
  show "same_attempt (sr_objects s ! j) (sr_objects s' ! j)" if "j < length (sr_objects s)" for j
    using assms(1,2) that by (cases "j = i") simp_all
  show "why (sr_objects s ! j) x" if "j < length (sr_objects s)" "sa_outcome (sr_objects s ! j) = None" "sa_outcome (sr_objects s' ! j) = Some x" for j x
    using assms(1,3) that by (cases "j = i") simp_all
qed (simp add: assms(1))

lemma changes_trans:
  assumes a: "changes (\<lambda>_. P) s s'" and b: "changes (\<lambda>_. P) s' s''"
  shows "changes (\<lambda>_. P) s s''"
  unfolding changes_def
proof (intro conjI allI impI)
  show "length (sr_objects s) \<le> length (sr_objects s'')" using a b by (auto simp: changes_def)
  fix i
  assume i: "i < length (sr_objects s)"
  have s: "same_attempt (sr_objects s ! i) (sr_objects s' ! i)" "same_attempt (sr_objects s' ! i) (sr_objects s'' ! i)" using a b i by (auto simp: changes_def)
  then show "same_attempt (sr_objects s ! i) (sr_objects s'' ! i)" by (simp add: same_attempt_def)
  show "P x" if x: "sa_outcome (sr_objects s ! i) = None" "sa_outcome (sr_objects s'' ! i) = Some x" for x
  proof (cases "sa_outcome (sr_objects s' ! i)")
    case None
    moreover have "i < length (sr_objects s')" using a i by (simp add: changes_def)
    ultimately show ?thesis using b x(2) by (simp add: changes_def)
  next
    case (Some y)
    then have "y = x" using s(2) x by (simp add: same_attempt_def)
    then show ?thesis using a i x Some by (simp add: changes_def)
  qed
qed

lemma changes_finish: "(\<And>a. a = sr_objects s ! i \<Longrightarrow> why a out) \<Longrightarrow> changes why s (finish limits now i out s)"
  by (rule changes_one [of _ _ i "settle out (sr_objects s ! i)"])
    (auto simp: finish_def update_object_def Let_def same_attempt_def split: option.splits)

text \<open>Why an operation may settle an attempt, and with what.\<close>

fun settles :: "'r send_op \<Rightarrow> 'r send_attempt \<Rightarrow> 'r outcome \<Rightarrow> bool" where
  "settles (Resolve m aid r) a x \<longleftrightarrow> x = Resolved r \<and> sa_messageId a = m \<and> sa_attemptId a = aid"
| "settles (ResolveLegacy m r) a x \<longleftrightarrow> x = Resolved r \<and> sa_messageId a = m \<and> sa_generation a = 1"
| "settles (Fire h) a x \<longleftrightarrow> x = SendTimeout"
| "settles (Reject i e) a x \<longleftrightarrow> x = RejectedWith e"
| "settles (RejectAll e) a x \<longleftrightarrow> x = RejectedWith e"
| "settles _ a x \<longleftrightarrow> False"

lemma changes_rejectAll: "changes (\<lambda>a x. x = RejectedWith e) s (foldl (\<lambda>s i. snd (reject limits i e now s)) s is)"
proof (induction "is" arbitrary: s)
  case (Cons i "is")
  have "changes (\<lambda>a x. x = RejectedWith e) s (snd (reject limits i e now s))" by (simp add: reject_def changes_finish)
  then show ?case using changes_trans Cons.IH by fastforce
qed simp

lemma changes_fire: "changes (\<lambda>a x. x = SendTimeout) s (fire h s)"
proof (cases "map_of (sr_timers s) h")
  case (Some i)
  let ?b = "settle SendTimeout ((sr_objects s ! i)\<lparr>sa_timedOut := True, sa_timer := None\<rparr>)"
  show ?thesis
  proof (cases "map_get (sr_attempts s) (sa_messageId (sr_objects s ! i)) = Some i")
    case True
    then have "sr_objects (fire h s) = (sr_objects s)[i := ?b]" using Some by (simp add: fire_def expire_def update_object_def)
    then show ?thesis by (rule changes_one) (auto simp: same_attempt_def split: option.splits)
  qed (use Some in \<open>simp add: fire_def expire_def changes_objects\<close>)
qed (simp add: fire_def)

lemma changes_resolve:
  assumes "registry_ok limits s"
  shows "changes (settles (Resolve m aid r)) s (snd (resolve limits m aid r now s))"
proof (cases "map_get (sr_attempts s) m")
  case (Some i)
  have "sa_messageId (sr_objects s ! i) = m" using core_okD(3) [OF _ Some] assms by (simp add: registry_ok_def)
  then show ?thesis using Some by (simp add: resolve_def Let_def changes_finish)
qed (simp add: resolve_def)

lemma changes_legacy:
  assumes "registry_ok limits s"
  shows "changes (settles (ResolveLegacy m r)) s (snd (resolveLegacy limits m r now s))"
proof (cases "map_get (sr_attempts s) m")
  case (Some i)
  have ok: "core_ok s" using assms by (simp add: registry_ok_def)
  have m: "sa_messageId (sr_objects s ! i) = m" using core_okD(3) [OF ok Some] .
  have g: "sa_legacyEligible (sr_objects s ! i) \<longleftrightarrow> sa_generation (sr_objects s ! i) = 1" using object_okD(6) [OF core_okD(4) [OF ok core_okD(2) [OF ok Some]]] .
  show ?thesis
  proof (cases "\<not> sa_legacyEligible (sr_objects s ! i) \<or> sa_timedOut (sr_objects s ! i)")
    case False
    then have "snd (resolveLegacy limits m r now s) = finish limits now i (Resolved r) s" using Some by (simp add: resolveLegacy_def resolve_def Let_def)
    then show ?thesis using False m g by (simp add: changes_finish)
  qed (use Some in \<open>simp add: resolveLegacy_def Let_def\<close>)
qed (simp add: resolveLegacy_def)

lemma changes_acquire: "changes why s (snd (acquire limits uuid m sig now s))"
proof (cases "map_get (sr_attempts s) m")
  case None
  obtain g gs where "nextGeneration limits now m (sr_generations s) = (g, gs)" by force
  from new_attempt(1) [OF None this, of uuid sig] show ?thesis by (simp add: changes_def nth_append)
qed (simp add: acquire_def)

lemma changes_extend: "changes why s (snd (extend m aid s))"
proof (cases "map_get (sr_attempts s) m")
  case (Some i)
  have "changes why s (start_timer i (clear_timer t s))" for t
    by (rule changes_one [of _ _ i "(sr_objects s ! i)\<lparr>sa_timer := Some (sr_nextTimer s)\<rparr>"]) (auto simp: start_timer_def update_object_def same_attempt_def)
  then show ?thesis using Some by (simp add: extend_def Let_def)
qed (simp add: extend_def)

lemma changes_step:
  assumes "registry_ok limits s"
  shows "changes (settles op) s (send_step limits s (op, now))"
proof (cases op)
  case (Release i)
  then show ?thesis by (simp add: release_def Let_def changes_objects)
next
  case (Fire h)
  then show ?thesis using changes_fire [of s h] by (simp add: changes_def)
next
  case (Reject i e)
  then show ?thesis by (simp add: reject_def changes_finish)
next
  case (RejectAll e)
  then show ?thesis using changes_rejectAll [of e s limits now "map_values (sr_attempts s)"] by (simp add: rejectAll_def changes_def)
qed (use changes_acquire changes_extend changes_resolve [OF assms] changes_legacy [OF assms] in simp_all)

section \<open>Timers\<close>

lemma fire_first:
  assumes ok: "core_ok s" and t: "sr_timers s = (h, i) # ts"
  shows "sr_timers (fire h s) = ts"
    and "sr_objects (fire h s) = (sr_objects s)[i := settle SendTimeout ((sr_objects s ! i)\<lparr>sa_timedOut := True, sa_timer := None\<rparr>)]"
    and "sa_outcome (sr_objects s ! i) = None" and "i < length (sr_objects s)"
proof -
  have hi: "(h, i) \<in> set (sr_timers s)" by (simp add: t)
  show i: "i < length (sr_objects s)" using core_okD(7) [OF ok hi] .
  note obj = object_okD [OF core_okD(4) [OF ok i]]
  show open_i: "sa_outcome (sr_objects s ! i) = None" using obj(4) hi by simp
  then have at: "map_get (sr_attempts s) (sa_messageId (sr_objects s ! i)) = Some i" using obj(1) by simp
  have "filter (\<lambda>x. fst x \<noteq> h) ts = ts" using core_okD(5) [OF ok] by (auto simp: t filter_id_conv image_iff)
  then show "sr_timers (fire h s) = ts" using at by (simp add: fire_def expire_def update_object_def clear_timer_def t)
  show "sr_objects (fire h s) = (sr_objects s)[i := settle SendTimeout ((sr_objects s ! i)\<lparr>sa_timedOut := True, sa_timer := None\<rparr>)]"
    using at by (simp add: fire_def expire_def update_object_def t)
qed

lemma fire_all:
  "core_ok s \<Longrightarrow> map fst (sr_timers s) = hs \<Longrightarrow> core_ok (foldl (\<lambda>s h. fire h s) s hs) \<and> sr_timers (foldl (\<lambda>s h. fire h s) s hs) = [] \<and>
    length (sr_objects (foldl (\<lambda>s h. fire h s) s hs)) = length (sr_objects s) \<and>
    (\<forall>j < length (sr_objects s). sa_outcome (sr_objects (foldl (\<lambda>s h. fire h s) s hs) ! j) = sa_outcome (sr_objects s ! j) \<or>
      sa_outcome (sr_objects s ! j) = None \<and> sa_outcome (sr_objects (foldl (\<lambda>s h. fire h s) s hs) ! j) = Some SendTimeout)"
proof (induction hs arbitrary: s)
  case (Cons h hs)
  obtain i ts where t: "sr_timers s = (h, i) # ts" "map fst ts = hs" using Cons.prems(2) by (cases "sr_timers s") auto
  note f = fire_first [OF Cons.prems(1) t(1)]
  note ih = Cons.IH [OF core_fire [OF Cons.prems(1)], of h, unfolded f(1), OF t(2)]
  have keep: "sa_outcome (sr_objects (fire h s) ! j) = (if j = i then Some SendTimeout else sa_outcome (sr_objects s ! j))" for j
    using f(2-4) by (cases "j = i") simp_all
  have len: "length (sr_objects (fire h s)) = length (sr_objects s)" using f(2) by simp
  have "sa_outcome (sr_objects (foldl (\<lambda>s h. fire h s) (fire h s) hs) ! j) = sa_outcome (sr_objects s ! j) \<or>
      sa_outcome (sr_objects s ! j) = None \<and> sa_outcome (sr_objects (foldl (\<lambda>s h. fire h s) (fire h s) hs) ! j) = Some SendTimeout"
    if "j < length (sr_objects s)" for j
    using ih keep [of j] f(3) that unfolding len by (cases "j = i") auto
  then show ?case using ih unfolding len by simp
qed simp

section \<open>Properties\<close>

text \<open>
  C15. A send is settled once and only by its own acknowledgement. In a registry reached by any history, an operation never changes
  the outcome of a settled attempt; an attempt becomes resolved only by an acknowledgement with its message id that names
  this attempt, or by one that names none if the attempt is of generation 1; timers and rejections give errors. A new attempt is of
  generation 1 if the registry remembers no generation of its id that is still within its lifetime, and of the next one otherwise.
\<close>

theorem send_settles_once:
  assumes "s = foldl (send_step limits) new_registry history" and "s' = send_step limits s (op, now)"
  shows "(\<forall>i < length (sr_objects s). same_attempt (sr_objects s ! i) (sr_objects s' ! i) \<and>
      (\<forall>x. sa_outcome (sr_objects s ! i) = None \<longrightarrow> sa_outcome (sr_objects s' ! i) = Some x \<longrightarrow> settles op (sr_objects s ! i) x)) \<and>
    (\<forall>uuid m sig. op = Acquire uuid m sig \<longrightarrow> map_get (sr_attempts s) m = None \<longrightarrow>
      length (sr_objects s') = Suc (length (sr_objects s)) \<and>
      sa_generation (last (sr_objects s')) = (case map_get (sr_generations s) m of None \<Rightarrow> 1 
        | Some g \<Rightarrow> if now - sg_touchedAt g \<le> generationTtlMs limits then sg_generation g + 1 else 1))"
proof -
  have ok: "registry_ok limits s" using sends.inv_run [of limits history] assms(1) by simp
  have "length (sr_objects s') = Suc (length (sr_objects s)) \<and> sa_generation (last (sr_objects s')) = (case map_get (sr_generations s) m of None \<Rightarrow> 1
      | Some g \<Rightarrow> if now - sg_touchedAt g \<le> generationTtlMs limits then sg_generation g + 1 else 1)"
    if a: "op = Acquire uuid m sig" "map_get (sr_attempts s) m = None" for uuid m sig
  proof -
    obtain n gs where n: "nextGeneration limits now m (sr_generations s) = (n, gs)" by force
    show ?thesis using new_attempt [OF a(2) n, of uuid sig] next_generation [of "sr_generations s" limits now m] n ok a(1) assms(2)
      by (simp add: registry_ok_def generations_ok_def)
  qed
  then show ?thesis using changes_step [OF ok, of op now] assms(2) by (simp add: changes_def)
qed

definition sample_limits :: send_limits where
  "sample_limits = \<lparr>generationTtlMs = 600000, maxGenerations = 10000\<rparr>"

theorem send_settles_once_witness:
  "\<exists>s s'. s = foldl (send_step sample_limits) new_registry [(Acquire ''u'' ''m'' ''sig'' :: nat send_op, 0)] \<and> s' = send_step sample_limits s (Resolve ''m'' ''u'' 7, 5) \<and>
    sa_outcome (sr_objects s ! 0) = None \<and> sa_outcome (sr_objects s' ! 0) = Some (Resolved 7) \<and> settles (Resolve ''m'' ''u'' 7) (sr_objects s ! 0) (Resolved 7)"
proof -
  let ?s = "foldl (send_step sample_limits) new_registry [(Acquire ''u'' ''m'' ''sig'' :: nat send_op, 0)]"
  let ?s' = "send_step sample_limits ?s (Resolve ''m'' ''u'' 7, 5)"
  have s: "0 < length (sr_objects ?s)" "sa_outcome (sr_objects ?s ! 0) = None" by code_simp+
  have s': "sa_outcome (sr_objects ?s' ! 0) = Some (Resolved 7)" by code_simp
  have "settles (Resolve ''m'' ''u'' 7) (sr_objects ?s ! 0) (Resolved 7)" using send_settles_once [OF refl refl, of sample_limits "[(Acquire ''u'' ''m'' ''sig'', 0)]"] s s' by blast
  then show ?thesis using s(2) s' by blast
qed

text \<open>
  C16. No send waits for ever: in a registry reached by any history, every attempt without an outcome has a timer that runs, and
  once the running timers have fired, every attempt has an outcome, a timeout for those that had none.
\<close>

theorem pending_sends_time_out:
  assumes "s = foldl (send_step limits) new_registry history" and "i < length (sr_objects s)"
  shows "(sa_outcome (sr_objects s ! i) = None \<longrightarrow> (\<exists>h. (h, i) \<in> set (sr_timers s))) \<and>
    sa_outcome (sr_objects (foldl (\<lambda>s h. fire h s) s (map fst (sr_timers s))) ! i) =
      (case sa_outcome (sr_objects s ! i) of None \<Rightarrow> Some SendTimeout | Some x \<Rightarrow> Some x)"
proof -
  have ok: "core_ok s" using sends.inv_run [of limits history] assms(1) by (simp add: registry_ok_def)
  let ?s = "foldl (\<lambda>s h. fire h s) s (map fst (sr_timers s))"
  note all = fire_all [OF ok refl]
  have i: "i < length (sr_objects ?s)" using all assms(2) by simp
  have "sa_outcome (sr_objects ?s ! i) \<noteq> None" using object_okD(3,4) [OF core_okD(4) [OF _ i]] all by (metis empty_iff list.set(1) not_None_eq)
  moreover have "\<exists>h. (h, i) \<in> set (sr_timers s)" if "sa_outcome (sr_objects s ! i) = None"
    using object_okD(3,4) [OF core_okD(4) [OF ok assms(2)]] that by blast
  ultimately show ?thesis using all assms(2) by (cases "sa_outcome (sr_objects s ! i)") auto
qed

theorem pending_sends_time_out_witness:
  "\<exists>s. s = foldl (send_step sample_limits) new_registry [(Acquire ''u'' ''m'' ''sig'' :: nat send_op, 0), (Extend ''m'' None, 3)] \<and>
    sa_outcome (sr_objects (foldl (\<lambda>s h. fire h s) s (map fst (sr_timers s))) ! 0) = Some SendTimeout"
proof -
  let ?s = "foldl (send_step sample_limits) new_registry [(Acquire ''u'' ''m'' ''sig'' :: nat send_op, 0), (Extend ''m'' None, 3)]"
  have s: "0 < length (sr_objects ?s)" "sa_outcome (sr_objects ?s ! 0) = None" by code_simp+
  then show ?thesis using pending_sends_time_out [OF refl s(1)] by (intro exI [of _ ?s]) simp
qed

text \<open>
  An acknowledgement that names no attempt does not settle a later attempt. While the registry remembers a generation of an
  id that is not stale, a new attempt of the id gets the next generation, and such acknowledgements are refused; the
  number of ids it remembers is bounded.
\<close>

theorem late_acknowledgement_refused:
  assumes "s = foldl (send_step limits) new_registry history" and "map_get (sr_attempts s) m = None"
    and "map_get (sr_generations s) m = Some g" and "now - sg_touchedAt g \<le> generationTtlMs limits"
  shows "sa_generation (last (sr_objects (snd (acquire limits uuid m sig now s)))) = sg_generation g + 1 \<and>
    \<not> fst (resolveLegacy limits m r later (snd (acquire limits uuid m sig now s))) \<and>
    int (length (sr_generations s)) \<le> max 1 (maxGenerations limits)"
proof -
  have gs: "generations_ok limits (sr_generations s)" using sends.inv_run [of limits history] assms(1) by (simp add: registry_ok_def)
  have pos: "1 \<le> sg_generation g" using map_get_Some_in_set [OF assms(3)] gs by (auto simp: generations_ok_def)
  obtain n gs' where n: "nextGeneration limits now m (sr_generations s) = (n, gs')" by force
  have "n = sg_generation g + 1" using next_after [of "sr_generations s" m g limits now] gs assms(3,4) n by (simp add: generations_ok_def stale_def)
  then show ?thesis using new_attempt [OF assms(2) n, of uuid sig] pos gs by (simp add: resolveLegacy_def nth_append generations_ok_def)
qed

theorem late_acknowledgement_refused_witness:
  "\<not> fst (resolveLegacy sample_limits ''m'' 9 60 (snd (acquire sample_limits ''v'' ''m'' ''sig'' 50
    (foldl (send_step sample_limits) new_registry [(Acquire ''u'' ''m'' ''sig'' :: nat send_op, 0), (Fire 0, 30), (Release 0, 31)]))))"
proof -
  let ?s = "foldl (send_step sample_limits) new_registry [(Acquire ''u'' ''m'' ''sig'' :: nat send_op, 0), (Fire 0, 30), (Release 0, 31)]"
  have s: "map_get (sr_attempts ?s) ''m'' = None" "map_get (sr_generations ?s) ''m'' = Some \<lparr>sg_generation = 1, sg_touchedAt = 31\<rparr>" by code_simp+
  have t: "50 - sg_touchedAt \<lparr>sg_generation = 1, sg_touchedAt = 31\<rparr> \<le> generationTtlMs sample_limits" by (simp add: sample_limits_def)
  show ?thesis using late_acknowledgement_refused [OF refl s t] by blast
qed

end
