(* ===== verification/Spec2Isabelle.thy ===== *)
theory Spec2Isabelle
  imports Graph_Inference Run_Journal Stage_Topology Concurrency_Limiter Prompt_Reservations Delivered_Messages
    Intercom_Inbox Compaction_Plan Planner_Input Truncation Tool_Pairing Request_Lanes Pool_Places
    Pool_Commit Pool_Validation Edit_Diff Wire_Framing Pending_Questions Pending_Sends
begin

text \<open>
  \<^bold>\<open>Atomic: a model of its core logic.\<close>

  Atomic is a coding agent with durable multi-stage workflows. A workflow run spawns stages, whose parents the engine
  infers from the order in which stages start and settle; the run's events go to a journal under a lease, so that
  another process can take the run over; checkpoints of stages, nested workflows and prompts are read back from it when
  the run resumes. Children of a run may execute in worker processes of a pool, which take work from a queue under leases
  and commit their checkpoints through it. Agents of one project talk through an intercom broker that must not deliver a message twice. Inside
  a session, the agent's context is repaired before it is sent to a provider, tool output is truncated, files are edited by replacing texts, and a transcript
  that outgrows the model's window is compacted by deleting whole lines. The development models these parts, each from
  its own source files; paths below are under \<^verbatim>\<open>src/packages\<close>.

  \<^bold>\<open>Theories and the code they model.\<close>

  \<^item> \<open>Prelude\<close>: JavaScript values as the code uses them. A \<open>Set\<close> is a distinct list and a \<open>Map\<close> an association list, both
    in insertion order (\<open>jset\<close>, \<open>jmap\<close>); \<open>json\<close> values; numbers that may be NaN or infinite; decimal numerals; results
    that are an error or a value; splitting and joining at a separator. The locales \<open>keyed_store\<close>, \<open>step_system\<close> and
    \<open>monotone_system\<close> state what the components promise each other and are interpreted on the model's definitions.
  \<^item> \<open>Js_Text\<close>: UTF-16 text, its code points, the UTF-8 bytes of \<open>Buffer.from\<close> and the decoding of \<open>toString\<close>, with the
    laws that relate them.
  \<^item> \<open>Graph_Inference\<close> (\<^verbatim>\<open>workflows/src/engine/graph-inference.ts\<close>): the tracker of the stage graph. Shown: the recorded
    graph stays acyclic, the cycle check is exact, and stages that run side by side join as parents of the next one.
  \<^item> \<open>Run_Journal\<close> (\<^verbatim>\<open>workflows/src/durable/journal/memory-run-journal.ts\<close>, \<^verbatim>\<open>values.ts\<close>, \<^verbatim>\<open>lease-expiry.ts\<close>): runs, leases
    with fencing epochs, keyed and conditional appends, paged reads. Shown: a taken-over writer is fenced for good,
    epochs identify holders, entries are numbered without gaps, keyed appends are idempotent, the paged read is complete.
  \<^item> \<open>Stage_Topology\<close> (\<^verbatim>\<open>workflows/src/durable/stage-topology-validation.ts\<close>, \<^verbatim>\<open>workflow-child-result.ts\<close>,
    \<^verbatim>\<open>boundary-lifecycle.ts\<close>): what is accepted as a recorded child topology and as the lifecycle of a nested workflow.
  \<^item> \<open>Concurrency_Limiter\<close> (\<^verbatim>\<open>workflows/src/runs/shared/concurrency.ts\<close>): the semaphore of a run; slots, order and progress.
  \<^item> \<open>Prompt_Reservations\<close> (\<^verbatim>\<open>workflows/src/durable/prompt-reservation-state.ts\<close>): tokens of pending prompts, snapshots and
    their merge.
  \<^item> \<open>Delivered_Messages\<close> (\<^verbatim>\<open>intercom/broker/delivered-message-cache.ts\<close>): the authority over delivered message ids, in
    memory and over a database; the durable one refines the one in memory, also across a restart.
  \<^item> \<open>Wire_Framing\<close> (\<^verbatim>\<open>intercom/broker/framing.ts\<close>): frames of messages on a socket. Shown: the chunks in which bytes arrive
    do not matter, and messages written are the messages read. The texts of \<open>JSON\<close> are exchanged by two arguments.
  \<^item> \<open>Pending_Questions\<close> (\<^verbatim>\<open>pending-question-index.ts\<close>, \<^verbatim>\<open>terminal-questions.ts\<close>): the questions that wait for a reply. The two
    maps of the index refine two bags of questions; no question is lost and none answered twice.
  \<^item> \<open>Pending_Sends\<close> (\<^verbatim>\<open>pending-send-registry.ts\<close>): the sends a client waits for, with promises and timers. Each is settled
    once, by its own acknowledgement, its timer or a rejection; acknowledgements that name no attempt settle only attempts
    of generation 1, those for whose id the registry remembered none.
  \<^item> \<open>Intercom_Inbox\<close> (\<^verbatim>\<open>intercom/session-target.ts\<close>, \<^verbatim>\<open>inbound-idle-queue.ts\<close>, \<^verbatim>\<open>reply-tracker.ts\<close>): who a target names,
    which queued messages a finished child takes along, and to whom a reply goes.
  \<^item> \<open>Request_Lanes\<close> (\<^verbatim>\<open>workflows/src/workers/worker-request-lanes.ts\<close>): which requests of a worker wait for which, and how
    lease extensions of one attempt share a call.
  \<^item> \<open>Pool_Places\<close> (\<^verbatim>\<open>workflows/src/workers/waiting-workers.ts\<close>): how many attempts run at once when attempts that wait give
    their place away; the bound, and who is woken first.
  \<^item> \<open>Pool_Queue\<close> and \<open>Pool_Lifecycle\<close> (\<^verbatim>\<open>workflows/src/durable/journal/sql-pool-queue.ts\<close>): the tables of the pool as a record
    and each transaction of \<open>SqlPoolQueue\<close> as a function on it; the operations refine a small life cycle of a work item, an
    attempt that lost its work is fenced for good, and a root whose lease is lost or late writes nothing but its snapshot.
  \<^item> \<open>Pool_Commit\<close> (the same file, \<^verbatim>\<open>pool-remote-journal.ts\<close>, \<^verbatim>\<open>pool-mutations.ts\<close>, \<^verbatim>\<open>pool-stage-usage.ts\<close>): commits when the
    journal is another database: staged in an outbox, appended, answered. The queue and the journal of \<open>Run_Journal\<close> are
    composed in one step relation with crashes and lost replies. Shown: no accepted commit is lost, the outbox drains,
    and neither a claim nor a result overtakes a commit. The locale \<open>keyed_log\<close> is what the pool needs of any journal.
  \<^item> \<open>Checkpoint_Index\<close> (\<^verbatim>\<open>pool-checkpoint-index.ts\<close>) and \<open>Pool_Validation\<close> (\<open>validatePoolMutation\<close> of \<^verbatim>\<open>pool-mutations.ts\<close>):
    the checks of a worker's checkpoint against what the root has recorded, read through an index that several reads and
    their folds share by reference. Shown: a view not yet folded in answers like a scan of the root's events, a read in a transaction is
    a run of the steps of a read of the stream, validation gives the answer it would give on everything recorded, and an
    accepted stage stays inside the work's scope with a topology and lifecycles that \<open>Stage_Topology\<close> accepts. A pass over
    the stream of events is one step, a root that is read has an event, and marks of events do not repeat across recordings.
  \<^item> \<open>Compaction\<close> and \<open>Compaction_Plan\<close> (\<^verbatim>\<open>coding-agent/src/core/compaction/deleted-ranges.ts\<close>, \<^verbatim>\<open>region-trimming.ts\<close>,
    \<^verbatim>\<open>transcript-serialization.ts\<close>, \<open>planWithTrimming\<close> of \<^verbatim>\<open>compaction-runner.ts\<close>): from the ranges an untrusted planner
    returns to the compacted text. Validation is compared with a specification on sets of line numbers, the folding of
    earlier markers with a least closure given inductively, the scan for protected spans with a declarative
    definition; the output is verbatim, the counts in its markers are exact, and the trimming walk ends. A protected line that is
    itself an earlier marker may be folded away, so survival of protected lines is stated where there is none.
  \<^item> \<open>Planner_Input\<close> (\<^verbatim>\<open>structured-compaction-input.ts\<close> and the serialiser of \<^verbatim>\<open>transcript-serialization.ts\<close>): what the
    planner is shown and how its records map back to lines.
  \<^item> \<open>Truncation\<close> (\<^verbatim>\<open>coding-agent/src/core/tools/truncate.ts\<close>): head, tail and middle truncation within line and byte
    limits, on character boundaries.
  \<^item> \<open>Edit_Text\<close>, \<open>Edit_Match\<close> and \<open>Edit_Diff\<close> (\<^verbatim>\<open>coding-agent/src/core/tools/edit-diff.ts\<close>, the content written by
    \<^verbatim>\<open>edit.ts\<close>, \<open>splitBom\<close> of \<^verbatim>\<open>utils/text.ts\<close>): the edit tool. Its positions are in the text with line feeds only; shown are
    that the file written is the content its diff shows, that outside the matched ranges, or outside the touched lines
    where matching is loose, nothing changes, and that the windows the diff compares hold every change and number
    their lines as the files do. NFKC normalisation, the line diff and the structured patch of the package \<open>diff\<close> and its
    printing are arguments; what is needed of the line diff is \<open>line_diff\<close>.
  \<^item> \<open>Tool_Pairing\<close> (\<^verbatim>\<open>coding-agent/src/core/context-tool-pairing.ts\<close>): unique tool call ids, results that follow their
    calls, and the guard against repeated turns.

  \<^bold>\<open>How code becomes definitions.\<close> Objects with mutable fields are records passed from operation to operation; a method
  that throws returns a sum whose left side is an error datatype with the source's cases (texts of errors are not
  modelled). Every reading of the clock, every random or cryptographic value, every answer of a model and every abort
  signal is an argument. Loops are structural recursions or functions with a termination proof by a measure: the cycle
  search, the closure of markers, the walk over shorter views, the search for a free id, the decoding of bytes, the
  searches of the edit tool. Fuel
  occurs only in the paged read of the journal, and the theorem about it gives the fuel that suffices. Machine integers
  matter at two places: code units are 16-bit words, and counters are checked against the largest safe integer. Other
  numbers are exact; the rounding of doubles is not modelled. Asynchronous code is a sequence of steps, each running to
  its next await, in any order the event loop may choose.

  A SQL transaction is one atomic step on a record of the tables it touches.

  \<^bold>\<open>Not modelled, and why.\<close> Provider clients, terminal modes, web access, subagent processes and sockets of the broker are
  effects of other systems; the stage runner, the pool's coordinator and the agent session are asynchronous glue over the
  parts above; prediction of possible stages analyses syntax trees; the SQL run journals keep the contract of the one in
  memory. Of the pool's queue, the migration of old tables, the totals its triggers keep, the commit to a journal in the
  same database, the mirroring of the root's rows, the join of commits in flight and the cascade of a deleted run are left out; the answer of validation, what a checkpoint bills and the
  session store are arguments of the commit. Of the other modelled files, the left-outs are printing of error texts,
  logging, and \<open>numberRegionLines\<close>.

  \<^bold>\<open>Left for later.\<close> Run timing and budgets, resume eligibility, the pending-stage delivery of the workflow store,
  the placement choice and held answers of the pool, and the
  recipients and receipts of the broker.
\<close>

end
